(* ===== verification/Crab_Prelude.thy ===== *)
theory Crab_Prelude
  imports Main "HOL-Library.Word" "HOL-Library.Monad_Syntax"
begin

text \<open>
  Shared vocabulary of the CrabOS development.

  \<^item> Machine integers: \<open>u8\<close> to \<open>u64\<close> are words; \<open>usize\<close> is a \<open>u64\<close> where
    its wrap-around matters and a \<open>nat\<close> where the source only counts.
  \<^item> A panic.  Every \<open>panic!\<close>, failed \<open>expect\<close>, failed array index and CPU
    exception of the kernel ends in \<open>cli; hlt\<close>, so a computation that may panic
    returns an \<open>option\<close> and \<open>None\<close> is the panic.  The \<open>do\<close> notation of the option
    type propagates it.
  \<^item> \<open>Result<T, E>\<close> is the sum \<open>'e + 't\<close> with \<open>Inl\<close> for \<open>Err\<close>.
  \<^item> A \<open>for\<close> loop whose body may panic is \<open>fold_opt\<close>; one whose body may also
    return early with an error is \<open>fold_res\<close>.
\<close>

unbundle bit_operations_syntax

type_synonym u8 = "8 word"
type_synonym u16 = "16 word"
type_synonym u32 = "32 word"
type_synonym u64 = "64 word"

text \<open>\<open>core::alloc::AllocErr\<close>, the error of every allocation.\<close>

datatype alloc_err = AllocErr

named_theorems paging_simps \<open>index and frame arithmetic of the page tables\<close>
named_theorems option_monad \<open>splitting the option monad\<close>

section \<open>Loops that may panic or return early\<close>

fun fold_opt :: "('a \<Rightarrow> 's \<Rightarrow> 's option) \<Rightarrow> 'a list \<Rightarrow> 's \<Rightarrow> 's option" where
  "fold_opt f [] s = Some s"
| "fold_opt f (x # xs) s = do { s' \<leftarrow> f x s; fold_opt f xs s' }"

fun fold_res :: "('a \<Rightarrow> 's \<Rightarrow> (('e + unit) \<times> 's) option) \<Rightarrow> 'a list \<Rightarrow> 's
    \<Rightarrow> (('e + unit) \<times> 's) option" where
  "fold_res f [] s = Some (Inr (), s)"
| "fold_res f (x # xs) s =
     (case f x s of
        None \<Rightarrow> None
      | Some (Inl e, s') \<Rightarrow> Some (Inl e, s')
      | Some (Inr _, s') \<Rightarrow> fold_res f xs s')"

section \<open>Checked arithmetic of the Rust standard library\<close>

definition checked_add :: "u64 \<Rightarrow> u64 \<Rightarrow> u64 option" where
  "checked_add a b = (if unat a + unat b < 2 ^ 64 then Some (a + b) else None)"

definition checked_mul :: "u64 \<Rightarrow> u64 \<Rightarrow> u64 option" where
  "checked_mul a b = (if unat a * unat b < 2 ^ 64 then Some (a * b) else None)"

section \<open>Generic lemmas\<close>

lemmas [option_monad] = bind_eq_Some_conv bind_eq_None_conv

lemma checked_add_Some:
  "checked_add a b = Some c \<Longrightarrow> c = a + b \<and> unat c = unat a + unat b"
  by (auto simp: checked_add_def unat_word_ariths split: if_splits)

lemma checked_mul_Some:
  "checked_mul a b = Some c \<Longrightarrow> c = a * b \<and> unat c = unat a * unat b"
  by (auto simp: checked_mul_def unat_word_ariths split: if_splits)

lemma fold_opt_append:
  "fold_opt f (xs @ ys) s = do { s' \<leftarrow> fold_opt f xs s; fold_opt f ys s' }"
  by (induction xs arbitrary: s) (auto split: Option.bind_splits)

lemma fold_opt_inv:
  assumes "fold_opt f xs s = Some s'" and "P s"
    and "\<And>x t t'. x \<in> set xs \<Longrightarrow> P t \<Longrightarrow> f x t = Some t' \<Longrightarrow> P t'"
  shows "P s'"
  using assms
proof (induction xs arbitrary: s)
  case Nil
  then show ?case by simp
next
  case (Cons x xs)
  from Cons.prems(1) obtain t where "f x s = Some t" and "fold_opt f xs t = Some s'"
    by (auto simp: option_monad)
  with Cons show ?case by (metis list.set_intros)
qed

lemma fold_opt_total:
  assumes "P s"
    and "\<And>x t. x \<in> set xs \<Longrightarrow> P t \<Longrightarrow> \<exists>t'. f x t = Some t' \<and> P t'"
  shows "\<exists>s'. fold_opt f xs s = Some s' \<and> P s'"
  using assms
proof (induction xs arbitrary: s)
  case Nil
  then show ?case by simp
next
  case (Cons x xs)
  from Cons.prems obtain t where t: "f x s = Some t" "P t"
    by (meson list.set_intros(1))
  with Cons show ?case by simp
qed

lemma word_add_or:
  "(a :: u64) AND b = 0 \<Longrightarrow> a + b = a OR b"
  by (metis disjunctive_add bit_and_iff bit_0_eq bot_apply bot_bool_def)

end
