(* ===== verification/Interface.thy ===== *)
theory Interface
  imports Crab_Prelude
begin

text \<open>
  The binary interface between user programs and the kernel: \<open>interface/src/lib.rs\<close> (the
  \<open>enum64!\<close> macro) and \<open>interface/src/syscall.rs\<close> (its two uses), the encoding of a result into
  \<open>rax\<close> by \<open>syscall::dispatch\<close> and its decoding by \<open>crabapi::syscall\<close>.

  A variant of an \<open>enum64!\<close> is a constructor, \<open>variant as u64\<close> is \<open>..._vector\<close> and
  \<open>TryFrom<u64>\<close> is \<open>..._try_from\<close>, with the arms of the generated \<open>match\<close> in their order.
\<close>

section \<open>System call numbers and errors\<close>

datatype syscall =
    AllocPage | ReleasePage | ModifyPage | ReleaseHandle | CloneHandle | CreatePageContext
  | Debug | SetPageContext | GetPageContext | CreateTask | Exit | MapPhysicalMemory
  | ReadStream | WriteStream | OpenFile

datatype sys_error =
    SysBadSyscall | SysBadPointer | SysAlreadyMapped | SysMemoryExhausted | SysIllegalValue
  | SysWrongObjectKind | SysBadHandle | SysIoError | SysNoFile | SysInvalidOperation

type_synonym 'a sys_result = "sys_error + 'a"

definition syscall_table :: "(u64 \<times> syscall) list" where
  "syscall_table =
    [(1, AllocPage), (2, ReleasePage), (3, ModifyPage), (4, ReleaseHandle), (5, CloneHandle),
     (6, CreatePageContext), (7, Debug), (8, SetPageContext), (9, GetPageContext),
     (10, CreateTask), (11, Exit), (12, MapPhysicalMemory), (13, ReadStream),
     (14, WriteStream), (15, OpenFile)]"

definition sys_error_table :: "(u64 \<times> sys_error) list" where
  "sys_error_table =
    [(0xffffffff00000001, SysBadSyscall), (0xffffffff00000002, SysBadPointer),
     (0xffffffff00000003, SysAlreadyMapped), (0xffffffff00000004, SysMemoryExhausted),
     (0xffffffff00000005, SysIllegalValue), (0xffffffff00000006, SysWrongObjectKind),
     (0xffffffff00000007, SysBadHandle), (0xffffffff00000008, SysIoError),
     (0xffffffff00000009, SysNoFile), (0xffffffff00000010, SysInvalidOperation)]"

text \<open>The two items the macro generates from such a table (of any width: \<open>interrupts!\<close> of the kernel
  generates the same two matches over \<open>u8\<close>).\<close>

fun enum64_try_from :: "('w \<times> 'v) list \<Rightarrow> 'w \<Rightarrow> 'v option" where
  "enum64_try_from [] vector = None"
| "enum64_try_from ((w, v) # tbl) vector =
     (if vector = w then Some v else enum64_try_from tbl vector)"

fun enum64_as_u64 :: "('w \<times> 'v) list \<Rightarrow> 'v \<Rightarrow> 'w option" where
  "enum64_as_u64 [] v = None"
| "enum64_as_u64 ((w, u) # tbl) v = (if v = u then Some w else enum64_as_u64 tbl v)"

definition OK_CODE :: u64 where "OK_CODE = 0"
definition ERR_FLAG :: u64 where "ERR_FLAG = 0x8000000000000000"

section \<open>Results in a register\<close>

text \<open>\<open>syscall::dispatch\<close>: \<open>match result { Ok(u) => u, Err(e) => e as u64 }\<close>.\<close>

definition encode_result :: "u64 sys_result \<Rightarrow> u64" where
  "encode_result r =
     (case r of Inr u \<Rightarrow> u | Inl e \<Rightarrow> the (enum64_as_u64 sys_error_table e))"

text \<open>
  \<open>impl From<SyscallResult> for Result<T, SysError>\<close>.  The three \<open>FromSysOk\<close> instances read the
  register as it is.  \<open>None\<close> is the failed \<open>expect\<close>.
\<close>

definition decode_result :: "u64 \<Rightarrow> u64 sys_result option" where
  "decode_result raw =
     (if raw AND ERR_FLAG = 0 then Some (Inr raw)
      else map_option Inl (enum64_try_from sys_error_table raw))"

section \<open>Laws\<close>

text \<open>What a table must satisfy for the two directions to be inverse.\<close>

definition enum64_ok :: "('w \<times> 'v) list \<Rightarrow> bool" where
  "enum64_ok tbl \<longleftrightarrow> distinct (map fst tbl) \<and> distinct (map snd tbl)"

lemma enum64_try_from_mem:
  "distinct (map fst tbl) \<Longrightarrow> enum64_try_from tbl w = Some v \<longleftrightarrow> (w, v) \<in> set tbl"
  by (induction tbl w rule: enum64_try_from.induct) (auto simp: rev_image_eqI)

lemma enum64_as_u64_mem:
  "distinct (map snd tbl) \<Longrightarrow> enum64_as_u64 tbl v = Some w \<longleftrightarrow> (w, v) \<in> set tbl"
  by (induction tbl v rule: enum64_as_u64.induct) (auto simp: rev_image_eqI)

lemma enum64_inverse:
  assumes "enum64_ok tbl"
  shows "enum64_try_from tbl w = Some v \<longleftrightarrow> enum64_as_u64 tbl v = Some w"
  using assms by (simp add: enum64_ok_def enum64_try_from_mem enum64_as_u64_mem)

locale enum64 =
  fixes tbl :: "('w \<times> 'v) list"
  assumes table_ok: "enum64_ok tbl"
    and table_total: "\<And>v. v \<in> snd ` set tbl"
begin

lemma as_u64_total: "\<exists>w. enum64_as_u64 tbl v = Some w"
proof -
  obtain w where "(w, v) \<in> set tbl"
    using table_total [of v] by auto
  then show ?thesis
    using table_ok by (auto simp: enum64_ok_def enum64_as_u64_mem)
qed

lemma try_from_as: "enum64_try_from tbl (the (enum64_as_u64 tbl v)) = Some v"
  using as_u64_total [of v] table_ok by (auto simp: enum64_inverse)

lemma as_mem: "(the (enum64_as_u64 tbl v), v) \<in> set tbl"
proof -
  obtain w where "enum64_as_u64 tbl v = Some w"
    using as_u64_total by blast
  then show ?thesis
    using table_ok enum64_as_u64_mem [of tbl v w] by (simp add: enum64_ok_def)
qed

end

interpretation syscalls: enum64 syscall_table
proof
  show "enum64_ok syscall_table"
    by (simp add: enum64_ok_def syscall_table_def)
  show "v \<in> snd ` set syscall_table" for v
    by (cases v) (simp_all add: syscall_table_def)
qed

interpretation errors: enum64 sys_error_table
proof
  show "enum64_ok sys_error_table"
    by (simp add: enum64_ok_def sys_error_table_def)
  show "v \<in> snd ` set sys_error_table" for v
    by (cases v) (simp_all add: sys_error_table_def)
qed

lemma error_codes_flagged:
  "w \<in> fst ` set sys_error_table \<Longrightarrow> w AND ERR_FLAG \<noteq> 0"
  by (auto simp: sys_error_table_def ERR_FLAG_def)

lemma encode_error_flagged: "encode_result (Inl e) AND ERR_FLAG \<noteq> 0"
  using errors.as_mem [of e] by (auto simp: encode_result_def intro!: error_codes_flagged rev_image_eqI)

lemma decode_encode_error: "decode_result (encode_result (Inl e)) = Some (Inl e)"
  using encode_error_flagged [of e] errors.try_from_as [of e]
  by (simp add: decode_result_def encode_result_def)

lemma decode_encode_ok: "u AND ERR_FLAG = 0 \<Longrightarrow> decode_result (encode_result (Inr u)) = Some (Inr u)"
  by (simp add: decode_result_def encode_result_def)

section \<open>Properties\<close>

text \<open>C15: What the kernel returns from a system call is what the user program decodes: every error, and
  every value whose top bit is clear.  The condition is exact, a value with the top bit set is
  never decoded as itself.\<close>

theorem syscall_result_roundtrip:
  "decode_result (encode_result r) = Some r \<longleftrightarrow>
     (case r of Inl e \<Rightarrow> True | Inr u \<Rightarrow> u AND ERR_FLAG = 0)"
proof (cases r)
  case (Inl e)
  then show ?thesis by (simp add: decode_encode_error)
next
  case (Inr u)
  then show ?thesis
    by (auto simp: decode_encode_ok decode_result_def encode_result_def)
qed

text \<open>The numbers of the system calls and of the errors are each a one-to-one code: a number decodes
  to a variant exactly when the variant encodes to the number, every variant has a number, and the
  numbers of errors and the numbers of calls are told apart by the error flag.\<close>

lemma enum64_codes:
  "(enum64_try_from syscall_table w = Some c \<longleftrightarrow> enum64_as_u64 syscall_table c = Some w) \<and>
   (enum64_try_from sys_error_table w = Some e \<longleftrightarrow> enum64_as_u64 sys_error_table e = Some w) \<and>
   (\<exists>n. enum64_as_u64 syscall_table c = Some n \<and> n AND ERR_FLAG = 0) \<and>
   (\<exists>n. enum64_as_u64 sys_error_table e = Some n \<and> n AND ERR_FLAG \<noteq> 0)"
proof (intro conjI)
  show "enum64_try_from syscall_table w = Some c \<longleftrightarrow> enum64_as_u64 syscall_table c = Some w"
    by (rule enum64_inverse [OF syscalls.table_ok])
  show "enum64_try_from sys_error_table w = Some e \<longleftrightarrow> enum64_as_u64 sys_error_table e = Some w"
    by (rule enum64_inverse [OF errors.table_ok])
  show "\<exists>n. enum64_as_u64 syscall_table c = Some n \<and> n AND ERR_FLAG = 0"
    using syscalls.as_u64_total [of c] syscalls.as_mem [of c]
    by (auto simp: syscall_table_def ERR_FLAG_def)
  show "\<exists>n. enum64_as_u64 sys_error_table e = Some n \<and> n AND ERR_FLAG \<noteq> 0"
    using errors.as_u64_total [of e] encode_error_flagged [of e] by (auto simp: encode_result_def)
qed

end
