(* ===== verification/Paging.thy ===== *)
theory Paging
  imports Crab_Prelude
begin

text \<open>
  The x86-64 memory management unit as the kernel uses it, and the part of
  \<open>kernel/src/mem/page.rs\<close> that reads and edits page tables without allocating.

  \<^item> \<open>kmem\<close> is the state of the memory subsystem: physical memory as 64-bit words at
    byte addresses, the register CR3, the link-time addresses the code takes with
    \<open>extern\<close> statics, and the statics of \<open>phys.rs\<close>.
  \<^item> \<open>translate\<close> is the four-level walk of the processor in supervisor mode (the boot
    code never sets CR0.WP, so a supervisor write needs no WRITE bit); \<open>None\<close> is a page
    fault, which \<open>mem/fault.rs\<close> turns into a panic.  Large pages and stale TLB entries
    are outside the model.
  \<^item> The kernel reaches every page table through the recursive entry 511 of the PML4:
    \<open>pml4_entry\<close> to \<open>pml1_entry\<close> compute virtual addresses inside that window.  The
    main lemmas of this theory (\<open>translate_pml1_entry\<close> and its siblings) show that these
    addresses translate to the page table slots of the walk.
\<close>

record phys_region =
  region_begin :: u64
  region_end :: u64

record kmem =
  pmem :: "u64 \<Rightarrow> u64"
  cr3 :: u64
  temp_page :: u64
  phys_rc :: u64
  phys_rc_end :: u64
  PHYS_REGIONS :: "phys_region list option"
  PHYS_BUMP_ALLOC :: "u64 list option"
  REF_COUNT_ENABLED :: bool
  NEXT_FREE_PHYS :: "u64 option"
  rc_array :: "u64 \<Rightarrow> u64"

section \<open>The processor's page walk\<close>

definition ix :: "nat \<Rightarrow> u64 \<Rightarrow> u64" where
  "ix l v = drop_bit (12 + 9 * l) v AND 0x1ff"

definition frame :: "u64 \<Rightarrow> u64" where
  "frame e = e AND 0x000ffffffffff000"

definition present :: "u64 \<Rightarrow> bool" where
  "present e \<longleftrightarrow> e AND 1 \<noteq> 0"

definition translate :: "kmem \<Rightarrow> u64 \<Rightarrow> u64 option" where
  "translate s v =
     (let e4 = pmem s (frame (cr3 s) + 8 * ix 3 v) in
      if \<not> present e4 then None else
      let e3 = pmem s (frame e4 + 8 * ix 2 v) in
      if \<not> present e3 then None else
      let e2 = pmem s (frame e3 + 8 * ix 1 v) in
      if \<not> present e2 then None else
      let e1 = pmem s (frame e2 + 8 * ix 0 v) in
      if \<not> present e1 then None else Some (frame e1 + (v AND 0xfff)))"

definition vread :: "kmem \<Rightarrow> u64 \<Rightarrow> u64 option" where
  "vread s v = map_option (pmem s) (translate s v)"

definition set_pmem :: "u64 \<Rightarrow> u64 \<Rightarrow> kmem \<Rightarrow> kmem" where
  "set_pmem a x s = s\<lparr>pmem := (pmem s)(a := x)\<rparr>"

definition vwrite :: "u64 \<Rightarrow> u64 \<Rightarrow> kmem \<Rightarrow> kmem option" where
  "vwrite v x s = map_option (\<lambda>p. set_pmem p x s) (translate s v)"

section \<open>page.rs: entries and flags\<close>

definition PAGE_SIZE :: u64 where
  "PAGE_SIZE = 0x1000"

definition PRESENT :: u64 where "PRESENT = 0x001"
definition WRITE :: u64 where "WRITE = 0x002"
definition USER :: u64 where "USER = 0x004"
definition PAGE_FLAGS_ALL :: u64 where
  \<comment> \<open>PRESENT, WRITE, USER, WRITE_THROUGH, CACHE_DISABLED, ACCESSED, DIRTY, GLOBAL\<close>
  "PAGE_FLAGS_ALL = 0x0ff"

definition raw_phys :: "u64 \<Rightarrow> u64 option" where
  "raw_phys e = (let raw = e AND NOT 0xfff in if raw \<noteq> 0 then Some raw else None)"

text \<open>
  \<open>from_bits\<close> is the constructor the third-party crate \<open>bitflags\<close> generates: the
  first argument is the union of the declared flags, the second the raw bits.
\<close>

definition pml_flags :: "(u64 \<Rightarrow> u64 \<Rightarrow> u64 option) \<Rightarrow> u64 \<Rightarrow> u64 option" where
  "pml_flags from_bits e = from_bits PAGE_FLAGS_ALL (e AND 0xfff)"

definition set_flags :: "u64 \<Rightarrow> u64 \<Rightarrow> u64" where
  "set_flags e fl = (e AND NOT 0xfff) OR fl"

section \<open>page.rs: the recursive window\<close>

definition CURRENT_PML :: u64 where
  "CURRENT_PML = 0xffffff8000000000"

definition pml4_entry :: "u64 \<Rightarrow> u64 \<Rightarrow> u64" where
  "pml4_entry base virt = (base + 0x7ffffff000) + 8 * (drop_bit 39 virt AND 0x1ff)"

definition pml3_entry :: "u64 \<Rightarrow> u64 \<Rightarrow> u64" where
  "pml3_entry base virt = (base + 0x7fffe00000) + 8 * (drop_bit 30 virt AND 0x3ffff)"

definition pml2_entry :: "u64 \<Rightarrow> u64 \<Rightarrow> u64" where
  "pml2_entry base virt = (base + 0x7fc0000000) + 8 * (drop_bit 21 virt AND 0x7ffffff)"

definition pml1_entry :: "u64 \<Rightarrow> u64 \<Rightarrow> u64" where
  "pml1_entry base virt = base + 8 * (drop_bit 12 virt AND 0xfffffffff)"

section \<open>page.rs: temporary mapping\<close>

definition temp_reset :: "kmem \<Rightarrow> kmem option" where
  "temp_reset s = vwrite (pml1_entry CURRENT_PML (temp_page s)) 0 s"

definition temp_map :: "u64 \<Rightarrow> kmem \<Rightarrow> kmem option" where
  "temp_map phys s = do {
     let entry = pml1_entry CURRENT_PML (temp_page s);
     e \<leftarrow> vread s entry;
     if e \<noteq> 0 then None   \<comment> \<open>temp page already mapped\<close>
     else vwrite entry (phys OR (PRESENT OR WRITE)) s }"

section \<open>page.rs: queries and edits of existing mappings\<close>

datatype map_error = AlreadyMapped | CannotAllocatePageTable

datatype not_mapped = NotMapped

definition is_mapped :: "kmem \<Rightarrow> u64 \<Rightarrow> bool option" where
  "is_mapped s virt = do {
     e4 \<leftarrow> vread s (pml4_entry CURRENT_PML virt);
     if e4 = 0 then Some False else do {
     e3 \<leftarrow> vread s (pml3_entry CURRENT_PML virt);
     if e3 = 0 then Some False else do {
     e2 \<leftarrow> vread s (pml2_entry CURRENT_PML virt);
     if e2 = 0 then Some False else do {
     e1 \<leftarrow> vread s (pml1_entry CURRENT_PML virt);
     Some (e1 \<noteq> 0) } } } }"

definition checked_pml1_entry :: "u64 \<Rightarrow> u64 \<Rightarrow> kmem \<Rightarrow> (not_mapped + u64) option" where
  "checked_pml1_entry pml_base virt s = do {
     e4 \<leftarrow> vread s (pml4_entry pml_base virt);
     if e4 = 0 then Some (Inl NotMapped) else do {
     e3 \<leftarrow> vread s (pml3_entry pml_base virt);
     if e3 = 0 then Some (Inl NotMapped) else do {
     e2 \<leftarrow> vread s (pml2_entry pml_base virt);
     if e2 = 0 then Some (Inl NotMapped) else do {
     e1 \<leftarrow> vread s (pml1_entry pml_base virt);
     if e1 = 0 then Some (Inl NotMapped)
     else Some (Inr (pml1_entry pml_base virt)) } } } }"

definition entry :: "u64 \<Rightarrow> kmem \<Rightarrow> (not_mapped + u64) option" where
  "entry virt s = do {
     r \<leftarrow> checked_pml1_entry CURRENT_PML virt s;
     (case r of
        Inl e \<Rightarrow> Some (Inl e)
      | Inr p \<Rightarrow> map_option Inr (vread s p)) }"

definition modify :: "u64 \<Rightarrow> u64 \<Rightarrow> kmem \<Rightarrow> ((not_mapped + unit) \<times> kmem) option" where
  "modify virt fl s = do {
     r \<leftarrow> checked_pml1_entry CURRENT_PML virt s;
     (case r of
        Inl e \<Rightarrow> Some (Inl e, s)
      | Inr p \<Rightarrow> do {
          e \<leftarrow> vread s p;
          s' \<leftarrow> vwrite p (set_flags e fl) s;
          Some (Inr (), s') }) }"


section \<open>Specification vocabulary: the table walk without present bits\<close>

text \<open>
  \<open>tbl s v d\<close> is the page table met at depth \<open>d\<close> on the way to \<open>v\<close> (depth 0 is the
  PML4), \<open>slot\<close> the address of the entry used there, \<open>pte\<close> its contents.  \<open>leaf\<close> is the
  abstract address space: the PML1 entry of a virtual address, if there is one.
\<close>

fun tbl :: "kmem \<Rightarrow> u64 \<Rightarrow> nat \<Rightarrow> u64" where
  "tbl s v 0 = frame (cr3 s)"
| "tbl s v (Suc d) = frame (pmem s (tbl s v d + 8 * ix (3 - d) v))"

definition slot :: "kmem \<Rightarrow> u64 \<Rightarrow> nat \<Rightarrow> u64" where
  "slot s v d = tbl s v d + 8 * ix (3 - d) v"

definition pte :: "kmem \<Rightarrow> u64 \<Rightarrow> nat \<Rightarrow> u64" where
  "pte s v d = pmem s (slot s v d)"

definition reach :: "kmem \<Rightarrow> u64 \<Rightarrow> nat \<Rightarrow> bool" where
  "reach s v d \<longleftrightarrow> (\<forall>e < d. pte s v e \<noteq> 0)"

definition leaf :: "kmem \<Rightarrow> u64 \<Rightarrow> u64 option" where
  "leaf s v = (if reach s v 4 then Some (pte s v 3) else None)"

definition same :: "nat \<Rightarrow> u64 \<Rightarrow> u64 \<Rightarrow> bool" where
  "same d v w \<longleftrightarrow> (\<forall>k < d. ix (3 - k) v = ix (3 - k) w)"

abbreviation ordinary :: "u64 \<Rightarrow> bool" where
  "ordinary v \<equiv> ix 3 v \<noteq> 511"

text \<open>
  Well-formed tables: entry 511 of the PML4 is the recursive entry, entries that lead to
  a table are present, and the tables form a tree (a page serves as one table only).
\<close>

definition pt_root :: "kmem \<Rightarrow> bool" where
  "pt_root s \<longleftrightarrow> present (pmem s (frame (cr3 s) + 8 * 511)) \<and>
     frame (pmem s (frame (cr3 s) + 8 * 511)) = frame (cr3 s)"

definition pt_present :: "kmem \<Rightarrow> bool" where
  "pt_present s \<longleftrightarrow> (\<forall>v d. ordinary v \<and> d < 3 \<and> reach s v (Suc d) \<longrightarrow> present (pte s v d))"

definition pt_tree :: "kmem \<Rightarrow> bool" where
  "pt_tree s \<longleftrightarrow> (\<forall>v w d e. ordinary v \<and> ordinary w \<and> d < 4 \<and> e < 4 \<and>
     reach s v d \<and> reach s w e \<and> tbl s v d = tbl s w e \<longrightarrow> d = e \<and> same d v w)"

definition pt_wf :: "kmem \<Rightarrow> bool" where
  "pt_wf s \<longleftrightarrow> pt_root s \<and> pt_present s \<and> pt_tree s"

definition zeroed :: "kmem \<Rightarrow> u64 \<Rightarrow> bool" where
  "zeroed s p \<longleftrightarrow> (\<forall>i < 512. pmem s (p + 8 * of_nat i) = 0)"

definition is_table :: "kmem \<Rightarrow> u64 \<Rightarrow> bool" where
  "is_table s p \<longleftrightarrow> (\<exists>v d. ordinary v \<and> d < 4 \<and> reach s v d \<and> tbl s v d = p)"


section \<open>Bit arithmetic of the window\<close>

lemma set_pmem_simps [simp]:
  "pmem (set_pmem a x s) = (pmem s)(a := x)"
  "cr3 (set_pmem a x s) = cr3 s"
  "temp_page (set_pmem a x s) = temp_page s"
  "phys_rc (set_pmem a x s) = phys_rc s"
  "phys_rc_end (set_pmem a x s) = phys_rc_end s"
  "PHYS_REGIONS (set_pmem a x s) = PHYS_REGIONS s"
  "PHYS_BUMP_ALLOC (set_pmem a x s) = PHYS_BUMP_ALLOC s"
  "REF_COUNT_ENABLED (set_pmem a x s) = REF_COUNT_ENABLED s"
  "NEXT_FREE_PHYS (set_pmem a x s) = NEXT_FREE_PHYS s"
  "rc_array (set_pmem a x s) = rc_array s"
  by (simp_all add: set_pmem_def)

lemma masks:
  "(0x1ff :: u64) = mask 9" "(0xfff :: u64) = mask 12" "(0xfffffffff :: u64) = mask 36"
  "(0x7ffffff :: u64) = mask 27" "(0x3ffff :: u64) = mask 18"
  "(0x000ffffffffff000 :: u64) = push_bit 12 (mask 40)"
  by (simp_all add: mask_eq_exp_minus_1 push_bit_eq_mult)

lemma mult_8: "8 * (x :: u64) = push_bit 3 x"
  by (simp add: push_bit_eq_mult)

lemma window_bases:
  "CURRENT_PML = push_bit 39 (mask 25)"
  "CURRENT_PML + 0x7fc0000000 = push_bit 30 (mask 34)"
  "CURRENT_PML + 0x7fffe00000 = push_bit 21 (mask 43)"
  "CURRENT_PML + 0x7ffffff000 = push_bit 12 (mask 52)"
  by (simp_all add: CURRENT_PML_def mask_eq_exp_minus_1 push_bit_eq_mult)

lemma window_or:
  "pml1_entry CURRENT_PML v = push_bit 39 (mask 25) OR push_bit 3 (drop_bit 12 v AND mask 36)"
  "pml2_entry CURRENT_PML v = push_bit 30 (mask 34) OR push_bit 3 (drop_bit 21 v AND mask 27)"
  "pml3_entry CURRENT_PML v = push_bit 21 (mask 43) OR push_bit 3 (drop_bit 30 v AND mask 18)"
  "pml4_entry CURRENT_PML v = push_bit 12 (mask 52) OR push_bit 3 (drop_bit 39 v AND mask 9)"
  unfolding pml1_entry_def pml2_entry_def pml3_entry_def pml4_entry_def window_bases(2-4)
  unfolding mult_8 masks window_bases(1)
  by (rule word_add_or, rule bit_word_eqI, auto simp: bit_simps)+

lemma window_ix:
  "ix 3 (pml1_entry CURRENT_PML v) = 511" "ix 2 (pml1_entry CURRENT_PML v) = ix 3 v"
  "ix 1 (pml1_entry CURRENT_PML v) = ix 2 v" "ix 0 (pml1_entry CURRENT_PML v) = ix 1 v"
  "ix 3 (pml2_entry CURRENT_PML v) = 511" "ix 2 (pml2_entry CURRENT_PML v) = 511"
  "ix 1 (pml2_entry CURRENT_PML v) = ix 3 v" "ix 0 (pml2_entry CURRENT_PML v) = ix 2 v"
  "ix 3 (pml3_entry CURRENT_PML v) = 511" "ix 2 (pml3_entry CURRENT_PML v) = 511"
  "ix 1 (pml3_entry CURRENT_PML v) = 511" "ix 0 (pml3_entry CURRENT_PML v) = ix 3 v"
  "ix 3 (pml4_entry CURRENT_PML v) = 511" "ix 2 (pml4_entry CURRENT_PML v) = 511"
  "ix 1 (pml4_entry CURRENT_PML v) = 511" "ix 0 (pml4_entry CURRENT_PML v) = 511"
  unfolding window_or ix_def masks
  by (rule bit_word_eqI, auto simp: bit_simps)+

lemma window_offset:
  "pml1_entry CURRENT_PML v AND 0xfff = 8 * ix 0 v"
  "pml2_entry CURRENT_PML v AND 0xfff = 8 * ix 1 v"
  "pml3_entry CURRENT_PML v AND 0xfff = 8 * ix 2 v"
  "pml4_entry CURRENT_PML v AND 0xfff = 8 * ix 3 v"
  unfolding window_or ix_def masks mult_8
  by (rule bit_word_eqI, auto simp: bit_simps)+

lemmas [paging_simps] = window_ix window_ix [unfolded One_nat_def] window_offset

lemma frame_slot:
  "frame x + 8 * ix l v = frame x OR 8 * ix l v"
  unfolding frame_def ix_def masks mult_8
  by (rule word_add_or, rule bit_word_eqI) (auto simp: bit_simps)

lemma frame_of_slot [simp]: "frame (frame x + 8 * ix l v) = frame x"
  unfolding frame_slot unfolding frame_def ix_def masks mult_8
  by (rule bit_word_eqI) (auto simp: bit_simps)

lemma offset_of_slot: "(frame x + 8 * ix l v) AND 0xfff = 8 * ix l v"
  unfolding frame_slot unfolding frame_def ix_def masks mult_8
  by (rule bit_word_eqI) (auto simp: bit_simps)

lemma frame_frame [simp]: "frame (frame x) = frame x"
  by (simp add: frame_def and.assoc)

lemma ix_scaled_inj: "8 * ix l v = 8 * ix m w \<Longrightarrow> ix l v = ix m w"
proof -
  have "drop_bit 3 (8 * ix l v) = ix l v" for l v
    unfolding mult_8 ix_def masks by (rule bit_word_eqI) (auto simp: bit_simps)
  then show "8 * ix l v = 8 * ix m w \<Longrightarrow> ix l v = ix m w" by metis
qed

lemma slot_addr_inj:
  "frame x + 8 * ix l v = frame y + 8 * ix m w \<Longrightarrow> frame x = frame y \<and> ix l v = ix m w"
  by (metis frame_of_slot offset_of_slot ix_scaled_inj)

lemma ix_of_nat: "\<exists>i < 512. ix l v = of_nat i"
proof -
  have "unat (ix l v) \<le> unat (0x1ff :: u64)"
    unfolding ix_def by (metis word_and_le1 word_le_nat_alt)
  then show ?thesis by (intro exI [of _ "unat (ix l v)"]) simp
qed

lemma ix_511: "\<exists>v. ix 3 v = (511 :: u64)"
proof
  show "ix 3 (push_bit 39 511) = 511" by (simp add: ix_def push_bit_eq_mult drop_bit_eq_div)
qed

section \<open>Walks are determined by index prefixes\<close>

lemma same_mono: "same d v w \<Longrightarrow> e \<le> d \<Longrightarrow> same e v w"
  by (simp add: same_def)

lemma same_Suc: "same (Suc d) v w \<longleftrightarrow> same d v w \<and> ix (3 - d) v = ix (3 - d) w"
  by (auto simp: same_def less_Suc_eq)

lemma tbl_same: "same d v w \<Longrightarrow> tbl s v d = tbl s w d"
  by (induction d) (auto simp: same_Suc)

lemma slot_same: "same (Suc d) v w \<Longrightarrow> slot s v d = slot s w d"
  by (simp add: slot_def same_Suc tbl_same)

lemma pte_same: "same (Suc d) v w \<Longrightarrow> pte s v d = pte s w d"
  by (simp add: pte_def slot_same)

lemma reach_Suc: "reach s v (Suc d) \<longleftrightarrow> reach s v d \<and> pte s v d \<noteq> 0"
  by (auto simp: reach_def less_Suc_eq)

lemma reach_0 [simp]: "reach s v 0"
  by (simp add: reach_def)

lemma reach_same: "same d v w \<Longrightarrow> reach s v d = reach s w d"
  by (induction d) (auto simp: reach_Suc pte_same same_Suc)

lemma reach_mono: "reach s v d \<Longrightarrow> e \<le> d \<Longrightarrow> reach s v e"
  by (auto simp: reach_def)

lemma tbl_Suc: "tbl s v (Suc d) = frame (pte s v d)"
  by (simp add: pte_def slot_def)

lemma tbl_frame: "frame (tbl s v d) = tbl s v d"
  by (cases d) simp_all

lemma frame_slot_tbl: "frame (slot s v d) = tbl s v d"
  unfolding slot_def by (metis frame_of_slot tbl_frame)

lemma same_4: "same 4 v w \<longleftrightarrow> drop_bit 12 v AND mask 36 = drop_bit 12 w AND mask 36"
proof
  assume *: "drop_bit 12 v AND mask 36 = drop_bit 12 w AND mask 36"
  have "ix l x = drop_bit (9 * l) (drop_bit 12 x AND mask 36) AND mask 9" if "l \<le> 3" for l and x :: u64
    unfolding ix_def masks using that by (intro bit_word_eqI) (auto simp: bit_simps add.commute)
  then have "ix l v = ix l w" if "l \<le> 3" for l using * that by metis
  then show "same 4 v w" by (simp add: same_def)
next
  assume *: "same 4 v w"
  have "bit v (12 + n) = bit w (12 + n)" if "n < 36" for n
  proof -
    have "ix (3 - (3 - n div 9)) v = ix (3 - (3 - n div 9)) w"
      using * by (auto simp: same_def)
    then have "ix (n div 9) v = ix (n div 9) w" using that by (simp add: div_le_mono)
    then have "bit (ix (n div 9) v) (n mod 9) = bit (ix (n div 9) w) (n mod 9)" by simp
    moreover have "n mod 9 + (12 + 9 * (n div 9)) = 12 + n" by simp
    moreover have "n mod 9 < 9" by simp
    ultimately show ?thesis
      by (simp only: ix_def masks bit_and_iff bit_drop_bit_eq bit_mask_iff) (auto simp: add.commute)
  qed
  then show "drop_bit 12 v AND mask 36 = drop_bit 12 w AND mask 36"
    by (intro bit_word_eqI) (auto simp: bit_simps)
qed


section \<open>The recursive window reaches the page tables\<close>

lemma slot_numerals:
  "slot s v 0 = frame (cr3 s) + 8 * ix 3 v"
  "slot s v 1 = frame (pte s v 0) + 8 * ix 2 v"
  "slot s v 2 = frame (pte s v 1) + 8 * ix 1 v"
  "slot s v 3 = frame (pte s v 2) + 8 * ix 0 v"
  using tbl_Suc [of s v 0] tbl_Suc [of s v 1] tbl_Suc [of s v 2]
  by (simp_all add: slot_def numeral_2_eq_2 numeral_3_eq_3)

lemma translate_pml4_entry:
  "pt_root s \<Longrightarrow> translate s (pml4_entry CURRENT_PML v) = Some (slot s v 0)"
  by (simp add: translate_def pt_root_def paging_simps slot_numerals)

lemma translate_pml3_entry:
  "pt_root s \<Longrightarrow> present (pte s v 0) \<Longrightarrow>
   translate s (pml3_entry CURRENT_PML v) = Some (slot s v 1)"
  unfolding slot_numerals(2)
  by (simp add: translate_def pt_root_def paging_simps pte_def slot_numerals(1))

lemma translate_pml2_entry:
  "pt_root s \<Longrightarrow> present (pte s v 0) \<Longrightarrow> present (pte s v 1) \<Longrightarrow>
   translate s (pml2_entry CURRENT_PML v) = Some (slot s v 2)"
  unfolding slot_numerals(3)
  by (simp add: translate_def pt_root_def paging_simps pte_def slot_numerals(1,2)
      slot_numerals(2) [unfolded One_nat_def])

lemma translate_pml1_entry:
  "pt_root s \<Longrightarrow> present (pte s v 0) \<Longrightarrow> present (pte s v 1) \<Longrightarrow> present (pte s v 2) \<Longrightarrow>
   translate s (pml1_entry CURRENT_PML v) = Some (slot s v 3)"
  unfolding slot_numerals(4)
  by (simp add: translate_def pt_root_def paging_simps pte_def slot_numerals(1-3)
      slot_numerals(2) [unfolded One_nat_def])

lemma translate_walk:
  "translate s v =
     (if present (pte s v 0) \<and> present (pte s v 1) \<and> present (pte s v 2) \<and> present (pte s v 3)
      then Some (frame (pte s v 3) + (v AND 0xfff)) else None)"
  by (simp add: translate_def pte_def slot_numerals slot_numerals(2) [unfolded One_nat_def]
      Let_def)

lemma pt_wf_present:
  assumes "pt_wf s" "ordinary v" "reach s v d" "d \<le> 3" "e < d"
  shows "present (pte s v e)"
  using assms reach_mono [of s v d "Suc e"] by (auto simp: pt_wf_def pt_present_def)

lemma window_reach:
  assumes "pt_wf s" "ordinary v"
  shows "translate s (pml4_entry CURRENT_PML v) = Some (slot s v 0)"
    and "reach s v 1 \<Longrightarrow> translate s (pml3_entry CURRENT_PML v) = Some (slot s v 1)"
    and "reach s v 2 \<Longrightarrow> translate s (pml2_entry CURRENT_PML v) = Some (slot s v 2)"
    and "reach s v 3 \<Longrightarrow> translate s (pml1_entry CURRENT_PML v) = Some (slot s v 3)"
proof -
  note pr = pt_wf_present [OF assms]
  have root: "pt_root s" using assms by (simp add: pt_wf_def)
  show "translate s (pml4_entry CURRENT_PML v) = Some (slot s v 0)"
    using root by (rule translate_pml4_entry)
  show "translate s (pml3_entry CURRENT_PML v) = Some (slot s v 1)" if "reach s v 1"
    using root pr [OF that] by (intro translate_pml3_entry) auto
  show "translate s (pml2_entry CURRENT_PML v) = Some (slot s v 2)" if "reach s v 2"
    using root pr [OF that] by (intro translate_pml2_entry) auto
  show "translate s (pml1_entry CURRENT_PML v) = Some (slot s v 3)" if "reach s v 3"
    using root pr [OF that] by (intro translate_pml1_entry) auto
qed

lemma window_vread:
  assumes "pt_wf s" "ordinary v"
  shows "vread s (pml4_entry CURRENT_PML v) = Some (pte s v 0)"
    and "reach s v 1 \<Longrightarrow> vread s (pml3_entry CURRENT_PML v) = Some (pte s v 1)"
    and "reach s v 2 \<Longrightarrow> vread s (pml2_entry CURRENT_PML v) = Some (pte s v 2)"
    and "reach s v 3 \<Longrightarrow> vread s (pml1_entry CURRENT_PML v) = Some (pte s v 3)"
  using window_reach [OF assms] by (simp_all add: vread_def pte_def)

lemma window_vwrite:
  assumes "pt_wf s" "ordinary v"
  shows "vwrite (pml4_entry CURRENT_PML v) x s = Some (set_pmem (slot s v 0) x s)"
    and "reach s v 1 \<Longrightarrow> vwrite (pml3_entry CURRENT_PML v) x s = Some (set_pmem (slot s v 1) x s)"
    and "reach s v 2 \<Longrightarrow> vwrite (pml2_entry CURRENT_PML v) x s = Some (set_pmem (slot s v 2) x s)"
    and "reach s v 3 \<Longrightarrow> vwrite (pml1_entry CURRENT_PML v) x s = Some (set_pmem (slot s v 3) x s)"
  using window_reach [OF assms] by (simp_all add: vwrite_def)

lemma reach_numerals:
  "reach s v 1 \<longleftrightarrow> pte s v 0 \<noteq> 0"
  "reach s v (Suc 0) \<longleftrightarrow> pte s v 0 \<noteq> 0"
  "reach s v 2 \<longleftrightarrow> pte s v 0 \<noteq> 0 \<and> pte s v 1 \<noteq> 0"
  "reach s v 3 \<longleftrightarrow> pte s v 0 \<noteq> 0 \<and> pte s v 1 \<noteq> 0 \<and> pte s v 2 \<noteq> 0"
  "reach s v 4 \<longleftrightarrow> pte s v 0 \<noteq> 0 \<and> pte s v 1 \<noteq> 0 \<and> pte s v 2 \<noteq> 0 \<and> pte s v 3 \<noteq> 0"
  by (auto simp: reach_def less_Suc_eq eval_nat_numeral)

text \<open>What the code's queries compute, in terms of the abstract address space.\<close>

lemma is_mapped_leaf:
  assumes "pt_wf s" "ordinary v"
  shows "is_mapped s v = Some (leaf s v \<noteq> None)"
  using window_vread [OF assms]
  by (auto simp: is_mapped_def leaf_def reach_numerals)

lemma checked_pml1_entry_leaf:
  assumes "pt_wf s" "ordinary v"
  shows "checked_pml1_entry CURRENT_PML v s =
     Some (if leaf s v = None then Inl NotMapped else Inr (pml1_entry CURRENT_PML v))"
  using window_vread [OF assms]
  by (auto simp: checked_pml1_entry_def leaf_def reach_numerals)

lemma leaf_Some: "leaf s v = Some e \<longleftrightarrow> reach s v 4 \<and> e = pte s v 3"
  by (auto simp: leaf_def)

lemma leaf_reach3: "leaf s v = Some e \<Longrightarrow> reach s v 3"
  by (auto simp: leaf_Some reach_numerals)

lemma entry_leaf:
  assumes "pt_wf s" "ordinary v"
  shows "entry v s = Some (case leaf s v of None \<Rightarrow> Inl NotMapped | Some e \<Rightarrow> Inr e)"
proof (cases "leaf s v")
  case None
  then show ?thesis by (simp add: entry_def checked_pml1_entry_leaf [OF assms])
next
  case (Some e)
  then have "pte s v 3 = e" by (simp add: leaf_Some)
  with Some show ?thesis
    using window_vread(4) [OF assms leaf_reach3 [OF Some]]
    by (simp add: entry_def checked_pml1_entry_leaf [OF assms])
qed

section \<open>Writing one slot\<close>

lemma slot_inj:
  assumes "pt_tree s" "ordinary v" "ordinary w" "d < 4" "e < 4" "reach s v d" "reach s w e"
    and eq: "slot s v d = slot s w e"
  shows "d = e \<and> same (Suc d) v w"
proof -
  have "tbl s v d = tbl s w e \<and> ix (3 - d) v = ix (3 - e) w"
    using eq slot_addr_inj [of "tbl s v d" "3 - d" v "tbl s w e" "3 - e" w]
    by (simp add: slot_def tbl_frame)
  then show ?thesis using assms by (auto simp: pt_tree_def same_Suc)
qed

lemma root_slot_distinct:
  assumes "pt_tree s" "ordinary v" "d < 4" "reach s v d"
  shows "slot s v d \<noteq> frame (cr3 s) + 8 * 511"
proof
  assume eq: "slot s v d = frame (cr3 s) + 8 * 511"
  obtain r where r: "ix 3 r = 511" using ix_511 by blast
  have "tbl s v d = tbl s v 0 \<and> ix (3 - d) v = 511"
    using eq r slot_addr_inj [of "tbl s v d" "3 - d" v "cr3 s" 3 r]
    by (simp add: slot_def tbl_frame)
  moreover have "tbl s v d = tbl s v 0 \<Longrightarrow> d = 0"
    using assms unfolding pt_tree_def by (metis reach_0 zero_less_numeral)
  ultimately show False using assms by auto
qed

text \<open>A slot the walk to \<open>v\<close> really uses.\<close>

definition live_slot :: "kmem \<Rightarrow> u64 \<Rightarrow> nat \<Rightarrow> bool" where
  "live_slot s v d \<longleftrightarrow> pt_tree s \<and> ordinary v \<and> d < 4 \<and> reach s v d"

lemma live_slot_inj:
  assumes "live_slot s v d" "ordinary w" "e < 4" "reach s w e" "slot s w e = slot s v d"
  shows "d = e \<and> same (Suc d) v w"
  using assms slot_inj [of s v w d e] by (auto simp: live_slot_def)

lemma tbl_set_slot:
  assumes live: "live_slot s v d" and w: "ordinary w"
    and "reach s w e" "e \<le> 4" "e \<le> d \<or> \<not> same (Suc d) v w"
  shows "tbl (set_pmem (slot s v d) x s) w e = tbl s w e"
  using assms(3-)
proof (induction e)
  case 0
  then show ?case by simp
next
  case (Suc e)
  then have re: "reach s w e" by (simp add: reach_Suc)
  have "slot s w e \<noteq> slot s v d"
    using live_slot_inj [OF live w _ re] Suc.prems by fastforce
  with Suc re show ?case by (auto simp: slot_def)
qed

lemma pte_set_slot:
  assumes live: "live_slot s v d" and w: "ordinary w"
    and "reach s w e" "e < 4" "e < d \<or> \<not> same (Suc d) v w"
  shows "pte (set_pmem (slot s v d) x s) w e = pte s w e"
proof -
  have "slot s w e \<noteq> slot s v d"
    using live_slot_inj [OF live w assms(4,3)] assms(5) by fastforce
  moreover have "slot (set_pmem (slot s v d) x s) w e = slot s w e"
    using tbl_set_slot [OF live w assms(3)] assms(4,5) by (auto simp: slot_def)
  ultimately show ?thesis by (simp add: pte_def)
qed

lemma pte_set_slot_same:
  assumes live: "live_slot s v d" and "same (Suc d) v w"
  shows "pte (set_pmem (slot s v d) x s) w d = x"
proof -
  have "tbl (set_pmem (slot s v d) x s) v d = tbl s v d"
    using tbl_set_slot [OF live, of v d] live by (simp add: live_slot_def)
  then have "slot (set_pmem (slot s v d) x s) v d = slot s v d" by (simp add: slot_def)
  then have "pte (set_pmem (slot s v d) x s) v d = x" by (simp add: pte_def)
  then show ?thesis using pte_same [OF assms(2)] by metis
qed

lemma reach_set_slot:
  assumes live: "live_slot s v d" and w: "ordinary w"
    and "e \<le> 4" "e \<le> d \<or> \<not> same (Suc d) v w"
  shows "reach (set_pmem (slot s v d) x s) w e = reach s w e"
  using assms(3-)
proof (induction e)
  case 0
  then show ?case by simp
next
  case (Suc e)
  then have "pte (set_pmem (slot s v d) x s) w e = pte s w e" if "reach s w e"
    using pte_set_slot [OF live w that] by fastforce
  with Suc show ?case by (auto simp: reach_Suc)
qed

lemma pt_root_set_slot:
  assumes "live_slot s v d" "pt_root s"
  shows "pt_root (set_pmem (slot s v d) x s)"
  using assms root_slot_distinct [of s v d] by (simp add: pt_root_def live_slot_def)

lemma leaf_set_slot_other:
  assumes live: "live_slot s v d" and w: "ordinary w" and "\<not> same (Suc d) v w"
  shows "leaf (set_pmem (slot s v d) x s) w = leaf s w"
proof -
  have "reach (set_pmem (slot s v d) x s) w 4 = reach s w 4"
    using reach_set_slot [OF live w] assms(3) by simp
  moreover have "pte (set_pmem (slot s v d) x s) w 3 = pte s w 3" if "reach s w 4"
    using pte_set_slot [OF live w] assms(3) reach_mono [OF that, of 3] by simp
  ultimately show ?thesis by (simp add: leaf_def)
qed


section \<open>Changes outside the page tables\<close>

definition tables_agree :: "kmem \<Rightarrow> kmem \<Rightarrow> bool" where
  "tables_agree s s' \<longleftrightarrow> cr3 s' = cr3 s \<and>
     (\<forall>a. is_table s (frame a) \<longrightarrow> pmem s' a = pmem s a)"

lemma is_table_tbl: "ordinary v \<Longrightarrow> d < 4 \<Longrightarrow> reach s v d \<Longrightarrow> is_table s (tbl s v d)"
  by (auto simp: is_table_def)

lemma is_table_root: "is_table s (frame (cr3 s))"
proof -
  have "ordinary 0" by (simp add: ix_def)
  then show ?thesis using is_table_tbl [of 0 0 s] by simp
qed

lemma pte_agree:
  assumes "tables_agree s s'" "ordinary v" "d < 4" "reach s v d" "tbl s' v d = tbl s v d"
  shows "pte s' v d = pte s v d"
proof -
  have "is_table s (frame (slot s v d))"
    using assms is_table_tbl by (simp add: frame_slot_tbl)
  then show ?thesis using assms by (simp add: tables_agree_def pte_def slot_def)
qed

lemma walk_agree:
  assumes ag: "tables_agree s s'" and v: "ordinary v" and "d \<le> 4"
  shows "reach s' v d = reach s v d \<and> (reach s v d \<longrightarrow> tbl s' v d = tbl s v d)"
  using assms(3)
proof (induction d)
  case 0
  then show ?case using ag by (simp add: tables_agree_def)
next
  case (Suc d)
  then have "reach s v d \<Longrightarrow> pte s' v d = pte s v d"
    using pte_agree [OF ag v] by simp
  with Suc show ?case by (auto simp: reach_Suc tbl_Suc simp del: tbl.simps)
qed

lemma pte_tables_agree:
  assumes "tables_agree s s'" "ordinary v" "d < 4" "reach s v d"
  shows "pte s' v d = pte s v d"
  using assms walk_agree [of s s' v d] pte_agree [of s s' v d] by simp

lemma leaf_agree:
  assumes "tables_agree s s'" "ordinary v"
  shows "leaf s' v = leaf s v"
  using walk_agree [OF assms, of 4] pte_tables_agree [OF assms, of 3] reach_mono [of s v 4 3]
  by (auto simp: leaf_def)

lemma is_table_agree: "tables_agree s s' \<Longrightarrow> is_table s' p = is_table s p"
  unfolding is_table_def by (metis walk_agree less_imp_le_nat)

lemma pt_wf_agree:
  assumes ag: "tables_agree s s'" and wf: "pt_wf s"
  shows "pt_wf s'"
  unfolding pt_wf_def
proof (intro conjI)
  obtain r where "ix 3 r = 511" using ix_511 by blast
  then have "frame (frame (cr3 s) + 8 * 511) = frame (cr3 s)"
    using frame_of_slot [of "cr3 s" 3 r] by simp
  then have "pmem s' (frame (cr3 s) + 8 * 511) = pmem s (frame (cr3 s) + 8 * 511)"
    using ag is_table_root [of s] unfolding tables_agree_def by metis
  then show "pt_root s'"
    using wf ag by (simp add: pt_wf_def pt_root_def tables_agree_def)
  show "pt_present s'"
    unfolding pt_present_def
  proof (intro allI impI)
    fix v d assume *: "ordinary v \<and> d < 3 \<and> reach s' v (Suc d)"
    then have "reach s v (Suc d)" using walk_agree [OF ag, of v "Suc d"] by simp
    then have "present (pte s v d)" and "reach s v d"
      using wf * by (auto simp: pt_wf_def pt_present_def reach_Suc)
    then show "present (pte s' v d)" using pte_tables_agree [OF ag] * by simp
  qed
  show "pt_tree s'"
    unfolding pt_tree_def
  proof (intro allI impI)
    fix v w d e
    assume *: "ordinary v \<and> ordinary w \<and> d < 4 \<and> e < 4 \<and> reach s' v d \<and> reach s' w e \<and>
      tbl s' v d = tbl s' w e"
    then have "reach s v d" "reach s w e" "tbl s v d = tbl s w e"
      using walk_agree [OF ag, of v d] walk_agree [OF ag, of w e] by auto
    then show "d = e \<and> same d v w" using wf * by (auto simp: pt_wf_def pt_tree_def)
  qed
qed

section \<open>Writing a PML1 entry\<close>

lemma walk_set_leaf:
  assumes "live_slot s v 3" "ordinary w" "d \<le> 3"
  shows "reach (set_pmem (slot s v 3) x s) w d = reach s w d"
    and "reach s w d \<Longrightarrow> tbl (set_pmem (slot s v 3) x s) w d = tbl s w d"
  using assms reach_set_slot [of s v 3 w d] tbl_set_slot [of s v 3 w d] by auto

lemma is_table_set_leaf:
  "live_slot s v 3 \<Longrightarrow> is_table (set_pmem (slot s v 3) x s) p = is_table s p"
  unfolding is_table_def by (metis walk_set_leaf less_Suc_eq_le numeral_3_eq_3 numeral_eq_Suc
      pred_numeral_simps(2) semiring_norm(26,27))

lemma pt_wf_set_leaf:
  assumes wf: "pt_wf s" and v: "ordinary v" "reach s v 3"
  shows "pt_wf (set_pmem (slot s v 3) x s)"
proof -
  have live: "live_slot s v 3" using assms by (simp add: live_slot_def pt_wf_def)
  note wk = walk_set_leaf [OF live]
  have "present (pte (set_pmem (slot s v 3) x s) w d)"
    if "ordinary w" "d < 3" "reach (set_pmem (slot s v 3) x s) w (Suc d)" for w d
    using that wf wk(1) [OF that(1), of "Suc d"] pte_set_slot [OF live that(1), of d]
    by (auto simp: pt_wf_def pt_present_def reach_Suc)
  moreover have "pt_tree (set_pmem (slot s v 3) x s)"
    unfolding pt_tree_def
  proof (intro allI impI)
    fix u w d e
    assume *: "ordinary u \<and> ordinary w \<and> d < 4 \<and> e < 4 \<and>
      reach (set_pmem (slot s v 3) x s) u d \<and> reach (set_pmem (slot s v 3) x s) w e \<and>
      tbl (set_pmem (slot s v 3) x s) u d = tbl (set_pmem (slot s v 3) x s) w e"
    then have "reach s u d" "reach s w e" "tbl s u d = tbl s w e"
      using wk [of u d] wk [of w e] by auto
    then show "d = e \<and> same d u w" using wf * by (auto simp: pt_wf_def pt_tree_def)
  qed
  ultimately show ?thesis
    using pt_root_set_slot [OF live] wf by (simp add: pt_wf_def pt_present_def)
qed

lemma leaf_set_leaf:
  assumes wf: "pt_wf s" and v: "ordinary v" "reach s v 3" and w: "ordinary w"
  shows "leaf (set_pmem (slot s v 3) x s) w =
     (if same 4 v w then (if x = 0 then None else Some x) else leaf s w)"
proof (cases "same 4 v w")
  case True
  have live: "live_slot s v 3" using assms by (simp add: live_slot_def pt_wf_def)
  have sm: "same (Suc 3) v w" using True by simp
  have "reach s w 3" using True v reach_same [of 3 v w s] same_mono [OF True, of 3] by simp
  then have "reach (set_pmem (slot s v 3) x s) w 3" using walk_set_leaf [OF live w] by simp
  moreover have "pte (set_pmem (slot s v 3) x s) w 3 = x"
    by (rule pte_set_slot_same [OF live sm])
  ultimately show ?thesis using True
    by (simp add: leaf_def reach_Suc [of _ _ 3, simplified])
next
  case False
  have live: "live_slot s v 3" using assms by (simp add: live_slot_def pt_wf_def)
  from False show ?thesis using leaf_set_slot_other [OF live w] by simp
qed


section \<open>Installing a new table\<close>

text \<open>
  Preconditions of the three allocation branches of \<open>page::map\<close>: the walk to \<open>v\<close> stops at
  depth \<open>d\<close> with an empty entry, \<open>p\<close> is a zeroed page that is no table yet, and the
  entry \<open>x\<close> that is about to be stored points to \<open>p\<close>.
\<close>

definition installs :: "kmem \<Rightarrow> u64 \<Rightarrow> nat \<Rightarrow> u64 \<Rightarrow> u64 \<Rightarrow> bool" where
  "installs s v d p x \<longleftrightarrow> pt_wf s \<and> ordinary v \<and> d < 3 \<and> reach s v d \<and> pte s v d = 0 \<and>
     frame p = p \<and> zeroed s p \<and> \<not> is_table s p \<and> present x \<and> frame x = p"

lemma installs_live: "installs s v d p x \<Longrightarrow> live_slot s v d"
  by (simp add: installs_def live_slot_def pt_wf_def)

lemma same_trans: "same d v w \<Longrightarrow> same d v u \<Longrightarrow> same d w u"
  by (simp add: same_def)

lemma present_nonzero: "present x \<Longrightarrow> x \<noteq> 0"
  by (auto simp: present_def)

lemma install_new:
  assumes ins: "installs s v d p x" and w: "ordinary w" and sm: "same (Suc d) v w"
  shows "reach (set_pmem (slot s v d) x s) w (Suc d)"
    and "tbl (set_pmem (slot s v d) x s) w (Suc d) = p"
    and "pte (set_pmem (slot s v d) x s) w (Suc d) = 0"
proof -
  let ?s = "set_pmem (slot s v d) x s"
  note live = installs_live [OF ins]
  have i: "ordinary v" "d < 3" "reach s v d" "frame p = p" "zeroed s p" "\<not> is_table s p"
    "present x" "frame x = p" using ins by (auto simp: installs_def)
  have pte: "pte ?s w d = x" by (rule pte_set_slot_same [OF live sm])
  have "reach s w d" using reach_same [of d v w s] i(3) sm by (simp add: same_Suc)
  then have "reach ?s w d" using reach_set_slot [OF live w, of d] i(2) by simp
  then show "reach ?s w (Suc d)" using pte i(7) by (simp add: reach_Suc present_nonzero)
  show tb: "tbl ?s w (Suc d) = p" using pte i(8) by (simp add: tbl_Suc del: tbl.simps)
  have fr: "frame (slot ?s w (Suc d)) = p" using tb by (simp add: frame_slot_tbl del: tbl.simps)
  have "frame (slot s v d) \<noteq> p"
    using i is_table_tbl [of v d s] by (auto simp: frame_slot_tbl)
  then have "slot ?s w (Suc d) \<noteq> slot s v d" using fr by auto
  moreover obtain k where "k < 512" "ix (3 - Suc d) w = of_nat k" using ix_of_nat by blast
  then have "pmem s (slot ?s w (Suc d)) = 0"
    using tb i(5) by (simp add: zeroed_def slot_def del: tbl.simps)
  ultimately show "pte ?s w (Suc d) = 0" by (simp add: pte_def)
qed

lemma walk_install:
  assumes ins: "installs s v d p x" and w: "ordinary w" and e: "e \<le> 4"
  shows "reach (set_pmem (slot s v d) x s) w e \<longleftrightarrow>
      (if e \<le> d \<or> \<not> same (Suc d) v w then reach s w e else e = Suc d)"
    and "reach (set_pmem (slot s v d) x s) w e \<Longrightarrow>
      tbl (set_pmem (slot s v d) x s) w e =
      (if e \<le> d \<or> \<not> same (Suc d) v w then tbl s w e else p)"
proof -
  let ?s = "set_pmem (slot s v d) x s"
  note live = installs_live [OF ins]
  have new: "reach ?s w e \<longleftrightarrow> e = Suc d" if "d < e" "same (Suc d) v w"
    using install_new [OF ins w that(2)] that(1) reach_mono [of ?s w e "Suc (Suc d)"]
    by (cases "e = Suc d") (auto simp: reach_Suc)
  show r: "reach ?s w e \<longleftrightarrow>
      (if e \<le> d \<or> \<not> same (Suc d) v w then reach s w e else e = Suc d)"
    using reach_set_slot [OF live w e] new by (cases "e \<le> d") (auto simp: not_le)
  show "tbl ?s w e = (if e \<le> d \<or> \<not> same (Suc d) v w then tbl s w e else p)" if "reach ?s w e"
  proof (cases "e \<le> d \<or> \<not> same (Suc d) v w")
    case True
    then show ?thesis using tbl_set_slot [OF live w _ e] r that by simp
  next
    case False
    then have "e = Suc d" using r that by simp
    then show ?thesis using False install_new(2) [OF ins w] by (simp del: tbl.simps)
  qed
qed

lemma pt_wf_install:
  assumes ins: "installs s v d p x"
  shows "pt_wf (set_pmem (slot s v d) x s)"
proof -
  let ?s = "set_pmem (slot s v d) x s"
  note live = installs_live [OF ins] and wk = walk_install [OF ins]
  have i: "pt_wf s" "d < 3" "\<not> is_table s p" "present x" using ins by (auto simp: installs_def)
  have "pt_present ?s"
    unfolding pt_present_def
  proof (intro allI impI)
    fix w e assume *: "ordinary w \<and> e < 3 \<and> reach ?s w (Suc e)"
    show "present (pte ?s w e)"
    proof (cases "e < d \<or> \<not> same (Suc d) v w")
      case True
      then have "reach s w (Suc e)" using wk(1) [of w "Suc e"] * by auto
      then show ?thesis using True * i(1) pte_set_slot [OF live, of w e]
        by (auto simp: reach_Suc pt_wf_def pt_present_def)
    next
      case False
      then have "e = d" "same (Suc d) v w" using wk(1) [of w "Suc e"] * by auto
      then show ?thesis using pte_set_slot_same [OF live] i(4) by simp
    qed
  qed
  moreover have "pt_tree ?s"
    unfolding pt_tree_def
  proof (intro allI impI)
    fix u w a b
    assume *: "ordinary u \<and> ordinary w \<and> a < 4 \<and> b < 4 \<and> reach ?s u a \<and> reach ?s w b \<and>
      tbl ?s u a = tbl ?s w b"
    have old: "reach s y e \<Longrightarrow> tbl s y e \<noteq> p" if "ordinary y" "e < 4" for y e
      using that i(3) by (auto simp: is_table_def)
    have tree: "a = b \<and> same a u w" if "reach s u a" "reach s w b" "tbl s u a = tbl s w b"
      using that * i(1) by (auto simp: pt_wf_def pt_tree_def)
    show "a = b \<and> same a u w"
      using * wk [of u a] wk [of w b] old [of u a] old [of w b] tree
        same_trans [of "Suc d" v u w]
      by (auto split: if_splits)
  qed
  ultimately show ?thesis
    using pt_root_set_slot [OF live] i(1) by (simp add: pt_wf_def)
qed

lemma leaf_install:
  assumes ins: "installs s v d p x" and w: "ordinary w"
  shows "leaf (set_pmem (slot s v d) x s) w = leaf s w"
proof (cases "same (Suc d) v w")
  case True
  have "d < 3" and "pte s v d = 0" using ins by (auto simp: installs_def)
  then have "\<not> reach s w 4"
    using pte_same [OF True, of s] by (auto simp: reach_def intro!: exI [of _ d])
  moreover have "\<not> reach (set_pmem (slot s v d) x s) w 4"
    using True \<open>d < 3\<close> walk_install(1) [OF ins w, of 4] by simp
  ultimately have "\<not> reach s w 4" and "\<not> reach (set_pmem (slot s v d) x s) w 4"
    by blast+
  then show ?thesis by (simp add: leaf_def)
next
  case False
  then show ?thesis using leaf_set_slot_other [OF installs_live [OF ins] w] by simp
qed

lemma is_table_install:
  assumes ins: "installs s v d p x" and "is_table (set_pmem (slot s v d) x s) q"
  shows "is_table s q \<or> q = p"
  using assms(2) walk_install [OF ins] unfolding is_table_def
  by (metis less_imp_le_nat)

lemma ordinary_same: "same 4 v w \<Longrightarrow> ordinary v = ordinary w"
  by (auto simp: same_def dest: spec [of _ 0])

lemma leaf_same: "same 4 v w \<Longrightarrow> leaf s v = leaf s w"
  using reach_same [of 4 v w s] pte_same [of 3 v w s] by (simp add: leaf_def)

end
