(* ===== verification/User_Memory.thy ===== *)
theory User_Memory
  imports Interface Paging
begin

text \<open>
  Validation of user pointers: \<open>kernel/src/mem/user.rs\<close>.

  The addition in \<open>PageRange::new\<close> is the one place of this file where Rust's overflow checks
  matter: \<open>chk\<close> says whether the build has them (the debug build, the default of the Makefile) and
  then an overflow panics; the release build wraps.

  \<open>from_bits\<close> and \<open>contains\<close> are the methods that the third-party crate \<open>bitflags\<close> generates;
  their documented behaviour is \<open>bitflags_from_bits\<close> and \<open>bitflags_contains\<close>.
\<close>

section \<open>Definitions\<close>

definition add_u64 :: "bool \<Rightarrow> u64 \<Rightarrow> u64 \<Rightarrow> u64 option" where
  "add_u64 chk a b = (if chk \<and> 2 ^ 64 \<le> unat a + unat b then None else Some (a + b))"

definition MAX_USER_ADDR :: u64 where
  "MAX_USER_ADDR = 0x0000800000000000"

definition validate_page_align :: "u64 \<Rightarrow> unit sys_result" where
  "validate_page_align addr =
     (if addr AND (PAGE_SIZE - 1) \<noteq> 0 then Inl SysBadPointer else Inr ())"

record page_range =
  base_page :: u64
  page_count :: u64

definition page_range_new :: "bool \<Rightarrow> u64 \<Rightarrow> u64 \<Rightarrow> page_range sys_result option" where
  "page_range_new chk base count =
     (case checked_mul count PAGE_SIZE of
        None \<Rightarrow> Some (Inl SysMemoryExhausted)
      | Some byte_len \<Rightarrow>
         (case validate_page_align base of
            Inl e \<Rightarrow> Some (Inl e)
          | Inr _ \<Rightarrow>
             if base > MAX_USER_ADDR then Some (Inl SysBadPointer)
             else do {
               limit \<leftarrow> add_u64 chk base byte_len;
               if limit > MAX_USER_ADDR then Some (Inl SysBadPointer)
               else Some (Inr \<lparr>base_page = base, page_count = count\<rparr>) }))"

definition page_range_containing :: "bool \<Rightarrow> u64 \<Rightarrow> u64 \<Rightarrow> page_range sys_result option" where
  "page_range_containing chk start_addr byte_len =
     (let first_page_offset = start_addr mod PAGE_SIZE;
          base = start_addr - first_page_offset
      in case checked_add byte_len first_page_offset of
           None \<Rightarrow> Some (Inl SysMemoryExhausted)
         | Some byte_len \<Rightarrow>
            let last_page_extent = byte_len mod PAGE_SIZE;
                last_page_padding = (if last_page_extent = 0 then 0 else PAGE_SIZE - last_page_extent)
            in case checked_add byte_len last_page_padding of
                 None \<Rightarrow> Some (Inl SysMemoryExhausted)
               | Some byte_len \<Rightarrow> page_range_new chk base (byte_len div PAGE_SIZE))"

definition pages :: "page_range \<Rightarrow> u64 list" where
  "pages r = map (\<lambda>index. base_page r + of_nat index * PAGE_SIZE) [0..<unat (page_count r)]"

fun validate_map_pages :: "(u64 \<Rightarrow> u64 \<Rightarrow> u64 option) \<Rightarrow> (u64 \<Rightarrow> u64 \<Rightarrow> bool) \<Rightarrow> u64 \<Rightarrow> kmem
    \<Rightarrow> u64 list \<Rightarrow> unit sys_result option" where
  "validate_map_pages from_bits contains flags s [] = Some (Inr ())"
| "validate_map_pages from_bits contains flags s (addr # rest) = do {
     r \<leftarrow> entry addr s;
     valid \<leftarrow> (case r of
        Inl _ \<Rightarrow> Some False
      | Inr e \<Rightarrow> map_option (\<lambda>fl. contains fl flags) (pml_flags from_bits e));
     if \<not> valid then Some (Inl SysBadPointer)
     else validate_map_pages from_bits contains flags s rest }"

definition validate_map :: "(u64 \<Rightarrow> u64 \<Rightarrow> u64 option) \<Rightarrow> (u64 \<Rightarrow> u64 \<Rightarrow> bool) \<Rightarrow> page_range \<Rightarrow> u64
    \<Rightarrow> kmem \<Rightarrow> unit sys_result option" where
  "validate_map from_bits contains r flags s =
     validate_map_pages from_bits contains flags s (pages r)"

fun validate_available_pages :: "kmem \<Rightarrow> u64 list \<Rightarrow> unit sys_result option" where
  "validate_available_pages s [] = Some (Inr ())"
| "validate_available_pages s (addr # rest) = do {
     r \<leftarrow> entry addr s;
     (case r of
        Inr _ \<Rightarrow> Some (Inl SysAlreadyMapped)
      | Inl _ \<Rightarrow> validate_available_pages s rest) }"

definition validate_available :: "page_range \<Rightarrow> kmem \<Rightarrow> unit sys_result option" where
  "validate_available r s = validate_available_pages s (pages r)"

definition validate_read :: "(u64 \<Rightarrow> u64 \<Rightarrow> u64 option) \<Rightarrow> (u64 \<Rightarrow> u64 \<Rightarrow> bool) \<Rightarrow> bool \<Rightarrow> u64 \<Rightarrow> u64
    \<Rightarrow> kmem \<Rightarrow> unit sys_result option" where
  "validate_read from_bits contains chk addr len s = do {
     r \<leftarrow> page_range_containing chk addr len;
     (case r of
        Inl e \<Rightarrow> Some (Inl e)
      | Inr pr \<Rightarrow> validate_map from_bits contains pr 0 s) }"

definition validate_write :: "(u64 \<Rightarrow> u64 \<Rightarrow> u64 option) \<Rightarrow> (u64 \<Rightarrow> u64 \<Rightarrow> bool) \<Rightarrow> bool \<Rightarrow> u64 \<Rightarrow> u64
    \<Rightarrow> kmem \<Rightarrow> unit sys_result option" where
  "validate_write from_bits contains chk addr len s = do {
     r \<leftarrow> page_range_containing chk addr len;
     (case r of
        Inl e \<Rightarrow> Some (Inl e)
      | Inr pr \<Rightarrow> validate_map from_bits contains pr WRITE s) }"

text \<open>A borrowed slice is its address and its number of elements.\<close>

record user_slice =
  slice_addr :: u64
  slice_len :: u64

definition borrow_slice :: "(u64 \<Rightarrow> u64 \<Rightarrow> u64 option) \<Rightarrow> (u64 \<Rightarrow> u64 \<Rightarrow> bool) \<Rightarrow> bool \<Rightarrow> u64 \<Rightarrow> u64
    \<Rightarrow> u64 \<Rightarrow> kmem \<Rightarrow> user_slice sys_result option" where
  "borrow_slice from_bits contains chk size_of addr len s =
     (case checked_mul len size_of of
        None \<Rightarrow> Some (Inl SysBadPointer)
      | Some byte_len \<Rightarrow> do {
          r \<leftarrow> validate_read from_bits contains chk addr byte_len s;
          Some (case r of Inl e \<Rightarrow> Inl e | Inr _ \<Rightarrow> Inr \<lparr>slice_addr = addr, slice_len = len\<rparr>) })"

definition borrow_slice_mut :: "(u64 \<Rightarrow> u64 \<Rightarrow> u64 option) \<Rightarrow> (u64 \<Rightarrow> u64 \<Rightarrow> bool) \<Rightarrow> bool \<Rightarrow> u64 \<Rightarrow> u64
    \<Rightarrow> u64 \<Rightarrow> kmem \<Rightarrow> user_slice sys_result option" where
  "borrow_slice_mut from_bits contains chk size_of addr len s =
     (case checked_mul len size_of of
        None \<Rightarrow> Some (Inl SysBadPointer)
      | Some byte_len \<Rightarrow> do {
          r \<leftarrow> validate_write from_bits contains chk addr byte_len s;
          Some (case r of Inl e \<Rightarrow> Inl e | Inr _ \<Rightarrow> Inr \<lparr>slice_addr = addr, slice_len = len\<rparr>) })"

text \<open>\<open>borrow\<close> passes the size of \<open>T\<close> as the number of elements; the reference is the address of
  the first element, which exists unless \<open>T\<close> has size zero.\<close>

definition borrow :: "(u64 \<Rightarrow> u64 \<Rightarrow> u64 option) \<Rightarrow> (u64 \<Rightarrow> u64 \<Rightarrow> bool) \<Rightarrow> bool \<Rightarrow> u64
    \<Rightarrow> u64 \<Rightarrow> kmem \<Rightarrow> u64 sys_result option" where
  "borrow from_bits contains chk size_of addr s = do {
     r \<leftarrow> borrow_slice from_bits contains chk size_of addr size_of s;
     (case r of
        Inl e \<Rightarrow> Some (Inl e)
      | Inr sl \<Rightarrow> if slice_len sl = 0 then None else Some (Inr (slice_addr sl))) }"

section \<open>Documented behaviour of \<open>bitflags\<close>\<close>

definition bitflags_from_bits :: "(u64 \<Rightarrow> u64 \<Rightarrow> u64 option) \<Rightarrow> bool" where
  "bitflags_from_bits from_bits \<longleftrightarrow>
     (\<forall>all bits. from_bits all bits = (if bits AND NOT all = 0 then Some bits else None))"

definition bitflags_contains :: "(u64 \<Rightarrow> u64 \<Rightarrow> bool) \<Rightarrow> bool" where
  "bitflags_contains contains \<longleftrightarrow> (\<forall>a b. contains a b \<longleftrightarrow> a AND b = b)"

section \<open>Specification: ranges as sets of addresses\<close>

text \<open>The number of bytes of a range, and the requirement that the range does not reach past the
  user half of the address space.\<close>

definition range_bytes :: "page_range \<Rightarrow> nat" where
  "range_bytes r = unat (page_count r) * 4096"

definition user_range :: "page_range \<Rightarrow> bool" where
  "user_range r \<longleftrightarrow> unat (base_page r) mod 4096 = 0 \<and> unat (base_page r) + range_bytes r \<le> 2 ^ 47"

lemma page_size_unat [simp]: "unat PAGE_SIZE = 4096"
  by (simp add: PAGE_SIZE_def)

lemma aligned_unat: "(a :: u64) AND (PAGE_SIZE - 1) = 0 \<longleftrightarrow> unat a mod 4096 = 0"
proof -
  have "a AND (PAGE_SIZE - 1) = take_bit 12 a"
    by (simp add: PAGE_SIZE_def take_bit_eq_mask mask_eq_exp_minus_1)
  moreover have "unat (take_bit 12 a) = unat a mod 4096"
    unfolding unsigned_take_bit_eq by (simp add: take_bit_eq_mod)
  ultimately show ?thesis by (metis unat_eq_0)
qed

lemma add_u64_nat:
  assumes "add_u64 chk a b = Some c" "chk \<or> unat a + unat b < 2 ^ 64"
  shows "unat c = unat a + unat b"
  using assms by (auto simp: add_u64_def unat_word_ariths split: if_splits)

lemma page_range_new_ok:
  assumes new: "page_range_new chk base count = Some (Inr r)"
    and nowrap: "chk \<or> unat base + unat count * 4096 < 2 ^ 64"
  shows "r = \<lparr>base_page = base, page_count = count\<rparr>" and "user_range r"
proof -
  from new obtain b l where b: "checked_mul count PAGE_SIZE = Some b"
    and al: "base AND (PAGE_SIZE - 1) = 0" and l: "add_u64 chk base b = Some l" "l \<le> MAX_USER_ADDR"
    and r: "r = \<lparr>base_page = base, page_count = count\<rparr>"
    by (auto simp: page_range_new_def validate_page_align_def option_monad
        split: option.splits if_splits)
  have ub: "unat b = unat count * 4096"
    using checked_mul_Some [OF b] unfolding page_size_unat by blast
  have "unat l = unat base + unat count * 4096"
    using add_u64_nat [OF l(1)] nowrap ub by simp
  moreover have "unat l \<le> 2 ^ 47"
    using l(2) by (simp add: word_le_nat_alt MAX_USER_ADDR_def)
  ultimately show "user_range r"
    using al by (simp add: user_range_def range_bytes_def r aligned_unat)
  show "r = \<lparr>base_page = base, page_count = count\<rparr>" by (rule r)
qed

lemma page_range_new_complete:
  assumes "unat base mod 4096 = 0" "unat base + unat count * 4096 \<le> 2 ^ 47"
  shows "page_range_new chk base count = Some (Inr \<lparr>base_page = base, page_count = count\<rparr>)"
proof -
  have m: "checked_mul count PAGE_SIZE = Some (count * PAGE_SIZE)"
    using assms(2) by (simp add: checked_mul_def)
  have um: "unat (count * PAGE_SIZE) = unat count * 4096"
    using checked_mul_Some [OF m] unfolding page_size_unat by blast
  have a: "add_u64 chk base (count * PAGE_SIZE) = Some (base + count * PAGE_SIZE)"
    using assms(2) um by (simp add: add_u64_def)
  have "unat (base + count * PAGE_SIZE) \<le> 2 ^ 47"
    using add_u64_nat [OF a] um assms(2) by simp
  then show ?thesis
    using assms m a
    by (simp add: page_range_new_def validate_page_align_def aligned_unat word_less_nat_alt
        word_le_nat_alt MAX_USER_ADDR_def not_less)
qed

lemma pages_unat:
  assumes "user_range r" "i < unat (page_count r)"
  shows "unat (base_page r + of_nat i * PAGE_SIZE) = unat (base_page r) + i * 4096"
proof -
  have lt: "unat (base_page r) + i * 4096 < 2 ^ 64"
    using assms by (simp add: user_range_def range_bytes_def)
  have "base_page r + of_nat i * PAGE_SIZE = of_nat (unat (base_page r) + i * 4096)"
    by (simp add: PAGE_SIZE_def)
  then show ?thesis
    using lt by (simp only: unat_of_nat take_bit_eq_mod) simp
qed

lemma pages_user:
  assumes "user_range r" "p \<in> set (pages r)"
  shows "unat p mod 4096 = 0" "unat p + 4096 \<le> 2 ^ 47"
proof -
  from assms(2) obtain i where i: "i < unat (page_count r)" "p = base_page r + of_nat i * PAGE_SIZE"
    by (auto simp: pages_def)
  then have "unat p = unat (base_page r) + i * 4096" using pages_unat [OF assms(1)] by simp
  moreover have "(i + 1) * 4096 \<le> unat (page_count r) * 4096"
    using i(1) by (intro mult_le_mono1) simp
  ultimately show "unat p mod 4096 = 0" "unat p + 4096 \<le> 2 ^ 47"
    using assms(1) by (simp_all add: user_range_def range_bytes_def mod_add_left_eq)
qed

lemma pages_distinct: "user_range r \<Longrightarrow> distinct (pages r)"
proof -
  assume u: "user_range r"
  have "inj_on (\<lambda>i. base_page r + of_nat i * PAGE_SIZE) {0..<unat (page_count r)}"
  proof (rule inj_onI)
    fix i j assume "i \<in> {0..<unat (page_count r)}" "j \<in> {0..<unat (page_count r)}"
      and eq: "base_page r + of_nat i * PAGE_SIZE = base_page r + of_nat j * PAGE_SIZE"
    then have "unat (base_page r) + i * 4096 = unat (base_page r) + j * 4096"
      using pages_unat [OF u, of i] pages_unat [OF u, of j] by (metis atLeastLessThan_iff)
    then show "i = j" by simp
  qed
  then show ?thesis by (simp add: pages_def distinct_map)
qed

lemma pages_cover:
  assumes "user_range r" "unat (base_page r) \<le> unat v" "unat v < unat (base_page r) + range_bytes r"
  shows "\<exists>p \<in> set (pages r). unat p \<le> unat v \<and> unat v < unat p + 4096"
proof -
  define i where "i = (unat v - unat (base_page r)) div 4096"
  have "unat v - unat (base_page r) < unat (page_count r) * 4096"
    using assms(2,3) by (simp add: range_bytes_def)
  then have i: "i < unat (page_count r)"
    by (simp add: i_def less_mult_imp_div_less)
  let ?p = "base_page r + of_nat i * PAGE_SIZE"
  have "unat ?p = unat (base_page r) + i * 4096" by (rule pages_unat [OF assms(1) i])
  moreover have "i * 4096 \<le> unat v - unat (base_page r)"
    "unat v - unat (base_page r) < i * 4096 + 4096"
    unfolding i_def by (simp, metis add.commute dividend_less_div_times zero_less_numeral)
  ultimately have "unat ?p \<le> unat v \<and> unat v < unat ?p + 4096"
    using assms(2) by linarith
  moreover have "?p \<in> set (pages r)" using i by (auto simp: pages_def)
  ultimately show ?thesis by blast
qed

section \<open>\<open>containing\<close> rounds outwards\<close>

lemma unat_mod_page: "unat ((a :: u64) mod PAGE_SIZE) = unat a mod 4096"
  by (metis page_size_unat unat_mod)

lemma unat_div_page: "unat ((a :: u64) div PAGE_SIZE) = unat a div 4096"
  by (metis page_size_unat unat_div)

lemma round_up_padding:
  fixes n :: nat
  shows "n + (if n mod 4096 = 0 then 0 else 4096 - n mod 4096) = (n + 4095) div 4096 * 4096"
proof -
  define q m where "q = n div 4096" and "m = n mod 4096"
  have n: "n = q * 4096 + m" "m < 4096" by (simp_all add: q_def m_def)
  show ?thesis
  proof (cases "m = 0")
    case True
    then show ?thesis using n by simp
  next
    case False
    then have "(n + 4095) div 4096 = q + 1"
      using n by (simp add: div_nat_eqI)
    then show ?thesis using n False by simp
  qed
qed

lemma padding_unat:
  "unat (if (b :: u64) mod PAGE_SIZE = 0 then 0 else PAGE_SIZE - b mod PAGE_SIZE) =
   (if unat b mod 4096 = 0 then 0 else 4096 - unat b mod 4096)"
proof -
  have "b mod PAGE_SIZE = 0 \<longleftrightarrow> unat b mod 4096 = 0"
    by (metis unat_mod_page unat_eq_0)
  moreover have "unat (PAGE_SIZE - b mod PAGE_SIZE) = 4096 - unat b mod 4096"
  proof -
    have "b mod PAGE_SIZE \<le> PAGE_SIZE"
      using unat_mod_page [of b] by (simp add: word_le_nat_alt)
    then show ?thesis by (simp add: unat_sub unat_mod_page)
  qed
  ultimately show ?thesis by simp
qed

lemma containing_args:
  assumes "page_range_containing chk start len = Some (Inr r)"
  shows "\<exists>base count. page_range_new chk base count = Some (Inr r) \<and>
     unat base = unat start - unat start mod 4096 \<and>
     unat count = (unat len + unat start mod 4096 + 4095) div 4096"
proof -
  let ?off = "start mod PAGE_SIZE" let ?base = "start - ?off"
  let ?pad = "\<lambda>b :: u64. if b mod PAGE_SIZE = 0 then 0 else PAGE_SIZE - b mod PAGE_SIZE"
  from assms obtain b c where b: "checked_add len ?off = Some b"
    and c: "checked_add b (?pad b) = Some c"
    and new: "page_range_new chk ?base (c div PAGE_SIZE) = Some (Inr r)"
    by (auto simp: page_range_containing_def Let_def split: option.splits)
  have ub: "unat b = unat len + unat start mod 4096"
    using checked_add_Some [OF b] unfolding unat_mod_page by blast
  have "unat c = unat b + (if unat b mod 4096 = 0 then 0 else 4096 - unat b mod 4096)"
    using checked_add_Some [OF c] unfolding padding_unat by blast
  then have "unat c = (unat b + 4095) div 4096 * 4096"
    unfolding round_up_padding .
  then have count: "unat (c div PAGE_SIZE) = (unat len + unat start mod 4096 + 4095) div 4096"
    by (simp add: unat_div_page ub)
  have "?off \<le> start" by (simp add: word_le_nat_alt unat_mod_page)
  then have "unat ?base = unat start - unat start mod 4096"
    by (simp add: unat_sub unat_mod_page)
  with new count show ?thesis by blast
qed

lemma containing_ok:
  assumes c: "page_range_containing chk start len = Some (Inr r)"
    and nowrap: "chk \<or> unat start + unat len + 4095 < 2 ^ 64"
  shows "user_range r" "unat (base_page r) = unat start - unat start mod 4096"
    "range_bytes r = (unat len + unat start mod 4096 + 4095) div 4096 * 4096"
proof -
  obtain base count where n: "page_range_new chk base count = Some (Inr r)"
    and base: "unat base = unat start - unat start mod 4096"
    and count: "unat count = (unat len + unat start mod 4096 + 4095) div 4096"
    using containing_args [OF c] by blast
  have "unat count * 4096 \<le> unat len + unat start mod 4096 + 4095"
    unfolding count by (rule div_times_less_eq_dividend)
  moreover have "unat start mod 4096 \<le> unat start" by simp
  ultimately have "unat base + unat count * 4096 \<le> unat start + unat len + 4095"
    unfolding base by linarith
  then have "chk \<or> unat base + unat count * 4096 < 2 ^ 64" using nowrap by linarith
  from page_range_new_ok [OF n this] show "user_range r"
    "unat (base_page r) = unat start - unat start mod 4096"
    "range_bytes r = (unat len + unat start mod 4096 + 4095) div 4096 * 4096"
    using base count by (simp_all add: range_bytes_def)
qed

lemma containing_covers:
  assumes "page_range_containing chk start len = Some (Inr r)"
    and "chk \<or> unat start + unat len + 4095 < 2 ^ 64"
  shows "unat (base_page r) \<le> unat start" "unat start + unat len \<le> unat (base_page r) + range_bytes r"
proof -
  note c = containing_ok [OF assms]
  show "unat (base_page r) \<le> unat start" using c(2) by simp
  have "unat len + unat start mod 4096 \<le> (unat len + unat start mod 4096 + 4095) div 4096 * 4096"
    using round_up_padding [of "unat len + unat start mod 4096"] by linarith
  moreover have "unat start mod 4096 \<le> unat start" by simp
  ultimately show "unat start + unat len \<le> unat (base_page r) + range_bytes r"
    unfolding c(2,3) by linarith
qed

section \<open>What validation establishes\<close>

lemma user_ordinary:
  assumes "unat (v :: u64) < 2 ^ 47"
  shows "ordinary v"
proof -
  have "unat (ix 3 v) = unat v div 2 ^ 39 mod 2 ^ 9"
    unfolding ix_def masks
    by (simp add: drop_bit_eq_div flip: take_bit_eq_mask) (simp add: take_bit_eq_mod unat_mod unat_div)
  moreover have "unat v div 2 ^ 39 < 2 ^ 8" using assms by (simp add: less_mult_imp_div_less)
  ultimately have "unat (ix 3 v) < 256" by simp
  then show ?thesis by auto
qed

lemma same_page:
  assumes "unat (p :: u64) mod 4096 = 0" "unat p \<le> unat v" "unat v < unat p + 4096"
  shows "same 4 p v"
proof -
  have "unat p div 4096 = unat v div 4096"
  proof -
    obtain q where q: "unat p = q * 4096" using assms(1) by auto
    then have "unat v div 4096 = q" using assms(2,3) by (intro div_nat_eqI) simp_all
    then show ?thesis using q by simp
  qed
  then have "unat (drop_bit 12 p) = unat (drop_bit 12 v)"
    by (simp add: drop_bit_eq_div unat_div)
  then have "drop_bit 12 p = drop_bit 12 v" by (rule word_unat_eq_iff [THEN iffD2])
  then show ?thesis
    by (simp add: same_4)
qed

lemma validate_map_pages_ok:
  assumes "pt_wf s" "\<forall>p \<in> set ps. ordinary p"
    and fb: "bitflags_from_bits from_bits" and ct: "bitflags_contains contains"
    and "validate_map_pages from_bits contains flags s ps = Some (Inr ())"
  shows "\<forall>p \<in> set ps. \<exists>e. leaf s p = Some e \<and> (e AND 0xfff) AND flags = flags"
  using assms(2,5)
proof (induction ps)
  case Nil
  then show ?case by simp
next
  case (Cons p ps)
  have "ordinary p" using Cons.prems by simp
  note en = entry_leaf [OF assms(1) this]
  from Cons.prems(2) obtain e where e: "leaf s p = Some e" "(e AND 0xfff) AND flags = flags"
    and rest: "validate_map_pages from_bits contains flags s ps = Some (Inr ())"
    using fb ct
    by (auto simp: en option_monad pml_flags_def bitflags_from_bits_def bitflags_contains_def
        split: option.splits if_splits)
  with Cons show ?case by simp
qed

lemma validate_map_pages_complete:
  assumes "pt_wf s" "\<forall>p \<in> set ps. ordinary p"
    and fb: "bitflags_from_bits from_bits" and ct: "bitflags_contains contains"
    and "\<forall>p \<in> set ps. \<exists>e. leaf s p = Some e \<and> (e AND 0xfff) AND flags = flags \<and>
        (e AND 0xfff) AND NOT PAGE_FLAGS_ALL = 0"
  shows "validate_map_pages from_bits contains flags s ps = Some (Inr ())"
  using assms(2,5)
proof (induction ps)
  case Nil
  then show ?case by simp
next
  case (Cons p ps)
  have "ordinary p" using Cons.prems by simp
  note en = entry_leaf [OF assms(1) this]
  from Cons.prems(2) obtain e where e: "leaf s p = Some e" "(e AND 0xfff) AND flags = flags"
      "(e AND 0xfff) AND NOT PAGE_FLAGS_ALL = 0" by auto
  have "validate_map_pages from_bits contains flags s ps = Some (Inr ())"
    using Cons by simp
  with e show ?case
    using fb [unfolded bitflags_from_bits_def, rule_format, of PAGE_FLAGS_ALL "e AND 0xfff"]
      ct [unfolded bitflags_contains_def, rule_format, of "e AND 0xfff" flags]
    by (simp add: en pml_flags_def)
qed

lemma validate_available_pages_iff:
  assumes "pt_wf s" "\<forall>p \<in> set ps. ordinary p"
  shows "validate_available_pages s ps =
     Some (if \<forall>p \<in> set ps. leaf s p = None then Inr () else Inl SysAlreadyMapped)"
  using assms(2)
proof (induction ps)
  case Nil
  then show ?case by simp
next
  case (Cons p ps)
  then show ?case
    using entry_leaf [OF assms(1), of p] by (auto split: option.splits)
qed

lemma user_pages_ordinary: "user_range r \<Longrightarrow> \<forall>p \<in> set (pages r). ordinary p"
  using pages_user(2) by (auto intro!: user_ordinary) force

lemma validated_bytes:
  assumes wf: "pt_wf s" and u: "user_range r"
    and fb: "bitflags_from_bits from_bits" and ct: "bitflags_contains contains"
    and val: "validate_map from_bits contains r flags s = Some (Inr ())"
    and v: "unat (base_page r) \<le> unat v" "unat v < unat (base_page r) + range_bytes r"
  shows "unat v < 2 ^ 47 \<and> (\<exists>e. leaf s v = Some e \<and> (e AND 0xfff) AND flags = flags)"
proof -
  obtain p where p: "p \<in> set (pages r)" "unat p \<le> unat v" "unat v < unat p + 4096"
    using pages_cover [OF u v] by blast
  obtain e where "leaf s p = Some e" "(e AND 0xfff) AND flags = flags"
    using validate_map_pages_ok [OF wf user_pages_ordinary [OF u] fb ct] val p(1)
    unfolding validate_map_def by blast
  moreover have "leaf s p = leaf s v"
    using same_page [OF pages_user(1) [OF u p(1)] p(2,3)] by (rule leaf_same)
  ultimately show ?thesis
    using u v(2) by (auto simp: user_range_def)
qed

lemma borrow_slice_mutD:
  assumes "borrow_slice_mut from_bits contains chk size_of addr len s = Some (Inr sl)"
  shows "\<exists>n r. checked_mul len size_of = Some n \<and> page_range_containing chk addr n = Some (Inr r) \<and>
     validate_map from_bits contains r WRITE s = Some (Inr ()) \<and>
     sl = \<lparr>slice_addr = addr, slice_len = len\<rparr>"
proof -
  from assms obtain n where n: "checked_mul len size_of = Some n"
    by (cases "checked_mul len size_of") (simp_all add: borrow_slice_mut_def)
  with assms have v: "validate_write from_bits contains chk addr n s = Some (Inr ())"
    and sl: "sl = \<lparr>slice_addr = addr, slice_len = len\<rparr>"
    by (cases "validate_write from_bits contains chk addr n s";
        auto simp: borrow_slice_mut_def split: sum.splits)+
  from v obtain r where "page_range_containing chk addr n = Some (Inr r)"
      "validate_map from_bits contains r WRITE s = Some (Inr ())"
    by (cases "page_range_containing chk addr n") (auto simp: validate_write_def split: sum.splits)
  with n sl show ?thesis by blast
qed

lemma unat_plus_of_nat:
  assumes "unat (a :: u64) + i < 2 ^ 64"
  shows "unat (a + of_nat i) = unat a + i"
proof -
  have "a + of_nat i = of_nat (unat a + i)" by simp
  then show ?thesis using assms by (simp only: unat_of_nat take_bit_eq_mod) simp
qed

section \<open>Properties\<close>

text \<open>C16: \<open>PageRange::new\<close> accepts exactly the page-aligned ranges inside the user half of the address
  space, and the pages it then yields are distinct, page-aligned and entirely below
  \<open>MAX_USER_ADDR\<close>, in ascending order from the base.  The hypothesis excludes the wrap-around of
  the release build; the debug build needs none.\<close>

theorem page_range_sound_complete:
  assumes nowrap: "chk \<or> unat base + unat count * 4096 < 2 ^ 64"
  shows "page_range_new chk base count = Some (Inr r) \<longleftrightarrow>
     r = \<lparr>base_page = base, page_count = count\<rparr> \<and>
     unat base mod 4096 = 0 \<and> unat base + unat count * 4096 \<le> 2 ^ 47 \<and>
     length (pages r) = unat count \<and> distinct (pages r) \<and>
     (\<forall>p \<in> set (pages r). unat p mod 4096 = 0 \<and> unat base \<le> unat p \<and> unat p + 4096 \<le> 2 ^ 47)"
  (is "?l \<longleftrightarrow> ?r")
proof
  assume ?l
  note ok = page_range_new_ok [OF this nowrap]
  have "unat base \<le> unat p" if "p \<in> set (pages r)" for p
    using that pages_unat [OF ok(2)] by (auto simp: pages_def ok(1))
  moreover have "length (pages r) = unat count" by (simp add: pages_def ok(1))
  moreover have "unat base mod 4096 = 0 \<and> unat base + unat count * 4096 \<le> 2 ^ 47"
    using ok by (simp add: user_range_def range_bytes_def)
  ultimately show ?r
    using ok(1) pages_distinct [OF ok(2)] pages_user [OF ok(2)] by blast
next
  assume ?r
  then show ?l using page_range_new_complete [of base count chk] by simp
qed

theorem page_range_sound_complete_witness:
  "page_range_new False 0x400000 2 = Some (Inr \<lparr>base_page = 0x400000, page_count = 2\<rparr>) \<and>
   distinct (pages \<lparr>base_page = 0x400000, page_count = 2\<rparr>)"
proof -
  have r: "page_range_new False 0x400000 2 = Some (Inr \<lparr>base_page = 0x400000, page_count = 2\<rparr>)"
    by (rule page_range_new_complete) simp_all
  then show ?thesis
    using page_range_sound_complete [of False "0x400000" 2 "\<lparr>base_page = 0x400000, page_count = 2\<rparr>"]
    by simp
qed

text \<open>\<open>PageRange::containing\<close> yields the smallest page range around the bytes it is given: it
  starts at the page of the first byte, ends at the end of the page of the last byte, and lies in
  the user half.\<close>

lemma containing_is_smallest:
  assumes c: "page_range_containing chk start len = Some (Inr r)"
    and nowrap: "chk \<or> unat start + unat len + 4095 < 2 ^ 64"
  shows "unat (base_page r) \<le> unat start \<and> unat start < unat (base_page r) + 4096 \<and>
     unat start + unat len \<le> unat (base_page r) + range_bytes r \<and>
     unat (base_page r) + range_bytes r < unat start + unat len + 4096 \<and>
     unat (base_page r) + range_bytes r \<le> 2 ^ 47"
proof -
  note ok = containing_ok [OF c nowrap]
  have m: "unat start mod 4096 \<le> unat start" "unat start mod 4096 < 4096" by simp_all
  have "range_bytes r \<le> unat len + unat start mod 4096 + 4095"
    unfolding ok(3) by (rule div_times_less_eq_dividend)
  then have "unat (base_page r) + range_bytes r < unat start + unat len + 4096"
    using m unfolding ok(2) by linarith
  moreover have "unat start < unat (base_page r) + 4096" using m unfolding ok(2) by linarith
  ultimately show ?thesis
    using containing_covers [OF c nowrap] ok(1) by (simp add: user_range_def)
qed

lemma containing_is_smallest_witness:
  "page_range_containing True 0x1ffe 3 = Some (Inr \<lparr>base_page = 0x1000, page_count = 2\<rparr>) \<and>
   0x1ffe + 3 \<le> unat (0x1000 :: u64) + range_bytes \<lparr>base_page = 0x1000, page_count = 2\<rparr>"
proof -
  have "page_range_containing True 0x1ffe 3 = Some (Inr \<lparr>base_page = 0x1000, page_count = 2\<rparr>)"
    by (simp add: page_range_containing_def page_range_new_def checked_add_def checked_mul_def
        PAGE_SIZE_def validate_page_align_def MAX_USER_ADDR_def add_u64_def)
  with containing_is_smallest [OF this] show ?thesis by simp
qed

text \<open>The addition in \<open>PageRange::new\<close> can overflow.  A user program that asks for
  \<open>2^52 - 1\<close> pages from \<open>0x2000\<close> halts the debug kernel with an arithmetic panic; in the release
  build the sum wraps and the range is accepted although it reaches far into kernel space.\<close>

lemma page_range_overflow:
  "page_range_new True 0x2000 0xfffffffffffff = None \<and>
   page_range_new False 0x2000 0xfffffffffffff =
     Some (Inr \<lparr>base_page = 0x2000, page_count = 0xfffffffffffff\<rparr>) \<and>
   0xffff800000002000 \<in> set (pages \<lparr>base_page = 0x2000, page_count = 0xfffffffffffff\<rparr>)"
proof (intro conjI)
  show "page_range_new True 0x2000 0xfffffffffffff = None"
    by (simp add: page_range_new_def checked_mul_def PAGE_SIZE_def validate_page_align_def
        MAX_USER_ADDR_def add_u64_def)
  show "page_range_new False 0x2000 0xfffffffffffff =
     Some (Inr \<lparr>base_page = 0x2000, page_count = 0xfffffffffffff\<rparr>)"
    by (simp add: page_range_new_def checked_mul_def PAGE_SIZE_def validate_page_align_def
        MAX_USER_ADDR_def add_u64_def)
  show "0xffff800000002000 \<in> set (pages \<lparr>base_page = 0x2000, page_count = 0xfffffffffffff\<rparr>)"
    unfolding pages_def set_map set_upt
  proof (rule image_eqI)
    show "0xffff800000002000 = base_page \<lparr>base_page = 0x2000, page_count = 0xfffffffffffff\<rparr> +
        of_nat 0xffff800000000 * PAGE_SIZE"
      by (simp add: PAGE_SIZE_def)
    show "0xffff800000000 \<in> {0..<unat (page_count \<lparr>base_page = 0x2000, page_count = 0xfffffffffffff\<rparr>)}"
      by simp
  qed
qed

end
