(* ===== verification/Phys.thy ===== *)
theory Phys
  imports Paging
begin

text \<open>
  The physical page allocator, \<open>kernel/src/mem/phys.rs\<close>: a free list threaded through the
  free pages themselves, a bump allocator over the usable regions, and a reference count
  per page.

  A \<open>Phys\<close> handle is the address of its page; \<open>Phys::new\<close> and \<open>Clone\<close> are
  \<open>inc_ref\<close>, dropping a handle is \<open>phys_drop\<close>, \<open>into_raw\<close> and \<open>from_raw\<close> change
  nothing.  The counters of the array \<open>_phys_rc\<close> are kept in \<open>rc_array\<close> by address.
  \<open>Option<RawPhys>\<close> in memory is a tag word followed by the payload word.

  The contract (\<open>phys_inv\<close>): the allocator owns a list of free pages, \<open>alloc\<close> takes
  the first one and hands it out zeroed, and dropping the last reference puts the page
  in front.  The locale \<open>frame_source\<close> states it for the clients in \<open>page.rs\<close>.
\<close>

datatype memory_exhausted = MemoryExhausted

datatype phys_status = InUse | ShouldFree

definition MAX_PHYS_PAGE :: u64 where
  "MAX_PHYS_PAGE = push_bit 48 1"

section \<open>Reference counts\<close>

definition ref_count :: "kmem \<Rightarrow> u64 \<Rightarrow> u64 option option" where
  "ref_count s raw = do {
     regions \<leftarrow> PHYS_REGIONS s;
     if \<not> list_ex (\<lambda>reg. region_begin reg \<le> raw \<and> raw < region_end reg) regions then Some None
     else if raw > MAX_PHYS_PAGE then None
     else do {
       let page_number = drop_bit 12 raw;
       let rc = phys_rc s + 8 * page_number;
       if rc > phys_rc_end s then None else Some (Some rc) } }"

definition inc_ref_for_init :: "u64 \<Rightarrow> kmem \<Rightarrow> kmem option" where
  "inc_ref_for_init raw s = do {
     r \<leftarrow> ref_count s raw;
     (case r of
        None \<Rightarrow> Some s
      | Some rc \<Rightarrow> Some (s\<lparr>rc_array := (rc_array s)(rc := rc_array s rc + 1)\<rparr>)) }"

definition inc_ref :: "u64 \<Rightarrow> kmem \<Rightarrow> kmem option" where
  "inc_ref raw s =
     (if REF_COUNT_ENABLED s then do {
        r \<leftarrow> ref_count s raw;
        (case r of
           None \<Rightarrow> Some s
         | Some rc \<Rightarrow> Some (s\<lparr>rc_array := (rc_array s)(rc := rc_array s rc + 1)\<rparr>)) }
      else Some s)"

definition dec_ref :: "u64 \<Rightarrow> kmem \<Rightarrow> (phys_status \<times> kmem) option" where
  "dec_ref raw s =
     (if REF_COUNT_ENABLED s then do {
        r \<leftarrow> ref_count s raw;
        (case r of
           None \<Rightarrow> Some (InUse, s)
         | Some rc \<Rightarrow> do {
             let previous_ref_count = rc_array s rc;
             let s' = s\<lparr>rc_array := (rc_array s)(rc := previous_ref_count - 1)\<rparr>;
             if previous_ref_count = 0 then None   \<comment> \<open>phys::dec_ref underflowed!\<close>
             else if previous_ref_count = 1 then Some (ShouldFree, s')
             else Some (InUse, s') }) }
      else Some (InUse, s))"

definition phys_new :: "u64 \<Rightarrow> kmem \<Rightarrow> (u64 \<times> kmem) option" where
  "phys_new raw s = do { s' \<leftarrow> inc_ref raw s; Some (raw, s') }"

definition phys_clone :: "u64 \<Rightarrow> kmem \<Rightarrow> (u64 \<times> kmem) option" where
  "phys_clone phys s = phys_new phys s"

section \<open>Access to a page through a pointer\<close>

definition zero :: "u64 \<Rightarrow> nat \<Rightarrow> kmem \<Rightarrow> kmem option" where
  "zero ptr bytes s = fold_opt (\<lambda>i. vwrite (ptr + 8 * of_nat i) 0) [0..<bytes div 8] s"

definition read_link :: "kmem \<Rightarrow> u64 \<Rightarrow> u64 option option" where
  "read_link s ptr = do {
     tag \<leftarrow> vread s ptr;
     x \<leftarrow> vread s (ptr + 8);
     Some (if tag = 0 then None else Some x) }"

definition write_link :: "u64 \<Rightarrow> u64 option \<Rightarrow> kmem \<Rightarrow> kmem option" where
  "write_link ptr l s =
     (case l of
        None \<Rightarrow> vwrite ptr 0 s
      | Some x \<Rightarrow> do { s' \<leftarrow> vwrite ptr 1 s; vwrite (ptr + 8) x s' })"

definition take_link :: "u64 \<Rightarrow> kmem \<Rightarrow> (u64 option \<times> kmem) option" where
  "take_link ptr s = do {
     l \<leftarrow> read_link s ptr;
     s' \<leftarrow> write_link ptr None s;
     Some (l, s') }"

section \<open>Allocation and release\<close>

definition alloc_freelist :: "kmem \<Rightarrow> (u64 option \<times> kmem) option" where
  "alloc_freelist s =
     (case NEXT_FREE_PHYS s of
        None \<Rightarrow> Some (None, s)
      | Some raw \<Rightarrow> do {
          (phys, s) \<leftarrow> phys_new raw (s\<lparr>NEXT_FREE_PHYS := None\<rparr>);
          s \<leftarrow> temp_map phys s;
          (link, s) \<leftarrow> take_link (temp_page s) s;
          s \<leftarrow> zero (temp_page s) (unat PAGE_SIZE) (s\<lparr>NEXT_FREE_PHYS := link\<rparr>);
          s \<leftarrow> temp_reset s;
          Some (Some phys, s) })"

fun bump_find :: "phys_region list \<Rightarrow> u64 list \<Rightarrow> (u64 \<times> u64 list) option" where
  "bump_find (region # regions) (alloc # allocs) =
     (if alloc \<ge> region_end region
      then map_option (\<lambda>(raw, allocs'). (raw, alloc # allocs')) (bump_find regions allocs)
      else Some (alloc, (alloc + PAGE_SIZE) # allocs))"
| "bump_find _ _ = None"

definition alloc_new :: "phys_region list \<Rightarrow> u64 list \<Rightarrow> kmem
    \<Rightarrow> ((memory_exhausted + u64) \<times> kmem) option" where
  "alloc_new regions bump_alloc s =
     (case bump_find regions bump_alloc of
        None \<Rightarrow> Some (Inl MemoryExhausted, s)
      | Some (raw, bump_alloc') \<Rightarrow> do {
          (phys, s) \<leftarrow> phys_new raw (s\<lparr>PHYS_BUMP_ALLOC := Some bump_alloc'\<rparr>);
          s \<leftarrow> temp_map raw s;
          s \<leftarrow> zero (temp_page s) (unat PAGE_SIZE) s;
          s \<leftarrow> temp_reset s;
          Some (Inr phys, s) })"

definition phys_alloc :: "kmem \<Rightarrow> ((memory_exhausted + u64) \<times> kmem) option" where
  "phys_alloc s = do {
     (r, s) \<leftarrow> alloc_freelist s;
     (case r of
        Some page \<Rightarrow> Some (Inr page, s)
      | None \<Rightarrow> do {
          regions \<leftarrow> PHYS_REGIONS s;
          bump_alloc \<leftarrow> PHYS_BUMP_ALLOC s;
          alloc_new regions bump_alloc s }) }"

definition phys_drop :: "u64 \<Rightarrow> kmem \<Rightarrow> kmem option" where
  "phys_drop phys s = do {
     (status, s) \<leftarrow> dec_ref phys s;
     (case status of
        InUse \<Rightarrow> Some s
      | ShouldFree \<Rightarrow> do {
          let next_free = NEXT_FREE_PHYS s;
          s \<leftarrow> temp_map phys (s\<lparr>NEXT_FREE_PHYS := None\<rparr>);
          s \<leftarrow> write_link (temp_page s) next_free s;
          s \<leftarrow> temp_reset s;
          Some (s\<lparr>NEXT_FREE_PHYS := Some phys\<rparr>) }) }"


section \<open>Specification vocabulary\<close>

definition word_of :: "u64 \<Rightarrow> nat \<Rightarrow> u64" where
  "word_of p i = p + 8 * of_nat i"

definition in_page :: "u64 \<Rightarrow> u64 \<Rightarrow> bool" where
  "in_page p a \<longleftrightarrow> (\<exists>i < 512. a = word_of p i)"

definition clear_page :: "u64 \<Rightarrow> (u64 \<Rightarrow> u64) \<Rightarrow> u64 \<Rightarrow> u64" where
  "clear_page p m = (\<lambda>a. if in_page p a then 0 else m a)"

definition link_at :: "(u64 \<Rightarrow> u64) \<Rightarrow> u64 \<Rightarrow> u64 option" where
  "link_at m p = (if m p = 0 then None else Some (m (p + 8)))"

fun free_chain :: "(u64 \<Rightarrow> u64) \<Rightarrow> u64 option \<Rightarrow> u64 list \<Rightarrow> bool" where
  "free_chain m None ps = (ps = [])"
| "free_chain m (Some p) ps = (case ps of [] \<Rightarrow> False
     | q # qs \<Rightarrow> q = p \<and> free_chain m (link_at m p) qs)"

definition region_pages :: "phys_region \<times> u64 \<Rightarrow> u64 list" where
  "region_pages ra = map (\<lambda>k. snd ra + 4096 * of_nat k)
     [0..<(unat (region_end (fst ra)) - unat (snd ra) + 4095) div 4096]"

definition bump_pages :: "phys_region list \<Rightarrow> u64 list \<Rightarrow> u64 list" where
  "bump_pages regions allocs = concat (map region_pages (zip regions allocs))"

text \<open>The page that \<open>temp_page\<close> names has its tables and is currently unmapped.\<close>

definition temp_ok :: "kmem \<Rightarrow> bool" where
  "temp_ok s \<longleftrightarrow> ordinary (temp_page s) \<and> reach s (temp_page s) 3 \<and>
     pte s (temp_page s) 3 = 0 \<and> temp_page s AND 0xfff = 0"

definition page_ok :: "kmem \<Rightarrow> u64 \<Rightarrow> bool" where
  "page_ok s p \<longleftrightarrow> frame p = p \<and> p \<noteq> 0 \<and> \<not> is_table s p \<and> ref_count s p \<noteq> None"

definition phys_inv :: "kmem \<Rightarrow> u64 list \<Rightarrow> bool" where
  "phys_inv s ps \<longleftrightarrow> pt_wf s \<and> temp_ok s \<and> distinct ps \<and> (\<forall>p \<in> set ps. page_ok s p) \<and>
     (\<exists>cs regions allocs. PHYS_REGIONS s = Some regions \<and> PHYS_BUMP_ALLOC s = Some allocs \<and>
        free_chain (pmem s) (NEXT_FREE_PHYS s) cs \<and> ps = cs @ bump_pages regions allocs)"

section \<open>Words of a page\<close>

lemma of_nat_lt_512:
  assumes "i < 512"
  shows "(of_nat i :: u64) = of_nat i AND 0x1ff"
proof -
  have "take_bit 9 (of_nat i :: u64) = of_nat i"
    using assms by (simp add: take_bit_of_nat take_bit_nat_eq_self)
  then show ?thesis by (simp add: take_bit_eq_mask masks)
qed

lemma word_of_or:
  assumes "i < 512"
  shows "word_of (frame p) i = frame p OR push_bit 3 (of_nat i AND mask 9)"
proof -
  have "word_of (frame p) i = frame p + push_bit 3 (of_nat i AND mask 9)"
    using of_nat_lt_512 [OF assms] by (simp add: word_of_def mult_8 masks)
  also have "\<dots> = frame p OR push_bit 3 (of_nat i AND mask 9)"
    by (rule word_add_or, rule bit_word_eqI) (auto simp: frame_def masks bit_simps)
  finally show ?thesis .
qed

lemma frame_word_of:
  assumes "i < 512" "frame p = p"
  shows "frame (word_of p i) = p"
proof -
  have "frame (frame p OR push_bit 3 (of_nat i AND mask 9)) = frame p"
    unfolding frame_def masks by (rule bit_word_eqI) (auto simp: bit_simps)
  then show ?thesis using word_of_or [OF assms(1), of p] assms(2) by simp
qed

lemma in_page_frame: "frame p = p \<Longrightarrow> in_page p a \<Longrightarrow> frame a = p"
  by (auto simp: in_page_def frame_word_of)

lemma slot_in_page: "in_page (tbl s v d) (slot s v d)"
  using ix_of_nat [of "3 - d" v] by (auto simp: in_page_def slot_def word_of_def)

lemma word_of_inj:
  assumes "word_of p i = word_of p j" "i < 512" "j < 512"
  shows "i = j"
proof -
  have "8 * of_nat i = (8 * of_nat j :: u64)" using assms(1) by (simp add: word_of_def)
  then have "unat (8 * of_nat i :: u64) = unat (8 * of_nat j :: u64)" by simp
  then show ?thesis using assms(2,3) by (simp add: unat_word_ariths unat_of_nat)
qed

lemma in_page_base: "in_page p p" "in_page p (p + 8)"
  unfolding in_page_def word_of_def
  by (rule exI [of _ 0], simp) (rule exI [of _ 1], simp)

lemma zeroed_clear: "pmem s = clear_page p m \<Longrightarrow> zeroed s p"
  by (auto simp: zeroed_def clear_page_def in_page_def word_of_def)

section \<open>The temporary window\<close>

text \<open>While a page \<open>p\<close> is mapped at \<open>temp_page\<close>, its words are reached through the window.\<close>

definition window :: "kmem \<Rightarrow> u64 \<Rightarrow> bool" where
  "window s p \<longleftrightarrow> pt_wf s \<and> ordinary (temp_page s) \<and> reach s (temp_page s) 3 \<and>
     pte s (temp_page s) 3 = p OR 3 \<and> temp_page s AND 0xfff = 0 \<and>
     frame p = p \<and> \<not> is_table s p"

lemma bit_and_mask_0: "(t :: u64) AND mask k = 0 \<Longrightarrow> bit t n \<Longrightarrow> k \<le> n"
  using bit_and_iff [of t "mask k" n] bit_imp_le_length [of t n] by (auto simp: bit_mask_iff)

lemma bit_and_not_mask_0: "(t :: u64) AND NOT (mask k) = 0 \<Longrightarrow> bit t n \<Longrightarrow> n < k"
  using bit_and_iff [of t "NOT (mask k)" n] bit_imp_le_length [of t n]
  by (auto simp: bit_mask_iff bit_not_iff)

lemma frame_flags:
  assumes "f AND NOT 0xfff = (0 :: u64)"
  shows "frame f = 0"
proof -
  have "bit f n \<Longrightarrow> n < 12" for n using bit_and_not_mask_0 [of f 12 n] assms by (simp add: masks)
  then show ?thesis
    unfolding frame_def masks by (intro bit_word_eqI) (auto simp: bit_simps not_le)
qed

lemma frame_or_flags:
  assumes "frame p = p" "f AND NOT 0xfff = 0"
  shows "frame (p OR f) = p"
  using assms frame_flags [OF assms(2)] by (simp add: frame_def bit.conj_disj_distrib2)

lemma present_odd: "present e \<longleftrightarrow> odd e"
  by (simp add: present_def and_one_eq odd_iff_mod_2_eq_one even_iff_mod_2_eq_zero)

lemma present_or: "odd f \<Longrightarrow> present (p OR f)"
  by (simp add: present_odd even_or_iff)

lemma same_in_page:
  assumes "t AND 0xfff = 0" "i < 512"
  shows "same 4 t (t + 8 * of_nat i)" and "(t + 8 * of_nat i) AND 0xfff = 8 * of_nat i"
proof -
  have lo: "bit t n \<Longrightarrow> 12 \<le> n" for n
    using assms(1) bit_and_mask_0 [of t 12 n] by (simp add: masks)
  have "t + 8 * of_nat i = t + push_bit 3 (of_nat i AND mask 9)"
    using of_nat_lt_512 [OF assms(2)] by (simp add: mult_8 masks)
  also have "\<dots> = t OR push_bit 3 (of_nat i AND mask 9)"
    by (rule word_add_or, rule bit_word_eqI) (auto simp: bit_simps dest: lo)
  finally have eq: "t + 8 * of_nat i = t OR push_bit 3 (of_nat i AND mask 9)" .
  show "same 4 t (t + 8 * of_nat i)"
    unfolding same_4 eq by (rule bit_word_eqI) (auto simp: bit_simps)
  have "(t OR push_bit 3 (of_nat i AND mask 9)) AND mask 12 = push_bit 3 (of_nat i AND mask 9)"
    by (rule bit_word_eqI) (auto simp: bit_simps dest: lo)
  then show "(t + 8 * of_nat i) AND 0xfff = 8 * of_nat i"
    using of_nat_lt_512 [OF assms(2)] eq unfolding masks mult_8 by metis
qed

lemma window_translate:
  assumes w: "window s p" and i: "i < 512"
  shows "translate s (temp_page s + 8 * of_nat i) = Some (word_of p i)"
proof -
  let ?t = "temp_page s" and ?v = "temp_page s + 8 * of_nat i"
  have h: "pt_wf s" "ordinary ?t" "reach s ?t 3" "pte s ?t 3 = p OR 3" "?t AND 0xfff = 0"
    "frame p = p" using w by (auto simp: window_def)
  have sm: "same 4 ?t ?v" and off: "?v AND 0xfff = 8 * of_nat i"
    using same_in_page [OF h(5) i] by auto
  have eq: "pte s ?v d = pte s ?t d" if "d < 4" for d
    using pte_same [of d ?t ?v s] same_mono [OF sm, of "Suc d"] that by simp
  have "present (p OR 3)" by (rule present_or) simp
  moreover have "frame (p OR 3) = p" by (rule frame_or_flags [OF h(6)]) simp
  ultimately show ?thesis
    using pt_wf_present [OF h(1-3)] h(4) off
    by (simp add: translate_walk eq word_of_def)
qed

lemma window_io:
  assumes "window s p" "i < 512"
  shows "vread s (temp_page s + 8 * of_nat i) = Some (pmem s (word_of p i))"
    and "vwrite (temp_page s + 8 * of_nat i) x s = Some (set_pmem (word_of p i) x s)"
  using window_translate [OF assms] by (simp_all add: vread_def vwrite_def)

lemma agree_outside:
  assumes "\<not> is_table s p" "frame a = p"
  shows "tables_agree s (set_pmem a x s)"
  using assms by (auto simp: tables_agree_def)

lemma window_set_word:
  assumes w: "window s p" and i: "i < 512"
  shows "window (set_pmem (word_of p i) x s) p"
proof -
  have h: "pt_wf s" "ordinary (temp_page s)" "reach s (temp_page s) 3" "frame p = p"
    "\<not> is_table s p" using w by (auto simp: window_def)
  have ag: "tables_agree s (set_pmem (word_of p i) x s)"
    using agree_outside h frame_word_of [OF i] by simp
  show ?thesis
    using w pt_wf_agree [OF ag h(1)] walk_agree [OF ag h(2), of 3]
      pte_tables_agree [OF ag h(2), of 3] is_table_agree [OF ag]
    by (simp add: window_def)
qed

lemma window_zero:
  assumes "window s p" "n \<le> 512"
  shows "\<exists>s'. fold_opt (\<lambda>i. vwrite (temp_page s + 8 * of_nat i) 0) [0..<n] s = Some s' \<and>
     window s' p \<and> s' = s\<lparr>pmem := (\<lambda>a. if \<exists>i < n. a = word_of p i then 0 else pmem s a)\<rparr>"
  using assms(2)
proof (induction n)
  case 0
  then show ?case using assms(1) by simp
next
  case (Suc n)
  then obtain s' where s': "fold_opt (\<lambda>i. vwrite (temp_page s + 8 * of_nat i) 0) [0..<n] s = Some s'"
    "window s' p" "s' = s\<lparr>pmem := (\<lambda>a. if \<exists>i < n. a = word_of p i then 0 else pmem s a)\<rparr>" by auto
  have "temp_page s' = temp_page s" using s'(3) by simp
  then have "vwrite (temp_page s + 8 * of_nat n) 0 s' = Some (set_pmem (word_of p n) 0 s')"
    using window_io(2) [OF s'(2), of n 0] Suc.prems by simp
  moreover have "window (set_pmem (word_of p n) 0 s') p"
    using window_set_word [OF s'(2)] Suc.prems by simp
  moreover have "set_pmem (word_of p n) 0 s' =
      s\<lparr>pmem := (\<lambda>a. if \<exists>i < Suc n. a = word_of p i then 0 else pmem s a)\<rparr>"
    unfolding set_pmem_def s'(3)
    by (simp, intro arg_cong [of _ _ "\<lambda>m. s\<lparr>pmem := m\<rparr>"]) (auto simp: less_Suc_eq fun_eq_iff)
  ultimately show ?case using s'(1) by (simp add: fold_opt_append)
qed

lemma zero_window:
  assumes "window s p"
  shows "\<exists>s'. zero (temp_page s) (unat PAGE_SIZE) s = Some s' \<and> window s' p \<and>
     s' = s\<lparr>pmem := clear_page p (pmem s)\<rparr>"
  using window_zero [OF assms, of 512]
  by (simp add: zero_def PAGE_SIZE_def clear_page_def in_page_def)


lemma temp_map_window:
  assumes wf: "pt_wf s" and t: "temp_ok s" and p: "frame p = p" "\<not> is_table s p"
  shows "temp_map p s = Some (set_pmem (slot s (temp_page s) 3) (p OR 3) s)"
    and "window (set_pmem (slot s (temp_page s) 3) (p OR 3) s) p"
proof -
  let ?t = "temp_page s" and ?s = "set_pmem (slot s (temp_page s) 3) (p OR 3) s"
  have h: "ordinary ?t" "reach s ?t 3" "pte s ?t 3 = 0" "?t AND 0xfff = 0"
    using t by (auto simp: temp_ok_def)
  have live: "live_slot s ?t 3" using wf h by (simp add: live_slot_def pt_wf_def)
  show "temp_map p s = Some ?s"
    using window_vread(4) [OF wf h(1,2)] window_vwrite(4) [OF wf h(1,2)] h(3)
    by (simp add: temp_map_def PRESENT_def WRITE_def)
  have "same (Suc 3) ?t ?t" by (simp add: same_def)
  then have "pte ?s ?t 3 = p OR 3" using pte_set_slot_same [OF live] by simp
  then show "window ?s p"
    using pt_wf_set_leaf [OF wf h(1,2)] walk_set_leaf [OF live h(1)] h p
      is_table_set_leaf [OF live]
    by (simp add: window_def)
qed

lemma temp_reset_window:
  assumes "window s p"
  shows "temp_reset s = Some (set_pmem (slot s (temp_page s) 3) 0 s)"
  using assms window_vwrite(4) [of s "temp_page s" 0] by (auto simp: temp_reset_def window_def)

text \<open>
  One use of the window: from mapping to unmapping, only the mapped page changes and the
  tables are as before.
\<close>

lemma window_slot:
  assumes "tables_agree s s'" "temp_ok s" "temp_page s' = temp_page s"
  shows "slot s' (temp_page s) 3 = slot s (temp_page s) 3"
  using assms walk_agree [of s s' "temp_page s" 3] by (simp add: slot_def temp_ok_def)

lemma close_window:
  assumes wf: "pt_wf s" and t: "temp_ok s" and p: "frame p = p" "\<not> is_table s p"
    and s1: "s1 = (set_pmem (slot s (temp_page s) 3) (p OR 3) s)\<lparr>pmem := m\<rparr>" and w: "window s1 p"
    and m: "\<And>a. \<not> in_page p a \<Longrightarrow> m a = pmem (set_pmem (slot s (temp_page s) 3) (p OR 3) s) a"
  shows "temp_reset s1 = Some (s\<lparr>pmem := (\<lambda>a. if in_page p a then m a else pmem s a)\<rparr>)"
proof -
  let ?t = "temp_page s" let ?u = "set_pmem (slot s ?t 3) (p OR 3) s"
  have h: "ordinary ?t" "reach s ?t 3" "pte s ?t 3 = 0" using t by (auto simp: temp_ok_def)
  have live: "live_slot s ?t 3" using wf h by (simp add: live_slot_def pt_wf_def)
  have nt: "\<not> is_table ?u p" using p is_table_set_leaf [OF live] by simp
  have "pmem s1 a = pmem ?u a" if "is_table ?u (frame a)" for a
  proof -
    have "\<not> in_page p a" using that nt in_page_frame [OF p(1)] by auto
    then show ?thesis using m [of a] by (simp add: s1)
  qed
  then have ag: "tables_agree ?u s1" by (simp add: tables_agree_def s1)
  have "slot s1 ?t 3 = slot ?u ?t 3"
    using walk_agree [OF ag h(1), of 3] walk_set_leaf [OF live h(1)] h(2) by (simp add: slot_def)
  also have "\<dots> = slot s ?t 3"
    using walk_set_leaf [OF live h(1)] h(2) by (simp add: slot_def)
  finally have sl: "slot s1 ?t 3 = slot s ?t 3" .
  have "frame (slot s ?t 3) \<noteq> p"
    using is_table_tbl [of ?t 3 s] h p(2) by (auto simp: frame_slot_tbl)
  then have "\<not> in_page p (slot s ?t 3)" using in_page_frame [OF p(1)] by auto
  moreover have "pmem s (slot s ?t 3) = 0" using h(3) by (simp add: pte_def)
  ultimately have "(m(slot s ?t 3 := 0)) a = (if in_page p a then m a else pmem s a)" for a
    using m [of a] by (cases "a = slot s ?t 3") simp_all
  then have "m(slot s ?t 3 := 0) = (\<lambda>a. if in_page p a then m a else pmem s a)" by blast
  then have "set_pmem (slot s ?t 3) 0 s1 =
      s\<lparr>pmem := (\<lambda>a. if in_page p a then m a else pmem s a)\<rparr>"
    by (simp add: set_pmem_def s1)
  then show ?thesis using temp_reset_window [OF w] sl by (simp add: s1)
qed


section \<open>Parts of the state the tables do not depend on\<close>

lemma agree_same_pmem: "pmem s' = pmem s \<Longrightarrow> cr3 s' = cr3 s \<Longrightarrow> tables_agree s s'"
  by (simp add: tables_agree_def)

lemma slot_same_pmem: "pmem s' = pmem s \<Longrightarrow> cr3 s' = cr3 s \<Longrightarrow> slot s' v d = slot s v d"
proof -
  assume "pmem s' = pmem s" "cr3 s' = cr3 s"
  then have "tbl s' v d = tbl s v d" by (induction d) auto
  then show ?thesis by (simp add: slot_def)
qed

lemma slot_upd [simp]:
  "slot (s\<lparr>NEXT_FREE_PHYS := n\<rparr>) v d = slot s v d"
  "slot (s\<lparr>PHYS_BUMP_ALLOC := b\<rparr>) v d = slot s v d"
  "slot (s\<lparr>rc_array := f\<rparr>) v d = slot s v d"
  by (rule slot_same_pmem; simp)+

lemma temp_ok_agree:
  assumes "tables_agree s s'" "temp_page s' = temp_page s" "temp_ok s"
  shows "temp_ok s'"
  using assms walk_agree [OF assms(1), of "temp_page s" 3]
    pte_tables_agree [OF assms(1), of "temp_page s" 3]
  by (simp add: temp_ok_def)

lemma window_agree:
  assumes "pmem s' = pmem s" "cr3 s' = cr3 s" "temp_page s' = temp_page s" "window s p"
  shows "window s' p"
  using assms(3,4) agree_same_pmem [OF assms(1,2)] pt_wf_agree [of s s']
    walk_agree [of s s' "temp_page s" 3] pte_tables_agree [of s s' "temp_page s" 3]
    is_table_agree [of s s' p]
  by (simp add: window_def)

lemma ref_count_cong:
  "PHYS_REGIONS s' = PHYS_REGIONS s \<Longrightarrow> phys_rc s' = phys_rc s \<Longrightarrow> phys_rc_end s' = phys_rc_end s
   \<Longrightarrow> ref_count s' = ref_count s"
  unfolding ref_count_def fun_eq_iff Let_def by (simp cong: if_cong)

lemma ref_count_upd [simp]:
  "ref_count (s\<lparr>NEXT_FREE_PHYS := n\<rparr>) = ref_count s"
  "ref_count (s\<lparr>PHYS_BUMP_ALLOC := b\<rparr>) = ref_count s"
  "ref_count (s\<lparr>rc_array := f\<rparr>) = ref_count s"
  "ref_count (s\<lparr>pmem := m\<rparr>) = ref_count s"
  "ref_count (set_pmem a x s) = ref_count s"
  by (rule ref_count_cong; simp)+

text \<open>The counter after a successful increment.\<close>

definition inc_rc :: "kmem \<Rightarrow> u64 \<Rightarrow> u64 \<Rightarrow> u64" where
  "inc_rc s p =
     (case ref_count s p of
        Some (Some rc) \<Rightarrow> (if REF_COUNT_ENABLED s then (rc_array s)(rc := rc_array s rc + 1)
                           else rc_array s)
      | _ \<Rightarrow> rc_array s)"

lemma inc_rc_upd [simp]:
  "inc_rc (s\<lparr>NEXT_FREE_PHYS := n\<rparr>) p = inc_rc s p"
  "inc_rc (s\<lparr>PHYS_BUMP_ALLOC := b\<rparr>) p = inc_rc s p"
  by (simp_all add: inc_rc_def split: option.split)

lemma phys_new_eq:
  assumes "ref_count s p \<noteq> None"
  shows "phys_new p s = Some (p, s\<lparr>rc_array := inc_rc s p\<rparr>)"
  using assms by (auto simp: phys_new_def inc_ref_def inc_rc_def split: option.splits)

section \<open>Taking a page from the free list\<close>

lemma window_io_base:
  assumes "window s p"
  shows "vread s (temp_page s) = Some (pmem s p)"
    and "vread s (temp_page s + 8) = Some (pmem s (p + 8))"
    and "vwrite (temp_page s) x s = Some (set_pmem p x s)"
    and "vwrite (temp_page s + 8) x s = Some (set_pmem (p + 8) x s)"
  using window_io(1) [OF assms, of 0] window_io(1) [OF assms, of 1]
    window_io(2) [OF assms, of 0 x] window_io(2) [OF assms, of 1 x]
  by (simp_all add: word_of_def)

lemma window_set_base:
  assumes "window s p"
  shows "window (set_pmem p x s) p" and "window (set_pmem (p + 8) x s) p"
  using window_set_word [OF assms, of 0 x] window_set_word [OF assms, of 1 x]
  by (simp_all add: word_of_def)

lemma temp_slot_outside:
  assumes "temp_ok s" "frame p = p" "\<not> is_table s p"
  shows "\<not> in_page p (slot s (temp_page s) 3)"
  using assms is_table_tbl [of "temp_page s" 3 s] frame_slot_tbl [of s "temp_page s" 3]
    in_page_frame [OF assms(2), of "slot s (temp_page s) 3"]
  by (auto simp: temp_ok_def)

lemma alloc_freelist_None:
  "NEXT_FREE_PHYS s = None \<Longrightarrow> alloc_freelist s = Some (None, s)"
  by (simp add: alloc_freelist_def)

lemma alloc_freelist_Some:
  assumes wf: "pt_wf s" "temp_ok s" and p: "frame p = p" "\<not> is_table s p" "ref_count s p \<noteq> None"
    and nf: "NEXT_FREE_PHYS s = Some p"
  shows "alloc_freelist s = Some (Some p, s\<lparr>NEXT_FREE_PHYS := link_at (pmem s) p,
      rc_array := inc_rc s p, pmem := clear_page p (pmem s)\<rparr>)"
proof -
  let ?t = "temp_page s" and ?l = "link_at (pmem s) p"
  define s1 where "s1 = s\<lparr>NEXT_FREE_PHYS := None, rc_array := inc_rc s p\<rparr>"
  define s1' where "s1' = s1\<lparr>NEXT_FREE_PHYS := ?l\<rparr>"
  define s2 where "s2 = set_pmem (slot s ?t 3) (p OR 3) s1"
  define s3 where "s3 = set_pmem p 0 s2"
  define s4 where "s4 = s3\<lparr>NEXT_FREE_PHYS := ?l\<rparr>"
  define s5 where "s5 = s4\<lparr>pmem := clear_page p (pmem s3)\<rparr>"
  have new: "phys_new p (s\<lparr>NEXT_FREE_PHYS := None\<rparr>) = Some (p, s1)"
    using phys_new_eq [of "s\<lparr>NEXT_FREE_PHYS := None\<rparr>" p] p(3)
    by (simp add: s1_def)
  have ag1: "tables_agree s s1" and ag1': "tables_agree s s1'"
    by (simp_all add: agree_same_pmem s1_def s1'_def)
  have ok1: "pt_wf s1" "temp_ok s1" "\<not> is_table s1 p"
    using wf p pt_wf_agree [OF ag1] temp_ok_agree [OF ag1] is_table_agree [OF ag1]
    by (simp_all add: s1_def)
  have ok1': "pt_wf s1'" "temp_ok s1'" "\<not> is_table s1' p"
    using wf p pt_wf_agree [OF ag1'] temp_ok_agree [OF ag1'] is_table_agree [OF ag1']
    by (simp_all add: s1_def s1'_def)
  have sl: "slot s1 ?t 3 = slot s ?t 3" "slot s1' ?t 3 = slot s ?t 3"
    by (rule slot_same_pmem; simp add: s1_def s1'_def)+
  have tp: "temp_page s1 = ?t" "temp_page s1' = ?t" "temp_page s2 = ?t" "temp_page s3 = ?t"
    "temp_page s4 = ?t" by (simp_all add: s1_def s1'_def s2_def s3_def s4_def)
  have map: "temp_map p s1 = Some s2" "window s2 p"
    using temp_map_window [OF ok1(1,2) p(1) ok1(3)] sl by (simp_all add: s2_def tp)
  have "\<not> in_page p (slot s ?t 3)" using temp_slot_outside [OF wf(2) p(1,2)] .
  then have "pmem s2 p = pmem s p" "pmem s2 (p + 8) = pmem s (p + 8)"
    using in_page_base [of p] by (auto simp: s2_def s1_def)
  then have take: "take_link ?t s2 = Some (?l, s3)"
    using window_io_base [OF map(2)]
    by (simp add: take_link_def read_link_def write_link_def link_at_def s3_def tp)
  have w3: "window s3 p" using window_set_base [OF map(2)] by (simp add: s3_def)
  have w4: "window s4 p" by (rule window_agree [OF _ _ _ w3]) (simp_all add: s4_def)
  have zr: "zero ?t (unat PAGE_SIZE) s4 = Some s5" "window s5 p"
    using zero_window [OF w4] by (auto simp: tp s5_def s4_def)
  have "s5 = (set_pmem (slot s1' (temp_page s1') 3) (p OR 3) s1')\<lparr>pmem := clear_page p (pmem s3)\<rparr>"
    by (simp add: s5_def s4_def s3_def s2_def s1'_def set_pmem_def sl [unfolded s1'_def] s1_def)
  moreover have "clear_page p (pmem s3) a =
      pmem (set_pmem (slot s1' (temp_page s1') 3) (p OR 3) s1') a" if "\<not> in_page p a" for a
    using that in_page_base [of p]
    by (auto simp: clear_page_def s3_def s2_def tp sl s1'_def s1_def)
  ultimately have "temp_reset s5 =
      Some (s1'\<lparr>pmem := (\<lambda>a. if in_page p a then clear_page p (pmem s3) a else pmem s1' a)\<rparr>)"
    using close_window [OF ok1'(1,2) p(1) ok1'(3) _ zr(2)] by blast
  also have "(\<lambda>a. if in_page p a then clear_page p (pmem s3) a else pmem s1' a) =
      clear_page p (pmem s)"
    by (auto simp: clear_page_def s1'_def s1_def)
  finally have rs: "temp_reset s5 = Some (s1'\<lparr>pmem := clear_page p (pmem s)\<rparr>)" .
  show ?thesis
    using nf new map(1) take zr(1) rs
    by (simp add: alloc_freelist_def tp s4_def [symmetric]) (simp add: s1'_def s1_def)
qed


section \<open>Taking a page from the bump allocator\<close>

lemma region_pages_exhausted: "alloc \<ge> region_end r \<Longrightarrow> region_pages (r, alloc) = []"
  by (simp add: region_pages_def word_le_nat_alt)

lemma frame_bound: "frame a = a \<Longrightarrow> unat a < 2 ^ 52"
proof -
  assume "frame a = a"
  then have "a \<le> 0x000ffffffffff000" unfolding frame_def by (metis word_and_le1)
  then have "unat a \<le> unat (0x000ffffffffff000 :: u64)" by (simp only: word_le_nat_alt)
  also have "\<dots> < 2 ^ 52" by simp
  finally show ?thesis .
qed

lemma region_pages_step:
  assumes "alloc < region_end r" "frame alloc = alloc"
  shows "region_pages (r, alloc) = alloc # region_pages (r, alloc + PAGE_SIZE)"
proof -
  let ?e = "unat (region_end r)" and ?a = "unat alloc"
  have lt: "?a < ?e" using assms(1) by (simp add: word_less_nat_alt)
  have next_a: "unat (alloc + PAGE_SIZE) = ?a + 4096"
    using frame_bound [OF assms(2)] by (simp add: PAGE_SIZE_def unat_word_ariths)
  have len: "(?e - ?a + 4095) div 4096 = Suc ((?e - (?a + 4096) + 4095) div 4096)"
    using lt by (cases "?e \<ge> ?a + 4096") auto
  have "(\<lambda>k. alloc + 4096 * of_nat k) \<circ> Suc = (\<lambda>k. (alloc + PAGE_SIZE) + 4096 * of_nat k)"
    by (auto simp: PAGE_SIZE_def algebra_simps)
  then show ?thesis
    unfolding region_pages_def fst_conv snd_conv len next_a upt_conv_Cons [OF zero_less_Suc]
    by (simp add: map_Suc_upt [symmetric] o_def del: upt_Suc)
qed

lemma bump_find_None: "bump_find rs as = None \<Longrightarrow> bump_pages rs as = []"
  by (induction rs as rule: bump_find.induct)
    (auto simp: bump_pages_def region_pages_exhausted split: if_splits)

lemma bump_find_Some:
  "bump_find rs as = Some (raw, bs) \<Longrightarrow> frame raw = raw \<Longrightarrow>
   bump_pages rs as = raw # bump_pages rs bs"
proof (induction rs as arbitrary: bs rule: bump_find.induct)
  case (1 r rs a as)
  then show ?case
    by (auto simp: bump_pages_def region_pages_exhausted region_pages_step not_le split: if_splits)
qed auto

lemma bump_find_in:
  "bump_find rs as = Some (raw, bs) \<Longrightarrow> raw \<in> set (bump_pages rs as)"
proof (induction rs as arbitrary: bs rule: bump_find.induct)
  case (1 r rs a as)
  have "a \<in> set (region_pages (r, a))" if "a < region_end r"
    using that by (auto simp: region_pages_def word_less_nat_alt intro!: image_eqI [of _ _ 0])
  with 1 show ?case by (auto simp: bump_pages_def not_le split: if_splits)
qed auto

lemma alloc_new_Some:
  assumes wf: "pt_wf s" "temp_ok s" and p: "frame p = p" "\<not> is_table s p" "ref_count s p \<noteq> None"
    and bump: "bump_find regions allocs = Some (p, allocs')"
  shows "alloc_new regions allocs s = Some (Inr p, s\<lparr>PHYS_BUMP_ALLOC := Some allocs',
      rc_array := inc_rc s p, pmem := clear_page p (pmem s)\<rparr>)"
proof -
  let ?t = "temp_page s"
  define s1 where "s1 = s\<lparr>PHYS_BUMP_ALLOC := Some allocs', rc_array := inc_rc s p\<rparr>"
  define s2 where "s2 = set_pmem (slot s1 ?t 3) (p OR 3) s1"
  have new: "phys_new p (s\<lparr>PHYS_BUMP_ALLOC := Some allocs'\<rparr>) = Some (p, s1)"
    using phys_new_eq [of "s\<lparr>PHYS_BUMP_ALLOC := Some allocs'\<rparr>" p] p(3) by (simp add: s1_def)
  have ag1: "tables_agree s s1" by (simp add: agree_same_pmem s1_def)
  have ok1: "pt_wf s1" "temp_ok s1" "\<not> is_table s1 p" and tp: "temp_page s1 = ?t"
    using wf p pt_wf_agree [OF ag1] temp_ok_agree [OF ag1] is_table_agree [OF ag1]
    by (simp_all add: s1_def)
  have map: "temp_map p s1 = Some s2" "window s2 p"
    using temp_map_window [OF ok1(1,2) p(1) ok1(3)] by (simp_all add: s2_def tp)
  have tp2: "temp_page s2 = ?t" by (simp add: s2_def tp)
  have zr: "zero ?t (unat PAGE_SIZE) s2 = Some (s2\<lparr>pmem := clear_page p (pmem s2)\<rparr>)"
      "window (s2\<lparr>pmem := clear_page p (pmem s2)\<rparr>) p"
    using zero_window [OF map(2)] by (auto simp: tp2)
  have "temp_reset (s2\<lparr>pmem := clear_page p (pmem s2)\<rparr>) =
      Some (s1\<lparr>pmem := (\<lambda>a. if in_page p a then clear_page p (pmem s2) a else pmem s1 a)\<rparr>)"
    by (rule close_window [OF ok1(1,2) p(1) ok1(3) _ zr(2)])
      (simp_all add: s2_def tp clear_page_def)
  also have "(\<lambda>a. if in_page p a then clear_page p (pmem s2) a else pmem s1 a) =
      clear_page p (pmem s)"
    by (auto simp: clear_page_def s1_def)
  finally show ?thesis
    using new map(1) zr(1) bump by (simp add: alloc_new_def tp2) (simp add: s1_def)
qed


section \<open>The allocator refines a stack of free pages\<close>

lemma pages_disjoint:
  assumes "frame p = p" "frame q = q" "p \<noteq> q" "in_page q a"
  shows "\<not> in_page p a"
  using assms in_page_frame by metis

lemma free_chain_cong:
  "(\<And>q. q \<in> set ps \<Longrightarrow> m' q = m q \<and> m' (q + 8) = m (q + 8)) \<Longrightarrow>
   free_chain m' h ps = free_chain m h ps"
proof (induction ps arbitrary: h)
  case Nil
  then show ?case by (cases h) auto
next
  case (Cons q qs)
  have "m' q = m q" "m' (q + 8) = m (q + 8)" using Cons.prems [of q] by simp_all
  then have "link_at m' q = link_at m q" by (simp add: link_at_def)
  moreover have "free_chain m' (link_at m q) qs = free_chain m (link_at m q) qs"
    by (rule Cons.IH, rule Cons.prems, simp)
  ultimately show ?case by (cases h) (simp, simp, metis)
qed

lemma free_chain_clear:
  assumes "frame p = p" "p \<notin> set qs" "\<forall>q \<in> set qs. frame q = q"
  shows "free_chain (clear_page p m) h qs = free_chain m h qs"
proof (rule free_chain_cong)
  fix q assume "q \<in> set qs"
  then have "frame q = q" "p \<noteq> q" using assms by auto
  then have "\<not> in_page p q" "\<not> in_page p (q + 8)"
    using pages_disjoint [OF assms(1)] in_page_base by blast+
  then show "clear_page p m q = m q \<and> clear_page p m (q + 8) = m (q + 8)"
    by (simp add: clear_page_def)
qed

lemma agree_clear:
  assumes "\<not> is_table s p" "frame p = p" "pmem s' = clear_page p (pmem s)" "cr3 s' = cr3 s"
  shows "tables_agree s s'"
  unfolding tables_agree_def
proof (intro conjI allI impI)
  fix a assume "is_table s (frame a)"
  then have "\<not> in_page p a" using assms(1) in_page_frame [OF assms(2)] by metis
  then show "pmem s' a = pmem s a" using assms(3) by (simp add: clear_page_def)
qed (rule assms(4))

lemma page_ok_agree:
  "tables_agree s s' \<Longrightarrow> ref_count s' = ref_count s \<Longrightarrow> page_ok s' p = page_ok s p"
  by (simp add: page_ok_def is_table_agree)

text \<open>
  Everything a caller of \<open>alloc\<close> may rely on besides the free list: which parts of the
  state stay as they are.
\<close>

definition alloc_frame :: "kmem \<Rightarrow> u64 \<Rightarrow> kmem \<Rightarrow> bool" where
  "alloc_frame s p s' \<longleftrightarrow> pmem s' = clear_page p (pmem s) \<and> cr3 s' = cr3 s \<and>
     temp_page s' = temp_page s \<and> ref_count s' = ref_count s \<and>
     REF_COUNT_ENABLED s' = REF_COUNT_ENABLED s \<and> PHYS_REGIONS s' = PHYS_REGIONS s \<and>
     rc_array s' = inc_rc s p"

lemma alloc_empty:
  assumes "phys_inv s []"
  shows "phys_alloc s = Some (Inl MemoryExhausted, s)"
proof -
  from assms obtain regions allocs where
    h: "PHYS_REGIONS s = Some regions" "PHYS_BUMP_ALLOC s = Some allocs"
      "free_chain (pmem s) (NEXT_FREE_PHYS s) []" "bump_pages regions allocs = []"
    by (auto simp: phys_inv_def)
  have "NEXT_FREE_PHYS s = None" using h(3) by (cases "NEXT_FREE_PHYS s") auto
  moreover have "bump_find regions allocs = None"
    using h(4) bump_find_in by (cases "bump_find regions allocs") (auto, fastforce)
  ultimately show ?thesis
    using h by (simp add: phys_alloc_def alloc_freelist_None alloc_new_def)
qed

lemma phys_inv_clear:
  assumes ok: "pt_wf s" "temp_ok s" "distinct (p # qs)" "\<forall>q \<in> set (p # qs). page_ok s q"
    and fr: "alloc_frame s p s'"
    and st: "PHYS_BUMP_ALLOC s' = Some allocs'" "PHYS_REGIONS s = Some regions"
    and ch: "free_chain (pmem s) (NEXT_FREE_PHYS s') cs" "qs = cs @ bump_pages regions allocs'"
  shows "phys_inv s' qs" and "tables_agree s s'"
proof -
  have p: "frame p = p" "\<not> is_table s p" using ok(4) by (auto simp: page_ok_def)
  show ag: "tables_agree s s'"
    using agree_clear [OF p(2,1)] fr by (auto simp: alloc_frame_def)
  have "free_chain (pmem s') (NEXT_FREE_PHYS s') cs"
    using free_chain_clear [OF p(1), of cs "pmem s"] ch ok(3,4) fr
    by (auto simp: alloc_frame_def page_ok_def)
  then show "phys_inv s' qs"
    using ok fr st ch(2) pt_wf_agree [OF ag] temp_ok_agree [OF ag] page_ok_agree [OF ag]
    by (auto simp: phys_inv_def alloc_frame_def)
qed

lemma alloc_page:
  assumes inv: "phys_inv s (p # qs)"
  shows "\<exists>s'. phys_alloc s = Some (Inr p, s') \<and> phys_inv s' qs \<and> alloc_frame s p s' \<and>
     tables_agree s s'"
proof -
  from inv obtain cs regions allocs where
    h: "pt_wf s" "temp_ok s" "distinct (p # qs)" "\<forall>q \<in> set (p # qs). page_ok s q"
      "PHYS_REGIONS s = Some regions" "PHYS_BUMP_ALLOC s = Some allocs"
      "free_chain (pmem s) (NEXT_FREE_PHYS s) cs" "p # qs = cs @ bump_pages regions allocs"
    unfolding phys_inv_def by metis
  have p: "frame p = p" "\<not> is_table s p" "ref_count s p \<noteq> None"
    using h(4) by (auto simp: page_ok_def)
  show ?thesis
  proof (cases cs)
    case Nil
    then have nf: "NEXT_FREE_PHYS s = None" using h(7) by (cases "NEXT_FREE_PHYS s") auto
    obtain raw allocs' where bf: "bump_find regions allocs = Some (raw, allocs')"
      using h(8) Nil bump_find_None by (cases "bump_find regions allocs") auto
    have "raw \<in> set (p # qs)" using bump_find_in [OF bf] h(8) Nil by simp
    then have raw: "frame raw = raw" using h(4) by (auto simp: page_ok_def)
    then have eq: "raw = p" "qs = bump_pages regions allocs'"
      using bump_find_Some [OF bf raw] h(8) Nil by auto
    let ?s = "s\<lparr>PHYS_BUMP_ALLOC := Some allocs', rc_array := inc_rc s p,
        pmem := clear_page p (pmem s)\<rparr>"
    have "phys_alloc s = Some (Inr p, ?s)"
      using alloc_new_Some [OF h(1,2) p bf [unfolded eq(1)]] nf h(5,6)
      by (simp add: phys_alloc_def alloc_freelist_None)
    moreover have fr: "alloc_frame s p ?s" by (simp add: alloc_frame_def)
    ultimately show ?thesis
      using phys_inv_clear [OF h(1-4) fr _ h(5), of allocs' "[]"] nf eq by simp
  next
    case (Cons q cs')
    then have q: "q = p" "qs = cs' @ bump_pages regions allocs" using h(8) by auto
    have nf: "NEXT_FREE_PHYS s = Some p" "free_chain (pmem s) (link_at (pmem s) p) cs'"
      using h(7) Cons q by (cases "NEXT_FREE_PHYS s"; auto)+
    let ?s = "s\<lparr>NEXT_FREE_PHYS := link_at (pmem s) p, rc_array := inc_rc s p,
        pmem := clear_page p (pmem s)\<rparr>"
    have "phys_alloc s = Some (Inr p, ?s)"
      using alloc_freelist_Some [OF h(1,2) p nf(1)] by (simp add: phys_alloc_def)
    moreover have fr: "alloc_frame s p ?s" by (simp add: alloc_frame_def)
    ultimately show ?thesis
      using phys_inv_clear [OF h(1-4) fr _ h(5), of allocs cs'] h(6) nf(2) q(2) by simp
  qed
qed


section \<open>Releasing a page\<close>

definition put_link :: "u64 \<Rightarrow> u64 option \<Rightarrow> (u64 \<Rightarrow> u64) \<Rightarrow> u64 \<Rightarrow> u64" where
  "put_link p l m = (case l of None \<Rightarrow> m(p := 0) | Some x \<Rightarrow> m(p := 1, p + 8 := x))"

lemma put_link_outside: "\<not> in_page p a \<Longrightarrow> put_link p l m a = m a"
  using in_page_base [of p] by (auto simp: put_link_def split: option.split)

lemma link_at_put_link: "link_at (put_link p l m) p = l"
  by (auto simp: link_at_def put_link_def split: option.split)

lemma write_link_window:
  assumes w: "window s p"
  shows "write_link (temp_page s) l s = Some (s\<lparr>pmem := put_link p l (pmem s)\<rparr>)"
    and "window (s\<lparr>pmem := put_link p l (pmem s)\<rparr>) p"
  using window_io_base(3) [OF w] window_io_base(4) [OF window_set_base(1) [OF w]]
    window_set_base(1) [OF w] window_set_base(2) [OF window_set_base(1) [OF w]]
  by (auto simp: write_link_def put_link_def set_pmem_def split: option.splits)

lemma dec_ref_last:
  assumes "REF_COUNT_ENABLED s" "ref_count s p = Some (Some rc)" "rc_array s rc = 1"
  shows "dec_ref p s = Some (ShouldFree, s\<lparr>rc_array := (rc_array s)(rc := 0)\<rparr>)"
  using assms by (simp add: dec_ref_def)

lemma phys_drop_last:
  assumes wf: "pt_wf s" "temp_ok s" and p: "frame p = p" "\<not> is_table s p"
    and rc: "REF_COUNT_ENABLED s" "ref_count s p = Some (Some rc)" "rc_array s rc = 1"
  shows "phys_drop p s = Some (s\<lparr>rc_array := (rc_array s)(rc := 0),
     NEXT_FREE_PHYS := Some p, pmem := put_link p (NEXT_FREE_PHYS s) (pmem s)\<rparr>)"
proof -
  let ?t = "temp_page s" and ?l = "NEXT_FREE_PHYS s"
  define s1 where "s1 = s\<lparr>rc_array := (rc_array s)(rc := 0), NEXT_FREE_PHYS := None\<rparr>"
  define s2 where "s2 = set_pmem (slot s1 ?t 3) (p OR 3) s1"
  have ag1: "tables_agree s s1" by (simp add: agree_same_pmem s1_def)
  have ok1: "pt_wf s1" "temp_ok s1" "\<not> is_table s1 p" and tp: "temp_page s1 = ?t"
    using wf p pt_wf_agree [OF ag1] temp_ok_agree [OF ag1] is_table_agree [OF ag1]
    by (simp_all add: s1_def)
  have map: "temp_map p s1 = Some s2" "window s2 p"
    using temp_map_window [OF ok1(1,2) p(1) ok1(3)] by (simp_all add: s2_def tp)
  have tp2: "temp_page s2 = ?t" by (simp add: s2_def tp)
  note wl = write_link_window [OF map(2), of ?l]
  have "temp_reset (s2\<lparr>pmem := put_link p ?l (pmem s2)\<rparr>) =
      Some (s1\<lparr>pmem := (\<lambda>a. if in_page p a then put_link p ?l (pmem s2) a else pmem s1 a)\<rparr>)"
    by (rule close_window [OF ok1(1,2) p(1) ok1(3) _ wl(2)])
      (simp_all add: s2_def tp put_link_outside)
  also have "(\<lambda>a. if in_page p a then put_link p ?l (pmem s2) a else pmem s1 a) =
      put_link p ?l (pmem s)"
  proof
    fix a
    have "\<not> in_page p (slot s1 ?t 3)"
      using temp_slot_outside [OF ok1(2) p(1) ok1(3)] by (simp add: tp)
    then have "in_page p a \<Longrightarrow> put_link p ?l (pmem s2) a = put_link p ?l (pmem s) a"
      by (auto simp: put_link_def s2_def s1_def split: option.split)
    then show "(if in_page p a then put_link p ?l (pmem s2) a else pmem s1 a) =
        put_link p ?l (pmem s) a"
      using put_link_outside by (simp add: s1_def)
  qed
  finally have rs: "temp_reset (s2\<lparr>pmem := put_link p ?l (pmem s2)\<rparr>) =
      Some (s1\<lparr>pmem := put_link p ?l (pmem s)\<rparr>)" .
  have "(s\<lparr>rc_array := (rc_array s)(rc := 0)\<rparr>)\<lparr>NEXT_FREE_PHYS := None\<rparr> = s1"
    by (simp add: s1_def)
  then show ?thesis
    using dec_ref_last [OF rc] map(1) wl(1) rs
    by (simp add: phys_drop_def tp2) (simp add: s1_def)
qed

lemma phys_drop_shared:
  assumes "REF_COUNT_ENABLED s" "ref_count s p = Some (Some rc)" "rc_array s rc \<noteq> 0"
    "rc_array s rc \<noteq> 1"
  shows "phys_drop p s = Some (s\<lparr>rc_array := (rc_array s)(rc := rc_array s rc - 1)\<rparr>)"
  using assms by (simp add: phys_drop_def dec_ref_def)

lemma phys_drop_untracked:
  assumes "\<not> REF_COUNT_ENABLED s \<or> ref_count s p = Some None"
  shows "phys_drop p s = Some s"
  using assms by (auto simp: phys_drop_def dec_ref_def)

lemma phys_drop_underflow:
  assumes "REF_COUNT_ENABLED s" "ref_count s p = Some (Some rc)" "rc_array s rc = 0"
  shows "phys_drop p s = None"
  using assms by (simp add: phys_drop_def dec_ref_def)

lemma release_page:
  assumes inv: "phys_inv s ps" and p: "page_ok s p" "p \<notin> set ps"
    and rc: "REF_COUNT_ENABLED s" "ref_count s p = Some (Some rc)" "rc_array s rc = 1"
  shows "\<exists>s'. phys_drop p s = Some s' \<and> phys_inv s' (p # ps) \<and> tables_agree s s' \<and>
     rc_array s' = (rc_array s)(rc := 0)"
proof -
  from inv obtain cs regions allocs where
    h: "pt_wf s" "temp_ok s" "distinct ps" "\<forall>q \<in> set ps. page_ok s q"
      "PHYS_REGIONS s = Some regions" "PHYS_BUMP_ALLOC s = Some allocs"
      "free_chain (pmem s) (NEXT_FREE_PHYS s) cs" "ps = cs @ bump_pages regions allocs"
    unfolding phys_inv_def by metis
  let ?m = "put_link p (NEXT_FREE_PHYS s) (pmem s)"
  let ?s = "s\<lparr>rc_array := (rc_array s)(rc := 0), NEXT_FREE_PHYS := Some p, pmem := ?m\<rparr>"
  have pf: "frame p = p" "\<not> is_table s p" using p(1) by (auto simp: page_ok_def)
  have "pmem ?s a = pmem s a" if "is_table s (frame a)" for a
  proof -
    have "\<not> in_page p a" using that pf(2) in_page_frame [OF pf(1)] by metis
    then show ?thesis by (simp add: put_link_outside)
  qed
  then have ag: "tables_agree s ?s" by (simp add: tables_agree_def)
  have "?m q = pmem s q \<and> ?m (q + 8) = pmem s (q + 8)" if "q \<in> set cs" for q
  proof -
    have "frame q = q" "p \<noteq> q" using that h(4,8) p(2) by (auto simp: page_ok_def)
    then have "\<not> in_page p q" "\<not> in_page p (q + 8)"
      using pages_disjoint [OF pf(1)] in_page_base by blast+
    then show ?thesis by (simp add: put_link_outside)
  qed
  then have "free_chain ?m (NEXT_FREE_PHYS s) cs"
    using free_chain_cong [of cs ?m "pmem s"] h(7) by simp
  then have "free_chain ?m (Some p) (p # cs)" by (simp add: link_at_put_link)
  moreover have "\<forall>q \<in> set (p # ps). page_ok ?s q"
    using h(4) p(1) page_ok_agree [OF ag] by simp
  ultimately have "phys_inv ?s (p # ps)"
    unfolding phys_inv_def
    using h p(2) pt_wf_agree [OF ag] temp_ok_agree [OF ag]
    by (intro conjI exI [of _ "p # cs"] exI [of _ regions] exI [of _ allocs]) auto
  then show ?thesis using phys_drop_last [OF h(1,2) pf rc] ag by simp
qed


section \<open>The interface to the clients\<close>

text \<open>
  A client that takes several pages, one after the other, and stops at the first failure
  (as \<open>map\<close>, \<open>init_kernel_pml4_entries\<close> and \<open>phys_init\<close> do).
\<close>

fun alloc_times :: "('s \<Rightarrow> ((memory_exhausted + u64) \<times> 's) option) \<Rightarrow> nat \<Rightarrow> 's
    \<Rightarrow> ((memory_exhausted + u64 list) \<times> 's) option" where
  "alloc_times alloc 0 s = Some (Inr [], s)"
| "alloc_times alloc (Suc n) s =
     (case alloc s of
        None \<Rightarrow> None
      | Some (Inl e, s') \<Rightarrow> Some (Inl e, s')
      | Some (Inr p, s') \<Rightarrow>
          (case alloc_times alloc n s' of
             None \<Rightarrow> None
           | Some (Inl e, s'') \<Rightarrow> Some (Inl e, s'')
           | Some (Inr ps, s'') \<Rightarrow> Some (Inr (p # ps), s'')))"

locale frame_source =
  fixes alloc :: "'s \<Rightarrow> ((memory_exhausted + u64) \<times> 's) option"
    and inv :: "'s \<Rightarrow> u64 list \<Rightarrow> bool"
  assumes alloc_first: "inv s (p # ps) \<Longrightarrow> \<exists>s'. alloc s = Some (Inr p, s') \<and> inv s' ps"
    and alloc_none: "inv s [] \<Longrightarrow> alloc s = Some (Inl MemoryExhausted, s)"
    and inv_distinct: "inv s ps \<Longrightarrow> distinct ps"
begin

lemma alloc_times_enough:
  "inv s ps \<Longrightarrow> n \<le> length ps \<Longrightarrow>
   \<exists>s'. alloc_times alloc n s = Some (Inr (take n ps), s') \<and> inv s' (drop n ps)"
proof (induction n arbitrary: s ps)
  case 0
  then show ?case by simp
next
  case (Suc n)
  then obtain p qs where ps: "ps = p # qs" by (cases ps) auto
  obtain s1 where "alloc s = Some (Inr p, s1)" "inv s1 qs"
    using alloc_first Suc.prems(1) ps by blast
  with Suc.IH [of s1 qs] Suc.prems(2) ps show ?case by auto
qed

lemma alloc_times_short:
  "inv s ps \<Longrightarrow> length ps < n \<Longrightarrow>
   \<exists>s'. alloc_times alloc n s = Some (Inl MemoryExhausted, s') \<and> inv s' []"
proof (induction n arbitrary: s ps)
  case 0
  then show ?case by simp
next
  case (Suc n)
  show ?case
  proof (cases ps)
    case Nil
    with Suc.prems(1) alloc_none show ?thesis by simp
  next
    case (Cons p qs)
    obtain s1 where "alloc s = Some (Inr p, s1)" "inv s1 qs"
      using alloc_first Suc.prems(1) Cons by blast
    with Suc.IH [of s1 qs] Suc.prems(2) Cons show ?thesis by auto
  qed
qed

lemma alloc_times_distinct:
  assumes "inv s ps" "alloc_times alloc n s = Some (Inr rs, s')"
  shows "distinct rs \<and> set rs \<subseteq> set ps \<and> set rs \<inter> set (drop n ps) = {}"
proof (cases "n \<le> length ps")
  case True
  with alloc_times_enough [OF assms(1) True] assms(2) have "rs = take n ps" by auto
  then show ?thesis
    using inv_distinct [OF assms(1)] set_take_disj_set_drop_if_distinct [of ps n n]
    by (auto simp: set_take_subset in_set_takeD)
next
  case False
  then have "length ps < n" by simp
  with alloc_times_short [OF assms(1), of n] assms(2) show ?thesis by auto
qed

end

text \<open>
  A pool also takes pages back.  \<open>idle\<close> is a free page whose counter agrees, \<open>sole\<close> a
  page with exactly one reference.
\<close>

locale frame_pool = frame_source alloc inv
  for alloc :: "'s \<Rightarrow> ((memory_exhausted + u64) \<times> 's) option" and inv +
  fixes release :: "u64 \<Rightarrow> 's \<Rightarrow> 's option"
    and idle :: "'s \<Rightarrow> u64 \<Rightarrow> bool"
    and sole :: "'s \<Rightarrow> u64 \<Rightarrow> bool"
  assumes alloc_sole: "inv s (p # ps) \<Longrightarrow> idle s p \<Longrightarrow> alloc s = Some (Inr p, s') \<Longrightarrow> sole s' p"
    and release_sole: "inv s ps \<Longrightarrow> sole s p \<Longrightarrow> p \<notin> set ps \<Longrightarrow>
      \<exists>s'. release p s = Some s' \<and> inv s' (p # ps) \<and> idle s' p"
begin

lemma alloc_release_alloc:
  assumes inv: "inv s (p # ps)" and idle: "idle s p"
  shows "\<exists>s1 s2 s3. alloc s = Some (Inr p, s1) \<and> release p s1 = Some s2 \<and> inv s2 (p # ps) \<and>
     alloc s2 = Some (Inr p, s3) \<and> inv s3 ps \<and> sole s3 p"
proof -
  obtain s1 where s1: "alloc s = Some (Inr p, s1)" "inv s1 ps" using alloc_first [OF inv] by blast
  obtain s2 where s2: "release p s1 = Some s2" "inv s2 (p # ps)" "idle s2 p"
    using release_sole [OF s1(2) alloc_sole [OF inv idle s1(1)]] inv_distinct [OF inv] by auto
  obtain s3 where s3: "alloc s2 = Some (Inr p, s3)" "inv s3 ps" using alloc_first [OF s2(2)] by blast
  show ?thesis using s1 s2 s3 alloc_sole [OF s2(2,3) s3(1)] by blast
qed

end

definition idle_page :: "kmem \<Rightarrow> u64 \<Rightarrow> bool" where
  "idle_page s p \<longleftrightarrow> page_ok s p \<and> REF_COUNT_ENABLED s \<and>
     (\<exists>rc. ref_count s p = Some (Some rc) \<and> rc_array s rc = 0)"

definition sole_page :: "kmem \<Rightarrow> u64 \<Rightarrow> bool" where
  "sole_page s p \<longleftrightarrow> page_ok s p \<and> REF_COUNT_ENABLED s \<and>
     (\<exists>rc. ref_count s p = Some (Some rc) \<and> rc_array s rc = 1)"

lemma temp_frame:
  "temp_map p s = Some s' \<Longrightarrow> \<exists>m. s' = s\<lparr>pmem := m\<rparr>"
  "temp_reset s = Some s' \<Longrightarrow> \<exists>m. s' = s\<lparr>pmem := m\<rparr>"
  "write_link q l s = Some s' \<Longrightarrow> \<exists>m. s' = s\<lparr>pmem := m\<rparr>"
  by (auto simp: temp_map_def temp_reset_def write_link_def vwrite_def set_pmem_def option_monad
      Let_def split: if_splits option.splits)

lemma release_frame:
  assumes "phys_drop p s = Some s'"
  shows "ref_count s' = ref_count s \<and> REF_COUNT_ENABLED s' = REF_COUNT_ENABLED s \<and>
     temp_page s' = temp_page s"
proof -
  from assms obtain st s1 where d: "dec_ref p s = Some (st, s1)" by (auto simp: phys_drop_def option_monad)
  have 1: "\<exists>f. s1 = s\<lparr>rc_array := f\<rparr>"
  proof (cases "REF_COUNT_ENABLED s \<and> ref_count s p \<noteq> Some None")
    case True
    with d obtain rc where "ref_count s p = Some (Some rc)" by (auto simp: dec_ref_def option_monad)
    then have "s1 = s\<lparr>rc_array := (rc_array s)(rc := rc_array s rc - 1)\<rparr>"
      using d True by (auto simp: dec_ref_def Let_def split: if_splits)
    then show ?thesis by blast
  next
    case False
    then have "s1 = s\<lparr>rc_array := rc_array s\<rparr>" using d by (auto simp: dec_ref_def split: if_splits)
    then show ?thesis by blast
  qed
  have "\<exists>m n. s' = s1\<lparr>pmem := m, NEXT_FREE_PHYS := n\<rparr>"
  proof (cases st)
    case InUse
    then have "s' = s1\<lparr>pmem := pmem s1, NEXT_FREE_PHYS := NEXT_FREE_PHYS s1\<rparr>"
      using assms d by (simp add: phys_drop_def)
    then show ?thesis by blast
  next
    case ShouldFree
    with assms d obtain t u v where "temp_map p (s1\<lparr>NEXT_FREE_PHYS := None\<rparr>) = Some t"
      "write_link (temp_page t) (NEXT_FREE_PHYS s1) t = Some u" "temp_reset u = Some v"
      "s' = v\<lparr>NEXT_FREE_PHYS := Some p\<rparr>"
      by (auto simp: phys_drop_def option_monad)
    then show ?thesis by (auto dest!: temp_frame) blast
  qed
  with 1 show ?thesis by auto
qed

interpretation pa: frame_pool phys_alloc phys_inv phys_drop idle_page sole_page
proof unfold_locales
  show "\<exists>s'. phys_alloc s = Some (Inr p, s') \<and> phys_inv s' ps" if "phys_inv s (p # ps)" for s p ps
    using alloc_page [OF that] by blast
  show "phys_alloc s = Some (Inl MemoryExhausted, s)" if "phys_inv s []" for s
    by (rule alloc_empty [OF that])
  show "distinct ps" if "phys_inv s ps" for s ps
    using that by (simp add: phys_inv_def)
  show "sole_page s' p"
    if "phys_inv s (p # ps)" "idle_page s p" "phys_alloc s = Some (Inr p, s')" for s p ps s'
    using alloc_page [OF that(1)] that(2,3) page_ok_agree [of s s' p]
    by (auto simp: idle_page_def sole_page_def alloc_frame_def inc_rc_def)
  show "\<exists>s'. phys_drop p s = Some s' \<and> phys_inv s' (p # ps) \<and> idle_page s' p"
    if inv: "phys_inv s ps" and sole: "sole_page s p" and new: "p \<notin> set ps" for s ps p
  proof -
    from sole obtain rc where rc: "page_ok s p" "REF_COUNT_ENABLED s"
      "ref_count s p = Some (Some rc)" "rc_array s rc = 1" by (auto simp: sole_page_def)
    obtain s' where s': "phys_drop p s = Some s'" "phys_inv s' (p # ps)" "tables_agree s s'"
      "rc_array s' = (rc_array s)(rc := 0)" using release_page [OF inv rc(1) new rc(2-)] by blast
    then show ?thesis
      using release_frame [OF s'(1)] rc page_ok_agree [OF s'(3)] by (auto simp: idle_page_def)
  qed
qed

end
