(* ===== verification/Page_Map.thy ===== *)
theory Page_Map
  imports Phys
begin

text \<open>
  The part of \<open>kernel/src/mem/page.rs\<close> that allocates: \<open>map\<close>, \<open>unmap\<close>, page contexts, and
  the start-up code of \<open>phys.rs\<close> that maps the reference counts.

  The contract of the component is the abstract address space \<open>leaf\<close> of \<open>Paging\<close>:
  \<open>page_map\<close> adds one page and changes no other page, \<open>page_unmap\<close> removes one, both keep
  the tables and the allocator well formed, and every error leaves the address space as
  it was.
\<close>

section \<open>Mapping and unmapping\<close>

text \<open>
  The three blocks of \<open>map\<close> that start with \<open>need to allocate new page table\<close> differ in
  the address of the entry only.
\<close>

definition ensure_table :: "u64 \<Rightarrow> kmem \<Rightarrow> ((map_error + unit) \<times> kmem) option" where
  "ensure_table ent s = do {
     e \<leftarrow> vread s ent;
     if e = 0 then do {
       (r, s) \<leftarrow> phys_alloc s;
       (case r of
          Inl MemoryExhausted \<Rightarrow> Some (Inl CannotAllocatePageTable, s)
        | Inr tab \<Rightarrow> do {
            s \<leftarrow> vwrite ent (tab OR (PRESENT OR WRITE OR USER)) s;
            Some (Inr (), s) }) }
     else Some (Inr (), s) }"

definition page_map :: "u64 \<Rightarrow> u64 \<Rightarrow> u64 \<Rightarrow> kmem \<Rightarrow> ((map_error + unit) \<times> kmem) option" where
  "page_map phys virt fl s = do {
     (r, s) \<leftarrow> fold_res ensure_table
       [pml4_entry CURRENT_PML virt, pml3_entry CURRENT_PML virt, pml2_entry CURRENT_PML virt] s;
     (case r of
        Inl e \<Rightarrow> do { s \<leftarrow> phys_drop phys s; Some (Inl e, s) }
      | Inr _ \<Rightarrow> do {
          e1 \<leftarrow> vread s (pml1_entry CURRENT_PML virt);
          if e1 \<noteq> 0 then do { s \<leftarrow> phys_drop phys s; Some (Inl AlreadyMapped, s) }
          else do {
            s \<leftarrow> vwrite (pml1_entry CURRENT_PML virt) (phys OR fl) s;
            Some (Inr (), s) } }) }"

definition page_unmap :: "u64 \<Rightarrow> kmem \<Rightarrow> ((not_mapped + unit) \<times> kmem) option" where
  "page_unmap virt s = do {
     r \<leftarrow> checked_pml1_entry CURRENT_PML virt s;
     (case r of
        Inl e \<Rightarrow> Some (Inl e, s)
      | Inr pml1_ent \<Rightarrow> do {
          e \<leftarrow> vread s pml1_ent;
          (case raw_phys e of
             Some raw \<Rightarrow> do {
               s \<leftarrow> phys_drop raw s;
               s \<leftarrow> vwrite pml1_ent 0 s;
               Some (Inr (), s) }
           | None \<Rightarrow> Some (Inl NotMapped, s)) }) }"

definition virt_to_phys :: "u64 \<Rightarrow> kmem \<Rightarrow> ((not_mapped + u64) \<times> kmem) option" where
  "virt_to_phys virt s = do {
     r \<leftarrow> checked_pml1_entry CURRENT_PML virt s;
     (case r of
        Inl e \<Rightarrow> Some (Inl e, s)
      | Inr pml1_ent \<Rightarrow> do {
          e \<leftarrow> vread s pml1_ent;
          (case raw_phys e of
             Some raw \<Rightarrow> do { (phys, s) \<leftarrow> phys_new raw s; Some (Inr phys, s) }
           | None \<Rightarrow> Some (Inl NotMapped, s)) }) }"

section \<open>Page contexts\<close>

definition page_ctx_new :: "kmem \<Rightarrow> ((memory_exhausted + u64) \<times> kmem) option" where
  "page_ctx_new s = do {
     (r, s) \<leftarrow> phys_alloc s;
     (case r of
        Inl e \<Rightarrow> Some (Inl e, s)
      | Inr pml4_raw \<Rightarrow> do {
          s \<leftarrow> temp_map pml4_raw s;
          s \<leftarrow> fold_opt (\<lambda>i s. do {
                 x \<leftarrow> vread s (0xfffffffffffff800 + 8 * of_nat i);
                 vwrite (temp_page s + 8 * of_nat (256 + i)) x s }) [0..<255] s;
          s \<leftarrow> vwrite (temp_page s + 8 * of_nat 511) (pml4_raw OR PRESENT) s;
          s \<leftarrow> temp_reset s;
          Some (Inr pml4_raw, s) }) }"

definition init_kernel_pml4_entries :: "kmem \<Rightarrow> kmem option" where
  "init_kernel_pml4_entries s = fold_opt (\<lambda>i s. do {
     let ent = 0xfffffffffffff800 + 8 * of_nat i;
     e \<leftarrow> vread s ent;
     if e = 0 then do {
       (r, s) \<leftarrow> phys_alloc s;
       (case r of
          Inl _ \<Rightarrow> None
        | Inr tab \<Rightarrow> vwrite ent (tab OR (PRESENT OR WRITE OR USER)) s) }
     else Some s }) [0..<255] s"

definition current_ctx :: "kmem \<Rightarrow> (u64 \<times> kmem) option" where
  "current_ctx s = phys_new (cr3 s) s"

definition set_ctx :: "u64 \<Rightarrow> kmem \<Rightarrow> kmem option" where
  "set_ctx pml4 s = (let old_cr3 = cr3 s in phys_drop old_cr3 (s\<lparr>cr3 := pml4\<rparr>))"

section \<open>Start-up\<close>

definition each_phys :: "(u64 \<Rightarrow> kmem \<Rightarrow> kmem option) \<Rightarrow> kmem \<Rightarrow> kmem option" where
  "each_phys f s = do {
     s \<leftarrow> f (frame (cr3 s)) s;
     fold_opt (\<lambda>pml4_idx s. do {
       e \<leftarrow> vread s (0xfffffffffffff000 + 8 * of_nat pml4_idx);
       (case raw_phys e of None \<Rightarrow> Some s | Some phys \<Rightarrow> do {
         s \<leftarrow> f phys s;
         fold_opt (\<lambda>pml3_idx s. do {
           e \<leftarrow> vread s (0xffffffffffe00000 + 8 * of_nat (pml4_idx * 512 + pml3_idx));
           (case raw_phys e of None \<Rightarrow> Some s | Some phys \<Rightarrow> do {
             s \<leftarrow> f phys s;
             fold_opt (\<lambda>pml2_idx s. do {
               e \<leftarrow> vread s (0xffffffffc0000000 +
                      8 * of_nat (pml4_idx * 512 ^ 2 + pml3_idx * 512 + pml2_idx));
               (case raw_phys e of None \<Rightarrow> Some s | Some phys \<Rightarrow> do {
                 s \<leftarrow> f phys s;
                 fold_opt (\<lambda>pml1_idx s. do {
                   e \<leftarrow> vread s (0xffffff8000000000 +
                          8 * of_nat (pml4_idx * 512 ^ 3 + pml3_idx * 512 ^ 2 +
                                      pml2_idx * 512 + pml1_idx));
                   (case raw_phys e of None \<Rightarrow> Some s | Some phys \<Rightarrow> f phys s) }) [0..<512] s })
             }) [0..<512] s }) }) [0..<512] s }) }) [0..<511] s }"

definition init_ref_counts :: "kmem \<Rightarrow> kmem option" where
  "init_ref_counts s = do {
     s \<leftarrow> each_phys inc_ref_for_init s;
     s \<leftarrow> inc_ref_for_init (cr3 s) s;
     Some (s\<lparr>REF_COUNT_ENABLED := True\<rparr>) }"

definition ensure_rc_page :: "u64 \<Rightarrow> kmem \<Rightarrow> kmem option" where
  "ensure_rc_page phys s = do {
     r \<leftarrow> ref_count s phys;
     (case r of
        None \<Rightarrow> Some s
      | Some rc \<Rightarrow> do {
          let ref_count_page = rc AND NOT (PAGE_SIZE - 1);
          m \<leftarrow> is_mapped s ref_count_page;
          if m then Some s else do {
            (r, s) \<leftarrow> phys_alloc s;
            (case r of
               Inl _ \<Rightarrow> None   \<comment> \<open>expect: phys::alloc in phys_init\<close>
             | Inr page \<Rightarrow> do {
                 (r, s) \<leftarrow> page_map page ref_count_page (PRESENT OR WRITE) s;
                 (case r of Inl _ \<Rightarrow> None | Inr _ \<Rightarrow> Some s) }) } }) }"

record bios_memory_region =
  bios_begin :: u64
  bios_size :: u64
  bios_kind :: u32
  acpi_ex_attrs :: u32

text \<open>
  The region scan of \<open>phys_init\<close>.  \<open>push\<close> and \<open>try_push\<close> are operations of the
  third-party crate \<open>arrayvec\<close> on the two vectors of capacity 8; \<open>None\<close> is the panic of
  the first and the error of the second.
\<close>

fun scan_regions :: "(phys_region list \<Rightarrow> phys_region \<Rightarrow> phys_region list option)
    \<Rightarrow> (u64 list \<Rightarrow> u64 \<Rightarrow> u64 list option) \<Rightarrow> u64 \<Rightarrow> bios_memory_region list
    \<Rightarrow> phys_region list \<Rightarrow> u64 list \<Rightarrow> (phys_region list \<times> u64 list) option" where
  "scan_regions push try_push high [] regions bumps = Some (regions, bumps)"
| "scan_regions push try_push high (b # bs) regions bumps =
     (if bios_kind b \<noteq> 1 then scan_regions push try_push high bs regions bumps
      else
        let rbegin = bios_begin b; rend = bios_begin b + bios_size b in
        if rend < high then scan_regions push try_push high bs regions bumps
        else
          let rbegin = (if rbegin < high then high else rbegin) in
          (case push regions \<lparr>region_begin = rbegin, region_end = rend\<rparr> of
             None \<Rightarrow> None
           | Some regions' \<Rightarrow>
               (case try_push bumps rbegin of
                  None \<Rightarrow> Some (regions', bumps)
                | Some bumps' \<Rightarrow> scan_regions push try_push high bs regions' bumps')))"

partial_function (option) rc_region_loop :: "u64 \<Rightarrow> u64 \<Rightarrow> kmem \<Rightarrow> kmem option" where
  "rc_region_loop phys rend s =
     (if phys < rend then do {
        s \<leftarrow> ensure_rc_page phys s;
        rc_region_loop (phys + PAGE_SIZE) rend s }
      else Some s)"

definition phys_init :: "(phys_region list \<Rightarrow> phys_region \<Rightarrow> phys_region list option)
    \<Rightarrow> (u64 list \<Rightarrow> u64 \<Rightarrow> u64 list option) \<Rightarrow> bios_memory_region list \<Rightarrow> u64
    \<Rightarrow> kmem \<Rightarrow> kmem option" where
  "phys_init push try_push bios_memory_map high s = do {
     s \<leftarrow> temp_reset s;
     (regions, bumps) \<leftarrow> scan_regions push try_push high bios_memory_map [] [];
     if PHYS_REGIONS s \<noteq> None \<or> PHYS_BUMP_ALLOC s \<noteq> None then None   \<comment> \<open>EarlyInit::set twice\<close>
     else do {
       let s = s\<lparr>PHYS_REGIONS := Some regions, PHYS_BUMP_ALLOC := Some bumps\<rparr>;
       s \<leftarrow> fold_opt (\<lambda>reg. rc_region_loop (region_begin reg) (region_end reg)) regions s;
       fold_opt (\<lambda>i. ensure_rc_page (of_nat i * PAGE_SIZE)) [0..<unat (high div PAGE_SIZE)] s } }"


section \<open>Editing tables keeps the allocator well formed\<close>

text \<open>The window address of the entry at depth \<open>d\<close>.\<close>

definition win_addr :: "nat \<Rightarrow> u64 \<Rightarrow> u64" where
  "win_addr d v = (if d = 0 then pml4_entry CURRENT_PML v else if d = 1 then pml3_entry CURRENT_PML v
     else if d = 2 then pml2_entry CURRENT_PML v else pml1_entry CURRENT_PML v)"

lemma win_addr_translate:
  assumes "pt_wf s" "ordinary v" "reach s v d" "d < 4"
  shows "translate s (win_addr d v) = Some (slot s v d)"
proof -
  have "d = 0 \<or> d = 1 \<or> d = 2 \<or> d = 3" using assms(4) by auto
  then show ?thesis using window_reach [OF assms(1,2)] assms(3) by (auto simp: win_addr_def)
qed

lemma win_addr_io:
  assumes "pt_wf s" "ordinary v" "reach s v d" "d < 4"
  shows "vread s (win_addr d v) = Some (pte s v d)"
    and "vwrite (win_addr d v) x s = Some (set_pmem (slot s v d) x s)"
  using win_addr_translate [OF assms] by (simp_all add: vread_def vwrite_def pte_def)

lemma phys_inv_set_slot:
  assumes inv: "phys_inv s ps" and live: "live_slot s v d" and s': "s' = set_pmem (slot s v d) x s"
    and wf: "pt_wf s'" "temp_ok s'" and nt: "\<forall>q \<in> set ps. \<not> is_table s' q"
  shows "phys_inv s' ps"
proof -
  from inv obtain cs regions allocs where
    h: "distinct ps" "\<forall>q \<in> set ps. page_ok s q"
      "PHYS_REGIONS s = Some regions" "PHYS_BUMP_ALLOC s = Some allocs"
      "free_chain (pmem s) (NEXT_FREE_PHYS s) cs" "ps = cs @ bump_pages regions allocs"
    unfolding phys_inv_def by metis
  have tb: "is_table s (frame (slot s v d))"
    using live is_table_tbl by (simp add: live_slot_def frame_slot_tbl)
  have "pmem s' q = pmem s q \<and> pmem s' (q + 8) = pmem s (q + 8)" if "q \<in> set cs" for q
  proof -
    have "frame q = q" "\<not> is_table s q" using that h(2,6) by (auto simp: page_ok_def)
    then have "\<not> in_page q (slot s v d)" using tb in_page_frame [of q] by metis
    then show ?thesis using in_page_base [of q] by (auto simp: s')
  qed
  then have "free_chain (pmem s') (NEXT_FREE_PHYS s') cs"
    using free_chain_cong [of cs "pmem s'" "pmem s"] h(5) by (simp add: s')
  moreover have "\<forall>q \<in> set ps. page_ok s' q"
    using h(2) nt by (simp add: page_ok_def s')
  ultimately show ?thesis
    unfolding phys_inv_def using h wf
    by (intro conjI exI [of _ cs] exI [of _ regions] exI [of _ allocs]) (simp_all add: s')
qed

lemma temp_ok_set_slot:
  assumes t: "temp_ok s" and live: "live_slot s v d" and ns: "\<not> same (Suc d) v (temp_page s)"
  shows "temp_ok (set_pmem (slot s v d) x s)"
  using t reach_set_slot [OF live, of "temp_page s" 3] pte_set_slot [OF live, of "temp_page s" 3] ns
  by (simp add: temp_ok_def)

text \<open>
  The address space is unchanged, and so are the pages outside the free list \<open>ps\<close>, their
  contents and their reference counts.
\<close>

definition spared :: "u64 list \<Rightarrow> kmem \<Rightarrow> kmem \<Rightarrow> bool" where
  "spared ps s s' \<longleftrightarrow> temp_page s' = temp_page s \<and> cr3 s' = cr3 s \<and>
     ref_count s' = ref_count s \<and> REF_COUNT_ENABLED s' = REF_COUNT_ENABLED s \<and>
     (\<forall>q rc. page_ok s q \<and> q \<notin> set ps \<and> ref_count s q = Some (Some rc) \<longrightarrow>
        page_ok s' q \<and> rc_array s' rc = rc_array s rc) \<and>
     (\<forall>q. \<not> is_table s q \<and> q \<notin> set ps \<longrightarrow>
        \<not> is_table s' q \<and> (\<forall>a. frame a = q \<longrightarrow> pmem s' a = pmem s a))"

definition space_kept :: "u64 list \<Rightarrow> kmem \<Rightarrow> kmem \<Rightarrow> bool" where
  "space_kept ps s s' \<longleftrightarrow> (\<forall>w. ordinary w \<longrightarrow> leaf s' w = leaf s w) \<and> spared ps s s'"

lemma spared_refl [simp]: "spared ps s s"
  by (simp add: spared_def)

lemma space_kept_refl [simp]: "space_kept ps s s"
  by (simp add: space_kept_def)

lemma spared_trans:
  assumes "spared ps s t" "spared qs t u"
  shows "spared (ps @ qs) s u"
  unfolding spared_def
proof (intro conjI allI impI)
  fix q rc assume h: "page_ok s q \<and> q \<notin> set (ps @ qs) \<and> ref_count s q = Some (Some rc)"
  then show "page_ok u q" "rc_array u rc = rc_array s rc"
    using assms unfolding spared_def set_append Un_iff by metis+
next
  fix q assume h: "\<not> is_table s q \<and> q \<notin> set (ps @ qs)"
  then show "\<not> is_table u q" "\<And>a. frame a = q \<Longrightarrow> pmem u a = pmem s a"
    using assms unfolding spared_def set_append Un_iff by metis+
qed (use assms in \<open>simp_all add: spared_def\<close>)

lemma spared_mono: "spared ps s s' \<Longrightarrow> set ps \<subseteq> set qs \<Longrightarrow> spared qs s s'"
  unfolding spared_def by blast

lemma space_kept_trans:
  "space_kept (take k ps) s t \<Longrightarrow> space_kept (take j (drop k ps)) t u \<Longrightarrow>
   space_kept (take (k + j) ps) s u"
  using spared_trans [of "take k ps" s t "take j (drop k ps)" u] by (simp add: space_kept_def take_add)

lemma spared_sole:
  assumes "spared ps s s'" "sole_page s q" "q \<notin> set ps"
  shows "sole_page s' q"
proof -
  from assms(2) obtain rc where "page_ok s q" "ref_count s q = Some (Some rc)" "rc_array s rc = 1"
    "REF_COUNT_ENABLED s" by (auto simp: sole_page_def)
  with assms(1,3) show ?thesis by (auto simp: spared_def sole_page_def)
qed

lemma ref_count_inj:
  assumes "ref_count s p = Some (Some rc)" "ref_count s q = Some (Some rc)" "frame p = p" "frame q = q"
  shows "p = q"
proof -
  have rc: "rc = phys_rc s + 8 * drop_bit 12 r" if "ref_count s r = Some (Some rc)" for r
    using that by (auto simp: ref_count_def option_monad Let_def split: if_splits)
  have "8 * drop_bit 12 p = 8 * drop_bit 12 q" using rc [OF assms(1)] rc [OF assms(2)] by simp
  moreover have "frame r = push_bit 9 (8 * drop_bit 12 (frame r))" for r :: u64
    unfolding frame_def masks mult_8 by (rule bit_word_eqI) (auto simp: bit_simps)
  ultimately show ?thesis using assms(3,4) by metis
qed

lemma alloc_space_kept:
  assumes fr: "alloc_frame s p s'" and ag: "tables_agree s s'" and p: "page_ok s p"
  shows "space_kept [p] s s'"
proof -
  have "rc_array s' rc = rc_array s rc"
    if "page_ok s q" "q \<noteq> p" "ref_count s q = Some (Some rc)" for q rc
  proof -
    have "ref_count s p \<noteq> Some (Some rc)"
      using ref_count_inj [OF _ that(3)] that(1,2) p by (auto simp: page_ok_def)
    then show ?thesis
      using fr by (auto simp: alloc_frame_def inc_rc_def split: option.splits)
  qed
  moreover have "pmem s' a = pmem s a" if "frame a \<noteq> p" for a
    using fr p that in_page_frame [of p a] by (auto simp: alloc_frame_def clear_page_def page_ok_def)
  ultimately show ?thesis
    using leaf_agree [OF ag] fr page_ok_agree [OF ag] is_table_agree [OF ag]
    by (auto simp: space_kept_def spared_def alloc_frame_def)
qed

lemma or_7: "PRESENT OR WRITE OR USER = 7"
  by (simp add: PRESENT_def WRITE_def USER_def)

section \<open>Ensuring one table\<close>

lemma ensure_table_present:
  assumes "pt_wf s" "ordinary v" "reach s v d" "d < 4" "pte s v d \<noteq> 0"
  shows "ensure_table (win_addr d v) s = Some (Inr (), s)"
  using win_addr_io(1) [OF assms(1-4)] assms(5) by (simp add: ensure_table_def)

lemma ensure_table_exhausted:
  assumes "phys_inv s []" "ordinary v" "reach s v d" "d < 4" "pte s v d = 0"
  shows "ensure_table (win_addr d v) s = Some (Inl CannotAllocatePageTable, s)"
proof -
  have "pt_wf s" using assms(1) by (simp add: phys_inv_def)
  then show ?thesis
    using win_addr_io(1) [OF _ assms(2-4)] assms(5) alloc_empty [OF assms(1)]
    by (simp add: ensure_table_def)
qed

lemma ensure_table_new:
  assumes inv: "phys_inv s (p # qs)" and v: "ordinary v" "reach s v d" "d < 3" "pte s v d = 0"
  shows "\<exists>s'. ensure_table (win_addr d v) s = Some (Inr (), s') \<and> phys_inv s' qs \<and>
     reach s' v (Suc d) \<and> space_kept [p] s s'"
proof -
  have wf: "pt_wf s" and dist: "distinct (p # qs)" and pok: "page_ok s p"
    using inv by (auto simp: phys_inv_def)
  obtain s1 where s1: "phys_alloc s = Some (Inr p, s1)" "phys_inv s1 qs" "alloc_frame s p s1"
    "tables_agree s s1" using alloc_page [OF inv] by blast
  let ?x = "p OR 7" let ?s2 = "set_pmem (slot s1 v d) ?x s1"
  have wf1: "pt_wf s1" and t1: "temp_ok s1" using s1(2) by (auto simp: phys_inv_def)
  have r1: "reach s1 v d" "pte s1 v d = 0"
    using walk_agree [OF s1(4) v(1), of d] pte_tables_agree [OF s1(4) v(1), of d] v by auto
  have "zeroed s1 p" using s1(3) zeroed_clear by (auto simp: alloc_frame_def)
  moreover have "present ?x" by (rule present_or) simp
  moreover have "frame ?x = p" using pok by (intro frame_or_flags) (simp_all add: page_ok_def)
  ultimately have ins: "installs s1 v d p ?x"
    using wf1 v r1 pok is_table_agree [OF s1(4)] by (simp add: installs_def page_ok_def)
  note live = installs_live [OF ins]
  have "pte s1 (temp_page s1) d \<noteq> 0" using t1 v(3) by (auto simp: temp_ok_def reach_def)
  then have "\<not> same (Suc d) v (temp_page s1)" using pte_same [of d v "temp_page s1" s1] r1(2) by auto
  then have t2: "temp_ok ?s2" by (rule temp_ok_set_slot [OF t1 live])
  have "\<forall>q \<in> set qs. \<not> is_table ?s2 q"
    using is_table_install [OF ins] s1(2) dist by (auto simp: phys_inv_def page_ok_def)
  then have "phys_inv ?s2 qs"
    by (rule phys_inv_set_slot [OF s1(2) live refl pt_wf_install [OF ins] t2])
  moreover have "reach ?s2 v (Suc d)"
    by (rule install_new(1) [OF ins v(1)]) (simp add: same_def)
  moreover have "space_kept [p] s ?s2"
  proof -
    have k1: "space_kept [p] s s1" by (rule alloc_space_kept [OF s1(3,4) pok])
    have "page_ok ?s2 q" if "page_ok s1 q" "q \<noteq> p" for q
      using that is_table_install [OF ins, of q] by (auto simp: page_ok_def)
    moreover have "\<not> is_table ?s2 q \<and> (\<forall>a. frame a = q \<longrightarrow> pmem ?s2 a = pmem s1 a)"
      if "\<not> is_table s1 q" "q \<noteq> p" for q
      using that is_table_install [OF ins, of q] is_table_tbl [OF v(1) _ r1(1)] v(3)
      by (auto simp: frame_slot_tbl)
    moreover have "is_table s (frame (slot s1 v d))"
      using is_table_tbl [OF v(1) _ r1(1)] v(3) is_table_agree [OF s1(4)] by (simp add: frame_slot_tbl)
    ultimately show ?thesis
      using k1 leaf_install [OF ins] by (auto simp: space_kept_def spared_def)
  qed
  moreover have "ensure_table (win_addr d v) s = Some (Inr (), ?s2)"
    using win_addr_io(1) [OF wf v(1,2)] win_addr_io(2) [OF wf1 v(1) r1(1)] v(3,4) s1(1)
    by (simp add: ensure_table_def or_7)
  ultimately show ?thesis by blast
qed

text \<open>One step of the table loop: it succeeds unless the allocator is empty.\<close>

lemma ensure_table_step:
  assumes inv: "phys_inv s ps" and v: "ordinary v" "reach s v d" "d < 3"
  shows "(\<exists>s' k. ensure_table (win_addr d v) s = Some (Inr (), s') \<and> phys_inv s' (drop k ps) \<and>
       k \<le> 1 \<and> reach s' v (Suc d) \<and> space_kept (take k ps) s s') \<or>
     (ensure_table (win_addr d v) s = Some (Inl CannotAllocatePageTable, s) \<and> ps = [])"
proof (cases "pte s v d = 0")
  case False
  then have "ensure_table (win_addr d v) s = Some (Inr (), s)" "reach s v (Suc d)"
    using ensure_table_present [of s v d] inv v by (auto simp: phys_inv_def reach_Suc)
  then show ?thesis using inv by (intro disjI1 exI [of _ s] exI [of _ 0]) simp
next
  case True
  show ?thesis
  proof (cases ps)
    case Nil
    then show ?thesis using ensure_table_exhausted [of s v d] inv v True by simp
  next
    case (Cons p qs)
    then show ?thesis
      using ensure_table_new [of s p qs v d] inv v True
      by (intro disjI1) (metis One_nat_def drop0 drop_Suc_Cons take0 take_Suc_Cons order_refl)
  qed
qed


lemma ensure_tables:
  assumes "phys_inv s ps" "ordinary v" "reach s v d" "d \<le> 3"
  shows "(\<exists>s' k. fold_res ensure_table (map (\<lambda>e. win_addr e v) [d..<3]) s = Some (Inr (), s') \<and>
       phys_inv s' (drop k ps) \<and> k \<le> 3 - d \<and> reach s' v 3 \<and> space_kept (take k ps) s s') \<or>
     (\<exists>s'. fold_res ensure_table (map (\<lambda>e. win_addr e v) [d..<3]) s =
         Some (Inl CannotAllocatePageTable, s') \<and>
       phys_inv s' [] \<and> length ps < 3 - d \<and> space_kept ps s s')"
  using assms(1,3,4)
proof (induction "3 - d" arbitrary: d s ps)
  case 0
  then show ?case by (intro disjI1 exI [of _ s] exI [of _ 0]) simp
next
  case (Suc n)
  then have d: "d < 3" and up: "[d..<3] = d # [Suc d..<3]" by (auto simp: upt_conv_Cons)
  from ensure_table_step [OF Suc.prems(1) assms(2) Suc.prems(2) d] show ?case
  proof (elim disjE exE conjE)
    fix s1 k
    assume 1: "ensure_table (win_addr d v) s = Some (Inr (), s1)" "phys_inv s1 (drop k ps)"
      "k \<le> 1" "reach s1 v (Suc d)" "space_kept (take k ps) s s1"
    then have eq: "fold_res ensure_table (map (\<lambda>e. win_addr e v) [d..<3]) s =
        fold_res ensure_table (map (\<lambda>e. win_addr e v) [Suc d..<3]) s1" by (simp add: up)
    have n: "n = 3 - Suc d" "Suc d \<le> 3" using d Suc.hyps(2) by auto
    from Suc.hyps(1) [OF n(1) 1(2,4) n(2)] show ?thesis
    proof (elim disjE exE conjE)
      fix s2 j
      assume 2: "fold_res ensure_table (map (\<lambda>e. win_addr e v) [Suc d..<3]) s1 = Some (Inr (), s2)"
        "phys_inv s2 (drop j (drop k ps))" "j \<le> 3 - Suc d" "reach s2 v 3"
        "space_kept (take j (drop k ps)) s1 s2"
      then show ?thesis
        using eq 1(3) d space_kept_trans [OF 1(5) 2(5)]
        by (intro disjI1 exI [of _ s2] exI [of _ "k + j"]) (auto simp: add.commute)
    next
      fix s2
      assume 2: "fold_res ensure_table (map (\<lambda>e. win_addr e v) [Suc d..<3]) s1 =
          Some (Inl CannotAllocatePageTable, s2)"
        "phys_inv s2 []" "length (drop k ps) < 3 - Suc d" "space_kept (drop k ps) s1 s2"
      then show ?thesis
        using eq 1(3) d space_kept_trans [of k ps s s1 "length (drop k ps)" s2] 1(5)
        by (intro disjI2 exI [of _ s2]) (auto simp: not_le split: nat_diff_split_asm)
    qed
  next
    assume "ensure_table (win_addr d v) s = Some (Inl CannotAllocatePageTable, s)" "ps = []"
    then show ?thesis using Suc.prems(1) d by (intro disjI2 exI [of _ s]) (simp add: up)
  qed
qed

lemma page_map_entries:
  "[pml4_entry CURRENT_PML v, pml3_entry CURRENT_PML v, pml2_entry CURRENT_PML v] =
   map (\<lambda>e. win_addr e v) [0..<3]"
  by (simp add: win_addr_def upt_rec numeral_3_eq_3)

lemma pml1_win_addr: "pml1_entry CURRENT_PML v = win_addr 3 v"
  by (simp add: win_addr_def)

section \<open>The address space after map\<close>

lemma phys_inv_set_leaf:
  assumes inv: "phys_inv s ps" and v: "ordinary v" "reach s v 3" "\<not> same 4 v (temp_page s)"
  shows "phys_inv (set_pmem (slot s v 3) x s) ps"
proof -
  have wf: "pt_wf s" and t: "temp_ok s" using inv by (auto simp: phys_inv_def)
  have live: "live_slot s v 3" using wf v by (simp add: live_slot_def pt_wf_def)
  have "\<forall>q \<in> set ps. \<not> is_table (set_pmem (slot s v 3) x s) q"
    using inv is_table_set_leaf [OF live] by (auto simp: phys_inv_def page_ok_def)
  moreover have "temp_ok (set_pmem (slot s v 3) x s)"
    using temp_ok_set_slot [OF t live] v(3) by simp
  ultimately show ?thesis
    using phys_inv_set_slot [OF inv live refl pt_wf_set_leaf [OF wf v(1,2)]] by blast
qed

lemma spared_set_leaf:
  "live_slot s v 3 \<Longrightarrow> spared ps s (set_pmem (slot s v 3) x s)"
  using is_table_tbl [of v 3 s]
  by (auto simp: spared_def page_ok_def is_table_set_leaf live_slot_def frame_slot_tbl)

lemma page_map_tables:
  assumes inv: "phys_inv s1 qs" and v: "ordinary v" "\<not> same 4 v (temp_page s1)"
    and free: "leaf s1 v = None" and r: "reach s1 v 3" and nz: "phys OR fl \<noteq> 0"
    and tabs: "fold_res ensure_table (map (\<lambda>e. win_addr e v) [0..<3]) s = Some (Inr (), s1)"
  shows "\<exists>s'. page_map phys v fl s = Some (Inr (), s') \<and> phys_inv s' qs \<and> spared [] s1 s' \<and>
     (\<forall>w. ordinary w \<longrightarrow> leaf s' w = (if same 4 v w then Some (phys OR fl) else leaf s1 w))"
proof -
  let ?s = "set_pmem (slot s1 v 3) (phys OR fl) s1"
  have wf: "pt_wf s1" using inv by (simp add: phys_inv_def)
  have live: "live_slot s1 v 3" using wf v(1) r by (simp add: live_slot_def pt_wf_def)
  have "pte s1 v 3 = 0"
    using free r reach_Suc [of s1 v 3] by (auto simp: leaf_def split: if_splits)
  then have eq: "page_map phys v fl s = Some (Inr (), ?s)"
    using tabs win_addr_io [OF wf v(1) r] by (simp add: page_map_def page_map_entries pml1_win_addr)
  then show ?thesis
    using phys_inv_set_leaf [OF inv v(1) r v(2)] spared_set_leaf [OF live]
      leaf_set_leaf [OF wf v(1) r] nz
    by (intro exI [of _ ?s]) simp
qed

lemma page_map_total:
  assumes inv: "phys_inv s ps" and v: "ordinary v" "\<not> same 4 v (temp_page s)"
    and free: "leaf s v = None" and nz: "phys OR fl \<noteq> 0"
  shows "(\<exists>s' k. page_map phys v fl s = Some (Inr (), s') \<and> k \<le> 3 \<and> phys_inv s' (drop k ps) \<and>
       spared (take k ps) s s' \<and>
       (\<forall>w. ordinary w \<longrightarrow> leaf s' w = (if same 4 v w then Some (phys OR fl) else leaf s w))) \<or>
     (\<exists>s1. length ps < 3 \<and> phys_inv s1 [] \<and> space_kept ps s s1 \<and> page_map phys v fl s =
       map_option (\<lambda>s'. (Inl CannotAllocatePageTable, s')) (phys_drop phys s1))"
  using ensure_tables [OF inv v(1) reach_0 le0]
proof (elim disjE exE conjE)
  fix s1 k
  assume 1: "fold_res ensure_table (map (\<lambda>e. win_addr e v) [0..<3]) s = Some (Inr (), s1)"
    "phys_inv s1 (drop k ps)" "k \<le> 3 - 0" "reach s1 v 3" "space_kept (take k ps) s s1"
  have sp: "spared (take k ps) s s1" "temp_page s1 = temp_page s" "\<forall>w. ordinary w \<longrightarrow> leaf s1 w = leaf s w"
    using 1(5) by (auto simp: space_kept_def spared_def)
  obtain s' where s': "page_map phys v fl s = Some (Inr (), s')" "phys_inv s' (drop k ps)"
    "spared [] s1 s'"
    "\<forall>w. ordinary w \<longrightarrow> leaf s' w = (if same 4 v w then Some (phys OR fl) else leaf s1 w)"
    using page_map_tables [OF 1(2) v(1) _ _ 1(4) nz 1(1)] v free sp by auto
  then show ?thesis
    using spared_trans [OF sp(1) s'(3)] 1(3) sp(3) by (intro disjI1 exI [of _ s'] exI [of _ k]) simp
next
  fix s1
  assume 1: "fold_res ensure_table (map (\<lambda>e. win_addr e v) [0..<3]) s =
      Some (Inl CannotAllocatePageTable, s1)"
    "phys_inv s1 []" "length ps < 3 - 0" "space_kept ps s s1"
  then show ?thesis
    by (intro disjI2 exI [of _ s1], cases "phys_drop phys s1")
      (simp_all add: page_map_def page_map_entries)
qed

lemma page_map_success:
  assumes inv: "phys_inv s ps" and v: "ordinary v" "\<not> same 4 v (temp_page s)"
    and free: "leaf s v = None" and enough: "3 \<le> length ps" and nz: "phys OR fl \<noteq> 0"
  shows "\<exists>s' k. page_map phys v fl s = Some (Inr (), s') \<and> k \<le> 3 \<and> phys_inv s' (drop k ps) \<and>
     spared ps s s' \<and>
     (\<forall>w. ordinary w \<longrightarrow> leaf s' w = (if same 4 v w then Some (phys OR fl) else leaf s w))"
proof -
  from page_map_total [OF inv v free nz] enough obtain s' k where
    s': "page_map phys v fl s = Some (Inr (), s')" "k \<le> 3" "phys_inv s' (drop k ps)"
      "spared (take k ps) s s'"
      "\<forall>w. ordinary w \<longrightarrow> leaf s' w = (if same 4 v w then Some (phys OR fl) else leaf s w)"
    by auto
  moreover from s'(4) have "spared ps s s'" by (rule spared_mono) (rule set_take_subset)
  ultimately show ?thesis by blast
qed

lemma page_map_already:
  assumes inv: "phys_inv s ps" and v: "ordinary v" and taken: "leaf s v = Some e"
  shows "page_map phys v fl s = map_option (\<lambda>s'. (Inl AlreadyMapped, s')) (phys_drop phys s)"
proof -
  have wf: "pt_wf s" using inv by (simp add: phys_inv_def)
  have r: "reach s v 4" using taken by (auto simp: leaf_Some)
  have "ensure_table (win_addr d v) s = Some (Inr (), s)" if "d < 4" for d
    using ensure_table_present [OF wf v] r that reach_mono [OF r, of d] by (auto simp: reach_def)
  then have "fold_res ensure_table (map (\<lambda>e. win_addr e v) [0..<3]) s = Some (Inr (), s)"
    by (simp add: upt_rec numeral_3_eq_3)
  moreover have "vread s (win_addr 3 v) = Some (pte s v 3)" "pte s v 3 \<noteq> 0"
    using win_addr_io(1) [OF wf v, of 3] reach_mono [OF r, of 3] r by (auto simp: reach_def)
  ultimately show ?thesis
    by (cases "phys_drop phys s") (simp_all add: page_map_def page_map_entries pml1_win_addr)
qed

section \<open>The address space after unmap and modify\<close>

lemma page_unmap_not_mapped:
  assumes "pt_wf s" "ordinary v" "leaf s v = None"
  shows "page_unmap v s = Some (Inl NotMapped, s)"
  using checked_pml1_entry_leaf [OF assms(1,2)] assms(3) by (simp add: page_unmap_def)

lemma page_unmap_mapped:
  assumes inv: "phys_inv s ps" and v: "ordinary v" "\<not> same 4 v (temp_page s)"
    and lf: "leaf s v = Some e" "raw_phys e = Some p"
    and dr: "phys_drop p s = Some s1" "phys_inv s1 qs" "tables_agree s s1"
      "temp_page s1 = temp_page s"
  shows "\<exists>s'. page_unmap v s = Some (Inr (), s') \<and> phys_inv s' qs \<and>
     (\<forall>w. ordinary w \<longrightarrow> leaf s' w = (if same 4 v w then None else leaf s w))"
proof -
  have wf: "pt_wf s" and wf1: "pt_wf s1" using inv dr(2) by (auto simp: phys_inv_def)
  have r: "reach s v 3" by (rule leaf_reach3 [OF lf(1)])
  have r1: "reach s1 v 3" using walk_agree [OF dr(3) v(1), of 3] r by simp
  have rd: "vread s (win_addr 3 v) = Some e"
    using win_addr_io(1) [OF wf v(1) r] lf(1) by (simp add: leaf_Some)
  have "page_unmap v s = Some (Inr (), set_pmem (slot s1 v 3) 0 s1)"
    using checked_pml1_entry_leaf [OF wf v(1)] lf dr(1) rd win_addr_io(2) [OF wf1 v(1) r1]
    by (simp add: page_unmap_def pml1_win_addr)
  moreover have "phys_inv (set_pmem (slot s1 v 3) 0 s1) qs"
    using phys_inv_set_leaf [OF dr(2) v(1) r1] v(2) dr(4) by simp
  moreover have "leaf (set_pmem (slot s1 v 3) 0 s1) w = (if same 4 v w then None else leaf s w)"
    if "ordinary w" for w
    using leaf_set_leaf [OF wf1 v(1) r1 that] leaf_agree [OF dr(3) that] by simp
  ultimately show ?thesis by blast
qed

lemma modify_mapped:
  assumes inv: "phys_inv s ps" and v: "ordinary v" "\<not> same 4 v (temp_page s)"
    and lf: "leaf s v = Some e" and nz: "set_flags e fl \<noteq> 0"
  shows "\<exists>s'. modify v fl s = Some (Inr (), s') \<and> phys_inv s' ps \<and> temp_page s' = temp_page s \<and>
     (\<forall>w. ordinary w \<longrightarrow> leaf s' w = (if same 4 v w then Some (set_flags e fl) else leaf s w))"
proof -
  have wf: "pt_wf s" using inv by (simp add: phys_inv_def)
  have r: "reach s v 3" by (rule leaf_reach3 [OF lf])
  have rd: "vread s (win_addr 3 v) = Some e"
    using win_addr_io(1) [OF wf v(1) r] lf by (simp add: leaf_Some)
  have "modify v fl s = Some (Inr (), set_pmem (slot s v 3) (set_flags e fl) s)"
    using checked_pml1_entry_leaf [OF wf v(1)] lf rd win_addr_io(2) [OF wf v(1) r]
    by (simp add: modify_def pml1_win_addr)
  then show ?thesis
    using phys_inv_set_leaf [OF inv v(1) r v(2)] leaf_set_leaf [OF wf v(1) r] nz
    by (intro exI [of _ "set_pmem (slot s v 3) (set_flags e fl) s"]) simp
qed

end
