(* ===== verification/Sample_Memory.thy ===== *)
theory Sample_Memory
  imports Page_Map
begin

text \<open>
  A small but complete memory, in which the hypotheses of the memory properties hold: a
  PML4 at 4 KiB with its recursive entry, the three tables that lead to \<open>temp_page\<close>, and
  one usable region of eight pages.
\<close>

definition sample :: kmem where
  "sample = \<lparr>pmem = (\<lambda>a. 0)(0x1ff8 := 0x1003, 0x1800 := 0x2007, 0x2000 := 0x3007, 0x3000 := 0x4007),
     cr3 = 0x1000, temp_page = 0xffff800000000000,
     phys_rc = 0xffff900000000000, phys_rc_end = 0xffff980000000000,
     PHYS_REGIONS = Some [\<lparr>region_begin = 0x100000, region_end = 0x108000\<rparr>],
     PHYS_BUMP_ALLOC = Some [0x100000], REF_COUNT_ENABLED = True,
     NEXT_FREE_PHYS = None, rc_array = (\<lambda>_. 0)\<rparr>"

definition sample_pages :: "u64 list" where
  "sample_pages = [0x100000, 0x101000, 0x102000, 0x103000, 0x104000, 0x105000, 0x106000, 0x107000]"

lemma sample_sel [simp]:
  "cr3 sample = 0x1000" "temp_page sample = 0xffff800000000000"
  "PHYS_REGIONS sample = Some [\<lparr>region_begin = 0x100000, region_end = 0x108000\<rparr>]"
  "PHYS_BUMP_ALLOC sample = Some [0x100000]" "REF_COUNT_ENABLED sample"
  "NEXT_FREE_PHYS sample = None" "rc_array sample = (\<lambda>_. 0)"
  by (simp_all add: sample_def)

lemma sample_word:
  assumes "i < 512"
  shows "pmem sample (0x1000 + 8 * of_nat i) =
      (if i = 511 then 0x1003 else if i = 256 then 0x2007 else 0)"
    and "pmem sample (0x2000 + 8 * of_nat i) = (if i = 0 then 0x3007 else 0)"
    and "pmem sample (0x3000 + 8 * of_nat i) = (if i = 0 then 0x4007 else 0)"
    and "pmem sample (0x4000 + 8 * of_nat i) = 0"
  using assms
  by (auto simp: sample_def word_unat_eq_iff unat_word_ariths unat_of_nat)

lemma ix_cases:
  obtains i where "ix l v = of_nat i" "i < 512" "\<And>k. k < 512 \<Longrightarrow> ix l v = of_nat k \<longleftrightarrow> i = k"
proof -
  obtain i where i: "i < 512" "ix l v = of_nat i" using ix_of_nat by blast
  have "(of_nat i :: u64) = of_nat k \<longleftrightarrow> i = k" if "k < 512" for k
    using that i(1) by (auto simp: word_unat_eq_iff unat_of_nat)
  with i that show ?thesis by simp
qed

lemma sample_slot:
  "pmem sample (0x1000 + 8 * ix l v) = (if ix l v = 511 then 0x1003 else if ix l v = 256 then 0x2007 else 0)"
  "pmem sample (0x2000 + 8 * ix l v) = (if ix l v = 0 then 0x3007 else 0)"
  "pmem sample (0x3000 + 8 * ix l v) = (if ix l v = 0 then 0x4007 else 0)"
  "pmem sample (0x4000 + 8 * ix l v) = 0"
proof -
  obtain i where i: "ix l v = of_nat i" "i < 512" "\<And>k. k < 512 \<Longrightarrow> ix l v = of_nat k \<longleftrightarrow> i = k"
    using ix_cases by blast
  show "pmem sample (0x1000 + 8 * ix l v) =
      (if ix l v = 511 then 0x1003 else if ix l v = 256 then 0x2007 else 0)"
    using i(3) [of 511] i(3) [of 256] sample_word(1) [OF i(2)] by (simp add: i(1))
  show "pmem sample (0x2000 + 8 * ix l v) = (if ix l v = 0 then 0x3007 else 0)"
    using i(3) [of 0] sample_word(2) [OF i(2)] by (simp add: i(1))
  show "pmem sample (0x3000 + 8 * ix l v) = (if ix l v = 0 then 0x4007 else 0)"
    using i(3) [of 0] sample_word(3) [OF i(2)] by (simp add: i(1))
  show "pmem sample (0x4000 + 8 * ix l v) = 0"
    using sample_word(4) [OF i(2)] by (simp add: i(1))
qed

lemma frame_consts [simp]:
  "frame 0x1000 = 0x1000" "frame 0x1003 = 0x1000" "frame 0x2007 = 0x2000" "frame 0x3007 = 0x3000"
  "frame 0x4007 = 0x4000" "frame 0 = 0"
  by (simp_all add: frame_def)

lemma sample_walk:
  "pte sample v 0 = (if ix 3 v = 511 then 0x1003 else if ix 3 v = 256 then 0x2007 else 0)"
  "ix 3 v = 256 \<Longrightarrow> pte sample v 1 = (if ix 2 v = 0 then 0x3007 else 0)"
  "ix 3 v = 256 \<Longrightarrow> ix 2 v = 0 \<Longrightarrow> pte sample v 2 = (if ix 1 v = 0 then 0x4007 else 0)"
  "ix 3 v = 256 \<Longrightarrow> ix 2 v = 0 \<Longrightarrow> ix 1 v = 0 \<Longrightarrow> pte sample v 3 = 0"
proof -
  show 0: "pte sample v 0 = (if ix 3 v = 511 then 0x1003 else if ix 3 v = 256 then 0x2007 else 0)"
    by (simp add: pte_def slot_numerals sample_slot)
  show 1: "pte sample v 1 = (if ix 2 v = 0 then 0x3007 else 0)" if "ix 3 v = 256"
    unfolding pte_def [of _ _ 1] slot_numerals(2) using 0 that by (simp add: sample_slot)
  show 2: "pte sample v 2 = (if ix 1 v = 0 then 0x4007 else 0)" if "ix 3 v = 256" "ix 2 v = 0"
    unfolding pte_def [of _ _ 2] slot_numerals(3) using 1 that by (simp add: sample_slot)
  show 3: "pte sample v 3 = 0" if "ix 3 v = 256" "ix 2 v = 0" "ix 1 v = 0"
    unfolding pte_def [of _ _ 3] slot_numerals(4) using 2 that by (simp add: sample_slot)
qed

lemma less_4_cases: "(d :: nat) < 4 \<longleftrightarrow> d = 0 \<or> d = 1 \<or> d = 2 \<or> d = 3"
  by auto

lemma sample_reach:
  assumes "ordinary v"
  shows "reach sample v 1 \<longleftrightarrow> ix 3 v = 256"
    and "reach sample v 2 \<longleftrightarrow> ix 3 v = 256 \<and> ix 2 v = 0"
    and "reach sample v 3 \<longleftrightarrow> ix 3 v = 256 \<and> ix 2 v = 0 \<and> ix 1 v = 0"
    and "\<not> reach sample v 4"
  using assms sample_walk [of v] by (auto simp: reach_numerals split: if_splits)

lemma sample_tbl:
  assumes "ordinary v" "reach sample v d" "d < 4"
  shows "tbl sample v d = 0x1000 * of_nat (Suc d)"
proof -
  from assms(3) consider "d = 0" | "d = 1" | "d = 2" | "d = 3" by linarith
  then show ?thesis
  proof cases
    case 1
    then show ?thesis by simp
  next
    case 2
    then show ?thesis
      using sample_reach [OF assms(1)] sample_walk [of v] assms(2) tbl_Suc [of sample v 0] by simp
  next
    case 3
    then show ?thesis
      using sample_reach [OF assms(1)] sample_walk [of v] assms(2) tbl_Suc [of sample v 1] by (simp add: numeral_2_eq_2)
  next
    case 4
    then show ?thesis
      using sample_reach [OF assms(1)] sample_walk [of v] assms(2) tbl_Suc [of sample v 2] by (simp add: numeral_3_eq_3)
  qed
qed

lemma sample_same:
  assumes "ordinary v" "ordinary w" "reach sample v d" "reach sample w d" "d < 4"
  shows "same d v w"
proof -
  from assms(5) consider "d = 0" | "d = 1" | "d = 2" | "d = 3" by linarith
  then show ?thesis
    using sample_reach [OF assms(1)] sample_reach [OF assms(2)] assms(3,4)
    by cases (auto simp: same_def less_Suc_eq eval_nat_numeral)
qed

lemma sample_wf: "pt_wf sample"
  unfolding pt_wf_def
proof (intro conjI)
  show "pt_root sample"
    using sample_word(1) [of 511] by (simp add: pt_root_def present_def)
  show "pt_present sample"
    unfolding pt_present_def
  proof (intro allI impI, elim conjE)
    fix v d assume h: "ordinary v" "d < 3" "reach sample v (Suc d)"
    then consider "d = 0" | "d = 1" | "d = 2" by linarith
    then show "present (pte sample v d)"
      using h sample_reach [OF h(1)] sample_walk [of v]
      by cases (auto simp: present_def numeral_2_eq_2 numeral_3_eq_3)
  qed
  show "pt_tree sample"
    unfolding pt_tree_def
  proof (intro allI impI, elim conjE)
    fix v w d e
    assume h: "ordinary v" "ordinary w" "d < 4" "e < 4" "reach sample v d" "reach sample w e"
      "tbl sample v d = tbl sample w e"
    have "(0x1000 * of_nat (Suc d) :: u64) = 0x1000 * of_nat (Suc e)"
      using sample_tbl [OF h(1,5,3)] sample_tbl [OF h(2,6,4)] h(7) by simp
    then have "d = e"
      using h(3,4) unfolding less_4_cases by auto
    then show "d = e \<and> same d v w" using sample_same [OF h(1,2,5)] h by simp
  qed
qed

lemma sample_is_table:
  assumes "is_table sample p"
  shows "p = 0x1000 \<or> p = 0x2000 \<or> p = 0x3000 \<or> p = 0x4000"
proof -
  from assms obtain v d where "ordinary v" "d < 4" "reach sample v d" "tbl sample v d = p"
    unfolding is_table_def by blast
  then have "p = 0x1000 * of_nat (Suc d)" and "d = 0 \<or> d = 1 \<or> d = 2 \<or> d = 3"
    using sample_tbl by auto
  then show ?thesis by auto
qed

lemma sample_ref_count:
  "p \<in> set sample_pages \<Longrightarrow> ref_count sample p = Some (Some (0xffff900000000000 + 8 * drop_bit 12 p))"
  by (auto simp: ref_count_def sample_pages_def sample_def MAX_PHYS_PAGE_def push_bit_eq_mult
      drop_bit_eq_div)

lemma sample_bump:
  "bump_pages [\<lparr>region_begin = 0x100000, region_end = 0x108000\<rparr>] [0x100000] = sample_pages"
  by (simp add: bump_pages_def region_pages_def sample_pages_def upt_rec)

lemma sample_temp: "temp_ok sample"
proof -
  let ?t = "0xffff800000000000 :: u64"
  have i: "ix 3 ?t = 256" "ix 2 ?t = 0" "ix 1 ?t = 0"
    by (simp_all add: ix_def drop_bit_eq_div)
  then show ?thesis
    using sample_reach(3) [of ?t] sample_walk(4) [of ?t] by (simp add: temp_ok_def)
qed

lemma sample_inv: "phys_inv sample sample_pages"
  unfolding phys_inv_def
proof (intro conjI exI)
  show "pt_wf sample" by (rule sample_wf)
  show "temp_ok sample" by (rule sample_temp)
  show "distinct sample_pages" by (simp add: sample_pages_def)
  show "\<forall>p\<in>set sample_pages. page_ok sample p"
  proof
    fix p assume p: "p \<in> set sample_pages"
    then have "\<not> is_table sample p"
      by (auto simp: sample_pages_def dest: sample_is_table)
    moreover have "frame p = p \<and> p \<noteq> 0" using p by (auto simp: sample_pages_def frame_def)
    ultimately show "page_ok sample p" using sample_ref_count [OF p] by (simp add: page_ok_def)
  qed
  show "sample_pages = [] @ bump_pages [\<lparr>region_begin = 0x100000, region_end = 0x108000\<rparr>] [0x100000]"
    by (simp add: sample_bump)
qed simp_all

end
