(* ===== verification/Memory_Contract.thy ===== *)
theory Memory_Contract
  imports Sample_Memory
begin

text \<open>
  The properties of the memory subsystem, stated over the definitions of \<open>Paging\<close>, \<open>Phys\<close>
  and \<open>Page_Map\<close>, each with an application to the memory of \<open>Sample_Memory\<close>.
\<close>

section \<open>Helper lemmas\<close>

lemma translate_leaf:
  assumes "pt_wf s" "ordinary v" "leaf s v = Some e" "present e"
  shows "translate s v = Some (frame e + (v AND 0xfff))"
  using assms pt_wf_present [OF assms(1,2) leaf_reach3 [OF assms(3)]]
  by (simp add: translate_walk leaf_Some)

lemma same_offset:
  assumes "v AND 0xfff = 0" "off < 0x1000"
  shows "same 4 v (v + off)" and "(v + off) AND 0xfff = off"
proof -
  have lo: "bit v n \<Longrightarrow> 12 \<le> n" for n
    using assms(1) bit_and_mask_0 [of v 12 n] by (simp add: masks)
  have "take_bit 12 off = off"
    using assms(2)
    by (simp add: word_less_nat_alt word_unat_eq_iff unsigned_take_bit_eq take_bit_nat_eq_self)
  then have off: "off AND mask 12 = off" by (simp add: take_bit_eq_mask)
  have hi: "bit off n \<Longrightarrow> n < 12" for n
    using off bit_and_iff [of off "mask 12" n] by (auto simp: bit_mask_iff)
  have eq: "v + off = v OR off"
  proof (rule word_add_or, rule bit_word_eqI)
    fix n show "bit (v AND off) n = bit 0 n" using lo [of n] hi [of n] by (auto simp: bit_simps)
  qed
  show "same 4 v (v + off)"
    unfolding same_4 eq by (rule bit_word_eqI) (auto simp: bit_simps dest: hi)
  show "(v + off) AND 0xfff = off"
    unfolding eq masks by (rule bit_word_eqI) (auto simp: bit_simps dest: lo hi)
qed

lemma raw_phys_flags:
  assumes "frame p = p" "p \<noteq> 0" "fl AND NOT 0xfff = 0"
  shows "raw_phys (p OR fl) = Some p"
proof -
  have "p AND NOT 0xfff = p"
  proof -
    have "frame p AND NOT 0xfff = frame p"
      unfolding frame_def masks by (rule bit_word_eqI) (auto simp: bit_simps)
    then show ?thesis using assms(1) by simp
  qed
  then show ?thesis using assms(2,3) by (simp add: raw_phys_def bit.conj_disj_distrib2)
qed

lemma unmap_sole:
  assumes inv: "phys_inv s ps" and v: "ordinary v" "\<not> same 4 v (temp_page s)"
    and lf: "leaf s v = Some e" "raw_phys e = Some p" and p: "sole_page s p" "p \<notin> set ps"
  shows "\<exists>s'. page_unmap v s = Some (Inr (), s') \<and> phys_inv s' (p # ps) \<and>
     (\<forall>w. ordinary w \<longrightarrow> leaf s' w = (if same 4 v w then None else leaf s w))"
proof -
  from p(1) obtain rc where rc: "page_ok s p" "REF_COUNT_ENABLED s" "ref_count s p = Some (Some rc)"
    "rc_array s rc = 1" by (auto simp: sole_page_def)
  obtain s1 where s1: "phys_drop p s = Some s1" "phys_inv s1 (p # ps)" "tables_agree s s1"
    using release_page [OF inv rc(1) p(2) rc(2-)] by blast
  show ?thesis
    using page_unmap_mapped [OF inv v lf s1] release_frame [OF s1(1)] by simp
qed

section \<open>Facts about the sample memory\<close>

lemma sample_leaf: "ordinary v \<Longrightarrow> leaf sample v = None"
  using sample_reach(4) by (simp add: leaf_def)

lemma sample_v: "ordinary 0x400000" "\<not> same 4 0x400000 (temp_page sample)" "(0x400000 :: u64) AND 0xfff = 0"
proof -
  show "ordinary 0x400000" by (simp add: ix_def drop_bit_eq_div)
  show "\<not> same 4 0x400000 (temp_page sample)"
    using sample_temp by (simp add: same_def ix_def drop_bit_eq_div) (rule exI [of _ 0], simp)
qed simp

lemma sample_idle: "idle_page sample 0x100000"
proof -
  have "0x100000 \<in> set sample_pages" by (simp add: sample_pages_def)
  then show ?thesis
    using sample_inv sample_ref_count by (auto simp: idle_page_def phys_inv_def)
qed

lemma sample_len: "length sample_pages = 8" "sample_pages = 0x100000 # tl sample_pages"
  by (simp_all add: sample_pages_def)

text \<open>The sample memory after allocating a page and mapping it at 4 MiB.\<close>

lemma sample_alloc:
  "\<exists>s. phys_alloc sample = Some (Inr 0x100000, s) \<and> phys_inv s (tl sample_pages) \<and>
     sole_page s 0x100000 \<and> temp_page s = temp_page sample \<and> (\<forall>w. ordinary w \<longrightarrow> leaf s w = None)"
proof -
  have inv: "phys_inv sample (0x100000 # tl sample_pages)" using sample_inv sample_len(2) by simp
  obtain s where s: "phys_alloc sample = Some (Inr 0x100000, s)" "phys_inv s (tl sample_pages)"
    "alloc_frame sample 0x100000 s" "tables_agree sample s" using alloc_page [OF inv] by blast
  then show ?thesis
    using pa.alloc_sole [OF inv sample_idle s(1)] leaf_agree [OF s(4)] sample_leaf
    by (auto simp: alloc_frame_def)
qed

lemma sample_mapped:
  "\<exists>s ps. phys_inv s ps \<and> temp_page s = temp_page sample \<and> leaf s 0x400000 = Some 0x100007 \<and>
     sole_page s 0x100000 \<and> 0x100000 \<notin> set ps"
proof -
  obtain s where s: "phys_inv s (tl sample_pages)" "sole_page s 0x100000"
    "temp_page s = temp_page sample" "\<forall>w. ordinary w \<longrightarrow> leaf s w = None" using sample_alloc by blast
  have ns: "\<not> same 4 0x400000 (temp_page s)" and fr: "leaf s 0x400000 = None" and nz: "(0x100000 :: u64) OR 7 \<noteq> 0"
    and np: "0x100000 \<notin> set (tl sample_pages)" and le: "3 \<le> length (tl sample_pages)"
    using sample_v s(3,4) by (simp_all add: sample_pages_def)
  obtain s' k where s': "phys_inv s' (drop k (tl sample_pages))" "spared (tl sample_pages) s s'"
    "\<forall>w. ordinary w \<longrightarrow> leaf s' w = (if same 4 0x400000 w then Some (0x100000 OR 7) else leaf s w)"
    using page_map_success [OF s(1) sample_v(1) ns fr le nz] by blast
  have "0x100000 \<notin> set (drop k (tl sample_pages))" using np in_set_dropD by metis
  moreover have "leaf s' 0x400000 = Some 0x100007" using s'(3) sample_v(1) by (simp add: same_def)
  ultimately show ?thesis
    using s'(1,2) spared_sole [OF s'(2) s(2) np] s(3) by (auto simp: spared_def)
qed


section \<open>Properties\<close>

text \<open>C1: The recursive window is correct.  In well-formed tables, the virtual addresses that
  \<open>pml4_entry\<close> to \<open>pml1_entry\<close> compute for an address \<open>v\<close> translate to exactly the page table
  slots that the processor's own walk of \<open>v\<close> uses, as far as the tables on the way exist.\<close>

theorem window_is_the_walk:
  assumes "pt_wf s" "ordinary v"
  shows "translate s (pml4_entry CURRENT_PML v) = Some (slot s v 0) \<and>
     (reach s v 1 \<longrightarrow> translate s (pml3_entry CURRENT_PML v) = Some (slot s v 1)) \<and>
     (reach s v 2 \<longrightarrow> translate s (pml2_entry CURRENT_PML v) = Some (slot s v 2)) \<and>
     (reach s v 3 \<longrightarrow> translate s (pml1_entry CURRENT_PML v) = Some (slot s v 3))"
  using window_reach [OF assms] by blast

theorem window_is_the_walk_witness:
  "translate sample (pml1_entry CURRENT_PML 0xffff800000000000) = Some 0x4000"
proof -
  let ?t = "0xffff800000000000 :: u64"
  have r: "reach sample ?t 3" "ordinary ?t" using sample_temp by (auto simp: temp_ok_def)
  then have "translate sample (pml1_entry CURRENT_PML ?t) = Some (slot sample ?t 3)"
    using window_is_the_walk [OF sample_wf r(2)] by blast
  moreover have "slot sample ?t 3 = 0x4000"
    using sample_tbl [OF r(2,1)] by (simp add: slot_def ix_def)
  ultimately show ?thesis by simp
qed

text \<open>C2: \<open>map\<close> of a free page of the address space succeeds when three frames are left, and then
  every address of that page translates into the mapped frame at the same offset, every other
  page keeps its entry, at most three frames were taken from the free list for tables, and the
  allocator and the tables stay well formed.\<close>

theorem map_adds_one_page:
  assumes inv: "phys_inv s ps" and v: "ordinary v" "\<not> same 4 v (temp_page s)" "v AND 0xfff = 0"
    and free: "leaf s v = None" and enough: "3 \<le> length ps"
    and p: "frame p = p" and fl: "fl AND NOT 0xfff = 0" "present fl"
  shows "\<exists>s' k. page_map p v fl s = Some (Inr (), s') \<and> k \<le> 3 \<and> phys_inv s' (drop k ps) \<and>
     (\<forall>off < 0x1000. translate s' (v + off) = Some (p + off)) \<and>
     (\<forall>w. ordinary w \<and> \<not> same 4 v w \<longrightarrow> leaf s' w = leaf s w)"
proof -
  have pr: "present (p OR fl)" using fl(2) present_odd present_or by blast
  obtain s' k where s': "page_map p v fl s = Some (Inr (), s')" "k \<le> 3" "phys_inv s' (drop k ps)"
    "\<forall>w. ordinary w \<longrightarrow> leaf s' w = (if same 4 v w then Some (p OR fl) else leaf s w)"
    using page_map_success [OF inv v(1,2) free enough present_nonzero [OF pr]] by blast
  have "translate s' (v + off) = Some (p + off)" if "off < 0x1000" for off
  proof -
    have sm: "same 4 v (v + off)" by (rule same_offset(1) [OF v(3) that])
    then have "leaf s' (v + off) = Some (p OR fl)"
      using s'(4) v(1) ordinary_same [OF sm] by simp
    then show ?thesis
      using translate_leaf [of s' "v + off" "p OR fl"] s'(3) v(1) ordinary_same [OF sm] pr
        frame_or_flags [OF p fl(1)] same_offset(2) [OF v(3) that]
      by (simp add: phys_inv_def)
  qed
  then have "\<forall>off < 0x1000. translate s' (v + off) = Some (p + off)" by (intro allI impI)
  moreover have "\<forall>w. ordinary w \<and> \<not> same 4 v w \<longrightarrow> leaf s' w = leaf s w" using s'(4) by metis
  ultimately show ?thesis using s'(1-3) by (intro exI [of _ s'] exI [of _ k] conjI)
qed

theorem map_adds_one_page_witness:
  "\<exists>s' k. page_map 0x200000 0x400000 7 sample = Some (Inr (), s') \<and> k \<le> 3 \<and>
     phys_inv s' (drop k sample_pages) \<and> translate s' (0x400000 + 0x123) = Some (0x200000 + 0x123)"
proof -
  have "frame 0x200000 = 0x200000" "(7 :: u64) AND NOT 0xfff = 0" "present 7" "3 \<le> length sample_pages"
    by (simp_all add: frame_def present_def sample_len(1))
  from map_adds_one_page [OF sample_inv sample_v sample_leaf [OF sample_v(1)] this(4,1,2,3)]
  obtain s' k where s': "page_map 0x200000 0x400000 7 sample = Some (Inr (), s')" "k \<le> 3"
    "phys_inv s' (drop k sample_pages)"
    "\<forall>off < 0x1000. translate s' (0x400000 + off) = Some (0x200000 + off)" by blast
  from s'(4) have "translate s' (0x400000 + 0x123) = Some (0x200000 + 0x123)"
    by (rule allE [of _ "0x123"]) simp
  then show ?thesis using s'(1-3) by blast
qed


text \<open>C3: Allocating, mapping and unmapping a page is a round trip: after \<open>unmap\<close> the address
  space is what it was before, and the page is again the first one that \<open>alloc\<close> hands out.\<close>

theorem map_unmap_roundtrip:
  assumes inv: "phys_inv s (p # qs)" and idle: "idle_page s p"
    and v: "ordinary v" "\<not> same 4 v (temp_page s)" and free: "leaf s v = None"
    and enough: "3 \<le> length qs" and fl: "fl AND NOT 0xfff = 0"
  shows "\<exists>s1 s2 s3 k. phys_alloc s = Some (Inr p, s1) \<and> page_map p v fl s1 = Some (Inr (), s2) \<and>
     page_unmap v s2 = Some (Inr (), s3) \<and> phys_inv s3 (p # drop k qs) \<and> k \<le> 3 \<and>
     (\<forall>w. ordinary w \<longrightarrow> leaf s3 w = leaf s w)"
proof -
  have p: "page_ok s p" "frame p = p" "p \<noteq> 0" "p \<notin> set qs" using inv by (auto simp: phys_inv_def page_ok_def)
  obtain s1 where s1: "phys_alloc s = Some (Inr p, s1)" "phys_inv s1 qs" "alloc_frame s p s1"
    "tables_agree s s1" using alloc_page [OF inv] by blast
  have l1: "\<forall>w. ordinary w \<longrightarrow> leaf s1 w = leaf s w" and t1: "temp_page s1 = temp_page s"
    using leaf_agree [OF s1(4)] s1(3) by (auto simp: alloc_frame_def)
  have so: "sole_page s1 p" by (rule pa.alloc_sole [OF inv idle s1(1)])
  have raw: "raw_phys (p OR fl) = Some p" by (rule raw_phys_flags [OF p(2,3) fl])
  then have nz: "p OR fl \<noteq> 0" by (auto simp: raw_phys_def Let_def split: if_splits)
  have ns1: "\<not> same 4 v (temp_page s1)" and fr1: "leaf s1 v = None" using v t1 l1 free by auto
  obtain s2 k where s2: "page_map p v fl s1 = Some (Inr (), s2)" "k \<le> 3" "phys_inv s2 (drop k qs)"
    "spared qs s1 s2"
    "\<forall>w. ordinary w \<longrightarrow> leaf s2 w = (if same 4 v w then Some (p OR fl) else leaf s1 w)"
    using page_map_success [OF s1(2) v(1) ns1 fr1 enough nz] by blast
  have ns2: "\<not> same 4 v (temp_page s2)" using ns1 s2(4) by (simp add: spared_def)
  have l2: "leaf s2 v = Some (p OR fl)" using s2(5) v(1) by (simp add: same_def)
  have np: "p \<notin> set (drop k qs)" using p(4) in_set_dropD by metis
  obtain s3 where s3: "page_unmap v s2 = Some (Inr (), s3)" "phys_inv s3 (p # drop k qs)"
    "\<forall>w. ordinary w \<longrightarrow> leaf s3 w = (if same 4 v w then None else leaf s2 w)"
    using unmap_sole [OF s2(3) v(1) ns2 l2 raw spared_sole [OF s2(4) so p(4)] np] by blast
  have "leaf s3 w = leaf s w" if "ordinary w" for w
    using s3(3) s2(5) l1 that free leaf_same [of v w s] by (cases "same 4 v w") auto
  then show ?thesis using s1(1) s2(1,2) s3(1,2) by blast
qed

theorem map_unmap_roundtrip_witness:
  "\<exists>s1 s2 s3 k. phys_alloc sample = Some (Inr 0x100000, s1) \<and>
     page_map 0x100000 0x400000 7 s1 = Some (Inr (), s2) \<and>
     page_unmap 0x400000 s2 = Some (Inr (), s3) \<and>
     phys_inv s3 (0x100000 # drop k (tl sample_pages)) \<and> k \<le> 3 \<and>
     (\<forall>w. ordinary w \<longrightarrow> leaf s3 w = leaf sample w)"
proof -
  have inv: "phys_inv sample (0x100000 # tl sample_pages)" using sample_inv sample_len(2) by simp
  have "3 \<le> length (tl sample_pages)" "(7 :: u64) AND NOT 0xfff = 0"
    by (simp_all add: sample_len(1))
  from map_unmap_roundtrip [OF inv sample_idle sample_v(1,2) sample_leaf [OF sample_v(1)] this]
  show ?thesis by blast
qed

text \<open>C4: \<open>unmap\<close> of a page with a single reference removes exactly that page from the address
  space and gives its frame back to the allocator; of an address that is not mapped it reports
  \<open>NotMapped\<close> and changes nothing.\<close>

theorem unmap_removes_one_page:
  assumes inv: "phys_inv s ps" and v: "ordinary v" "\<not> same 4 v (temp_page s)"
  shows "(leaf s v = None \<longrightarrow> page_unmap v s = Some (Inl NotMapped, s)) \<and>
     (\<forall>e p. leaf s v = Some e \<and> raw_phys e = Some p \<and> sole_page s p \<and> p \<notin> set ps \<longrightarrow>
       (\<exists>s'. page_unmap v s = Some (Inr (), s') \<and> phys_inv s' (p # ps) \<and>
         (\<forall>w. ordinary w \<longrightarrow> leaf s' w = (if same 4 v w then None else leaf s w))))"
  using page_unmap_not_mapped [OF _ v(1)] unmap_sole [OF inv v] inv
  by (auto simp: phys_inv_def)

theorem unmap_removes_one_page_witness:
  "page_unmap 0x400000 sample = Some (Inl NotMapped, sample) \<and>
   (\<exists>s s' ps. leaf s 0x400000 = Some 0x100007 \<and> page_unmap 0x400000 s = Some (Inr (), s') \<and>
     phys_inv s' (0x100000 # ps) \<and> leaf s' 0x400000 = None)"
proof -
  obtain s ps where s: "phys_inv s ps" "temp_page s = temp_page sample"
    "leaf s 0x400000 = Some 0x100007" "sole_page s 0x100000" "0x100000 \<notin> set ps"
    using sample_mapped by blast
  have ns: "\<not> same 4 0x400000 (temp_page s)" using sample_v(2) s(2) by simp
  have raw: "raw_phys 0x100007 = Some 0x100000" by (simp add: raw_phys_def)
  obtain s' where s': "page_unmap 0x400000 s = Some (Inr (), s')" "phys_inv s' (0x100000 # ps)"
    "\<forall>w. ordinary w \<longrightarrow> leaf s' w = (if same 4 0x400000 w then None else leaf s w)"
    using unmap_removes_one_page [OF s(1) sample_v(1) ns] s(3,4,5) raw by blast
  have "leaf s' 0x400000 = None" using s'(3) sample_v(1) by (simp add: same_def)
  then show ?thesis
    using unmap_removes_one_page [OF sample_inv sample_v(1,2)] sample_leaf [OF sample_v(1)] s(3) s'(1,2)
    by blast
qed

text \<open>C5: The allocator is a stack of free pages.  A client that allocates \<open>n\<close> pages gets the
  first \<open>n\<close> free ones, all different, when there are that many; otherwise it gets
  \<open>MemoryExhausted\<close>, and this only after every free page was handed out.\<close>

theorem alloc_hands_out_the_free_list:
  assumes "phys_inv s ps"
  shows "if n \<le> length ps
     then \<exists>s'. alloc_times phys_alloc n s = Some (Inr (take n ps), s') \<and> phys_inv s' (drop n ps) \<and>
       distinct (take n ps)
     else \<exists>s'. alloc_times phys_alloc n s = Some (Inl MemoryExhausted, s') \<and> phys_inv s' []"
proof (cases "n \<le> length ps")
  case True
  then show ?thesis using pa.alloc_times_enough [OF assms True] pa.inv_distinct [OF assms] by auto
next
  case False
  then show ?thesis using pa.alloc_times_short [OF assms, of n] by simp
qed

theorem alloc_hands_out_the_free_list_witness:
  "(\<exists>s'. alloc_times phys_alloc 2 sample = Some (Inr [0x100000, 0x101000], s')) \<and>
   (\<exists>s'. alloc_times phys_alloc 9 sample = Some (Inl MemoryExhausted, s'))"
proof
  have "take 2 sample_pages = [0x100000, 0x101000]" by (simp add: sample_pages_def)
  then show "\<exists>s'. alloc_times phys_alloc 2 sample = Some (Inr [0x100000, 0x101000], s')"
    using alloc_hands_out_the_free_list [OF sample_inv, of 2] sample_len(1) by auto
  show "\<exists>s'. alloc_times phys_alloc 9 sample = Some (Inl MemoryExhausted, s')"
    using alloc_hands_out_the_free_list [OF sample_inv, of 9] sample_len(1) by auto
qed

text \<open>C6: Dropping the last reference of a freshly allocated page and allocating again returns the
  same page, filled with zeros whatever was written to it in between (the links of the free list
  included), and the reference counts are as after the first allocation.\<close>

theorem alloc_drop_alloc:
  assumes inv: "phys_inv s (p # qs)" and idle: "idle_page s p"
  shows "\<exists>s1 s2 s3. phys_alloc s = Some (Inr p, s1) \<and> phys_drop p s1 = Some s2 \<and>
     phys_inv s2 (p # qs) \<and> phys_alloc s2 = Some (Inr p, s3) \<and> phys_inv s3 qs \<and> sole_page s3 p \<and>
     zeroed s3 p"
proof -
  obtain s1 s2 s3 where s: "phys_alloc s = Some (Inr p, s1)" "phys_drop p s1 = Some s2"
    "phys_inv s2 (p # qs)" "phys_alloc s2 = Some (Inr p, s3)" "phys_inv s3 qs" "sole_page s3 p"
    using pa.alloc_release_alloc [OF inv idle] by blast
  have "zeroed s3 p"
    using alloc_page [OF s(3)] s(4) zeroed_clear by (auto simp: alloc_frame_def)
  with s show ?thesis by blast
qed

theorem alloc_drop_alloc_witness:
  "\<exists>s1 s2 s3. phys_alloc sample = Some (Inr 0x100000, s1) \<and> phys_drop 0x100000 s1 = Some s2 \<and>
     phys_alloc s2 = Some (Inr 0x100000, s3) \<and> zeroed s3 0x100000"
proof -
  have "phys_inv sample (0x100000 # tl sample_pages)" using sample_inv sample_len(2) by simp
  from alloc_drop_alloc [OF this sample_idle] show ?thesis by blast
qed


text \<open>C7: The error paths of \<open>map\<close>.  On a page that is already mapped the caller's frame is
  dropped and \<open>AlreadyMapped\<close> is returned with the address space untouched; on a free page the
  only possible error is \<open>CannotAllocatePageTable\<close>, it needs fewer than three free frames, and
  the address space is then unchanged and every free frame is used up by tables.\<close>

theorem map_error_paths:
  assumes inv: "phys_inv s ps" and v: "ordinary v" "\<not> same 4 v (temp_page s)"
    and nz: "phys OR fl \<noteq> 0" and err: "page_map phys v fl s = Some (Inl e, s')"
  shows "(leaf s v \<noteq> None \<and> e = AlreadyMapped \<and> phys_drop phys s = Some s') \<or>
     (leaf s v = None \<and> e = CannotAllocatePageTable \<and> length ps < 3 \<and>
      (\<exists>s1. phys_inv s1 [] \<and> (\<forall>w. ordinary w \<longrightarrow> leaf s1 w = leaf s w) \<and> phys_drop phys s1 = Some s'))"
proof (cases "leaf s v")
  case None
  from page_map_total [OF inv v None nz, unfolded err] show ?thesis
    by (auto simp: None space_kept_def map_option_case split: option.splits)
next
  case (Some x)
  with page_map_already [OF inv v(1) Some, of phys fl, unfolded err] show ?thesis
    by (auto simp: map_option_case split: option.splits)
qed

theorem map_error_paths_witness:
  "\<exists>s s'. page_map 0x200000 0x400000 7 s = Some (Inl AlreadyMapped, s') \<and> phys_drop 0x200000 s = Some s'"
proof -
  obtain s ps where s: "phys_inv s ps" "temp_page s = temp_page sample" "leaf s 0x400000 = Some 0x100007"
    using sample_mapped by blast
  have ns: "\<not> same 4 0x400000 (temp_page s)" using sample_v(2) s(2) by simp
  let ?s = "s\<lparr>REF_COUNT_ENABLED := False\<rparr>"
  have ag: "tables_agree s ?s" by (rule agree_same_pmem) simp_all
  have inv: "phys_inv ?s ps"
    using s(1) pt_wf_agree [OF ag] temp_ok_agree [OF ag] page_ok_agree [OF ag] ref_count_cong [of ?s s]
    by (simp add: phys_inv_def)
  have lf: "leaf ?s 0x400000 = Some 0x100007" using leaf_agree [OF ag sample_v(1)] s(3) by simp
  have "phys_drop 0x200000 ?s = Some ?s" by (rule phys_drop_untracked) simp
  then have "page_map 0x200000 0x400000 7 ?s = Some (Inl AlreadyMapped, ?s)"
    using page_map_already [OF inv sample_v(1) lf] by simp
  moreover from map_error_paths [OF inv sample_v(1) _ _ this] ns lf
  have "phys_drop 0x200000 ?s = Some ?s" by simp
  ultimately show ?thesis by blast
qed

text \<open>\<open>modify\<close> replaces the flag bits of one mapped page and keeps its frame; no other page
  changes and no frame is taken or freed.\<close>

lemma modify_changes_flags_only:
  assumes inv: "phys_inv s ps" and v: "ordinary v" "\<not> same 4 v (temp_page s)"
    and lf: "leaf s v = Some e" "raw_phys e = Some p" and fl: "fl AND NOT 0xfff = 0"
  shows "\<exists>s' e'. modify v fl s = Some (Inr (), s') \<and> phys_inv s' ps \<and>
     leaf s' v = Some e' \<and> raw_phys e' = Some p \<and> e' AND 0xfff = fl \<and>
     (\<forall>w. ordinary w \<and> \<not> same 4 v w \<longrightarrow> leaf s' w = leaf s w)"
proof -
  let ?e = "set_flags e fl"
  have "?e AND NOT 0xfff = e AND NOT 0xfff"
    using fl by (simp add: set_flags_def bit.conj_disj_distrib2 and.assoc)
  then have raw: "raw_phys ?e = Some p" using lf(2) by (simp add: raw_phys_def)
  have "fl AND 0xfff = fl"
  proof -
    have "fl = (fl AND NOT 0xfff) OR (fl AND 0xfff)"
      by (metis bit.conj_disj_distrib bit.disj_cancel_left and.right_neutral)
    then show ?thesis using fl by simp
  qed
  moreover have "(e AND NOT 0xfff) AND 0xfff = 0" by (simp add: and.assoc)
  ultimately have low: "?e AND 0xfff = fl" by (simp add: set_flags_def bit.conj_disj_distrib2)
  have "?e \<noteq> 0" using raw by (auto simp: raw_phys_def Let_def split: if_splits)
  then obtain s' where s': "modify v fl s = Some (Inr (), s')" "phys_inv s' ps"
    "\<forall>w. ordinary w \<longrightarrow> leaf s' w = (if same 4 v w then Some ?e else leaf s w)"
    using modify_mapped [OF inv v lf(1)] by blast
  moreover have "leaf s' v = Some ?e" using s'(3) v(1) by (simp add: same_def)
  moreover have "\<forall>w. ordinary w \<and> \<not> same 4 v w \<longrightarrow> leaf s' w = leaf s w" using s'(3) by metis
  ultimately show ?thesis using raw low by blast
qed

lemma modify_changes_flags_only_witness:
  "\<exists>s s' ps e. phys_inv s ps \<and> leaf s 0x400000 = Some 0x100007 \<and> modify 0x400000 5 s = Some (Inr (), s') \<and>
     leaf s' 0x400000 = Some e \<and> e AND 0xfff = 5"
proof -
  obtain s ps where s: "phys_inv s ps" "temp_page s = temp_page sample" "leaf s 0x400000 = Some 0x100007"
    using sample_mapped by blast
  have ns: "\<not> same 4 0x400000 (temp_page s)" using sample_v(2) s(2) by simp
  have "raw_phys 0x100007 = Some 0x100000" "(5 :: u64) AND NOT 0xfff = 0" by (simp_all add: raw_phys_def)
  from modify_changes_flags_only [OF s(1) sample_v(1) ns s(3) this] s(1,3) show ?thesis by blast
qed

end
