(* ===== verification/User_Contract.thy ===== *)
theory User_Contract
  imports User_Memory Memory_Contract
begin

text \<open>
  Properties of the validation of user pointers that speak about mapped memory, with an
  application to the sample memory after one page was mapped at 4 MiB.
\<close>

section \<open>Instances of the library functions\<close>

text \<open>Concrete functions with the documented behaviour of \<open>bitflags\<close>, for the applications.\<close>

definition sample_from_bits :: "u64 \<Rightarrow> u64 \<Rightarrow> u64 option" where
  "sample_from_bits all bits = (if bits AND NOT all = 0 then Some bits else None)"

definition sample_contains :: "u64 \<Rightarrow> u64 \<Rightarrow> bool" where
  "sample_contains a b \<longleftrightarrow> a AND b = b"

lemma sample_bitflags: "bitflags_from_bits sample_from_bits" "bitflags_contains sample_contains"
  by (simp_all add: bitflags_from_bits_def bitflags_contains_def sample_from_bits_def sample_contains_def)

section \<open>Properties\<close>

text \<open>C17: A slice handed to the kernel by \<open>borrow_slice_mut\<close> is safe to write: every byte of it
  lies below \<open>MAX_USER_ADDR\<close> in a page with a page table entry that has the \<open>WRITE\<close> flag.  With overflow checks
  (\<open>chk\<close>, the debug build) this holds of every slice that is returned.  In the release build, where the addition in
  \<open>PageRange::new\<close> wraps, it is shown only for slices whose end, rounded up by at most a page, does not pass the end of the 64-bit
  address space: a slice that wraps can be accepted although it reaches into kernel space (\<open>page_range_overflow\<close> in
  \<open>User_Memory\<close>).  Further hypotheses: well-formed page tables, and the documented behaviour of \<open>bitflags\<close>.\<close>

theorem borrow_slice_mut_sound:
  assumes wf: "pt_wf s"
    and fb: "bitflags_from_bits from_bits" and ct: "bitflags_contains contains"
    and b: "borrow_slice_mut from_bits contains chk size_of addr len s = Some (Inr sl)"
    and nowrap: "chk \<or> unat addr + unat len * unat size_of + 4095 < 2 ^ 64"
    and i: "i < unat len * unat size_of"
  shows "slice_addr sl = addr \<and> slice_len sl = len \<and> unat (addr + of_nat i) = unat addr + i \<and>
     unat addr + i < 2 ^ 47 \<and>
     (\<exists>e. leaf s (addr + of_nat i) = Some e \<and> (e AND 0xfff) AND WRITE = WRITE)"
proof -
  obtain n r where n: "checked_mul len size_of = Some n"
    and r: "page_range_containing chk addr n = Some (Inr r)"
    and v: "validate_map from_bits contains r WRITE s = Some (Inr ())"
    and sl: "sl = \<lparr>slice_addr = addr, slice_len = len\<rparr>"
    using borrow_slice_mutD [OF b] by blast
  have un: "unat n = unat len * unat size_of" using checked_mul_Some [OF n] by blast
  have nw: "chk \<or> unat addr + unat n + 4095 < 2 ^ 64" using nowrap un by simp
  note ok = containing_ok [OF r nw] and cv = containing_covers [OF r nw]
  have "unat addr + i < 2 ^ 64" using cv(2) ok(1) i un by (simp add: user_range_def)
  then have ua: "unat (addr + of_nat i) = unat addr + i" by (rule unat_plus_of_nat)
  have "unat (base_page r) \<le> unat (addr + of_nat i)"
    "unat (addr + of_nat i) < unat (base_page r) + range_bytes r"
    using ua cv i un by simp_all
  from validated_bytes [OF wf ok(1) fb ct v this] show ?thesis
    using ua sl by simp
qed

theorem borrow_slice_mut_sound_witness:
  "\<exists>s e. borrow_slice_mut sample_from_bits sample_contains True 1 0x400010 3 s =
       Some (Inr \<lparr>slice_addr = 0x400010, slice_len = 3\<rparr>) \<and>
     leaf s (0x400010 + of_nat 2) = Some e \<and> (e AND 0xfff) AND WRITE = WRITE"
proof -
  obtain s ps where s: "phys_inv s ps" "leaf s 0x400000 = Some 0x100007"
    using sample_mapped by blast
  have wf: "pt_wf s" using s(1) by (simp add: phys_inv_def)
  have r: "page_range_containing True 0x400010 3 = Some (Inr \<lparr>base_page = 0x400000, page_count = 1\<rparr>)"
    by (simp add: page_range_containing_def page_range_new_def checked_add_def checked_mul_def
        PAGE_SIZE_def validate_page_align_def MAX_USER_ADDR_def add_u64_def)
  have "validate_map_pages sample_from_bits sample_contains WRITE s [0x400000] = Some (Inr ())"
    using entry_leaf [OF wf sample_v(1)] s(2)
    by (simp add: pml_flags_def sample_from_bits_def sample_contains_def PAGE_FLAGS_ALL_def WRITE_def)
  then have b: "borrow_slice_mut sample_from_bits sample_contains True 1 0x400010 3 s =
       Some (Inr \<lparr>slice_addr = 0x400010, slice_len = 3\<rparr>)"
    using r by (simp add: borrow_slice_mut_def checked_mul_def validate_write_def validate_map_def pages_def)
  have "\<exists>e. leaf s (0x400010 + of_nat 2) = Some e \<and> (e AND 0xfff) AND WRITE = WRITE"
    using borrow_slice_mut_sound [OF wf sample_bitflags b, of 2] by simp
  with b show ?thesis by blast
qed

end
