(* ===== verification/Critical_Mutex.thy ===== *)
theory Critical_Mutex
  imports Crab_Prelude
begin

text \<open>
  Critical sections and the kernel mutex: \<open>kernel/src/critical.rs\<close>, \<open>kernel/src/sync/mutex.rs\<close>,
  and the one-shot cell \<open>kernel/src/util/early_init.rs\<close>.

  The kernel runs on one processor, so a critical section is the interrupt flag.  The machine
  of this theory has the flags register and any number of mutexes, and its steps are taking a
  lock, dropping the guard that was taken last, as Rust drops its locals, and an interrupt,
  which is possible only while the flag is set.
\<close>

section \<open>critical.rs\<close>

definition FLAG_IF :: u64 where
  "FLAG_IF = push_bit 9 1"

definition cli :: "u64 \<Rightarrow> u64" where
  "cli eflags = eflags AND NOT FLAG_IF"

definition sti :: "u64 \<Rightarrow> u64" where
  "sti eflags = eflags OR FLAG_IF"

definition critical_begin :: "u64 \<Rightarrow> bool \<times> u64" where
  "critical_begin eflags = (let if_set = (eflags AND FLAG_IF \<noteq> 0) in (if_set, cli eflags))"

definition critical_drop :: "bool \<Rightarrow> u64 \<Rightarrow> u64" where
  "critical_drop crit eflags = (if crit then sti eflags else eflags)"

definition critical_section :: "(u64 \<times> 's \<Rightarrow> 'r \<times> u64 \<times> 's) \<Rightarrow> u64 \<times> 's \<Rightarrow> 'r \<times> u64 \<times> 's" where
  "critical_section f = (\<lambda>(eflags, s).
     let (crit, eflags) = critical_begin eflags; (r, eflags, s) = f (eflags, s)
     in (r, critical_drop crit eflags, s))"

section \<open>sync/mutex.rs\<close>

record 'a mutex =
  mutex_value :: 'a
  mutex_locked :: bool

definition mutex_new :: "'a \<Rightarrow> 'a mutex" where
  "mutex_new v = \<lparr>mutex_value = v, mutex_locked = False\<rparr>"

definition is_locked :: "'a mutex \<Rightarrow> bool" where
  "is_locked m = mutex_locked m"

text \<open>The guard is the saved interrupt flag; \<open>None\<close> is the panic \<open>recursive mutex lock!\<close>.\<close>

definition mutex_lock :: "'a mutex \<Rightarrow> u64 \<Rightarrow> (bool \<times> 'a mutex \<times> u64) option" where
  "mutex_lock m eflags =
     (let (critical, eflags) = critical_begin eflags in
      if is_locked m then None
      else Some (critical, m\<lparr>mutex_locked := True\<rparr>, eflags))"

text \<open>\<open>Drop for MutexGuard\<close>, then the drop of its field \<open>_critical\<close>.\<close>

definition guard_drop :: "bool \<Rightarrow> 'a mutex \<Rightarrow> u64 \<Rightarrow> 'a mutex \<times> u64" where
  "guard_drop critical m eflags = (m\<lparr>mutex_locked := False\<rparr>, critical_drop critical eflags)"

section \<open>util/early_init.rs\<close>

datatype init_state = UNINIT | MIDINIT | SAFE

record 'a early_init =
  init :: init_state
  init_value :: "'a option"   \<comment> \<open>\<open>None\<close> while the memory is uninitialised\<close>

definition early_init_new :: "'a early_init" where
  "early_init_new = \<lparr>init = UNINIT, init_value = None\<rparr>"

definition compare_and_swap :: "init_state \<Rightarrow> init_state \<Rightarrow> 'a early_init \<Rightarrow> init_state \<times> 'a early_init" where
  "compare_and_swap old new e = (init e, if init e = old then e\<lparr>init := new\<rparr> else e)"

definition early_init_set :: "'a early_init \<Rightarrow> 'a \<Rightarrow> 'a early_init option" where
  "early_init_set e v =
     (case compare_and_swap UNINIT MIDINIT e of (previous, e) \<Rightarrow>
        if previous \<noteq> UNINIT then None   \<comment> \<open>called EarlyInit::set twice on same value!\<close>
        else let e = e\<lparr>init_value := Some v\<rparr> in Some (e\<lparr>init := SAFE\<rparr>))"

definition early_init_deref :: "'a early_init \<Rightarrow> 'a option" where
  "early_init_deref e = (if init e \<noteq> SAFE then None else init_value e)"

definition early_init_wf :: "'a early_init \<Rightarrow> bool" where
  "early_init_wf e \<longleftrightarrow> (init e = SAFE \<longrightarrow> init_value e \<noteq> None)"

section \<open>The machine\<close>

record 'a lock_state =
  eflags :: u64
  mutexes :: "nat \<Rightarrow> 'a mutex"
  guards :: "(nat \<times> bool) list"   \<comment> \<open>the guards alive, last taken first\<close>

abbreviation interrupts_on :: "u64 \<Rightarrow> bool" where
  "interrupts_on f \<equiv> bit f 9"

inductive lock_step :: "'a lock_state \<Rightarrow> 'a lock_state \<Rightarrow> bool" where
  take_lock: "mutex_lock (mutexes s i) (eflags s) = Some (g, m, f) \<Longrightarrow>
    lock_step s (s\<lparr>eflags := f, mutexes := (mutexes s)(i := m), guards := (i, g) # guards s\<rparr>)"
| write_value: "(i, g) \<in> set (guards s) \<Longrightarrow>
    lock_step s (s\<lparr>mutexes := (mutexes s)(i := (mutexes s i)\<lparr>mutex_value := v\<rparr>)\<rparr>)"
| drop_guard: "guards s = (i, g) # gs \<Longrightarrow> guard_drop g (mutexes s i) (eflags s) = (m, f) \<Longrightarrow>
    lock_step s (s\<lparr>eflags := f, mutexes := (mutexes s)(i := m), guards := gs\<rparr>)"

inductive_cases lock_stepE: "lock_step s t"

definition lock_init :: "'a lock_state \<Rightarrow> bool" where
  "lock_init s \<longleftrightarrow> guards s = [] \<and> (\<forall>i. \<not> mutex_locked (mutexes s i))"

definition lock_inv :: "bool \<Rightarrow> 'a lock_state \<Rightarrow> bool" where
  "lock_inv f0 s \<longleftrightarrow> distinct (map fst (guards s)) \<and>
     (\<forall>i. mutex_locked (mutexes s i) \<longleftrightarrow> i \<in> fst ` set (guards s)) \<and>
     (if guards s = [] then interrupts_on (eflags s) = f0
      else \<not> interrupts_on (eflags s) \<and> snd (last (guards s)) = f0 \<and>
           (\<forall>x \<in> set (butlast (guards s)). \<not> snd x))"

section \<open>Lemmas\<close>

lemma bit_FLAG_IF: "bit FLAG_IF n \<longleftrightarrow> n = 9"
proof -
  have "FLAG_IF = 2 ^ 9" by (simp add: FLAG_IF_def push_bit_eq_mult)
  then have "bit FLAG_IF n \<longleftrightarrow> bit (2 ^ 9 :: u64) n" by (simp only:)
  also have "\<dots> \<longleftrightarrow> n = 9" unfolding bit_exp_iff by auto
  finally show ?thesis .
qed

lemma flag_if_bit: "f AND FLAG_IF \<noteq> 0 \<longleftrightarrow> interrupts_on f"
proof -
  have "bit (f AND FLAG_IF) n \<longleftrightarrow> n = 9 \<and> interrupts_on f" for n
    by (auto simp: bit_and_iff bit_FLAG_IF)
  then show ?thesis by (metis bit_eq_iff bit_0_eq bot_apply bot_bool_def)
qed

lemma cli_bit [simp]: "\<not> interrupts_on (cli f)"
  by (simp add: cli_def bit_and_iff bit_not_iff bit_FLAG_IF)

lemma sti_bit [simp]: "interrupts_on (sti f)"
  by (simp add: sti_def bit_or_iff bit_FLAG_IF)

lemma cli_sti_other: "n \<noteq> 9 \<Longrightarrow> bit (cli f) n = bit f n" "n \<noteq> 9 \<Longrightarrow> bit (sti f) n = bit f n"
  by (auto simp: cli_def sti_def bit_and_iff bit_or_iff bit_not_iff bit_FLAG_IF dest: bit_imp_le_length)

lemma begin_drop: "critical_drop (fst (critical_begin f)) (snd (critical_begin f)) = f"
proof (rule bit_word_eqI)
  fix n assume n: "n < LENGTH(64)"
  show "bit (critical_drop (fst (critical_begin f)) (snd (critical_begin f))) n = bit f n"
    by (cases "n = 9") (auto simp: critical_drop_def critical_begin_def flag_if_bit cli_sti_other)
qed

lemma mutex_lock_cases:
  "mutex_lock m f = (if mutex_locked m then None
     else Some (interrupts_on f, m\<lparr>mutex_locked := True\<rparr>, cli f))"
  by (simp add: mutex_lock_def critical_begin_def is_locked_def flag_if_bit)

lemma lock_inv_step:
  assumes "lock_step s t" "lock_inv f0 s"
  shows "lock_inv f0 t"
  using assms
proof (cases rule: lock_step.cases)
  case (take_lock i g m f)
  have e: "\<not> mutex_locked (mutexes s i)" "g = interrupts_on (eflags s)"
    "m = (mutexes s i)\<lparr>mutex_locked := True\<rparr>" "f = cli (eflags s)"
    using take_lock(2) by (auto simp: mutex_lock_cases split: if_splits)
  show ?thesis
    using assms(2) e take_lock(1) by (cases "guards s = []") (auto simp: lock_inv_def image_iff)
next
  case (write_value i g v)
  then show ?thesis using assms(2) by (auto simp: lock_inv_def)
next
  case (drop_guard i g gs m f)
  have e: "m = (mutexes s i)\<lparr>mutex_locked := False\<rparr>" "f = critical_drop g (eflags s)"
    using drop_guard(3) by (auto simp: guard_drop_def)
  show ?thesis
  proof (cases gs)
    case Nil
    then show ?thesis
      using assms(2) drop_guard(1,2) e by (auto simp: lock_inv_def critical_drop_def)
  next
    case (Cons x xs)
    then show ?thesis
      using assms(2) drop_guard(1,2) e by (auto simp: lock_inv_def critical_drop_def image_iff)
  qed
qed

lemma lock_inv_reachable:
  assumes "lock_step\<^sup>*\<^sup>* s t" "lock_inv f0 s"
  shows "lock_inv f0 t"
  using assms by (induction rule: rtranclp_induct) (auto intro: lock_inv_step)

lemma lock_inv_init: "lock_init s \<Longrightarrow> lock_inv (interrupts_on (eflags s)) s"
  by (auto simp: lock_init_def lock_inv_def)


section \<open>Properties\<close>

definition sample_locks :: "nat lock_state" where
  "sample_locks = \<lparr>eflags = 0x202, mutexes = (\<lambda>i. mutex_new i), guards = []\<rparr>"

lemma sample_locks_init: "lock_init sample_locks"
  by (simp add: lock_init_def sample_locks_def mutex_new_def)

text \<open>C10: Mutual exclusion.  In every state that the kernel reaches by taking locks, writing
  through guards and dropping guards in reverse order, interrupts are off while any guard is
  alive, a mutex is locked exactly when its guard is alive, no mutex has two guards, and when the
  last guard is dropped the interrupt flag is what it was before the first lock.\<close>

theorem mutex_mutual_exclusion:
  assumes "lock_init s" "lock_step\<^sup>*\<^sup>* s t"
  shows "(guards t \<noteq> [] \<longrightarrow> \<not> interrupts_on (eflags t)) \<and>
     (guards t = [] \<longrightarrow> interrupts_on (eflags t) = interrupts_on (eflags s)) \<and>
     (\<forall>i. mutex_locked (mutexes t i) \<longleftrightarrow> i \<in> fst ` set (guards t)) \<and> distinct (map fst (guards t))"
  using lock_inv_reachable [OF assms(2) lock_inv_init [OF assms(1)]]
  by (auto simp: lock_inv_def split: if_splits)

theorem mutex_mutual_exclusion_witness:
  "\<exists>t. lock_step\<^sup>*\<^sup>* sample_locks t \<and> guards t = [(7, True)] \<and> \<not> interrupts_on (eflags t)"
proof -
  have b: "interrupts_on (eflags sample_locks)"
    using flag_if_bit [of "0x202"] by (simp add: sample_locks_def FLAG_IF_def push_bit_eq_mult)
  then have l: "mutex_lock (mutexes sample_locks 7) (eflags sample_locks) =
      Some (True, (mutexes sample_locks 7)\<lparr>mutex_locked := True\<rparr>, cli (eflags sample_locks))"
    by (simp add: mutex_lock_cases) (simp add: sample_locks_def mutex_new_def)
  define t where "t = sample_locks\<lparr>eflags := cli (eflags sample_locks),
      mutexes := (mutexes sample_locks)(7 := (mutexes sample_locks 7)\<lparr>mutex_locked := True\<rparr>),
      guards := (7, True) # guards sample_locks\<rparr>"
  have st: "lock_step\<^sup>*\<^sup>* sample_locks t" using take_lock [OF l] by (simp add: t_def)
  have "guards t = [(7, True)]" by (simp add: t_def sample_locks_def)
  then show ?thesis using mutex_mutual_exclusion [OF sample_locks_init st] st by auto
qed

text \<open>A critical section is transparent: \<open>section\<close> runs its body with interrupts off and, if the
  body leaves the flags register as it found it, the caller gets the flags register back bit by
  bit, whether interrupts were on or off, so that sections nest.\<close>

lemma critical_section_restores_flags:
  assumes "f (cli fl, s) = (r, cli fl, s')"
  shows "critical_section f (fl, s) = (r, fl, s') \<and> \<not> interrupts_on (cli fl)"
proof -
  have "snd (critical_begin fl) = cli fl" by (simp add: critical_begin_def)
  then show ?thesis
    using assms begin_drop [of fl] by (simp add: critical_section_def split_beta)
qed

lemma critical_section_restores_flags_witness:
  "critical_section (critical_section (\<lambda>(fl, n). (fl, fl, Suc n))) (0x202, 4) = (0x2, 0x202, 5)"
proof -
  let ?body = "\<lambda>(fl :: u64, n). (fl, fl, Suc n)"
  have c: "cli (0x202) = (0x2 :: u64)" "cli 2 = (0x2 :: u64)" by (simp_all add: cli_def FLAG_IF_def push_bit_eq_mult)
  have "critical_section ?body (cli 0x202, 4) = (0x2, cli 0x202, 5)"
    using critical_section_restores_flags [of ?body "0x2" 4 "0x2" 5] c by simp
  from critical_section_restores_flags [of "critical_section ?body" "0x202" 4 "0x2" 5, OF this]
  show ?thesis by simp
qed

text \<open>\<open>EarlyInit\<close> is a one-shot cell: reading before the first \<open>set\<close> panics, the first \<open>set\<close>
  succeeds and its value is what every later read returns, and a second \<open>set\<close> panics.\<close>

lemma early_init_one_shot:
  "early_init_deref early_init_new = None \<and>
   (\<exists>e. early_init_set early_init_new v = Some e \<and> early_init_deref e = Some v \<and>
        early_init_set e w = None)"
  by (simp add: early_init_deref_def early_init_new_def early_init_set_def compare_and_swap_def)

end
