(* ===== verification/Atomic_List.thy ===== *)
theory Atomic_List
  imports Crab_Prelude "HOL-Library.Multiset"
begin

text \<open>
  The lock-free list of \<open>kernel/src/util/atomic_list.rs\<close>, as a machine whose steps are the
  single atomic accesses of the source, in any interleaving of any number of tasks.

  Items live in blocks of the heap.  \<open>avail\<close> counts how often a block can be handed out, which is how often it is in the
  free list of its size class; an allocation takes one of these and a release adds one.  The iterator
  releases the block of an item through \<open>Box::into_inner\<close>, which frees it and then drops the box that it still
  owns, so that the block is freed twice (\<open>alloc_collections/src/boxed.rs\<close>; \<open>Heap_Objects\<close> has the same on the
  bytes of the heap).  A block can then be handed out while it is in use.

  The step relation takes the condition \<open>ok\<close> on the blocks that allocations return: \<open>\<lambda>s n. True\<close> is the code on its
  allocator, and \<open>unused\<close> is the contract of an allocator, under which the list is correct.
\<close>

datatype pusher =
    NoPush
  | Loading nat              \<comment> \<open>about to load \<open>head\<close>, with the address of the new item\<close>
  | Storing nat "nat option" \<comment> \<open>about to store \<open>next\<close>\<close>
  | Swapping nat "nat option" \<comment> \<open>about to compare and swap\<close>

record 'a atomic_list =
  list_head :: "nat option"
  item_next :: "nat \<Rightarrow> nat option"
  item_value :: "nat \<Rightarrow> 'a"
  pushers :: "nat \<Rightarrow> pusher"
  iters :: "nat \<Rightarrow> nat option"
  avail :: "nat \<Rightarrow> nat"

definition list_new :: "'a atomic_list \<Rightarrow> bool" where
  "list_new s \<longleftrightarrow> list_head s = None \<and> pushers s = (\<lambda>_. NoPush) \<and> iters s = (\<lambda>_. None)"

section \<open>The operations, one definition per atomic access\<close>

definition push_alloc :: "nat \<Rightarrow> 'a \<Rightarrow> nat \<Rightarrow> 'a atomic_list \<Rightarrow> 'a atomic_list" where
  "push_alloc p x n s = s\<lparr>item_next := (item_next s)(n := None), item_value := (item_value s)(n := x),
     pushers := (pushers s)(p := Loading n), avail := (avail s)(n := avail s n - 1)\<rparr>"

definition push_load :: "nat \<Rightarrow> nat \<Rightarrow> 'a atomic_list \<Rightarrow> 'a atomic_list" where
  "push_load p n s = s\<lparr>pushers := (pushers s)(p := Storing n (list_head s))\<rparr>"

definition push_store :: "nat \<Rightarrow> nat \<Rightarrow> nat option \<Rightarrow> 'a atomic_list \<Rightarrow> 'a atomic_list" where
  "push_store p n h s = s\<lparr>item_next := (item_next s)(n := h),
     pushers := (pushers s)(p := Swapping n h)\<rparr>"

definition push_cas :: "nat \<Rightarrow> nat \<Rightarrow> nat option \<Rightarrow> 'a atomic_list \<Rightarrow> 'a atomic_list" where
  "push_cas p n h s =
     (if list_head s = h
      then s\<lparr>list_head := Some n, pushers := (pushers s)(p := NoPush)\<rparr>
      else s\<lparr>pushers := (pushers s)(p := Loading n)\<rparr>)"

text \<open>The next access of a task inside \<open>push_front\<close>; the call returns when its state is \<open>NoPush\<close> again.\<close>

definition push_next :: "nat \<Rightarrow> 'a atomic_list \<Rightarrow> 'a atomic_list" where
  "push_next p s =
     (case pushers s p of
        NoPush \<Rightarrow> s
      | Loading n \<Rightarrow> push_load p n s
      | Storing n h \<Rightarrow> push_store p n h s
      | Swapping n h \<Rightarrow> push_cas p n h s)"

definition take_iter :: "nat \<Rightarrow> 'a atomic_list \<Rightarrow> 'a atomic_list" where
  "take_iter q s = s\<lparr>list_head := None, iters := (iters s)(q := list_head s)\<rparr>"

definition release :: "nat \<Rightarrow> 'a atomic_list \<Rightarrow> 'a atomic_list" where
  "release n s = s\<lparr>avail := (avail s)(n := Suc (avail s n))\<rparr>"

text \<open>\<open>Box::into_inner\<close>: the value is read, the block freed, and freed again when the parameter goes
  out of scope.\<close>

definition item_into_inner :: "nat \<Rightarrow> 'a atomic_list \<Rightarrow> nat option \<times> 'a \<times> 'a atomic_list" where
  "item_into_inner n s = (item_next s n, item_value s n, release n (release n s))"

definition iter_list_next :: "nat \<Rightarrow> 'a atomic_list \<Rightarrow> 'a option \<times> 'a atomic_list" where
  "iter_list_next q s =
     (case iters s q of
        None \<Rightarrow> (None, s)
      | Some n \<Rightarrow>
          (case item_into_inner n (s\<lparr>iters := (iters s)(q := None)\<rparr>) of
             (nx, x, s) \<Rightarrow> (Some x, s\<lparr>iters := (iters s)(q := nx)\<rparr>)))"

section \<open>Runs\<close>

text \<open>What is seen of a step: the call of \<open>push_front\<close> with the block it got, its failure, its return, the
  calls of \<open>take_iter\<close>, and the calls of \<open>next\<close> with their results.\<close>

datatype 'a list_event =
    PushStart nat nat 'a | PushErr nat 'a | PushDone nat 'a | Internal | TakeIter nat | Next nat "'a option"

text \<open>The block and the value of a push that has not returned.\<close>

definition own_block :: "'a atomic_list \<Rightarrow> nat \<Rightarrow> nat option" where
  "own_block s p = (case pushers s p of NoPush \<Rightarrow> None | Loading n \<Rightarrow> Some n | Storing n _ \<Rightarrow> Some n | Swapping n _ \<Rightarrow> Some n)"

inductive list_step :: "('a atomic_list \<Rightarrow> nat \<Rightarrow> bool) \<Rightarrow> 'a atomic_list \<Rightarrow> 'a list_event \<Rightarrow> 'a atomic_list \<Rightarrow> bool"
  for ok where
  start: "pushers s p = NoPush \<Longrightarrow> 0 < avail s n \<Longrightarrow> ok s n \<Longrightarrow>
    list_step ok s (PushStart p n x) (push_alloc p x n s)"
| refuse: "pushers s p = NoPush \<Longrightarrow> list_step ok s (PushErr p x) s"
| push: "own_block s p = Some n \<Longrightarrow>
    list_step ok s (if pushers (push_next p s) p = NoPush then PushDone p (item_value s n) else Internal) (push_next p s)"
| take: "iters s q = None \<Longrightarrow> list_step ok s (TakeIter q) (take_iter q s)"
| next_item: "list_step ok s (Next q (fst (iter_list_next q s))) (snd (iter_list_next q s))"

text \<open>Sequences of steps with the list of their events, for any machine with events.\<close>

inductive runs :: "('s \<Rightarrow> 'e \<Rightarrow> 's \<Rightarrow> bool) \<Rightarrow> 's \<Rightarrow> 'e list \<Rightarrow> 's \<Rightarrow> bool" for stp s where
  none: "runs stp s [] s"
| step: "runs stp s tr t \<Longrightarrow> stp t e u \<Longrightarrow> runs stp s (tr @ [e]) u"

lemma run_one: "stp s e t \<Longrightarrow> runs stp s [e] t"
  using runs.step [OF runs.none, of stp s e t] by simp

abbreviation list_run :: "('a atomic_list \<Rightarrow> nat \<Rightarrow> bool) \<Rightarrow> 'a atomic_list \<Rightarrow> 'a list_event list \<Rightarrow> 'a atomic_list \<Rightarrow> bool" where
  "list_run ok \<equiv> runs (list_step ok)"

text \<open>A machine with events refines a specification that says what each event does.\<close>

locale event_refinement =
  fixes stp :: "'s \<Rightarrow> 'e \<Rightarrow> 's \<Rightarrow> bool" and spec :: "'e \<Rightarrow> 'a \<Rightarrow> 'a option" and rep :: "'s \<Rightarrow> 'a \<Rightarrow> bool"
  assumes sim: "rep s a \<Longrightarrow> stp s e t \<Longrightarrow> \<exists>b. spec e a = Some b \<and> rep t b"
begin

lemma sim_runs:
  assumes "runs stp s tr t" "rep s a"
  shows "\<exists>b. fold_opt spec tr a = Some b \<and> rep t b"
  using assms
proof (induction rule: runs.induct)
  case (step tr t e u)
  then obtain b where "fold_opt spec tr a = Some b" "rep t b" by blast
  moreover from this obtain c where "spec e b = Some c" "rep u c" using sim step.hyps(2) by blast
  ultimately show ?case by (auto simp: fold_opt_append)
qed simp

end

text \<open>The blocks that a walk from a pointer meets, the blocks in use, and the walk when it ends.\<close>

inductive reach :: "(nat \<Rightarrow> nat option) \<Rightarrow> nat option \<Rightarrow> nat \<Rightarrow> bool" for nx where
  here: "reach nx (Some n) n"
| there: "reach nx (nx m) n \<Longrightarrow> reach nx (Some m) n"

definition unused :: "'a atomic_list \<Rightarrow> nat \<Rightarrow> bool" where
  "unused s n \<longleftrightarrow> \<not> reach (item_next s) (list_head s) n \<and> (\<forall>q. \<not> reach (item_next s) (iters s q) n) \<and>
     (\<forall>p. own_block s p \<noteq> Some n)"

inductive chain :: "(nat \<Rightarrow> nat option) \<Rightarrow> nat option \<Rightarrow> nat list \<Rightarrow> bool" where
  chain_nil: "chain nx None []"
| chain_cons: "chain nx (nx n) ns \<Longrightarrow> chain nx (Some n) (n # ns)"

inductive_cases chain_NoneE: "chain nx None ns"
inductive_cases chain_SomeE: "chain nx (Some n) ns"
inductive_cases reach_NoneE: "reach nx None n"
inductive_cases reach_SomeE: "reach nx (Some m) n"

section \<open>The specification: a stack\<close>

text \<open>Pushes in flight, the stack, and what each iterator has still to return.  Each event has
  one effect; an event that the specification does not allow is \<open>None\<close>.\<close>

record 'a stack_spec =
  in_flight :: "nat \<Rightarrow> 'a option"
  stack :: "'a list"
  taken :: "nat \<Rightarrow> 'a list"

definition spec_new :: "'a stack_spec" where
  "spec_new = \<lparr>in_flight = (\<lambda>_. None), stack = [], taken = (\<lambda>_. [])\<rparr>"

fun spec_step :: "'a list_event \<Rightarrow> 'a stack_spec \<Rightarrow> 'a stack_spec option" where
  "spec_step (PushStart p n x) a =
     (if in_flight a p = None then Some (a\<lparr>in_flight := (in_flight a)(p \<mapsto> x)\<rparr>) else None)"
| "spec_step (PushErr p x) a = (if in_flight a p = None then Some a else None)"
| "spec_step (PushDone p x) a =
     (if in_flight a p = Some x then Some (a\<lparr>in_flight := (in_flight a)(p := None), stack := x # stack a\<rparr>) else None)"
| "spec_step Internal a = Some a"
| "spec_step (TakeIter q) a =
     (if taken a q = [] then Some (a\<lparr>taken := (taken a)(q := stack a), stack := []\<rparr>) else None)"
| "spec_step (Next q r) a =
     (case (taken a q, r) of
        ([], None) \<Rightarrow> Some a
      | (x # xs, Some y) \<Rightarrow> if x = y then Some (a\<lparr>taken := (taken a)(q := xs)\<rparr>) else None
      | _ \<Rightarrow> None)"

text \<open>The specification state that a state of the list represents: every walk ends.\<close>

definition represents :: "'a atomic_list \<Rightarrow> 'a stack_spec \<Rightarrow> bool" where
  "represents s a \<longleftrightarrow>
     (\<exists>ns. chain (item_next s) (list_head s) ns \<and> distinct ns \<and> stack a = map (item_value s) ns) \<and>
     (\<forall>q. \<exists>ns. chain (item_next s) (iters s q) ns \<and> distinct ns \<and> taken a q = map (item_value s) ns) \<and>
     (\<forall>p. in_flight a p = map_option (item_value s) (own_block s p))"

fun pushed :: "'a list_event list \<Rightarrow> 'a list" where
  "pushed [] = []"
| "pushed (PushDone p x # tr) = x # pushed tr"
| "pushed (_ # tr) = pushed tr"

fun yielded :: "'a list_event list \<Rightarrow> 'a list" where
  "yielded [] = []"
| "yielded (Next q (Some x) # tr) = x # yielded tr"
| "yielded (_ # tr) = yielded tr"

text \<open>Everything that is in the list or in an iterator.\<close>

definition held :: "'a stack_spec \<Rightarrow> 'a multiset" where
  "held a = mset (stack a) + (\<Sum>q \<in> {q. taken a q \<noteq> []}. mset (taken a q))"

section \<open>The invariant\<close>

text \<open>\<open>ow\<close> says for the blocks in use who owns them: the list, an iterator or a push; so no block has two owners.\<close>

datatype list_owner = InList | InIter nat | InPush nat

definition list_inv :: "'a atomic_list \<Rightarrow> (nat \<Rightarrow> list_owner) \<Rightarrow> nat list \<Rightarrow> (nat \<Rightarrow> nat list) \<Rightarrow> bool" where
  "list_inv s ow ns js \<longleftrightarrow> chain (item_next s) (list_head s) ns \<and> distinct ns \<and>
     (\<forall>n \<in> set ns. ow n = InList) \<and>
     (\<forall>q. chain (item_next s) (iters s q) (js q) \<and> distinct (js q) \<and> (\<forall>n \<in> set (js q). ow n = InIter q)) \<and>
     (\<forall>p n. own_block s p = Some n \<longrightarrow> ow n = InPush p) \<and>
     (\<forall>p n h. pushers s p = Swapping n h \<longrightarrow> item_next s n = h)"

definition abs_of :: "'a atomic_list \<Rightarrow> nat list \<Rightarrow> (nat \<Rightarrow> nat list) \<Rightarrow> 'a stack_spec" where
  "abs_of s ns js = \<lparr>in_flight = (\<lambda>p. map_option (item_value s) (own_block s p)), stack = map (item_value s) ns,
     taken = (\<lambda>q. map (item_value s) (js q))\<rparr>"

lemma chain_cong: "chain nx h ns \<Longrightarrow> (\<And>n. n \<in> set ns \<Longrightarrow> nx' n = nx n) \<Longrightarrow> chain nx' h ns"
  by (induction rule: chain.induct) (auto intro: chain.intros)

lemma chain_upd: "chain nx h ns \<Longrightarrow> n \<notin> set ns \<Longrightarrow> chain (nx(n := v)) h ns"
  by (erule chain_cong) auto

lemma chain_reach: "chain nx h ns \<Longrightarrow> n \<in> set ns \<Longrightarrow> reach nx h n"
  by (induction rule: chain.induct) (auto intro: reach.intros)

lemma list_inv_new: "list_new s \<Longrightarrow> list_inv s (\<lambda>_. InList) [] (\<lambda>_. []) \<and> abs_of s [] (\<lambda>_. []) = spec_new"
  by (auto simp: list_new_def list_inv_def own_block_def abs_of_def spec_new_def intro: chain_nil)

lemma list_inv_represents: "list_inv s ow ns js \<Longrightarrow> represents s (abs_of s ns js)"
  by (auto simp: list_inv_def represents_def abs_of_def)

lemma step_start:
  assumes inv: "list_inv s ow ns js" and p: "pushers s p = NoPush" and n: "unused s n"
  shows "list_inv (push_alloc p x n s) (ow(n := InPush p)) ns js \<and>
     spec_step (PushStart p n x) (abs_of s ns js) = Some (abs_of (push_alloc p x n s) ns js)"
proof -
  let ?t = "push_alloc p x n s"
  have nn: "n \<notin> set ns" "\<And>q. n \<notin> set (js q)" "\<And>p. own_block s p \<noteq> Some n"
    using inv n chain_reach by (fastforce simp: list_inv_def unused_def)+
  have own: "own_block ?t r = (if r = p then Some n else own_block s r)" for r
    by (simp add: own_block_def push_alloc_def)
  have "list_inv ?t (ow(n := InPush p)) ns js"
    unfolding list_inv_def
  proof (intro conjI allI impI)
    show "chain (item_next ?t) (list_head ?t) ns"
      using inv nn chain_upd by (simp add: push_alloc_def list_inv_def)
    show "chain (item_next ?t) (iters ?t q) (js q)" for q
      using inv nn(2) [of q] chain_upd by (simp add: push_alloc_def list_inv_def)
    show "item_next ?t m = h" if "pushers ?t r = Swapping m h" for r m h
      using inv nn(3) [of r] that by (auto simp: push_alloc_def list_inv_def own_block_def split: if_splits)
    show "(ow(n := InPush p)) m = InPush r" if "own_block ?t r = Some m" for r m
      using inv nn(3) [of r] that by (auto simp: own list_inv_def split: if_splits)
  qed (use inv nn in \<open>auto simp: push_alloc_def list_inv_def\<close>)
  moreover have "in_flight (abs_of s ns js) p = None" using p by (simp add: abs_of_def own_block_def)
  moreover have "map_option (item_value ?t) (own_block ?t r) = (if r = p then Some x else map_option (item_value s) (own_block s r))" for r
    using nn(3) [of r] unfolding own by (cases "own_block s r") (simp_all add: push_alloc_def)
  moreover have "map (item_value ?t) ns = map (item_value s) ns" "(\<lambda>q. map (item_value ?t) (js q)) = (\<lambda>q. map (item_value s) (js q))"
    using nn by (auto simp: push_alloc_def)
  ultimately show ?thesis by (simp add: abs_of_def fun_upd_def)
qed

text \<open>A block has one owner.\<close>

lemma own_apart:
  assumes "list_inv s ow ns js" "own_block s p = Some n"
  shows "n \<notin> set ns" "n \<notin> set (js q)" "own_block s r = Some n \<Longrightarrow> r = p"
proof -
  have o: "ow n = InPush p" using assms by (simp add: list_inv_def)
  show "n \<notin> set ns"
  proof
    assume "n \<in> set ns"
    then have "ow n = InList" using assms(1) by (simp add: list_inv_def)
    then show False using o by simp
  qed
  show "n \<notin> set (js q)"
  proof
    assume "n \<in> set (js q)"
    then have "ow n = InIter q" using assms(1) by (simp add: list_inv_def)
    then show False using o by simp
  qed
  show "r = p" if "own_block s r = Some n"
  proof -
    have "ow n = InPush r" using assms(1) that by (simp add: list_inv_def)
    then show ?thesis using o by simp
  qed
qed

text \<open>A step that changes only where a push is.\<close>

lemma step_pusher:
  assumes inv: "list_inv s ow ns js" and t: "t = s\<lparr>pushers := (pushers s)(p := v)\<rparr>"
    and own: "own_block t p = own_block s p" and v: "\<And>n h. v \<noteq> Swapping n h"
  shows "list_inv t ow ns js" "abs_of t ns js = abs_of s ns js"
proof -
  have o: "own_block t = own_block s"
  proof
    show "own_block t r = own_block s r" for r using own by (cases "r = p") (simp_all add: own_block_def t)
  qed
  have f: "item_next t = item_next s" "list_head t = list_head s" "iters t = iters s" "item_value t = item_value s" by (simp_all add: t)
  have sw: "\<forall>r m h. pushers t r = Swapping m h \<longrightarrow> item_next s m = h"
    using inv v by (auto simp: list_inv_def t)
  show "list_inv t ow ns js" using inv sw unfolding list_inv_def o f by blast
  show "abs_of t ns js = abs_of s ns js" by (simp add: abs_of_def o f)
qed

lemma step_store:
  assumes inv: "list_inv s ow ns js" and p: "pushers s p = Storing n h"
  shows "list_inv (push_store p n h s) ow ns js \<and> abs_of (push_store p n h s) ns js = abs_of s ns js"
proof -
  let ?t = "push_store p n h s"
  have own: "own_block ?t r = own_block s r" for r using p by (simp add: own_block_def push_store_def)
  have op: "own_block s p = Some n" using p by (simp add: own_block_def)
  note nn = own_apart [OF inv op]
  have "list_inv ?t ow ns js"
    unfolding list_inv_def own
  proof (intro conjI allI impI)
    show "chain (item_next ?t) (list_head ?t) ns"
      using inv nn chain_upd by (simp add: push_store_def list_inv_def)
    show "chain (item_next ?t) (iters ?t q) (js q)" for q
      using inv nn(2) [of q] chain_upd by (simp add: push_store_def list_inv_def)
    show "item_next ?t m = g" if sw: "pushers ?t r = Swapping m g" for r m g
    proof (cases "r = p")
      case False
      then have "pushers s r = Swapping m g" using sw by (simp add: push_store_def)
      moreover from this have "own_block s r = Some m" by (simp add: own_block_def)
      ultimately show ?thesis using inv nn(3) [of r] False by (auto simp: push_store_def list_inv_def)
    qed (use sw in \<open>auto simp: push_store_def\<close>)
  qed (use inv in \<open>auto simp: push_store_def list_inv_def\<close>)
  moreover have "item_value ?t = item_value s" by (simp add: push_store_def)
  ultimately show ?thesis by (simp add: abs_of_def own)
qed

lemma step_cas_done:
  assumes inv: "list_inv s ow ns js" and p: "pushers s p = Swapping n h" and eq: "list_head s = h"
  shows "list_inv (push_cas p n h s) (ow(n := InList)) (n # ns) js \<and>
     spec_step (PushDone p (item_value s n)) (abs_of s ns js) = Some (abs_of (push_cas p n h s) (n # ns) js)"
proof -
  let ?t = "push_cas p n h s"
  have t: "?t = s\<lparr>list_head := Some n, pushers := (pushers s)(p := NoPush)\<rparr>" using eq by (simp add: push_cas_def)
  have own: "own_block ?t r = (if r = p then None else own_block s r)" for r by (simp add: own_block_def t)
  have op: "own_block s p = Some n" using p by (simp add: own_block_def)
  note nn = own_apart [OF inv op]
  have "list_inv ?t (ow(n := InList)) (n # ns) js"
    unfolding list_inv_def
  proof (intro conjI allI impI)
    show "chain (item_next ?t) (list_head ?t) (n # ns)"
      using inv p eq by (auto simp: t list_inv_def intro: chain_cons)
    show "(ow(n := InList)) m = InPush r" if "own_block ?t r = Some m" for r m
      using inv that nn(3) [of r] by (auto simp: own list_inv_def split: if_splits)
    show "item_next ?t m = g" if "pushers ?t r = Swapping m g" for r m g
      using inv that by (auto simp: t list_inv_def split: if_splits)
  qed (use inv nn in \<open>auto simp: t list_inv_def\<close>)
  moreover have "item_value ?t = item_value s" by (simp add: t)
  moreover have "(\<lambda>r. map_option (item_value s) (own_block ?t r)) = (\<lambda>r. map_option (item_value s) (own_block s r))(p := None)"
    by (simp add: fun_eq_iff own)
  ultimately show ?thesis using op by (simp add: abs_of_def)
qed

lemma step_take:
  assumes inv: "list_inv s ow ns js" and q: "iters s q = None"
  shows "list_inv (take_iter q s) (\<lambda>n. if n \<in> set ns then InIter q else ow n) [] (js(q := ns)) \<and>
     spec_step (TakeIter q) (abs_of s ns js) = Some (abs_of (take_iter q s) [] (js(q := ns)))"
proof -
  let ?t = "take_iter q s"
  have jq: "js q = []" using inv q chain_NoneE by (metis list_inv_def)
  have own: "own_block ?t = own_block s" by (simp add: fun_eq_iff own_block_def take_iter_def)
  have "list_inv ?t (\<lambda>n. if n \<in> set ns then InIter q else ow n) [] (js(q := ns))"
    unfolding list_inv_def own
  proof (intro conjI allI impI)
    show "(if n \<in> set ns then InIter q else ow n) = InPush r" if "own_block s r = Some n" for r n
      using inv that by (auto simp: list_inv_def)
  qed (use inv jq in \<open>auto simp: take_iter_def list_inv_def intro: chain_nil\<close>)
  moreover have "item_value ?t = item_value s" by (simp add: take_iter_def)
  moreover have "(\<lambda>r. map (item_value s) ((js(q := ns)) r)) = (\<lambda>r. map (item_value s) (js r))(q := map (item_value s) ns)"
    by (simp add: fun_eq_iff)
  ultimately show ?thesis using jq by (simp add: abs_of_def own)
qed

lemma step_next:
  assumes inv: "list_inv s ow ns js"
  shows "\<exists>js'. list_inv (snd (iter_list_next q s)) ow ns js' \<and>
     spec_step (Next q (fst (iter_list_next q s))) (abs_of s ns js) = Some (abs_of (snd (iter_list_next q s)) ns js')"
proof (cases "iters s q")
  case None
  then have "js q = []" using inv chain_NoneE by (metis list_inv_def)
  then show ?thesis using inv None by (intro exI [of _ js]) (simp add: iter_list_next_def abs_of_def)
next
  case (Some n)
  let ?t = "snd (iter_list_next q s)"
  have t: "item_next ?t = item_next s" "item_value ?t = item_value s" "pushers ?t = pushers s" "list_head ?t = list_head s"
    "iters ?t = (iters s)(q := item_next s n)" "fst (iter_list_next q s) = Some (item_value s n)"
    using Some by (simp_all add: iter_list_next_def item_into_inner_def release_def)
  have own: "own_block ?t = own_block s" by (simp add: fun_eq_iff own_block_def t)
  have "chain (item_next s) (Some n) (js q)" using inv Some by (metis list_inv_def)
  then obtain ms where ms: "js q = n # ms" "chain (item_next s) (item_next s n) ms" by (auto elim: chain_SomeE)
  have jq: "\<forall>m \<in> set ms. ow m = InIter q" "distinct ms"
    using inv ms(1) by (auto simp: list_inv_def dest: spec [of _ q])
  have "list_inv ?t ow ns (js(q := ms))"
    using inv ms jq by (auto simp: list_inv_def own t)
  then show ?thesis
    using ms(1) by (intro exI [of _ "js(q := ms)"]) (auto simp: abs_of_def own t fun_eq_iff)
qed

lemma list_step_abs:
  assumes st: "list_step unused s e t" and inv: "list_inv s ow ns js"
  shows "\<exists>ow' ns' js'. list_inv t ow' ns' js' \<and> spec_step e (abs_of s ns js) = Some (abs_of t ns' js')"
  using st
proof (cases rule: list_step.cases)
  case (start p n x)
  then show ?thesis using step_start [OF inv] by blast
next
  case (refuse p x)
  then show ?thesis using inv by (auto simp: abs_of_def own_block_def)
next
  case (push p n)
  show ?thesis
  proof (cases "pushers t p = NoPush")
    case True
    then obtain h where h: "pushers s p = Swapping n h" "list_head s = h"
      using push by (cases "pushers s p")
        (auto simp: push_next_def push_load_def push_store_def push_cas_def own_block_def split: if_splits)
    then show ?thesis using step_cas_done [OF inv h] push True by (auto simp: push_next_def)
  next
    case False
    then have e: "e = Internal" using push by simp
    have "\<exists>ow. list_inv t ow ns js \<and> abs_of t ns js = abs_of s ns js"
    proof (cases "pushers s p")
      case (Storing m h)
      then show ?thesis using step_store [OF inv Storing] push(2) by (auto simp: push_next_def)
    next
      case (Loading m)
      then have t: "t = s\<lparr>pushers := (pushers s)(p := Storing m (list_head s))\<rparr>" using push(2) by (simp add: push_next_def push_load_def)
      from step_pusher [OF inv t] show ?thesis using t Loading by (simp add: own_block_def) blast
    next
      case (Swapping m h)
      then have t: "t = s\<lparr>pushers := (pushers s)(p := Loading m)\<rparr>"
        using push(2) False by (auto simp: push_next_def push_cas_def split: if_splits)
      from step_pusher [OF inv t] show ?thesis using t Swapping by (simp add: own_block_def) blast
    qed (use push(3) in \<open>simp add: own_block_def\<close>)
    then show ?thesis unfolding e spec_step.simps by metis
  qed
next
  case (take q)
  then show ?thesis using step_take [OF inv] by blast
next
  case (next_item q)
  then show ?thesis using step_next [OF inv] by blast
qed

definition list_fits :: "'a atomic_list \<Rightarrow> 'a stack_spec \<Rightarrow> bool" where
  "list_fits s a \<longleftrightarrow> (\<exists>ow ns js. list_inv s ow ns js \<and> a = abs_of s ns js)"

interpretation al: event_refinement "list_step unused" spec_step list_fits
proof
  fix s t :: "'a atomic_list" and e a
  assume "list_fits s a" "list_step unused s e t"
  then show "\<exists>b. spec_step e a = Some b \<and> list_fits t b"
    unfolding list_fits_def using list_step_abs [of s e t] by blast
qed

lemma list_fits_new: "list_new s \<Longrightarrow> list_fits s spec_new"
  unfolding list_fits_def using list_inv_new [of s] by (metis (mono_tags))

lemma list_fits_represents: "list_fits s a \<Longrightarrow> represents s a"
  using list_inv_represents by (auto simp: list_fits_def)

section \<open>Nothing is lost in the specification\<close>

lemma sum_taken:
  fixes f :: "nat \<Rightarrow> 'a list"
  assumes "finite {q. f q \<noteq> []}"
  shows "(\<Sum>q \<in> {q. (f(r := xs)) q \<noteq> []}. mset ((f(r := xs)) q)) + mset (f r) =
     (\<Sum>q \<in> {q. f q \<noteq> []}. mset (f q)) + mset xs"
proof -
  let ?A = "{q. f q \<noteq> []} - {r}"
  have fin: "finite ?A" using assms by simp
  have *: "(\<Sum>q \<in> {q. g q \<noteq> []}. mset (g q)) = (\<Sum>q \<in> ?A. mset (g q)) + mset (g r)"
    if "{q. g q \<noteq> []} - {r} = ?A" for g :: "nat \<Rightarrow> 'a list"
  proof (cases "g r = []")
    case True
    then have "{q. g q \<noteq> []} = ?A" using that by auto
    then show ?thesis using True by simp
  next
    case False
    then have "{q. g q \<noteq> []} = insert r ?A" using that by auto
    moreover have "(\<Sum>q \<in> insert r ?A. mset (g q)) = mset (g r) + (\<Sum>q \<in> ?A. mset (g q))"
      by (rule sum.insert [OF fin]) simp
    ultimately show ?thesis by (simp only: add.commute)
  qed
  have "{q. (f(r := xs)) q \<noteq> []} - {r} = ?A" by auto
  from * [OF this] * [of f] have "(\<Sum>q \<in> {q. (f(r := xs)) q \<noteq> []}. mset ((f(r := xs)) q)) = (\<Sum>q \<in> ?A. mset (f q)) + mset xs"
    "(\<Sum>q \<in> {q. f q \<noteq> []}. mset (f q)) = (\<Sum>q \<in> ?A. mset (f q)) + mset (f r)"
    by simp_all
  then show ?thesis by (simp only: ac_simps)
qed

lemma pushed_append [simp]: "pushed (tr @ us) = pushed tr @ pushed us"
  by (induction tr rule: pushed.induct) simp_all

lemma yielded_append [simp]: "yielded (tr @ us) = yielded tr @ yielded us"
  by (induction tr rule: yielded.induct) simp_all

lemma finite_upd: "finite {q. f q \<noteq> []} \<Longrightarrow> finite {q. (f(r := xs)) q \<noteq> []}"
  by (rule finite_subset [of _ "insert r {q. f q \<noteq> []}"]) auto

lemma spec_step_held:
  assumes "spec_step e a = Some b" "finite {q. taken a q \<noteq> []}"
  shows "finite {q. taken b q \<noteq> []} \<and> held a + mset (pushed [e]) = held b + mset (yielded [e])"
proof (cases e)
  case (TakeIter q)
  then have t: "taken a q = []" "b = a\<lparr>taken := (taken a)(q := stack a), stack := []\<rparr>"
    using assms(1) by (auto split: if_splits)
  then show ?thesis
    using TakeIter finite_upd [OF assms(2), of q] sum_taken [OF assms(2), of q "stack a"] by (simp add: held_def)
next
  case (Next q r)
  show ?thesis
  proof (cases r)
    case None
    then show ?thesis using Next assms by (auto split: list.splits)
  next
    case (Some x)
    then obtain xs where t: "taken a q = x # xs" "b = a\<lparr>taken := (taken a)(q := xs)\<rparr>"
      using assms(1) Next by (auto split: list.splits if_splits)
    then show ?thesis
      using Next Some finite_upd [OF assms(2), of q xs] sum_taken [OF assms(2), of q xs] by (simp add: held_def)
  qed
qed (use assms in \<open>auto simp: held_def split: if_splits\<close>)

lemma spec_run_held:
  assumes "fold_opt spec_step tr spec_new = Some a"
  shows "finite {q. taken a q \<noteq> []} \<and> mset (pushed tr) = held a + mset (yielded tr)"
  using assms
proof (induction tr arbitrary: a rule: rev_induct)
  case Nil
  then show ?case by (auto simp: spec_new_def held_def)
next
  case (snoc e tr)
  then obtain b where b: "fold_opt spec_step tr spec_new = Some b" "spec_step e b = Some a"
    by (auto simp: fold_opt_append option_monad)
  have "finite {q. taken b q \<noteq> []}" "mset (pushed tr) = held b + mset (yielded tr)" using snoc.IH [OF b(1)] by auto
  with spec_step_held [OF b(2)] show ?case by (simp add: ac_simps)
qed

section \<open>Whole calls\<close>

lemma list_run_append: "list_run ok t us u \<Longrightarrow> list_run ok s tr t \<Longrightarrow> list_run ok s (tr @ us) u"
  by (induction rule: runs.induct) (auto intro: runs.step simp flip: append_assoc)

definition after_push :: "nat \<Rightarrow> 'a \<Rightarrow> 'a atomic_list \<Rightarrow> 'a atomic_list" where
  "after_push n x s = s\<lparr>list_head := Some n, item_next := (item_next s)(n := list_head s), item_value := (item_value s)(n := x),
     avail := (avail s)(n := avail s n - 1)\<rparr>"

text \<open>\<open>push_front\<close> without interference.\<close>

lemma push_run:
  assumes p: "pushers s p = NoPush" and n: "0 < avail s n" "ok s n"
  shows "list_run ok s [PushStart p n x, Internal, Internal, PushDone p x] (after_push n x s)"
proof -
  define s1 where "s1 = push_alloc p x n s"
  define s2 where "s2 = push_load p n s1"
  define s3 where "s3 = push_store p n (list_head s) s2"
  have b: "pushers s1 p = Loading n" "pushers s2 p = Storing n (list_head s)" "pushers s3 p = Swapping n (list_head s)"
    by (simp_all add: s1_def s2_def s3_def push_alloc_def push_load_def push_store_def)
  have nx: "push_next p s1 = s2" "push_next p s2 = s3" by (simp_all add: push_next_def b) (simp_all add: s2_def s3_def)
  have "(pushers s)(p := NoPush) = pushers s" using p by (simp add: fun_upd_idem)
  then have fin: "push_next p s3 = after_push n x s" "pushers (after_push n x s) p = NoPush" "item_value s3 n = x"
    using p by (simp_all add: push_next_def b push_cas_def)
      (simp_all add: s1_def s2_def s3_def push_alloc_def push_load_def push_store_def after_push_def)
  have "list_step ok s (PushStart p n x) s1" unfolding s1_def using p n by (intro list_step.start)
  moreover have "list_step ok s1 Internal s2" "list_step ok s2 Internal s3" "list_step ok s3 (PushDone p x) (after_push n x s)"
    using list_step.push [of s1 p n ok] list_step.push [of s2 p n ok] list_step.push [of s3 p n ok]
    by (simp_all add: own_block_def b nx fin)
  ultimately have "list_run ok s (((([] @ [PushStart p n x]) @ [Internal]) @ [Internal]) @ [PushDone p x]) (after_push n x s)"
    by (intro runs.step) (rule runs.none)
  then show ?thesis by simp
qed

section \<open>Properties\<close>

text \<open>C11: \<open>AtomicList\<close> is a linearizable stack on a heap that keeps its contract.  Take any run, in any interleaving of any number of
  tasks, in which an allocation never returns a block that is still in use (blocks may be reused after
  their release, which is the delicate case of compare-and-swap loops).  Its observable events - which calls of \<open>push_front\<close> have
  started, failed and returned, the calls of \<open>take_iter\<close>, and every call of \<open>next\<close> with its result - are a run of the
  sequential stack, in which a push takes effect when it returns, \<open>take_iter\<close> moves the whole stack to its
  iterator and \<open>next\<close> returns the first item left there.  The list represents the state of that
  stack, and the items pushed so far are, counted with multiplicity, those returned by \<open>next\<close> and
  those still in the list or in an iterator: nothing is lost or duplicated.  The hypothesis on the heap is not an idle one:
  the iterator itself breaks it, as the next property shows.\<close>

theorem atomic_list_linearizable:
  assumes "list_new s0" "list_run unused s0 tr s"
  shows "\<exists>a. fold_opt spec_step tr spec_new = Some a \<and> represents s a \<and>
     mset (pushed tr) = held a + mset (yielded tr)"
proof -
  obtain a where a: "fold_opt spec_step tr spec_new = Some a" "list_fits s a"
    using al.sim_runs [OF assms(2) list_fits_new [OF assms(1)]] by blast
  then show ?thesis using list_fits_represents [OF a(2)] spec_run_held [OF a(1)] by blast
qed

definition sample_list :: "nat atomic_list" where
  "sample_list = \<lparr>list_head = None, item_next = (\<lambda>_. None), item_value = (\<lambda>_. 0), pushers = (\<lambda>_. NoPush),
     iters = (\<lambda>_. None), avail = (\<lambda>_. 1)\<rparr>"

lemma sample_list_new: "list_new sample_list"
  by (simp add: list_new_def sample_list_def)

lemma reach_none [simp]: "\<not> reach nx None n"
  by (auto elim: reach_NoneE)

text \<open>Two pushes into different blocks, then one item is taken out.\<close>

theorem atomic_list_linearizable_witness:
  "\<exists>tr s a. list_run unused sample_list tr s \<and> pushed tr = [42, 43] \<and> yielded tr = [43] \<and>
     fold_opt spec_step tr spec_new = Some a \<and> represents s a \<and> mset [42, 43] = held a + mset [43]"
proof -
  define s1 where "s1 = after_push 3 42 sample_list"
  define s2 where "s2 = after_push 4 43 s1"
  define s3 where "s3 = take_iter 7 s2"
  define s4 where "s4 = snd (iter_list_next 7 s3)"
  note d = s1_def s2_def s3_def s4_def after_push_def sample_list_def take_iter_def own_block_def
  have u: "unused sample_list 3" "unused s1 4"
    by (auto simp: unused_def d elim!: reach_SomeE reach_NoneE)
  have f: "fst (iter_list_next 7 s3) = Some 43" by (simp add: iter_list_next_def item_into_inner_def d)
  have "list_run unused sample_list [PushStart 1 3 42, Internal, Internal, PushDone 1 42] s1"
    unfolding s1_def by (rule push_run) (use u in \<open>simp_all add: d\<close>)
  moreover have "list_run unused s1 [PushStart 2 4 43, Internal, Internal, PushDone 2 43] s2"
    unfolding s2_def by (rule push_run) (use u in \<open>simp_all add: d\<close>)
  moreover have "list_run unused s2 [TakeIter 7] s3"
    unfolding s3_def by (intro run_one list_step.take) (simp add: d)
  moreover have "list_run unused s3 [Next 7 (Some 43)] s4"
    unfolding s4_def using list_step.next_item [of unused s3 7] f by (intro run_one) simp
  ultimately have "list_run unused sample_list ((([PushStart 1 3 42, Internal, Internal, PushDone 1 42] @
      [PushStart 2 4 43, Internal, Internal, PushDone 2 43]) @ [TakeIter 7]) @ [Next 7 (Some 43)]) s4"
    by (simp only: list_run_append)
  then have r: "list_run unused sample_list [PushStart 1 3 42, Internal, Internal, PushDone 1 42,
      PushStart 2 4 43, Internal, Internal, PushDone 2 43, TakeIter 7, Next 7 (Some 43)] s4" by simp
  then obtain a where a: "fold_opt spec_step [PushStart 1 3 42, Internal, Internal, PushDone 1 42,
      PushStart 2 4 43, Internal, Internal, PushDone 2 43, TakeIter 7, Next 7 (Some 43)] spec_new = Some a" "represents s4 a"
    "mset [42, 43] = held a + mset [43]"
    using atomic_list_linearizable [OF sample_list_new r] by auto
  show ?thesis by (rule exI, rule exI, rule exI, intro conjI, rule r, simp, simp, rule a(1), rule a(2), rule a(3))
qed

text \<open>The results of \<open>k\<close> calls of \<open>next\<close>.\<close>

fun iter_results :: "nat \<Rightarrow> nat \<Rightarrow> 'a atomic_list \<Rightarrow> 'a option list" where
  "iter_results 0 q s = []"
| "iter_results (Suc k) q s = (case iter_list_next q s of (r, s) \<Rightarrow> r # iter_results k q s)"

lemma iter_cycle:
  "iters s q = Some n \<Longrightarrow> item_next s n = Some n \<Longrightarrow> iter_results k q s = replicate k (Some (item_value s n))"
  by (induction k arbitrary: s) (simp_all add: iter_list_next_def item_into_inner_def release_def)

text \<open>C12: What the double release in \<open>Box::into_inner\<close> does to the list.  From an empty list and any block that the heap has to offer
  there is a run of the code, without any interleaving inside the calls, in which three items are
  pushed, the first of them is returned by an iterator, and then the second is lost and the list is a
  cycle: a loop over it gets the third item again and again and never ends.\<close>

theorem double_release_breaks_list:
  assumes new: "list_new s0" and n: "0 < avail s0 n"
  shows "\<exists>tr s. list_run (\<lambda>_ _. True) s0 tr s \<and> pushed tr = [x, y, z] \<and> yielded tr = [x] \<and>
     (\<forall>k. iter_results k 2 (take_iter 2 s) = replicate k (Some z))"
proof -
  define s1 where "s1 = after_push n x s0"
  define s2 where "s2 = take_iter 1 s1"
  define s3 where "s3 = snd (iter_list_next 1 s2)"
  define s4 where "s4 = after_push n y s3"
  define s5 where "s5 = after_push n z s4"
  note d = s1_def s2_def s3_def s4_def s5_def after_push_def take_iter_def iter_list_next_def item_into_inner_def release_def
  have i: "pushers s0 1 = NoPush" "iters s0 1 = None" using new by (simp_all add: list_new_def)
  have f: "fst (iter_list_next 1 s2) = Some x" by (simp add: d)
  have "list_run (\<lambda>_ _. True) s0 [PushStart 1 n x, Internal, Internal, PushDone 1 x] s1"
    unfolding s1_def by (rule push_run) (use i n in \<open>simp_all add: d\<close>)
  moreover have "list_run (\<lambda>_ _. True) s1 [TakeIter 1] s2"
    unfolding s2_def by (intro run_one list_step.take) (use new in \<open>simp add: d list_new_def\<close>)
  moreover have "list_run (\<lambda>_ _. True) s2 [Next 1 (Some x)] s3"
    unfolding s3_def using list_step.next_item [of "\<lambda>_ _. True" s2 1] f by (intro run_one) simp
  moreover have "list_run (\<lambda>_ _. True) s3 [PushStart 1 n y, Internal, Internal, PushDone 1 y] s4"
    unfolding s4_def by (rule push_run) (use i n in \<open>simp_all add: d\<close>)
  moreover have "list_run (\<lambda>_ _. True) s4 [PushStart 1 n z, Internal, Internal, PushDone 1 z] s5"
    unfolding s5_def by (rule push_run) (use i n in \<open>simp_all add: d\<close>)
  ultimately have "list_run (\<lambda>_ _. True) s0 (((([PushStart 1 n x, Internal, Internal, PushDone 1 x] @ [TakeIter 1]) @
      [Next 1 (Some x)]) @ [PushStart 1 n y, Internal, Internal, PushDone 1 y]) @ [PushStart 1 n z, Internal, Internal, PushDone 1 z]) s5"
    by (simp only: list_run_append)
  moreover have "iter_results k 2 (take_iter 2 s5) = replicate k (Some z)" for k
  proof -
    have "iters (take_iter 2 s5) 2 = Some n" "item_next (take_iter 2 s5) n = Some n" "item_value (take_iter 2 s5) n = z"
      by (simp_all add: d)
    then show ?thesis using iter_cycle [of "take_iter 2 s5" 2 n k] by simp
  qed
  ultimately show ?thesis by (intro exI conjI) auto
qed

theorem double_release_breaks_list_witness:
  "\<exists>tr s. list_run (\<lambda>_ _. True) sample_list tr s \<and> pushed tr = [10, 20, 30] \<and> yielded tr = [10] \<and>
     (\<forall>k. iter_results k 2 (take_iter 2 s) = replicate k (Some 30))"
  using double_release_breaks_list [OF sample_list_new, of 3 10 20 30] by (simp add: sample_list_def)

end
