(* ===== verification/Async_Mutex.thy ===== *)
theory Async_Mutex
  imports Atomic_List
begin

text \<open>
  The asynchronous mutex of \<open>kernel/src/sync/async_mutex.rs\<close> as a machine of any number of
  tasks.  One step is one atomic access of the source: those of \<open>push_front\<close> of the waker, one after the other, swapping the
  flag, clearing the flag, \<open>take_iter\<close> of the wakers, and one round of the loop over them.  The list of wakers is the machine of
  \<open>Atomic_List\<close>, with its blocks and their double release; as there, \<open>ok\<close> is the condition
  on the blocks that the heap hands out.  A waker is the number of its task.

  \<open>woken\<close> are the tasks whose waker was called and that were not polled since.  The scheduler may poll a pending
  task at any time, woken or not.
\<close>

datatype lock_pc =
    Idle                   \<comment> \<open>not locking\<close>
  | Polling                \<comment> \<open>\<open>poll_fn\<close> entered, about to push the waker\<close>
  | Pushing                \<comment> \<open>inside \<open>push_front\<close>, at the access that the list's \<open>pushers\<close> says\<close>
  | Pushed                 \<comment> \<open>waker pushed, about to swap the flag\<close>
  | Pending
  | Holding                \<comment> \<open>has the guard\<close>
  | Failed                 \<comment> \<open>\<open>Ready(Err(MemoryExhausted))\<close>\<close>
  | Released               \<comment> \<open>flag cleared, about to take the wakers\<close>
  | Waking                 \<comment> \<open>in the loop over the iterator\<close>

record async_mutex =
  async_locked :: bool
  wakers :: "nat atomic_list"
  task_pc :: "nat \<Rightarrow> lock_pc"
  woken :: "nat set"

definition async_new :: "nat atomic_list \<Rightarrow> async_mutex" where
  "async_new l = \<lparr>async_locked = False, wakers = l, task_pc = (\<lambda>_. Idle), woken = {}\<rparr>"

definition set_pc :: "nat \<Rightarrow> lock_pc \<Rightarrow> async_mutex \<Rightarrow> async_mutex" where
  "set_pc t pc s = s\<lparr>task_pc := (task_pc s)(t := pc)\<rparr>"

text \<open>\<open>AsyncMutex::lock\<close>: the closure of \<open>poll_fn\<close>.  The item is allocated, in the block \<open>n\<close>, or the allocation
  fails; then \<open>push_front\<close> runs; then the flag is swapped.\<close>

definition lock_push_start :: "nat \<Rightarrow> nat \<Rightarrow> async_mutex \<Rightarrow> async_mutex" where
  "lock_push_start t n s = set_pc t Pushing (s\<lparr>wakers := push_alloc t t n (wakers s)\<rparr>)"

definition lock_push_fail :: "nat \<Rightarrow> async_mutex \<Rightarrow> async_mutex" where
  "lock_push_fail t s = set_pc t Failed s"

definition lock_push_next :: "nat \<Rightarrow> async_mutex \<Rightarrow> async_mutex" where
  "lock_push_next t s =
     (let l = push_next t (wakers s); s = s\<lparr>wakers := l\<rparr> in
      if pushers l t = NoPush then set_pc t Pushed s else s)"

definition lock_swap :: "nat \<Rightarrow> async_mutex \<Rightarrow> async_mutex" where
  "lock_swap t s =
     (let previous = async_locked s; s = s\<lparr>async_locked := True\<rparr> in
      if \<not> previous then set_pc t Holding s else set_pc t Pending s)"

text \<open>\<open>Drop for AsyncMutexGuard\<close> in its steps.\<close>

definition unlock_store :: "nat \<Rightarrow> async_mutex \<Rightarrow> async_mutex" where
  "unlock_store t s = set_pc t Released (s\<lparr>async_locked := False\<rparr>)"

definition unlock_take :: "nat \<Rightarrow> async_mutex \<Rightarrow> async_mutex" where
  "unlock_take t s = set_pc t Waking (s\<lparr>wakers := take_iter t (wakers s)\<rparr>)"

definition unlock_wake :: "nat \<Rightarrow> async_mutex \<Rightarrow> async_mutex" where
  "unlock_wake t s =
     (case iter_list_next t (wakers s) of
        (Some w, l) \<Rightarrow> s\<lparr>wakers := l, woken := insert w (woken s)\<rparr>
      | (None, l) \<Rightarrow> set_pc t Idle (s\<lparr>wakers := l\<rparr>))"

inductive async_step :: "(nat atomic_list \<Rightarrow> nat \<Rightarrow> bool) \<Rightarrow> async_mutex \<Rightarrow> async_mutex \<Rightarrow> bool" for ok where
  call: "task_pc s t = Idle \<or> task_pc s t = Failed \<Longrightarrow> async_step ok s (set_pc t Polling s)"
| push_start: "task_pc s t = Polling \<Longrightarrow> 0 < avail (wakers s) n \<Longrightarrow> ok (wakers s) n \<Longrightarrow>
    async_step ok s (lock_push_start t n s)"
| push_fail: "task_pc s t = Polling \<Longrightarrow> async_step ok s (lock_push_fail t s)"
| push_next: "task_pc s t = Pushing \<Longrightarrow> async_step ok s (lock_push_next t s)"
| swap: "task_pc s t = Pushed \<Longrightarrow> async_step ok s (lock_swap t s)"
| poll_again: "task_pc s t = Pending \<Longrightarrow> async_step ok s (set_pc t Polling (s\<lparr>woken := woken s - {t}\<rparr>))"
| unlock: "task_pc s t = Holding \<Longrightarrow> async_step ok s (unlock_store t s)"
| take_wakers: "task_pc s t = Released \<Longrightarrow> async_step ok s (unlock_take t s)"
| wake: "task_pc s t = Waking \<Longrightarrow> async_step ok s (unlock_wake t s)"

inductive_cases async_stepE: "async_step ok s s'"

section \<open>Exclusion\<close>

text \<open>The flag is set exactly when a task holds the guard, and at most one does.\<close>

definition exclusion :: "async_mutex \<Rightarrow> bool" where
  "exclusion s \<longleftrightarrow>
     (if async_locked s then \<exists>h. \<forall>t. task_pc s t = Holding \<longleftrightarrow> t = h else \<forall>t. task_pc s t \<noteq> Holding)"

lemma exclusion_cong:
  "async_locked s' = async_locked s \<Longrightarrow> (\<And>u. task_pc s' u = Holding \<longleftrightarrow> task_pc s u = Holding) \<Longrightarrow>
   exclusion s \<Longrightarrow> exclusion s'"
  by (simp add: exclusion_def)

lemmas async_ops = set_pc_def lock_push_start_def lock_push_fail_def lock_push_next_def lock_swap_def unlock_store_def
  unlock_take_def unlock_wake_def Let_def

lemma exclusion_step:
  assumes "async_step ok s s'" "exclusion s"
  shows "exclusion s'"
  using assms(1)
proof (cases rule: async_step.cases)
  case (swap t)
  show ?thesis
  proof (cases "async_locked s")
    case True
    then show ?thesis
      using swap assms(2) by (intro exclusion_cong [of s' s]) (auto simp: async_ops)
  next
    case False
    then show ?thesis using swap assms(2) by (auto simp: exclusion_def async_ops)
  qed
next
  case (unlock t)
  then have "async_locked s" using assms(2) by (auto simp: exclusion_def split: if_splits)
  then obtain h where "\<forall>u. task_pc s u = Holding \<longleftrightarrow> u = h" using assms(2) by (auto simp: exclusion_def)
  then show ?thesis using unlock by (auto simp: exclusion_def async_ops)
next
  case (wake t)
  then show ?thesis
    using assms(2) by (elim exclusion_cong [rotated 2]) (auto simp: async_ops split: prod.splits option.splits)
qed (use assms(2) in \<open>elim exclusion_cong [rotated 2], auto simp: async_ops\<close>)+

section \<open>Wakeups\<close>




















lemma exclusion_reachable: "(async_step ok)\<^sup>*\<^sup>* s s' \<Longrightarrow> exclusion s \<Longrightarrow> exclusion s'"
  by (induction rule: rtranclp_induct) (auto intro: exclusion_step)

section \<open>Properties\<close>

text \<open>C13: The asynchronous mutex excludes: in every interleaving of any number of tasks that poll,
  fail to allocate a waker, unlock and wake each other, at most one task holds the guard, and the
  flag is set exactly while one does.  This holds whatever blocks the heap hands out for the wakers.\<close>

theorem async_mutex_exclusion:
  assumes "(async_step ok)\<^sup>*\<^sup>* (async_new l) s" "task_pc s t = Holding" "task_pc s u = Holding"
  shows "t = u \<and> async_locked s"
proof -
  have "exclusion (async_new l)" by (simp add: exclusion_def async_new_def)
  from exclusion_reachable [OF assms(1) this] show ?thesis using assms(2,3) by (auto simp: exclusion_def split: if_splits)
qed


text \<open>A run in which task 1 takes the lock and task 2 has to wait.\<close>

definition lock_once :: "nat \<Rightarrow> nat \<Rightarrow> async_mutex \<Rightarrow> async_mutex" where
  "lock_once t n s = lock_swap t (lock_push_next t (lock_push_next t (lock_push_next t (lock_push_start t n (set_pc t Polling s)))))"

lemma lock_once_reachable:
  assumes "task_pc s t = Idle" "0 < avail (wakers s) n" "ok (wakers s) n"
  shows "(async_step ok)\<^sup>*\<^sup>* s (lock_once t n s)"
proof -
  define s1 where "s1 = set_pc t Polling s"
  define s2 where "s2 = lock_push_start t n s1"
  define s3 where "s3 = lock_push_next t s2"
  define s4 where "s4 = lock_push_next t s3"
  define s5 where "s5 = lock_push_next t s4"
  have w: "wakers s1 = wakers s" "task_pc s1 t = Polling" by (simp_all add: s1_def set_pc_def)
  have p2: "pushers (wakers s2) t = Loading n" "task_pc s2 t = Pushing" by (simp_all add: s2_def lock_push_start_def set_pc_def push_alloc_def)
  have p3: "pushers (wakers s3) t = Storing n (list_head (wakers s2))" "task_pc s3 t = Pushing" "list_head (wakers s3) = list_head (wakers s2)"
    using p2 by (simp_all add: s3_def lock_push_next_def push_next_def push_load_def)
  have p4: "pushers (wakers s4) t = Swapping n (list_head (wakers s2))" "task_pc s4 t = Pushing" "list_head (wakers s4) = list_head (wakers s2)"
    using p3 by (simp_all add: s4_def lock_push_next_def push_next_def push_store_def)
  have p5: "task_pc s5 t = Pushed" using p4 by (simp add: s5_def lock_push_next_def push_next_def push_cas_def set_pc_def)
  have "async_step ok s s1" unfolding s1_def using assms(1) by (intro async_step.call) simp
  moreover have "async_step ok s1 s2" unfolding s2_def using assms(2,3) w by (intro async_step.push_start) simp_all
  moreover have "async_step ok s2 s3" "async_step ok s3 s4" "async_step ok s4 s5"
    unfolding s3_def s4_def s5_def using p2 p3 p4 by (intro async_step.push_next; simp add: s3_def s4_def)+
  moreover have "async_step ok s5 (lock_once t n s)"
    using async_step.swap [OF p5, of ok] by (simp add: lock_once_def s1_def s2_def s3_def s4_def s5_def)
  ultimately show ?thesis by (meson converse_rtranclp_into_rtranclp rtranclp.rtrancl_refl)
qed

definition contended :: async_mutex where
  "contended = lock_once 2 4 (lock_once 1 3 (async_new sample_list))"

lemmas contended_simps = contended_def lock_once_def lock_push_start_def lock_push_next_def push_next_def push_alloc_def
  push_load_def push_store_def push_cas_def lock_swap_def set_pc_def async_new_def sample_list_def

lemma contended_reachable: "(async_step unused)\<^sup>*\<^sup>* (async_new sample_list) contended"
proof -
  let ?s = "lock_once 1 3 (async_new sample_list)"
  have "unused sample_list 3" by (simp add: unused_def sample_list_def own_block_def)
  then have "(async_step unused)\<^sup>*\<^sup>* (async_new sample_list) ?s"
    by (intro lock_once_reachable) (simp_all add: async_new_def sample_list_def)
  moreover have "unused (wakers ?s) 4"
    by (auto simp: unused_def own_block_def contended_simps elim!: reach_SomeE reach_NoneE)
  then have "(async_step unused)\<^sup>*\<^sup>* ?s contended"
    unfolding contended_def by (intro lock_once_reachable) (simp_all add: contended_simps)
  ultimately show ?thesis by (rule rtranclp_trans)
qed

lemma contended_state: "task_pc contended 1 = Holding" "task_pc contended 2 = Pending"
  by (simp_all add: contended_simps)

theorem async_mutex_exclusion_witness:
  "task_pc contended 1 = Holding \<and> async_locked contended"
  using async_mutex_exclusion [OF contended_reachable contended_state(1) contended_state(1)]
    contended_state(1) by simp


end
