(* ===== verification/Trap.thy ===== *)
theory Trap
  imports Interface
begin

text \<open>
  Interrupt vectors and trap frames: the data of \<open>kernel/src/interrupt.rs\<close>.  The handler itself
  calls the scheduler and the keyboard driver and is modelled in \<open>Kernel_Entry\<close>.
\<close>

section \<open>Vectors\<close>

datatype exception =
    DivideByZero | ExDebug | Nmi | Breakpoint | Overflow | BoundRangeExceeded | InvalidOpcode
  | DeviceNotAvailable | DoubleFault | InvalidTss | SegmentNotPresent | StackSegmentFault
  | GeneralProtectionFault | PageFault | X87Exception | AlignmentCheck | MachineCheck
  | SimdException | VirtualizationException | SecurityException | SyscallVector

text \<open>The named variants are \<open>Named\<close>; the macro adds \<open>Irq\<close> and \<open>Other\<close>.\<close>

datatype interrupt = Named exception | Irq u8 | Other u8

definition IRQ_BASE :: u8 where "IRQ_BASE = 0x20"

definition interrupt_table :: "(u8 \<times> exception) list" where
  "interrupt_table =
    [(0x00, DivideByZero), (0x01, ExDebug), (0x02, Nmi), (0x03, Breakpoint), (0x04, Overflow),
     (0x05, BoundRangeExceeded), (0x06, InvalidOpcode), (0x07, DeviceNotAvailable),
     (0x08, DoubleFault), (0x0a, InvalidTss), (0x0b, SegmentNotPresent), (0x0c, StackSegmentFault),
     (0x0d, GeneralProtectionFault), (0x0e, PageFault), (0x10, X87Exception), (0x11, AlignmentCheck),
     (0x12, MachineCheck), (0x13, SimdException), (0x14, VirtualizationException),
     (0x1e, SecurityException), (0x7f, SyscallVector)]"

definition interrupt_from :: "u8 \<Rightarrow> interrupt" where
  "interrupt_from vector =
     (case enum64_try_from interrupt_table vector of
        Some e \<Rightarrow> Named e
      | None \<Rightarrow> if vector \<ge> IRQ_BASE \<and> vector < IRQ_BASE + 0x10 then Irq (vector - IRQ_BASE)
                else Other vector)"

definition interrupt_into :: "interrupt \<Rightarrow> u8" where
  "interrupt_into i =
     (case i of
        Named e \<Rightarrow> the (enum64_as_u64 interrupt_table e)
      | Irq irq \<Rightarrow> irq + IRQ_BASE
      | Other vector \<Rightarrow> vector)"

section \<open>Trap frames\<close>

record registers =
  r15 :: u64
  r14 :: u64
  r13 :: u64
  r12 :: u64
  r11 :: u64
  r10 :: u64
  r9 :: u64
  r8 :: u64
  rdi :: u64
  rsi :: u64
  rbp :: u64
  rbx :: u64
  rdx :: u64
  rcx :: u64
  rax :: u64

record trap_frame =
  regs :: registers
  interrupt_vector :: u64
  error_code :: u64
  rip :: u64
  cs :: u64
  rflags :: u64
  rsp :: u64
  ss :: u64

definition SEG_UCODE :: u16 where "SEG_UCODE = 0x1b"
definition SEG_UDATA :: u16 where "SEG_UDATA = 0x23"

definition default_registers :: registers where
  "default_registers =
     \<lparr>r15 = 0, r14 = 0, r13 = 0, r12 = 0, r11 = 0, r10 = 0, r9 = 0, r8 = 0, rdi = 0, rsi = 0,
      rbp = 0, rbx = 0, rdx = 0, rcx = 0, rax = 0\<rparr>"

text \<open>\<open>RFlags::INTERRUPT_FLAG.bits()\<close> of the third-party crate \<open>x86_64\<close> is the argument \<open>if_bits\<close>.\<close>

definition trap_frame_new :: "u64 \<Rightarrow> u64 \<Rightarrow> u64 \<Rightarrow> trap_frame" where
  "trap_frame_new if_bits ip sp =
     \<lparr>regs = default_registers, interrupt_vector = 0, error_code = 0, rip = ip,
      cs = ucast SEG_UCODE, rflags = if_bits, rsp = sp, ss = ucast SEG_UDATA\<rparr>"

datatype trap_origin = FromUser | FromKernel

definition frame_interrupt :: "trap_frame \<Rightarrow> interrupt" where
  "frame_interrupt f = interrupt_from (ucast (interrupt_vector f))"

definition frame_origin :: "trap_frame \<Rightarrow> trap_origin option" where
  "frame_origin f =
     (let c = cs f AND 3 in if c = 0 then Some FromKernel else if c = 3 then Some FromUser else None)"

section \<open>Laws\<close>

interpretation vectors: enum64 interrupt_table
proof
  show "enum64_ok interrupt_table"
    by (simp add: enum64_ok_def interrupt_table_def)
  show "v \<in> snd ` set interrupt_table" for v
    by (cases v) (simp_all add: interrupt_table_def)
qed

lemma new_frame_is_user: "frame_origin (trap_frame_new if_bits ip sp) = Some FromUser"
  by (simp add: frame_origin_def trap_frame_new_def SEG_UCODE_def)

lemma irq_vector: "n < 0x10 \<longleftrightarrow> n + IRQ_BASE \<ge> IRQ_BASE \<and> n + IRQ_BASE < IRQ_BASE + 0x10"
proof -
  let ?x = "n + IRQ_BASE"
  have "n < 0x10" if "?x \<ge> IRQ_BASE" "?x < IRQ_BASE + 0x10"
    using that unat_sub [of IRQ_BASE ?x] by (simp add: IRQ_BASE_def word_less_nat_alt word_le_nat_alt)
  moreover have "?x \<ge> IRQ_BASE \<and> ?x < IRQ_BASE + 0x10" if "n < 0x10"
  proof -
    have "unat n < 16" using that by (simp add: word_less_nat_alt)
    then have "unat ?x = unat n + 32" by (simp add: IRQ_BASE_def unat_word_ariths)
    then show ?thesis using \<open>unat n < 16\<close> by (simp add: IRQ_BASE_def word_less_nat_alt word_le_nat_alt)
  qed
  ultimately show ?thesis by blast
qed

lemma irq_not_named:
  assumes "v \<ge> IRQ_BASE" "v < IRQ_BASE + 0x10"
  shows "enum64_try_from interrupt_table v = None"
proof (rule ccontr)
  assume "enum64_try_from interrupt_table v \<noteq> None"
  then obtain e where "(v, e) \<in> set interrupt_table"
    using vectors.table_ok by (auto simp: enum64_ok_def enum64_try_from_mem)
  then show False using assms by (auto simp: interrupt_table_def IRQ_BASE_def word_le_nat_alt)
qed

lemma irq_roundtrip: "interrupt_from (interrupt_into (Irq n)) = Irq n \<longleftrightarrow> n < 0x10"
  unfolding irq_vector
  by (auto simp: interrupt_into_def interrupt_from_def irq_not_named split: option.splits if_splits)

section \<open>Properties\<close>

text \<open>Decoding a vector and encoding the result is the identity on all 256 vectors, so the handler
  loses no information; and encoding followed by decoding is the identity on the named exceptions
  and on the sixteen interrupt lines.\<close>

lemma interrupt_vector_roundtrip:
  "interrupt_into (interrupt_from v) = v \<and> interrupt_from (interrupt_into (Named e)) = Named e \<and>
   (interrupt_from (interrupt_into (Irq n)) = Irq n \<longleftrightarrow> n < 0x10)"
proof (intro conjI)
  show "interrupt_into (interrupt_from v) = v"
  proof (cases "enum64_try_from interrupt_table v")
    case None
    then show ?thesis by (simp add: interrupt_from_def interrupt_into_def)
  next
    case (Some e)
    then show ?thesis
      using enum64_inverse [OF vectors.table_ok, of v e] by (simp add: interrupt_from_def interrupt_into_def)
  qed
  show "interrupt_from (interrupt_into (Named e)) = Named e"
    using vectors.try_from_as [of e] by (simp add: interrupt_from_def interrupt_into_def)
  show "interrupt_from (interrupt_into (Irq n)) = Irq n \<longleftrightarrow> n < 0x10"
    by (rule irq_roundtrip)
qed

end
