(* ===== verification/BTree_Node.thy ===== *)
theory BTree_Node
  imports Crab_Prelude
begin

text \<open>
  The nodes of the B-tree in \<open>alloc_collections/src/btree/node.rs\<close> and the search of
  \<open>search.rs\<close>.

  \<^item> A node pointer of the source always points to a \<open>LeafNode\<close>; whether it is the first
    field of an \<open>InternalNode\<close>, with edges behind it, is known from the height that the
    \<open>NodeRef\<close> carries.  So \<open>Node kvs edges\<close> is a node, the edges are empty in a leaf, and the
    height is an argument wherever the code calls \<open>force\<close>.  The arrays \<open>keys\<close> and \<open>vals\<close>, which
    every operation changes at the same index, are one list of pairs; \<open>len\<close> is its length.
  \<^item> The parent pointers are a path: the list of (entries, edges, index) of the nodes above,
    innermost first.  \<open>ascend\<close> follows the pointer, so it sees the child as it is now.
  \<^item> \<open>Box::new\<close> may fail.  The allocator is the parameter of the collection: a function \<open>al\<close>
    that says whether the next allocation succeeds and gives the new allocator state.
    Deallocation does not fail and is left out.
\<close>

datatype ('k, 'v) node = Node (kvs: "('k \<times> 'v) list") (edges: "('k, 'v) node list")

type_synonym ('k, 'v) path = "(('k \<times> 'v) list \<times> ('k, 'v) node list \<times> nat) list"

type_synonym ('k, 'v) handle = "('k, 'v) node \<times> nat \<times> ('k, 'v) path"

type_synonym 'a allocator = "'a \<Rightarrow> bool \<times> 'a"

definition B :: nat where "B = 6"

definition MIN_LEN :: nat where "MIN_LEN = B - 1"

definition CAPACITY :: nat where "CAPACITY = 2 * B - 1"

abbreviation node_len :: "('k, 'v) node \<Rightarrow> nat" where
  "node_len n \<equiv> length (kvs n)"

definition slice_insert :: "'x list \<Rightarrow> nat \<Rightarrow> 'x \<Rightarrow> 'x list" where
  "slice_insert xs idx x = take idx xs @ x # drop idx xs"

definition slice_remove :: "'x list \<Rightarrow> nat \<Rightarrow> 'x \<times> 'x list" where
  "slice_remove xs idx = (xs ! idx, take idx xs @ drop (Suc idx) xs)"

section \<open>Handles\<close>

fun ascend :: "('k, 'v) node \<Rightarrow> ('k, 'v) path \<Rightarrow> ('k, 'v) handle option" where
  "ascend n [] = None"
| "ascend n ((ks, es, i) # p) = Some (Node ks (es[i := n]), i, p)"

definition descend :: "('k, 'v) handle \<Rightarrow> ('k, 'v) node \<times> ('k, 'v) path" where
  "descend = (\<lambda>(n, i, p). (edges n ! i, (kvs n, edges n, i) # p))"

definition left_kv :: "('k, 'v) handle \<Rightarrow> nat option" where
  "left_kv = (\<lambda>(n, idx, p). if idx > 0 then Some (idx - 1) else None)"

definition right_kv :: "('k, 'v) handle \<Rightarrow> nat option" where
  "right_kv = (\<lambda>(n, idx, p). if idx < node_len n then Some idx else None)"

section \<open>Adding and taking entries at the ends\<close>

definition leaf_push :: "('k, 'v) node \<Rightarrow> 'k \<times> 'v \<Rightarrow> ('k, 'v) node" where
  "leaf_push n kv = Node (kvs n @ [kv]) (edges n)"

definition leaf_push_front :: "('k, 'v) node \<Rightarrow> 'k \<times> 'v \<Rightarrow> ('k, 'v) node" where
  "leaf_push_front n kv = Node (slice_insert (kvs n) 0 kv) (edges n)"

definition internal_push :: "('k, 'v) node \<Rightarrow> 'k \<times> 'v \<Rightarrow> ('k, 'v) node \<Rightarrow> ('k, 'v) node" where
  "internal_push n kv edge = Node (kvs n @ [kv]) (edges n @ [edge])"

definition internal_push_front :: "('k, 'v) node \<Rightarrow> 'k \<times> 'v \<Rightarrow> ('k, 'v) node \<Rightarrow> ('k, 'v) node" where
  "internal_push_front n kv edge = Node (slice_insert (kvs n) 0 kv) (slice_insert (edges n) 0 edge)"

definition pop :: "nat \<Rightarrow> ('k, 'v) node \<Rightarrow> ('k \<times> 'v) \<times> ('k, 'v) node option \<times> ('k, 'v) node" where
  "pop height n =
     (let idx = node_len n - 1 in
      if height = 0 then (kvs n ! idx, None, Node (take idx (kvs n)) (edges n))
      else (kvs n ! idx, Some (edges n ! (idx + 1)), Node (take idx (kvs n)) (take (idx + 1) (edges n))))"

definition pop_front :: "nat \<Rightarrow> ('k, 'v) node \<Rightarrow> ('k \<times> 'v) \<times> ('k, 'v) node option \<times> ('k, 'v) node" where
  "pop_front height n =
     (let (kv, kvs') = slice_remove (kvs n) 0 in
      if height = 0 then (kv, None, Node kvs' (edges n))
      else let (edge, edges') = slice_remove (edges n) 0 in (kv, Some edge, Node kvs' edges'))"

section \<open>Insertion and splitting\<close>

datatype ('k, 'v) insert_result =
    Fit "('k, 'v) node"
  | Split "('k, 'v) node" "'k \<times> 'v" "('k, 'v) node"

definition leaf_insert_fit :: "('k, 'v) node \<Rightarrow> nat \<Rightarrow> 'k \<times> 'v \<Rightarrow> ('k, 'v) node" where
  "leaf_insert_fit n idx kv = Node (slice_insert (kvs n) idx kv) (edges n)"

definition leaf_split :: "'a allocator \<Rightarrow> ('k, 'v) node \<Rightarrow> nat \<Rightarrow> 'a
    \<Rightarrow> (alloc_err + ('k, 'v) node \<times> ('k \<times> 'v) \<times> ('k, 'v) node) \<times> 'a" where
  "leaf_split al n idx a =
     (case al a of
        (False, a) \<Rightarrow> (Inl AllocErr, a)
      | (True, a) \<Rightarrow>
          (Inr (Node (take idx (kvs n)) (edges n), kvs n ! idx, Node (drop (idx + 1) (kvs n)) []), a))"

definition leaf_insert :: "'a allocator \<Rightarrow> ('k, 'v) node \<Rightarrow> nat \<Rightarrow> 'k \<times> 'v \<Rightarrow> 'a
    \<Rightarrow> (alloc_err + ('k, 'v) insert_result) \<times> 'a" where
  "leaf_insert al n idx kv a =
     (if node_len n < CAPACITY then (Inr (Fit (leaf_insert_fit n idx kv)), a)
      else case leaf_split al n B a of
          (Inl e, a) \<Rightarrow> (Inl e, a)
        | (Inr (left, m, right), a) \<Rightarrow>
            (if idx \<le> B then (Inr (Split (leaf_insert_fit left idx kv) m right), a)
             else (Inr (Split left m (leaf_insert_fit right (idx - (B + 1)) kv)), a)))"

definition internal_insert_fit :: "('k, 'v) node \<Rightarrow> nat \<Rightarrow> 'k \<times> 'v \<Rightarrow> ('k, 'v) node \<Rightarrow> ('k, 'v) node" where
  "internal_insert_fit n idx kv edge =
     Node (kvs (leaf_insert_fit n idx kv)) (slice_insert (edges n) (idx + 1) edge)"

definition internal_split :: "'a allocator \<Rightarrow> ('k, 'v) node \<Rightarrow> nat \<Rightarrow> 'a
    \<Rightarrow> (alloc_err + ('k, 'v) node \<times> ('k \<times> 'v) \<times> ('k, 'v) node) \<times> 'a" where
  "internal_split al n idx a =
     (case al a of
        (False, a) \<Rightarrow> (Inl AllocErr, a)
      | (True, a) \<Rightarrow>
          (Inr (Node (take idx (kvs n)) (take (idx + 1) (edges n)), kvs n ! idx,
                Node (drop (idx + 1) (kvs n)) (drop (idx + 1) (edges n))), a))"

definition internal_insert :: "'a allocator \<Rightarrow> ('k, 'v) node \<Rightarrow> nat \<Rightarrow> 'k \<times> 'v \<Rightarrow> ('k, 'v) node \<Rightarrow> 'a
    \<Rightarrow> (alloc_err + ('k, 'v) insert_result) \<times> 'a" where
  "internal_insert al n idx kv edge a =
     (if node_len n < CAPACITY then (Inr (Fit (internal_insert_fit n idx kv edge)), a)
      else case internal_split al n B a of
          (Inl e, a) \<Rightarrow> (Inl e, a)
        | (Inr (left, m, right), a) \<Rightarrow>
            (if idx \<le> B then (Inr (Split (internal_insert_fit left idx kv edge) m right), a)
             else (Inr (Split left m (internal_insert_fit right (idx - (B + 1)) kv edge)), a)))"

section \<open>Removal, merging and stealing\<close>

definition leaf_remove :: "('k, 'v) node \<Rightarrow> nat \<Rightarrow> ('k, 'v) node \<times> 'k \<times> 'v" where
  "leaf_remove n idx = (let (kv, kvs') = slice_remove (kvs n) idx in (Node kvs' (edges n), kv))"

definition can_merge :: "('k, 'v) node \<Rightarrow> nat \<Rightarrow> bool" where
  "can_merge n idx \<longleftrightarrow> node_len (edges n ! idx) + node_len (edges n ! (idx + 1)) + 1 \<le> CAPACITY"

definition merge :: "nat \<Rightarrow> ('k, 'v) node \<Rightarrow> nat \<Rightarrow> ('k, 'v) node" where
  "merge height n idx =
     (let left = edges n ! idx; right = edges n ! (idx + 1);
          (kv, kvs') = slice_remove (kvs n) idx;
          (_, edges') = slice_remove (edges n) (idx + 1);
          left' = Node (kvs left @ kv # kvs right)
                    (if height > 1 then edges left @ edges right else edges left)
      in Node kvs' (edges'[idx := left']))"

text \<open>\<open>height\<close> is the height of the two children.\<close>

definition steal_left :: "nat \<Rightarrow> ('k, 'v) node \<Rightarrow> nat \<Rightarrow> ('k, 'v) node" where
  "steal_left height n idx =
     (let (kv, edge, left) = pop height (edges n ! idx);
          old = kvs n ! idx;
          right = edges n ! (idx + 1);
          right' = (if height = 0 then leaf_push_front right old
                    else internal_push_front right old (the edge))
      in Node ((kvs n)[idx := kv]) ((edges n)[idx := left, idx + 1 := right']))"

definition steal_right :: "nat \<Rightarrow> ('k, 'v) node \<Rightarrow> nat \<Rightarrow> ('k, 'v) node" where
  "steal_right height n idx =
     (let (kv, edge, right) = pop_front height (edges n ! (idx + 1));
          old = kvs n ! idx;
          left = edges n ! idx;
          left' = (if height = 0 then leaf_push left old
                   else internal_push left old (the edge))
      in Node ((kvs n)[idx := kv]) ((edges n)[idx := left', idx + 1 := right]))"

section \<open>Search\<close>

fun search_linear_from :: "nat \<Rightarrow> ('k :: linorder \<times> 'v) list \<Rightarrow> 'k \<Rightarrow> nat \<times> bool" where
  "search_linear_from i [] key = (i, False)"
| "search_linear_from i ((k, v) # xs) key =
     (if key > k then search_linear_from (i + 1) xs key
      else if key = k then (i, True)
      else (i, False))"

definition search_linear :: "('k :: linorder, 'v) node \<Rightarrow> 'k \<Rightarrow> nat \<times> bool" where
  "search_linear n key = search_linear_from 0 (kvs n) key"

datatype ('k, 'v) search_result =
    Found nat "('k, 'v) handle"   \<comment> \<open>with the height of the node\<close>
  | GoDown "('k, 'v) handle"

definition search_node :: "nat \<Rightarrow> ('k :: linorder, 'v) node \<Rightarrow> ('k, 'v) path \<Rightarrow> 'k
    \<Rightarrow> ('k, 'v) search_result" where
  "search_node height n p key =
     (case search_linear n key of
        (idx, True) \<Rightarrow> Found height (n, idx, p)
      | (idx, False) \<Rightarrow> GoDown (n, idx, p))"

fun search_tree :: "nat \<Rightarrow> ('k :: linorder, 'v) node \<Rightarrow> ('k, 'v) path \<Rightarrow> 'k \<Rightarrow> ('k, 'v) search_result" where
  "search_tree 0 n p key = search_node 0 n p key"
| "search_tree (Suc height) n p key =
     (case search_node (Suc height) n p key of
        Found h x \<Rightarrow> Found h x
      | GoDown x \<Rightarrow> (case descend x of (n', p') \<Rightarrow> search_tree height n' p' key))"

fun first_leaf_edge :: "nat \<Rightarrow> ('k, 'v) node \<Rightarrow> ('k, 'v) path \<Rightarrow> ('k, 'v) handle" where
  "first_leaf_edge 0 n p = (n, 0, p)"
| "first_leaf_edge (Suc height) n p =
     (case descend (n, 0, p) of (n', p') \<Rightarrow> first_leaf_edge height n' p')"

fun last_leaf_edge :: "nat \<Rightarrow> ('k, 'v) node \<Rightarrow> ('k, 'v) path \<Rightarrow> ('k, 'v) handle" where
  "last_leaf_edge 0 n p = (n, node_len n, p)"
| "last_leaf_edge (Suc height) n p =
     (case descend (n, node_len n, p) of (n', p') \<Rightarrow> last_leaf_edge height n' p')"


section \<open>Specification vocabulary\<close>

text \<open>The entries of a tree from left to right, and of what is left and right of a path.\<close>

fun interleave :: "'x list list \<Rightarrow> 'x list \<Rightarrow> 'x list" where
  "interleave [] ks = ks"
| "interleave (l # ls) [] = l @ concat ls"
| "interleave (l # ls) (k # ks) = l @ k # interleave ls ks"

fun to_list :: "('k, 'v) node \<Rightarrow> ('k \<times> 'v) list" where
  "to_list (Node ks es) = interleave (map to_list es) ks"

definition before :: "'x list list \<Rightarrow> 'x list \<Rightarrow> nat \<Rightarrow> 'x list" where
  "before ls ks i = concat (map (\<lambda>(l, k). l @ [k]) (zip (take i ls) (take i ks)))"

definition after :: "'x list list \<Rightarrow> 'x list \<Rightarrow> nat \<Rightarrow> 'x list" where
  "after ls ks i = concat (map (\<lambda>(k, l). k # l) (zip (drop i ks) (drop (Suc i) ls)))"

fun lefts :: "('k, 'v) path \<Rightarrow> ('k \<times> 'v) list" where
  "lefts [] = []"
| "lefts ((ks, es, i) # p) = lefts p @ before (map to_list es) ks i"

fun rights :: "('k, 'v) path \<Rightarrow> ('k \<times> 'v) list" where
  "rights [] = []"
| "rights ((ks, es, i) # p) = after (map to_list es) ks i @ rights p"

fun plug :: "('k, 'v) path \<Rightarrow> ('k, 'v) node \<Rightarrow> ('k, 'v) node" where
  "plug [] n = n"
| "plug ((ks, es, i) # p) n = plug p (Node ks (es[i := n]))"

text \<open>
  Shape: uniform height, a node of length \<open>n\<close> has \<open>n + 1\<close> edges, at most \<open>CAPACITY\<close> and,
  below the root, at least four entries.
\<close>

fun shape :: "nat \<Rightarrow> ('k, 'v) node \<Rightarrow> bool" where
  "shape 0 n = (edges n = [] \<and> node_len n \<le> CAPACITY)"
| "shape (Suc h) n =
     (length (edges n) = node_len n + 1 \<and> node_len n \<le> CAPACITY \<and>
      (\<forall>e \<in> set (edges n). 4 \<le> node_len e \<and> shape h e))"

fun path_shape :: "nat \<Rightarrow> ('k, 'v) path \<Rightarrow> bool" where
  "path_shape h [] = True"
| "path_shape h ((ks, es, i) # p) =
     (length es = length ks + 1 \<and> length ks \<le> CAPACITY \<and> i \<le> length ks \<and>
      (\<forall>j < length es. j \<noteq> i \<longrightarrow> 4 \<le> node_len (es ! j) \<and> shape h (es ! j)) \<and>
      (if p = [] then 0 < length ks else 4 \<le> length ks) \<and> path_shape (Suc h) p)"


section \<open>Linearisation\<close>

lemma interleave_first:
  "length ls = Suc (length ks) \<Longrightarrow>
   interleave ls ks = ls ! 0 @ concat (map (\<lambda>(k, l). k # l) (zip ks (tl ls)))"
proof (induction ks arbitrary: ls)
  case Nil
  then show ?case by (cases ls) auto
next
  case (Cons k ks)
  then obtain l l' ls' where "ls = l # l' # ls'" by (metis Suc_length_conv length_Cons)
  with Cons.IH [of "l' # ls'"] Cons.prems show ?case by simp
qed

lemma interleave_split:
  "length ls = Suc (length ks) \<Longrightarrow> i \<le> length ks \<Longrightarrow>
   interleave ls ks = before ls ks i @ ls ! i @ after ls ks i"
proof (induction ks arbitrary: ls i)
  case Nil
  then show ?case by (cases ls) (auto simp: before_def after_def)
next
  case (Cons k ks)
  then obtain l ls' where ls: "ls = l # ls'" by (cases ls) auto
  show ?case
  proof (cases i)
    case 0
    then show ?thesis using interleave_first [OF Cons.prems(1)] ls by (simp add: before_def after_def)
  next
    case (Suc j)
    then show ?thesis using Cons.IH [of ls' j] Cons.prems ls by (simp add: before_def after_def)
  qed
qed

lemma before_cong: "take i ls = take i ls' \<Longrightarrow> take i ks = take i ks' \<Longrightarrow> before ls ks i = before ls' ks' i"
  by (simp add: before_def)

lemma after_cong:
  "drop (Suc i) ls = drop (Suc i) ls' \<Longrightarrow> drop i ks = drop i ks' \<Longrightarrow> after ls ks i = after ls' ks' i"
  by (simp add: after_def)

lemma before_update [simp]: "before (ls[i := x]) ks i = before ls ks i"
  by (simp add: before_def)

lemma after_update [simp]: "after (ls[i := x]) ks i = after ls ks i"
  by (simp add: after_def)

lemma interleave_update:
  "length ls = Suc (length ks) \<Longrightarrow> i \<le> length ks \<Longrightarrow>
   interleave (ls[i := x]) ks = before ls ks i @ x @ after ls ks i"
  using interleave_split [of "ls[i := x]" ks i] by simp

lemma path_shape_plug: "path_shape h p \<Longrightarrow> to_list (plug p n) = lefts p @ to_list n @ rights p"
  by (induction p arbitrary: h n rule: lefts.induct) (auto simp: map_update interleave_update)

lemma after_split:
  "length ls = Suc (length ks) \<Longrightarrow> i < length ks \<Longrightarrow>
   after ls ks i = ks ! i # ls ! Suc i @ after ls ks (Suc i)"
  by (simp add: after_def Cons_nth_drop_Suc [symmetric])

lemma before_split:
  "length ls = Suc (length ks) \<Longrightarrow> i < length ks \<Longrightarrow>
   before ls ks (Suc i) = before ls ks i @ ls ! i @ [ks ! i]"
  by (simp add: before_def take_Suc_conv_app_nth)


lemma interleave_cut:
  "length ls = Suc (length ks) \<Longrightarrow> j < length ks \<Longrightarrow>
   interleave (take (Suc j) ls) (take j ks) @ ks ! j # interleave (drop (Suc j) ls) (drop (Suc j) ks) =
   interleave ls ks"
proof (induction ks arbitrary: ls j)
  case Nil
  then show ?case by simp
next
  case (Cons k ks)
  then obtain l l' ls' where ls: "ls = l # l' # ls'" by (metis Suc_length_conv length_Cons)
  show ?case
  proof (cases j)
    case 0
    then show ?thesis using ls by simp
  next
    case (Suc i)
    then show ?thesis using Cons.IH [of "l' # ls'" i] Cons.prems ls by simp
  qed
qed

lemma interleave_insert:
  assumes "length ls = Suc (length ks)" "i \<le> length ks"
  shows "interleave (slice_insert ls (Suc i) x) (slice_insert ks i k) =
     before ls ks i @ ls ! i @ k # x @ after ls ks i"
proof -
  let ?ls = "slice_insert ls (Suc i) x" and ?ks = "slice_insert ks i k"
  have len: "length ?ls = Suc (length ?ks)" "i < length ?ks"
    using assms by (simp_all add: slice_insert_def)
  have tk: "take i ?ls = take i ls" "?ls ! i = ls ! i" "?ls ! Suc i = x" "take i ?ks = take i ks" "?ks ! i = k"
    using assms by (simp_all add: slice_insert_def nth_append min_def)
  have dr: "drop (Suc (Suc i)) ?ls = drop (Suc i) ls" "drop (Suc i) ?ks = drop i ks"
    using assms by (simp_all add: slice_insert_def)
  have "interleave ?ls ?ks = before ?ls ?ks i @ ?ls ! i @ ?ks ! i # ?ls ! Suc i @ after ?ls ?ks (Suc i)"
    using interleave_split [OF len(1), of i] after_split [OF len] len(2) by simp
  also have "before ?ls ?ks i = before ls ks i" using tk by (simp add: before_def)
  also have "after ?ls ?ks (Suc i) = after ls ks i" using dr by (simp add: after_def)
  finally show ?thesis using tk by simp
qed

section \<open>Insertion into a node\<close>

lemma slice_insert_length [simp]: "length (slice_insert xs i x) = Suc (length xs)"
  by (simp add: slice_insert_def)

lemma set_slice_insert [simp]: "set (slice_insert xs i x) = insert x (set xs)"
  using append_take_drop_id [of i xs] by (metis (no_types, lifting) Un_insert_right list.simps(15)
      set_append slice_insert_def)

lemma map_slice_insert: "map f (slice_insert xs i x) = slice_insert (map f xs) i (f x)"
  by (simp add: slice_insert_def take_map drop_map)

lemma slice_insert_low:
  assumes "i \<le> j" "j \<le> length xs"
  shows "slice_insert (take j xs) i x = take (Suc j) (slice_insert xs i x)"
    and "drop j xs = drop (Suc j) (slice_insert xs i x)"
  using assms by (simp_all add: slice_insert_def min_def drop_take Suc_diff_le)

lemma slice_insert_high:
  assumes "j \<le> i" "i \<le> length xs"
  shows "take j xs = take j (slice_insert xs i x)"
    and "slice_insert (drop j xs) (i - j) x = drop j (slice_insert xs i x)"
  using assms by (simp_all add: slice_insert_def min_def take_drop)

lemma slice_insert_nth:
  "i \<le> j \<Longrightarrow> j < length xs \<Longrightarrow> slice_insert xs i x ! Suc j = xs ! j"
  "j < i \<Longrightarrow> i \<le> length xs \<Longrightarrow> slice_insert xs i x ! j = xs ! j"
  by (simp_all add: slice_insert_def nth_append min_def Suc_diff_le)

text \<open>Cutting a node at an entry; \<open>split\<close> followed by an insertion is insertion followed by a cut.\<close>

definition cut :: "nat \<Rightarrow> ('k, 'v) node \<Rightarrow> ('k, 'v) insert_result" where
  "cut j n = Split (Node (take j (kvs n)) (take (Suc j) (edges n))) (kvs n ! j)
     (Node (drop (Suc j) (kvs n)) (drop (Suc j) (edges n)))"

lemma capacity [simp]: "CAPACITY = 11" "B = 6"
  by (simp_all add: CAPACITY_def B_def)

lemma leaf_insert_eq:
  assumes "shape 0 n" "idx \<le> node_len n"
  shows "leaf_insert al n idx kv a =
     (if node_len n < CAPACITY then (Inr (Fit (leaf_insert_fit n idx kv)), a)
      else case al a of (False, a) \<Rightarrow> (Inl AllocErr, a)
        | (True, a) \<Rightarrow> (Inr (cut (if idx \<le> B then B + 1 else B) (leaf_insert_fit n idx kv)), a))"
proof (cases "node_len n < CAPACITY")
  case False
  then have len: "node_len n = 11" and es: "edges n = []" using assms(1) by simp_all
  show ?thesis
    using assms(2) slice_insert_low [of idx 6 "kvs n" kv] slice_insert_low(2) [of idx 7 "kvs n" kv]
      slice_insert_high [of 7 idx "kvs n" kv] slice_insert_high(1) [of 6 idx "kvs n" kv]
      slice_insert_nth(1) [of idx 6 "kvs n" kv] slice_insert_nth(2) [of 6 idx "kvs n" kv]
    by (auto simp: leaf_insert_def leaf_split_def cut_def leaf_insert_fit_def len es
        split: prod.splits bool.splits)
qed (simp add: leaf_insert_def)

lemma internal_insert_eq:
  assumes "shape (Suc h) n" "idx \<le> node_len n"
  shows "internal_insert al n idx kv e a =
     (if node_len n < CAPACITY then (Inr (Fit (internal_insert_fit n idx kv e)), a)
      else case al a of (False, a) \<Rightarrow> (Inl AllocErr, a)
        | (True, a) \<Rightarrow> (Inr (cut (if idx \<le> B then B + 1 else B) (internal_insert_fit n idx kv e)), a))"
proof (cases "node_len n < CAPACITY")
  case False
  then have len: "node_len n = 11" "length (edges n) = 12" using assms(1) by simp_all
  have "Suc (idx - 7) = idx - 6" if "\<not> idx \<le> 6" using that by simp
  then show ?thesis
    using assms(2) len slice_insert_low [of idx 6 "kvs n" kv] slice_insert_low(2) [of idx 7 "kvs n" kv]
      slice_insert_high [of 7 idx "kvs n" kv] slice_insert_high(1) [of 6 idx "kvs n" kv]
      slice_insert_nth(1) [of idx 6 "kvs n" kv] slice_insert_nth(2) [of 6 idx "kvs n" kv]
      slice_insert_low [of "Suc idx" 7 "edges n" e] slice_insert_high [of 7 "Suc idx" "edges n" e]
    by (auto simp: internal_insert_def internal_split_def cut_def internal_insert_fit_def
        leaf_insert_fit_def split: prod.splits bool.splits)
qed (simp add: internal_insert_def)


lemma cut_to_list:
  assumes "edges n = [] \<or> length (edges n) = Suc (node_len n)" "j < node_len n" "cut j n = Split l m r"
  shows "to_list l @ m # to_list r = to_list n"
proof (cases "edges n = []")
  case True
  then show ?thesis
    using assms(2,3) by (cases n) (auto simp: cut_def id_take_nth_drop [symmetric])
next
  case False
  then show ?thesis
    using assms interleave_cut [of "map to_list (edges n)" "kvs n" j]
    by (cases n) (auto simp: cut_def take_map drop_map)
qed

lemma leaf_insert_fit_to_list:
  "shape 0 n \<Longrightarrow> to_list (leaf_insert_fit n idx kv) = take idx (kvs n) @ kv # drop idx (kvs n)"
  by (simp add: leaf_insert_fit_def slice_insert_def)

lemma internal_insert_fit_to_list:
  assumes "length (edges n) = Suc (node_len n)" "idx \<le> node_len n"
  shows "to_list (internal_insert_fit n idx kv e) =
     before (map to_list (edges n)) (kvs n) idx @ to_list (edges n ! idx) @ kv # to_list e @
     after (map to_list (edges n)) (kvs n) idx"
  using assms interleave_insert [of "map to_list (edges n)" "kvs n" idx "to_list e" kv]
  by (simp add: internal_insert_fit_def leaf_insert_fit_def map_slice_insert)

text \<open>What an insertion into a node yields, for the two kinds of node at once.\<close>

definition inserted :: "nat \<Rightarrow> ('k, 'v) insert_result \<Rightarrow> ('k \<times> 'v) list \<Rightarrow> nat \<Rightarrow> bool" where
  "inserted h r xs len \<longleftrightarrow>
     (case r of
        Fit n \<Rightarrow> shape h n \<and> to_list n = xs \<and> node_len n = Suc len
      | Split l m r \<Rightarrow> shape h l \<and> shape h r \<and> 4 \<le> node_len l \<and> 4 \<le> node_len r \<and>
          to_list l @ m # to_list r = xs)"

lemma leaf_inserted:
  assumes n: "shape 0 n" "idx \<le> node_len n" and ins: "leaf_insert al n idx kv a = (Inr r, a')"
  shows "inserted 0 r (take idx (kvs n) @ kv # drop idx (kvs n)) (node_len n)"
proof (cases "node_len n < CAPACITY")
  case True
  then show ?thesis
    using n ins by (auto simp: leaf_insert_eq inserted_def leaf_insert_fit_to_list
        leaf_insert_fit_def slice_insert_def)
next
  case False
  let ?n = "leaf_insert_fit n idx kv"
  have len: "node_len ?n = 12" "edges ?n = []" "to_list ?n = take idx (kvs n) @ kv # drop idx (kvs n)"
    using n False by (auto simp: leaf_insert_fit_def slice_insert_def)
  obtain j where j: "j = 6 \<or> j = 7" "r = cut j ?n"
    using ins False by (auto simp: leaf_insert_eq [OF n] split: prod.splits bool.splits if_splits)
  show ?thesis
    using j len cut_to_list [of ?n j] by (auto simp: inserted_def cut_def)
qed

lemma internal_inserted:
  assumes n: "shape (Suc h) n" "idx \<le> node_len n" and e: "shape h e" "4 \<le> node_len e"
    and ins: "internal_insert al n idx kv e a = (Inr r, a')"
  shows "inserted (Suc h) r (before (map to_list (edges n)) (kvs n) idx @ to_list (edges n ! idx) @
     kv # to_list e @ after (map to_list (edges n)) (kvs n) idx) (node_len n)"
proof -
  let ?n = "internal_insert_fit n idx kv e"
  have es: "length (edges n) = Suc (node_len n)" using n by simp
  note tl = internal_insert_fit_to_list [OF es n(2), of kv e]
  have len: "node_len ?n = Suc (node_len n)" "length (edges ?n) = Suc (node_len ?n)"
    and sub: "\<forall>x \<in> set (edges ?n). 4 \<le> node_len x \<and> shape h x"
    using n e by (auto simp: internal_insert_fit_def leaf_insert_fit_def)
  show ?thesis
  proof (cases "node_len n < CAPACITY")
    case True
    then show ?thesis
      using ins n len sub tl by (auto simp: internal_insert_eq [OF n] inserted_def)
  next
    case False
    then have l12: "node_len ?n = 12" using len n by simp
    obtain j where j: "j = 6 \<or> j = 7" "r = cut j ?n"
      using ins False by (auto simp: internal_insert_eq [OF n] split: prod.splits bool.splits if_splits)
    obtain l m k where r: "r = Split l m k" using j by (simp add: cut_def)
    have "to_list l @ m # to_list k = to_list ?n"
      using cut_to_list [of ?n j l m k] j r len l12 by auto
    moreover have "shape (Suc h) l" "shape (Suc h) k" "4 \<le> node_len l" "4 \<le> node_len k"
      using j r len l12 sub by (auto simp: cut_def dest!: in_set_takeD in_set_dropD)
    ultimately show ?thesis using tl r by (simp add: inserted_def)
  qed
qed


section \<open>Merging and stealing\<close>

lemma interleave_append:
  "length ls = Suc (length ks) \<Longrightarrow> ms \<noteq> [] \<or> js = [] \<Longrightarrow>
   interleave (ls @ ms) (ks @ k # js) = interleave ls ks @ k # interleave ms js"
proof (induction ks arbitrary: ls)
  case Nil
  then obtain l where "ls = [l]" by (cases ls) auto
  then show ?case by simp
next
  case (Cons k' ks)
  then obtain l ls' where "ls = l # ls'" by (cases ls) auto
  with Cons show ?case by simp
qed

lemma interleave_pair:
  assumes "length ls = Suc (length ks)" "k < length ks"
  shows "interleave (ls[k := a, Suc k := b]) (ks[k := c]) =
     before ls ks k @ a @ c # b @ after ls ks (Suc k)"
  using assms interleave_split [of "ls[k := a, Suc k := b]" "ks[k := c]" k]
    after_split [of "ls[k := a, Suc k := b]" "ks[k := c]" k]
    before_cong [of k "ls[k := a, Suc k := b]" ls "ks[k := c]" ks]
    after_cong [of "Suc k" "ls[k := a, Suc k := b]" ls "ks[k := c]" ks]
  by simp

lemma interleave_remove:
  assumes "length ls = Suc (length ks)" "k < length ks"
  shows "interleave ((take (Suc k) ls @ drop (Suc (Suc k)) ls)[k := x]) (take k ks @ drop (Suc k) ks) =
     before ls ks k @ x @ after ls ks (Suc k)"
proof -
  let ?ls = "(take (Suc k) ls @ drop (Suc (Suc k)) ls)[k := x]" and ?ks = "take k ks @ drop (Suc k) ks"
  have "take k ?ls = take k ls" "drop (Suc k) ?ls = drop (Suc (Suc k)) ls" "?ls ! k = x"
    "take k ?ks = take k ks" "drop k ?ks = drop (Suc k) ks" "length ?ls = Suc (length ?ks)" "k \<le> length ?ks"
    using assms by (auto simp: list_update_append nth_append min_def)
  then show ?thesis
    using interleave_split [of ?ls ?ks k] by (simp add: before_def after_def)
qed

text \<open>A node with two adjacent children singled out.\<close>

definition pair_of :: "('k, 'v) node \<Rightarrow> nat \<Rightarrow> nat \<Rightarrow> bool" where
  "pair_of n k h \<longleftrightarrow> length (edges n) = Suc (node_len n) \<and> k < node_len n \<and> node_len n \<le> CAPACITY \<and>
     shape h (edges n ! k) \<and> shape h (edges n ! Suc k) \<and>
     (\<forall>j < length (edges n). j \<noteq> k \<and> j \<noteq> Suc k \<longrightarrow> 4 \<le> node_len (edges n ! j) \<and> shape h (edges n ! j))"

lemma pair_to_list:
  assumes "pair_of n k h"
  shows "to_list n = before (map to_list (edges n)) (kvs n) k @
     (to_list (edges n ! k) @ kvs n ! k # to_list (edges n ! Suc k)) @
     after (map to_list (edges n)) (kvs n) (Suc k)"
  using assms interleave_split [of "map to_list (edges n)" "kvs n" k]
    after_split [of "map to_list (edges n)" "kvs n" k]
  by (cases n) (auto simp: pair_of_def)

lemma pair_update:
  assumes "pair_of n k h"
  shows "to_list (Node ((kvs n)[k := c]) ((edges n)[k := a, Suc k := b])) =
     before (map to_list (edges n)) (kvs n) k @ (to_list a @ c # to_list b) @
     after (map to_list (edges n)) (kvs n) (Suc k)"
  using assms interleave_pair [of "map to_list (edges n)" "kvs n" k "to_list a" "to_list b" c]
  by (simp add: pair_of_def map_update)

lemma pair_shape:
  assumes "pair_of n k h" "shape h a" "shape h b" "4 \<le> node_len a" "4 \<le> node_len b"
  shows "shape (Suc h) (Node ((kvs n)[k := c]) ((edges n)[k := a, Suc k := b]))"
proof -
  have "4 \<le> node_len e \<and> shape h e" if e: "e \<in> set ((edges n)[k := a, Suc k := b])" for e
  proof -
    from e obtain j where "j < length (edges n)" "e = (edges n)[k := a, Suc k := b] ! j"
      by (auto simp: in_set_conv_nth)
    then show ?thesis using assms by (cases "j = k"; cases "j = Suc k") (auto simp: pair_of_def)
  qed
  then show ?thesis using assms(1) by (simp add: pair_of_def)
qed

lemma shape_leaf: "shape 0 n \<Longrightarrow> to_list n = kvs n"
  by (cases n) simp

lemma merge_ok:
  assumes pr: "pair_of n k h" and len: "can_merge n k" "4 \<le> node_len (edges n ! k) + node_len (edges n ! Suc k)"
  shows "to_list (merge (Suc h) n k) = to_list n" "shape (Suc h) (merge (Suc h) n k)"
    "node_len (merge (Suc h) n k) = node_len n - 1"
    "node_len n = 1 \<Longrightarrow> 0 < node_len (edges (merge (Suc h) n k) ! 0)"
proof -
  let ?l = "edges n ! k" and ?r = "edges n ! Suc k" and ?kv = "kvs n ! k"
  let ?m = "Node (kvs ?l @ ?kv # kvs ?r) (if Suc h > 1 then edges ?l @ edges ?r else edges ?l)"
  let ?es = "(take (Suc k) (edges n) @ drop (Suc (Suc k)) (edges n))[k := ?m]"
  have h: "length (edges n) = Suc (node_len n)" "k < node_len n" "node_len n \<le> 11"
    and sh: "shape h ?l" "shape h ?r" using pr by (simp_all add: pair_of_def)
  have eq: "merge (Suc h) n k = Node (take k (kvs n) @ drop (Suc k) (kvs n)) ?es"
    by (simp add: merge_def slice_remove_def Let_def)
  have m: "to_list ?m = to_list ?l @ ?kv # to_list ?r"
  proof (cases h)
    case 0
    then show ?thesis using sh shape_leaf [of ?l] shape_leaf [of ?r] by simp
  next
    case (Suc h')
    have "edges ?r \<noteq> []" using sh(2) Suc by auto
    then show ?thesis
      using sh Suc interleave_append [of "map to_list (edges ?l)" "kvs ?l" "map to_list (edges ?r)" "kvs ?r" ?kv]
      by (cases ?l; cases ?r) simp
  qed
  have msh: "shape h ?m" "4 \<le> node_len ?m"
    using sh len by (cases h; auto simp: can_merge_def)+
  show "to_list (merge (Suc h) n k) = to_list n"
    unfolding eq pair_to_list [OF pr] to_list.simps m [symmetric]
    using interleave_remove [of "map to_list (edges n)" "kvs n" k "to_list ?m"] h
    by (simp add: map_update take_map drop_map)
  show nl: "node_len (merge (Suc h) n k) = node_len n - 1"
    unfolding eq using h by simp
  have "4 \<le> node_len e \<and> shape h e" if e: "e \<in> set ?es" for e
  proof -
    from e obtain j where "j < length ?es" "e = ?es ! j" by (auto simp: in_set_conv_nth)
    then have j: "j < node_len n" "e = (if j = k then ?m else if j < k then edges n ! j else edges n ! Suc j)"
      using h by (auto simp: nth_list_update nth_append)
    then show ?thesis using msh pr by (auto simp: pair_of_def)
  qed
  then show "shape (Suc h) (merge (Suc h) n k)" unfolding eq using h by simp
  show "0 < node_len (edges (merge (Suc h) n k) ! 0)" if "node_len n = 1"
  proof -
    have "k = 0" using that h by simp
    then show ?thesis unfolding eq using h by simp
  qed
qed


lemma pop_ok:
  assumes "shape h n" "0 < node_len n" "pop h n = (kv, e, n')"
  shows "shape h n'" "node_len n' = node_len n - 1"
    "h = 0 \<Longrightarrow> to_list n = to_list n' @ [kv]"
    "0 < h \<Longrightarrow> \<exists>x. e = Some x \<and> to_list n = to_list n' @ kv # to_list x \<and> shape (h - 1) x \<and> 4 \<le> node_len x"
proof -
  obtain ks es where n: "n = Node ks es" by (cases n)
  define j where "j = length ks - 1"
  have j: "j < length ks" "Suc j = length ks" "ks = take j ks @ [ks ! j]"
    using assms(2) n take_Suc_conv_app_nth [of j ks] by (auto simp: j_def)
  show "node_len n' = node_len n - 1" using assms(3) n j by (auto simp: pop_def Let_def split: if_splits)
  show "shape h n'"
    using assms n j
    by (cases h) (auto simp: pop_def Let_def j_def [symmetric] dest!: in_set_takeD)
  show "to_list n = to_list n' @ [kv]" if "h = 0"
    using assms n that j(3) [unfolded j_def] by (auto simp: pop_def Let_def)
  show "\<exists>x. e = Some x \<and> to_list n = to_list n' @ kv # to_list x \<and> shape (h - 1) x \<and> 4 \<le> node_len x"
    if h: "0 < h"
  proof (intro exI [of _ "es ! Suc j"] conjI)
    have es: "length es = Suc (length ks)" "\<forall>x \<in> set es. 4 \<le> node_len x \<and> shape (h - 1) x"
      using assms(1) n h by (cases h; simp)+
    have eq: "e = Some (es ! Suc j)" "kv = ks ! j" "n' = Node (take j ks) (take (Suc j) es)"
      using assms(3) n h by (auto simp: pop_def Let_def j_def)
    show "e = Some (es ! Suc j)" by (rule eq(1))
    have "es ! Suc j \<in> set es" using es(1) j by (intro nth_mem) simp
    then show "shape (h - 1) (es ! Suc j)" "4 \<le> node_len (es ! Suc j)" using es(2) by auto
    have "drop (Suc j) (map to_list es) = [to_list (es ! Suc j)]" "drop (Suc j) ks = []"
      using es(1) j by (simp_all add: Cons_nth_drop_Suc [symmetric])
    then show "to_list n = to_list n' @ kv # to_list (es ! Suc j)"
      using interleave_cut [of "map to_list es" ks j] es(1) j n eq by (simp add: take_map)
  qed
qed

lemma pop_front_ok:
  assumes "shape h n" "0 < node_len n" "pop_front h n = (kv, e, n')"
  shows "shape h n'" "node_len n' = node_len n - 1"
    "h = 0 \<Longrightarrow> to_list n = kv # to_list n'"
    "0 < h \<Longrightarrow> \<exists>x. e = Some x \<and> to_list n = to_list x @ kv # to_list n' \<and> shape (h - 1) x \<and> 4 \<le> node_len x"
proof -
  obtain k ks es where n: "n = Node (k # ks) es" using assms(2) by (cases n; cases "kvs n") auto
  show "node_len n' = node_len n - 1"
    using assms(3) n by (auto simp: pop_front_def slice_remove_def Let_def split: if_splits)
  show "shape h n'"
    using assms n by (cases h) (auto simp: pop_front_def slice_remove_def Let_def dest!: in_set_dropD)
  show "to_list n = kv # to_list n'" if "h = 0"
    using assms n that by (auto simp: pop_front_def slice_remove_def Let_def)
  show "\<exists>x. e = Some x \<and> to_list n = to_list x @ kv # to_list n' \<and> shape (h - 1) x \<and> 4 \<le> node_len x"
    if h: "0 < h"
  proof -
    obtain x xs where es: "es = x # xs" using assms(1) n h by (cases h; cases es) auto
    then show ?thesis
      using assms n h by (cases h) (auto simp: pop_front_def slice_remove_def Let_def)
  qed
qed

lemma push_ok:
  assumes "shape h n" "node_len n < CAPACITY"
  shows "h = 0 \<Longrightarrow> shape h (leaf_push n kv) \<and> to_list (leaf_push n kv) = to_list n @ [kv]"
    and "h = 0 \<Longrightarrow> shape h (leaf_push_front n kv) \<and> to_list (leaf_push_front n kv) = kv # to_list n"
    and "0 < h \<Longrightarrow> shape (h - 1) e \<Longrightarrow> 4 \<le> node_len e \<Longrightarrow>
      shape h (internal_push n kv e) \<and> to_list (internal_push n kv e) = to_list n @ kv # to_list e"
    and "0 < h \<Longrightarrow> shape (h - 1) e \<Longrightarrow> 4 \<le> node_len e \<Longrightarrow>
      shape h (internal_push_front n kv e) \<and> to_list (internal_push_front n kv e) = to_list e @ kv # to_list n"
proof -
  show "h = 0 \<Longrightarrow> shape h (leaf_push n kv) \<and> to_list (leaf_push n kv) = to_list n @ [kv]"
    "h = 0 \<Longrightarrow> shape h (leaf_push_front n kv) \<and> to_list (leaf_push_front n kv) = kv # to_list n"
    using assms by (cases n; simp add: leaf_push_def leaf_push_front_def slice_insert_def)+
  show "shape h (internal_push n kv e) \<and> to_list (internal_push n kv e) = to_list n @ kv # to_list e"
    if "0 < h" "shape (h - 1) e" "4 \<le> node_len e"
    using that assms interleave_append [of "map to_list (edges n)" "kvs n" "[to_list e]" "[]" kv]
    by (cases h; cases n) (auto simp: internal_push_def)
  show "shape h (internal_push_front n kv e) \<and> to_list (internal_push_front n kv e) = to_list e @ kv # to_list n"
    if "0 < h" "shape (h - 1) e" "4 \<le> node_len e"
    using that assms by (cases h; cases n) (auto simp: internal_push_front_def slice_insert_def)
qed

lemma push_len [simp]:
  "node_len (leaf_push n kv) = Suc (node_len n)" "node_len (leaf_push_front n kv) = Suc (node_len n)"
  "node_len (internal_push n kv e) = Suc (node_len n)" "node_len (internal_push_front n kv e) = Suc (node_len n)"
  by (simp_all add: leaf_push_def leaf_push_front_def internal_push_def internal_push_front_def)

lemma steal_left_ok:
  assumes pr: "pair_of n k h" and len: "5 \<le> node_len (edges n ! k)" "3 \<le> node_len (edges n ! Suc k)"
    "node_len (edges n ! Suc k) < CAPACITY"
  shows "to_list (steal_left h n k) = to_list n \<and> shape (Suc h) (steal_left h n k) \<and>
     node_len (steal_left h n k) = node_len n"
proof -
  let ?l = "edges n ! k" and ?r = "edges n ! Suc k" and ?kv = "kvs n ! k"
  have sh: "shape h ?l" "shape h ?r" using pr by (simp_all add: pair_of_def)
  obtain kv e l' where p: "pop h ?l = (kv, e, l')" by (cases "pop h ?l")
  define r' where "r' = (if h = 0 then leaf_push_front ?r ?kv else internal_push_front ?r ?kv (the e))"
  have "0 < node_len ?l" using len(1) by linarith
  note pk = pop_ok [OF sh(1) this p] and ph = push_ok [OF sh(2) len(3)]
  have r': "shape h r' \<and> to_list l' @ kv # to_list r' = to_list ?l @ ?kv # to_list ?r"
  proof (cases "h = 0")
    case True
    then show ?thesis using pk(3) ph(2) by (auto simp: r'_def)
  next
    case False
    then obtain x where "e = Some x" "to_list ?l = to_list l' @ kv # to_list x" "shape (h - 1) x" "4 \<le> node_len x"
      using pk(4) by blast
    then show ?thesis using ph(4) False by (auto simp: r'_def)
  qed
  have lr: "4 \<le> node_len l'" "4 \<le> node_len r'" using pk(2) len by (auto simp: r'_def)
  have "steal_left h n k = Node ((kvs n)[k := kv]) ((edges n)[k := l', Suc k := r'])"
    by (simp add: steal_left_def p r'_def Let_def)
  then show ?thesis
    using pair_update [OF pr, of kv l' r'] pair_to_list [OF pr] r'
      pair_shape [OF pr pk(1) _ lr, of kv] by simp
qed

lemma steal_right_ok:
  assumes pr: "pair_of n k h" and len: "5 \<le> node_len (edges n ! Suc k)" "3 \<le> node_len (edges n ! k)"
    "node_len (edges n ! k) < CAPACITY"
  shows "to_list (steal_right h n k) = to_list n \<and> shape (Suc h) (steal_right h n k) \<and>
     node_len (steal_right h n k) = node_len n"
proof -
  let ?l = "edges n ! k" and ?r = "edges n ! Suc k" and ?kv = "kvs n ! k"
  have sh: "shape h ?l" "shape h ?r" using pr by (simp_all add: pair_of_def)
  obtain kv e r' where p: "pop_front h ?r = (kv, e, r')" by (cases "pop_front h ?r")
  define l' where "l' = (if h = 0 then leaf_push ?l ?kv else internal_push ?l ?kv (the e))"
  have "0 < node_len ?r" using len(1) by linarith
  note pk = pop_front_ok [OF sh(2) this p] and ph = push_ok [OF sh(1) len(3)]
  have l': "shape h l' \<and> to_list l' @ kv # to_list r' = to_list ?l @ ?kv # to_list ?r"
  proof (cases "h = 0")
    case True
    then show ?thesis using pk(3) ph(1) by (auto simp: l'_def)
  next
    case False
    then obtain x where "e = Some x" "to_list ?r = to_list x @ kv # to_list r'" "shape (h - 1) x" "4 \<le> node_len x"
      using pk(4) by blast
    then show ?thesis using ph(3) False by (auto simp: l'_def)
  qed
  have lr: "4 \<le> node_len l'" "4 \<le> node_len r'" using pk(2) len by (auto simp: l'_def)
  have "steal_right h n k = Node ((kvs n)[k := kv]) ((edges n)[k := l', Suc k := r'])"
    by (simp add: steal_right_def p l'_def Let_def)
  then show ?thesis
    using pair_update [OF pr, of kv l' r'] pair_to_list [OF pr] l'
      pair_shape [OF pr _ pk(1) lr, of kv] by simp
qed

end
