(* ===== verification/BTree_Map.thy ===== *)
theory BTree_Map
  imports BTree_Node
begin

text \<open>
  The ordered map of \<open>alloc_collections/src/btree/map.rs\<close>: lookup, insertion, removal and
  iteration.

  Its contract is that of a finite map with an ordered domain.  \<open>entries\<close> is the abstraction,
  a list of pairs with strictly increasing keys; \<open>map_inv\<close> is the invariant of the tree.  The
  locale \<open>ordered_map\<close> states what the kernel's handle and task tables rely on.
\<close>

record ('k, 'v) btree_map =
  root :: "('k, 'v) node"
  height :: nat
  shared_root :: bool   \<comment> \<open>the root is the static \<open>EMPTY_ROOT_NODE\<close>\<close>
  map_length :: nat

section \<open>Operations\<close>

definition btree_new :: "('k, 'v) btree_map" where
  "btree_new = \<lparr>root = Node [] [], height = 0, shared_root = True, map_length = 0\<rparr>"

definition btree_get :: "('k :: linorder, 'v) btree_map \<Rightarrow> 'k \<Rightarrow> 'v option" where
  "btree_get m key =
     (case search_tree (height m) (root m) [] key of
        Found h (n, idx, p) \<Rightarrow> Some (snd (kvs n ! idx))
      | GoDown _ \<Rightarrow> None)"

definition btree_contains_key :: "('k :: linorder, 'v) btree_map \<Rightarrow> 'k \<Rightarrow> bool" where
  "btree_contains_key m key \<longleftrightarrow> btree_get m key \<noteq> None"

text \<open>\<open>get_mut\<close> followed by a write through the reference.\<close>

definition btree_update :: "('k :: linorder, 'v) btree_map \<Rightarrow> 'k \<Rightarrow> ('v \<Rightarrow> 'v) \<Rightarrow> ('k, 'v) btree_map" where
  "btree_update m key f =
     (case search_tree (height m) (root m) [] key of
        Found h (n, idx, p) \<Rightarrow>
          m\<lparr>root := plug p (Node ((kvs n)[idx := (fst (kvs n ! idx), f (snd (kvs n ! idx)))]) (edges n))\<rparr>
      | GoDown _ \<Rightarrow> m)"

definition ensure_root_is_owned :: "'a allocator \<Rightarrow> ('k, 'v) btree_map \<Rightarrow> 'a
    \<Rightarrow> (alloc_err + unit) \<times> ('k, 'v) btree_map \<times> 'a" where
  "ensure_root_is_owned al m a =
     (if shared_root m then
        (case al a of
           (False, a) \<Rightarrow> (Inl AllocErr, m, a)
         | (True, a) \<Rightarrow> (Inr (), m\<lparr>root := Node [] [], height := 0, shared_root := False\<rparr>, a))
      else (Inr (), m, a))"

text \<open>
  The loop of \<open>VacantEntry::insert\<close>: \<open>left\<close> is the node that was split, \<open>kv\<close> and \<open>right\<close> have to
  be inserted into its parent.  The result is the new root and its height.
\<close>

fun insert_up :: "'a allocator \<Rightarrow> ('k, 'v) path \<Rightarrow> ('k, 'v) node \<Rightarrow> 'k \<times> 'v \<Rightarrow> ('k, 'v) node \<Rightarrow> nat \<Rightarrow> 'a
    \<Rightarrow> (alloc_err + unit) \<times> ('k, 'v) node \<times> nat \<times> 'a" where
  "insert_up al [] left kv right h a =
     (case al a of
        (False, a) \<Rightarrow> (Inl AllocErr, left, h, a)
      | (True, a) \<Rightarrow> (Inr (), internal_push (Node [] [left]) kv right, Suc h, a))"
| "insert_up al ((ks, es, i) # p) left kv right h a =
     (let parent = Node ks (es[i := left]) in
      case internal_insert al parent i kv right a of
        (Inl e, a) \<Rightarrow> (Inl e, plug p parent, h, a)
      | (Inr (Fit n), a) \<Rightarrow> (Inr (), plug p n, h, a)
      | (Inr (Split l m r), a) \<Rightarrow> insert_up al p l m r h a)"

definition vacant_insert :: "'a allocator \<Rightarrow> ('k, 'v) handle \<Rightarrow> 'k \<times> 'v \<Rightarrow> nat \<Rightarrow> 'a
    \<Rightarrow> (alloc_err + unit) \<times> ('k, 'v) node \<times> nat \<times> 'a" where
  "vacant_insert al = (\<lambda>(n, idx, p) kv h a.
     case leaf_insert al n idx kv a of
       (Inl e, a) \<Rightarrow> (Inl e, plug p n, h, a)
     | (Inr (Fit n'), a) \<Rightarrow> (Inr (), plug p n', h, a)
     | (Inr (Split l m r), a) \<Rightarrow> insert_up al p l m r h a)"

definition btree_insert :: "'a allocator \<Rightarrow> ('k :: linorder, 'v) btree_map \<Rightarrow> 'k \<Rightarrow> 'v \<Rightarrow> 'a
    \<Rightarrow> (alloc_err + 'v option) \<times> ('k, 'v) btree_map \<times> 'a" where
  "btree_insert al m key value a =
     (case ensure_root_is_owned al m a of
        (Inl e, m, a) \<Rightarrow> (Inl e, m, a)
      | (Inr _, m, a) \<Rightarrow>
          (case search_tree (height m) (root m) [] key of
             Found h (n, idx, p) \<Rightarrow>
               (Inr (Some (snd (kvs n ! idx))),
                m\<lparr>root := plug p (Node ((kvs n)[idx := (fst (kvs n ! idx), value)]) (edges n))\<rparr>, a)
           | GoDown x \<Rightarrow>
               let m = m\<lparr>map_length := map_length m + 1\<rparr> in
               (case vacant_insert al x (key, value) (height m) a of
                  (Inl e, n, h, a) \<Rightarrow> (Inl e, m\<lparr>root := n, height := h\<rparr>, a)
                | (Inr _, n, h, a) \<Rightarrow> (Inr None, m\<lparr>root := n, height := h\<rparr>, a))))"

datatype ('k, 'v) underflow_result =
    AtRoot
  | EmptyParent "('k, 'v) node" "('k, 'v) path"
  | Merged "('k, 'v) node" "('k, 'v) path"
  | Stole "('k, 'v) node" "('k, 'v) path"

definition handle_underfull_node :: "nat \<Rightarrow> ('k, 'v) node \<Rightarrow> ('k, 'v) path \<Rightarrow> ('k, 'v) underflow_result" where
  "handle_underfull_node h n p =
     (case ascend n p of
        None \<Rightarrow> AtRoot
      | Some (parent, i, p) \<Rightarrow>
          let side = (case left_kv (parent, i, p) of
                        Some k \<Rightarrow> Some (True, k)
                      | None \<Rightarrow> map_option (\<lambda>k. (False, k)) (right_kv (parent, i, p))) in
          (case side of
             None \<Rightarrow> EmptyParent parent p
           | Some (is_left, k) \<Rightarrow>
               (if can_merge parent k then Merged (merge (Suc h) parent k) p
                else if is_left then Stole (steal_left h parent k) p
                else Stole (steal_right h parent k) p)))"

lemma handle_underfull_path:
  "handle_underfull_node h n p = Merged n' p' \<Longrightarrow> length p = Suc (length p')"
  by (cases p) (auto simp: handle_underfull_node_def Let_def split: option.splits if_splits)

text \<open>
  The underflow loop of \<open>remove_kv\<close>, from a node of height \<open>h\<close>; the result is the root and its
  height, \<open>None\<close> the panic of \<open>unreachable!()\<close>.
\<close>

function underflow_loop :: "nat \<Rightarrow> ('k, 'v) node \<Rightarrow> ('k, 'v) path \<Rightarrow> (('k, 'v) node \<times> nat) option" where
  "underflow_loop h n p =
     (if node_len n < CAPACITY div 2 then
        (case handle_underfull_node h n p of
           AtRoot \<Rightarrow> Some (plug p n, h + length p)
         | EmptyParent _ _ \<Rightarrow> None
         | Merged parent p' \<Rightarrow>
             (if node_len parent = 0 then Some (edges (plug p' parent) ! 0, h + length p')
              else underflow_loop (Suc h) parent p')
         | Stole parent p' \<Rightarrow> Some (plug p' parent, Suc h + length p'))
      else Some (plug p n, h + length p))"
  by pat_completeness auto
termination
  by (relation "measure (\<lambda>(h, n, p). length p)") (auto dest: handle_underfull_path)

declare underflow_loop.simps [simp del]

text \<open>
  The entry to remove; in an internal node it is overwritten with its successor, which is the
  first entry of the leftmost leaf right of it.  That node is an element of the path \<open>q\<close> of the
  leaf, so the write through \<open>key_loc\<close> and \<open>val_loc\<close> changes that element.
\<close>

definition remove_kv :: "nat \<Rightarrow> ('k, 'v) handle \<Rightarrow> (('k \<times> 'v) \<times> ('k, 'v) node \<times> nat) option" where
  "remove_kv h = (\<lambda>(n, idx, p).
     if h = 0 then
       (case leaf_remove n idx of (hole, old) \<Rightarrow>
          map_option (\<lambda>r. (old, r)) (underflow_loop 0 hole p))
     else
       (case descend (n, idx + 1, p) of (c, p') \<Rightarrow>
        case first_leaf_edge (h - 1) c p' of (leaf, i, q) \<Rightarrow>
        case right_kv (leaf, i, q) of
          None \<Rightarrow> None
        | Some k \<Rightarrow>
            (case leaf_remove leaf k of (hole, kv) \<Rightarrow>
             let old = kvs n ! idx;
                 q' = q[length q - length p' := ((kvs n)[idx := kv], edges n, idx + 1)] in
             map_option (\<lambda>r. (old, r)) (underflow_loop 0 hole q'))))"

definition btree_remove :: "('k :: linorder, 'v) btree_map \<Rightarrow> 'k \<Rightarrow> ('v option \<times> ('k, 'v) btree_map) option" where
  "btree_remove m key =
     (case search_tree (height m) (root m) [] key of
        Found h x \<Rightarrow>
          (case remove_kv h x of
             None \<Rightarrow> None
           | Some ((k, v), n, h') \<Rightarrow>
               Some (Some v, m\<lparr>root := n, height := h', map_length := map_length m - 1\<rparr>))
      | GoDown _ \<Rightarrow> Some (None, m))"

section \<open>Iteration\<close>

text \<open>
  \<open>Range::next_unchecked\<close> and \<open>next_back_unchecked\<close>: the entry and the new edge handle; \<open>None\<close> is
  the failed \<open>unwrap_unchecked\<close>.
\<close>

fun next_up :: "nat \<Rightarrow> ('k, 'v) node \<Rightarrow> ('k, 'v) path \<Rightarrow> (('k \<times> 'v) \<times> ('k, 'v) handle) option" where
  "next_up h n [] = None"
| "next_up h n ((ks, es, i) # p) =
     (let parent = Node ks (es[i := n]) in
      case right_kv (parent, i, p) of
        Some k \<Rightarrow> (case descend (parent, k + 1, p) of (c, p') \<Rightarrow>
                     Some (ks ! k, first_leaf_edge h c p'))
      | None \<Rightarrow> next_up (Suc h) parent p)"

definition next_unchecked :: "('k, 'v) handle \<Rightarrow> (('k \<times> 'v) \<times> ('k, 'v) handle) option" where
  "next_unchecked = (\<lambda>(n, i, p).
     case right_kv (n, i, p) of
       Some k \<Rightarrow> Some (kvs n ! k, (n, k + 1, p))
     | None \<Rightarrow> next_up 0 n p)"

fun next_back_up :: "nat \<Rightarrow> ('k, 'v) node \<Rightarrow> ('k, 'v) path \<Rightarrow> (('k \<times> 'v) \<times> ('k, 'v) handle) option" where
  "next_back_up h n [] = None"
| "next_back_up h n ((ks, es, i) # p) =
     (let parent = Node ks (es[i := n]) in
      case left_kv (parent, i, p) of
        Some k \<Rightarrow> (case descend (parent, k, p) of (c, p') \<Rightarrow>
                     Some (ks ! k, last_leaf_edge h c p'))
      | None \<Rightarrow> next_back_up (Suc h) parent p)"

definition next_back_unchecked :: "('k, 'v) handle \<Rightarrow> (('k \<times> 'v) \<times> ('k, 'v) handle) option" where
  "next_back_unchecked = (\<lambda>(n, i, p).
     case left_kv (n, i, p) of
       Some k \<Rightarrow> Some (kvs n ! k, (n, k, p))
     | None \<Rightarrow> next_back_up 0 n p)"

record ('k, 'v) btree_iter =
  front_edge :: "('k, 'v) handle"
  back_edge :: "('k, 'v) handle"
  iter_length :: nat

definition btree_iter_new :: "('k, 'v) btree_map \<Rightarrow> ('k, 'v) btree_iter" where
  "btree_iter_new m = \<lparr>front_edge = first_leaf_edge (height m) (root m) [],
     back_edge = last_leaf_edge (height m) (root m) [], iter_length = map_length m\<rparr>"

definition iter_next :: "('k, 'v) btree_iter \<Rightarrow> (('k \<times> 'v) option \<times> ('k, 'v) btree_iter) option" where
  "iter_next it =
     (if iter_length it = 0 then Some (None, it)
      else map_option (\<lambda>(kv, x). (Some kv, it\<lparr>front_edge := x, iter_length := iter_length it - 1\<rparr>))
             (next_unchecked (front_edge it)))"

definition iter_next_back :: "('k, 'v) btree_iter \<Rightarrow> (('k \<times> 'v) option \<times> ('k, 'v) btree_iter) option" where
  "iter_next_back it =
     (if iter_length it = 0 then Some (None, it)
      else map_option (\<lambda>(kv, x). (Some kv, it\<lparr>back_edge := x, iter_length := iter_length it - 1\<rparr>))
             (next_back_unchecked (back_edge it)))"


definition keys_next_back :: "('k, 'v) btree_iter \<Rightarrow> ('k option \<times> ('k, 'v) btree_iter) option" where
  "keys_next_back it = map_option (\<lambda>(r, it). (map_option fst r, it)) (iter_next_back it)"

text \<open>\<open>map.keys().rev().nth(0)\<close>: the first element of the reversed key iterator.\<close>

definition btree_last_key :: "('k, 'v) btree_map \<Rightarrow> 'k option option" where
  "btree_last_key m = map_option fst (keys_next_back (btree_iter_new m))"


section \<open>The invariant and the abstraction\<close>

definition sorted_keys :: "('k :: linorder \<times> 'v) list \<Rightarrow> bool" where
  "sorted_keys xs \<longleftrightarrow> sorted_wrt (<) (map fst xs)"

definition root_ok :: "nat \<Rightarrow> ('k, 'v) node \<Rightarrow> bool" where
  "root_ok h n \<longleftrightarrow> shape h n \<and> (0 < h \<longrightarrow> 0 < node_len n)"

definition entries :: "('k, 'v) btree_map \<Rightarrow> ('k \<times> 'v) list" where
  "entries m = to_list (root m)"

definition map_inv :: "('k :: linorder, 'v) btree_map \<Rightarrow> bool" where
  "map_inv m \<longleftrightarrow> root_ok (height m) (root m) \<and> sorted_keys (entries m) \<and>
     map_length m = length (entries m) \<and> (shared_root m \<longrightarrow> root m = Node [] [] \<and> height m = 0)"

lemma sorted_keys_append:
  "sorted_keys (xs @ ys) \<longleftrightarrow> sorted_keys xs \<and> sorted_keys ys \<and> (\<forall>x \<in> set xs. \<forall>y \<in> set ys. fst x < fst y)"
  by (auto simp: sorted_keys_def sorted_wrt_append)

lemma sorted_keys_Cons:
  "sorted_keys (x # xs) \<longleftrightarrow> (\<forall>y \<in> set xs. fst x < fst y) \<and> sorted_keys xs"
  by (auto simp: sorted_keys_def)

lemma sorted_keys_Nil [simp]: "sorted_keys []"
  by (simp add: sorted_keys_def)

lemmas sorted_keys_simps = sorted_keys_append sorted_keys_Cons

lemma path_shape_parent:
  assumes "path_shape h ((ks, es, i) # p)" "shape h n" "4 \<le> node_len n"
  shows "shape (Suc h) (Node ks (es[i := n]))"
proof -
  have "4 \<le> node_len e \<and> shape h e" if e: "e \<in> set (es[i := n])" for e
  proof -
    from e obtain j where "j < length es" "e = es[i := n] ! j" by (auto simp: in_set_conv_nth)
    then show ?thesis using assms by (cases "j = i") auto
  qed
  then show ?thesis using assms(1) by simp
qed

lemma plug_ok:
  "path_shape h p \<Longrightarrow> shape h n \<Longrightarrow> (if p = [] then 0 < h \<longrightarrow> 0 < node_len n else 4 \<le> node_len n) \<Longrightarrow>
   root_ok (h + length p) (plug p n)"
proof (induction p arbitrary: h n)
  case Nil
  then show ?case by (simp add: root_ok_def)
next
  case (Cons f p)
  obtain ks es i where f: "f = (ks, es, i)" by (cases f)
  have "path_shape h ((ks, es, i) # p)" using Cons.prems(1) unfolding f .
  from path_shape_parent [OF this Cons.prems(2)] Cons.prems(3)
  have "shape (Suc h) (Node ks (es[i := n]))" by simp
  with Cons.IH [of "Suc h" "Node ks (es[i := n])"] Cons.prems f show ?case
    by (auto split: if_splits)
qed

section \<open>Insertion\<close>

lemma insert_up_ok:
  assumes "path_shape h p" "shape h l" "shape h r" "4 \<le> node_len l" "4 \<le> node_len r"
    and "insert_up al p l kv r (h + length p) a = (Inr u, n, h', a')"
  shows "root_ok h' n \<and> to_list n = lefts p @ to_list l @ kv # to_list r @ rights p"
  using assms
proof (induction p arbitrary: h l kv r a)
  case Nil
  obtain ok b where "al a = (ok, b)" by (cases "al a")
  then show ?case
    using Nil by (cases ok) (auto simp: root_ok_def internal_push_def)
next
  case (Cons f p)
  obtain ks es i where f: "f = (ks, es, i)" by (cases f)
  let ?n = "Node ks (es[i := l])"
  have ps: "path_shape h ((ks, es, i) # p)" using Cons.prems(1) unfolding f .
  then have ks: "i \<le> length ks" "length es = Suc (length ks)" "path_shape (Suc h) p" by auto
  have sh: "shape (Suc h) ?n" by (rule path_shape_parent [OF ps Cons.prems(2,4)])
  let ?xs = "before (map to_list es) ks i @ to_list l @ kv # to_list r @ after (map to_list es) ks i"
  obtain res b where res: "internal_insert al ?n i kv r a = (res, b)" by (cases "internal_insert al ?n i kv r a")
  have res_Inr: "inserted (Suc h) x ?xs (length ks)" if "res = Inr x" for x
    using internal_inserted [OF sh _ Cons.prems(3,5), of i al kv a x b] res ks that
    by (simp add: map_update)
  show ?case
  proof (cases res)
    case (Inl e)
    then show ?thesis using Cons.prems(6) f res by simp
  next
    case (Inr x)
    note ins = res_Inr [OF Inr]
    show ?thesis
    proof (cases x)
      case (Fit m)
      have "path_shape (Suc h) p" and "if p = [] then 0 < length ks else 4 \<le> length ks"
        using ps unfolding path_shape.simps by blast+
      then have "root_ok (Suc h + length p) (plug p m)"
        using plug_ok [of "Suc h" p m] ins Fit by (auto simp: inserted_def split: if_splits)
      moreover have "to_list (plug p m) = lefts p @ ?xs @ rights p"
        using path_shape_plug [OF ks(3)] ins Fit by (simp add: inserted_def)
      ultimately show ?thesis using Cons.prems(6) f res Inr Fit by auto
    next
      case (Split l' kv' r')
      then have "insert_up al p l' kv' r' (Suc h + length p) b = (Inr u, n, h', a')"
        using Cons.prems(6) f res Inr by simp
      with Cons.IH [OF ks(3) _ _ _ _ this] ins Split f show ?thesis
        by (auto simp: inserted_def)
    qed
  qed
qed

lemma vacant_insert_ok:
  assumes "path_shape 0 p" "shape 0 n" "idx \<le> node_len n" "p \<noteq> [] \<longrightarrow> 4 \<le> node_len n"
    and ins: "vacant_insert al (n, idx, p) kv (length p) a = (Inr u, n', h', a')"
  shows "root_ok h' n' \<and>
     to_list n' = lefts p @ take idx (kvs n) @ kv # drop idx (kvs n) @ rights p"
proof -
  obtain res b where res: "leaf_insert al n idx kv a = (res, b)" by (cases "leaf_insert al n idx kv a")
  show ?thesis
  proof (cases res)
    case (Inl e)
    then show ?thesis using ins res by (simp add: vacant_insert_def)
  next
    case (Inr x)
    have ok: "inserted 0 x (take idx (kvs n) @ kv # drop idx (kvs n)) (node_len n)"
      using leaf_inserted [OF assms(2,3)] res Inr by simp
    show ?thesis
    proof (cases x)
      case (Fit m)
      then have m: "shape 0 m" "to_list m = take idx (kvs n) @ kv # drop idx (kvs n)"
        "node_len m = Suc (node_len n)"
        using ok by (auto simp: inserted_def)
      then have "root_ok (0 + length p) (plug p m)"
        using plug_ok [OF assms(1) m(1)] assms(4) by auto
      moreover have "n' = plug p m" "h' = length p"
        using ins res Inr Fit by (simp_all add: vacant_insert_def)
      ultimately show ?thesis using path_shape_plug [OF assms(1), of m] m(2) by simp
    next
      case (Split l m r)
      then have s: "shape 0 l" "shape 0 r" "4 \<le> node_len l" "4 \<le> node_len r"
        "to_list l @ m # to_list r = take idx (kvs n) @ kv # drop idx (kvs n)"
        using ok by (auto simp: inserted_def)
      have "insert_up al p l m r (0 + length p) b = (Inr u, n', h', a')"
        using ins res Inr Split by (simp add: vacant_insert_def)
      from insert_up_ok [OF assms(1) s(1-4) this] s(5) show ?thesis
        by (metis append_Cons append_assoc)
    qed
  qed
qed



section \<open>Search\<close>

lemma search_linear_from_spec:
  assumes "search_linear_from b xs key = (j, f)"
  obtains i where "j = b + i" "i \<le> length xs" "\<forall>x \<in> set (take i xs). fst x < key"
    "f \<Longrightarrow> i < length xs \<and> fst (xs ! i) = key"
    "\<not> f \<Longrightarrow> i < length xs \<Longrightarrow> key < fst (xs ! i)"
  using assms
proof (induction b xs key arbitrary: thesis rule: search_linear_from.induct)
  case (1 b key)
  from 1(1) [of 0] 1(2) show ?case by auto
next
  case (2 b k v xs key)
  show ?case
  proof (cases "key > k")
    case True
    show ?thesis
    proof (rule 2(1) [OF True _ 2(3) [simplified True search_linear_from.simps if_True]])
      fix i
      assume "j = b + 1 + i" "i \<le> length xs" "\<forall>x \<in> set (take i xs). fst x < key"
        "f \<Longrightarrow> i < length xs \<and> fst (xs ! i) = key" "\<not> f \<Longrightarrow> i < length xs \<Longrightarrow> key < fst (xs ! i)"
      then show ?thesis using True by (intro 2(2) [of "Suc i"]) auto
    qed
  next
    case False
    then show ?thesis using 2(3) by (intro 2(2) [of 0]) (auto split: if_splits)
  qed
qed

lemma search_linear_spec:
  assumes "search_linear n key = (i, f)"
  shows "i \<le> node_len n" "\<forall>x \<in> set (take i (kvs n)). fst x < key"
    "f \<Longrightarrow> i < node_len n \<and> fst (kvs n ! i) = key"
    "\<not> f \<Longrightarrow> i < node_len n \<Longrightarrow> key < fst (kvs n ! i)"
  using search_linear_from_spec [OF assms [unfolded search_linear_def]] by (metis add_0)+

text \<open>A cursor: a node with the path above it, both in shape.\<close>

definition cursor :: "nat \<Rightarrow> ('k, 'v) node \<Rightarrow> ('k, 'v) path \<Rightarrow> bool" where
  "cursor h n p \<longleftrightarrow> path_shape h p \<and> shape h n \<and>
     (if p = [] then 0 < h \<longrightarrow> 0 < node_len n else 4 \<le> node_len n)"

lemma cursor_root: "root_ok h n \<longleftrightarrow> cursor h n []"
  by (simp add: cursor_def root_ok_def)

lemma cursor_plug: "cursor h n p \<Longrightarrow> root_ok (h + length p) (plug p n)"
  by (auto simp: cursor_def intro: plug_ok)

lemma cursor_descend:
  assumes "cursor (Suc h) n p" "i \<le> node_len n"
  shows "cursor h (edges n ! i) ((kvs n, edges n, i) # p)"
    and "plug ((kvs n, edges n, i) # p) (edges n ! i) = plug p n"
proof -
  have "shape (Suc h) n" using assms(1) by (simp add: cursor_def)
  then show "cursor h (edges n ! i) ((kvs n, edges n, i) # p)"
    using assms by (auto simp: cursor_def split: if_splits)
  show "plug ((kvs n, edges n, i) # p) (edges n ! i) = plug p n" by simp
qed

lemma to_list_edge:
  assumes "shape (Suc h) n" "i \<le> node_len n"
  shows "to_list n = before (map to_list (edges n)) (kvs n) i @ to_list (edges n ! i) @
     after (map to_list (edges n)) (kvs n) i"
  using assms interleave_split [of "map to_list (edges n)" "kvs n" i] by (cases n) simp

lemma before_less:
  assumes "sorted_keys (interleave ls ks)" "length ls = Suc (length ks)" "i \<le> length ks"
    "\<forall>x \<in> set (take i ks). fst x < key"
  shows "\<forall>x \<in> set (before ls ks i). fst x < key"
proof (cases i)
  case 0
  then show ?thesis by (simp add: before_def)
next
  case (Suc j)
  have b: "before ls ks i = before ls ks j @ ls ! j @ [ks ! j]"
    using before_split [of ls ks j] assms(2,3) Suc by simp
  have "sorted_keys (before ls ks j @ ls ! j @ [ks ! j])"
    using assms(1) interleave_split [OF assms(2,3)] b by (auto simp: sorted_keys_simps)
  moreover have "fst (ks ! j) < key"
    using assms(3,4) Suc by (auto simp: take_Suc_conv_app_nth)
  ultimately show ?thesis unfolding b by (auto simp: sorted_keys_simps)
qed

lemma after_greater:
  assumes "sorted_keys (interleave ls ks)" "length ls = Suc (length ks)" "i \<le> length ks"
    "i < length ks \<Longrightarrow> key < fst (ks ! i)"
  shows "\<forall>x \<in> set (after ls ks i). key < fst x"
proof (cases "i < length ks")
  case True
  have "sorted_keys (after ls ks i)"
    using assms(1) interleave_split [OF assms(2,3)] by (simp add: sorted_keys_simps)
  moreover obtain zs where "after ls ks i = ks ! i # zs" using after_split [OF assms(2) True] by blast
  ultimately have "\<forall>x \<in> set (after ls ks i). fst (ks ! i) \<le> fst x" by (auto simp: sorted_keys_Cons)
  then show ?thesis using assms(4) [OF True] by (meson less_le_trans)
qed (simp add: after_def)

definition located :: "'k :: linorder \<Rightarrow> ('k, 'v) node \<Rightarrow> nat \<Rightarrow> ('k, 'v) search_result \<Rightarrow> bool" where
  "located key rt hh r \<longleftrightarrow>
     (case r of
        Found h (n, i, p) \<Rightarrow> cursor h n p \<and> i < node_len n \<and> fst (kvs n ! i) = key \<and>
          plug p n = rt \<and> h + length p = hh
      | GoDown (n, i, p) \<Rightarrow> cursor 0 n p \<and> i \<le> node_len n \<and> plug p n = rt \<and> length p = hh \<and>
          (\<forall>x \<in> set (lefts p @ take i (kvs n)). fst x < key) \<and>
          (\<forall>x \<in> set (drop i (kvs n) @ rights p). key < fst x))"

lemma search_tree_located:
  assumes "cursor h n p" "sorted_keys (to_list n)"
    "\<forall>x \<in> set (lefts p). fst x < key" "\<forall>x \<in> set (rights p). key < fst x"
  shows "located key (plug p n) (h + length p) (search_tree h n p key)"
  using assms
proof (induction h arbitrary: n p)
  case 0
  obtain i f where s: "search_linear n key = (i, f)" by (cases "search_linear n key")
  note sp = search_linear_spec [OF s]
  have es: "edges n = []" "to_list n = kvs n" using 0(1) by (cases n; simp add: cursor_def)+
  show ?case
  proof (cases f)
    case True
    then show ?thesis using 0 s sp by (simp add: search_node_def located_def)
  next
    case False
    have "\<forall>x \<in> set (drop i (kvs n)). key < fst x"
    proof (cases "i < node_len n")
      case True
      have "sorted_keys (take i (kvs n) @ kvs n ! i # drop (Suc i) (kvs n))"
        using 0(2) es(2) True by (simp add: id_take_nth_drop [symmetric])
      then show ?thesis
        using sp(4) [OF False True] True
        by (auto simp: sorted_keys_simps Cons_nth_drop_Suc [symmetric])
    qed simp
    then show ?thesis using 0 s sp False by (auto simp: search_node_def located_def)
  qed
next
  case (Suc h)
  obtain i f where s: "search_linear n key = (i, f)" by (cases "search_linear n key")
  note sp = search_linear_spec [OF s]
  have sh: "shape (Suc h) n" "length (edges n) = Suc (node_len n)" using Suc.prems(1) by (simp_all add: cursor_def)
  show ?case
  proof (cases f)
    case True
    then show ?thesis using Suc.prems(1) s sp by (simp add: search_node_def located_def)
  next
    case False
    let ?ls = "map to_list (edges n)"
    have il: "sorted_keys (interleave ?ls (kvs n))" using Suc.prems(2) by (cases n) simp
    have "\<forall>x \<in> set (before ?ls (kvs n) i). fst x < key"
      using before_less [OF il _ sp(1,2)] sh(2) by simp
    moreover have "\<forall>x \<in> set (after ?ls (kvs n) i). key < fst x"
      using after_greater [OF il _ sp(1)] sp(4) [OF False] sh(2) by simp
    moreover have "sorted_keys (to_list (edges n ! i))"
      using Suc.prems(2) to_list_edge [OF sh(1) sp(1)] by (simp add: sorted_keys_simps)
    ultimately have "located key (plug ((kvs n, edges n, i) # p) (edges n ! i))
        (h + length ((kvs n, edges n, i) # p)) (search_tree h (edges n ! i) ((kvs n, edges n, i) # p) key)"
      using Suc.prems(3,4) by (intro Suc.IH cursor_descend(1) [OF Suc.prems(1) sp(1)]) auto
    then show ?thesis using s False by (simp add: search_node_def descend_def)
  qed
qed



section \<open>Lookup, update and insertion refine the finite map\<close>

lemma to_list_kv:
  assumes "shape h n" "i < node_len n"
  obtains X Y where "\<And>kv. to_list (Node ((kvs n)[i := kv]) (edges n)) = X @ kv # Y"
    "to_list n = X @ kvs n ! i # Y"
    "X = (if h = 0 then take i (kvs n) else before (map to_list (edges n)) (kvs n) i @ to_list (edges n ! i))"
    "Y = (if h = 0 then drop (Suc i) (kvs n) else to_list (edges n ! Suc i) @ after (map to_list (edges n)) (kvs n) (Suc i))"
proof (cases h)
  case 0
  then have "edges n = []" using assms by simp
  then show ?thesis
    using that [of "take i (kvs n)" "drop (Suc i) (kvs n)"] assms 0
    by (cases n) (simp add: upd_conv_take_nth_drop id_take_nth_drop [symmetric])
next
  case (Suc h')
  let ?ls = "map to_list (edges n)"
  have len: "length ?ls = Suc (node_len n)" using assms Suc by simp
  have eq: "to_list (Node ((kvs n)[i := kv]) (edges n)) =
      (before ?ls (kvs n) i @ ?ls ! i) @ kv # ?ls ! Suc i @ after ?ls (kvs n) (Suc i)" for kv
    using interleave_split [of ?ls "(kvs n)[i := kv]" i] after_split [of ?ls "(kvs n)[i := kv]" i]
      before_cong [of i ?ls ?ls "(kvs n)[i := kv]" "kvs n"]
      after_cong [of "Suc i" ?ls ?ls "(kvs n)[i := kv]" "kvs n"] len assms(2)
    by simp
  have "?ls ! i = to_list (edges n ! i)" "?ls ! Suc i = to_list (edges n ! Suc i)"
    using len assms(2) by simp_all
  then show ?thesis
    using that [of "before ?ls (kvs n) i @ to_list (edges n ! i)"
        "to_list (edges n ! Suc i) @ after ?ls (kvs n) (Suc i)"] eq eq [of "kvs n ! i"] Suc
    by (cases n) auto
qed

lemma sorted_keys_notin:
  "sorted_keys (L @ (k, v) # R) \<Longrightarrow> k \<notin> fst ` set L \<and> k \<notin> fst ` set R"
  by (force simp: sorted_keys_simps)

lemma map_of_insert:
  assumes "sorted_keys (L @ (k, v) # R)"
  shows "map_of (L @ (k, v) # R) = (map_of (L @ R))(k \<mapsto> v)" and "map_of (L @ R) k = None"
proof -
  have n: "k \<notin> fst ` set L" "k \<notin> fst ` set R" using sorted_keys_notin [OF assms] by auto
  then have none: "map_of L k = None" "map_of R k = None" by (simp_all add: map_of_eq_None_iff)
  then show "map_of (L @ (k, v) # R) = (map_of (L @ R))(k \<mapsto> v)"
    by (auto simp: fun_eq_iff map_add_def split: option.splits)
  show "map_of (L @ R) k = None" using none by (simp add: map_add_def)
qed

lemma sorted_keys_value: "sorted_keys (L @ (k, v) # R) \<Longrightarrow> sorted_keys (L @ (k, w) # R)"
  by (simp add: sorted_keys_def)

lemma search_root:
  assumes "map_inv m"
  shows "located key (root m) (height m) (search_tree (height m) (root m) [] key)"
  using search_tree_located [of "height m" "root m" "[]" key] assms
  by (auto simp: map_inv_def cursor_root entries_def)

text \<open>The two outcomes of a search in a well-formed map, as splittings of its entries.\<close>

lemma search_found:
  assumes inv: "map_inv m" and f: "search_tree (height m) (root m) [] key = Found h (n, i, p)"
  obtains L R where "cursor h n p" "i < node_len n" "fst (kvs n ! i) = key" "h + length p = height m"
    "plug p n = root m" "entries m = L @ kvs n ! i # R"
    "\<And>v. root_ok (height m) (plug p (Node ((kvs n)[i := v]) (edges n)))"
    "\<And>v. to_list (plug p (Node ((kvs n)[i := v]) (edges n))) = L @ v # R"
proof -
  have l: "cursor h n p" "i < node_len n" "fst (kvs n ! i) = key" "plug p n = root m" "h + length p = height m"
    using search_root [OF inv, of key] f by (simp_all add: located_def)
  have sh: "shape h n" "path_shape h p" using l(1) by (simp_all add: cursor_def)
  obtain X Y where XY: "\<And>kv. to_list (Node ((kvs n)[i := kv]) (edges n)) = X @ kv # Y"
    "to_list n = X @ kvs n ! i # Y" using to_list_kv [OF sh(1) l(2)] by metis
  have cu: "cursor h (Node ((kvs n)[i := v]) (edges n)) p" for v
    using l(1) by (cases h) (auto simp: cursor_def split: if_splits)
  show ?thesis
  proof (rule that [OF l(1-3,5,4)])
    show "entries m = (lefts p @ X) @ kvs n ! i # Y @ rights p"
      using path_shape_plug [OF sh(2), of n] XY(2) l(4) by (simp add: entries_def)
    show "root_ok (height m) (plug p (Node ((kvs n)[i := v]) (edges n)))" for v
      using cursor_plug [OF cu] l(5) by simp
    show "to_list (plug p (Node ((kvs n)[i := v]) (edges n))) = (lefts p @ X) @ v # Y @ rights p" for v
      using path_shape_plug [OF sh(2)] XY(1) by simp
  qed
qed

lemma search_go_down:
  assumes inv: "map_inv m" and f: "search_tree (height m) (root m) [] key = GoDown (n, i, p)"
  obtains L R where "cursor 0 n p" "i \<le> node_len n" "length p = height m" "plug p n = root m"
    "L = lefts p @ take i (kvs n)" "R = drop i (kvs n) @ rights p" "entries m = L @ R"
    "\<And>v. sorted_keys (L @ (key, v) # R)"
proof -
  have l: "cursor 0 n p" "i \<le> node_len n" "length p = height m" "plug p n = root m"
    and lt: "\<forall>x \<in> set (lefts p @ take i (kvs n)). fst x < key"
      "\<forall>x \<in> set (drop i (kvs n) @ rights p). key < fst x"
    using search_root [OF inv, of key] f by (simp_all add: located_def)
  have "edges n = []" "path_shape 0 p" using l(1) by (simp_all add: cursor_def)
  then have e: "entries m = (lefts p @ take i (kvs n)) @ drop i (kvs n) @ rights p"
    using path_shape_plug [of 0 p n] l(4) by (cases n) (simp add: entries_def)
  have "sorted_keys (entries m)" using inv by (simp add: map_inv_def)
  then have "sorted_keys ((lefts p @ take i (kvs n)) @ (key, v) # drop i (kvs n) @ rights p)" for v
    using lt e by (fastforce simp: sorted_keys_simps)
  then show ?thesis using that [OF l(1-4) refl refl e] by blast
qed

lemma sorted_distinct: "sorted_keys xs \<Longrightarrow> distinct (map fst xs)"
  by (simp add: sorted_keys_def strict_sorted_iff)

lemma btree_get_entries:
  assumes inv: "map_inv m"
  shows "btree_get m key = map_of (entries m) key"
proof (cases "search_tree (height m) (root m) [] key")
  case (Found h x)
  obtain n i p where x: "x = (n, i, p)" by (cases x)
  obtain L R where e: "fst (kvs n ! i) = key" "entries m = L @ kvs n ! i # R"
    using search_found [OF inv Found [unfolded x]] by metis
  then have "(key, snd (kvs n ! i)) \<in> set (entries m)" by (metis in_set_conv_decomp prod.collapse)
  moreover have "distinct (map fst (entries m))" using inv sorted_distinct by (auto simp: map_inv_def)
  ultimately show ?thesis using Found x by (simp add: btree_get_def)
next
  case (GoDown x)
  obtain n i p where x: "x = (n, i, p)" by (cases x)
  obtain L R where "entries m = L @ R" "\<And>v. sorted_keys (L @ (key, v) # R)"
    using search_go_down [OF inv GoDown [unfolded x]] by metis
  then show ?thesis using map_of_insert(2) [of L key _ R] GoDown
    by (simp add: btree_get_def map_add_def)
qed


lemma ensure_root_is_owned_ok:
  assumes "map_inv m" "ensure_root_is_owned al m a = (Inr u, m', a')"
  shows "map_inv m' \<and> entries m' = entries m \<and> \<not> shared_root m' \<and> map_length m' = map_length m"
  using assms
  by (auto simp: ensure_root_is_owned_def map_inv_def root_ok_def entries_def split: if_splits prod.splits bool.splits)

lemma btree_insert_ok:
  assumes inv: "map_inv m" and ins: "btree_insert al m key v a = (Inr old, m', a')"
  shows "map_inv m' \<and> old = map_of (entries m) key \<and> map_of (entries m') = (map_of (entries m))(key \<mapsto> v)"
proof -
  obtain r m1 b where o: "ensure_root_is_owned al m a = (r, m1, b)" by (cases "ensure_root_is_owned al m a")
  then obtain u where "r = Inr u" using ins by (cases r) (auto simp: btree_insert_def)
  then have o': "ensure_root_is_owned al m a = (Inr u, m1, b)" using o by simp
  have m1: "map_inv m1" "entries m1 = entries m" "\<not> shared_root m1"
    using ensure_root_is_owned_ok [OF inv o'] by auto
  show ?thesis
  proof (cases "search_tree (height m1) (root m1) [] key")
    case (Found h x)
    obtain n i p where x: "x = (n, i, p)" by (cases x)
    obtain L R where e: "fst (kvs n ! i) = key" "entries m1 = L @ kvs n ! i # R"
      "\<And>w. root_ok (height m1) (plug p (Node ((kvs n)[i := w]) (edges n)))"
      "\<And>w. to_list (plug p (Node ((kvs n)[i := w]) (edges n))) = L @ w # R"
      using search_found [OF m1(1) Found [unfolded x]] by metis
    have kv: "kvs n ! i = (key, snd (kvs n ! i))" using e(1) by (metis prod.collapse)
    have s: "sorted_keys (L @ (key, w) # R)" for w
      using m1(1) e(2) kv sorted_keys_value [of L key "snd (kvs n ! i)" R w] by (simp add: map_inv_def)
    have m': "m' = m1\<lparr>root := plug p (Node ((kvs n)[i := (key, v)]) (edges n))\<rparr>" "old = Some (snd (kvs n ! i))"
      using ins o' Found x e(1) by (auto simp: btree_insert_def)
    then have "entries m' = L @ (key, v) # R" using e(4) by (simp add: entries_def)
    moreover have "map_of (entries m) = (map_of (L @ R))(key \<mapsto> snd (kvs n ! i))"
      using map_of_insert(1) [OF s] e(2) kv m1(2) by metis
    moreover have "length (entries m) = Suc (length L + length R)" using e(2) m1(2) by simp
    then have "map_inv m'"
      using m1 e(3) s calculation(1) m'(1) by (auto simp: map_inv_def)
    ultimately show ?thesis using map_of_insert(1) [OF s] m'(2) by auto
  next
    case (GoDown x)
    obtain n i p where x: "x = (n, i, p)" by (cases x)
    obtain L R where e: "cursor 0 n p" "i \<le> node_len n" "length p = height m1"
      "L = lefts p @ take i (kvs n)" "R = drop i (kvs n) @ rights p" "entries m1 = L @ R"
      "\<And>v. sorted_keys (L @ (key, v) # R)"
      using search_go_down [OF m1(1) GoDown [unfolded x]] by metis
    obtain r' n' h' c where vi: "vacant_insert al x (key, v) (height m1) b = (r', n', h', c)"
      by (cases "vacant_insert al x (key, v) (height m1) b")
    then obtain u' where r': "r' = Inr u'" using ins o' GoDown by (cases r') (auto simp: btree_insert_def)
    have m': "m' = m1\<lparr>map_length := map_length m1 + 1, root := n', height := h'\<rparr>" "old = None"
      using ins o' GoDown vi r' by (auto simp: btree_insert_def)
    have vi': "vacant_insert al (n, i, p) (key, v) (length p) b = (Inr u', n', h', c)"
      using vi r' x e(3) by simp
    have n': "root_ok h' n'" "to_list n' = L @ (key, v) # R"
      using vacant_insert_ok [OF _ _ e(2) _ vi'] e(1,4,5) by (auto simp: cursor_def)
    have "entries m' = L @ (key, v) # R" using n'(2) m'(1) by (simp add: entries_def)
    moreover from this have "map_inv m'"
      using m1(1,3) n'(1) m'(1) e(6,7) by (auto simp: map_inv_def)
    moreover have "map_of (entries m) key = None" using map_of_insert(2) [OF e(7)] e(6) m1(2) by metis
    ultimately show ?thesis
      using map_of_insert(1) [OF e(7)] e(6) m1(2) m'(2) by metis
  qed
qed



section \<open>Removal\<close>

lemma path_pair:
  assumes "path_shape h ((ks, es, i) # p)" "shape h n" "k = i \<or> Suc k = i" "k < length ks"
  shows "pair_of (Node ks (es[i := n])) k h"
  using assms by (auto simp: pair_of_def nth_list_update)

lemma underfull_pair:
  assumes ps: "path_shape h ((ks, es, i) # p)"
  obtains b k where "k < length ks" "k = i \<and> \<not> b \<or> Suc k = i \<and> b"
    "\<And>n. handle_underfull_node h n ((ks, es, i) # p) =
      (let parent = Node ks (es[i := n]) in
       if can_merge parent k then Merged (merge (Suc h) parent k) p
       else if b then Stole (steal_left h parent k) p else Stole (steal_right h parent k) p)"
proof (cases "0 < i")
  case True
  then show ?thesis
    using ps that [of "i - 1" True] by (auto simp: handle_underfull_node_def left_kv_def Let_def)
next
  case False
  moreover have "0 < length ks" using ps by (auto split: if_splits)
  ultimately show ?thesis
    using that [of 0 False] by (auto simp: handle_underfull_node_def left_kv_def right_kv_def Let_def)
qed

lemma underflow_loop_ok:
  assumes "path_shape h p" "shape h n" "if p = [] then 0 < h \<longrightarrow> 0 < node_len n else 3 \<le> node_len n"
  shows "\<exists>n' h'. underflow_loop h n p = Some (n', h') \<and> root_ok h' n' \<and>
     to_list n' = lefts p @ to_list n @ rights p"
  using assms
proof (induction p arbitrary: h n)
  case Nil
  then show ?case
    by (auto simp: underflow_loop.simps [of h n "[]"] handle_underfull_node_def root_ok_def)
next
  case (Cons f p)
  obtain ks es i where f: "f = (ks, es, i)" by (cases f)
  have ps: "path_shape h ((ks, es, i) # p)" using Cons.prems(1) unfolding f .
  have ks: "length es = Suc (length ks)" "i \<le> length ks" "length ks \<le> 11" "path_shape (Suc h) p"
    "if p = [] then 0 < length ks else 4 \<le> length ks"
    "\<And>j. j < length es \<Longrightarrow> j \<noteq> i \<Longrightarrow> 4 \<le> node_len (es ! j) \<and> shape h (es ! j)"
    using ps unfolding path_shape.simps capacity by auto
  have len: "3 \<le> node_len n" "node_len n \<le> 11" using Cons.prems(2,3) by (cases h; simp)+
  show ?case
  proof (cases "node_len n < CAPACITY div 2")
    case False
    then have "root_ok (h + length (f # p)) (plug (f # p) n)"
      using plug_ok [OF Cons.prems(1,2)] by simp
    then show ?thesis
      using False path_shape_plug [OF Cons.prems(1), of n] by (simp add: underflow_loop.simps)
  next
    case True
    obtain b k where k: "k < length ks" "k = i \<and> \<not> b \<or> Suc k = i \<and> b"
      and hu: "\<And>n. handle_underfull_node h n ((ks, es, i) # p) =
        (let parent = Node ks (es[i := n]) in
         if can_merge parent k then Merged (merge (Suc h) parent k) p
         else if b then Stole (steal_left h parent k) p else Stole (steal_right h parent k) p)"
      using underfull_pair [OF ps] by metis
    let ?pa = "Node ks (es[i := n])"
    have pr: "pair_of ?pa k h" using path_pair [OF ps Cons.prems(2)] k by blast
    define s where "s = (if b then es ! k else es ! Suc k)"
    have s: "4 \<le> node_len s" using ks(1,6) k by (auto simp: s_def)
    have ch: "edges ?pa ! k = (if b then s else n)" "edges ?pa ! Suc k = (if b then n else s)"
      using k ks(1) by (auto simp: s_def nth_list_update)
    have tl: "lefts (f # p) @ to_list n @ rights (f # p) = lefts p @ to_list ?pa @ rights p"
      using interleave_update [of "map to_list es" ks i "to_list n"] ks f by (simp add: map_update)
    show ?thesis
    proof (cases "can_merge ?pa k")
      case m: True
      let ?m = "merge (Suc h) ?pa k"
      have mk: "to_list ?m = to_list ?pa" "shape (Suc h) ?m" "node_len ?m = length ks - 1"
        "length ks = 1 \<Longrightarrow> 0 < node_len (edges ?m ! 0)"
        using merge_ok [OF pr m] s len ch by auto
      have step: "underflow_loop h n (f # p) =
          (if node_len ?m = 0 then Some (edges (plug p ?m) ! 0, h + length p)
           else underflow_loop (Suc h) ?m p)"
        using True hu [of n] m f by (simp add: underflow_loop.simps [of h n])
      show ?thesis
      proof (cases "node_len ?m = 0")
        case True
        then have p: "p = []" and one: "length ks = 1" using mk(3) ks(5) k by (auto split: if_splits)
        obtain c where c: "edges ?m = [c]" "kvs ?m = []"
          using mk(2) True by (cases "edges ?m"; cases "tl (edges ?m)") auto
        have "to_list ?m = to_list c" using c by (cases ?m) simp
        then show ?thesis
          using step True p c mk one tl by (auto simp: root_ok_def)
      next
        case False
        have "if p = [] then 0 < Suc h \<longrightarrow> 0 < node_len ?m else 3 \<le> node_len ?m"
          using False mk(3) ks(5) by (auto split: if_splits)
        from Cons.IH [OF ks(4) mk(2) this] show ?thesis using step False mk(1) tl by simp
      qed
    next
      case m: False
      define st where "st = (if b then steal_left h ?pa k else steal_right h ?pa k)"
      have big: "7 \<le> node_len s" using m True ch by (auto simp: can_merge_def split: if_splits)
      have st: "to_list st = to_list ?pa \<and> shape (Suc h) st \<and> node_len st = length ks"
      proof (cases b)
        case True
        then show ?thesis
          using steal_left_ok [OF pr] big len \<open>node_len n < CAPACITY div 2\<close> ch
          by (simp add: st_def del: shape.simps)
      next
        case False
        then show ?thesis
          using steal_right_ok [OF pr] big len True ch by (simp add: st_def del: shape.simps)
      qed
      have "root_ok (Suc h + length p) (plug p st)"
        using plug_ok [OF ks(4), of st] st ks(5) by (auto split: if_splits)
      moreover have "underflow_loop h n (f # p) = Some (plug p st, Suc h + length p)"
        using True hu [of n] m f by (simp add: underflow_loop.simps [of h n] st_def)
      ultimately show ?thesis using path_shape_plug [OF ks(4), of st] st tl by simp
    qed
  qed
qed


lemma first_leaf:
  assumes "shape h c" "4 \<le> node_len c"
  shows "\<exists>leaf front rest. shape 0 leaf \<and> 4 \<le> node_len leaf \<and> to_list c = kvs leaf @ rest \<and>
     length front = h \<and>
     (\<forall>p. first_leaf_edge h c p = (leaf, 0, front @ p) \<and> lefts (front @ p) = lefts p \<and>
       rights (front @ p) = rest @ rights p \<and>
       (p \<noteq> [] \<longrightarrow> path_shape h p \<longrightarrow> path_shape 0 (front @ p)))"
  using assms
proof (induction h arbitrary: c)
  case 0
  then show ?case using shape_leaf [of c] by (intro exI [of _ c] exI [of _ "[]"]) simp
next
  case (Suc h)
  let ?d = "edges c ! 0" and ?fr = "(kvs c, edges c, 0 :: nat)"
  have es: "length (edges c) = Suc (node_len c)" "node_len c \<le> 11"
    "\<forall>e \<in> set (edges c). 4 \<le> node_len e \<and> shape h e" using Suc.prems(1) by simp_all
  then have d: "?d \<in> set (edges c)" by (intro nth_mem) simp
  then obtain leaf front rest where IH: "shape 0 leaf" "4 \<le> node_len leaf" "to_list ?d = kvs leaf @ rest"
    "length front = h"
    "\<forall>p. first_leaf_edge h ?d p = (leaf, 0, front @ p) \<and> lefts (front @ p) = lefts p \<and>
       rights (front @ p) = rest @ rights p \<and>
       (p \<noteq> [] \<longrightarrow> path_shape h p \<longrightarrow> path_shape 0 (front @ p))"
    using Suc.IH [of ?d] es(3) by metis
  have lr: "lefts (?fr # p) = lefts p" "rights (?fr # p) = after (map to_list (edges c)) (kvs c) 0 @ rights p" for p
    by (simp_all add: before_def)
  have "path_shape h (?fr # p)" if "p \<noteq> []" "path_shape (Suc h) p" for p
    using that es Suc.prems(2) by simp
  then show ?case
    using IH to_list_edge [OF Suc.prems(1), of 0] lr
    by (intro exI [of _ leaf] exI [of _ "front @ [?fr]"]
        exI [of _ "rest @ after (map to_list (edges c)) (kvs c) 0"])
      (simp add: descend_def before_def del: path_shape.simps)
qed

lemma leaf_remove_ok:
  assumes "shape 0 n" "i < node_len n"
  shows "leaf_remove n i = (Node (take i (kvs n) @ drop (Suc i) (kvs n)) [], kvs n ! i)"
  using assms by (simp add: leaf_remove_def slice_remove_def)

lemma remove_kv_ok:
  assumes cu: "cursor h n p" and i: "i < node_len n"
    and L: "lefts p @ to_list n @ rights p = L @ kvs n ! i # R"
    and u: "\<And>L' R'. L' @ kvs n ! i # R' = L @ kvs n ! i # R \<Longrightarrow> L' = L \<and> R' = R"
  shows "\<exists>n' h'. remove_kv h (n, i, p) = Some (kvs n ! i, n', h') \<and> root_ok h' n' \<and> to_list n' = L @ R"
proof (cases h)
  case 0
  let ?hole = "Node (take i (kvs n) @ drop (Suc i) (kvs n)) []"
  have sh: "shape 0 n" "path_shape 0 p" "p \<noteq> [] \<longrightarrow> 4 \<le> node_len n"
    using cu 0 by (auto simp: cursor_def)
  have tl: "to_list n = take i (kvs n) @ kvs n ! i # drop (Suc i) (kvs n)"
    using shape_leaf [OF sh(1)] i by (simp add: id_take_nth_drop [symmetric])
  have LR: "lefts p @ take i (kvs n) = L" "drop (Suc i) (kvs n) @ rights p = R"
    using u [of "lefts p @ take i (kvs n)" "drop (Suc i) (kvs n) @ rights p"] L tl by simp_all
  have "\<exists>n' h'. underflow_loop 0 ?hole p = Some (n', h') \<and> root_ok h' n' \<and>
      to_list n' = lefts p @ to_list ?hole @ rights p"
    using sh i by (intro underflow_loop_ok) auto
  then show ?thesis
    using 0 leaf_remove_ok [OF sh(1) i] LR by (auto simp: remove_kv_def)
next
  case (Suc h')
  let ?ls = "map to_list (edges n)" and ?c = "edges n ! Suc i"
  have sh: "shape (Suc h') n" "path_shape (Suc h') p" "if p = [] then 0 < node_len n else 4 \<le> node_len n"
    using cu Suc by (auto simp: cursor_def split: if_splits)
  have es: "length (edges n) = Suc (node_len n)" "node_len n \<le> 11"
    "\<forall>e \<in> set (edges n). 4 \<le> node_len e \<and> shape h' e" using sh(1) by simp_all
  then have c: "shape h' ?c" "4 \<le> node_len ?c" using i by simp_all
  obtain leaf front rest where fl: "shape 0 leaf" "4 \<le> node_len leaf" "to_list ?c = kvs leaf @ rest"
    "length front = h'"
    and fp: "\<And>p. first_leaf_edge h' ?c p = (leaf, 0, front @ p)" "\<And>p. lefts (front @ p) = lefts p"
      "\<And>p. rights (front @ p) = rest @ rights p"
      "\<And>p. p \<noteq> [] \<Longrightarrow> path_shape h' p \<Longrightarrow> path_shape 0 (front @ p)"
    using first_leaf [OF c] by metis
  obtain kv xs where leaf: "kvs leaf = kv # xs" using fl(2) by (cases "kvs leaf") auto
  define ks' where "ks' = (kvs n)[i := kv]"
  let ?q = "front @ (ks', edges n, Suc i) # p" and ?hole = "Node xs []"
  have "remove_kv h (n, i, p) = map_option (\<lambda>r. (kvs n ! i, r)) (underflow_loop 0 ?hole ?q)"
    using Suc fp(1) leaf fl(4) leaf_remove_ok [OF fl(1), of 0]
    by (simp add: remove_kv_def descend_def right_kv_def Let_def ks'_def list_update_append)
  moreover have "\<exists>n' h'. underflow_loop 0 ?hole ?q = Some (n', h') \<and> root_ok h' n' \<and>
      to_list n' = lefts ?q @ to_list ?hole @ rights ?q"
  proof (rule underflow_loop_ok)
    have "path_shape h' ((ks', edges n, Suc i) # p)" using sh es i by (auto simp: ks'_def)
    then show "path_shape 0 ?q" by (rule fp(4) [rotated]) simp
    show "shape 0 ?hole" using fl(1) leaf by simp
    show "if ?q = [] then 0 < (0::nat) \<longrightarrow> 0 < node_len ?hole else 3 \<le> node_len ?hole"
      using fl(2) leaf by simp
  qed
  moreover have "lefts ?q @ to_list ?hole @ rights ?q = L @ R"
  proof -
    let ?X = "before ?ls (kvs n) i @ to_list (edges n ! i)"
    let ?Y = "to_list ?c @ after ?ls (kvs n) (Suc i)"
    have len: "length ?ls = Suc (length ks')" "i < length ks'" using es i by (simp_all add: ks'_def)
    have "to_list n = ?X @ kvs n ! i # ?Y" using to_list_kv [OF sh(1) i] by (metis nat.distinct(1))
    then have LR: "lefts p @ ?X = L" "?Y @ rights p = R"
      using u [of "lefts p @ ?X" "?Y @ rights p"] L by simp_all
    have "before ?ls ks' (Suc i) = ?X @ [kv]"
      using before_split [OF len] before_cong [of i ?ls ?ls ks' "kvs n"] es(1) i by (simp add: ks'_def)
    moreover have "after ?ls ks' (Suc i) = after ?ls (kvs n) (Suc i)"
      by (rule after_cong) (simp_all add: ks'_def)
    ultimately have "lefts ?q = lefts p @ ?X @ [kv]"
      "rights ?q = rest @ after ?ls (kvs n) (Suc i) @ rights p" using fp(2,3) by simp_all
    then show ?thesis using LR fl(3) leaf by auto
  qed
  ultimately show ?thesis by auto
qed


lemma sorted_split_unique:
  assumes "sorted_keys (L @ (k, v) # R)" "L' @ (k, v) # R' = L @ (k, v) # R"
  shows "L' = L \<and> R' = R"
proof -
  have "(k, v) \<notin> set L" "(k, v) \<notin> set R" using sorted_keys_notin [OF assms(1)] by (auto simp: image_iff)
  moreover have "(k, v) \<notin> set L'"
    using sorted_keys_notin [of L' k v R'] assms by (auto simp: image_iff)
  moreover have "(k, v) \<notin> set R'"
    using sorted_keys_notin [of L' k v R'] assms by (auto simp: image_iff)
  ultimately show ?thesis using append_Cons_eq_iff [of "(k, v)" L' R' L R] assms(2) by simp
qed

lemma map_of_delete:
  assumes "sorted_keys (L @ (k, v) # R)"
  shows "map_of (L @ R) = (map_of (L @ (k, v) # R))(k := None)"
  using map_of_insert [OF assms] by (auto simp: fun_eq_iff map_add_def split: option.splits)

lemma btree_remove_ok:
  assumes inv: "map_inv m"
  shows "\<exists>m'. btree_remove m key = Some (map_of (entries m) key, m') \<and> map_inv m' \<and>
     map_of (entries m') = (map_of (entries m))(key := None)"
proof (cases "search_tree (height m) (root m) [] key")
  case (Found h x)
  obtain n i p where x: "x = (n, i, p)" by (cases x)
  obtain L R where e: "cursor h n p" "i < node_len n" "fst (kvs n ! i) = key" "plug p n = root m"
    "entries m = L @ kvs n ! i # R" "h + length p = height m"
    using search_found [OF inv Found [unfolded x]] by metis
  define v where "v = snd (kvs n ! i)"
  have kv: "kvs n ! i = (key, v)" using e(3) by (simp add: v_def prod_eq_iff)
  have s: "sorted_keys (L @ (key, v) # R)" using inv e(5) kv by (simp add: map_inv_def)
  have "lefts p @ to_list n @ rights p = L @ kvs n ! i # R"
    using path_shape_plug [of h p n] e(1,4,5) by (simp add: cursor_def entries_def)
  from remove_kv_ok [OF e(1,2) this] sorted_split_unique [OF s] kv
  obtain n' h' where r: "remove_kv h (n, i, p) = Some ((key, v), n', h')" "root_ok h' n'" "to_list n' = L @ R"
    by auto
  let ?m = "m\<lparr>root := n', height := h', map_length := map_length m - 1\<rparr>"
  have nsh: "\<not> shared_root m" using inv e(5) by (auto simp: map_inv_def entries_def)
  have "entries ?m = L @ R" using r(3) by (simp add: entries_def)
  moreover have "sorted_keys (L @ R)" using s by (auto simp: sorted_keys_simps)
  moreover have "map_length m = Suc (length (L @ R))" using inv e(5) by (simp add: map_inv_def)
  ultimately have "map_inv ?m" using nsh r(2) by (simp add: map_inv_def)
  moreover have "btree_remove m key = Some (Some v, ?m)" using Found x r(1) by (simp add: btree_remove_def)
  moreover have "map_of (entries m) key = Some v" using map_of_insert(1) [OF s] e(5) kv by simp
  ultimately show ?thesis
    using map_of_delete [OF s] \<open>entries ?m = L @ R\<close> e(5) kv by metis
next
  case (GoDown x)
  then have "btree_get m key = None" by (simp add: btree_get_def)
  then show ?thesis
    using GoDown inv btree_get_entries [OF inv, of key] by (auto simp: btree_remove_def fun_eq_iff)
qed

lemma btree_new_ok: "map_inv btree_new" "entries btree_new = []"
  by (simp_all add: map_inv_def btree_new_def root_ok_def entries_def)

lemma btree_update_ok:
  assumes inv: "map_inv m"
  shows "map_inv (btree_update m key f) \<and> map_of (entries (btree_update m key f)) =
     (case map_of (entries m) key of None \<Rightarrow> map_of (entries m)
      | Some v \<Rightarrow> (map_of (entries m))(key \<mapsto> f v))"
proof (cases "search_tree (height m) (root m) [] key")
  case (Found h x)
  obtain n i p where x: "x = (n, i, p)" by (cases x)
  obtain L R where e: "fst (kvs n ! i) = key" "entries m = L @ kvs n ! i # R"
    "\<And>w. root_ok (height m) (plug p (Node ((kvs n)[i := w]) (edges n)))"
    "\<And>w. to_list (plug p (Node ((kvs n)[i := w]) (edges n))) = L @ w # R"
    using search_found [OF inv Found [unfolded x]] by metis
  define v where "v = snd (kvs n ! i)"
  have kv: "kvs n ! i = (key, v)" using e(1) by (simp add: v_def prod_eq_iff)
  have s: "sorted_keys (L @ (key, w) # R)" for w
    using inv e(2) kv sorted_keys_value [of L key v R w] by (simp add: map_inv_def)
  let ?m = "btree_update m key f"
  have m': "?m = m\<lparr>root := plug p (Node ((kvs n)[i := (key, f v)]) (edges n))\<rparr>"
    using Found x kv by (simp add: btree_update_def)
  have ent: "entries ?m = L @ (key, f v) # R" using e(4) m' by (simp add: entries_def)
  have "length (entries m) = Suc (length L + length R)" "\<not> shared_root m"
    using e(2) inv by (auto simp: map_inv_def entries_def)
  then have "map_inv ?m" using inv e(3) s m' ent by (simp add: map_inv_def)
  then show ?thesis
    using map_of_insert(1) [OF s] ent e(2) kv by (simp add: fun_eq_iff)
next
  case (GoDown x)
  then have "btree_get m key = None" by (simp add: btree_get_def)
  then show ?thesis
    using GoDown inv btree_get_entries [OF inv, of key] by (auto simp: btree_update_def)
qed



section \<open>Insertion succeeds when the allocator does\<close>

lemma node_insert_succeeds:
  assumes "al a = (True, b)"
  shows "\<exists>x c. internal_insert al n i kv r a = (Inr x, c)" "\<exists>x c. leaf_insert al n i kv a = (Inr x, c)"
  by (cases "node_len n < CAPACITY"; cases "i \<le> B";
      simp add: internal_insert_def internal_split_def leaf_insert_def leaf_split_def assms)+

lemma insert_up_succeeds:
  assumes "\<And>a. fst (al a)"
  shows "\<exists>n h' a'. insert_up al p l kv r h a = (Inr (), n, h', a')"
proof (induction p arbitrary: l kv r h a)
  case Nil
  obtain b where "al a = (True, b)" using assms by (metis prod.collapse)
  then show ?case by simp
next
  case (Cons f p)
  obtain ks es i where f: "f = (ks, es, i)" by (cases f)
  obtain b where b: "al a = (True, b)" using assms by (metis prod.collapse)
  obtain x c where "internal_insert al (Node ks (es[i := l])) i kv r a = (Inr x, c)"
    using node_insert_succeeds(1) [where al = al, OF b, of "Node ks (es[i := l])" i kv r] by (elim exE)
  then show ?case using f Cons.IH by (cases x) simp_all
qed

lemma btree_insert_succeeds:
  assumes "\<And>a. fst (al a)"
  shows "\<exists>old m' a'. btree_insert al m key v a = (Inr old, m', a')"
proof -
  have T: "\<exists>b. al a = (True, b)" for a using assms by (metis prod.collapse)
  obtain m1 b where o: "ensure_root_is_owned al m a = (Inr (), m1, b)"
    using T [of a] by (cases "shared_root m") (auto simp: ensure_root_is_owned_def)
  show ?thesis
  proof (cases "search_tree (height m1) (root m1) [] key")
    case (Found h x)
    then show ?thesis using o by (cases x) (simp add: btree_insert_def)
  next
    case (GoDown x)
    obtain n i p where x: "x = (n, i, p)" by (cases x)
    obtain c where c: "al b = (True, c)" using T by blast
    obtain y e where y: "leaf_insert al n i (key, v) b = (Inr y, e)"
      using node_insert_succeeds(2) [where al = al, OF c, of n i "(key, v)"] by (elim exE)
    have "\<exists>n' h' a'. vacant_insert al x (key, v) (height m1) b = (Inr (), n', h', a')"
      using x y insert_up_succeeds [of al, OF assms] by (cases y) (simp_all add: vacant_insert_def)
    then show ?thesis using o GoDown by (auto simp: btree_insert_def)
  qed
qed

section \<open>Iteration\<close>

lemma first_leaf_cursor:
  assumes "cursor h n p"
  obtains leaf q where "first_leaf_edge h n p = (leaf, 0, q)" "cursor 0 leaf q"
    "kvs leaf @ rights q = to_list n @ rights p"
proof (cases h)
  case 0
  then show ?thesis using that [of n p] assms shape_leaf [of n] by (simp add: cursor_def)
next
  case (Suc h')
  let ?c = "edges n ! 0" and ?q = "(kvs n, edges n, 0 :: nat) # p"
  have cu: "cursor h' ?c ?q" using cursor_descend(1) [of h' n p 0] assms Suc by simp
  then have c: "shape h' ?c" "4 \<le> node_len ?c" "path_shape h' ?q" by (auto simp: cursor_def)
  obtain leaf front rest where "shape 0 leaf" "4 \<le> node_len leaf" "to_list ?c = kvs leaf @ rest"
    "first_leaf_edge h' ?c ?q = (leaf, 0, front @ ?q)" "rights (front @ ?q) = rest @ rights ?q"
    "path_shape 0 (front @ ?q)"
    using first_leaf [OF c(1,2)] c(3) by (metis list.distinct(1))
  moreover have "to_list n = to_list ?c @ after (map to_list (edges n)) (kvs n) 0"
    using to_list_edge [of h' n 0] assms Suc by (simp add: cursor_def before_def)
  ultimately show ?thesis
    using that [of leaf "front @ ?q"] Suc by (simp add: descend_def cursor_def)
qed

lemma cursor_parent:
  assumes "cursor h n ((ks, es, i) # p)"
  shows "cursor (Suc h) (Node ks (es[i := n])) p"
proof -
  have ps: "path_shape h ((ks, es, i) # p)" and n: "shape h n" "4 \<le> node_len n"
    using assms unfolding cursor_def by auto
  have "path_shape (Suc h) p" "if p = [] then 0 < length ks else 4 \<le> length ks"
    using ps unfolding path_shape.simps by blast+
  then show ?thesis using path_shape_parent [OF ps n] by (auto simp: cursor_def split: if_splits)
qed

lemma next_up_ok:
  assumes "cursor h n p" "rights p = x # xs"
  shows "\<exists>leaf q. next_up h n p = Some (x, leaf, 0, q) \<and> cursor 0 leaf q \<and> kvs leaf @ rights q = xs"
  using assms
proof (induction p arbitrary: h n)
  case Nil
  then show ?case by simp
next
  case (Cons f p)
  obtain ks es i where f: "f = (ks, es, i)" by (cases f)
  let ?pa = "Node ks (es[i := n])"
  have cu: "cursor (Suc h) ?pa p" using cursor_parent Cons.prems(1) f by blast
  have len: "length es = Suc (length ks)" "i \<le> length ks"
    using Cons.prems(1) f unfolding cursor_def by auto
  show ?case
  proof (cases "i < length ks")
    case True
    let ?q = "(ks, es[i := n], Suc i) # p"
    have cd: "cursor h (es ! Suc i) ?q" using cursor_descend(1) [OF cu, of "Suc i"] True by simp
    obtain leaf q where fl: "first_leaf_edge h (es ! Suc i) ?q = (leaf, 0, q)" "cursor 0 leaf q"
      "kvs leaf @ rights q = to_list (es ! Suc i) @ rights ?q" using first_leaf_cursor [OF cd] by metis
    have "x # xs = ks ! i # to_list (es ! Suc i) @ after (map to_list es) ks (Suc i) @ rights p"
      using Cons.prems(2) f after_split [of "map to_list es" ks i] len True by simp
    moreover have "after (map to_list (es[i := n])) ks (Suc i) = after (map to_list es) ks (Suc i)"
      by (rule after_cong) (simp_all add: map_update)
    ultimately show ?thesis
      using f True fl by (auto simp: right_kv_def descend_def Let_def)
  next
    case False
    then have "rights p = x # xs" using Cons.prems(2) f len by (simp add: after_def)
    from Cons.IH [OF cu this] show ?thesis using f False by (simp add: right_kv_def)
  qed
qed

lemma next_unchecked_ok:
  assumes "cursor 0 n p" "i \<le> node_len n" "drop i (kvs n) @ rights p = x # xs"
  shows "\<exists>n' i' p'. next_unchecked (n, i, p) = Some (x, n', i', p') \<and> cursor 0 n' p' \<and>
     i' \<le> node_len n' \<and> drop i' (kvs n') @ rights p' = xs"
proof (cases "i < node_len n")
  case True
  then show ?thesis
    using assms by (auto simp: next_unchecked_def right_kv_def Cons_nth_drop_Suc [symmetric])
next
  case False
  then have "rights p = x # xs" using assms by simp
  from next_up_ok [OF assms(1) this] False show ?thesis
    by (force simp: next_unchecked_def right_kv_def)
qed

text \<open>Running an iterator to its end.\<close>

fun drain :: "nat \<Rightarrow> ('k, 'v) btree_iter \<Rightarrow> ('k \<times> 'v) list option" where
  "drain 0 it = None"
| "drain (Suc k) it =
     (case iter_next it of
        None \<Rightarrow> None
      | Some (None, _) \<Rightarrow> Some []
      | Some (Some kv, it') \<Rightarrow> map_option (Cons kv) (drain k it'))"

lemma drain_ok:
  assumes "front_edge it = (n, i, p)" "cursor 0 n p" "i \<le> node_len n"
    "drop i (kvs n) @ rights p = xs" "iter_length it = length xs"
  shows "drain (Suc (length xs)) it = Some xs"
  using assms
proof (induction xs arbitrary: it n i p)
  case Nil
  then show ?case by (simp add: iter_next_def)
next
  case (Cons x xs)
  obtain n' i' p' where st: "next_unchecked (n, i, p) = Some (x, n', i', p')" "cursor 0 n' p'"
    "i' \<le> node_len n'" "drop i' (kvs n') @ rights p' = xs"
    using next_unchecked_ok [OF Cons.prems(2-4)] by blast
  let ?it = "it\<lparr>front_edge := (n', i', p'), iter_length := length xs\<rparr>"
  have "drain (Suc (length xs)) ?it = Some xs" using st by (intro Cons.IH) simp_all
  moreover have "iter_next it = Some (Some x, ?it)"
    using Cons.prems(1,5) st(1) by (simp add: iter_next_def)
  ultimately show ?case by simp
qed

lemma iter_entries:
  assumes "map_inv m"
  shows "drain (Suc (length (entries m))) (btree_iter_new m) = Some (entries m)"
proof -
  have "cursor (height m) (root m) []" using assms by (simp add: map_inv_def cursor_root)
  from first_leaf_cursor [OF this] obtain leaf q where
    "first_leaf_edge (height m) (root m) [] = (leaf, 0, q)" "cursor 0 leaf q"
    "kvs leaf @ rights q = entries m" by (metis append_Nil2 entries_def rights.simps(1))
  with assms show ?thesis
    by (intro drain_ok [of _ leaf 0 q]) (simp_all add: btree_iter_new_def map_inv_def)
qed


lemma last_leaf_cursor:
  assumes "cursor h n p"
  shows "\<exists>leaf q. last_leaf_edge h n p = (leaf, node_len leaf, q) \<and> cursor 0 leaf q \<and>
     lefts q @ kvs leaf = lefts p @ to_list n"
  using assms
proof (induction h arbitrary: n p)
  case 0
  then show ?case using shape_leaf [of n] by (simp add: cursor_def)
next
  case (Suc h)
  let ?i = "node_len n"
  from Suc.IH [OF cursor_descend(1) [OF Suc.prems order_refl]]
  obtain leaf q where IH: "last_leaf_edge h (edges n ! ?i) ((kvs n, edges n, ?i) # p) = (leaf, node_len leaf, q)"
    "cursor 0 leaf q" "lefts q @ kvs leaf = lefts ((kvs n, edges n, ?i) # p) @ to_list (edges n ! ?i)"
    by blast
  moreover have "to_list n = before (map to_list (edges n)) (kvs n) ?i @ to_list (edges n ! ?i)"
    using to_list_edge [of h n ?i] Suc.prems by (simp add: cursor_def after_def)
  ultimately show ?case by (simp add: descend_def)
qed

lemma btree_last_key_ok:
  assumes "map_inv m"
  shows "btree_last_key m = Some (if entries m = [] then None else Some (fst (last (entries m))))"
proof -
  have "cursor (height m) (root m) []" using assms by (simp add: map_inv_def cursor_root)
  from last_leaf_cursor [OF this] obtain leaf q where
    q: "last_leaf_edge (height m) (root m) [] = (leaf, node_len leaf, q)" "cursor 0 leaf q"
      "lefts q @ kvs leaf = entries m" by (auto simp: entries_def)
  have len: "map_length m = length (entries m)" using assms by (simp add: map_inv_def)
  show ?thesis
  proof (cases "entries m = []")
    case True
    then show ?thesis
      using len by (simp add: btree_last_key_def keys_next_back_def iter_next_back_def btree_iter_new_def)
  next
    case False
    then have ne: "kvs leaf \<noteq> []" using q(2,3) by (cases q) (auto simp: cursor_def)
    then have "kvs leaf ! (node_len leaf - 1) = last (entries m)"
      using q(3) by (metis last_appendR last_conv_nth)
    then show ?thesis
      using False len q(1) ne
      by (simp add: btree_last_key_def keys_next_back_def iter_next_back_def btree_iter_new_def
          next_back_unchecked_def left_kv_def)
  qed
qed

section \<open>The interface to the kernel's tables\<close>

locale ordered_map =
  fixes new_map :: 'm
    and get :: "'m \<Rightarrow> 'k :: linorder \<Rightarrow> 'v option"
    and update :: "'m \<Rightarrow> 'k \<Rightarrow> ('v \<Rightarrow> 'v) \<Rightarrow> 'm"
    and ins :: "'a allocator \<Rightarrow> 'm \<Rightarrow> 'k \<Rightarrow> 'v \<Rightarrow> 'a \<Rightarrow> (alloc_err + 'v option) \<times> 'm \<times> 'a"
    and remove :: "'m \<Rightarrow> 'k \<Rightarrow> ('v option \<times> 'm) option"
    and last_key :: "'m \<Rightarrow> 'k option option"
    and inv :: "'m \<Rightarrow> bool"
  assumes inv_new: "inv new_map" and get_new: "get new_map k = None"
    and update_law: "inv m \<Longrightarrow> inv (update m k f) \<and> get (update m k f) =
      (case get m k of None \<Rightarrow> get m | Some v \<Rightarrow> (get m)(k \<mapsto> f v))"
    and ins_law: "inv m \<Longrightarrow> ins al m k v a = (Inr old, m', a') \<Longrightarrow>
      inv m' \<and> old = get m k \<and> get m' = (get m)(k \<mapsto> v)"
    and ins_total: "\<forall>a. fst (al a) \<Longrightarrow> \<exists>old m' a'. ins al m k v a = (Inr old, m', a')"
    and remove_law: "inv m \<Longrightarrow>
      \<exists>m'. remove m k = Some (get m k, m') \<and> inv m' \<and> get m' = (get m)(k := None)"
    and last_law: "inv m \<Longrightarrow>
      (\<exists>r. last_key m = Some r \<and>
        (case r of None \<Rightarrow> get m = Map.empty | Some k \<Rightarrow> get m k \<noteq> None \<and> (\<forall>k'. get m k' \<noteq> None \<longrightarrow> k' \<le> k)))"
begin

lemma above_last_fresh:
  assumes "inv m" "last_key m = Some (Some k)" "k < k'"
  shows "get m k' = None"
proof (rule ccontr)
  assume "get m k' \<noteq> None"
  with last_law [OF assms(1)] assms(2) have "k' \<le> k" by auto
  with assms(3) show False by simp
qed

lemma ins_fresh_remove:
  assumes "inv m" "get m k = None" "ins al m k v a = (Inr old, m', a')"
  shows "\<exists>m''. remove m' k = Some (Some v, m'') \<and> inv m'' \<and> get m'' = get m"
proof -
  have i: "inv m'" "get m' = (get m)(k \<mapsto> v)" using ins_law [OF assms(1,3)] by auto
  obtain m'' where r: "remove m' k = Some (get m' k, m'')" "inv m''" "get m'' = (get m')(k := None)"
    using remove_law [OF i(1)] by blast
  have "(get m)(k := None) = get m" using assms(2) by (simp add: fun_upd_idem)
  then show ?thesis using r i(2) by auto
qed

lemma remove_absent:
  assumes "inv m" "get m k = None"
  shows "\<exists>m'. remove m k = Some (None, m') \<and> inv m' \<and> get m' = get m"
proof -
  have "(get m)(k := None) = get m" using assms(2) by (simp add: fun_upd_idem)
  then show ?thesis using remove_law [OF assms(1), of k] assms(2) by auto
qed

end

lemma sorted_last:
  assumes "sorted_keys xs" "x \<in> set xs"
  shows "fst x \<le> fst (last xs)"
proof -
  have "xs \<noteq> []" using assms(2) by auto
  then have "sorted_keys (butlast xs @ [last xs])" "x \<in> set (butlast xs @ [last xs])"
    using assms by simp_all
  then show ?thesis by (auto simp: sorted_keys_simps less_imp_le)
qed

interpretation bt: ordered_map btree_new btree_get btree_update btree_insert btree_remove
  btree_last_key map_inv
proof unfold_locales
  show "map_inv (btree_new :: ('k :: linorder, 'v) btree_map)" by (rule btree_new_ok)
  show "btree_get (btree_new :: ('k :: linorder, 'v) btree_map) k = None" for k
    using btree_get_entries [OF btree_new_ok(1)] btree_new_ok(2) by (metis map_of.simps(1))
  show "map_inv (btree_update m k f) \<and> btree_get (btree_update m k f) =
      (case btree_get m k of None \<Rightarrow> btree_get m | Some v \<Rightarrow> (btree_get m)(k \<mapsto> f v))"
    if "map_inv m" for m :: "('k :: linorder, 'v) btree_map" and k f
    using btree_update_ok [OF that, of k f] btree_get_entries [OF that]
      btree_get_entries [of "btree_update m k f"]
    by (auto simp: fun_eq_iff split: option.splits)
  show "map_inv m' \<and> old = btree_get m k \<and> btree_get m' = (btree_get m)(k \<mapsto> v)"
    if "map_inv m" "btree_insert al m k v a = (Inr old, m', a')"
    for m m' :: "('k :: linorder, 'v) btree_map" and k v and al :: "'s allocator" and a old a'
    using btree_insert_ok [OF that] btree_get_entries [OF that(1)] btree_get_entries [of m']
    by (auto simp: fun_eq_iff)
  show "\<exists>old m' a'. btree_insert al m k v a = (Inr old, m', a')"
    if "\<forall>a. fst (al a)" for m :: "('k :: linorder, 'v) btree_map" and k v and al :: "'s allocator" and a
    using that by (intro btree_insert_succeeds) simp
  show "\<exists>m'. btree_remove m k = Some (btree_get m k, m') \<and> map_inv m' \<and>
      btree_get m' = (btree_get m)(k := None)"
    if "map_inv m" for m :: "('k :: linorder, 'v) btree_map" and k
    using btree_remove_ok [OF that, of k] btree_get_entries [OF that] btree_get_entries
    by (metis ext)
  show "\<exists>r. btree_last_key m = Some r \<and> (case r of None \<Rightarrow> btree_get m = Map.empty
      | Some k \<Rightarrow> btree_get m k \<noteq> None \<and> (\<forall>k'. btree_get m k' \<noteq> None \<longrightarrow> k' \<le> k))"
    if inv: "map_inv m" for m :: "('k :: linorder, 'v) btree_map"
  proof (cases "entries m = []")
    case True
    then show ?thesis
      using btree_last_key_ok [OF inv] btree_get_entries [OF inv] by (simp add: fun_eq_iff)
  next
    case False
    have s: "sorted_keys (entries m)" using inv by (simp add: map_inv_def)
    have "fst x \<le> fst (last (entries m))" if "x \<in> set (entries m)" for x by (rule sorted_last [OF s that])
    moreover have "map_of (entries m) (fst (last (entries m))) \<noteq> None"
      using False last_in_set [OF False] by (simp add: map_of_eq_None_iff)
    ultimately show ?thesis
      using btree_last_key_ok [OF inv] btree_get_entries [OF inv] False
      by (auto simp: map_of_eq_None_iff)
  qed
qed

end
