(* ===== verification/BTree_Range.thy ===== *)
theory BTree_Range
  imports BTree_Map
begin

text \<open>
  Sub-ranges of the B-tree map: \<open>BTreeMap::range\<close>, \<open>range_search\<close> and the \<open>Range\<close> iterator of
  \<open>alloc_collections/src/btree/map.rs\<close>.

  \<open>range_search\<close> walks down from the root with two nodes at once, one for each end of the range;
  its loop is a recursion on the height.  Two edge handles of one tree are equal in the source when
  they have the same node and index; a node of a tree is identified by the edge indices that lead
  to it.
\<close>

section \<open>Definitions\<close>

datatype 'k bound = Included 'k | Excluded 'k | Unbounded

text \<open>The two \<open>match\<close> expressions of the loop: the edge and the updated \<open>..._found\<close> flag.\<close>

fun min_edge :: "bool \<Rightarrow> 'k :: linorder bound \<Rightarrow> ('k, 'v) node \<Rightarrow> nat \<times> bool" where
  "min_edge False (Included key) n = (case search_linear n key of (i, True) \<Rightarrow> (i, True) | (i, False) \<Rightarrow> (i, False))"
| "min_edge False (Excluded key) n = (case search_linear n key of (i, True) \<Rightarrow> (i + 1, True) | (i, False) \<Rightarrow> (i, False))"
| "min_edge found Unbounded n = (0, found)"
| "min_edge True (Included key) n = (node_len n, True)"
| "min_edge True (Excluded key) n = (0, True)"

fun max_edge :: "bool \<Rightarrow> 'k :: linorder bound \<Rightarrow> ('k, 'v) node \<Rightarrow> nat \<times> bool" where
  "max_edge False (Included key) n = (case search_linear n key of (i, True) \<Rightarrow> (i + 1, True) | (i, False) \<Rightarrow> (i, False))"
| "max_edge False (Excluded key) n = (case search_linear n key of (i, True) \<Rightarrow> (i, True) | (i, False) \<Rightarrow> (i, False))"
| "max_edge found Unbounded n = (node_len n, found)"
| "max_edge True (Included key) n = (0, True)"
| "max_edge True (Excluded key) n = (node_len n, True)"

text \<open>The check before the loop; \<open>True\<close> is a panic.\<close>

fun bad_range :: "'k :: linorder bound \<Rightarrow> 'k bound \<Rightarrow> bool" where
  "bad_range (Excluded s) (Excluded e) \<longleftrightarrow> s \<ge> e"
| "bad_range (Included s) (Included e) \<longleftrightarrow> s > e"
| "bad_range (Included s) (Excluded e) \<longleftrightarrow> s > e"
| "bad_range (Excluded s) (Included e) \<longleftrightarrow> s > e"
| "bad_range _ _ \<longleftrightarrow> False"

fun range_loop :: "nat \<Rightarrow> 'k :: linorder bound \<Rightarrow> 'k bound \<Rightarrow> bool \<Rightarrow> bool \<Rightarrow> bool
    \<Rightarrow> ('k, 'v) node \<times> ('k, 'v) path \<Rightarrow> ('k, 'v) node \<times> ('k, 'v) path
    \<Rightarrow> (('k, 'v) handle \<times> ('k, 'v) handle) option" where
  "range_loop h lo hi min_found max_found diverged (min_node, min_path) (max_node, max_path) =
     (case min_edge min_found lo min_node of (e1, min_found) \<Rightarrow>
      case max_edge max_found hi max_node of (e2, max_found) \<Rightarrow>
      if \<not> diverged \<and> e2 < e1 then None
      else
        (case h of
           0 \<Rightarrow> Some ((min_node, e1, min_path), (max_node, e2, max_path))
         | Suc h \<Rightarrow> range_loop h lo hi min_found max_found (diverged \<or> e1 \<noteq> e2)
             (descend (min_node, e1, min_path)) (descend (max_node, e2, max_path))))"

definition range_search :: "nat \<Rightarrow> ('k :: linorder, 'v) node \<Rightarrow> 'k bound \<Rightarrow> 'k bound
    \<Rightarrow> (('k, 'v) handle \<times> ('k, 'v) handle) option" where
  "range_search h rt lo hi =
     (if bad_range lo hi then None else range_loop h lo hi False False False (rt, []) (rt, []))"

record ('k, 'v) btree_range =
  range_front :: "('k, 'v) handle"
  range_back :: "('k, 'v) handle"

definition btree_range :: "('k :: linorder, 'v) btree_map \<Rightarrow> 'k bound \<Rightarrow> 'k bound
    \<Rightarrow> ('k, 'v) btree_range option" where
  "btree_range m lo hi =
     map_option (\<lambda>(f, b). \<lparr>range_front = f, range_back = b\<rparr>) (range_search (height m) (root m) lo hi)"

definition path_indices :: "('k, 'v) path \<Rightarrow> nat list" where
  "path_indices p = map (\<lambda>(ks, es, i). i) p"

definition handle_eq :: "('k, 'v) handle \<Rightarrow> ('k, 'v) handle \<Rightarrow> bool" where
  "handle_eq = (\<lambda>(n, i, p) (n', i', p'). path_indices p = path_indices p' \<and> i = i')"

definition range_next :: "('k, 'v) btree_range \<Rightarrow> (('k \<times> 'v) option \<times> ('k, 'v) btree_range) option" where
  "range_next r =
     (if handle_eq (range_front r) (range_back r) then Some (None, r)
      else map_option (\<lambda>(kv, x). (Some kv, r\<lparr>range_front := x\<rparr>)) (next_unchecked (range_front r)))"

definition range_next_back :: "('k, 'v) btree_range \<Rightarrow> (('k \<times> 'v) option \<times> ('k, 'v) btree_range) option" where
  "range_next_back r =
     (if handle_eq (range_front r) (range_back r) then Some (None, r)
      else map_option (\<lambda>(kv, x). (Some kv, r\<lparr>range_back := x\<rparr>)) (next_back_unchecked (range_back r)))"

text \<open>A range that is run to its end, as a \<open>for\<close> loop does.\<close>

fun range_drain :: "nat \<Rightarrow> ('k, 'v) btree_range \<Rightarrow> ('k \<times> 'v) list option" where
  "range_drain 0 r = None"
| "range_drain (Suc k) r =
     (case range_next r of
        None \<Rightarrow> None
      | Some (None, _) \<Rightarrow> Some []
      | Some (Some kv, r') \<Rightarrow> map_option (Cons kv) (range_drain k r'))"

section \<open>Specification\<close>

fun below_start :: "'k :: linorder bound \<Rightarrow> 'k \<Rightarrow> bool" where
  "below_start (Included s) x \<longleftrightarrow> x < s"
| "below_start (Excluded s) x \<longleftrightarrow> x \<le> s"
| "below_start Unbounded x \<longleftrightarrow> False"

fun upto_end :: "'k :: linorder bound \<Rightarrow> 'k \<Rightarrow> bool" where
  "upto_end (Included e) x \<longleftrightarrow> x \<le> e"
| "upto_end (Excluded e) x \<longleftrightarrow> x < e"
| "upto_end Unbounded x \<longleftrightarrow> True"

definition in_range :: "'k :: linorder bound \<Rightarrow> 'k bound \<Rightarrow> 'k \<Rightarrow> bool" where
  "in_range lo hi x \<longleftrightarrow> \<not> below_start lo x \<and> upto_end hi x"

lemma below_start_closed: "below_start b y \<Longrightarrow> x < y \<Longrightarrow> below_start b x"
  by (cases b) auto

lemma upto_end_closed: "upto_end b y \<Longrightarrow> x < y \<Longrightarrow> upto_end b x"
  by (cases b) auto

lemma below_upto: "\<not> bad_range lo hi \<Longrightarrow> below_start lo x \<Longrightarrow> upto_end hi x"
  by (cases lo; cases hi) auto

section \<open>Cutting a tree at a key\<close>

text \<open>The number of entries of a list before the first one that fails \<open>P\<close>, and the descent to the
  leaf edge between the entries that satisfy \<open>P\<close> and the others.\<close>

definition cut_at :: "('k \<Rightarrow> bool) \<Rightarrow> ('k \<times> 'v) list \<Rightarrow> nat" where
  "cut_at P xs = length (takeWhile (\<lambda>x. P (fst x)) xs)"

fun seek :: "('k \<Rightarrow> bool) \<Rightarrow> nat \<Rightarrow> ('k, 'v) node \<Rightarrow> ('k, 'v) path \<Rightarrow> ('k, 'v) handle" where
  "seek P 0 n p = (n, cut_at P (kvs n), p)"
| "seek P (Suc h) n p =
     (case descend (n, cut_at P (kvs n), p) of (n', p') \<Rightarrow> seek P h n' p')"

lemma cut_atI:
  assumes "i \<le> length xs" "\<forall>x \<in> set (take i xs). P (fst x)" "i < length xs \<Longrightarrow> \<not> P (fst (xs ! i))"
  shows "cut_at P xs = i"
proof -
  have "takeWhile (\<lambda>x. P (fst x)) (take i xs @ drop i xs) = take i xs @ takeWhile (\<lambda>x. P (fst x)) (drop i xs)"
    using assms(2) by (intro takeWhile_append2) blast
  moreover have "takeWhile (\<lambda>x. P (fst x)) (drop i xs) = []"
    using assms(3) by (cases "i < length xs") (simp_all add: Cons_nth_drop_Suc [symmetric])
  ultimately show ?thesis using assms(1) by (simp add: cut_at_def)
qed

lemma cut_at_le [simp]: "cut_at P xs \<le> length xs"
  by (simp add: cut_at_def length_takeWhile_le)

lemma cut_at_take: "x \<in> set (take (cut_at P xs) xs) \<Longrightarrow> P (fst x)"
  unfolding cut_at_def takeWhile_eq_take [symmetric] by (auto dest: set_takeWhileD)

lemma cut_at_nth: "cut_at P xs < length xs \<Longrightarrow> \<not> P (fst (xs ! cut_at P xs))"
  unfolding cut_at_def by (rule nth_length_takeWhile)

lemma cut_at_mono: "(\<And>x. P x \<Longrightarrow> Q x) \<Longrightarrow> cut_at P xs \<le> cut_at Q xs"
  unfolding cut_at_def by (induction xs) auto

lemma kvs_sorted:
  assumes "shape h n" "sorted_keys (to_list n)"
  shows "sorted_keys (kvs n)"
proof (cases h)
  case 0
  then show ?thesis using assms shape_leaf [of n] by simp
next
  case (Suc h')
  let ?ls = "map to_list (edges n)"
  have len: "length ?ls = Suc (node_len n)" using assms(1) Suc by simp
  have "fst (kvs n ! i) < fst (kvs n ! Suc i)" if "Suc i < node_len n" for i
  proof -
    have "before ?ls (kvs n) (Suc (Suc i)) =
        (before ?ls (kvs n) i @ ?ls ! i @ [kvs n ! i]) @ ?ls ! Suc i @ [kvs n ! Suc i]"
      using before_split [of ?ls "kvs n" "Suc i"] before_split [of ?ls "kvs n" i] len that by simp
    moreover have "sorted_keys (before ?ls (kvs n) (Suc (Suc i)))"
      using assms(2) interleave_split [OF len, of "Suc (Suc i)"] that
      by (cases n) (simp add: sorted_keys_append)
    ultimately show ?thesis by (simp add: sorted_keys_append sorted_keys_Cons)
  qed
  then show ?thesis
    unfolding sorted_keys_def by (subst sorted_wrt_iff_nth_Suc_transp) (auto simp: transp_on_def)
qed

lemma child_entries:
  assumes "shape (Suc h) n" "sorted_keys (to_list n)" "i \<le> node_len n"
  shows "sorted_keys (to_list (edges n ! i))" "set (to_list (edges n ! i)) \<subseteq> set (to_list n)"
    "shape h (edges n ! i)"
    "i < node_len n \<Longrightarrow> \<forall>x \<in> set (to_list (edges n ! i)). fst x < fst (kvs n ! i)"
    "0 < i \<Longrightarrow> \<forall>x \<in> set (to_list (edges n ! i)). fst (kvs n ! (i - 1)) < fst x"
proof -
  let ?ls = "map to_list (edges n)"
  have len: "length ?ls = Suc (node_len n)" "length (edges n) = Suc (node_len n)" using assms(1) by simp_all
  note e = to_list_edge [OF assms(1,3)]
  show "sorted_keys (to_list (edges n ! i))" using assms(2) unfolding e by (simp add: sorted_keys_append)
  show "set (to_list (edges n ! i)) \<subseteq> set (to_list n)" unfolding e by auto
  show "shape h (edges n ! i)" using assms(1,3) by simp
  show "\<forall>x \<in> set (to_list (edges n ! i)). fst x < fst (kvs n ! i)" if lt: "i < node_len n"
  proof -
    obtain zs where "after ?ls (kvs n) i = kvs n ! i # zs" using after_split [OF len(1) lt] by metis
    then show ?thesis using assms(2) unfolding e by (simp add: sorted_keys_append)
  qed
  show "\<forall>x \<in> set (to_list (edges n ! i)). fst (kvs n ! (i - 1)) < fst x" if "0 < i"
  proof -
    obtain j where j: "i = Suc j" using \<open>0 < i\<close> by (cases i) auto
    have "before ?ls (kvs n) i = before ?ls (kvs n) j @ ?ls ! j @ [kvs n ! j]"
      using before_split [of ?ls "kvs n" j] len assms(3) j by simp
    then show ?thesis using assms(2) j unfolding e by (simp add: sorted_keys_append sorted_keys_Cons)
  qed
qed

text \<open>What the two \<open>found\<close> flags mean: the key of the bound was passed, so the whole subtree lies on
  one side of it.\<close>

fun min_side :: "bool \<Rightarrow> 'k :: linorder bound \<Rightarrow> ('k, 'v) node \<Rightarrow> bool" where
  "min_side True (Included s) n = (\<forall>x \<in> set (to_list n). fst x < s)"
| "min_side True (Excluded s) n = (\<forall>x \<in> set (to_list n). s < fst x)"
| "min_side _ _ n = True"

fun max_side :: "bool \<Rightarrow> 'k :: linorder bound \<Rightarrow> ('k, 'v) node \<Rightarrow> bool" where
  "max_side True (Included e) n = (\<forall>x \<in> set (to_list n). e < fst x)"
| "max_side True (Excluded e) n = (\<forall>x \<in> set (to_list n). fst x < e)"
| "max_side _ _ n = True"

lemma set_kvs: "shape h n \<Longrightarrow> set (kvs n) \<subseteq> set (to_list n)"
proof (cases h)
  case (Suc h')
  assume "shape h n"
  then have len: "length (map to_list (edges n)) = Suc (node_len n)" using Suc by simp
  have "x \<in> set (to_list n)" if x: "x \<in> set (kvs n)" for x
  proof -
    obtain i where "i < node_len n" "x = kvs n ! i" using x by (auto simp: in_set_conv_nth)
    then show ?thesis
      using to_list_edge [of h' n i] \<open>shape h n\<close> Suc after_split [OF len, of i] by auto
  qed
  then show ?thesis by blast
qed (simp add: shape_leaf)

lemma sorted_nth_less:
  "sorted_keys xs \<Longrightarrow> i < j \<Longrightarrow> j < length xs \<Longrightarrow> fst (xs ! i) < fst (xs ! j)"
  by (simp add: sorted_keys_def sorted_wrt_iff_nth_less)

lemma cut_found:
  assumes "sorted_keys xs" "i < length xs" "fst (xs ! i) = key" "\<forall>x \<in> set (take i xs). fst x < key"
  shows "cut_at (\<lambda>x. x < key) xs = i" "cut_at (\<lambda>x. x \<le> key) xs = Suc i"
proof -
  show "cut_at (\<lambda>x. x < key) xs = i" using assms by (intro cut_atI) auto
  have "\<not> fst (xs ! Suc i) \<le> key" if "Suc i < length xs"
    using sorted_nth_less [OF assms(1), of i "Suc i"] assms(3) that by auto
  then show "cut_at (\<lambda>x. x \<le> key) xs = Suc i"
    using assms by (intro cut_atI) (auto simp: take_Suc_conv_app_nth less_imp_le)
qed

lemma cut_all: "\<forall>x \<in> set xs. P (fst x) \<Longrightarrow> cut_at P xs = length xs"
  by (intro cut_atI) auto

lemma cut_none: "\<forall>x \<in> set xs. \<not> P (fst x) \<Longrightarrow> cut_at P xs = 0"
  by (intro cut_atI) auto

lemma below_start_fun:
  "below_start (Included s) = (\<lambda>x. x < s)" "below_start (Excluded s) = (\<lambda>x. x \<le> s)"
  "below_start Unbounded = (\<lambda>x. False)"
  "upto_end (Included s) = (\<lambda>x. x \<le> s)" "upto_end (Excluded s) = (\<lambda>x. x < s)"
  "upto_end Unbounded = (\<lambda>x. True)"
  by auto

lemma search_cut:
  assumes "sorted_keys (kvs n)" "search_linear n key = (i, f)"
  shows "i = cut_at (\<lambda>x. x < key) (kvs n)"
    "cut_at (\<lambda>x. x \<le> key) (kvs n) = (if f then Suc i else i)"
proof -
  note sp = search_linear_spec [OF assms(2)]
  show "i = cut_at (\<lambda>x. x < key) (kvs n)"
  proof (cases f)
    case True
    then show ?thesis using cut_found(1) [OF assms(1) _ _ sp(2)] sp(3) by auto
  next
    case False
    then show ?thesis using sp by (intro cut_atI [symmetric]) auto
  qed
  show "cut_at (\<lambda>x. x \<le> key) (kvs n) = (if f then Suc i else i)"
  proof (cases f)
    case True
    then show ?thesis using cut_found(2) [OF assms(1) _ _ sp(2)] sp(3) by auto
  next
    case False
    then show ?thesis using sp by (auto intro!: cut_atI less_imp_le)
  qed
qed

lemma side_cut:
  fixes n :: "('k :: linorder, 'v) node"
  assumes "shape h n"
  shows "\<forall>x \<in> set (to_list n). fst x < s \<Longrightarrow> cut_at (\<lambda>x. x < s) (kvs n) = node_len n"
    "\<forall>x \<in> set (to_list n). s < fst x \<Longrightarrow> cut_at (\<lambda>x. x \<le> s) (kvs n) = 0"
  subgoal using set_kvs [OF assms] by (intro cut_all) blast
  subgoal using set_kvs [OF assms] by (intro cut_none ballI) (meson leD subsetD)
  done

lemma min_edge_cut:
  assumes "shape h n" "sorted_keys (to_list n)" "min_side f lo n" "min_edge f lo n = (i, f')"
  shows "i = cut_at (below_start lo) (kvs n)"
    and "h = Suc h' \<Longrightarrow> min_side f' lo (edges n ! i)"
proof -
  note ks = kvs_sorted [OF assms(1,2)]
  show i: "i = cut_at (below_start lo) (kvs n)"
    using assms(3,4)
    by (cases f; cases lo)
       (auto simp: below_start_fun cut_none cut_all side_cut [OF assms(1)] search_cut [OF ks]
          split: prod.splits bool.splits)
  show "min_side f' lo (edges n ! i)" if h: "h = Suc h'"
  proof -
    have le: "i \<le> node_len n" using i by simp
    note ch = child_entries [OF assms(1) [unfolded h] assms(2) le]
    show ?thesis
    proof (cases f)
      case True
      then show ?thesis using assms(3,4) ch(2) by (cases lo) auto
    next
      case False
      show ?thesis
      proof (cases lo)
        case (Included s)
        then show ?thesis
          using False assms(4) ch(4) search_linear_spec(3) [of n s i f'] by (cases f') (auto split: prod.splits bool.splits)
      next
        case (Excluded s)
        obtain j g where g: "search_linear n s = (j, g)" by (cases "search_linear n s")
        then show ?thesis
          using False assms(4) Excluded ch(5) search_linear_spec(3) [OF g] by (cases f') (auto split: bool.splits)
      next
        case Unbounded
        then show ?thesis using assms(4) False by simp
      qed
    qed
  qed
qed

lemma max_edge_cut:
  assumes "shape h n" "sorted_keys (to_list n)" "max_side f hi n" "max_edge f hi n = (i, f')"
  shows "i = cut_at (upto_end hi) (kvs n)"
    and "h = Suc h' \<Longrightarrow> max_side f' hi (edges n ! i)"
proof -
  note ks = kvs_sorted [OF assms(1,2)]
  show i: "i = cut_at (upto_end hi) (kvs n)"
    using assms(3,4)
    by (cases f; cases hi)
       (auto simp: below_start_fun cut_none cut_all side_cut [OF assms(1)] search_cut [OF ks]
          split: prod.splits bool.splits)
  show "max_side f' hi (edges n ! i)" if h: "h = Suc h'"
  proof -
    have le: "i \<le> node_len n" using i by simp
    note ch = child_entries [OF assms(1) [unfolded h] assms(2) le]
    show ?thesis
    proof (cases f)
      case True
      then show ?thesis using assms(3,4) ch(2) by (cases hi) auto
    next
      case False
      show ?thesis
      proof (cases hi)
        case (Excluded s)
        then show ?thesis
          using False assms(4) ch(4) search_linear_spec(3) [of n s i f'] by (cases f') (auto split: prod.splits bool.splits)
      next
        case (Included s)
        obtain j g where g: "search_linear n s = (j, g)" by (cases "search_linear n s")
        then show ?thesis
          using False assms(4) Included ch(5) search_linear_spec(3) [OF g] by (cases f') (auto split: bool.splits)
      next
        case Unbounded
        then show ?thesis using assms(4) False by simp
      qed
    qed
  qed
qed

lemma range_loop_seek:
  assumes "shape h mn" "sorted_keys (to_list mn)" "min_side mf lo mn"
    "shape h xn" "sorted_keys (to_list xn)" "max_side xf hi xn"
    "\<not> dv \<Longrightarrow> mn = xn" "\<not> bad_range lo hi"
  shows "range_loop h lo hi mf xf dv (mn, mp) (xn, xp) =
     Some (seek (below_start lo) h mn mp, seek (upto_end hi) h xn xp)"
  using assms
proof (induction h arbitrary: mf xf dv mn mp xn xp)
  case (0 mf xf dv mn mp xn xp)
  obtain e1 f1 where e1: "min_edge mf lo mn = (e1, f1)" by (cases "min_edge mf lo mn")
  obtain e2 f2 where e2: "max_edge xf hi xn = (e2, f2)" by (cases "max_edge xf hi xn")
  have c: "e1 = cut_at (below_start lo) (kvs mn)" "e2 = cut_at (upto_end hi) (kvs xn)"
    using min_edge_cut(1) [OF 0(1-3) e1] max_edge_cut(1) [OF 0(4-6) e2] .
  have "\<not> (\<not> dv \<and> e2 < e1)"
    using 0(7) cut_at_mono [of "below_start lo" "upto_end hi" "kvs mn"] below_upto [OF 0(8)] c by auto
  then show ?case using e1 e2 c by simp
next
  case (Suc h mf xf dv mn mp xn xp)
  obtain e1 f1 where e1: "min_edge mf lo mn = (e1, f1)" by (cases "min_edge mf lo mn")
  obtain e2 f2 where e2: "max_edge xf hi xn = (e2, f2)" by (cases "max_edge xf hi xn")
  have c: "e1 = cut_at (below_start lo) (kvs mn)" "e2 = cut_at (upto_end hi) (kvs xn)"
    using min_edge_cut(1) [OF Suc.prems(1-3) e1] max_edge_cut(1) [OF Suc.prems(4-6) e2] .
  have nd: "\<not> (\<not> dv \<and> e2 < e1)"
    using Suc.prems(7) cut_at_mono [of "below_start lo" "upto_end hi" "kvs mn"] below_upto [OF Suc.prems(8)] c by auto
  have le: "e1 \<le> node_len mn" "e2 \<le> node_len xn" using c by simp_all
  note c1 = child_entries [OF Suc.prems(1,2) le(1)] and c2 = child_entries [OF Suc.prems(4,5) le(2)]
  have "range_loop h lo hi f1 f2 (dv \<or> e1 \<noteq> e2) (edges mn ! e1, (kvs mn, edges mn, e1) # mp)
      (edges xn ! e2, (kvs xn, edges xn, e2) # xp) =
    Some (seek (below_start lo) h (edges mn ! e1) ((kvs mn, edges mn, e1) # mp),
      seek (upto_end hi) h (edges xn ! e2) ((kvs xn, edges xn, e2) # xp))"
    by (rule Suc.IH [OF c1(3,1) min_edge_cut(2) [OF Suc.prems(1-3) e1 refl] c2(3,1)
          max_edge_cut(2) [OF Suc.prems(4-6) e2 refl] _ Suc.prems(8)])
       (use Suc.prems(7) in auto)
  then show ?case using e1 e2 nd c by (simp add: descend_def)
qed

section \<open>The edge where a range begins or ends\<close>

text \<open>Everything left of the edge satisfies \<open>P\<close>, everything right of it does not.\<close>

definition edge_of :: "('k :: linorder, 'v) node \<Rightarrow> nat \<Rightarrow> ('k \<Rightarrow> bool) \<Rightarrow> ('k, 'v) handle \<Rightarrow> bool" where
  "edge_of rt hh P = (\<lambda>(n, i, p). cursor 0 n p \<and> plug p n = rt \<and> length p = hh \<and> i \<le> node_len n \<and>
     (\<forall>x \<in> set (lefts p @ take i (kvs n)). P (fst x)) \<and>
     (\<forall>x \<in> set (drop i (kvs n) @ rights p). \<not> P (fst x)))"

lemma before_cut:
  assumes "shape (Suc h) n" "sorted_keys (to_list n)" "\<And>x y. P y \<Longrightarrow> x < y \<Longrightarrow> P x"
  shows "\<forall>x \<in> set (before (map to_list (edges n)) (kvs n) (cut_at P (kvs n))). P (fst x)"
    and "\<forall>x \<in> set (after (map to_list (edges n)) (kvs n) (cut_at P (kvs n))). \<not> P (fst x)"
proof -
  let ?ls = "map to_list (edges n)" and ?c = "cut_at P (kvs n)"
  have len: "length ?ls = Suc (node_len n)" using assms(1) by simp
  note e = to_list_edge [OF assms(1) cut_at_le, of P]
  show "\<forall>x \<in> set (before ?ls (kvs n) ?c). P (fst x)"
  proof (cases ?c)
    case 0
    then show ?thesis by (simp add: before_def)
  next
    case (Suc j)
    have j: "j < node_len n" using cut_at_le [of P "kvs n"] Suc by simp
    then have "kvs n ! j \<in> set (take ?c (kvs n))" using Suc by (simp add: take_Suc_conv_app_nth)
    then have pj: "P (fst (kvs n ! j))" by (rule cut_at_take)
    have b: "before ?ls (kvs n) ?c = before ?ls (kvs n) j @ ?ls ! j @ [kvs n ! j]"
      using before_split [of ?ls "kvs n" j] len j Suc by simp
    then have "sorted_keys ((before ?ls (kvs n) j @ ?ls ! j) @ [kvs n ! j])"
      using assms(2) unfolding e by (simp add: sorted_keys_append sorted_keys_Cons)
    then show ?thesis using pj assms(3) unfolding b by (auto simp: sorted_keys_append)
  qed
  show "\<forall>x \<in> set (after ?ls (kvs n) ?c). \<not> P (fst x)"
  proof (cases "?c < node_len n")
    case True
    have a: "after ?ls (kvs n) ?c = kvs n ! ?c # ?ls ! Suc ?c @ after ?ls (kvs n) (Suc ?c)"
      by (rule after_split [OF len True])
    then have "sorted_keys (kvs n ! ?c # ?ls ! Suc ?c @ after ?ls (kvs n) (Suc ?c))"
      using assms(2) unfolding e by (simp add: sorted_keys_append)
    then have "\<forall>x \<in> set (?ls ! Suc ?c @ after ?ls (kvs n) (Suc ?c)). fst (kvs n ! ?c) < fst x"
      by (simp add: sorted_keys_Cons)
    then show ?thesis using cut_at_nth [OF True] assms(3) unfolding a by auto
  next
    case False
    then show ?thesis by (simp add: after_def)
  qed
qed

lemma seek_edge:
  assumes "cursor h n p" "sorted_keys (to_list n)" "\<And>x y. P y \<Longrightarrow> x < y \<Longrightarrow> P x"
    "\<forall>x \<in> set (lefts p). P (fst x)" "\<forall>x \<in> set (rights p). \<not> P (fst x)"
  shows "edge_of (plug p n) (h + length p) P (seek P h n p)"
  using assms(1,2,4,5)
proof (induction h arbitrary: n p)
  case (0 n p)
  have s: "sorted_keys (kvs n)" using kvs_sorted [of 0 n] 0(1,2) by (simp add: cursor_def)
  have "\<forall>x \<in> set (drop (cut_at P (kvs n)) (kvs n)). \<not> P (fst x)"
  proof (intro ballI notI)
    fix x assume "x \<in> set (drop (cut_at P (kvs n)) (kvs n))" "P (fst x)"
    then obtain k where k: "cut_at P (kvs n) \<le> k" "k < node_len n" "x = kvs n ! k"
      by (auto simp: in_set_conv_nth) (metis le_add1 add.commute less_diff_conv)
    have "\<not> P (fst (kvs n ! cut_at P (kvs n)))" using cut_at_nth [of P "kvs n"] k by simp
    moreover have "cut_at P (kvs n) = k \<or> fst (kvs n ! cut_at P (kvs n)) < fst (kvs n ! k)"
      using sorted_nth_less [OF s, of "cut_at P (kvs n)" k] k by linarith
    ultimately show False using \<open>P (fst x)\<close> k(3) assms(3) by metis
  qed
  then show ?case using 0 cut_at_take [of _ P "kvs n"] by (auto simp: edge_of_def)
next
  case (Suc h n p)
  let ?c = "cut_at P (kvs n)" let ?q = "(kvs n, edges n, ?c) # p"
  have sh: "shape (Suc h) n" using Suc.prems(1) by (simp add: cursor_def)
  note cu = cursor_descend [OF Suc.prems(1) cut_at_le, of P]
  have bc: "\<forall>x \<in> set (before (map to_list (edges n)) (kvs n) ?c). P (fst x)"
    "\<forall>x \<in> set (after (map to_list (edges n)) (kvs n) ?c). \<not> P (fst x)"
    by (rule before_cut [OF sh Suc.prems(2)]; use assms(3) in blast)+
  have "edge_of (plug ?q (edges n ! ?c)) (h + length ?q) P (seek P h (edges n ! ?c) ?q)"
    using bc Suc.prems(3,4)
      child_entries(1) [OF sh Suc.prems(2) cut_at_le]
    by (intro Suc.IH [OF cu(1)]) auto
  then show ?case using cu(2) by (simp add: descend_def)
qed

lemma range_search_edges:
  assumes inv: "map_inv m" and ok: "\<not> bad_range lo hi"
  shows "\<exists>f b. range_search (height m) (root m) lo hi = Some (f, b) \<and>
     edge_of (root m) (height m) (below_start lo) f \<and> edge_of (root m) (height m) (upto_end hi) b"
proof -
  have cu: "cursor (height m) (root m) []" and s: "sorted_keys (to_list (root m))"
    using inv by (simp_all add: map_inv_def cursor_root entries_def)
  have sh: "shape (height m) (root m)" using cu by (simp add: cursor_def)
  have "range_search (height m) (root m) lo hi =
      Some (seek (below_start lo) (height m) (root m) [], seek (upto_end hi) (height m) (root m) [])"
    using range_loop_seek [OF sh s _ sh s _ _ ok, of False False False "[]" "[]"] ok
    by (simp add: range_search_def)
  moreover have "edge_of (root m) (height m) P (seek P (height m) (root m) [])"
    if "\<And>x y. P y \<Longrightarrow> x < y \<Longrightarrow> P x" for P
    using seek_edge [OF cu s, of P] that by simp
  ultimately show ?thesis using below_start_closed upto_end_closed by blast
qed

section \<open>Leaf edges are positions\<close>

text \<open>The entries left of the leaf edge that a list of indices from the root leads to.\<close>

fun left_of :: "('k, 'v) node \<Rightarrow> nat list \<Rightarrow> ('k \<times> 'v) list" where
  "left_of n [] = []"
| "left_of n [i] = take i (kvs n)"
| "left_of n (i # is) = before (map to_list (edges n)) (kvs n) i @ left_of (edges n ! i) is"

fun indices_ok :: "nat \<Rightarrow> ('k, 'v) node \<Rightarrow> nat list \<Rightarrow> bool" where
  "indices_ok 0 n is \<longleftrightarrow> (\<exists>i. is = [i] \<and> i \<le> node_len n)"
| "indices_ok (Suc h) n is \<longleftrightarrow>
     (\<exists>i is'. is = i # is' \<and> i \<le> node_len n \<and> indices_ok h (edges n ! i) is')"

lemma indices_ok_ne: "indices_ok h n is \<Longrightarrow> is \<noteq> []"
  by (cases h) auto

lemma left_of_le:
  "shape h n \<Longrightarrow> indices_ok h n is \<Longrightarrow> length (left_of n is) \<le> length (to_list n)"
proof (induction h arbitrary: n "is")
  case 0
  then show ?case by (auto simp: shape_leaf)
next
  case (Suc h)
  from Suc.prems(2) obtain i is' where i: "is = i # is'" "i \<le> node_len n" "indices_ok h (edges n ! i) is'"
    by auto
  have "length (left_of (edges n ! i) is') \<le> length (to_list (edges n ! i))"
    using Suc.IH [OF _ i(3)] Suc.prems(1) i(2) by simp
  then show ?case
    using to_list_edge [OF Suc.prems(1) i(2)] i(1) indices_ok_ne [OF i(3)] by (cases is') auto
qed

lemma before_mono:
  assumes "shape (Suc h) n" "i < j" "j \<le> node_len n"
  shows "length (before (map to_list (edges n)) (kvs n) i) + length (to_list (edges n ! i)) <
     length (before (map to_list (edges n)) (kvs n) j)"
  using assms(2,3)
proof (induction j)
  case (Suc j)
  let ?ls = "map to_list (edges n)"
  have "before ?ls (kvs n) (Suc j) = before ?ls (kvs n) j @ ?ls ! j @ [kvs n ! j]"
    using before_split [of ?ls "kvs n" j] assms(1) Suc.prems by simp
  moreover have "i = j \<or> i < j" using Suc.prems(1) by linarith
  ultimately show ?case using Suc assms(1) by auto
qed simp

lemma left_of_inj:
  assumes "shape h n" "indices_ok h n is" "indices_ok h n js"
    "length (left_of n is) = length (left_of n js)"
  shows "is = js"
  using assms
proof (induction h arbitrary: n "is" js)
  case 0
  then show ?case by auto
next
  case (Suc h)
  from Suc.prems(2) obtain i is' where i: "is = i # is'" "i \<le> node_len n" "indices_ok h (edges n ! i) is'" by auto
  from Suc.prems(3) obtain j js' where j: "js = j # js'" "j \<le> node_len n" "indices_ok h (edges n ! j) js'" by auto
  have sh: "shape h (edges n ! i)" "shape h (edges n ! j)" using Suc.prems(1) i(2) j(2) by simp_all
  have li: "left_of n is = before (map to_list (edges n)) (kvs n) i @ left_of (edges n ! i) is'"
    using i(1) indices_ok_ne [OF i(3)] by (cases is') auto
  have lj: "left_of n js = before (map to_list (edges n)) (kvs n) j @ left_of (edges n ! j) js'"
    using j(1) indices_ok_ne [OF j(3)] by (cases js') auto
  have "i = j"
  proof (rule ccontr)
    assume "i \<noteq> j"
    then consider "i < j" | "j < i" by linarith
    then show False
      using before_mono [OF Suc.prems(1), of i j] before_mono [OF Suc.prems(1), of j i] i(2) j(2)
        left_of_le [OF sh(1) i(3)] left_of_le [OF sh(2) j(3)] Suc.prems(4) li lj
      by cases auto
  qed
  moreover from this have "is' = js'"
    using Suc.IH [OF sh(1) i(3)] j(3) Suc.prems(4) li lj by simp
  ultimately show ?case using i(1) j(1) by simp
qed

lemma handle_indices:
  assumes "path_shape h p" "indices_ok h n is"
  shows "indices_ok (h + length p) (plug p n) (rev (path_indices p) @ is) \<and>
     left_of (plug p n) (rev (path_indices p) @ is) = lefts p @ left_of n is"
  using assms
proof (induction p arbitrary: h n "is")
  case Nil
  then show ?case by (simp add: path_indices_def)
next
  case (Cons f p)
  obtain ks es i where f: "f = (ks, es, i)" by (cases f)
  let ?pa = "Node ks (es[i := n])"
  have len: "length es = Suc (length ks)" "i \<le> length ks" "path_shape (Suc h) p"
    using Cons.prems(1) unfolding f path_shape.simps by simp_all
  have ok: "indices_ok (Suc h) ?pa (i # is)" using Cons.prems(2) len by simp
  have "left_of ?pa (i # is) = before (map to_list es) ks i @ left_of n is"
    using indices_ok_ne [OF Cons.prems(2)] len by (cases "is") (simp_all add: map_update)
  then show ?case
    using Cons.IH [OF len(3) ok] f by (simp add: path_indices_def)
qed

section \<open>Running a range\<close>

lemma first_leaf_tree:
  "first_leaf_edge h n p = (n', i, q) \<Longrightarrow> plug q n' = plug p n \<and> length q = h + length p"
  by (induction h arbitrary: n p) (auto simp: descend_def)

lemma next_up_tree:
  "next_up h n p = Some (x, n', i', q) \<Longrightarrow> plug q n' = plug p n \<and> length q = h + length p"
proof (induction h n p rule: next_up.induct)
  case (2 h n ks es i p)
  let ?pa = "Node ks (es[i := n])"
  show ?case
  proof (cases "i < length ks")
    case True
    then have "first_leaf_edge h (edges ?pa ! Suc i) ((ks, es[i := n], Suc i) # p) = (n', i', q)"
      using 2(2) by (auto simp: right_kv_def descend_def)
    moreover have "es[i := n, Suc i := es ! Suc i] = es[i := n]"
      by (metis list_update_id list_update_swap n_not_Suc_n)
    ultimately show ?thesis using first_leaf_tree by fastforce
  next
    case False
    then show ?thesis using 2 by (auto simp: right_kv_def)
  qed
qed simp

lemma next_tree:
  assumes "next_unchecked (n, i, p) = Some (x, n', i', q)"
  shows "plug q n' = plug p n" "length q = length p"
  using assms next_up_tree [of 0 n p x n' i' q]
  by (auto simp: next_unchecked_def split: option.splits)

text \<open>An edge of the tree with a given list of entries to its left and right.\<close>

definition edge_cut :: "('k, 'v) node \<Rightarrow> nat \<Rightarrow> ('k \<times> 'v) list \<Rightarrow> ('k \<times> 'v) list \<Rightarrow> ('k, 'v) handle \<Rightarrow> bool" where
  "edge_cut rt hh xs ys = (\<lambda>(n, i, p). cursor 0 n p \<and> plug p n = rt \<and> length p = hh \<and> i \<le> node_len n \<and>
     lefts p @ take i (kvs n) = xs \<and> drop i (kvs n) @ rights p = ys)"

lemma edge_cut_entries:
  assumes "edge_cut rt hh xs ys e"
  shows "to_list rt = xs @ ys"
proof -
  obtain n i p where e: "e = (n, i, p)" by (cases e)
  have c: "path_shape 0 p" "shape 0 n" "plug p n = rt"
    "lefts p @ take i (kvs n) = xs" "drop i (kvs n) @ rights p = ys"
    using assms by (simp_all add: edge_cut_def e cursor_def)
  have "to_list rt = lefts p @ kvs n @ rights p"
    using path_shape_plug [OF c(1), of n] c(3) shape_leaf [OF c(2)] by simp
  also have "\<dots> = (lefts p @ take i (kvs n)) @ (drop i (kvs n) @ rights p)" by simp
  finally show ?thesis by (simp only: c(4,5))
qed

lemma edge_cut_eq:
  assumes "edge_cut rt hh xs ys e" "edge_cut rt hh xs' ys' e'"
  shows "handle_eq e e' \<longleftrightarrow> length xs = length xs'"
proof -
  obtain n i p where e: "e = (n, i, p)" by (cases e)
  obtain n' i' p' where e': "e' = (n', i', p')" by (cases e')
  have c: "path_shape 0 p" "plug p n = rt" "length p = hh" "i \<le> node_len n" "cursor 0 n p"
    "lefts p @ take i (kvs n) = xs"
    using assms(1) by (simp_all add: edge_cut_def e cursor_def)
  have c': "path_shape 0 p'" "plug p' n' = rt" "length p' = hh" "i' \<le> node_len n'"
    "lefts p' @ take i' (kvs n') = xs'"
    using assms(2) by (simp_all add: edge_cut_def e' cursor_def)
  have sh: "shape hh rt" using cursor_plug [OF c(5)] c(2,3) by (simp add: root_ok_def)
  have a: "indices_ok hh rt (rev (path_indices p) @ [i])"
    "left_of rt (rev (path_indices p) @ [i]) = xs"
    using handle_indices [of 0 p n "[i]"] c by simp_all
  have b: "indices_ok hh rt (rev (path_indices p') @ [i'])"
    "left_of rt (rev (path_indices p') @ [i']) = xs'"
    using handle_indices [of 0 p' n' "[i']"] c' by simp_all
  have "handle_eq e e' \<longleftrightarrow> rev (path_indices p) @ [i] = rev (path_indices p') @ [i']"
    by (auto simp: handle_eq_def e e')
  then show ?thesis
    using left_of_inj [OF sh a(1) b(1)] a(2) b(2) by metis
qed

lemma edge_cut_next:
  assumes c: "edge_cut rt hh xs (y # ys) e"
  shows "\<exists>e'. next_unchecked e = Some (y, e') \<and> edge_cut rt hh (xs @ [y]) ys e'"
proof -
  obtain n i p where e: "e = (n, i, p)" by (cases e)
  have c': "cursor 0 n p" "plug p n = rt" "length p = hh" "i \<le> node_len n"
    "drop i (kvs n) @ rights p = y # ys"
    using c by (simp_all add: edge_cut_def e)
  obtain n' i' p' where s: "next_unchecked (n, i, p) = Some (y, n', i', p')" "cursor 0 n' p'"
    "i' \<le> node_len n'" "drop i' (kvs n') @ rights p' = ys"
    using next_unchecked_ok [OF c'(1,4,5)] by blast
  have t: "plug p' n' = rt" "length p' = hh" using next_tree [OF s(1)] c'(2,3) by simp_all
  define zs where "zs = lefts p' @ take i' (kvs n')"
  have ec: "edge_cut rt hh zs ys (n', i', p')" using s t by (simp add: edge_cut_def zs_def)
  then have "zs @ ys = xs @ y # ys"
    using edge_cut_entries [OF c] edge_cut_entries by metis
  then have "zs = xs @ [y]" by simp
  then show ?thesis using ec s(1) e by blast
qed

lemma range_drain_ok:
  assumes "edge_cut rt hh xs (ys @ zs) (range_front r)" "edge_cut rt hh (xs @ ys) zs (range_back r)"
  shows "range_drain (Suc (length ys)) r = Some ys"
  using assms
proof (induction ys arbitrary: xs r)
  case Nil
  then show ?case using edge_cut_eq [OF Nil] by (simp add: range_next_def)
next
  case (Cons y ys)
  obtain e where e: "next_unchecked (range_front r) = Some (y, e)" "edge_cut rt hh (xs @ [y]) (ys @ zs) e"
    using edge_cut_next [of rt hh xs y "ys @ zs" "range_front r"] Cons.prems(1) by auto
  have "\<not> handle_eq (range_front r) (range_back r)" using edge_cut_eq [OF Cons.prems] by simp
  then have "range_next r = Some (Some y, r\<lparr>range_front := e\<rparr>)" using e(1) by (simp add: range_next_def)
  moreover have "range_drain (Suc (length ys)) (r\<lparr>range_front := e\<rparr>) = Some ys"
    using Cons.IH [of "xs @ [y]" "r\<lparr>range_front := e\<rparr>"] e(2) Cons.prems(2) by simp
  ultimately show ?case by simp
qed

lemma split_takeWhile:
  assumes "\<forall>x \<in> set xs. P x" "\<forall>x \<in> set ys. \<not> P x"
  shows "xs = filter P (xs @ ys)" "ys = filter (\<lambda>x. \<not> P x) (xs @ ys)"
  using assms by (auto simp: filter_id_conv filter_empty_conv)

lemma edge_of_cut:
  assumes "edge_of rt hh P e"
  shows "edge_cut rt hh (filter (\<lambda>x. P (fst x)) (to_list rt)) (filter (\<lambda>x. \<not> P (fst x)) (to_list rt)) e"
proof -
  obtain n i p where e: "e = (n, i, p)" by (cases e)
  define xs ys where "xs = lefts p @ take i (kvs n)" and "ys = drop i (kvs n) @ rights p"
  have c: "edge_cut rt hh xs ys e" using assms by (simp add: edge_of_def edge_cut_def e xs_def ys_def)
  have "\<forall>x \<in> set xs. P (fst x)" "\<forall>x \<in> set ys. \<not> P (fst x)"
    using assms by (simp_all add: edge_of_def e xs_def ys_def)
  from split_takeWhile [of xs "\<lambda>x. P (fst x)", OF this] c show ?thesis
    by (simp only: edge_cut_entries [OF c])
qed

text \<open>A legal range exists; its two edges enclose the entries of the map in the range.\<close>

lemma range_search_cuts:
  assumes inv: "map_inv m" and ok: "\<not> bad_range lo hi"
  obtains f b where "range_search (height m) (root m) lo hi = Some (f, b)"
    "edge_cut (root m) (height m) (filter (\<lambda>x. below_start lo (fst x)) (entries m))
       (filter (\<lambda>x. in_range lo hi (fst x)) (entries m) @ filter (\<lambda>x. \<not> upto_end hi (fst x)) (entries m)) f"
    "edge_cut (root m) (height m)
       (filter (\<lambda>x. below_start lo (fst x)) (entries m) @ filter (\<lambda>x. in_range lo hi (fst x)) (entries m))
       (filter (\<lambda>x. \<not> upto_end hi (fst x)) (entries m)) b"
proof -
  obtain f b where fb: "range_search (height m) (root m) lo hi = Some (f, b)"
    "edge_of (root m) (height m) (below_start lo) f" "edge_of (root m) (height m) (upto_end hi) b"
    using range_search_edges [OF inv ok] by blast
  let ?P = "\<lambda>x. below_start lo (fst x)" and ?Q = "\<lambda>x. upto_end hi (fst x)" and ?es = "to_list (root m)"
  let ?ys = "filter (\<lambda>x. in_range lo hi (fst x)) ?es"
  have c1: "edge_cut (root m) (height m) (filter ?P ?es) (filter (\<lambda>x. \<not> ?P x) ?es) f"
    and c2: "edge_cut (root m) (height m) (filter ?Q ?es) (filter (\<lambda>x. \<not> ?Q x) ?es) b"
    using edge_of_cut fb(2,3) by blast+
  have e: "?es = filter ?P ?es @ filter (\<lambda>x. \<not> ?P x) ?es" "?es = filter ?Q ?es @ filter (\<lambda>x. \<not> ?Q x) ?es"
    using edge_cut_entries [OF c1] edge_cut_entries [OF c2] by simp_all
  have "filter ?Q ?es = filter ?Q (filter ?P ?es @ filter (\<lambda>x. \<not> ?P x) ?es)"
    by (simp only: e(1) [symmetric])
  also have "\<dots> = filter ?P ?es @ ?ys"
    using below_upto [OF ok] by (auto simp: in_range_def filter_filter intro!: filter_cong)
  finally have q: "filter ?Q ?es = filter ?P ?es @ ?ys" .
  then have "filter (\<lambda>x. \<not> ?P x) ?es = ?ys @ filter (\<lambda>x. \<not> ?Q x) ?es"
    using e by (metis append.assoc append_same_eq same_append_eq)
  then show ?thesis using that [OF fb(1)] c1 c2 q by (simp add: entries_def)
qed

lemma btree_range_ok:
  assumes inv: "map_inv m" and ok: "\<not> bad_range lo hi"
  shows "\<exists>r. btree_range m lo hi = Some r \<and>
     (let xs = filter (\<lambda>x. in_range lo hi (fst x)) (entries m) in
      range_drain (Suc (length xs)) r = Some xs)"
proof -
  obtain f b where fb: "range_search (height m) (root m) lo hi = Some (f, b)"
    "edge_cut (root m) (height m) (filter (\<lambda>x. below_start lo (fst x)) (entries m))
       (filter (\<lambda>x. in_range lo hi (fst x)) (entries m) @ filter (\<lambda>x. \<not> upto_end hi (fst x)) (entries m)) f"
    "edge_cut (root m) (height m)
       (filter (\<lambda>x. below_start lo (fst x)) (entries m) @ filter (\<lambda>x. in_range lo hi (fst x)) (entries m))
       (filter (\<lambda>x. \<not> upto_end hi (fst x)) (entries m)) b"
    using range_search_cuts [OF assms] .
  then show ?thesis
    using range_drain_ok [of "root m" "height m" _ _ _ "\<lparr>range_front = f, range_back = b\<rparr>"]
    by (simp add: btree_range_def)
qed

lemma range_drain_fuel:
  assumes "range_drain k r = Some xs" "k \<le> k'"
  shows "range_drain k' r = Some xs"
  using assms
proof (induction k arbitrary: k' r xs)
  case (Suc k)
  obtain j where j: "k' = Suc j" "k \<le> j" using Suc.prems(2) by (cases k') auto
  from Suc.prems(1) obtain v r' where n: "range_next r = Some (v, r')"
    by (cases "range_next r") auto
  show ?case
  proof (cases v)
    case None
    then show ?thesis using Suc.prems(1) n j(1) by simp
  next
    case (Some kv)
    then obtain ys where "range_drain k r' = Some ys" "xs = kv # ys" using Suc.prems(1) n by auto
    then show ?thesis using Suc.IH [of r' ys j] Some n j by simp
  qed
qed simp

lemma btree_range_drain:
  assumes inv: "map_inv m" and ok: "\<not> bad_range lo hi"
  shows "\<exists>r. btree_range m lo hi = Some r \<and>
     range_drain (Suc (map_length m)) r = Some (filter (\<lambda>x. in_range lo hi (fst x)) (entries m))"
proof -
  let ?xs = "filter (\<lambda>x. in_range lo hi (fst x)) (entries m)"
  obtain r where r: "btree_range m lo hi = Some r" "range_drain (Suc (length ?xs)) r = Some ?xs"
    using btree_range_ok [OF assms] by (auto simp: Let_def)
  have "length ?xs \<le> map_length m" using inv by (simp add: map_inv_def)
  then show ?thesis using r range_drain_fuel [OF r(2), of "Suc (map_length m)"] by auto
qed

end
