(* ===== verification/BTree_Contract.thy ===== *)
theory BTree_Contract
  imports BTree_Range
begin

text \<open>
  The properties of the B-tree map, and a behaviour of it that a caller has to know: a failed
  allocation in the middle of an insertion loses entries.
\<close>

section \<open>Height\<close>

lemma interleave_length:
  "length ls = Suc (length ks) \<Longrightarrow> length (interleave ls ks) = sum_list (map length ls) + length ks"
proof (induction ls ks rule: interleave.induct)
  case (2 l ls)
  then show ?case by simp
qed auto

lemma sum_list_ge: "\<forall>x \<in> set xs. c \<le> f x \<Longrightarrow> length xs * c \<le> sum_list (map f xs)" for c :: nat
  by (induction xs) auto

lemma shape_entries:
  assumes "shape h n" "m \<le> Suc (node_len n)"
  shows "m * 5 ^ h \<le> Suc (length (to_list n))"
  using assms
proof (induction h arbitrary: n m)
  case 0
  then show ?case using shape_leaf [of n] by simp
next
  case (Suc h)
  obtain ks es where n: "n = Node ks es" by (cases n)
  have es: "length es = Suc (length ks)" "\<forall>e \<in> set es. 4 \<le> node_len e \<and> shape h e"
    using Suc.prems(1) n by simp_all
  have ge: "\<forall>e \<in> set es. 5 * 5 ^ h \<le> Suc (length (to_list e))"
    using Suc.IH [of _ 5] es(2) by simp
  have "m \<le> length es" using Suc.prems(2) es(1) n by simp
  then have "m * 5 ^ Suc h \<le> length es * (5 * 5 ^ h)" unfolding power_Suc by (rule mult_le_mono1)
  also have "\<dots> \<le> sum_list (map (\<lambda>e. Suc (length (to_list e))) es)" by (rule sum_list_ge [OF ge])
  also have "\<dots> = sum_list (map (\<lambda>e. length (to_list e)) es) + length es"
    by (induction es) auto
  also have "\<dots> = Suc (length (to_list n))"
    using interleave_length [of "map to_list es" ks] es(1) n by (simp add: comp_def)
  finally show ?case .
qed

section \<open>Example maps\<close>

definition always :: "unit allocator" where
  "always = (\<lambda>_. (True, ()))"

text \<open>An allocator with room for a given number of further nodes.\<close>

definition budget :: "nat allocator" where
  "budget = (\<lambda>k. (0 < k, k - 1))"

definition full_leaf :: "(int, int) btree_map" where
  "full_leaf = \<lparr>root = Node (map (\<lambda>k. (k, 10 * k)) [1..11]) [], height = 0, shared_root = False,
     map_length = 11\<rparr>"

lemma full_leaf_inv: "map_inv full_leaf"
  by (simp add: map_inv_def root_ok_def entries_def full_leaf_def sorted_keys_def upto.simps)

lemma full_leaf_entries: "entries full_leaf = map (\<lambda>k. (k, 10 * k)) [1..11]"
  by (simp add: entries_def full_leaf_def)

section \<open>Properties\<close>

text \<open>C8: \<open>insert\<close> implements the update of a finite map.  When it returns \<open>Ok\<close>, the tree is well
  formed, the old value of the key is returned, the key has the new value and every other key
  keeps its value; and it returns \<open>Ok\<close> whenever the allocator does.\<close>

theorem btree_insert_refines_update:
  assumes "map_inv m"
  shows "(btree_insert al m key v a = (Inr old, m', a') \<longrightarrow>
       map_inv m' \<and> old = btree_get m key \<and> btree_get m' = (btree_get m)(key \<mapsto> v)) \<and>
     ((\<forall>a. fst (al a)) \<longrightarrow> (\<exists>old m' a'. btree_insert al m key v a = (Inr old, m', a')))"
proof (intro conjI impI)
  show "\<exists>old m' a'. btree_insert al m key v a = (Inr old, m', a')" if "\<forall>a. fst (al a)"
    by (rule bt.ins_total [OF that])
qed (use bt.ins_law [OF assms, of al key v a old m' a'] in simp_all)

theorem btree_insert_refines_update_witness:
  "\<exists>old m'. btree_insert always full_leaf 5 7 () = (Inr old, m', ()) \<and> map_inv m' \<and>
     old = Some 50 \<and> btree_get m' 5 = Some 7"
proof -
  have "\<forall>a. fst (always a)" by (simp add: always_def)
  then obtain old m' where i: "btree_insert always full_leaf 5 7 () = (Inr old, m', ())"
    using btree_insert_refines_update [OF full_leaf_inv, of always 5 7 "()"] by (metis unit.exhaust)
  have "btree_get full_leaf 5 = Some 50"
    by (simp add: btree_get_entries [OF full_leaf_inv] full_leaf_entries upto.simps)
  then show ?thesis
    using btree_insert_refines_update [OF full_leaf_inv, of always 5 7 "()" old m' "()"] i by auto
qed

text \<open>C9: \<open>remove\<close> implements deletion from a finite map.  It never panics on a well-formed tree
  (the \<open>unreachable!()\<close> of the underflow loop is unreachable), returns the value of the key,
  removes that key only, and leaves a well-formed tree: every node but the root keeps at least
  four entries through merging and stealing.\<close>

theorem btree_remove_refines_deletion:
  assumes "map_inv m"
  shows "\<exists>m'. btree_remove m key = Some (btree_get m key, m') \<and> map_inv m' \<and>
     btree_get m' = (btree_get m)(key := None)"
  by (rule bt.remove_law [OF assms])

theorem btree_remove_refines_deletion_witness:
  "\<exists>m'. btree_remove full_leaf 3 = Some (Some 30, m') \<and> map_inv m' \<and> btree_get m' 3 = None"
proof -
  have "btree_get full_leaf 3 = Some 30"
    by (simp add: btree_get_entries [OF full_leaf_inv] full_leaf_entries upto.simps)
  then show ?thesis using btree_remove_refines_deletion [OF full_leaf_inv, of 3] by auto
qed

text \<open>Iterating a well-formed map from its first entry visits exactly its entries, in strictly
  increasing order of the keys, and then ends; \<open>get\<close> finds a key exactly when the iteration visits
  it; and the reversed iterator starts with the greatest key.\<close>

lemma btree_iteration:
  assumes "map_inv m"
  shows "\<exists>xs. drain (Suc (map_length m)) (btree_iter_new m) = Some xs \<and> sorted_keys xs \<and>
     length xs = map_length m \<and> (\<forall>k. btree_get m k = map_of xs k) \<and>
     btree_last_key m = Some (if xs = [] then None else Some (fst (last xs)))"
  using iter_entries [OF assms] btree_get_entries [OF assms] btree_last_key_ok [OF assms] assms
  by (intro exI [of _ "entries m"]) (simp add: map_inv_def)

lemma btree_iteration_witness:
  "\<exists>xs. drain 12 (btree_iter_new full_leaf) = Some xs \<and> length xs = 11 \<and> map_of xs 11 = Some 110"
proof -
  have l: "map_length full_leaf = 11" by (simp add: full_leaf_def)
  have "btree_get full_leaf 11 = Some 110"
    by (simp add: btree_get_entries [OF full_leaf_inv] full_leaf_entries upto.simps)
  then show ?thesis using btree_iteration [OF full_leaf_inv] l by auto
qed

text \<open>The tree is shallow: with \<open>n\<close> entries and height \<open>h > 0\<close>, \<open>2 * 5 ^ h <= n + 1\<close>, so a
  lookup visits a number of nodes logarithmic in the size of the map.\<close>

lemma btree_height_bound:
  assumes "map_inv m" "0 < height m"
  shows "2 * 5 ^ height m \<le> map_length m + 1"
proof -
  have "shape (height m) (root m)" "2 \<le> Suc (node_len (root m))"
    using assms by (auto simp: map_inv_def root_ok_def Suc_le_eq)
  from shape_entries [OF this] show ?thesis using assms(1) by (simp add: map_inv_def entries_def)
qed

definition two_levels :: "(int, int) btree_map" where
  "two_levels = fst (snd (btree_insert always full_leaf 12 120 ()))"

lemma btree_height_bound_witness:
  "map_inv two_levels \<and> height two_levels = 1 \<and> 2 * 5 ^ height two_levels \<le> map_length two_levels + 1"
proof -
  have "\<forall>a. fst (always a)" by (simp add: always_def)
  then obtain old m' a' where "btree_insert always full_leaf 12 120 () = (Inr old, m', a')"
    using bt.ins_total [of always full_leaf 12 120 "()"] by blast
  then have inv: "map_inv two_levels" using bt.ins_law [OF full_leaf_inv, of always 12 120 "()" old m' a']
    by (simp add: two_levels_def)
  have h: "height two_levels = 1"
    by (simp add: two_levels_def btree_insert_def ensure_root_is_owned_def full_leaf_def search_node_def
        search_linear_def upto.simps vacant_insert_def leaf_insert_def leaf_split_def always_def)
  show ?thesis using btree_height_bound [OF inv] inv h by simp
qed

text \<open>An insertion that runs out of memory may lose entries.  In a full leaf of eleven entries,
  inserting a twelfth splits the leaf; when the allocation of the new root then fails, \<open>insert\<close>
  returns the error but the right half of the split leaf is gone, and the length still counts it.\<close>

lemma btree_insert_failure_loses_entries:
  "\<exists>m'. btree_insert budget full_leaf 12 120 1 = (Inl AllocErr, m', 0) \<and> map_inv full_leaf \<and>
     btree_get full_leaf 11 = Some 110 \<and> btree_get m' 11 = None \<and> entries m' = map (\<lambda>k. (k, 10 * k)) [1..6] \<and>
     map_length m' = 12"
proof -
  define m' :: "(int, int) btree_map" where
    "m' = \<lparr>root = Node (map (\<lambda>k. (k, 10 * k)) [1..6]) [], height = 0, shared_root = False, map_length = 12\<rparr>"
  have "btree_insert budget full_leaf 12 120 1 = (Inl AllocErr, m', 0)"
    by (simp add: btree_insert_def ensure_root_is_owned_def full_leaf_def search_node_def m'_def
        search_linear_def upto.simps vacant_insert_def leaf_insert_def leaf_split_def budget_def)
  moreover have "btree_get full_leaf 11 = Some 110"
    by (simp add: btree_get_entries [OF full_leaf_inv] full_leaf_entries upto.simps)
  moreover have "btree_get m' 11 = None"
    by (simp add: btree_get_def m'_def search_node_def search_linear_def upto.simps)
  ultimately show ?thesis using full_leaf_inv by (auto simp: m'_def entries_def)
qed


text \<open>A split may leave a node with four entries, fewer than the \<open>MIN_LEN = B - 1 = 5\<close> that the
  documentation of the map promises for every node: inserting a key below the middle of a full
  leaf gives two leaves of seven and four entries.\<close>

lemma btree_split_leaves_short_node:
  "\<exists>m' l r. btree_insert always full_leaf 0 0 () = (Inr None, m', ()) \<and> map_inv m' \<and>
     edges (root m') = [l, r] \<and> node_len l = 7 \<and> node_len r = 4 \<and> node_len r < MIN_LEN"
proof -
  obtain m' where m': "btree_insert always full_leaf 0 0 () = (Inr None, m', ())"
    "edges (root m') = [Node ((0, 0) # map (\<lambda>k. (k, 10 * k)) [1..6]) [], Node (map (\<lambda>k. (k, 10 * k)) [8..11]) []]"
    by (simp add: btree_insert_def ensure_root_is_owned_def full_leaf_def search_node_def
        search_linear_def upto.simps vacant_insert_def leaf_insert_def leaf_split_def always_def
        leaf_insert_fit_def slice_insert_def internal_push_def)
  moreover have "map_inv m'" using bt.ins_law [OF full_leaf_inv m'(1)] by simp
  ultimately show ?thesis by (simp add: MIN_LEN_def upto.simps)
qed

text \<open>\<open>range\<close> of a well-formed map panics exactly on the documented inputs, a start above the end
  or equal excluded bounds; otherwise the two searches from the root find edges such that the
  iterator yields the entries between the bounds, in key order, and then ends.\<close>

lemma btree_range_yields:
  assumes "map_inv m"
  shows "(btree_range m lo hi = None \<longleftrightarrow> bad_range lo hi) \<and>
     (\<forall>r. btree_range m lo hi = Some r \<longrightarrow>
       range_drain (Suc (length (filter (\<lambda>x. in_range lo hi (fst x)) (entries m)))) r =
         Some (filter (\<lambda>x. in_range lo hi (fst x)) (entries m)))"
proof (cases "bad_range lo hi")
  case True
  then show ?thesis by (simp add: btree_range_def range_search_def)
next
  case False
  then show ?thesis using btree_range_ok [OF assms False] by (auto simp: Let_def)
qed

lemma btree_range_yields_witness:
  "\<exists>r. btree_range full_leaf (Included 3) (Excluded 5) = Some r \<and>
     range_drain 3 r = Some [(3, 30), (4, 40)]"
proof -
  let ?xs = "filter (\<lambda>x. in_range (Included 3) (Excluded 5) (fst x)) (entries full_leaf)"
  have xs: "?xs = [(3, 30), (4, 40)]"
    by (simp add: full_leaf_entries in_range_def upto.simps)
  have "\<not> bad_range (Included (3 :: int)) (Excluded 5)" by simp
  then obtain r where "btree_range full_leaf (Included 3) (Excluded 5) = Some r"
    using btree_range_yields [OF full_leaf_inv, of "Included 3" "Excluded 5"] by auto
  moreover from this have "range_drain (Suc (length ?xs)) r = Some ?xs"
    using btree_range_yields [OF full_leaf_inv, of "Included 3" "Excluded 5"] by blast
  ultimately show ?thesis unfolding xs by (simp add: numeral_3_eq_3)
qed

end
