(* ===== verification/Object_Table.thy ===== *)
theory Object_Table
  imports Interface BTree_Contract
begin

text \<open>
  Kernel objects and the handles of each task: \<open>kernel/src/object.rs\<close>.

  \<open>TASK_HANDLES\<close> is a B-tree map from task ids to B-tree maps from handles to objects, the code of
  \<open>alloc_collections\<close>.  A reference \<open>DynObjectRef\<close> is a value of the type variable \<open>'o\<close>; cloning it
  is the identity here (its reference count is that of \<open>Arc\<close>).  A handle is a
  \<open>NonZeroU64\<close>, so the invariant keeps zero out of the maps.  \<open>None\<close> is a panic.
\<close>

section \<open>Objects\<close>

text \<open>\<open>ObjectKind\<close> over the types of page contexts and of files.\<close>

datatype ('p, 'f) object_kind = ObjPageCtx 'p | ObjFile 'f

definition as_ref_page_ctx :: "('p, 'f) object_kind \<Rightarrow> 'p sys_result" where
  "as_ref_page_ctx k = (case k of ObjPageCtx a \<Rightarrow> Inr a | _ \<Rightarrow> Inl SysWrongObjectKind)"

definition as_ref_file :: "('p, 'f) object_kind \<Rightarrow> 'f sys_result" where
  "as_ref_file k = (case k of ObjFile a \<Rightarrow> Inr a | _ \<Rightarrow> Inl SysWrongObjectKind)"

text \<open>\<open>ObjectRef::<T>::from_dyn\<close> and \<open>Object::downcast\<close>: the check; the reference stays the same.
  \<open>ObjectRef::object\<close> repeats the check with an \<open>expect\<close>.\<close>

definition downcast :: "('k \<Rightarrow> 't sys_result) \<Rightarrow> 'k \<Rightarrow> 'k sys_result" where
  "downcast as_ref r = (case as_ref r of Inl e \<Rightarrow> Inl e | Inr _ \<Rightarrow> Inr r)"

definition object :: "('k \<Rightarrow> 't sys_result) \<Rightarrow> 'k \<Rightarrow> 't option" where
  "object as_ref r = (case as_ref r of Inl e \<Rightarrow> None | Inr a \<Rightarrow> Some a)"

section \<open>Handles\<close>

type_synonym task_id = u64
type_synonym 'o handle_map = "(u64, 'o) btree_map"
type_synonym 'o task_handles = "(task_id, 'o handle_map) btree_map"

definition handle_from_u64 :: "u64 \<Rightarrow> u64 option" where
  "handle_from_u64 u = (if u = 0 then None else Some u)"

definition object_init :: "'o task_handles" where
  "object_init = btree_new"

text \<open>\<open>NonZeroU64::new(h.0.get() + 1).expect(...)\<close>: at the largest handle the debug build panics on
  the addition and the release build on the \<open>expect\<close>.\<close>

definition next_handle :: "u64 option \<Rightarrow> u64 option" where
  "next_handle prev = (case prev of None \<Rightarrow> Some 1 | Some h \<Rightarrow> if h + 1 = 0 then None else Some (h + 1))"

definition object_put :: "'a allocator \<Rightarrow> task_id \<Rightarrow> 'o \<Rightarrow> 'o task_handles \<Rightarrow> 'a
    \<Rightarrow> (u64 sys_result \<times> 'o task_handles \<times> 'a) option" where
  "object_put al t obj task_handles a = (
     let prepared =
       (case btree_get task_handles t of
          Some _ \<Rightarrow> (Inr (), task_handles, a)
        | None \<Rightarrow>
            (case btree_insert al task_handles t btree_new a of
               (Inl _, th, a) \<Rightarrow> (Inl SysMemoryExhausted, th, a)
             | (Inr _, th, a) \<Rightarrow> (Inr (), th, a)))
     in case prepared of
          (Inl e, th, a) \<Rightarrow> Some (Inl e, th, a)
        | (Inr _, th, a) \<Rightarrow> do {
            handles \<leftarrow> btree_get th t;
            prev \<leftarrow> btree_last_key handles;
            new_id \<leftarrow> next_handle prev;
            (case btree_insert al handles new_id obj a of
               (Inl _, handles, a) \<Rightarrow> Some (Inl SysMemoryExhausted, btree_update th t (\<lambda>_. handles), a)
             | (Inr _, handles, a) \<Rightarrow> Some (Inr new_id, btree_update th t (\<lambda>_. handles), a)) })"

definition object_get :: "task_id \<Rightarrow> u64 \<Rightarrow> 'o task_handles \<Rightarrow> 'o option" where
  "object_get t h task_handles = do { m \<leftarrow> btree_get task_handles t; btree_get m h }"

definition object_release :: "task_id \<Rightarrow> u64 \<Rightarrow> 'o task_handles \<Rightarrow> ((unit + 'o) \<times> 'o task_handles) option" where
  "object_release t h task_handles =
     (case btree_get task_handles t of
        None \<Rightarrow> Some (Inl (), task_handles)
      | Some m \<Rightarrow> do {
          (r, m') \<leftarrow> btree_remove m h;
          Some (case r of None \<Rightarrow> Inl () | Some obj \<Rightarrow> Inr obj, btree_update task_handles t (\<lambda>_. m')) })"

definition drop_all_for_task :: "task_id \<Rightarrow> 'o task_handles \<Rightarrow> 'o task_handles option" where
  "drop_all_for_task t task_handles = map_option snd (btree_remove task_handles t)"

section \<open>Invariant\<close>

definition handles_inv :: "'o task_handles \<Rightarrow> bool" where
  "handles_inv th \<longleftrightarrow> map_inv th \<and>
     (\<forall>t m. btree_get th t = Some m \<longrightarrow> map_inv m \<and> btree_get m 0 = None)"

lemma handles_inv_map: "handles_inv th \<Longrightarrow> btree_get th t = Some m \<Longrightarrow> map_inv m \<and> btree_get m 0 = None"
  by (simp add: handles_inv_def)

lemma handles_inv_update:
  assumes "handles_inv th" "btree_get th t = Some m" "map_inv m'" "btree_get m' 0 = None"
  shows "handles_inv (btree_update th t (\<lambda>_. m'))"
    "btree_get (btree_update th t (\<lambda>_. m')) = (btree_get th)(t \<mapsto> m')"
proof -
  show g: "btree_get (btree_update th t (\<lambda>_. m')) = (btree_get th)(t \<mapsto> m')"
    using bt.update_law [of th t "\<lambda>_. m'"] assms(1,2) by (simp add: handles_inv_def)
  show "handles_inv (btree_update th t (\<lambda>_. m'))"
    using bt.update_law [of th t "\<lambda>_. m'"] assms by (simp add: handles_inv_def)
qed

lemma object_get_update:
  assumes "btree_get th' = (btree_get th)(t \<mapsto> m')"
  shows "object_get t' h th' = (if t' = t then btree_get m' h else object_get t' h th)"
  by (simp add: object_get_def assms)

lemma less_plus_1: "k + 1 \<noteq> 0 \<Longrightarrow> k < k + 1" for k :: u64
  using unatSuc [of k] by (simp add: word_less_nat_alt add.commute)

lemma next_handle_fresh:
  assumes inv: "map_inv m" and l: "btree_last_key m = Some prev" and n: "next_handle prev = Some h"
  shows "btree_get m h = None" "h \<noteq> 0"
proof -
  show "h \<noteq> 0" using n by (auto simp: next_handle_def split: option.splits if_splits)
  show "btree_get m h = None"
  proof (cases prev)
    case None
    then show ?thesis using bt.last_law [OF inv] l by auto
  next
    case (Some k)
    then have "k < h" using n by (auto simp: next_handle_def less_plus_1 split: if_splits)
    then show ?thesis using bt.above_last_fresh [OF inv, of k h] l Some by simp
  qed
qed

lemma object_putD:
  assumes inv: "handles_inv th" and p: "object_put al t obj th a = Some (r, th', a')"
  shows "case r of
      Inr h \<Rightarrow> handles_inv th' \<and> h \<noteq> 0 \<and> object_get t h th = None \<and>
        (\<forall>t' h'. object_get t' h' th' = (if t' = t \<and> h' = h then Some obj else object_get t' h' th))
    | Inl e \<Rightarrow> e = SysMemoryExhausted"
proof -
  \<comment> \<open>the table after the map of the task was created\<close>
  consider (fail) "r = Inl SysMemoryExhausted"
    | (ok) th1 m a1 where "handles_inv th1" "btree_get th1 t = Some m"
        "\<forall>t' h'. object_get t' h' th1 = object_get t' h' th"
        "do { prev \<leftarrow> btree_last_key m; new_id \<leftarrow> next_handle prev;
            (case btree_insert al m new_id obj a1 of
               (Inl _, handles, a) \<Rightarrow> Some (Inl SysMemoryExhausted, btree_update th1 t (\<lambda>_. handles), a)
             | (Inr _, handles, a) \<Rightarrow> Some (Inr new_id, btree_update th1 t (\<lambda>_. handles), a)) } = Some (r, th', a')"
  proof (cases "btree_get th t")
    case (Some m)
    then show thesis using ok [of th m a] inv p by (simp add: object_put_def)
  next
    case None
    show thesis
    proof (cases "btree_insert al th t (btree_new :: 'a handle_map) a")
      case (fields x th1 a1)
      show thesis
      proof (cases x)
        case (Inl e)
        then show thesis using fail None fields p by (simp add: object_put_def)
      next
        case (Inr old)
        have i: "map_inv th1" "btree_get th1 = (btree_get th)(t \<mapsto> btree_new)"
          using bt.ins_law [of th al t btree_new a old th1 a1] fields Inr inv by (auto simp: handles_inv_def)
        have "handles_inv th1"
          using i inv bt.inv_new bt.get_new by (auto simp: handles_inv_def)
        moreover have "\<forall>t' h'. object_get t' h' th1 = object_get t' h' th"
          using None by (simp add: object_get_update [OF i(2)] bt.get_new) (simp add: object_get_def)
        ultimately show thesis
          using ok [of th1 btree_new a1] None fields Inr p i(2) by (simp add: object_put_def)
      qed
    qed
  qed
  then show ?thesis
  proof cases
    case fail
    then show ?thesis by simp
  next
    case ok
    have m: "map_inv m" "btree_get m 0 = None" using handles_inv_map [OF ok(1,2)] by auto
    from ok(4) obtain prev h where ph: "btree_last_key m = Some prev" "next_handle prev = Some h"
      and ins: "(case btree_insert al m h obj a1 of
               (Inl _, handles, a) \<Rightarrow> Some (Inl SysMemoryExhausted, btree_update th1 t (\<lambda>_. handles), a)
             | (Inr _, handles, a) \<Rightarrow> Some (Inr h, btree_update th1 t (\<lambda>_. handles), a)) = Some (r, th', a')"
      by (auto simp: option_monad)
    note fr = next_handle_fresh [OF m(1) ph]
    show ?thesis
    proof (cases "btree_insert al m h obj a1")
      case (fields x m' a2)
      show ?thesis
      proof (cases x)
        case (Inl e)
        then show ?thesis using ins fields by auto
      next
        case (Inr old)
        then have r: "r = Inr h" "th' = btree_update th1 t (\<lambda>_. m')" using ins fields by auto
        have i: "map_inv m'" "btree_get m' = (btree_get m)(h \<mapsto> obj)"
          using bt.ins_law [of m al h obj a1 old m' a2] fields Inr m(1) by auto
        have "btree_get m' 0 = None" using i(2) m(2) fr(2) by simp
        note u = handles_inv_update [OF ok(1,2) i(1) this]
        have og: "object_get t h' th1 = btree_get m h'" for h' using ok(2) by (simp add: object_get_def)
        have "object_get t h th = None" using og fr(1) ok(3) by metis
        moreover have "object_get t' h' th' = (if t' = t \<and> h' = h then Some obj else object_get t' h' th)" for t' h'
        proof -
          have "object_get t' h' th' = (if t' = t then btree_get m' h' else object_get t' h' th1)"
            unfolding r(2) by (rule object_get_update [OF u(2)])
          then show ?thesis using i(2) og [of h'] ok(3) by auto
        qed
        ultimately show ?thesis using r u(1) fr(2) by simp
      qed
    qed
  qed
qed

lemma object_release_ok:
  assumes inv: "handles_inv th"
  shows "\<exists>th'. object_release t h th =
       Some (case object_get t h th of None \<Rightarrow> Inl () | Some obj \<Rightarrow> Inr obj, th') \<and> handles_inv th' \<and>
     (\<forall>t' h'. object_get t' h' th' = (if t' = t \<and> h' = h then None else object_get t' h' th))"
proof (cases "btree_get th t")
  case None
  then show ?thesis using inv by (auto simp: object_release_def object_get_def)
next
  case (Some m)
  have m: "map_inv m" "btree_get m 0 = None" using handles_inv_map [OF inv Some] by auto
  obtain m' where r: "btree_remove m h = Some (btree_get m h, m')" "map_inv m'"
    "btree_get m' = (btree_get m)(h := None)" using bt.remove_law [OF m(1)] by blast
  have "btree_get m' 0 = None" using r(3) m(2) by simp
  note u = handles_inv_update [OF inv Some r(2) this]
  have "object_get t' h' (btree_update th t (\<lambda>_. m')) =
      (if t' = t \<and> h' = h then None else object_get t' h' th)" for t' h'
    using object_get_update [OF u(2), of t' h'] r(3) Some by (auto simp: object_get_def)
  then show ?thesis
    using Some r(1) u(1) by (auto simp: object_release_def object_get_def split: option.splits)
qed

lemma drop_all_ok:
  assumes inv: "handles_inv th"
  shows "\<exists>th'. drop_all_for_task t th = Some th' \<and> handles_inv th' \<and>
     (\<forall>t' h'. object_get t' h' th' = (if t' = t then None else object_get t' h' th))"
proof -
  obtain th' where r: "btree_remove th t = Some (btree_get th t, th')" "map_inv th'"
    "btree_get th' = (btree_get th)(t := None)"
    using bt.remove_law [of th t] inv by (auto simp: handles_inv_def)
  have "handles_inv th'" using inv r(2,3) by (auto simp: handles_inv_def split: if_splits)
  then show ?thesis using r by (auto simp: drop_all_for_task_def object_get_def)
qed

section \<open>The contract of a handle table\<close>

text \<open>What the system calls rely on: a new handle is not in use, tasks do not see each other's
  handles, and a handle is valid until it is released.\<close>

locale handle_table =
  fixes put :: "'a allocator \<Rightarrow> task_id \<Rightarrow> 'o \<Rightarrow> 's \<Rightarrow> 'a \<Rightarrow> (u64 sys_result \<times> 's \<times> 'a) option"
    and get :: "task_id \<Rightarrow> u64 \<Rightarrow> 's \<Rightarrow> 'o option"
    and release :: "task_id \<Rightarrow> u64 \<Rightarrow> 's \<Rightarrow> ((unit + 'o) \<times> 's) option"
    and inv :: "'s \<Rightarrow> bool"
  assumes put_law: "inv s \<Longrightarrow> put al t obj s a = Some (Inr h, s', a') \<Longrightarrow>
      inv s' \<and> h \<noteq> 0 \<and> get t h s = None \<and>
      (\<forall>t' h'. get t' h' s' = (if t' = t \<and> h' = h then Some obj else get t' h' s))"
    and release_law: "inv s \<Longrightarrow> \<exists>s'. release t h s =
        Some (case get t h s of None \<Rightarrow> Inl () | Some obj \<Rightarrow> Inr obj, s') \<and> inv s' \<and>
      (\<forall>t' h'. get t' h' s' = (if t' = t \<and> h' = h then None else get t' h' s))"
begin

lemma put_release:
  assumes "inv s" "put al t obj s a = Some (Inr h, s', a')"
  shows "\<exists>s''. release t h s' = Some (Inr obj, s'') \<and> inv s'' \<and> (\<forall>t' h'. get t' h' s'' = get t' h' s)"
proof -
  have p: "inv s'" "get t h s = None" "\<forall>t' h'. get t' h' s' = (if t' = t \<and> h' = h then Some obj else get t' h' s)"
    using put_law [OF assms] by auto
  show ?thesis using release_law [OF p(1), of t h] p(2,3) by auto
qed

lemma put_distinct:
  assumes "inv s" "put al t obj s a = Some (Inr h, s', a')" "put al' t obj' s' a' = Some (Inr h', s'', a'')"
  shows "h \<noteq> h'" "get t h s'' = Some obj" "get t h' s'' = Some obj'"
proof -
  have p: "inv s'" "get t h s' = Some obj" using put_law [OF assms(1,2)] by auto
  have q: "get t h' s' = None" "\<forall>t' k. get t' k s'' = (if t' = t \<and> k = h' then Some obj' else get t' k s')"
    using put_law [OF p(1) assms(3)] by auto
  show "h \<noteq> h'" using p(2) q(1) by auto
  then show "get t h s'' = Some obj" "get t h' s'' = Some obj'" using p(2) q(2) by auto
qed

lemma release_twice:
  assumes "inv s" "release t h s = Some (r, s')"
  shows "\<exists>s''. release t h s' = Some (Inl (), s'')"
  using release_law [OF assms(1), of t h] release_law [of s' t h] assms(2) by auto

end

interpretation ht: handle_table object_put object_get object_release handles_inv
proof
  show "handles_inv s' \<and> h \<noteq> 0 \<and> object_get t h s = None \<and>
      (\<forall>t' h'. object_get t' h' s' = (if t' = t \<and> h' = h then Some obj else object_get t' h' s))"
    if "handles_inv s" "object_put al t obj s a = Some (Inr h, s', a')"
    for s s' :: "'o task_handles" and al :: "'a allocator" and t obj a h a'
    using object_putD [OF that] by simp
  show "\<exists>s'. object_release t h s =
        Some (case object_get t h s of None \<Rightarrow> Inl () | Some obj \<Rightarrow> Inr obj, s') \<and> handles_inv s' \<and>
      (\<forall>t' h'. object_get t' h' s' = (if t' = t \<and> h' = h then None else object_get t' h' s))"
    if "handles_inv s" for s :: "'o task_handles" and t h
    by (rule object_release_ok [OF that])
qed

lemma object_init_inv: "handles_inv object_init" "object_get t h object_init = None"
  by (simp_all add: handles_inv_def object_init_def object_get_def bt.inv_new bt.get_new)

section \<open>A put succeeds\<close>

lemma object_put_total:
  assumes inv: "handles_inv th" and al: "\<forall>a. fst (al a)" and room: "object_get t (- 1) th = None"
  shows "\<exists>h th' a'. object_put al t obj th a = Some (Inr h, th', a')"
proof -
  have step: "\<exists>h th2 a2. do { prev \<leftarrow> btree_last_key m; new_id \<leftarrow> next_handle prev;
            (case btree_insert al m new_id obj a1 of
               (Inl _, handles, a) \<Rightarrow> Some (Inl SysMemoryExhausted, btree_update th1 t (\<lambda>_. handles), a)
             | (Inr _, handles, a) \<Rightarrow> Some (Inr new_id, btree_update th1 t (\<lambda>_. handles), a)) } =
       Some (Inr h, th2, a2)"
    if m: "map_inv m" "btree_get m (- 1) = None" for m th1 a1
  proof -
    obtain prev where p: "btree_last_key m = Some prev" and pl: "case prev of None \<Rightarrow> True | Some k \<Rightarrow> btree_get m k \<noteq> None"
      using bt.last_law [OF m(1)] by (auto split: option.splits)
    then have "prev \<noteq> Some (- 1)" using m(2) by auto
    then obtain h where h: "next_handle prev = Some h"
      by (cases prev) (auto simp: next_handle_def eq_neg_iff_add_eq_0)
    obtain old m' a2 where "btree_insert al m h obj a1 = (Inr old, m', a2)"
      using bt.ins_total [OF al] by metis
    then show ?thesis using p h by simp
  qed
  show ?thesis
  proof (cases "btree_get th t")
    case (Some m)
    then show ?thesis
      using step [of m th a] handles_inv_map [OF inv Some] room
      by (simp add: object_put_def object_get_def)
  next
    case None
    obtain old th1 a1 where i: "btree_insert al th t (btree_new :: 'a handle_map) a = (Inr old, th1, a1)"
      using bt.ins_total [OF al] by metis
    have "btree_get th1 t = Some btree_new"
      using bt.ins_law [OF _ i] inv by (simp add: handles_inv_def)
    then show ?thesis
      using step [of btree_new th1 a1] None i by (simp add: object_put_def bt.inv_new bt.get_new)
  qed
qed

section \<open>Properties\<close>

text \<open>C18: \<open>object::put\<close> gives a task a handle that is not zero and not in use, binds exactly that handle
  of that task to the object and changes no other handle of any task; its only error is
  \<open>MemoryExhausted\<close>, and it succeeds when the allocator does and the largest handle is free.\<close>

theorem object_put_fresh:
  assumes "handles_inv th"
  shows "(\<forall>h th' a'. object_put al t obj th a = Some (Inr h, th', a') \<longrightarrow>
      handles_inv th' \<and> h \<noteq> 0 \<and> object_get t h th = None \<and>
      (\<forall>t' h'. object_get t' h' th' = (if t' = t \<and> h' = h then Some obj else object_get t' h' th))) \<and>
    (\<forall>e th' a'. object_put al t obj th a = Some (Inl e, th', a') \<longrightarrow> e = SysMemoryExhausted) \<and>
    ((\<forall>a. fst (al a)) \<and> object_get t (- 1) th = None \<longrightarrow>
      (\<exists>h th' a'. object_put al t obj th a = Some (Inr h, th', a')))"
  using ht.put_law [OF assms, of al t obj a] object_putD [OF assms, of al t obj a]
    object_put_total [OF assms, of al t obj a] by (auto split: sum.splits)

theorem object_put_fresh_witness:
  "\<exists>h th. object_put always 7 ''file'' object_init () = Some (Inr h, th, ()) \<and> h \<noteq> 0 \<and>
     object_get 7 h th = Some ''file'' \<and> object_get 8 h th = None"
proof -
  have o: "object_get t h (object_init :: string task_handles) = None" for t h by (rule object_init_inv(2))
  have "\<forall>a. fst (always a)" by (simp add: always_def)
  then obtain h th where p: "object_put always 7 ''file'' object_init () = Some (Inr h, th, ())"
    using object_put_fresh [OF object_init_inv(1), of always 7 "''file''" "()"] o by auto
  then have "h \<noteq> 0 \<and> (\<forall>t' h'. object_get t' h' th = (if t' = 7 \<and> h' = h then Some ''file'' else object_get t' h' object_init))"
    using object_put_fresh [OF object_init_inv(1), of always 7 "''file''" "()"] by blast
  then show ?thesis using p o by auto
qed

text \<open>A handle is a capability with a life time: releasing the handle that \<open>put\<close> returned gives the
  object back and restores the table for every task, and a second release of any handle fails.\<close>

lemma object_put_release:
  assumes "handles_inv th" "object_put al t obj th a = Some (Inr h, th', a')"
  shows "\<exists>th''. object_release t h th' = Some (Inr obj, th'') \<and> handles_inv th'' \<and>
     (\<forall>t' h'. object_get t' h' th'' = object_get t' h' th) \<and>
     (\<exists>th3. object_release t h th'' = Some (Inl (), th3))"
  using ht.put_release [OF assms] ht.release_twice ht.put_law [OF assms] by metis

lemma object_put_release_witness:
  "\<exists>h th th'. object_put always 7 ''file'' object_init () = Some (Inr h, th, ()) \<and>
     object_release 7 h th = Some (Inr ''file'', th') \<and> object_get 7 h th' = None"
proof -
  have al: "\<forall>a. fst (always a)" by (simp add: always_def)
  obtain h th where p: "object_put always 7 ''file'' object_init () = Some (Inr h, th, ())"
    using object_put_total [OF object_init_inv(1) al object_init_inv(2), where obj = "''file''" and t = 7] by auto
  from object_put_release [OF object_init_inv(1) p] p show ?thesis
    using object_init_inv(2) by metis
qed

text \<open>\<open>drop_all_for_task\<close> removes every handle of the task and no handle of another task.\<close>

lemma drop_all_removes_task:
  assumes "handles_inv th"
  shows "\<exists>th'. drop_all_for_task t th = Some th' \<and> handles_inv th' \<and>
     (\<forall>t' h'. object_get t' h' th' = (if t' = t then None else object_get t' h' th))"
  by (rule drop_all_ok [OF assms])

lemma drop_all_removes_task_witness:
  "\<exists>th'. drop_all_for_task 7 (object_init :: char task_handles) = Some th' \<and> object_get 7 1 th' = None"
  using drop_all_removes_task [OF object_init_inv(1), of 7] by auto

end
