(* ===== verification/Task.thy ===== *)
theory Task
  imports Trap Object_Table Page_Map BTree_Range
begin

text \<open>
  Tasks and the scheduler: \<open>kernel/src/task.rs\<close>.

  \<^item> The statics of the kernel are the fields of the record \<open>kernel\<close>; the three task maps and the
    handle table are B-tree maps, the memory is the state of \<open>Paging\<close>, and \<open>heap\<close> is the state of
    the kernel's allocator, which is the argument \<open>al\<close> of the operations that allocate.  An allocation may take frames and
    map pages for the heap, so \<open>al\<close> works on its own state and on the memory.
  \<^item> \<open>dyn Future\<close> is an interface: a future is a value of the type \<open>'fut\<close>, and polling it is the
    argument \<open>poll\<close>, which gets the task (through the waker of its context) and the kernel state
    and returns whether the future is ready, the new future and the new kernel state.
  \<^item> A panic is \<open>None\<close>.  The loop of \<open>switch\<close> may also run forever; then it is \<open>None\<close> as well, so
    a theorem that says that \<open>switch\<close> returns states \<open>Some\<close>.
\<close>

section \<open>Data\<close>

datatype task_state = SyscallEntry trap_frame | Wake | Sleep | StUser trap_frame

record ('file, 'fs) task =
  task_ident :: task_id
  task_page_ctx :: "(u64, 'file) object_kind"
  task_filesystem :: "'fs option"

record ('file, 'fs, 'fut, 'a) kernel =
  mem :: kmem
  TASKS :: "(task_id, ('file, 'fs) task) btree_map"
  TASK_STATES :: "(task_id, task_state) btree_map"
  TASK_FUTURES :: "(task_id, 'fut) btree_map"
  CURRENT_TASK :: "task_id option"
  NEXT_TASK_ID :: u64
  TASK_HANDLES :: "(u64, 'file) object_kind task_handles"
  heap :: 'a

datatype poll = Ready | Pending

type_synonym ('file, 'fs, 'fut, 'a) poller =
  "'fut \<Rightarrow> task_id \<Rightarrow> ('file, 'fs, 'fut, 'a) kernel \<Rightarrow> (poll \<times> 'fut \<times> ('file, 'fs, 'fut, 'a) kernel) option"

definition task_init :: "('file, 'fs, 'fut, 'a) kernel \<Rightarrow> ('file, 'fs, 'fut, 'a) kernel" where
  "task_init k = k\<lparr>TASKS := btree_new, TASK_STATES := btree_new, TASK_FUTURES := btree_new\<rparr>"

section \<open>Creating a task\<close>

definition alloc_task_id :: "('file, 'fs, 'fut, 'a) kernel \<Rightarrow> task_id \<times> ('file, 'fs, 'fut, 'a) kernel" where
  "alloc_task_id k = (NEXT_TASK_ID k, k\<lparr>NEXT_TASK_ID := NEXT_TASK_ID k + 1\<rparr>)"

definition set_heap :: "'a \<times> kmem \<Rightarrow> ('file, 'fs, 'fut, 'a) kernel \<Rightarrow> ('file, 'fs, 'fut, 'a) kernel" where
  "set_heap am k = k\<lparr>heap := fst am, mem := snd am\<rparr>"

text \<open>\<open>Box::new\<close> and \<open>Arc::new\<close> of the kernel heap: whether they succeed, and what they do to the heap.\<close>

definition heap_new :: "('a \<times> kmem) allocator \<Rightarrow> ('file, 'fs, 'fut, 'a) kernel \<Rightarrow> bool \<times> ('file, 'fs, 'fut, 'a) kernel" where
  "heap_new al k = (case al (heap k, mem k) of (ok, a) \<Rightarrow> (ok, set_heap a k))"

text \<open>The closure that inserts the task into the three maps, with its early returns.\<close>

definition spawn_insert :: "('a \<times> kmem) allocator \<Rightarrow> task_id \<Rightarrow> task_state \<Rightarrow> 'fut \<Rightarrow> ('file, 'fs) task
    \<Rightarrow> ('file, 'fs, 'fut, 'a) kernel \<Rightarrow> (memory_exhausted + unit) \<times> ('file, 'fs, 'fut, 'a) kernel" where
  "spawn_insert al ident st fut tsk k =
     (case btree_insert al (TASK_STATES k) ident st (heap k, mem k) of
        (Inl _, m, a) \<Rightarrow> (Inl MemoryExhausted, set_heap a (k\<lparr>TASK_STATES := m\<rparr>))
      | (Inr _, m, a) \<Rightarrow>
          (case heap_new al (set_heap a (k\<lparr>TASK_STATES := m\<rparr>)) of
             (False, k) \<Rightarrow> (Inl MemoryExhausted, k)
           | (True, k) \<Rightarrow>
               (case btree_insert al (TASK_FUTURES k) ident fut (heap k, mem k) of
                  (Inl _, m, a) \<Rightarrow> (Inl MemoryExhausted, set_heap a (k\<lparr>TASK_FUTURES := m\<rparr>))
                | (Inr _, m, a) \<Rightarrow>
                    let k = set_heap a (k\<lparr>TASK_FUTURES := m\<rparr>) in
                    (case btree_insert al (TASKS k) ident tsk (heap k, mem k) of
                       (Inl _, m, a) \<Rightarrow> (Inl MemoryExhausted, set_heap a (k\<lparr>TASKS := m\<rparr>))
                     | (Inr _, m, a) \<Rightarrow> (Inr (), set_heap a (k\<lparr>TASKS := m\<rparr>))))))"

definition spawn :: "('a \<times> kmem) allocator \<Rightarrow> (u64, 'file) object_kind \<Rightarrow> 'fs option \<Rightarrow> (task_id \<Rightarrow> 'fut)
    \<Rightarrow> ('file, 'fs, 'fut, 'a) kernel
    \<Rightarrow> ((memory_exhausted + task_id) \<times> ('file, 'fs, 'fut, 'a) kernel) option" where
  "spawn al ctx fs f k =
     (case alloc_task_id k of (ident, k) \<Rightarrow>
      case heap_new al k of
        (False, k) \<Rightarrow> Some (Inl MemoryExhausted, k)
      | (True, k) \<Rightarrow>
          let fut = f ident;
              tsk = \<lparr>task_ident = ident, task_page_ctx = ctx, task_filesystem = fs\<rparr> in
          (case spawn_insert al ident Wake fut tsk k of
             (Inr _, k) \<Rightarrow> Some (Inr ident, k)
           | (Inl _, k) \<Rightarrow> do {
               (_, ts) \<leftarrow> btree_remove (TASKS k) ident;
               (_, fs) \<leftarrow> btree_remove (TASK_FUTURES k) ident;
               (_, ss) \<leftarrow> btree_remove (TASK_STATES k) ident;
               Some (Inl MemoryExhausted, k\<lparr>TASKS := ts, TASK_FUTURES := fs, TASK_STATES := ss\<rparr>) }))"

section \<open>The current task\<close>

definition current :: "('file, 'fs, 'fut, 'a) kernel \<Rightarrow> task_id option" where
  "current k = CURRENT_TASK k"

definition get_page_ctx :: "('file, 'fs, 'fut, 'a) kernel \<Rightarrow> (u64, 'file) object_kind option" where
  "get_page_ctx k = do { t \<leftarrow> current k; tsk \<leftarrow> btree_get (TASKS k) t; Some (task_page_ctx tsk) }"

definition get_filesystem :: "('file, 'fs, 'fut, 'a) kernel \<Rightarrow> 'fs option option" where
  "get_filesystem k = do { t \<leftarrow> current k; tsk \<leftarrow> btree_get (TASKS k) t; Some (task_filesystem tsk) }"

definition set_filesystem :: "'fs option \<Rightarrow> ('file, 'fs, 'fut, 'a) kernel \<Rightarrow> ('file, 'fs, 'fut, 'a) kernel option" where
  "set_filesystem fs k = do {
     t \<leftarrow> current k;
     tsk \<leftarrow> btree_get (TASKS k) t;
     Some (k\<lparr>TASKS := btree_update (TASKS k) t (\<lambda>tsk. tsk\<lparr>task_filesystem := fs\<rparr>)\<rparr>) }"

section \<open>Switching tasks\<close>

definition set_state :: "task_id \<Rightarrow> task_state \<Rightarrow> ('file, 'fs, 'fut, 'a) kernel \<Rightarrow> ('file, 'fs, 'fut, 'a) kernel" where
  "set_state t st k = k\<lparr>TASK_STATES := btree_update (TASK_STATES k) t (\<lambda>_. st)\<rparr>"

definition save_current_task :: "trap_frame \<Rightarrow> ('file, 'fs, 'fut, 'a) kernel
    \<Rightarrow> (task_id option \<times> ('file, 'fs, 'fut, 'a) kernel) option" where
  "save_current_task f k =
     (case CURRENT_TASK k of
        None \<Rightarrow> Some (None, k)
      | Some c \<Rightarrow> do {
          st \<leftarrow> btree_get (TASK_STATES k) c;
          (case st of
             StUser _ \<Rightarrow> Some (Some c, set_state c (StUser f) k)
           | _ \<Rightarrow> Some (Some c, k)) })"

datatype 'fut work_item = KernelWork 'fut | UserWork trap_frame

text \<open>The two ranges chained, with the filter on the first.\<close>

definition next_tasks :: "task_id \<Rightarrow> (task_id, 't) btree_map \<Rightarrow> (task_id \<times> 't) list option" where
  "next_tasks prev tasks = do {
     r1 \<leftarrow> btree_range tasks (Included prev) Unbounded;
     r2 \<leftarrow> btree_range tasks Unbounded (Included prev);
     xs \<leftarrow> range_drain (Suc (map_length tasks)) r1;
     ys \<leftarrow> range_drain (Suc (map_length tasks)) r2;
     Some (filter (\<lambda>(ident, _). ident \<noteq> prev) xs @ ys) }"

fun pick_work :: "('file, 'fs, 'fut, 'a) kernel \<Rightarrow> (task_id \<times> 't) list \<Rightarrow> (task_id \<times> 'fut work_item) option" where
  "pick_work k [] = None"
| "pick_work k ((ident, _) # rest) = do {
     st \<leftarrow> btree_get (TASK_STATES k) ident;
     (case st of
        Sleep \<Rightarrow> pick_work k rest
      | SyscallEntry _ \<Rightarrow> map_option (\<lambda>fut. (ident, KernelWork fut)) (btree_get (TASK_FUTURES k) ident)
      | Wake \<Rightarrow> map_option (\<lambda>fut. (ident, KernelWork fut)) (btree_get (TASK_FUTURES k) ident)
      | StUser f \<Rightarrow> Some (ident, UserWork f)) }"

definition find_next_work_item :: "task_id option \<Rightarrow> ('file, 'fs, 'fut, 'a) kernel
    \<Rightarrow> (task_id \<times> 'fut work_item) option" where
  "find_next_work_item previous k = do {
     xs \<leftarrow> next_tasks (case previous of None \<Rightarrow> 0 | Some t \<Rightarrow> t) (TASKS k);
     pick_work k xs }"

text \<open>The part of the loop body before the work item is run: the task becomes current and its
  page context is loaded (\<open>page::set_ctx\<close> of a clone).\<close>

definition enter_task :: "task_id \<Rightarrow> ('file, 'fs, 'fut, 'a) kernel \<Rightarrow> ('file, 'fs, 'fut, 'a) kernel option" where
  "enter_task t k = do {
     tsk \<leftarrow> btree_get (TASKS k) t;
     pml4 \<leftarrow> object as_ref_page_ctx (task_page_ctx tsk);
     (pml4, s) \<leftarrow> phys_clone pml4 (mem k);
     s \<leftarrow> set_ctx pml4 s;
     Some (k\<lparr>CURRENT_TASK := Some t, mem := s\<rparr>) }"

partial_function (option) switch_loop :: "('file, 'fs, 'fut, 'a) poller \<Rightarrow> task_id option
    \<Rightarrow> ('file, 'fs, 'fut, 'a) kernel \<Rightarrow> (trap_frame \<times> ('file, 'fs, 'fut, 'a) kernel) option" where
  "switch_loop poll previous k = do {
     (t, work) \<leftarrow> find_next_work_item previous k;
     k \<leftarrow> enter_task t k;
     (case work of
        UserWork f \<Rightarrow> Some (f, k)
      | KernelWork fut \<Rightarrow> do {
          (r, fut, k) \<leftarrow> poll fut t k;
          (case r of
             Ready \<Rightarrow> None
           | Pending \<Rightarrow>
               switch_loop poll (Some t)
                 (k\<lparr>TASK_FUTURES := btree_update (TASK_FUTURES k) t (\<lambda>_. fut)\<rparr>)) }) }"

definition switch :: "('file, 'fs, 'fut, 'a) poller \<Rightarrow> trap_frame \<Rightarrow> ('file, 'fs, 'fut, 'a) kernel
    \<Rightarrow> (trap_frame \<times> ('file, 'fs, 'fut, 'a) kernel) option" where
  "switch poll f k = do { (previous, k) \<leftarrow> save_current_task f k; switch_loop poll previous k }"

text \<open>\<open>task::start\<close> up to the jump into user mode.\<close>

definition start :: "u64 \<Rightarrow> ('file, 'fs, 'fut, 'a) poller \<Rightarrow> ('file, 'fs, 'fut, 'a) kernel
    \<Rightarrow> (trap_frame \<times> ('file, 'fs, 'fut, 'a) kernel) option" where
  "start if_bits poll k = switch poll (trap_frame_new if_bits 0 0) k"

definition dispatch_syscall :: "('file, 'fs, 'fut, 'a) poller \<Rightarrow> trap_frame \<Rightarrow> ('file, 'fs, 'fut, 'a) kernel
    \<Rightarrow> (trap_frame \<times> ('file, 'fs, 'fut, 'a) kernel) option" where
  "dispatch_syscall poll f k = do {
     c \<leftarrow> CURRENT_TASK k;
     st \<leftarrow> btree_get (TASK_STATES k) c;
     (case st of
        StUser _ \<Rightarrow> switch poll f (set_state c (SyscallEntry f) k)
      | _ \<Rightarrow> None) }"

section \<open>Wakers and the future of a running task\<close>

definition task_waker_wake :: "task_id \<Rightarrow> ('file, 'fs, 'fut, 'a) kernel \<Rightarrow> ('file, 'fs, 'fut, 'a) kernel" where
  "task_waker_wake t k = set_state t Wake k"

record task_run =
  run_task :: task_id
  run_frame :: trap_frame

definition task_setup :: "task_id \<Rightarrow> trap_frame \<Rightarrow> task_run" where
  "task_setup ident f = \<lparr>run_task = ident, run_frame = f\<rparr>"

definition task_run_run :: "task_run \<Rightarrow> ('file, 'fs, 'fut, 'a) kernel \<Rightarrow> ('file, 'fs, 'fut, 'a) kernel option" where
  "task_run_run r k = do {
     _ \<leftarrow> btree_get (TASK_STATES k) (run_task r);
     Some (set_state (run_task r) (StUser (run_frame r)) k) }"

text \<open>\<open>TaskResume::poll\<close>: the only trap is a system call.\<close>

definition task_resume_poll :: "task_run \<Rightarrow> ('file, 'fs, 'fut, 'a) kernel \<Rightarrow> (poll \<times> task_run) option" where
  "task_resume_poll r k = do {
     st \<leftarrow> btree_get (TASK_STATES k) (run_task r);
     (case st of
        SyscallEntry f \<Rightarrow> Some (Ready, r\<lparr>run_frame := f\<rparr>)
      | Wake \<Rightarrow> Some (Pending, r)
      | StUser _ \<Rightarrow> Some (Pending, r)
      | Sleep \<Rightarrow> None) }"

end
