(* ===== verification/Task_Contract.thy ===== *)
theory Task_Contract
  imports Task Sample_Memory
begin

text \<open>
  The scheduler is round robin: the invariant that ties the three task maps together, the order in
  which tasks are picked, what a switch preserves, and what a spurious wake-up destroys.
\<close>

section \<open>The invariant\<close>

definition task_ok :: "('file, 'fs) task \<Rightarrow> bool" where
  "task_ok tsk \<longleftrightarrow> (\<exists>pml4. task_page_ctx tsk = ObjPageCtx pml4)"

definition sched_inv :: "('file, 'fs, 'fut, 'a) kernel \<Rightarrow> bool" where
  "sched_inv k \<longleftrightarrow> map_inv (TASKS k) \<and> map_inv (TASK_STATES k) \<and> map_inv (TASK_FUTURES k) \<and>
     dom (btree_get (TASK_STATES k)) = dom (btree_get (TASKS k)) \<and>
     dom (btree_get (TASK_FUTURES k)) = dom (btree_get (TASKS k)) \<and>
     (\<forall>t tsk. btree_get (TASKS k) t = Some tsk \<longrightarrow> task_ok tsk) \<and>
     (\<forall>t. CURRENT_TASK k = Some t \<longrightarrow> t \<in> dom (btree_get (TASKS k)))"

lemma set_state_get:
  assumes "map_inv (TASK_STATES k)" "btree_get (TASK_STATES k) t \<noteq> None"
  shows "btree_get (TASK_STATES (set_state t st k)) = (btree_get (TASK_STATES k))(t \<mapsto> st)"
    "map_inv (TASK_STATES (set_state t st k))"
  using bt.update_law [OF assms(1), of t "\<lambda>_. st"] assms(2) by (auto simp: set_state_def)

lemma set_state_fields [simp]:
  "TASKS (set_state t st k) = TASKS k" "TASK_FUTURES (set_state t st k) = TASK_FUTURES k"
  "CURRENT_TASK (set_state t st k) = CURRENT_TASK k" "mem (set_state t st k) = mem k"
  by (simp_all add: set_state_def)

lemma set_state_inv:
  assumes "sched_inv k"
  shows "sched_inv (set_state t st k)"
proof -
  have m: "map_inv (TASK_STATES k)" using assms by (simp add: sched_inv_def)
  have "map_inv (TASK_STATES (set_state t st k)) \<and>
      dom (btree_get (TASK_STATES (set_state t st k))) = dom (btree_get (TASK_STATES k))"
    using bt.update_law [OF m, of t "\<lambda>_. st"] by (auto simp: set_state_def split: option.splits)
  then show ?thesis using assms by (simp add: sched_inv_def)
qed

lemma sched_inv_state:
  assumes "sched_inv k" "t \<in> dom (btree_get (TASKS k))"
  shows "\<exists>st. btree_get (TASK_STATES k) t = Some st" "\<exists>fut. btree_get (TASK_FUTURES k) t = Some fut"
  using assms by (auto simp: sched_inv_def dom_def)

section \<open>Round robin\<close>

text \<open>The cyclic order after \<open>prev\<close>.\<close>

definition cyc :: "'k :: linorder \<Rightarrow> 'k list \<Rightarrow> 'k list" where
  "cyc prev xs = filter (\<lambda>x. prev < x) xs @ filter (\<lambda>x. x \<le> prev) xs"

lemma sorted_split:
  "sorted_wrt (<) xs \<Longrightarrow> xs = filter (\<lambda>x. x \<le> p) xs @ filter (\<lambda>x. p < x) xs" for p :: "'k :: linorder"
proof (induction xs)
  case (Cons x xs)
  show ?case
  proof (cases "x \<le> p")
    case True
    then show ?thesis using Cons by auto
  next
    case False
    then have "filter (\<lambda>x. x \<le> p) xs = []" "filter (\<lambda>x. p < x) xs = xs"
      using Cons.prems by (auto simp: filter_empty_conv filter_id_conv not_le)
    then show ?thesis using False by simp
  qed
qed simp

lemma cyc_rotate:
  assumes s: "sorted_wrt (<) xs" and c: "cyc prev xs = x # ys"
  shows "cyc x xs = ys @ [x]"
proof (cases "filter (\<lambda>x. prev < x) xs")
  case Nil
  then have all: "xs = x # ys" using c sorted_split [OF s, of prev] by (simp add: cyc_def)
  then have "filter (\<lambda>y. x < y) xs = ys" "filter (\<lambda>y. y \<le> x) xs = [x]"
    using s by (auto simp: filter_id_conv filter_empty_conv not_le)
  then show ?thesis by (simp add: cyc_def)
next
  case (Cons z zs)
  define lo where "lo = filter (\<lambda>x. x \<le> prev) xs"
  have z: "z = x" "ys = zs @ lo" using c Cons by (simp_all add: cyc_def lo_def)
  have xs: "xs = lo @ x # zs" using sorted_split [OF s, of prev] Cons z(1) by (simp add: lo_def)
  then have so: "sorted_wrt (<) (lo @ x # zs)" using s by simp
  have below: "\<forall>y \<in> set lo. y < x" and hi: "\<forall>y \<in> set zs. x < y"
    using so by (simp_all add: sorted_wrt_append)
  have "filter (\<lambda>y. x < y) (lo @ x # zs) = zs"
    using below hi by (auto simp: filter_id_conv filter_empty_conv)
  moreover have "filter (\<lambda>y. y \<le> x) lo = lo" "filter (\<lambda>y. y \<le> x) zs = []"
    using below hi by (auto simp: filter_id_conv filter_empty_conv not_le)
  then have "filter (\<lambda>y. y \<le> x) (lo @ x # zs) = lo @ [x]" by simp
  ultimately show ?thesis
    using xs z(2) by (simp add: cyc_def)
qed

lemma filter_cyc: "filter P (cyc p xs) = cyc p (filter P xs)"
  by (simp add: cyc_def conj_commute)

lemma next_tasks_ok:
  assumes "map_inv m"
  shows "\<exists>xs. next_tasks prev m = Some xs \<and> map fst xs = cyc prev (map fst (entries m))"
proof -
  obtain r1 where r1: "btree_range m (Included prev) Unbounded = Some r1"
    "range_drain (Suc (map_length m)) r1 = Some (filter (\<lambda>x. in_range (Included prev) Unbounded (fst x)) (entries m))"
    using btree_range_drain [OF assms, of "Included prev" Unbounded] by auto
  obtain r2 where r2: "btree_range m Unbounded (Included prev) = Some r2"
    "range_drain (Suc (map_length m)) r2 = Some (filter (\<lambda>x. in_range Unbounded (Included prev) (fst x)) (entries m))"
    using btree_range_drain [OF assms, of Unbounded "Included prev"] by auto
  let ?xs = "filter (\<lambda>(ident, _). ident \<noteq> prev) (filter (\<lambda>x. prev \<le> fst x) (entries m)) @
    filter (\<lambda>x. fst x \<le> prev) (entries m)"
  have "next_tasks prev m = Some ?xs"
    using r1 r2 by (simp add: next_tasks_def in_range_def not_less)
  moreover have "map fst ?xs = cyc prev (map fst (entries m))"
    by (auto simp: cyc_def filter_map comp_def case_prod_beta intro!: arg_cong [where f = "map fst"] filter_cong)
  ultimately show ?thesis by blast
qed

definition awake :: "('file, 'fs, 'fut, 'a) kernel \<Rightarrow> task_id \<Rightarrow> bool" where
  "awake k t \<longleftrightarrow> btree_get (TASK_STATES k) t \<noteq> Some Sleep"

text \<open>The work of a task that is not asleep.\<close>

definition work_of :: "('file, 'fs, 'fut, 'a) kernel \<Rightarrow> task_id \<Rightarrow> 'fut work_item" where
  "work_of k t =
     (case btree_get (TASK_STATES k) t of
        Some (StUser f) \<Rightarrow> UserWork f
      | _ \<Rightarrow> KernelWork (the (btree_get (TASK_FUTURES k) t)))"

lemma pick_work_ok:
  assumes "sched_inv k" "\<forall>x \<in> set xs. fst x \<in> dom (btree_get (TASKS k))"
  shows "pick_work k xs = (case filter (awake k) (map fst xs) of [] \<Rightarrow> None | t # _ \<Rightarrow> Some (t, work_of k t))"
  using assms(2)
proof (induction xs)
  case (Cons x xs)
  obtain t v where x: "x = (t, v)" by (cases x)
  have "t \<in> dom (btree_get (TASKS k))" using Cons.prems x by simp
  then obtain st fut where "btree_get (TASK_STATES k) t = Some st" "btree_get (TASK_FUTURES k) t = Some fut"
    using sched_inv_state [OF assms(1)] by blast
  then show ?case using Cons x by (cases st) (simp_all add: awake_def work_of_def)
qed simp

definition task_ids :: "('file, 'fs, 'fut, 'a) kernel \<Rightarrow> task_id list" where
  "task_ids k = map fst (entries (TASKS k))"

lemma task_ids_sorted: "sched_inv k \<Longrightarrow> sorted_wrt (<) (task_ids k)"
  by (simp add: sched_inv_def map_inv_def sorted_keys_def task_ids_def)

lemma set_task_ids:
  assumes "map_inv (TASKS k)"
  shows "set (task_ids k) = dom (btree_get (TASKS k))"
proof -
  have "btree_get (TASKS k) = map_of (entries (TASKS k))"
    using btree_get_entries [OF assms] by (intro ext) simp
  then show ?thesis by (simp add: task_ids_def dom_map_of_conv_image_fst)
qed

lemma find_next_ok:
  assumes inv: "sched_inv k"
  shows "find_next_work_item prev k =
     (case filter (awake k) (cyc (case prev of None \<Rightarrow> 0 | Some t \<Rightarrow> t) (task_ids k)) of
        [] \<Rightarrow> None
      | t # _ \<Rightarrow> Some (t, work_of k t))"
proof -
  let ?p = "case prev of None \<Rightarrow> 0 | Some t \<Rightarrow> t"
  have m: "map_inv (TASKS k)" using inv by (simp add: sched_inv_def)
  obtain xs where xs: "next_tasks ?p (TASKS k) = Some xs" "map fst xs = cyc ?p (task_ids k)"
    using next_tasks_ok [OF m] unfolding task_ids_def by blast
  have "fst ` set xs \<subseteq> set (task_ids k)" using xs(2) by (metis cyc_def filter_is_subset le_sup_iff list.set_map set_append)
  then have "\<forall>x \<in> set xs. fst x \<in> dom (btree_get (TASKS k))" using set_task_ids [OF m] by auto
  from pick_work_ok [OF inv this] xs show ?thesis by (simp add: find_next_work_item_def)
qed

text \<open>The sequence of tasks picked when the states do not change.\<close>

fun picks :: "('file, 'fs, 'fut, 'a) kernel \<Rightarrow> nat \<Rightarrow> task_id option \<Rightarrow> task_id list option" where
  "picks k 0 prev = Some []"
| "picks k (Suc n) prev = do {
     (t, _) \<leftarrow> find_next_work_item prev k;
     ts \<leftarrow> picks k n (Some t);
     Some (t # ts) }"

lemma picks_cyc:
  assumes inv: "sched_inv k"
  shows "n \<le> length ts \<Longrightarrow> ts = cyc (case prev of None \<Rightarrow> 0 | Some t \<Rightarrow> t) (filter (awake k) (task_ids k)) \<Longrightarrow>
    picks k n prev = Some (take n ts)"
proof (induction n arbitrary: prev ts)
  case (Suc n)
  let ?R = "filter (awake k) (task_ids k)"
  obtain t us where ts: "ts = t # us" using Suc.prems(1) by (cases ts) auto
  have f: "find_next_work_item prev k = Some (t, work_of k t)"
    unfolding find_next_ok [OF inv, of prev] filter_cyc Suc.prems(2) [symmetric] ts by simp
  have "sorted_wrt (<) ?R" using task_ids_sorted [OF inv] by (rule sorted_wrt_filter)
  then have cy: "cyc t ?R = us @ [t]" using cyc_rotate Suc.prems(2) ts by metis
  have "picks k n (Some t) = Some (take n (us @ [t]))"
  proof (rule Suc.IH)
    show "n \<le> length (us @ [t])" using Suc.prems(1) ts by simp
    show "us @ [t] = cyc (case Some t of None \<Rightarrow> 0 | Some t \<Rightarrow> t) ?R" using cy by simp
  qed
  moreover have "take n (us @ [t]) = take n us" using Suc.prems(1) ts by simp
  ultimately show ?case using f ts by simp
qed simp

section \<open>Keeping the invariant\<close>

lemma task_maps_insert:
  assumes "map_inv m" "btree_insert al m ident v a = (Inr old, m', a')"
  shows "map_inv m'" "btree_get m' = (btree_get m)(ident \<mapsto> v)"
  using bt.ins_law [OF assms] by auto

text \<open>The ids in use are below the next one, so that a new task gets an id of its own.\<close>

definition ids_inv :: "('file, 'fs, 'fut, 'a) kernel \<Rightarrow> bool" where
  "ids_inv k \<longleftrightarrow> sched_inv k \<and> (\<forall>t \<in> dom (btree_get (TASKS k)). t < NEXT_TASK_ID k)"

lemma ids_inv_init:
  assumes "CURRENT_TASK k = None"
  shows "ids_inv (task_init k)"
  using assms by (simp add: ids_inv_def sched_inv_def task_init_def bt.inv_new dom_def bt.get_new)

lemma set_heap_fields [simp]:
  "TASKS (set_heap a k) = TASKS k" "TASK_STATES (set_heap a k) = TASK_STATES k" "TASK_FUTURES (set_heap a k) = TASK_FUTURES k"
  "CURRENT_TASK (set_heap a k) = CURRENT_TASK k" "NEXT_TASK_ID (set_heap a k) = NEXT_TASK_ID k"
  "TASK_HANDLES (set_heap a k) = TASK_HANDLES k" "(heap (set_heap a k), mem (set_heap a k)) = a"
  by (simp_all add: set_heap_def)

lemma spawn_ok:
  assumes inv: "sched_inv k" and s: "spawn al (ObjPageCtx pml4) fs f k = Some (Inr ident, k')"
  shows "ident = NEXT_TASK_ID k" "NEXT_TASK_ID k' = NEXT_TASK_ID k + 1" "sched_inv k'"
    "btree_get (TASKS k') = (btree_get (TASKS k))
       (ident \<mapsto> \<lparr>task_ident = ident, task_page_ctx = ObjPageCtx pml4, task_filesystem = fs\<rparr>)"
    "btree_get (TASK_STATES k') = (btree_get (TASK_STATES k))(ident \<mapsto> Wake)"
    "btree_get (TASK_FUTURES k') = (btree_get (TASK_FUTURES k))(ident \<mapsto> f ident)"
    "CURRENT_TASK k' = CURRENT_TASK k" "TASK_HANDLES k' = TASK_HANDLES k"
proof -
  let ?tsk = "\<lparr>task_ident = NEXT_TASK_ID k, task_page_ctx = ObjPageCtx pml4, task_filesystem = fs\<rparr>"
  obtain ok a0 where al0: "al (heap k, mem k) = (ok, a0)" by (metis prod.collapse)
  obtain x1 m1 a1 where i1: "btree_insert al (TASK_STATES k) (NEXT_TASK_ID k) Wake a0 = (x1, m1, a1)"
    by (metis prod.collapse)
  obtain ok2 a2 where al2: "al a1 = (ok2, a2)" by (metis prod.collapse)
  obtain x3 m3 a3 where i3: "btree_insert al (TASK_FUTURES k) (NEXT_TASK_ID k) (f (NEXT_TASK_ID k)) a2 = (x3, m3, a3)"
    by (metis prod.collapse)
  obtain x4 m4 a4 where i4: "btree_insert al (TASKS k) (NEXT_TASK_ID k) ?tsk a3 = (x4, m4, a4)"
    by (metis prod.collapse)
  note e = spawn_def alloc_task_id_def heap_new_def spawn_insert_def al0 i1 al2 i3 i4 Let_def
  have g: "ok" "ok2" "\<exists>y. x1 = Inr y" "\<exists>y. x3 = Inr y" "\<exists>y. x4 = Inr y"
    using s by (auto simp: e option_monad split: bool.splits sum.splits)
  then obtain y1 y3 y4 where y: "x1 = Inr y1" "x3 = Inr y3" "x4 = Inr y4" by blast
  have k': "ident = NEXT_TASK_ID k" "NEXT_TASK_ID k' = NEXT_TASK_ID k + 1" "TASK_STATES k' = m1" "TASK_FUTURES k' = m3" "TASKS k' = m4"
    "CURRENT_TASK k' = CURRENT_TASK k" "TASK_HANDLES k' = TASK_HANDLES k"
    using s g(1,2) y by (auto simp: e)
  have m: "map_inv (TASKS k)" "map_inv (TASK_STATES k)" "map_inv (TASK_FUTURES k)" using inv by (simp_all add: sched_inv_def)
  have j1: "map_inv m1" "btree_get m1 = (btree_get (TASK_STATES k))(ident \<mapsto> Wake)"
    using task_maps_insert [OF m(2) i1 [unfolded y(1)]] k'(1) by simp_all
  have j3: "map_inv m3" "btree_get m3 = (btree_get (TASK_FUTURES k))(ident \<mapsto> f ident)"
    using task_maps_insert [OF m(3) i3 [unfolded y(2)]] k'(1) by simp_all
  have j4: "map_inv m4" "btree_get m4 = (btree_get (TASKS k))(ident \<mapsto> ?tsk)"
    using task_maps_insert [OF m(1) i4 [unfolded y(3)]] k'(1) by simp_all
  show "ident = NEXT_TASK_ID k" "NEXT_TASK_ID k' = NEXT_TASK_ID k + 1" by (fact k')+
  show "sched_inv k'"
    using inv j1 j3 j4 k' by (auto simp: sched_inv_def task_ok_def)
  show "btree_get (TASKS k') = (btree_get (TASKS k))
       (ident \<mapsto> \<lparr>task_ident = ident, task_page_ctx = ObjPageCtx pml4, task_filesystem = fs\<rparr>)"
    "btree_get (TASK_STATES k') = (btree_get (TASK_STATES k))(ident \<mapsto> Wake)"
    "btree_get (TASK_FUTURES k') = (btree_get (TASK_FUTURES k))(ident \<mapsto> f ident)"
    "CURRENT_TASK k' = CURRENT_TASK k" "TASK_HANDLES k' = TASK_HANDLES k"
    using j1 j3 j4 k' by simp_all
qed

lemma spawn_total:
  assumes "\<forall>a. fst (al a)"
  shows "\<exists>k'. spawn al ctx fs f k = Some (Inr (NEXT_TASK_ID k), k')"
proof -
  have T: "\<exists>b. al a = (True, b)" for a using assms by (metis prod.collapse)
  let ?tsk = "\<lparr>task_ident = NEXT_TASK_ID k, task_page_ctx = ctx, task_filesystem = fs\<rparr>"
  obtain a0 where al0: "al (heap k, mem k) = (True, a0)" using T by blast
  obtain o1 m1 a1 where i1: "btree_insert al (TASK_STATES k) (NEXT_TASK_ID k) Wake a0 = (Inr o1, m1, a1)"
    using bt.ins_total [OF assms] by metis
  obtain a2 where al2: "al a1 = (True, a2)" using T by blast
  obtain o3 m3 a3 where i3: "btree_insert al (TASK_FUTURES k) (NEXT_TASK_ID k) (f (NEXT_TASK_ID k)) a2 = (Inr o3, m3, a3)"
    using bt.ins_total [OF assms] by metis
  obtain o4 m4 a4 where i4: "btree_insert al (TASKS k) (NEXT_TASK_ID k) ?tsk a3 = (Inr o4, m4, a4)"
    using bt.ins_total [OF assms] by metis
  show ?thesis
    by (simp add: spawn_def alloc_task_id_def heap_new_def spawn_insert_def al0 i1 al2 i3 i4 Let_def)
qed

section \<open>A sample kernel\<close>

text \<open>Two tasks in user mode, the first one current.\<close>

definition leaf_map :: "(u64 \<times> 'v) list \<Rightarrow> (u64, 'v) btree_map" where
  "leaf_map xs = \<lparr>root = Node xs [], height = 0, shared_root = False, map_length = length xs\<rparr>"

definition user_frame :: "u64 \<Rightarrow> trap_frame" where
  "user_frame ip = trap_frame_new 0x200 ip 0"

definition sample_task :: "task_id \<Rightarrow> (char, nat) task" where
  "sample_task t = \<lparr>task_ident = t, task_page_ctx = ObjPageCtx 0x1000, task_filesystem = None\<rparr>"

definition sample_kernel :: "(char, nat, nat, unit) kernel" where
  "sample_kernel = \<lparr>mem = sample, TASKS = leaf_map [(1, sample_task 1), (2, sample_task 2)],
     TASK_STATES = leaf_map [(1, StUser (user_frame 0x1000)), (2, StUser (user_frame 0x2000))],
     TASK_FUTURES = leaf_map [(1, 0), (2, 0)], CURRENT_TASK = Some 1, NEXT_TASK_ID = 3,
     TASK_HANDLES = object_init, heap = ()\<rparr>"

lemma leaf_map_get:
  assumes "sorted_keys xs" "length xs \<le> 11"
  shows "map_inv (leaf_map xs)" "btree_get (leaf_map xs) = map_of xs" "entries (leaf_map xs) = xs"
proof -
  show e: "entries (leaf_map xs) = xs" by (simp add: entries_def leaf_map_def)
  show i: "map_inv (leaf_map xs)"
    using assms e by (simp add: map_inv_def root_ok_def) (simp add: leaf_map_def)
  show "btree_get (leaf_map xs) = map_of xs"
    using btree_get_entries [OF i] e by (intro ext) simp
qed

lemma sorted_pair: "a < b \<Longrightarrow> sorted_keys [(a, x), (b, y)]"
  by (simp add: sorted_keys_def)

lemma pair_map:
  "map_inv (leaf_map [(1, x), (2, y)])" "btree_get (leaf_map [(1, x), (2, y)]) = [1 \<mapsto> x, 2 \<mapsto> y]"
  "entries (leaf_map [(1, x), (2, y)]) = [(1, x), (2, y)]"
  using leaf_map_get [OF sorted_pair, of 1 2 x y] by (auto simp: fun_eq_iff)

lemma sample_kernel_inv: "sched_inv sample_kernel"
  by (auto simp: sched_inv_def sample_kernel_def pair_map task_ok_def sample_task_def split: if_splits)

lemma sample_untracked: "ref_count sample 0x1000 = Some None"
  by (simp add: ref_count_def)

lemma enter_sample:
  assumes "t = 1 \<or> t = 2" "mem k = sample" "TASKS k = TASKS sample_kernel"
  shows "enter_task t k = Some (k\<lparr>CURRENT_TASK := Some t\<rparr>)"
proof -
  have s: "sample\<lparr>cr3 := 0x1000\<rparr> = sample" by (simp add: sample_def)
  have "phys_drop 0x1000 sample = Some sample" by (rule phys_drop_untracked) (simp add: sample_untracked)
  moreover have kk: "k\<lparr>CURRENT_TASK := x, mem := sample\<rparr> = k\<lparr>CURRENT_TASK := x\<rparr>" for x
    using assms(2) by (cases k) simp
  ultimately show ?thesis
    using assms(1,3)
    by (auto simp: enter_task_def sample_kernel_def pair_map sample_task_def object_def as_ref_page_ctx_def
        phys_clone_def phys_new_def inc_ref_def sample_untracked set_ctx_def s kk assms(2))
qed

section \<open>Properties\<close>

text \<open>C19: The scheduler is round robin and starves nobody.  After task \<open>prev\<close> it picks the next task in
  the cyclic order of the ids that is not asleep, and panics exactly when every task is asleep;
  and with unchanged states, \<open>n\<close> picks in a row visit each of the \<open>n\<close> tasks that are awake
  exactly once.\<close>

theorem scheduler_round_robin:
  assumes "sched_inv k"
  shows "find_next_work_item prev k =
      (case filter (awake k) (cyc (case prev of None \<Rightarrow> 0 | Some t \<Rightarrow> t) (task_ids k)) of
         [] \<Rightarrow> None | t # _ \<Rightarrow> Some (t, work_of k t)) \<and>
    (\<exists>ts. picks k (length (filter (awake k) (task_ids k))) prev = Some ts \<and> distinct ts \<and>
      set ts = {t \<in> dom (btree_get (TASKS k)). awake k t})"
proof -
  let ?R = "filter (awake k) (task_ids k)" and ?p = "case prev of None \<Rightarrow> 0 | Some t \<Rightarrow> t"
  let ?ts = "cyc ?p ?R"
  have len: "length ?ts = length ?R"
    using sum_length_filter_compl [of "\<lambda>x. ?p < x" ?R] by (simp add: cyc_def not_less)
  have m: "map_inv (TASKS k)" using assms by (simp add: sched_inv_def)
  have "picks k (length ?R) prev = Some ?ts"
    using picks_cyc [OF assms, of "length ?R" ?ts prev] len by simp
  moreover have "set ?ts = {t \<in> dom (btree_get (TASKS k)). awake k t}"
    unfolding set_task_ids [OF m, symmetric] by (auto simp: cyc_def)
  moreover have "distinct ?ts"
    using task_ids_sorted [OF assms] by (auto simp: cyc_def strict_sorted_iff)
  ultimately show ?thesis using find_next_ok [OF assms] by blast
qed

theorem scheduler_round_robin_witness:
  "find_next_work_item (Some 2) sample_kernel = Some (1, UserWork (user_frame 0x1000)) \<and>
   (\<exists>ts. picks sample_kernel 2 (Some 1) = Some ts \<and> set ts = {1, 2})"
proof -
  have ids: "task_ids sample_kernel = [1, 2]" by (simp add: task_ids_def sample_kernel_def pair_map)
  have aw: "awake sample_kernel 1" "awake sample_kernel 2" by (simp_all add: awake_def sample_kernel_def pair_map)
  have d: "dom (btree_get (TASKS sample_kernel)) = {1, 2}" by (auto simp: sample_kernel_def pair_map)
  have "find_next_work_item (Some 2) sample_kernel = Some (1, UserWork (user_frame 0x1000))"
    using scheduler_round_robin [OF sample_kernel_inv, of "Some 2"] ids aw
    by (simp add: cyc_def work_of_def word_le_nat_alt) (simp add: sample_kernel_def pair_map)
  note fst_pick = this
  have "{t \<in> {1, 2}. awake sample_kernel t} = {1, 2}" using aw by auto
  moreover have "length (filter (awake sample_kernel) (task_ids sample_kernel)) = 2"
    using ids aw by simp
  ultimately have "\<exists>ts. picks sample_kernel 2 (Some 1) = Some ts \<and> set ts = {1, 2}"
    using scheduler_round_robin [OF sample_kernel_inv, of "Some 1"] d by metis
  with fst_pick show ?thesis by blast
qed

text \<open>C20: A preempted task loses nothing.  When the next task in the cyclic order is in user mode, a
  switch saves the interrupted frame as the state of the current task, makes the next task
  current, returns that task's saved frame (its own frame when it is the only one awake), and
  leaves the state of every other task unchanged.\<close>

theorem switch_saves_and_restores:
  assumes inv: "sched_inv k" and c: "CURRENT_TASK k = Some c" "btree_get (TASK_STATES k) c = Some (StUser g)"
    and nx: "filter (awake k) (cyc c (task_ids k)) = t # ts"
    and u: "btree_get (TASK_STATES k) t = Some (StUser h)"
    and en: "enter_task t (set_state c (StUser f) k) = Some k1"
  shows "\<exists>k'. switch poll f k = Some (if t = c then f else h, k') \<and> CURRENT_TASK k' = Some t \<and>
     btree_get (TASK_STATES k') = (btree_get (TASK_STATES k))(c \<mapsto> StUser f)"
proof -
  let ?k = "set_state c (StUser f) k"
  have i: "sched_inv ?k" by (rule set_state_inv [OF inv])
  have ms: "map_inv (TASK_STATES k)" using inv by (simp add: sched_inv_def)
  have gs: "btree_get (TASK_STATES ?k) = (btree_get (TASK_STATES k))(c \<mapsto> StUser f)"
    using set_state_get(1) [OF ms, of c] c(2) by simp
  have "awake ?k = awake k" using gs c(2) by (auto simp: awake_def fun_eq_iff)
  moreover have "task_ids ?k = task_ids k" by (simp add: task_ids_def)
  ultimately have fn: "find_next_work_item (Some c) ?k = Some (t, work_of ?k t)"
    using find_next_ok [OF i, of "Some c"] nx by simp
  have w: "work_of ?k t = UserWork (if t = c then f else h)" using u gs by (simp add: work_of_def)
  have "switch poll f k = switch_loop poll (Some c) ?k"
    using c by (simp add: switch_def save_current_task_def)
  also have "\<dots> = Some (if t = c then f else h, k1)"
    using fn w en by (subst switch_loop.simps) simp
  finally have sw: "switch poll f k = Some (if t = c then f else h, k1)" .
  from en have "CURRENT_TASK k1 = Some t" "TASK_STATES k1 = TASK_STATES ?k"
    by (auto simp: enter_task_def option_monad)
  then show ?thesis using sw gs by auto
qed

theorem switch_saves_and_restores_witness:
  "\<exists>k'. switch (\<lambda>fut t k. None) (user_frame 0x1234) sample_kernel = Some (user_frame 0x2000, k') \<and>
     CURRENT_TASK k' = Some 2 \<and> btree_get (TASK_STATES k') 1 = Some (StUser (user_frame 0x1234))"
proof -
  have c: "CURRENT_TASK sample_kernel = Some 1"
    "btree_get (TASK_STATES sample_kernel) 1 = Some (StUser (user_frame 0x1000))"
    "btree_get (TASK_STATES sample_kernel) 2 = Some (StUser (user_frame 0x2000))"
    by (simp_all add: sample_kernel_def pair_map)
  have ids: "task_ids sample_kernel = [1, 2]" by (simp add: task_ids_def sample_kernel_def pair_map)
  have nx: "filter (awake sample_kernel) (cyc 1 (task_ids sample_kernel)) = 2 # [1]"
    using c by (simp add: ids cyc_def awake_def word_le_nat_alt)
  have en: "enter_task 2 (set_state 1 (StUser (user_frame 0x1234)) sample_kernel) =
      Some ((set_state 1 (StUser (user_frame 0x1234)) sample_kernel)\<lparr>CURRENT_TASK := Some 2\<rparr>)"
    by (rule enter_sample) (simp_all, simp add: sample_kernel_def)
  from switch_saves_and_restores [OF sample_kernel_inv c(1,2) nx c(3) en, of "\<lambda>fut t k. None"]
  show ?thesis by auto
qed

text \<open>C21: \<open>spawn\<close> succeeds when the allocator does, and every new task has an id that no task has or had.  As
  long as the 64-bit counter of ids does not wrap around, the id that \<open>spawn\<close> returns was in none of the three
  maps; the new task is in all three, with state \<open>Wake\<close>, so that its future is polled; the entries of
  all other tasks, the current task and the handles are unchanged; and the invariant - the three maps
  have the same tasks and all their ids are below the next id to be given out - holds again, so the next
  \<open>spawn\<close> gives out a different id.\<close>

theorem spawn_adds_task:
  assumes "ids_inv k" "\<forall>a. fst (al a)" "NEXT_TASK_ID k + 1 \<noteq> 0"
  shows "\<exists>ident k'. spawn al (ObjPageCtx pml4) fs f k = Some (Inr ident, k') \<and> ids_inv k' \<and>
     btree_get (TASKS k) ident = None \<and> btree_get (TASK_STATES k) ident = None \<and> btree_get (TASK_FUTURES k) ident = None \<and>
     ident < NEXT_TASK_ID k' \<and> NEXT_TASK_ID k < NEXT_TASK_ID k' \<and>
     btree_get (TASK_STATES k') = (btree_get (TASK_STATES k))(ident \<mapsto> Wake) \<and>
     btree_get (TASK_FUTURES k') = (btree_get (TASK_FUTURES k))(ident \<mapsto> f ident) \<and>
     btree_get (TASKS k') = (btree_get (TASKS k))
       (ident \<mapsto> \<lparr>task_ident = ident, task_page_ctx = ObjPageCtx pml4, task_filesystem = fs\<rparr>) \<and>
     CURRENT_TASK k' = CURRENT_TASK k \<and> TASK_HANDLES k' = TASK_HANDLES k"
proof -
  let ?n = "NEXT_TASK_ID k"
  obtain k' where s: "spawn al (ObjPageCtx pml4) fs f k = Some (Inr ?n, k')"
    using spawn_total [OF assms(2)] by blast
  have inv: "sched_inv k" using assms(1) by (simp add: ids_inv_def)
  note o = spawn_ok [OF inv s]
  have lt: "?n < NEXT_TASK_ID k'" using assms(3) o(2) by (simp add: word_less_nat_alt unatSuc add.commute)
  have no: "?n \<notin> dom (btree_get (TASKS k))" using assms(1) by (auto simp: ids_inv_def)
  then have no': "?n \<notin> dom (btree_get (TASK_STATES k))" "?n \<notin> dom (btree_get (TASK_FUTURES k))" using inv by (simp_all add: sched_inv_def)
  have "\<forall>t \<in> dom (btree_get (TASKS k')). t < NEXT_TASK_ID k'"
    using assms(1) lt unfolding o(4) ids_inv_def by (auto intro: less_trans)
  then have "ids_inv k'" using o(3) by (simp add: ids_inv_def)
  then show ?thesis using s o no no' lt by (intro exI [of _ ?n] exI [of _ k']) (simp add: domIff)
qed

theorem spawn_adds_task_witness:
  "\<exists>ident k'. spawn (\<lambda>a. (True, a)) (ObjPageCtx 0x1000) None (\<lambda>t. 5) sample_kernel = Some (Inr ident, k') \<and>
     ident \<noteq> 1 \<and> ident \<noteq> 2 \<and> btree_get (TASK_STATES k') ident = Some Wake \<and> ids_inv k'"
proof -
  have n: "NEXT_TASK_ID sample_kernel + 1 \<noteq> 0" "ids_inv sample_kernel"
    using sample_kernel_inv by (auto simp: ids_inv_def) (auto simp: sample_kernel_def pair_map split: if_splits)
  have t: "btree_get (TASKS sample_kernel) 1 \<noteq> None" "btree_get (TASKS sample_kernel) 2 \<noteq> None"
    by (simp_all add: sample_kernel_def pair_map)
  obtain ident k' where "spawn (\<lambda>a. (True, a)) (ObjPageCtx 0x1000) None (\<lambda>t. 5) sample_kernel = Some (Inr ident, k')"
    "ids_inv k'" "btree_get (TASKS sample_kernel) ident = None"
    "btree_get (TASK_STATES k') = (btree_get (TASK_STATES sample_kernel))(ident \<mapsto> Wake)"
    using spawn_adds_task [OF n(2) _ n(1), of "\<lambda>a. (True, a)" "0x1000" None "\<lambda>t. 5"] by auto
  then show ?thesis using t by (intro exI [of _ ident] exI [of _ k']) auto
qed

text \<open>A system call reaches the task that made it.  After \<open>dispatch_syscall\<close> recorded the frame, the
  future of the task is ready with exactly that frame; and after the future resumed the task with
  the frame that holds the result, the scheduler returns that frame when it picks the task.\<close>

lemma syscall_frame_reaches_task:
  assumes inv: "sched_inv k" and t: "run_task r = t" "t \<in> dom (btree_get (TASKS k))"
  shows "task_resume_poll r (set_state t (SyscallEntry f) k) = Some (Ready, r\<lparr>run_frame := f\<rparr>) \<and>
     (\<exists>k'. task_run_run r k = Some k' \<and> sched_inv k' \<and> work_of k' t = UserWork (run_frame r))"
proof -
  have ms: "map_inv (TASK_STATES k)" using inv by (simp add: sched_inv_def)
  obtain st where st: "btree_get (TASK_STATES k) t = Some st" using sched_inv_state(1) [OF inv t(2)] by blast
  then have g: "btree_get (TASK_STATES (set_state t s k)) t = Some s" for s
    using set_state_get(1) [OF ms, of t s] by simp
  show ?thesis
    using g st t set_state_inv [OF inv] by (simp add: task_resume_poll_def task_run_run_def work_of_def)
qed

lemma syscall_frame_reaches_task_witness:
  "task_resume_poll (task_setup 1 (user_frame 0)) (set_state 1 (SyscallEntry (user_frame 9)) sample_kernel) =
     Some (Ready, task_setup 1 (user_frame 9))"
  using syscall_frame_reaches_task [OF sample_kernel_inv, of "task_setup 1 (user_frame 0)" 1 "user_frame 9"]
  by (simp add: task_setup_def sample_kernel_def pair_map)

text \<open>A wake-up of a task that is not waiting destroys its saved frame: a waker overwrites the state
  \<open>User(frame)\<close> or \<open>SyscallEntry(frame)\<close> with \<open>Wake\<close>.  The future of the task then stays
  pending and the state stays \<open>Wake\<close>, so the frame is lost.  \<open>AsyncMutex\<close> leaves such wakers in
  its list.\<close>

lemma spurious_wake_loses_frame:
  assumes inv: "sched_inv k" and t: "btree_get (TASK_STATES k) t = Some (StUser f)"
  shows "btree_get (TASK_STATES (task_waker_wake t k)) t = Some Wake \<and>
     task_resume_poll (task_setup t f) (task_waker_wake t k) = Some (Pending, task_setup t f) \<and>
     (\<exists>fut. work_of (task_waker_wake t k) t = KernelWork fut)"
proof -
  have ms: "map_inv (TASK_STATES k)" using inv by (simp add: sched_inv_def)
  have g: "btree_get (TASK_STATES (set_state t Wake k)) t = Some Wake"
    using set_state_get(1) [OF ms, of t Wake] t by simp
  then show ?thesis by (simp add: task_waker_wake_def task_resume_poll_def task_setup_def work_of_def)
qed

lemma spurious_wake_loses_frame_witness:
  "btree_get (TASK_STATES (task_waker_wake 2 sample_kernel)) 2 = Some Wake"
proof -
  have "btree_get (TASK_STATES sample_kernel) 2 = Some (StUser (user_frame 0x2000))"
    by (simp add: sample_kernel_def pair_map)
  from spurious_wake_loses_frame [OF sample_kernel_inv this] show ?thesis by blast
qed

end
