(* ===== verification/Utf8_Parts.thy ===== *)
theory Utf8_Parts
  imports Crab_Prelude
begin

text \<open>
  Strings out of bytes: \<open>kernel/src/util/mod.rs\<close>.

  \<open>str::from_utf8\<close> belongs to Rust's standard library; \<open>from_utf8\<close> models it with the error it
  reports: the length of the valid prefix and, unless the input ends in the middle of a character,
  the number of bytes that are wrong.  A string is its list of bytes.
\<close>

section \<open>The standard library's validation\<close>

definition is_cont :: "u8 \<Rightarrow> bool" where
  "is_cont b \<longleftrightarrow> 0x80 \<le> b \<and> b \<le> 0xbf"

definition char_width :: "u8 \<Rightarrow> nat" where
  "char_width b =
     (if b < 0x80 then 1
      else if 0xc2 \<le> b \<and> b \<le> 0xdf then 2
      else if 0xe0 \<le> b \<and> b \<le> 0xef then 3
      else if 0xf0 \<le> b \<and> b \<le> 0xf4 then 4
      else 0)"

text \<open>The second byte of a character of three or four bytes.\<close>

definition second_ok :: "u8 \<Rightarrow> u8 \<Rightarrow> bool" where
  "second_ok b c =
     (if b = 0xe0 then 0xa0 \<le> c \<and> c \<le> 0xbf
      else if b = 0xed then 0x80 \<le> c \<and> c \<le> 0x9f
      else if b = 0xf0 then 0x90 \<le> c \<and> c \<le> 0xbf
      else if b = 0xf4 then 0x80 \<le> c \<and> c \<le> 0x8f
      else is_cont c)"

text \<open>One character at the front: its width, or the \<open>error_len\<close> of the error.\<close>

fun utf8_char :: "u8 \<Rightarrow> u8 list \<Rightarrow> nat option + nat" where
  "utf8_char b rest =
     (let w = char_width b in
      if w = 0 then Inl (Some 1)
      else if w = 1 then Inr 1
      else case rest of
        [] \<Rightarrow> Inl None
      | c # rest \<Rightarrow>
          if \<not> second_ok b c then Inl (Some 1)
          else if w = 2 then Inr 2
          else case rest of
            [] \<Rightarrow> Inl None
          | d # rest \<Rightarrow>
              if \<not> is_cont d then Inl (Some 2)
              else if w = 3 then Inr 3
              else case rest of
                [] \<Rightarrow> Inl None
              | e # rest \<Rightarrow> if \<not> is_cont e then Inl (Some 3) else Inr 4)"

record utf8_error =
  valid_up_to :: nat
  error_len :: "nat option"

lemma utf8_char_width: "utf8_char b rest = Inr w \<Longrightarrow> 1 \<le> w \<and> w \<le> Suc (length rest) \<and> w \<le> 4"
  by (auto simp: Let_def split: if_splits list.splits)

function from_utf8 :: "u8 list \<Rightarrow> utf8_error + u8 list" where
  "from_utf8 [] = Inr []"
| "from_utf8 (b # rest) =
     (case utf8_char b rest of
        Inl e \<Rightarrow> Inl \<lparr>valid_up_to = 0, error_len = e\<rparr>
      | Inr w \<Rightarrow>
          (case from_utf8 (drop w (b # rest)) of
             Inr _ \<Rightarrow> Inr (b # rest)
           | Inl e \<Rightarrow> Inl (e\<lparr>valid_up_to := valid_up_to e + w\<rparr>)))"
  by pat_completeness auto
termination
proof (relation "measure length")
  fix b :: u8 and rest w
  assume "utf8_char b rest = Inr w"
  then show "(drop w (b # rest), b # rest) \<in> measure length"
    using utf8_char_width [of b rest w] by simp
qed simp

lemma from_utf8_ascii: "list_all (\<lambda>b. b < 0x80) s \<Longrightarrow> from_utf8 s = Inr s"
  by (induction s) (simp_all add: char_width_def Let_def)

section \<open>Definitions of the source\<close>

datatype array_string_error = TooLong | Utf8 utf8_error

text \<open>\<open>ArrayString\<close> of the third-party crate \<open>arrayvec\<close> enters with its capacity only: \<open>push_str\<close>
  panics when the string does not fit, which the test before excludes.\<close>

definition array_string :: "nat \<Rightarrow> u8 list \<Rightarrow> array_string_error + u8 list" where
  "array_string capacity buf =
     (if length buf > capacity then Inl TooLong
      else case from_utf8 buf of Inl e \<Rightarrow> Inl (Utf8 e) | Inr s \<Rightarrow> Inr s)"

text \<open>The closure of \<open>utf8_valid_parts\<close>: the item and the new \<open>idx\<close>; the outer \<open>None\<close> is the failed
  \<open>expect\<close>.\<close>

definition utf8_valid_parts_next :: "u8 list \<Rightarrow> nat \<Rightarrow> (u8 list option \<times> nat) option" where
  "utf8_valid_parts_next buf idx =
     (case from_utf8 (drop idx buf) of
        Inr [] \<Rightarrow> Some (None, idx)
      | Inr s \<Rightarrow> Some (Some s, idx + length s)
      | Inl e \<Rightarrow>
          (case from_utf8 (take (valid_up_to e) (drop idx buf)) of
             Inl _ \<Rightarrow> None
           | Inr part \<Rightarrow>
               Some (Some part, idx + valid_up_to e + (case error_len e of None \<Rightarrow> 0 | Some n \<Rightarrow> n))))"

text \<open>The parts that a loop over the iterator sees, for a number of calls of \<open>next\<close>.\<close>

fun utf8_valid_parts :: "nat \<Rightarrow> u8 list \<Rightarrow> nat \<Rightarrow> u8 list list option" where
  "utf8_valid_parts 0 buf idx = None"
| "utf8_valid_parts (Suc k) buf idx =
     (case utf8_valid_parts_next buf idx of
        None \<Rightarrow> None
      | Some (None, _) \<Rightarrow> Some []
      | Some (Some part, idx') \<Rightarrow> map_option (Cons part) (utf8_valid_parts k buf idx'))"

section \<open>Facts about validation\<close>

lemma utf8_char_prefix:
  assumes "utf8_char b rest = Inr w"
  shows "utf8_char b (take (w - 1) rest @ ys) = Inr w"
  using assms by (auto simp: Let_def take_Cons' split: if_splits list.splits)

lemma from_utf8_ok: "from_utf8 xs = Inr s \<Longrightarrow> s = xs"
  by (cases xs) (auto split: sum.splits)

lemma from_utf8_err:
  assumes "from_utf8 xs = Inl e"
  shows "from_utf8 (take (valid_up_to e) xs) = Inr (take (valid_up_to e) xs) \<and>
    valid_up_to e < length xs \<and>
    from_utf8 (drop (valid_up_to e) xs) = Inl \<lparr>valid_up_to = 0, error_len = error_len e\<rparr> \<and>
    (\<forall>n. error_len e = Some n \<longrightarrow> 1 \<le> n)"
  using assms
proof (induction xs arbitrary: e rule: from_utf8.induct)
  case 1
  then show ?case by simp
next
  case (2 b rest)
  show ?case
  proof (cases "utf8_char b rest")
    case (Inl x)
    then have e: "e = \<lparr>valid_up_to = 0, error_len = x\<rparr>" using 2(2) by simp
    moreover have "\<forall>n. x = Some n \<longrightarrow> 1 \<le> n"
      using Inl by (auto simp: Let_def split: if_splits list.splits)
    ultimately show ?thesis using Inl by simp
  next
    case (Inr w)
    note w = utf8_char_width [OF Inr]
    from 2(2) Inr obtain e' where e': "from_utf8 (drop w (b # rest)) = Inl e'"
      "e = e'\<lparr>valid_up_to := valid_up_to e' + w\<rparr>" by (auto split: sum.splits)
    note IH = 2(1) [OF Inr e'(1)]
    have v: "valid_up_to e = valid_up_to e' + w" "error_len e = error_len e'" using e'(2) by simp_all
    have t: "take (valid_up_to e) (b # rest) = b # take (w - 1) rest @ take (valid_up_to e') (drop w (b # rest))"
    proof -
      have "take (valid_up_to e) (b # rest) = take w (b # rest) @ take (valid_up_to e') (drop w (b # rest))"
        unfolding v(1) add.commute [of _ w] by (rule take_add)
      then show ?thesis using w by (cases w) simp_all
    qed
    have dr: "drop w (b # take (w - 1) rest @ ys) = ys" for ys
      using w by (cases w) simp_all
    have "from_utf8 (take (valid_up_to e) (b # rest)) = Inr (take (valid_up_to e) (b # rest))"
      unfolding t using utf8_char_prefix [OF Inr] IH dr by (simp del: drop_Cons' utf8_char.simps)
    moreover have "drop (valid_up_to e) (b # rest) = drop (valid_up_to e') (drop w (b # rest))"
      unfolding v(1) by simp
    ultimately show ?thesis using IH v w by auto
  qed
qed

lemma parts_next_progress:
  assumes idx: "idx \<le> length buf" and ne: "\<And>e. from_utf8 (drop idx buf) = Inl e \<Longrightarrow> error_len e \<noteq> None"
  shows "utf8_valid_parts_next buf idx = Some (None, idx) \<and> idx = length buf \<or>
     (\<exists>part idx'. utf8_valid_parts_next buf idx = Some (Some part, idx') \<and> idx < idx' \<and>
        from_utf8 part = Inr part \<and> part = take (length part) (drop idx buf))"
proof (cases "from_utf8 (drop idx buf)")
  case (Inr s)
  then have s: "s = drop idx buf" by (rule from_utf8_ok)
  show ?thesis
  proof (cases s)
    case Nil
    then show ?thesis using Inr s idx by (simp add: utf8_valid_parts_next_def)
  next
    case (Cons x xs)
    then have "idx < length buf" using s by (metis drop_all list.distinct(1) not_le)
    moreover have "utf8_valid_parts_next buf idx = Some (Some s, idx + length s)"
      using Inr Cons by (simp add: utf8_valid_parts_next_def)
    moreover have "from_utf8 s = Inr s" "s = take (length s) (drop idx buf)" using Inr s by simp_all
    moreover have "idx < idx + length s" using Cons by simp
    ultimately show ?thesis by blast
  qed
next
  case (Inl e)
  obtain n where n: "error_len e = Some n" using ne [OF Inl] by blast
  note er = from_utf8_err [OF Inl]
  have "utf8_valid_parts_next buf idx = Some (Some (take (valid_up_to e) (drop idx buf)), idx + valid_up_to e + n)"
    using Inl er n by (simp add: utf8_valid_parts_next_def)
  moreover have "1 \<le> n" using er n by blast
  moreover have "length (take (valid_up_to e) (drop idx buf)) = valid_up_to e" using er by simp
  ultimately show ?thesis using er by (intro disjI2 exI conjI) (assumption, simp_all)
qed

lemma parts_next_past:
  "length buf \<le> idx \<Longrightarrow> utf8_valid_parts_next buf idx = Some (None, idx)"
  by (simp add: utf8_valid_parts_next_def)

lemma parts_terminate:
  assumes ne: "\<And>i e. from_utf8 (drop i buf) = Inl e \<Longrightarrow> error_len e \<noteq> None"
  shows "length buf \<le> idx + k \<Longrightarrow>
    \<exists>parts. utf8_valid_parts (Suc k) buf idx = Some parts \<and> (\<forall>p \<in> set parts. from_utf8 p = Inr p)"
proof (induction k arbitrary: idx)
  case 0
  then show ?case using parts_next_past by simp
next
  case (Suc k)
  show ?case
  proof (cases "idx < length buf")
    case True
    then obtain part idx' where p: "utf8_valid_parts_next buf idx = Some (Some part, idx')" "idx < idx'"
      "from_utf8 part = Inr part"
      using parts_next_progress [of idx buf] ne by (metis less_imp_le less_not_refl)
    obtain parts where "utf8_valid_parts (Suc k) buf idx' = Some parts" "\<forall>p \<in> set parts. from_utf8 p = Inr p"
      using Suc.IH [of idx'] Suc.prems p(2) by auto
    then show ?thesis using p by simp
  next
    case False
    then show ?thesis using parts_next_past [of buf idx] by simp
  qed
qed

lemma parts_stuck:
  assumes "from_utf8 (drop idx buf) = Inl \<lparr>valid_up_to = 0, error_len = None\<rparr>"
  shows "utf8_valid_parts_next buf idx = Some (Some [], idx)"
  using assms by (simp add: utf8_valid_parts_next_def)

lemma parts_hang:
  assumes "from_utf8 (drop idx buf) = Inl e" "error_len e = None"
  shows "utf8_valid_parts k buf idx = None"
proof -
  have st: "utf8_valid_parts j buf i = None"
    if "from_utf8 (drop i buf) = Inl \<lparr>valid_up_to = 0, error_len = None\<rparr>" for i j
    by (induction j) (simp_all add: parts_stuck [OF that])
  note er = from_utf8_err [OF assms(1)]
  have "utf8_valid_parts_next buf idx = Some (Some (take (valid_up_to e) (drop idx buf)), idx + valid_up_to e)"
    using assms er by (simp add: utf8_valid_parts_next_def)
  moreover have "utf8_valid_parts j buf (idx + valid_up_to e) = None" for j
    using st [of "idx + valid_up_to e" j] er assms(2) by (simp add: add.commute)
  ultimately show ?thesis by (cases k) simp_all
qed

section \<open>Properties\<close>

text \<open>When no suffix of the buffer is the beginning of a character that the buffer cuts off,
  \<open>utf8_valid_parts\<close> ends after at most one call more than there are bytes, and every part it
  yields is valid UTF-8.\<close>

lemma utf8_parts_terminate:
  assumes "\<forall>i e. from_utf8 (drop i buf) = Inl e \<longrightarrow> error_len e \<noteq> None"
  shows "\<exists>parts. utf8_valid_parts (Suc (length buf)) buf 0 = Some parts \<and>
     (\<forall>p \<in> set parts. from_utf8 p = Inr p)"
  using assms by (intro parts_terminate) auto

lemma utf8_parts_terminate_witness:
  "\<exists>parts. utf8_valid_parts 4 [0x61, 0xff, 0x62] 0 = Some parts"
proof -
  have "error_len e \<noteq> None" if "from_utf8 (drop i [0x61, 0xff, 0x62]) = Inl e" for i e
  proof -
    have "i = 0 \<or> i = 1 \<or> i = 2 \<or> 3 \<le> i" by linarith
    then show ?thesis using that by (auto simp: char_width_def)
  qed
  then have "\<exists>parts. utf8_valid_parts (Suc (length [0x61, 0xff, 0x62 :: u8])) [0x61, 0xff, 0x62] 0 = Some parts"
    using utf8_parts_terminate [of "[0x61, 0xff, 0x62]"] by blast
  moreover have "Suc (length [0x61, 0xff, 0x62 :: u8]) = 4" by simp
  ultimately show ?thesis by metis
qed

text \<open>A buffer that ends in the middle of a character makes the iterator yield empty parts for ever:
  no number of calls reaches the end.  One byte from a user program is enough.\<close>

lemma utf8_parts_hang:
  "utf8_valid_parts k [0xe2] 0 = None \<and> utf8_valid_parts_next [0xe2] 0 = Some (Some [], 0)"
proof -
  have e: "from_utf8 (drop 0 [0xe2]) = Inl \<lparr>valid_up_to = 0, error_len = None\<rparr>"
    by (simp add: char_width_def)
  then show ?thesis using parts_stuck [OF e] parts_hang [OF e, of k] by simp
qed

end
