(* ===== verification/Ide.thy ===== *)
theory Ide
  imports Utf8_Parts
begin

text \<open>
  The IDE driver: \<open>kernel/src/device/ide.rs\<close>.

  The machine's ports are the argument of the driver: a record of the three instructions \<open>in\<close> (byte
  and word) and \<open>out\<close> over a device state \<open>'d\<close>, which the third-party crate \<open>x86_64\<close> wraps.
  \<open>trunc\<close> and \<open>has\<close> are \<open>from_bits_truncate\<close> and \<open>contains\<close> of the third-party crate \<open>bitflags\<close>.
  The functions are \<open>async\<close> but never wait for another task: they poll the status register, so a
  call either returns, panics or polls for ever, and the last two are \<open>None\<close>.
\<close>

section \<open>Ports\<close>

record 'd ide_env =
  inb :: "u16 \<Rightarrow> 'd \<Rightarrow> u8 \<times> 'd"
  inw :: "u16 \<Rightarrow> 'd \<Rightarrow> u16 \<times> 'd"
  outb :: "u16 \<Rightarrow> u8 \<Rightarrow> 'd \<Rightarrow> 'd"
  trunc :: "u8 \<Rightarrow> u8 \<Rightarrow> u8"
  has :: "u8 \<Rightarrow> u8 \<Rightarrow> bool"

record ide_io =
  io_base :: u16
  control_base :: u16

definition PRIMARY_IO :: ide_io where
  "PRIMARY_IO = \<lparr>io_base = 0x1f0, control_base = 0x3f6\<rparr>"

definition data_port :: "ide_io \<Rightarrow> u16" where "data_port io = io_base io + 0"
definition error_features :: "ide_io \<Rightarrow> u16" where "error_features io = io_base io + 1"
definition seccount0 :: "ide_io \<Rightarrow> u16" where "seccount0 io = io_base io + 2"
definition lba0_port :: "ide_io \<Rightarrow> u16" where "lba0_port io = io_base io + 3"
definition lba1_port :: "ide_io \<Rightarrow> u16" where "lba1_port io = io_base io + 4"
definition lba2_port :: "ide_io \<Rightarrow> u16" where "lba2_port io = io_base io + 5"
definition device_select :: "ide_io \<Rightarrow> u16" where "device_select io = io_base io + 6"
definition command_status :: "ide_io \<Rightarrow> u16" where "command_status io = io_base io + 7"
definition alternate_status_control :: "ide_io \<Rightarrow> u16" where
  "alternate_status_control io = control_base io + 2"

section \<open>Channels and drives\<close>

datatype drive = DriveA | DriveB

record ide_channel =
  busy_a :: bool
  busy_b :: bool

definition ide_channel_new :: ide_channel where
  "ide_channel_new = \<lparr>busy_a = False, busy_b = False\<rparr>"

definition busyness :: "drive \<Rightarrow> ide_channel \<Rightarrow> bool" where
  "busyness d c = (case d of DriveA \<Rightarrow> busy_a c | DriveB \<Rightarrow> busy_b c)"

definition set_busyness :: "drive \<Rightarrow> bool \<Rightarrow> ide_channel \<Rightarrow> ide_channel" where
  "set_busyness d b c = (case d of DriveA \<Rightarrow> c\<lparr>busy_a := b\<rparr> | DriveB \<Rightarrow> c\<lparr>busy_b := b\<rparr>)"

datatype drive_busy = DriveBusy

definition ide_open :: "drive \<Rightarrow> ide_channel \<Rightarrow> (drive_busy + drive) \<times> ide_channel" where
  "ide_open d c =
     (let previous = busyness d c; c = set_busyness d True c in
      if previous then (Inl DriveBusy, c) else (Inr d, c))"

definition ide_drive_drop :: "drive \<Rightarrow> ide_channel \<Rightarrow> ide_channel" where
  "ide_drive_drop d c = set_busyness d False c"

section \<open>Status and errors\<close>

definition ST_BUSY :: u8 where "ST_BUSY = 0x80"
definition ST_DRIVE_READY :: u8 where "ST_DRIVE_READY = 0x40"
definition ST_DATA_REQUEST_READY :: u8 where "ST_DATA_REQUEST_READY = 0x08"
definition ST_ERROR :: u8 where "ST_ERROR = 0x01"
definition ATA_FLAGS_ALL :: u8 where "ATA_FLAGS_ALL = 0xff"

type_synonym ata_status = u8
type_synonym ata_error = u8

definition CMD_READ_PIO :: u8 where "CMD_READ_PIO = 0x20"
definition CMD_IDENTIFY :: u8 where "CMD_IDENTIFY = 0xec"

type_synonym sector = "u8 list"

definition ide_status :: "'d ide_env \<Rightarrow> ide_io \<Rightarrow> 'd \<Rightarrow> ata_status \<times> 'd" where
  "ide_status env io d = (case inb env (command_status io) d of (raw, d) \<Rightarrow> (trunc env ATA_FLAGS_ALL raw, d))"

definition ide_error :: "'d ide_env \<Rightarrow> ide_io \<Rightarrow> 'd \<Rightarrow> ata_error \<times> 'd" where
  "ide_error env io d = (case inb env (error_features io) d of (raw, d) \<Rightarrow> (trunc env ATA_FLAGS_ALL raw, d))"

definition ide_wait :: "'d ide_env \<Rightarrow> ide_io \<Rightarrow> 'd \<Rightarrow> 'd" where
  "ide_wait env io d = fold (\<lambda>_ d. snd (inb env (alternate_status_control io) d)) [0..<4] d"

partial_function (option) wait_loop :: "'d ide_env \<Rightarrow> ide_io \<Rightarrow> ata_status \<Rightarrow> 'd
    \<Rightarrow> ((ata_error + ata_status) \<times> 'd) option" where
  "wait_loop env io required d =
     (case ide_status env io d of (status, d) \<Rightarrow>
        if has env status ST_BUSY then wait_loop env io required d
        else if has env status ST_ERROR then
          (case ide_error env io d of (e, d) \<Rightarrow> Some (Inl e, d))
        else if has env status required then Some (Inr status, d)
        else wait_loop env io required d)"

definition wait_command :: "'d ide_env \<Rightarrow> ide_io \<Rightarrow> ata_status \<Rightarrow> 'd \<Rightarrow> ((ata_error + ata_status) \<times> 'd) option" where
  "wait_command env io required d = wait_loop env io required (ide_wait env io d)"

fun read_words :: "'d ide_env \<Rightarrow> ide_io \<Rightarrow> nat \<Rightarrow> 'd \<Rightarrow> u8 list \<times> 'd" where
  "read_words env io 0 d = ([], d)"
| "read_words env io (Suc n) d =
     (case inw env (data_port io) d of (w, d) \<Rightarrow>
      case read_words env io n d of (bs, d) \<Rightarrow>
        (ucast (drop_bit 0 w AND 0xff) # ucast (drop_bit 8 w AND 0xff) # bs, d))"

definition read_pio_data :: "'d ide_env \<Rightarrow> ide_io \<Rightarrow> 'd \<Rightarrow> sector \<times> 'd" where
  "read_pio_data env io d = read_words env io 256 d"

section \<open>Drive operations\<close>

definition ide_select :: "'d ide_env \<Rightarrow> ide_io \<Rightarrow> drive \<Rightarrow> 'd \<Rightarrow> 'd" where
  "ide_select env io dr d =
     ide_wait env io (outb env (device_select io) (case dr of DriveA \<Rightarrow> 0xe0 | DriveB \<Rightarrow> 0xf0) d)"

datatype detect_error = NoDevice | NotAta | DetectAta ata_error

text \<open>The loop that swaps the bytes of the strings, and the loop that drops trailing spaces.\<close>

definition swap_strings :: "u8 list \<Rightarrow> u8 list" where
  "swap_strings bs = fold (\<lambda>k bs. let idx = 20 + 2 * k in bs[idx := bs ! (idx + 1), idx + 1 := bs ! idx]) [0..<38] bs"

definition trim_spaces :: "u8 list \<Rightarrow> u8 list" where
  "trim_spaces s = rev (dropWhile (\<lambda>b. b = 0x20) (rev s))"

definition detect :: "'d ide_env \<Rightarrow> ide_io \<Rightarrow> drive \<Rightarrow> 'd \<Rightarrow> ((detect_error + u8 list) \<times> 'd) option" where
  "detect env io dr d = do {
     let d = ide_select env io dr d;
     let d = outb env (seccount0 io) 0 d;
     let d = outb env (lba0_port io) 0 d;
     let d = outb env (lba1_port io) 0 d;
     let d = outb env (lba2_port io) 0 d;
     let d = ide_wait env io d;
     let d = outb env (command_status io) CMD_IDENTIFY d;
     (r, d) \<leftarrow> wait_command env io ST_DRIVE_READY d;
     (case r of
        Inl e \<Rightarrow> Some (Inl (DetectAta e), d)
      | Inr status \<Rightarrow>
          if status = 0 then Some (Inl NoDevice, d)
          else case inb env (lba1_port io) d of (l1, d) \<Rightarrow>
            (let (other, d) = (if l1 \<noteq> 0 then (True, d)
               else case inb env (lba2_port io) d of (l2, d) \<Rightarrow> (l2 \<noteq> 0, d)) in
             if other then Some (Inl NotAta, d)
             else case read_pio_data env io d of (identify, d) \<Rightarrow>
               (case array_string 40 (take 40 (drop 54 (swap_strings identify))) of
                  Inl _ \<Rightarrow> None
                | Inr model \<Rightarrow> Some (Inr (trim_spaces model), d)))) }"

text \<open>The loop over the buffers of \<open>read_sectors\<close>: the sectors read so far are returned also on an
  error.\<close>

fun read_buffs :: "'d ide_env \<Rightarrow> ide_io \<Rightarrow> nat \<Rightarrow> 'd \<Rightarrow> ((ata_error + unit) \<times> sector list \<times> 'd) option" where
  "read_buffs env io 0 d = Some (Inr (), [], d)"
| "read_buffs env io (Suc n) d = do {
     (r, d) \<leftarrow> wait_command env io ST_DATA_REQUEST_READY d;
     (case r of
        Inl e \<Rightarrow> Some (Inl e, [], d)
      | Inr _ \<Rightarrow>
          (case read_pio_data env io d of (s, d) \<Rightarrow>
           map_option (\<lambda>(r, ss, d). (r, s # ss, d)) (read_buffs env io n d))) }"

definition ide_read_sectors :: "'d ide_env \<Rightarrow> ide_io \<Rightarrow> drive \<Rightarrow> nat \<Rightarrow> nat \<Rightarrow> 'd
    \<Rightarrow> ((ata_error + unit) \<times> sector list \<times> 'd) option" where
  "ide_read_sectors env io dr lba count d =
     (if lba > 0x00fffffe then None
      else if count > 255 then None
      else do {
        let d = ide_select env io dr d;
        (r, d) \<leftarrow> wait_command env io 0 d;
        (case r of
           Inl e \<Rightarrow> Some (Inl e, [], d)
         | Inr _ \<Rightarrow> do {
             let d = outb env (error_features io) 0 d;
             let d = outb env (seccount0 io) (of_nat count) d;
             let d = outb env (lba0_port io) (of_nat lba) d;
             let d = outb env (lba1_port io) (of_nat (lba div 0x100)) d;
             let d = outb env (lba2_port io) (of_nat (lba div 0x10000)) d;
             (r, d) \<leftarrow> wait_command env io ST_DRIVE_READY d;
             (case r of
                Inl e \<Rightarrow> Some (Inl e, [], d)
              | Inr _ \<Rightarrow>
                  let d = outb env (command_status io) CMD_READ_PIO d in
                  read_buffs env io count d) }) })"

section \<open>A drive with programmed I/O\<close>

text \<open>
  The hardware that the driver is meant for: a drive that is busy for an arbitrary number of status
  reads, then answers a read command with the sectors of its medium, one word at a time, and is
  busy again before each sector.  \<open>pending\<close> are the words that are still to be read.
\<close>

record ata_dev =
  medium :: "nat \<Rightarrow> sector"
  delay :: nat
  busy_for :: nat
  reg_count :: u8
  reg_lba0 :: u8
  reg_lba1 :: u8
  reg_lba2 :: u8
  pending :: "u16 list"

definition sector_words :: "sector \<Rightarrow> u16 list" where
  "sector_words s = map (\<lambda>i. ucast (s ! (2 * i)) OR push_bit 8 (ucast (s ! (2 * i + 1)))) [0..<256]"

definition dev_lba :: "ata_dev \<Rightarrow> nat" where
  "dev_lba d = unat (reg_lba0 d) + 0x100 * unat (reg_lba1 d) + 0x10000 * unat (reg_lba2 d)"

definition ata_inb :: "u16 \<Rightarrow> ata_dev \<Rightarrow> u8 \<times> ata_dev" where
  "ata_inb p d =
     (if p = 0x1f7 then
        if 0 < busy_for d then (0x80, d\<lparr>busy_for := busy_for d - 1\<rparr>)
        else (if pending d = [] then 0x40 else 0x48, d)
      else (0, d))"

definition ata_inw :: "u16 \<Rightarrow> ata_dev \<Rightarrow> u16 \<times> ata_dev" where
  "ata_inw p d =
     (case pending d of
        [] \<Rightarrow> (0, d)
      | w # ws \<Rightarrow> (w, d\<lparr>pending := ws, busy_for := (if 256 dvd length ws then delay d else 0)\<rparr>))"

definition ata_outb :: "u16 \<Rightarrow> u8 \<Rightarrow> ata_dev \<Rightarrow> ata_dev" where
  "ata_outb p v d =
     (if p = 0x1f2 then d\<lparr>reg_count := v\<rparr>
      else if p = 0x1f3 then d\<lparr>reg_lba0 := v\<rparr>
      else if p = 0x1f4 then d\<lparr>reg_lba1 := v\<rparr>
      else if p = 0x1f5 then d\<lparr>reg_lba2 := v\<rparr>
      else if p = 0x1f7 \<and> v = 0x20 then
        d\<lparr>busy_for := delay d,
          pending := concat (map (\<lambda>i. sector_words (medium d (dev_lba d + i))) [0..<unat (reg_count d)])\<rparr>
      else d)"

definition ata_env :: "ata_dev ide_env" where
  "ata_env = \<lparr>inb = ata_inb, inw = ata_inw, outb = ata_outb, trunc = (\<lambda>all b. b AND all),
     has = (\<lambda>a b. a AND b = b)\<rparr>"

definition medium_ok :: "ata_dev \<Rightarrow> bool" where
  "medium_ok d \<longleftrightarrow> (\<forall>i. length (medium d i) = 512)"


section \<open>The driver on the drive\<close>

lemmas ata_port_defs = PRIMARY_IO_def data_port_def error_features_def seccount0_def lba0_port_def
  lba1_port_def lba2_port_def device_select_def command_status_def alternate_status_control_def

lemma ata_env_sel [simp]:
  "inb ata_env = ata_inb" "inw ata_env = ata_inw" "outb ata_env = ata_outb"
  "trunc ata_env all b = b AND all" "has ata_env a b \<longleftrightarrow> a AND b = b"
  by (simp_all add: ata_env_def)

lemma ata_wait [simp]: "ide_wait ata_env PRIMARY_IO d = d"
proof -
  have "snd (ata_inb (alternate_status_control PRIMARY_IO) e) = e" for e
    by (simp add: ata_inb_def ata_port_defs)
  then have "fold (\<lambda>_ e. snd (ata_inb (alternate_status_control PRIMARY_IO) e)) ks d = d" for ks :: "nat list"
    by (induction ks) simp_all
  then show ?thesis by (simp add: ide_wait_def)
qed

definition ata_ready :: "ata_dev \<Rightarrow> u8" where
  "ata_ready d = (if pending d = [] then 0x40 else 0x48)"

lemma ata_status_busy:
  assumes "busy_for d = Suc k"
  shows "ide_status ata_env PRIMARY_IO d = (0x80, d\<lparr>busy_for := k\<rparr>)"
  using assms by (simp add: ide_status_def ata_inb_def ata_port_defs ATA_FLAGS_ALL_def)

lemma ata_status_idle:
  assumes "busy_for d = 0"
  shows "ide_status ata_env PRIMARY_IO d = (ata_ready d, d)"
  using assms by (simp add: ide_status_def ata_inb_def ata_port_defs ATA_FLAGS_ALL_def ata_ready_def)

text \<open>The polling loop ends, whatever the number of polls for which the drive is busy.\<close>

lemma ata_wait_loop:
  assumes "ata_ready d AND req = req"
  shows "wait_loop ata_env PRIMARY_IO req d = Some (Inr (ata_ready d), d\<lparr>busy_for := 0\<rparr>)"
  using assms
proof (induction "busy_for d" arbitrary: d)
  case 0
  have "d\<lparr>busy_for := 0\<rparr> = d" using 0(1) by simp
  moreover have "\<not> (ata_ready d AND ST_BUSY = ST_BUSY)" "\<not> (ata_ready d AND ST_ERROR = ST_ERROR)"
    by (simp_all add: ata_ready_def ST_BUSY_def ST_ERROR_def)
  ultimately show ?case
    using 0(2) by (subst wait_loop.simps) (simp add: ata_status_idle 0(1)[symmetric])
next
  case (Suc k)
  have "ata_ready (d\<lparr>busy_for := k\<rparr>) = ata_ready d" by (simp add: ata_ready_def)
  then show ?case
    using Suc.hyps(1)[of "d\<lparr>busy_for := k\<rparr>"] Suc.prems
    by (subst wait_loop.simps) (simp add: ata_status_busy Suc.hyps(2)[symmetric] ST_BUSY_def)
qed

lemma ata_wait_command:
  assumes "ata_ready d AND req = req"
  shows "wait_command ata_env PRIMARY_IO req d = Some (Inr (ata_ready d), d\<lparr>busy_for := 0\<rparr>)"
  using assms by (simp add: wait_command_def ata_wait_loop)

definition word_bytes :: "u16 list \<Rightarrow> u8 list" where
  "word_bytes ws = concat (map (\<lambda>w. [ucast (drop_bit 0 w AND 0xff), ucast (drop_bit 8 w AND 0xff)]) ws)"

lemma ata_read_words:
  "length (pending d) \<ge> n \<Longrightarrow> 0 < n \<Longrightarrow>
   read_words ata_env PRIMARY_IO n d =
     (word_bytes (take n (pending d)),
      d\<lparr>pending := drop n (pending d),
        busy_for := (if 256 dvd length (pending d) - n then delay d else 0)\<rparr>)"
proof (induction n arbitrary: d)
  case (Suc n)
  obtain w ws where p: "pending d = w # ws" using Suc.prems by (cases "pending d") auto
  define d' where "d' = d\<lparr>pending := ws, busy_for := (if 256 dvd length ws then delay d else 0)\<rparr>"
  have i: "ata_inw 0x1f0 d = (w, d')" by (simp add: ata_inw_def p d'_def)
  show ?case
  proof (cases "n = 0")
    case True
    then show ?thesis by (simp add: i p d'_def word_bytes_def ata_port_defs)
  next
    case False
    then have "read_words ata_env PRIMARY_IO n d' =
      (word_bytes (take n ws), d\<lparr>pending := drop n ws, busy_for := (if 256 dvd length ws - n then delay d else 0)\<rparr>)"
      using Suc.IH[of d'] Suc.prems p by (simp add: d'_def)
    then show ?thesis using i p by (simp add: word_bytes_def ata_port_defs)
  qed
qed simp

lemma word_byte_pair:
  fixes a b :: u8
  shows "ucast ((ucast a OR push_bit 8 (ucast b) :: u16) AND 0xff) = a"
    "ucast (drop_bit 8 (ucast a OR push_bit 8 (ucast b) :: u16) AND 0xff) = b"
proof -
  have ff: "(0xff :: u16) = mask 8" by (simp add: mask_eq_exp_minus_1)
  show "ucast ((ucast a OR push_bit 8 (ucast b) :: u16) AND 0xff) = a"
    unfolding ff by (rule bit_word_eqI) (auto simp: bit_simps)
  show "ucast (drop_bit 8 (ucast a OR push_bit 8 (ucast b) :: u16) AND 0xff) = b"
    unfolding ff by (rule bit_word_eqI) (auto simp: bit_simps dest: bit_imp_le_length)
qed

lemma word_bytes_sector: "length s = 512 \<Longrightarrow> word_bytes (sector_words s) = s"
proof -
  assume l: "length s = 512"
  have "concat (map (\<lambda>i. [s ! (2 * i), s ! (2 * i + 1)]) [0..<n]) = take (2 * n) s" if "2 * n \<le> length s" for n
    using that by (induction n) (simp_all add: take_Suc_conv_app_nth)
  from this[of 256] l have "concat (map (\<lambda>i. [s ! (2 * i), s ! (2 * i + 1)]) [0..<256]) = s" by simp
  then show ?thesis
    by (simp only: word_bytes_def sector_words_def map_map o_def word_byte_pair drop_bit_0 id_apply)
qed

lemma length_sector_words [simp]: "length (sector_words s) = 256"
  by (simp add: sector_words_def)

lemma length_sectors_words: "length (concat (map (\<lambda>i. sector_words (f i)) xs)) = 256 * length xs"
  by (induction xs) simp_all

lemma ata_read_buffs:
  assumes "medium_ok d" "pending d = concat (map (\<lambda>i. sector_words (medium d i)) [b..<b + n])"
  shows "\<exists>d'. read_buffs ata_env PRIMARY_IO n d = Some (Inr (), map (medium d) [b..<b + n], d')
    \<and> pending d' = [] \<and> medium d' = medium d \<and> delay d' = delay d"
  using assms
proof (induction n arbitrary: b d)
  case (Suc n)
  have r: "[b..<b + Suc n] = b # [Suc b..<Suc b + n]" by (simp add: upt_rec)
  have pend: "pending d = sector_words (medium d b) @ concat (map (\<lambda>i. sector_words (medium d i)) [Suc b..<Suc b + n])"
    using Suc.prems(2) unfolding r by simp
  have "sector_words (medium d b) \<noteq> []" by (simp add: sector_words_def)
  then have rdy: "ata_ready d = 0x48" using pend by (simp add: ata_ready_def)
  define d1 where "d1 = d\<lparr>busy_for := 0\<rparr>"
  have w: "wait_command ata_env PRIMARY_IO ST_DATA_REQUEST_READY d = Some (Inr 0x48, d1)"
    using ata_wait_command[of d ST_DATA_REQUEST_READY] rdy by (simp add: ST_DATA_REQUEST_READY_def d1_def)
  define d2 where "d2 = d\<lparr>pending := concat (map (\<lambda>i. sector_words (medium d i)) [Suc b..<Suc b + n]),
    busy_for := (if 256 dvd length (pending d) - 256 then delay d else 0)\<rparr>"
  have "length (medium d b) = 512" using Suc.prems(1) by (simp add: medium_ok_def)
  then have p: "read_pio_data ata_env PRIMARY_IO d1 = (medium d b, d2)"
    using ata_read_words[of 256 d1] pend
    by (simp add: read_pio_data_def d1_def d2_def word_bytes_sector)
  have "medium_ok d2" using Suc.prems(1) by (simp add: medium_ok_def d2_def)
  then obtain d' where "read_buffs ata_env PRIMARY_IO n d2 = Some (Inr (), map (medium d) [Suc b..<Suc b + n], d')"
    "pending d' = []" "medium d' = medium d" "delay d' = delay d"
    using Suc.IH[of d2 "Suc b"] by (auto simp: d2_def)
  then show ?case unfolding r using w p by simp
qed simp

lemma lba_bytes:
  assumes "lba < 0x1000000"
  shows "unat (of_nat lba :: u8) + 0x100 * unat (of_nat (lba div 0x100) :: u8)
    + 0x10000 * unat (of_nat (lba div 0x10000) :: u8) = lba"
proof -
  have u: "unat (of_nat k :: u8) = k mod 256" for k by (simp add: unat_of_nat)
  have "lba div 256 div 256 = lba div 65536" by (simp flip: div_mult2_eq)
  moreover have "lba div 65536 mod 256 = lba div 65536" using assms by simp
  ultimately have "lba mod 256 + 256 * (lba div 256 mod 256) + 65536 * (lba div 65536 mod 256) = lba"
    using mult_div_mod_eq[of 256 lba] mult_div_mod_eq[of 256 "lba div 256"] by linarith
  then show ?thesis unfolding u .
qed

text \<open>The registers that the driver sets before the command.\<close>

definition ata_setup :: "nat \<Rightarrow> nat \<Rightarrow> ata_dev \<Rightarrow> ata_dev" where
  "ata_setup lba n d = d\<lparr>busy_for := 0, reg_count := of_nat n, reg_lba0 := of_nat lba,
     reg_lba1 := of_nat (lba div 0x100), reg_lba2 := of_nat (lba div 0x10000)\<rparr>"

lemma ide_read_sectors_ata:
  assumes lba: "lba \<le> 0xfffffe" and n: "n \<le> 255" and m: "medium_ok d" and p: "pending d = []"
  shows "\<exists>d'. ide_read_sectors ata_env PRIMARY_IO dr lba n d = Some (Inr (), map (medium d) [lba..<lba + n], d')
    \<and> pending d' = [] \<and> medium d' = medium d"
proof -
  have "ata_outb (device_select PRIMARY_IO) v d = d" for v
    by (simp add: ata_outb_def ata_port_defs)
  then have sel: "ide_select ata_env PRIMARY_IO dr d = d" by (simp add: ide_select_def)
  have w0: "wait_command ata_env PRIMARY_IO 0 d = Some (Inr 0x40, d\<lparr>busy_for := 0\<rparr>)"
    using p by (simp add: ata_wait_command ata_ready_def)
  define e where "e = ata_setup lba n d"
  have "wait_command ata_env PRIMARY_IO ST_DRIVE_READY e = Some (Inr 0x40, e)"
    using p by (simp add: ata_wait_command ata_ready_def ST_DRIVE_READY_def e_def ata_setup_def)
  moreover have "ata_outb (lba2_port PRIMARY_IO) (of_nat (lba div 0x10000))
      (ata_outb (lba1_port PRIMARY_IO) (of_nat (lba div 0x100)) (ata_outb (lba0_port PRIMARY_IO) (of_nat lba)
      (ata_outb (seccount0 PRIMARY_IO) (of_nat n) (ata_outb (error_features PRIMARY_IO) 0 (d\<lparr>busy_for := 0\<rparr>))))) = e"
    by (simp add: e_def ata_setup_def ata_outb_def ata_port_defs)
  ultimately have run: "ide_read_sectors ata_env PRIMARY_IO dr lba n d =
      read_buffs ata_env PRIMARY_IO n (ata_outb (command_status PRIMARY_IO) CMD_READ_PIO e)"
    using lba n by (simp add: ide_read_sectors_def sel w0)
  have "unat (of_nat n :: u8) = n" using n by (simp add: unat_of_nat)
  moreover have "dev_lba e = lba" using lba_bytes[of lba] lba by (simp add: dev_lba_def e_def ata_setup_def)
  ultimately have "pending (ata_outb (command_status PRIMARY_IO) CMD_READ_PIO e) =
      concat (map (\<lambda>i. sector_words (medium d (lba + i))) [0..<n])"
    and m': "medium (ata_outb (command_status PRIMARY_IO) CMD_READ_PIO e) = medium d"
    by (simp_all add: ata_outb_def ata_port_defs CMD_READ_PIO_def e_def ata_setup_def)
  moreover have "map (\<lambda>i. sector_words (medium d (lba + i))) [0..<n] = map (\<lambda>i. sector_words (medium d i)) [lba..<lba + n]"
    by (rule nth_equalityI) simp_all
  ultimately show ?thesis
    using ata_read_buffs[of "ata_outb (command_status PRIMARY_IO) CMD_READ_PIO e" lba n] m
    unfolding run medium_ok_def by metis
qed

text \<open>A drive is open at most once: the second \<open>open\<close> fails until the first handle is dropped.\<close>

lemma busyness_set [simp]:
  "busyness d (set_busyness d' b c) = (if d = d' then b else busyness d c)"
  by (cases d; cases d') (simp_all add: busyness_def set_busyness_def)

lemma ide_open_exclusive:
  assumes "ide_open d c = (Inr h, c')"
  shows "h = d" "\<not> busyness d c" "fst (ide_open d c') = Inl DriveBusy"
    "fst (ide_open d (ide_drive_drop h c')) = Inr d"
  using assms by (auto simp: ide_open_def ide_drive_drop_def Let_def split: if_splits)

end
