(* ===== verification/Mbr.thy ===== *)
theory Mbr
  imports Ide
begin

text \<open>
  Partitions of the master boot record: \<open>kernel/src/device/mbr.rs\<close>.

  The shared drive of the code is a \<open>drive\<close> here; its channel is the argument of the driver.  The
  \<open>transmute\<close> of the boot sector to a packed structure reads little-endian fields at fixed offsets.
  Sums that overflow \<open>usize\<close> panic, as does every read beyond the partition, so naturals are exact.
\<close>

section \<open>Little-endian fields\<close>

definition le16 :: "u8 list \<Rightarrow> nat \<Rightarrow> nat" where
  "le16 bs i = unat (bs ! i) + 0x100 * unat (bs ! (i + 1))"

definition le32 :: "u8 list \<Rightarrow> nat \<Rightarrow> nat" where
  "le32 bs i = le16 bs i + 0x10000 * le16 bs (i + 2)"

definition put16 :: "nat \<Rightarrow> u8 list" where
  "put16 n = [of_nat n, of_nat (n div 0x100)]"

definition put32 :: "nat \<Rightarrow> u8 list" where
  "put32 n = put16 n @ put16 (n div 0x10000)"

lemma length_put [simp]: "length (put16 n) = 2" "length (put32 n) = 4"
  by (simp_all add: put16_def put32_def)

lemma le16_bound: "le16 bs i < 0x10000"
proof -
  have "unat (bs ! i) < 256" "unat (bs ! (i + 1)) < 256"
    using unsigned_less[of "bs ! i", where ?'a = nat] unsigned_less[of "bs ! (i + 1)", where ?'a = nat] by simp_all
  then show ?thesis by (simp add: le16_def)
qed

lemma le16_put16:
  assumes "n < 0x10000" "length pre = i"
  shows "le16 (pre @ put16 n @ post) i = n"
proof -
  have "unat (of_nat k :: u8) = k mod 256" for k by (simp add: unat_of_nat)
  moreover have "n div 256 mod 256 = n div 256" using assms(1) by simp
  ultimately show ?thesis
    using assms(2) by (simp add: le16_def put16_def nth_append del: mod_less)
qed

lemma le32_put32:
  assumes "n < 0x100000000" "length pre = i"
  shows "le32 (pre @ put32 n @ post) i = n"
proof -
  have "n mod 65536 mod 256 = n mod 256" by (simp add: mod_mod_cancel)
  moreover have "n mod 65536 div 256 = n div 256 mod 256"
    using mod_mult2_eq[of n 256 256] by simp
  ultimately have "put16 n = put16 (n mod 0x10000)"
    by (simp add: put16_def word_unat_eq_iff unat_of_nat)
  then have "le16 (pre @ put32 n @ post) i = n mod 0x10000"
    using le16_put16[of "n mod 0x10000" pre i "put16 (n div 0x10000) @ post"] assms(2) by (simp add: put32_def)
  moreover have "le16 (pre @ put32 n @ post) (i + 2) = n div 0x10000"
    using le16_put16[of "n div 0x10000" "pre @ put16 n" "i + 2" post] assms by (simp add: put32_def)
  ultimately show ?thesis by (simp add: le32_def)
qed

section \<open>Boot record and partitions\<close>

record mbr_entry =
  status :: u8
  chs_first :: "u8 \<times> u8 \<times> u8"
  entry_type :: u8
  chs_last :: "u8 \<times> u8 \<times> u8"
  e_lba :: nat
  e_sectors :: nat

record partition =
  part_drive :: drive
  part_number :: nat
  part_lba :: nat
  part_sectors :: nat

definition mbr_entry_at :: "sector \<Rightarrow> nat \<Rightarrow> mbr_entry" where
  "mbr_entry_at bs k = (let o0 = 0x1be + 16 * k in
     \<lparr>status = bs ! o0, chs_first = (bs ! (o0 + 1), bs ! (o0 + 2), bs ! (o0 + 3)), entry_type = bs ! (o0 + 4),
      chs_last = (bs ! (o0 + 5), bs ! (o0 + 6), bs ! (o0 + 7)),
      e_lba = le32 bs (o0 + 8), e_sectors = le32 bs (o0 + 12)\<rparr>)"

definition mbr_partitions :: "'d ide_env \<Rightarrow> ide_io \<Rightarrow> drive \<Rightarrow> 'd
    \<Rightarrow> ((ata_error + partition option list) \<times> 'd) option" where
  "mbr_partitions env io drv d = do {
     (r, buffs, d) \<leftarrow> ide_read_sectors env io drv 0 1 d;
     (case r of
        Inl e \<Rightarrow> Some (Inl e, d)
      | Inr _ \<Rightarrow> Some (Inr (map (\<lambda>idx. let part = mbr_entry_at (buffs ! 0) idx in
          if status part AND 0x80 \<noteq> 0
          then Some \<lparr>part_drive = drv, part_number = idx, part_lba = e_lba part, part_sectors = e_sectors part\<rparr>
          else None) [0..<4]), d)) }"

definition partition_read_sectors :: "'d ide_env \<Rightarrow> ide_io \<Rightarrow> partition \<Rightarrow> nat \<Rightarrow> nat \<Rightarrow> 'd
    \<Rightarrow> ((ata_error + unit) \<times> sector list \<times> 'd) option" where
  "partition_read_sectors env io p lba count d =
     (if lba + count > part_sectors p then None
      else ide_read_sectors env io (part_drive p) (lba + part_lba p) count d)"

text \<open>The layout of an entry on the disk.\<close>

definition put_entry :: "mbr_entry \<Rightarrow> u8 list" where
  "put_entry e = (case (chs_first e, chs_last e) of ((a, b, c), (x, y, z)) \<Rightarrow>
     [status e, a, b, c, entry_type e, x, y, z] @ put32 (e_lba e) @ put32 (e_sectors e))"

lemma length_put_entry [simp]: "length (put_entry e) = 16"
  by (simp add: put_entry_def split: prod.splits)

lemma mbr_entry_roundtrip:
  assumes "length pre = 0x1be + 16 * k" "e_lba e < 0x100000000" "e_sectors e < 0x100000000"
  shows "mbr_entry_at (pre @ put_entry e @ post) k = e"
proof -
  obtain s a b c t x y z l n where e: "e = \<lparr>status = s, chs_first = (a, b, c), entry_type = t,
      chs_last = (x, y, z), e_lba = l, e_sectors = n\<rparr>"
    by (metis mbr_entry.cases prod_cases3)
  have "le32 (pre @ put_entry e @ post) (0x1be + 16 * k + 8) = l"
    using le32_put32[of l "pre @ [s, a, b, c, t, x, y, z]" "0x1be + 16 * k + 8" "put32 n @ post"] assms e
    by (simp add: put_entry_def)
  moreover have "le32 (pre @ put_entry e @ post) (0x1be + 16 * k + 12) = n"
    using le32_put32[of n "pre @ [s, a, b, c, t, x, y, z] @ put32 l" "0x1be + 16 * k + 12" post] assms e
    by (simp add: put_entry_def)
  moreover have nth: "(pre @ put_entry e @ post) ! (0x1be + 16 * k + i) = ([s, a, b, c, t, x, y, z] @ put32 l @ put32 n @ post) ! i" for i
    using assms(1) e by (simp add: put_entry_def nth_append)
  ultimately show ?thesis
    unfolding mbr_entry_at_def Let_def nth nth[of 0, simplified add_0_right] using e by simp
qed

lemma mbr_entries_roundtrip:
  assumes "length pad = 0x1be" "k < length es"
    "\<And>e. e \<in> set es \<Longrightarrow> e_lba e < 0x100000000 \<and> e_sectors e < 0x100000000"
  shows "mbr_entry_at (pad @ concat (map put_entry es) @ post) k = es ! k"
proof -
  have len: "length (concat (map put_entry xs)) = 16 * length xs" for xs by (induction xs) simp_all
  have "es = take k es @ es ! k # drop (Suc k) es" using assms(2) by (rule id_take_nth_drop)
  then have "pad @ concat (map put_entry es) @ post
      = (pad @ concat (map put_entry (take k es))) @ put_entry (es ! k) @ concat (map put_entry (drop (Suc k) es)) @ post"
    by (metis append.assoc concat.simps(2) concat_append list.simps(9) map_append)
  then show ?thesis
    using mbr_entry_roundtrip[of "pad @ concat (map put_entry (take k es))" k "es ! k"] assms len[of "take k es"]
    by simp
qed

definition active_partition :: "drive \<Rightarrow> nat \<Rightarrow> mbr_entry \<Rightarrow> partition option" where
  "active_partition drv idx e = (if status e AND 0x80 \<noteq> 0
     then Some \<lparr>part_drive = drv, part_number = idx, part_lba = e_lba e, part_sectors = e_sectors e\<rparr> else None)"

text \<open>The partition table round trip.  On a drive whose boot sector holds four table entries (each
  laid out as \<open>put_entry\<close>), \<open>Mbr::partitions\<close> finishes without an error and returns, in order, exactly the
  entries marked active, with the first sector and the number of sectors that were stored.\<close>

lemma mbr_partitions_roundtrip:
  assumes "medium_ok d" "pending d = []"
    and "medium d 0 = pad @ concat (map put_entry [e0, e1, e2, e3]) @ post" "length pad = 0x1be"
    and "list_all (\<lambda>e. e_lba e < 0x100000000 \<and> e_sectors e < 0x100000000) [e0, e1, e2, e3]"
  shows "\<exists>d'. mbr_partitions ata_env PRIMARY_IO drv d =
      Some (Inr [active_partition drv 0 e0, active_partition drv 1 e1, active_partition drv 2 e2,
        active_partition drv 3 e3], d') \<and> pending d' = [] \<and> medium d' = medium d"
proof -
  obtain d' where rd: "ide_read_sectors ata_env PRIMARY_IO drv 0 1 d = Some (Inr (), [medium d 0], d')"
    and d': "pending d' = []" "medium d' = medium d"
    using ide_read_sectors_ata[of 0 1 d drv] assms(1,2) by auto
  have "mbr_entry_at (medium d 0) k = [e0, e1, e2, e3] ! k" if "k < 4" for k
    unfolding assms(3) using mbr_entries_roundtrip[of pad k "[e0, e1, e2, e3]" post] assms(4,5) that by (auto simp: list_all_iff)
  from this[of 0] this[of 1] this[of 2] this[of 3] show ?thesis
    using rd d' by (simp add: mbr_partitions_def active_partition_def Let_def upt_rec numeral_2_eq_2 numeral_3_eq_3)
qed

definition sample_entry :: "u8 \<Rightarrow> nat \<Rightarrow> nat \<Rightarrow> mbr_entry" where
  "sample_entry st l n = \<lparr>status = st, chs_first = (0, 0, 0), entry_type = 6, chs_last = (0, 0, 0),
     e_lba = l, e_sectors = n\<rparr>"

definition sample_table :: "sector" where
  "sample_table = replicate 0x1be 0 @ concat (map put_entry
     [sample_entry 0x80 2048 40000, sample_entry 0 0 0, sample_entry 0 0 0, sample_entry 0 0 0]) @ [0x55, 0xaa]"

definition sample_disk :: ata_dev where
  "sample_disk = \<lparr>medium = (\<lambda>i. if i = 0 then sample_table else replicate 512 0), delay = 3, busy_for = 2,
     reg_count = 0, reg_lba0 = 0, reg_lba1 = 0, reg_lba2 = 0, pending = []\<rparr>"

lemma sample_disk_ok: "medium_ok sample_disk" "pending sample_disk = []" "medium sample_disk 0 = sample_table"
  by (simp_all add: medium_ok_def sample_disk_def sample_table_def)

lemma mbr_partitions_roundtrip_witness:
  "\<exists>d'. mbr_partitions ata_env PRIMARY_IO DriveA sample_disk =
      Some (Inr [Some \<lparr>part_drive = DriveA, part_number = 0, part_lba = 2048, part_sectors = 40000\<rparr>,
        None, None, None], d')"
  using mbr_partitions_roundtrip[OF sample_disk_ok(1,2) sample_disk_ok(3)[unfolded sample_table_def], of DriveA]
  by (auto simp: active_partition_def sample_entry_def)

text \<open>A partition confines its reads.  \<open>Partition::read_sectors\<close> on a drive that answers returns the
  sectors of the disk from the partition's start plus the requested address exactly if they lie
  within the partition (and are at most 255), and panics otherwise: no sector outside the partition is ever returned.\<close>

lemma partition_read_confined:
  assumes "medium_ok d" "pending d = []" "0 < n" "part_lba p + part_sectors p \<le> 0xffffff"
  shows "if lba + n \<le> part_sectors p \<and> n \<le> 255
    then \<exists>d'. partition_read_sectors ata_env PRIMARY_IO p lba n d =
        Some (Inr (), map (\<lambda>i. medium d (part_lba p + i)) [lba..<lba + n], d') \<and> pending d' = [] \<and> medium d' = medium d
    else partition_read_sectors ata_env PRIMARY_IO p lba n d = None"
proof (cases "lba + n \<le> part_sectors p \<and> n \<le> 255")
  case True
  have "map (medium d) [lba + part_lba p..<lba + part_lba p + n] = map (\<lambda>i. medium d (part_lba p + i)) [lba..<lba + n]"
    by (rule nth_equalityI) (simp_all add: algebra_simps)
  then show ?thesis
    using ide_read_sectors_ata[of "lba + part_lba p" n d "part_drive p"] True assms
    by (simp add: partition_read_sectors_def)
next
  case False
  then show ?thesis by (auto simp: partition_read_sectors_def ide_read_sectors_def)
qed

lemma partition_read_confined_witness:
  "\<exists>d'. partition_read_sectors ata_env PRIMARY_IO
      \<lparr>part_drive = DriveA, part_number = 0, part_lba = 0, part_sectors = 10\<rparr> 0 2 sample_disk
    = Some (Inr (), [sample_table, replicate 512 0], d')"
  using partition_read_confined[OF sample_disk_ok(1,2), of 2
      "\<lparr>part_drive = DriveA, part_number = 0, part_lba = 0, part_sectors = 10\<rparr>" 0]
  by (auto simp: sample_disk_def upt_rec)

end
