(* ===== verification/Fat16.thy ===== *)
theory Fat16
  imports Mbr Interface
begin

text \<open>
  The FAT16 file system: \<open>kernel/src/fs/fat16.rs\<close>.

  The code reads one sector at a time from its partition and allocates shared objects; both are the
  argument \<open>fe\<close> of the operations: \<open>rd\<close> is \<open>Partition::read_sectors\<close> into one buffer, \<open>alloc\<close> is
  an allocation (\<open>Arc::new\<close>, or the queue entry of \<open>AsyncMutex::lock\<close>) that may be refused, \<open>attr_truncate\<close> and
  \<open>attr_contains\<close> are \<open>from_bits_truncate\<close> and \<open>contains\<close> of the third-party crate \<open>bitflags\<close>.  A
  panic, and a stream that never yields, are \<open>None\<close>.  Streams are lazy in the code, so they are
  modelled by their state and a function that pulls the next item.
\<close>

section \<open>Parameters and errors\<close>

record 'd fat_env =
  rd :: "partition \<Rightarrow> nat \<Rightarrow> 'd \<Rightarrow> ((ata_error + sector) \<times> 'd) option"
  alloc :: "'d \<Rightarrow> bool \<times> 'd"
  attr_truncate :: "u8 \<Rightarrow> u8 \<Rightarrow> u8"
  attr_contains :: "u8 \<Rightarrow> u8 \<Rightarrow> bool"

definition DIR_ENTRY_SIZE :: nat where "DIR_ENTRY_SIZE = 32"
definition SECTOR_SIZE :: nat where "SECTOR_SIZE = 512"

datatype fat_error = FatMemoryExhausted | FatAta ata_error

definition fat_error_sys :: "fat_error \<Rightarrow> sys_error" where
  "fat_error_sys e = (case e of FatMemoryExhausted \<Rightarrow> SysMemoryExhausted | FatAta _ \<Rightarrow> SysIoError)"

section \<open>The BIOS parameter block\<close>

record bios_parameter_block =
  bytes_per_sector :: nat
  bpb_sectors_per_cluster :: nat
  reserved_sector_count :: nat
  fat_count :: nat
  root_directory_entry_count :: nat
  total_sector_count :: nat
  media_descriptor_type :: nat
  sectors_per_fat :: nat

definition first_fat_sector :: "bios_parameter_block \<Rightarrow> nat" where
  "first_fat_sector b = reserved_sector_count b"

definition fat_sector_count :: "bios_parameter_block \<Rightarrow> nat" where
  "fat_sector_count b = sectors_per_fat b"

definition all_fats_sector_count :: "bios_parameter_block \<Rightarrow> nat" where
  "all_fats_sector_count b = fat_count b * fat_sector_count b"

definition first_root_dir_sector :: "bios_parameter_block \<Rightarrow> nat" where
  "first_root_dir_sector b = first_fat_sector b + all_fats_sector_count b"

definition root_dir_sector_count :: "bios_parameter_block \<Rightarrow> nat" where
  "root_dir_sector_count b = root_directory_entry_count b * DIR_ENTRY_SIZE div SECTOR_SIZE"

definition sectors_per_cluster :: "bios_parameter_block \<Rightarrow> nat" where
  "sectors_per_cluster b = bpb_sectors_per_cluster b"

text \<open>The subtraction panics for the reserved cluster numbers 0 and 1.\<close>

definition first_cluster_sector :: "bios_parameter_block \<Rightarrow> nat \<Rightarrow> nat option" where
  "first_cluster_sector b cluster_number =
     (let clusters_base = first_root_dir_sector b + root_dir_sector_count b in
      if cluster_number < 2 then None
      else Some (clusters_base + (cluster_number - 2) * sectors_per_cluster b))"

definition cluster_sectors :: "bios_parameter_block \<Rightarrow> nat \<Rightarrow> nat list option" where
  "cluster_sectors b cluster_number = do {
     first \<leftarrow> first_cluster_sector b cluster_number;
     let count = sectors_per_cluster b;
     Some [first..<first + count] }"

definition bpb_of_sector :: "sector \<Rightarrow> bios_parameter_block" where
  "bpb_of_sector bs = \<lparr>bytes_per_sector = le16 bs 0xb, bpb_sectors_per_cluster = unat (bs ! 0xd),
     reserved_sector_count = le16 bs 0xe, fat_count = unat (bs ! 0x10),
     root_directory_entry_count = le16 bs 0x11, total_sector_count = le16 bs 0x13,
     media_descriptor_type = unat (bs ! 0x15), sectors_per_fat = le16 bs 0x16\<rparr>"

definition bpb_read :: "'d fat_env \<Rightarrow> partition \<Rightarrow> 'd \<Rightarrow> ((ata_error + bios_parameter_block) \<times> 'd) option" where
  "bpb_read fe part d = do {
     (r, d) \<leftarrow> rd fe part 0 d;
     (case r of Inl e \<Rightarrow> Some (Inl e, d) | Inr buff \<Rightarrow> Some (Inr (bpb_of_sector buff), d)) }"

section \<open>Directory entries\<close>

record raw_dir_entry =
  basename :: "u8 list"
  extension :: "u8 list"
  raw_attributes :: u8
  create_tenths :: u8
  create_time :: nat
  create_date :: nat
  access_date :: nat
  cluster_hi :: nat
  modify_time :: nat
  modify_date :: nat
  cluster_lo :: nat
  file_size :: nat

definition raw_dir_entry_at :: "sector \<Rightarrow> nat \<Rightarrow> raw_dir_entry" where
  "raw_dir_entry_at bs k = (let o0 = DIR_ENTRY_SIZE * k in
     \<lparr>basename = take 8 (drop o0 bs), extension = take 3 (drop (o0 + 8) bs), raw_attributes = bs ! (o0 + 11),
      create_tenths = bs ! (o0 + 13), create_time = le16 bs (o0 + 14), create_date = le16 bs (o0 + 16),
      access_date = le16 bs (o0 + 18), cluster_hi = le16 bs (o0 + 20), modify_time = le16 bs (o0 + 22),
      modify_date = le16 bs (o0 + 24), cluster_lo = le16 bs (o0 + 26), file_size = le32 bs (o0 + 28)\<rparr>)"

definition ATTR_DIRECTORY :: u8 where "ATTR_DIRECTORY = 0x10"
definition ATTR_ALL :: u8 where "ATTR_ALL = 0x3f"

definition attributes :: "'d fat_env \<Rightarrow> raw_dir_entry \<Rightarrow> u8" where
  "attributes fe e = attr_truncate fe ATTR_ALL (raw_attributes e)"

definition to_ascii_lowercase :: "u8 \<Rightarrow> u8" where
  "to_ascii_lowercase b = (if 0x41 \<le> b \<and> b \<le> 0x5a then b + 0x20 else b)"

definition filename :: "raw_dir_entry \<Rightarrow> u8 list" where
  "filename e =
     (let name = trim_spaces (map to_ascii_lowercase (basename e)) in
      if extension e ! 0 \<noteq> 0x20
      then trim_spaces (name @ [0x2e] @ map to_ascii_lowercase (extension e))
      else name)"

definition first_cluster :: "raw_dir_entry \<Rightarrow> nat" where
  "first_cluster e = (cluster_lo e) OR (push_bit 16 (cluster_hi e))"

record filesystem =
  fs_part :: partition
  fs_bpb :: bios_parameter_block

datatype dir_entry = DirEntry (entry_fs: filesystem) (entry_parent: "dir_entry option") (dirent: raw_dir_entry)

datatype directory_kind = Root | Sub dir_entry

record directory =
  dir_fs :: filesystem
  dir_kind :: directory_kind

definition fat16_open :: "'d fat_env \<Rightarrow> partition \<Rightarrow> 'd \<Rightarrow> ((fat_error + filesystem) \<times> 'd) option" where
  "fat16_open fe part d = do {
     (r, d) \<leftarrow> bpb_read fe part d;
     (case r of
        Inl e \<Rightarrow> Some (Inl (FatAta e), d)
      | Inr b \<Rightarrow> (case alloc fe d of (ok, d) \<Rightarrow>
          Some (if ok then Inr \<lparr>fs_part = part, fs_bpb = b\<rparr> else Inl FatMemoryExhausted, d))) }"

definition fat16_root :: "filesystem \<Rightarrow> directory" where
  "fat16_root fs = \<lparr>dir_fs = fs, dir_kind = Root\<rparr>"

section \<open>Cluster chains\<close>

definition next_cluster :: "'d fat_env \<Rightarrow> filesystem \<Rightarrow> nat \<Rightarrow> 'd \<Rightarrow> ((ata_error + nat option) \<times> 'd) option" where
  "next_cluster fe fs cluster d =
     (let fat_entry_size = 2;
          max_cluster = fat_sector_count (fs_bpb fs) * SECTOR_SIZE div fat_entry_size in
      if cluster \<ge> max_cluster then None
      else
        let fat_entry_offset = cluster * fat_entry_size;
            fat_sector = first_fat_sector (fs_bpb fs) + fat_entry_offset div SECTOR_SIZE;
            sector_offset = fat_entry_offset mod SECTOR_SIZE in do {
        (r, d) \<leftarrow> rd fe (fs_part fs) fat_sector d;
        (case r of
           Inl e \<Rightarrow> Some (Inl e, d)
         | Inr buff \<Rightarrow>
             let nxt = le16 buff sector_offset in
             if nxt \<ge> 0xfff8 then Some (Inr None, d)
             else if nxt = 0xfff7 then None
             else Some (Inr (Some nxt), d)) })"

text \<open>One pull of the stream \<open>cluster_chain\<close>.  Its state is the cluster to look at; the operator \<open>?\<close> on
  the transposed result ends the stream, before the cluster is yielded, when it has no successor.\<close>

definition cluster_chain_next :: "'d fat_env \<Rightarrow> filesystem \<Rightarrow> nat option \<Rightarrow> 'd
    \<Rightarrow> (((ata_error + nat) \<times> nat option) option \<times> 'd) option" where
  "cluster_chain_next fe fs st d =
     (case st of
        None \<Rightarrow> Some (None, d)
      | Some cluster \<Rightarrow> do {
          (r, d) \<leftarrow> next_cluster fe fs cluster d;
          (case r of
             Inr None \<Rightarrow> Some (None, d)
           | Inr (Some nxt) \<Rightarrow> Some (Some (Inr cluster, Some nxt), d)
           | Inl e \<Rightarrow> Some (Some (Inl e, None), d)) })"

text \<open>The stream \<open>sector_chain\<close> flattens the ranges of the clusters: its state is the rest of the current
  range and the state of the cluster stream.\<close>

partial_function (option) sector_chain_next :: "'d fat_env \<Rightarrow> filesystem \<Rightarrow> nat list \<Rightarrow> nat option \<Rightarrow> 'd
    \<Rightarrow> (((ata_error + nat) \<times> nat list \<times> nat option) option \<times> 'd) option" where
  "sector_chain_next fe fs cur st d =
     (case cur of
        s # cur \<Rightarrow> Some (Some (Inr s, cur, st), d)
      | [] \<Rightarrow> Option.bind (cluster_chain_next fe fs st d) (\<lambda>(r, d).
          case r of
             None \<Rightarrow> Some (None, d)
           | Some (Inl e, st) \<Rightarrow> Some (Some (Inl e, [], st), d)
           | Some (Inr c, st) \<Rightarrow> Option.bind (cluster_sectors (fs_bpb fs) c) (\<lambda>sectors.
               sector_chain_next fe fs sectors st d)))"

section \<open>Directories\<close>

text \<open>The sectors of a directory: a range, or the chain of its clusters.\<close>

definition directory_sectors :: "directory \<Rightarrow> nat list \<times> nat option" where
  "directory_sectors dir =
     (case dir_kind dir of
        Root \<Rightarrow>
          let first_sector = first_root_dir_sector (fs_bpb (dir_fs dir));
              sector_count = root_dir_sector_count (fs_bpb (dir_fs dir)) in
          ([first_sector..<first_sector + sector_count], None)
      | Sub e \<Rightarrow> ([], Some (first_cluster (dirent e))))"

definition read_raw_entries_from_sector :: "'d fat_env \<Rightarrow> filesystem \<Rightarrow> nat \<Rightarrow> 'd
    \<Rightarrow> ((fat_error + raw_dir_entry list) \<times> 'd) option" where
  "read_raw_entries_from_sector fe fs sector d = do {
     (r, d) \<leftarrow> rd fe (fs_part fs) sector d;
     (case r of
        Inl e \<Rightarrow> Some (Inl (FatAta e), d)
      | Inr buff \<Rightarrow> Some (Inr (map (raw_dir_entry_at buff) [0..<16]), d)) }"

text \<open>The stream \<open>read_entries\<close>: the rest of the entries of the current sector, the sector stream, and
  the end of \<open>take_while\<close>, which is the end of the stream.\<close>

type_synonym entries_state = "raw_dir_entry list \<times> nat list \<times> nat option"

partial_function (option) read_entries_next :: "'d fat_env \<Rightarrow> filesystem \<Rightarrow> raw_dir_entry list \<Rightarrow> nat list \<Rightarrow> nat option
    \<Rightarrow> 'd \<Rightarrow> (((fat_error + raw_dir_entry) \<times> entries_state) option \<times> 'd) option" where
  "read_entries_next fe fs es cur st d =
     (case es of
        entry # es \<Rightarrow>
          if basename entry ! 0 = 0xef then read_entries_next fe fs es cur st d
          else if basename entry ! 0 = 0 then Some (None, d)
          else Some (Some (Inr entry, es, cur, st), d)
      | [] \<Rightarrow> Option.bind (sector_chain_next fe fs cur st d) (\<lambda>(r, d).
          case r of
             None \<Rightarrow> Some (None, d)
           | Some (Inl e, cur, st) \<Rightarrow> Some (Some (Inl (FatAta e), [], cur, st), d)
           | Some (Inr sector, cur, st) \<Rightarrow>
               Option.bind (read_raw_entries_from_sector fe fs sector d) (\<lambda>(r, d).
                 case r of
                    Inl e \<Rightarrow> Some (Some (Inl e, [], cur, st), d)
                  | Inr raw_entries \<Rightarrow> read_entries_next fe fs raw_entries cur st d)))"

definition dir_entry_new :: "'d fat_env \<Rightarrow> filesystem \<Rightarrow> dir_entry option \<Rightarrow> raw_dir_entry \<Rightarrow> 'd
    \<Rightarrow> (fat_error + dir_entry) \<times> 'd" where
  "dir_entry_new fe fs parent raw d =
     (case alloc fe d of (ok, d) \<Rightarrow> (if ok then Inr (DirEntry fs parent raw) else Inl FatMemoryExhausted, d))"

definition entries_next :: "'d fat_env \<Rightarrow> directory \<Rightarrow> entries_state \<Rightarrow> 'd
    \<Rightarrow> (((fat_error + dir_entry) \<times> entries_state) option \<times> 'd) option" where
  "entries_next fe dir state d = (case state of (es, cur, st) \<Rightarrow> do {
     (r, d) \<leftarrow> read_entries_next fe (dir_fs dir) es cur st d;
     (case r of
        None \<Rightarrow> Some (None, d)
      | Some (Inl e, state) \<Rightarrow> Some (Some (Inl e, state), d)
      | Some (Inr raw, state) \<Rightarrow>
          let parent = (case dir_kind dir of Root \<Rightarrow> None | Sub e \<Rightarrow> Some e) in
          case dir_entry_new fe (dir_fs dir) parent raw d of (r, d) \<Rightarrow> Some (Some (r, state), d)) })"

definition dir_entry_name :: "dir_entry \<Rightarrow> u8 list" where
  "dir_entry_name e = filename (dirent e)"

text \<open>The search prints both names, and panics if one of them is not UTF-8.\<close>

partial_function (option) entry_loop :: "'d fat_env \<Rightarrow> directory \<Rightarrow> u8 list \<Rightarrow> entries_state \<Rightarrow> 'd
    \<Rightarrow> ((fat_error + dir_entry option) \<times> 'd) option" where
  "entry_loop fe dir name state d =
     Option.bind (entries_next fe dir state d) (\<lambda>(r, d).
       case r of
          None \<Rightarrow> Some (Inr None, d)
        | Some (Inl e, state) \<Rightarrow> Some (Inl e, d)
        | Some (Inr entry, state) \<Rightarrow>
            if \<not> isl (from_utf8 (dir_entry_name entry)) \<and> \<not> isl (from_utf8 name) then
              if dir_entry_name entry = name then Some (Inr (Some entry), d)
              else entry_loop fe dir name state d
            else None)"

definition directory_entry :: "'d fat_env \<Rightarrow> directory \<Rightarrow> u8 list \<Rightarrow> 'd
    \<Rightarrow> ((fat_error + dir_entry option) \<times> 'd) option" where
  "directory_entry fe dir name d = entry_loop fe dir name ([], directory_sectors dir) d"

section \<open>Files\<close>

record seek =
  seek_cluster :: "nat option"
  seek_sector :: nat
  seek_offset :: nat

record fat_file =
  file_fs :: filesystem
  file_dirent :: dir_entry
  file_seek :: seek

datatype open_result = FatFile fat_file | FatDir directory

definition is_dir :: "'d fat_env \<Rightarrow> dir_entry \<Rightarrow> bool" where
  "is_dir fe e = attr_contains fe (attributes fe (dirent e)) ATTR_DIRECTORY"

definition dir_entry_open :: "'d fat_env \<Rightarrow> dir_entry \<Rightarrow> fat_error + open_result" where
  "dir_entry_open fe e =
     (let fs = entry_fs e in
      if is_dir fe e then Inr (FatDir \<lparr>dir_fs = fs, dir_kind = Sub e\<rparr>)
      else
        let seek = \<lparr>seek_cluster = Some (first_cluster (dirent e)), seek_sector = 0, seek_offset = 0\<rparr> in
        Inr (FatFile \<lparr>file_fs = fs, file_dirent = e, file_seek = seek\<rparr>))"

text \<open>The head of the loop of \<open>File::read\<close>: the position moves on to the next sector and the next cluster.\<close>

definition seek_advance :: "'d fat_env \<Rightarrow> filesystem \<Rightarrow> seek \<Rightarrow> 'd \<Rightarrow> ((fat_error + unit) \<times> seek \<times> 'd) option" where
  "seek_advance fe fs seek d =
     (let seek = (if seek_offset seek = SECTOR_SIZE
                  then seek\<lparr>seek_offset := 0, seek_sector := seek_sector seek + 1\<rparr> else seek) in
      if seek_sector seek = sectors_per_cluster (fs_bpb fs) then
        let seek = seek\<lparr>seek_sector := 0\<rparr> in
        (case seek_cluster seek of
           None \<Rightarrow> Some (Inr (), seek, d)
         | Some cluster \<Rightarrow> do {
             (r, d) \<leftarrow> next_cluster fe fs cluster d;
             (case r of
                Inl e \<Rightarrow> Some (Inl (FatAta e), seek, d)
              | Inr nxt \<Rightarrow> Some (Inr (), seek\<lparr>seek_cluster := nxt\<rparr>, d)) })
      else Some (Inr (), seek, d))"

text \<open>The loop of \<open>File::read\<close>: \<open>n\<close> is the length of the buffer that is left.  The result is the outcome
  (an error or \<open>total_read\<close>), the bytes copied to the front of the buffer, the new position and the device; an offset beyond the sector makes the subtraction panic.\<close>

function file_read_loop :: "'d fat_env \<Rightarrow> filesystem \<Rightarrow> nat \<Rightarrow> seek \<Rightarrow> 'd
    \<Rightarrow> ((fat_error + nat) \<times> u8 list \<times> seek \<times> 'd) option" where
  "file_read_loop fe fs n seek d =
     (if n = 0 then Some (Inr 0, [], seek, d)
      else do {
        (r, seek, d) \<leftarrow> seek_advance fe fs seek d;
        (case r of
           Inl e \<Rightarrow> Some (Inl e, [], seek, d)
         | Inr _ \<Rightarrow>
             (case seek_cluster seek of
                None \<Rightarrow> Some (Inr 0, [], seek, d)
              | Some cluster \<Rightarrow> do {
                  first \<leftarrow> first_cluster_sector (fs_bpb fs) cluster;
                  (r, d) \<leftarrow> rd fe (fs_part fs) (first + seek_sector seek) d;
                  (case r of
                     Inl e \<Rightarrow> Some (Inl (FatAta e), [], seek, d)
                   | Inr sector_buff \<Rightarrow>
                       if SECTOR_SIZE \<le> seek_offset seek then None
                       else
                         let byte_count = min (SECTOR_SIZE - seek_offset seek) n;
                             bytes = take byte_count (drop (seek_offset seek) sector_buff) in
                         map_option (\<lambda>(r, bs, seek, d). (map_sum id ((+) byte_count) r, bytes @ bs, seek, d))
                           (file_read_loop fe fs (n - byte_count)
                             (seek\<lparr>seek_offset := seek_offset seek + byte_count\<rparr>) d)) })) })"
  by pat_completeness auto
termination by (relation "measure (\<lambda>(fe, fs, n, seek, d). n)") auto

declare file_read_loop.simps [simp del]

definition file_read :: "'d fat_env \<Rightarrow> fat_file \<Rightarrow> nat \<Rightarrow> 'd
    \<Rightarrow> ((fat_error + nat) \<times> u8 list \<times> fat_file \<times> 'd) option" where
  "file_read fe f n d =
     (case alloc fe d of (ok, d) \<Rightarrow>
        if \<not> ok then Some (Inl FatMemoryExhausted, [], f, d)
        else do {
          (r, bytes, seek, d) \<leftarrow> file_read_loop fe (file_fs f) n (file_seek f) d;
          Some (r, bytes, f\<lparr>file_seek := seek\<rparr>, d) })"

end
