(* ===== verification/Fat16_Contract.thy ===== *)
theory Fat16_Contract
  imports Fat16
begin

text \<open>
  Correctness of the file system over any block device that answers: the locale \<open>block_device\<close> states
  what \<open>fat16.rs\<close> relies on of its partition, and is interpreted on the IDE driver with a drive.
\<close>

section \<open>The contents of a volume\<close>

definition fat_next :: "bios_parameter_block \<Rightarrow> (nat \<Rightarrow> sector) \<Rightarrow> nat \<Rightarrow> nat" where
  "fat_next b m c = le16 (m (first_fat_sector b + c * 2 div 512)) (c * 2 mod 512)"

definition data_sector :: "bios_parameter_block \<Rightarrow> nat \<Rightarrow> nat" where
  "data_sector b c = first_root_dir_sector b + root_dir_sector_count b + (c - 2) * sectors_per_cluster b"

definition fs_ok :: "filesystem \<Rightarrow> bool" where
  "fs_ok fs \<longleftrightarrow> 0 < sectors_per_cluster (fs_bpb fs)
     \<and> first_fat_sector (fs_bpb fs) + fat_sector_count (fs_bpb fs) \<le> part_sectors (fs_part fs)
     \<and> first_root_dir_sector (fs_bpb fs) + root_dir_sector_count (fs_bpb fs) \<le> part_sectors (fs_part fs)"

definition cluster_ok :: "filesystem \<Rightarrow> nat \<Rightarrow> bool" where
  "cluster_ok fs c \<longleftrightarrow> 2 \<le> c \<and> c < fat_sector_count (fs_bpb fs) * 256
     \<and> data_sector (fs_bpb fs) c + sectors_per_cluster (fs_bpb fs) \<le> part_sectors (fs_part fs)"

text \<open>A chain of clusters that the file allocation table links, up to an end marker.\<close>

fun linked :: "filesystem \<Rightarrow> (nat \<Rightarrow> sector) \<Rightarrow> nat list \<Rightarrow> bool" where
  "linked fs m [] \<longleftrightarrow> True"
| "linked fs m [c] \<longleftrightarrow> cluster_ok fs c \<and> 0xfff8 \<le> fat_next (fs_bpb fs) m c"
| "linked fs m (c # c' # cs) \<longleftrightarrow> cluster_ok fs c \<and> fat_next (fs_bpb fs) m c = c' \<and> c' < 0xfff7
     \<and> linked fs m (c' # cs)"

definition cluster_range :: "bios_parameter_block \<Rightarrow> nat \<Rightarrow> nat list" where
  "cluster_range b c = [data_sector b c..<data_sector b c + sectors_per_cluster b]"

definition chain_bytes :: "bios_parameter_block \<Rightarrow> (nat \<Rightarrow> sector) \<Rightarrow> nat list \<Rightarrow> u8 list" where
  "chain_bytes b m cs = concat (map m (concat (map (cluster_range b) cs)))"

definition seek_at :: "filesystem \<Rightarrow> nat list \<Rightarrow> seek \<Rightarrow> bool" where
  "seek_at fs cs s \<longleftrightarrow> seek_cluster s = (case cs of [] \<Rightarrow> None | c # _ \<Rightarrow> Some c)
     \<and> seek_offset s \<le> 512 \<and> seek_sector s < sectors_per_cluster (fs_bpb fs)
     \<and> (cs = [] \<longrightarrow> seek_sector s = 0 \<and> seek_offset s = 0)"

definition remaining :: "filesystem \<Rightarrow> (nat \<Rightarrow> sector) \<Rightarrow> nat list \<Rightarrow> seek \<Rightarrow> u8 list" where
  "remaining fs m cs s = drop (seek_sector s * 512 + seek_offset s) (chain_bytes (fs_bpb fs) m cs)"

lemma linked_cluster_ok: "linked fs m (c # cs) \<Longrightarrow> cluster_ok fs c"
  by (cases cs) auto

lemma linked_tl: "linked fs m (c # cs) \<Longrightarrow> linked fs m cs"
  by (cases cs) auto

lemma linked_clusters: "linked fs m cs \<Longrightarrow> c \<in> set cs \<Longrightarrow> cluster_ok fs c"
  by (induction cs) (auto dest: linked_cluster_ok linked_tl)

lemma cluster_range_bound:
  "cluster_ok fs c \<Longrightarrow> i \<in> set (cluster_range (fs_bpb fs) c) \<Longrightarrow> i < part_sectors (fs_part fs)"
  by (simp add: cluster_ok_def cluster_range_def)

lemma first_cluster_sector_ok: "cluster_ok fs c \<Longrightarrow> first_cluster_sector (fs_bpb fs) c = Some (data_sector (fs_bpb fs) c)"
  by (simp add: first_cluster_sector_def cluster_ok_def data_sector_def Let_def)

lemma concat_blocks_length: "(\<And>i. length (m i) = k) \<Longrightarrow> length (concat (map m xs)) = length xs * k"
  by (induction xs) simp_all

lemma drop_blocks:
  assumes "\<And>i. length (m i) = k" "j \<le> length xs"
  shows "drop (j * k) (concat (map m xs)) = concat (map m (drop j xs))"
  using assms(2)
proof (induction xs arbitrary: j)
  case (Cons x xs)
  then show ?case using assms(1)[of x] by (cases j) simp_all
qed simp

section \<open>The contents of a directory\<close>

definition sector_entries :: "sector \<Rightarrow> raw_dir_entry list" where
  "sector_entries s = map (raw_dir_entry_at s) [0..<16]"

text \<open>The entries that a search looks at: none after the first that starts with 0, none that starts with 0xef.\<close>

definition visible :: "raw_dir_entry list \<Rightarrow> raw_dir_entry list" where
  "visible es = takeWhile (\<lambda>e. basename e ! 0 \<noteq> 0) (filter (\<lambda>e. basename e ! 0 \<noteq> 0xef) es)"

definition chain_state :: "nat list \<Rightarrow> nat option" where
  "chain_state cs = (case cs of [] \<Rightarrow> None | c # _ \<Rightarrow> Some c)"

text \<open>The sectors that the stream still yields: the current range, then those of all clusters of the
  chain but its last.\<close>

definition stream_sectors :: "filesystem \<Rightarrow> nat list \<Rightarrow> nat list \<Rightarrow> nat list" where
  "stream_sectors fs cur cs = cur @ concat (map (cluster_range (fs_bpb fs)) (butlast cs))"

definition directory_entries :: "filesystem \<Rightarrow> (nat \<Rightarrow> sector) \<Rightarrow> nat list \<Rightarrow> raw_dir_entry list" where
  "directory_entries fs m sectors = visible (concat (map (sector_entries \<circ> m) sectors))"

definition names_utf8 :: "u8 list \<Rightarrow> raw_dir_entry list \<Rightarrow> bool" where
  "names_utf8 name es \<longleftrightarrow> \<not> isl (from_utf8 name) \<and> list_all (\<lambda>e. \<not> isl (from_utf8 (filename e))) es"

lemma visible_simps [simp]:
  "visible [] = []"
  "visible (e # es) = (if basename e ! 0 = 0xef then visible es else if basename e ! 0 = 0 then [] else e # visible es)"
  by (auto simp: visible_def)

section \<open>Block devices\<close>

locale block_device =
  fixes fe :: "'d fat_env" and p :: partition and content :: "'d \<Rightarrow> nat \<Rightarrow> sector" and ok :: "'d \<Rightarrow> bool"
  assumes read_ok: "ok d \<Longrightarrow> i < part_sectors p \<Longrightarrow>
      \<exists>d'. rd fe p i d = Some (Inr (content d i), d') \<and> ok d' \<and> content d' = content d"
    and sector_len: "ok d \<Longrightarrow> length (content d i) = 512"
    and alloc_ok: "ok d \<Longrightarrow> \<exists>d'. alloc fe d = (True, d') \<and> ok d' \<and> content d' = content d"
begin

lemma next_cluster_ok:
  assumes "ok d" "fs_part fs = p" "fs_ok fs" "cluster_ok fs c" "fat_next (fs_bpb fs) (content d) c \<noteq> 0xfff7"
  shows "\<exists>d'. next_cluster fe fs c d = Some (Inr (if 0xfff8 \<le> fat_next (fs_bpb fs) (content d) c then None
      else Some (fat_next (fs_bpb fs) (content d) c)), d') \<and> ok d' \<and> content d' = content d"
proof -
  have "c * 2 div 512 < fat_sector_count (fs_bpb fs)"
    using assms(4) by (simp add: cluster_ok_def less_mult_imp_div_less)
  then have "first_fat_sector (fs_bpb fs) + c * 2 div 512 < part_sectors p"
    using assms(2,3) by (simp add: fs_ok_def)
  from read_ok[OF assms(1) this] obtain d' where
    "rd fe p (first_fat_sector (fs_bpb fs) + c * 2 div 512) d =
       Some (Inr (content d (first_fat_sector (fs_bpb fs) + c * 2 div 512)), d')" "ok d'" "content d' = content d"
    by blast
  then show ?thesis
    using assms(2,4,5) by (simp add: next_cluster_def Let_def SECTOR_SIZE_def cluster_ok_def fat_next_def)
qed

lemma next_cluster_linked:
  assumes "ok d" "fs_part fs = p" "fs_ok fs" "linked fs (content d) (c # cs)"
  shows "\<exists>d'. next_cluster fe fs c d = Some (Inr (case cs of [] \<Rightarrow> None | c' # _ \<Rightarrow> Some c'), d')
    \<and> ok d' \<and> content d' = content d"
proof -
  have c: "cluster_ok fs c" using assms(4) by (rule linked_cluster_ok)
  have "fat_next (fs_bpb fs) (content d) c \<noteq> 0xfff7" using assms(4) by (cases cs) auto
  from next_cluster_ok[OF assms(1-3) c this] show ?thesis
    using assms(4) by (cases cs) auto
qed

lemma seek_advance_ok:
  assumes d: "ok d" and fs: "fs_part fs = p" "fs_ok fs" and l: "linked fs (content d) cs" and s: "seek_at fs cs s"
  shows "\<exists>cs' s' d'. seek_advance fe fs s d = Some (Inr (), s', d') \<and> seek_at fs cs' s' \<and> seek_offset s' < 512
    \<and> linked fs (content d) cs' \<and> remaining fs (content d) cs' s' = remaining fs (content d) cs s
    \<and> ok d' \<and> content d' = content d"
proof (cases "seek_offset s = 512")
  case False
  then have "seek_advance fe fs s d = Some (Inr (), s, d)"
    using s by (simp add: seek_advance_def SECTOR_SIZE_def seek_at_def)
  then show ?thesis using False s l d by (auto simp: seek_at_def)
next
  case off: True
  then obtain c cs' where cs: "cs = c # cs'" using s by (cases cs) (auto simp: seek_at_def)
  show ?thesis
  proof (cases "seek_sector s + 1 = sectors_per_cluster (fs_bpb fs)")
    case False
    let ?s = "s\<lparr>seek_offset := 0, seek_sector := seek_sector s + 1\<rparr>"
    have "seek_advance fe fs s d = Some (Inr (), ?s, d)"
      using off False s by (simp add: seek_advance_def SECTOR_SIZE_def seek_at_def)
    moreover have "remaining fs (content d) cs ?s = remaining fs (content d) cs s"
      by (simp add: remaining_def off add.commute)
    moreover have "seek_at fs cs ?s" using s False by (simp add: seek_at_def cs)
    ultimately show ?thesis using l d by fastforce
  next
    case True
    obtain d' where n: "next_cluster fe fs c d = Some (Inr (case cs' of [] \<Rightarrow> None | c' # _ \<Rightarrow> Some c'), d')"
      and d': "ok d'" "content d' = content d"
      using next_cluster_linked[OF d fs l[unfolded cs]] by blast
    let ?s = "s\<lparr>seek_offset := 0, seek_sector := 0, seek_cluster := (case cs' of [] \<Rightarrow> None | c' # _ \<Rightarrow> Some c')\<rparr>"
    have "seek_advance fe fs s d = Some (Inr (), ?s, d')"
      using off True s n by (simp add: seek_advance_def SECTOR_SIZE_def seek_at_def cs)
    moreover have "length (concat (map (content d) (cluster_range (fs_bpb fs) c))) = sectors_per_cluster (fs_bpb fs) * 512"
      using concat_blocks_length[of "content d" 512] sector_len[OF d] by (simp add: cluster_range_def)
    then have "remaining fs (content d) cs' ?s = remaining fs (content d) cs s"
      using off True by (simp add: remaining_def chain_bytes_def cs flip: True)
    moreover have "seek_at fs cs' ?s" using fs(2) by (simp add: seek_at_def fs_ok_def)
    ultimately show ?thesis using d' linked_tl[OF l[unfolded cs]] by fastforce
  qed
qed

lemma remaining_sector:
  assumes "ok d" "seek_at fs (c # cs) s" "k \<le> 512 - seek_offset s"
  shows "take k (drop (seek_offset s) (content d (data_sector (fs_bpb fs) c + seek_sector s)))
    = take k (remaining fs (content d) (c # cs) s)"
proof -
  let ?b = "fs_bpb fs" and ?m = "content d" and ?j = "seek_sector s"
  have j: "?j < length (cluster_range ?b c)" using assms(2) by (simp add: seek_at_def cluster_range_def)
  have len: "length (?m i) = 512" for i using sector_len[OF assms(1)] .
  have "drop ?j (cluster_range ?b c) = (data_sector ?b c + ?j) # drop (Suc ?j) (cluster_range ?b c)"
    using j unfolding cluster_range_def drop_upt by (simp add: upt_conv_Cons)
  then have "drop (?j * 512) (chain_bytes ?b ?m (c # cs)) =
      ?m (data_sector ?b c + ?j) @ concat (map ?m (drop (Suc ?j) (cluster_range ?b c) @ concat (map (cluster_range ?b) cs)))"
    using drop_blocks[of ?m 512 ?j "concat (map (cluster_range ?b) (c # cs))", OF len] j
    by (simp add: chain_bytes_def)
  then show ?thesis
    using assms(3) len by (simp add: remaining_def add.commute[of "?j * 512"] flip: drop_drop)
qed

text \<open>The loop returns the bytes that follow the position, and moves the position past them.\<close>

lemma file_read_loop_ok:
  assumes "ok d" "fs_part fs = p" "fs_ok fs" "linked fs (content d) cs" "seek_at fs cs s"
  shows "\<exists>cs' s' d'. file_read_loop fe fs n s d =
      Some (Inr (length (take n (remaining fs (content d) cs s))), take n (remaining fs (content d) cs s), s', d')
    \<and> seek_at fs cs' s' \<and> linked fs (content d) cs'
    \<and> remaining fs (content d) cs' s' = drop n (remaining fs (content d) cs s) \<and> ok d' \<and> content d' = content d"
  using assms
proof (induction n arbitrary: d cs s rule: less_induct)
  case (less n)
  note fs = less.prems(2,3)
  show ?case
  proof (cases "n = 0")
    case True
    then show ?thesis using less.prems by (subst file_read_loop.simps) auto
  next
    case n: False
    obtain cs1 s1 d1 where adv: "seek_advance fe fs s d = Some (Inr (), s1, d1)" "seek_at fs cs1 s1" "seek_offset s1 < 512"
      "linked fs (content d) cs1" "ok d1" and m: "content d1 = content d"
      and rem: "remaining fs (content d) cs s = remaining fs (content d) cs1 s1"
      using seek_advance_ok[OF less.prems] by metis
    show ?thesis
    proof (cases cs1)
      case Nil
      then have "remaining fs (content d) cs1 s1 = []" by (simp add: remaining_def chain_bytes_def)
      moreover have "file_read_loop fe fs n s d = Some (Inr 0, [], s1, d1)"
        using n adv Nil by (subst file_read_loop.simps) (simp add: seek_at_def)
      ultimately show ?thesis unfolding rem using adv m by fastforce
    next
      case (Cons c cs2)
      let ?k = "min (512 - seek_offset s1) n" and ?i = "data_sector (fs_bpb fs) c + seek_sector s1"
      let ?s2 = "s1\<lparr>seek_offset := seek_offset s1 + ?k\<rparr>"
      have c: "cluster_ok fs c" using adv(4) Cons linked_cluster_ok by blast
      then have "?i < part_sectors p" using adv(2) fs(1) by (simp add: cluster_ok_def seek_at_def)
      then obtain d2 where d2: "rd fe p ?i d1 = Some (Inr (content d ?i), d2)" "ok d2" "content d2 = content d"
        using read_ok[OF adv(5)] m by metis
      have s2: "seek_at fs cs1 ?s2" using adv(2,3) Cons by (simp add: seek_at_def)
      obtain cs' s' d' where rec: "file_read_loop fe fs (n - ?k) ?s2 d2 = Some
            (Inr (length (take (n - ?k) (remaining fs (content d) cs1 ?s2))), take (n - ?k) (remaining fs (content d) cs1 ?s2), s', d')"
        and post: "seek_at fs cs' s'" "linked fs (content d) cs'" "ok d'" "content d' = content d"
          "remaining fs (content d) cs' s' = drop (n - ?k) (remaining fs (content d) cs1 ?s2)"
        using less.IH[of "n - ?k" d2 cs1 ?s2] n adv d2 fs s2 by auto
      have bytes: "take ?k (drop (seek_offset s1) (content d ?i)) = take ?k (remaining fs (content d) cs1 s1)"
        using remaining_sector[OF less.prems(1), of fs c cs2 s1 ?k] adv(2) Cons by simp
      have rem2: "remaining fs (content d) cs1 ?s2 = drop ?k (remaining fs (content d) cs1 s1)"
        by (simp add: remaining_def add.commute add.left_commute)
      have len: "length (take ?k (remaining fs (content d) cs1 s1)) = ?k"
        unfolding bytes[symmetric] using sector_len[OF less.prems(1)] by simp
      have join: "take ?k xs @ take (n - ?k) (drop ?k xs) = take n xs" for xs :: "u8 list"
        using take_add[of ?k "n - ?k" xs] by simp
      have "file_read_loop fe fs n s d = Some (map_sum id ((+) ?k) (Inr (length (take (n - ?k) (remaining fs (content d) cs1 ?s2)))),
          take ?k (remaining fs (content d) cs1 s1) @ take (n - ?k) (remaining fs (content d) cs1 ?s2), s', d')"
        using n adv d2 rec fs(1) c Cons unfolding bytes[symmetric]
        by (subst file_read_loop.simps) (simp add: seek_at_def first_cluster_sector_ok SECTOR_SIZE_def Let_def)
      moreover have "?k + length (take (n - ?k) (drop ?k (remaining fs (content d) cs1 s1)))
          = length (take n (remaining fs (content d) cs1 s1))"
        using len unfolding join[symmetric] length_append by simp
      ultimately have "file_read_loop fe fs n s d =
          Some (Inr (length (take n (remaining fs (content d) cs1 s1))), take n (remaining fs (content d) cs1 s1), s', d')"
        unfolding rem2 join by simp
      moreover have "drop (n - ?k) (drop ?k xs) = drop n xs" for xs :: "u8 list" by simp
      ultimately show ?thesis unfolding rem using post unfolding rem2 by metis
    qed
  qed
qed

text \<open>A pull of the sector stream.\<close>

lemma sector_chain_next_ok:
  assumes d: "ok d" and fs: "fs_part fs = p" "fs_ok fs" and l: "linked fs (content d) cs"
  shows "case stream_sectors fs cur cs of
      [] \<Rightarrow> \<exists>d'. sector_chain_next fe fs cur (chain_state cs) d = Some (None, d') \<and> ok d' \<and> content d' = content d
    | i # xs \<Rightarrow> \<exists>cur' cs' d'. sector_chain_next fe fs cur (chain_state cs) d = Some (Some (Inr i, cur', chain_state cs'), d')
        \<and> linked fs (content d) cs' \<and> stream_sectors fs cur' cs' = xs \<and> ok d' \<and> content d' = content d"
proof (cases cur)
  case (Cons i cur')
  then show ?thesis using d l by (subst sector_chain_next.simps) (auto simp: stream_sectors_def)
next
  case cur: Nil
  show ?thesis
  proof (cases cs)
    case Nil
    then show ?thesis using cur d
      by (subst sector_chain_next.simps) (simp add: stream_sectors_def chain_state_def cluster_chain_next_def)
  next
    case cs: (Cons c cs')
    obtain d' where n: "next_cluster fe fs c d = Some (Inr (chain_state cs'), d')" "ok d'" "content d' = content d"
      using next_cluster_linked[OF d fs l[unfolded cs]] by (auto simp: chain_state_def)
    show ?thesis
    proof (cases cs')
      case Nil
      then show ?thesis using cur cs n
        by (subst sector_chain_next.simps) (simp add: stream_sectors_def chain_state_def cluster_chain_next_def)
    next
      case (Cons c' cs'')
      have c: "cluster_ok fs c" using l cs linked_cluster_ok by blast
      have secs: "cluster_sectors (fs_bpb fs) c = Some (cluster_range (fs_bpb fs) c)"
        by (simp add: cluster_sectors_def first_cluster_sector_ok[OF c] cluster_range_def)
      obtain i xs where r: "cluster_range (fs_bpb fs) c = i # xs"
        using fs(2) by (cases "cluster_range (fs_bpb fs) c") (auto simp: fs_ok_def cluster_range_def)
      have "sector_chain_next fe fs [] (chain_state cs) d = Some (Some (Inr i, xs, chain_state cs'), d')"
        using cs n(1) Cons secs r
        by (subst sector_chain_next.simps, simp add: chain_state_def cluster_chain_next_def)
          (subst sector_chain_next.simps, simp add: chain_state_def)
      moreover have "linked fs (content d) cs'" using l cs linked_tl by blast
      ultimately show ?thesis using cur cs Cons n r by (auto simp: stream_sectors_def)
    qed
  qed
qed

lemma read_raw_entries_ok:
  assumes "ok d" "fs_part fs = p" "i < part_sectors p"
  shows "\<exists>d'. read_raw_entries_from_sector fe fs i d = Some (Inr (sector_entries (content d i)), d')
    \<and> ok d' \<and> content d' = content d"
  using read_ok[OF assms(1,3)] assms(2) by (auto simp: read_raw_entries_from_sector_def sector_entries_def)

lemma read_entries_next_Cons:
  "read_entries_next fe fs (e # es) cur st d =
     (if basename e ! 0 = 0xef then read_entries_next fe fs es cur st d
      else if basename e ! 0 = 0 then Some (None, d) else Some (Some (Inr e, es, cur, st), d))"
  by (subst read_entries_next.simps) simp

text \<open>A pull of the stream of entries, for the sectors \<open>xs\<close> that are left.\<close>

lemma read_entries_next_ok:
  assumes "ok d" "fs_part fs = p" "fs_ok fs" "linked fs (content d) cs"
    "stream_sectors fs cur cs = xs" "\<forall>i \<in> set xs. i < part_sectors p"
  shows "case visible (es @ concat (map (sector_entries \<circ> content d) xs)) of
      [] \<Rightarrow> \<exists>d'. read_entries_next fe fs es cur (chain_state cs) d = Some (None, d') \<and> ok d' \<and> content d' = content d
    | e # ve \<Rightarrow> \<exists>es' cur' cs' xs' d'. read_entries_next fe fs es cur (chain_state cs) d
          = Some (Some (Inr e, es', cur', chain_state cs'), d')
        \<and> linked fs (content d) cs' \<and> stream_sectors fs cur' cs' = xs' \<and> set xs' \<subseteq> set xs
        \<and> visible (es' @ concat (map (sector_entries \<circ> content d) xs')) = ve \<and> ok d' \<and> content d' = content d"
  using assms
proof (induction xs arbitrary: es d cur cs)
  case Nil
  note prems = Nil.prems
  show ?case
  proof (induction es)
    case Nil
    show ?case
      using sector_chain_next_ok[OF prems(1-4), of cur] prems(5)
      by (subst read_entries_next.simps) auto
  next
    case (Cons e es)
    show ?case
    proof (cases "basename e ! 0 = 0xef \<or> basename e ! 0 = 0")
      case True
      then show ?thesis using Cons prems(1) unfolding read_entries_next_Cons by auto
    next
      case False
      then show ?thesis using prems(1,4,5) by (simp add: read_entries_next_Cons) (rule exI[of _ cs], simp add: o_def)
    qed
  qed
next
  case (Cons i xs)
  note prems = Cons.prems and IH = Cons.IH
  show ?case
  proof (induction es)
    case Nil
    obtain cur' cs' d1 where s: "sector_chain_next fe fs cur (chain_state cs) d = Some (Some (Inr i, cur', chain_state cs'), d1)"
      "linked fs (content d) cs'" "stream_sectors fs cur' cs' = xs" "ok d1" "content d1 = content d"
      using sector_chain_next_ok[OF prems(1-4), of cur] prems(5) by auto
    obtain d2 where r: "read_raw_entries_from_sector fe fs i d1 = Some (Inr (sector_entries (content d i)), d2)"
      "ok d2" "content d2 = content d"
      using read_raw_entries_ok[OF s(4) prems(2), of i] prems(6) s(5) by auto
    have "read_entries_next fe fs [] cur (chain_state cs) d
        = read_entries_next fe fs (sector_entries (content d i)) cur' (chain_state cs') d2"
      using s r by (subst read_entries_next.simps) simp
    then show ?case
      using IH[of d2 cs' cur' "sector_entries (content d i)"] prems(2,3,6) r s
      by (simp add: o_def split: list.splits) (metis subset_insertI2)
  next
    case (Cons e es)
    show ?case
    proof (cases "basename e ! 0 = 0xef \<or> basename e ! 0 = 0")
      case True
      then show ?thesis using Cons prems(1) unfolding read_entries_next_Cons by auto
    next
      case False
      then show ?thesis using prems(1,4,5) by (simp add: read_entries_next_Cons) (rule exI[of _ cs], simp add: o_def)
    qed
  qed
qed

lemma entries_next_ok:
  assumes "ok d" "fs_part (dir_fs dir) = p" "fs_ok (dir_fs dir)" "linked (dir_fs dir) (content d) cs"
    "stream_sectors (dir_fs dir) cur cs = xs" "\<forall>i \<in> set xs. i < part_sectors p"
    and parent: "parent = (case dir_kind dir of Root \<Rightarrow> None | Sub e \<Rightarrow> Some e)"
  shows "case visible (es @ concat (map (sector_entries \<circ> content d) xs)) of
      [] \<Rightarrow> \<exists>d'. entries_next fe dir (es, cur, chain_state cs) d = Some (None, d') \<and> ok d' \<and> content d' = content d
    | e # ve \<Rightarrow> \<exists>es' cur' cs' xs' d'. entries_next fe dir (es, cur, chain_state cs) d
          = Some (Some (Inr (DirEntry (dir_fs dir) parent e), es', cur', chain_state cs'), d')
        \<and> linked (dir_fs dir) (content d) cs' \<and> stream_sectors (dir_fs dir) cur' cs' = xs' \<and> set xs' \<subseteq> set xs
        \<and> visible (es' @ concat (map (sector_entries \<circ> content d) xs')) = ve \<and> ok d' \<and> content d' = content d"
proof (cases "visible (es @ concat (map (sector_entries \<circ> content d) xs))")
  case Nil
  then show ?thesis using read_entries_next_ok[OF assms(1-6), of es] by (auto simp: entries_next_def)
next
  case (Cons e ve)
  then obtain es' cur' cs' xs' d1 where r: "read_entries_next fe (dir_fs dir) es cur (chain_state cs) d
      = Some (Some (Inr e, es', cur', chain_state cs'), d1)" "ok d1" "content d1 = content d"
    and post: "linked (dir_fs dir) (content d) cs'" "stream_sectors (dir_fs dir) cur' cs' = xs'" "set xs' \<subseteq> set xs"
      "visible (es' @ concat (map (sector_entries \<circ> content d) xs')) = ve"
    using read_entries_next_ok[OF assms(1-6), of es] by auto
  obtain d2 where "alloc fe d1 = (True, d2)" "ok d2" "content d2 = content d1" using alloc_ok[OF r(2)] by blast
  then have "entries_next fe dir (es, cur, chain_state cs) d
      = Some (Some (Inr (DirEntry (dir_fs dir) parent e), es', cur', chain_state cs'), d2)" "ok d2" "content d2 = content d"
    using r by (simp_all add: entries_next_def dir_entry_new_def parent)
  then show ?thesis using post Cons by auto
qed

text \<open>A search returns the first visible entry with the name.\<close>

lemma entry_loop_ok:
  assumes "ok d" "fs_part (dir_fs dir) = p" "fs_ok (dir_fs dir)" "linked (dir_fs dir) (content d) cs"
    "stream_sectors (dir_fs dir) cur cs = xs" "\<forall>i \<in> set xs. i < part_sectors p"
    "visible (es @ concat (map (sector_entries \<circ> content d) xs)) = vs" "names_utf8 name vs"
    and parent: "parent = (case dir_kind dir of Root \<Rightarrow> None | Sub e \<Rightarrow> Some e)"
  shows "\<exists>d'. entry_loop fe dir name (es, cur, chain_state cs) d =
      Some (Inr (map_option (DirEntry (dir_fs dir) parent) (find (\<lambda>e. filename e = name) vs)), d')
    \<and> ok d' \<and> content d' = content d"
  using assms(1-8)
proof (induction vs arbitrary: es cur cs xs d)
  case Nil
  then show ?case
    using entries_next_ok[OF Nil.prems(1-6) parent, of es] unfolding Nil.prems(7)
    by (subst entry_loop.simps) auto
next
  case (Cons v vs)
  obtain es' cur' cs' xs' d1 where r: "entries_next fe dir (es, cur, chain_state cs) d
      = Some (Some (Inr (DirEntry (dir_fs dir) parent v), es', cur', chain_state cs'), d1)" "ok d1" "content d1 = content d"
    and post: "linked (dir_fs dir) (content d) cs'" "stream_sectors (dir_fs dir) cur' cs' = xs'" "set xs' \<subseteq> set xs"
      "visible (es' @ concat (map (sector_entries \<circ> content d) xs')) = vs"
    using entries_next_ok[OF Cons.prems(1-6) parent, of es] Cons.prems(7) by auto
  have n: "\<not> isl (from_utf8 name)" "\<not> isl (from_utf8 (filename v))" "names_utf8 name vs"
    using Cons.prems(8) by (simp_all add: names_utf8_def)
  show ?case
  proof (cases "filename v = name")
    case True
    then show ?thesis using r n by (subst entry_loop.simps) (simp add: dir_entry_name_def)
  next
    case False
    have l': "linked (dir_fs dir) (content d1) cs'"
      and v': "visible (es' @ concat (map (sector_entries \<circ> content d1) xs')) = vs"
      unfolding r(3) by (fact post(1), fact post(4))
    have b': "\<forall>i \<in> set xs'. i < part_sectors p" using post(3) Cons.prems(6) by blast
    obtain d' where "entry_loop fe dir name (es', cur', chain_state cs') d1 =
        Some (Inr (map_option (DirEntry (dir_fs dir) parent) (find (\<lambda>e. filename e = name) vs)), d')"
      "ok d'" "content d' = content d"
      using Cons.IH[OF r(2) Cons.prems(2,3) l' post(2) b' v' n(3)] r(3) by auto
    then show ?thesis using r n False by (subst entry_loop.simps) (simp add: dir_entry_name_def)
  qed
qed

end

end
