(* ===== verification/Fat16_Disk.thy ===== *)
theory Fat16_Disk
  imports Fat16_Contract
begin

text \<open>
  The file system on the IDE driver: \<open>block_device\<close> holds of a partition of a drive that answers, so
  \<open>fat16.rs\<close>, \<open>mbr.rs\<close> and \<open>ide.rs\<close> together read the files of the disk.
\<close>

section \<open>The driver as a block device\<close>

definition partition_rd :: "'d ide_env \<Rightarrow> ide_io \<Rightarrow> partition \<Rightarrow> nat \<Rightarrow> 'd \<Rightarrow> ((ata_error + sector) \<times> 'd) option" where
  "partition_rd env io p i d = do {
     (r, buffs, d) \<leftarrow> partition_read_sectors env io p i 1 d;
     Some (case r of Inl e \<Rightarrow> Inl e | Inr _ \<Rightarrow> Inr (buffs ! 0), d) }"

text \<open>The environment of the file system on a machine whose allocator has memory.\<close>

definition disk_env :: "ata_dev fat_env" where
  "disk_env = \<lparr>rd = partition_rd ata_env PRIMARY_IO, alloc = (\<lambda>d. (True, d)),
     attr_truncate = (\<lambda>all b. b AND all), attr_contains = (\<lambda>a b. a AND b = b)\<rparr>"

definition disk_ok :: "partition \<Rightarrow> ata_dev \<Rightarrow> bool" where
  "disk_ok p d \<longleftrightarrow> medium_ok d \<and> pending d = [] \<and> part_lba p + part_sectors p \<le> 0xffffff"

definition part_content :: "partition \<Rightarrow> ata_dev \<Rightarrow> nat \<Rightarrow> sector" where
  "part_content p d i = medium d (part_lba p + i)"

interpretation disk: block_device disk_env p "part_content p" "disk_ok p" for p
proof
  fix d i assume ok: "disk_ok p d" and i: "i < part_sectors p"
  obtain d' where r: "ide_read_sectors ata_env PRIMARY_IO (part_drive p) (i + part_lba p) 1 d
      = Some (Inr (), map (medium d) [i + part_lba p..<i + part_lba p + 1], d')" "pending d' = []" "medium d' = medium d"
    using ide_read_sectors_ata[of "i + part_lba p" 1 d "part_drive p"] ok i by (auto simp: disk_ok_def)
  then have "rd disk_env p i d = Some (Inr (part_content p d i), d')"
    using i by (simp add: disk_env_def partition_rd_def partition_read_sectors_def part_content_def add.commute)
  moreover have "disk_ok p d'" "part_content p d' = part_content p d"
    using r ok by (simp_all add: disk_ok_def medium_ok_def part_content_def fun_eq_iff)
  ultimately show "\<exists>d'. rd disk_env p i d = Some (Inr (part_content p d i), d') \<and> disk_ok p d'
      \<and> part_content p d' = part_content p d" by blast
qed (simp_all add: disk_ok_def medium_ok_def part_content_def disk_env_def)

section \<open>A volume\<close>

text \<open>A small volume: one reserved sector, one table of one sector, a root directory of one sector, clusters
  of one sector; the file \<open>hi.txt\<close> in the clusters 2 and 3, the directory \<open>d\<close> in the cluster 4.\<close>

definition sample_part :: partition where
  "sample_part = \<lparr>part_drive = DriveA, part_number = 0, part_lba = 0, part_sectors = 10\<rparr>"

definition sample_bpb :: bios_parameter_block where
  "sample_bpb = \<lparr>bytes_per_sector = 512, bpb_sectors_per_cluster = 1, reserved_sector_count = 1, fat_count = 1,
     root_directory_entry_count = 16, total_sector_count = 10, media_descriptor_type = 0xf8, sectors_per_fat = 1\<rparr>"

definition sample_fs :: filesystem where
  "sample_fs = \<lparr>fs_part = sample_part, fs_bpb = sample_bpb\<rparr>"

definition sample_fat :: sector where
  "sample_fat = [0xf8, 0xff, 0xff, 0xff, 3, 0, 0xff, 0xff, 0xff, 0xff] @ replicate 502 0"

definition sample_root :: sector where
  "sample_root = [0x48, 0x49, 0x20, 0x20, 0x20, 0x20, 0x20, 0x20, 0x54, 0x58, 0x54, 0x20] @ replicate 14 0 @ [2, 0, 2, 0, 0, 0]
     @ [0x44, 0x20, 0x20, 0x20, 0x20, 0x20, 0x20, 0x20, 0x20, 0x20, 0x20, 0x10] @ replicate 14 0 @ [4, 0, 0, 0, 0, 0]
     @ replicate 448 0"

definition sample_volume :: ata_dev where
  "sample_volume = \<lparr>medium = (\<lambda>i. if i = 1 then sample_fat else if i = 2 then sample_root
       else if i = 3 then replicate 512 0x61 else if i = 4 then replicate 512 0x62 else replicate 512 0),
     delay = 3, busy_for = 2, reg_count = 0, reg_lba0 = 0, reg_lba1 = 0, reg_lba2 = 0, pending = []\<rparr>"

lemma sample_volume_ok: "disk_ok sample_part sample_volume" "fs_ok sample_fs"
  by (simp_all add: disk_ok_def medium_ok_def sample_volume_def sample_part_def sample_fat_def sample_root_def
      fs_ok_def sample_fs_def sample_bpb_def first_fat_sector_def fat_sector_count_def sectors_per_cluster_def
      first_root_dir_sector_def root_dir_sector_count_def all_fats_sector_count_def DIR_ENTRY_SIZE_def SECTOR_SIZE_def)

lemmas sample_bpb_simps = sample_fs_def sample_bpb_def sample_part_def first_fat_sector_def fat_sector_count_def
  sectors_per_cluster_def first_root_dir_sector_def root_dir_sector_count_def all_fats_sector_count_def
  DIR_ENTRY_SIZE_def SECTOR_SIZE_def data_sector_def

lemma sample_content [simp]:
  "part_content sample_part sample_volume = medium sample_volume"
  by (simp add: part_content_def sample_part_def fun_eq_iff)

lemma sample_linked:
  "linked sample_fs (medium sample_volume) [2, 3]" "linked sample_fs (medium sample_volume) [4]"
  by (simp_all add: cluster_ok_def fat_next_def sample_bpb_simps sample_volume_def sample_fat_def le16_def)

section \<open>Files\<close>

text \<open>An open file stands before the bytes \<open>bs\<close>: its position lies in a linked chain of clusters whose
  bytes from there on are \<open>bs\<close>.\<close>

definition file_holds :: "ata_dev \<Rightarrow> fat_file \<Rightarrow> u8 list \<Rightarrow> bool" where
  "file_holds d f bs \<longleftrightarrow> fs_ok (file_fs f) \<and> disk_ok (fs_part (file_fs f)) d
     \<and> (\<exists>cs. linked (file_fs f) (part_content (fs_part (file_fs f)) d) cs \<and> seek_at (file_fs f) cs (file_seek f)
        \<and> remaining (file_fs f) (part_content (fs_part (file_fs f)) d) cs (file_seek f) = bs)"

text \<open>C22: Sequential reads.  An open file on a drive refines the list of the bytes that follow its position:
  \<open>File::read\<close> into a buffer of \<open>n\<close> bytes always finishes, copies the next \<open>n\<close> bytes (fewer only at
  the end of the cluster chain), returns their number, and leaves the file before the bytes after them.\<close>

theorem file_read_refines:
  assumes "file_holds d f bs"
  shows "\<exists>f' d'. file_read disk_env f n d = Some (Inr (min n (length bs)), take n bs, f', d')
    \<and> file_holds d' f' (drop n bs) \<and> file_fs f' = file_fs f
    \<and> part_content (fs_part (file_fs f)) d' = part_content (fs_part (file_fs f)) d"
proof -
  let ?fs = "file_fs f" and ?p = "fs_part (file_fs f)"
  obtain cs where ok: "fs_ok ?fs" "disk_ok ?p d"
    and cs: "linked ?fs (part_content ?p d) cs" "seek_at ?fs cs (file_seek f)"
      "remaining ?fs (part_content ?p d) cs (file_seek f) = bs"
    using assms by (auto simp: file_holds_def)
  obtain cs' s' d' where r: "file_read_loop disk_env ?fs n (file_seek f) d = Some (Inr (length (take n bs)), take n bs, s', d')"
    and post: "seek_at ?fs cs' s'" "linked ?fs (part_content ?p d) cs'"
      "remaining ?fs (part_content ?p d) cs' s' = drop n bs" "disk_ok ?p d'" "part_content ?p d' = part_content ?p d"
    using disk.file_read_loop_ok[OF ok(2) refl ok(1) cs(1,2), of n] unfolding cs(3) by blast
  have "file_read disk_env f n d = Some (Inr (min n (length bs)), take n bs, f\<lparr>file_seek := s'\<rparr>, d')"
    using r by (simp add: file_read_def disk_env_def min.commute)
  moreover have "file_holds d' (f\<lparr>file_seek := s'\<rparr>) (drop n bs)"
    using post ok by (auto simp: file_holds_def)
  ultimately show ?thesis using post(5) by fastforce
qed

definition sample_file :: fat_file where
  "sample_file = \<lparr>file_fs = sample_fs, file_dirent = DirEntry sample_fs None (raw_dir_entry_at sample_root 0),
     file_seek = \<lparr>seek_cluster = Some 2, seek_sector = 0, seek_offset = 0\<rparr>\<rparr>"

lemma sample_file_holds: "file_holds sample_volume sample_file (replicate 512 0x61 @ replicate 512 0x62)"
proof -
  have "remaining sample_fs (medium sample_volume) [2, 3] (file_seek sample_file) = replicate 512 0x61 @ replicate 512 0x62"
    by (simp add: remaining_def chain_bytes_def cluster_range_def sample_bpb_simps sample_volume_def sample_file_def upt_rec)
  moreover have "seek_at sample_fs [2, 3] (file_seek sample_file)"
    by (simp add: seek_at_def sample_file_def sample_bpb_simps)
  moreover have "file_fs sample_file = sample_fs" "fs_part sample_fs = sample_part"
    by (simp_all add: sample_file_def sample_fs_def)
  ultimately show ?thesis
    using sample_volume_ok sample_linked(1) unfolding file_holds_def by (metis sample_content)
qed

theorem file_read_refines_witness:
  "\<exists>f' d'. file_read disk_env sample_file 600 sample_volume =
      Some (Inr 600, replicate 512 0x61 @ replicate 88 0x62, f', d') \<and> file_holds d' f' (replicate 424 0x62)"
  using file_read_refines[OF sample_file_holds, of 600] by auto

section \<open>Directories\<close>

lemma directory_entry_disk:
  assumes "disk_ok (fs_part (dir_fs dir)) d" "fs_ok (dir_fs dir)"
    and "linked (dir_fs dir) (part_content (fs_part (dir_fs dir)) d) cs" "directory_sectors dir = (cur, chain_state cs)"
    and "xs = stream_sectors (dir_fs dir) cur cs" "\<forall>i \<in> set xs. i < part_sectors (fs_part (dir_fs dir))"
    and "names_utf8 name (directory_entries (dir_fs dir) (part_content (fs_part (dir_fs dir)) d) xs)"
  shows "\<exists>d'. directory_entry disk_env dir name d = Some (Inr (map_option
        (DirEntry (dir_fs dir) (case dir_kind dir of Root \<Rightarrow> None | Sub e \<Rightarrow> Some e))
        (find (\<lambda>e. filename e = name) (directory_entries (dir_fs dir) (part_content (fs_part (dir_fs dir)) d) xs))), d')
      \<and> disk_ok (fs_part (dir_fs dir)) d' \<and> part_content (fs_part (dir_fs dir)) d' = part_content (fs_part (dir_fs dir)) d"
  using disk.entry_loop_ok[OF assms(1) refl assms(2,3) assms(5)[symmetric] assms(6) _ _ refl, of "[]" _ name] assms(4,7)
  unfolding directory_entry_def directory_entries_def by auto

lemma root_lookup:
  assumes "disk_ok (fs_part fs) d" "fs_ok fs"
    and "es = directory_entries fs (part_content (fs_part fs) d)
      [first_root_dir_sector (fs_bpb fs)..<first_root_dir_sector (fs_bpb fs) + root_dir_sector_count (fs_bpb fs)]"
    and "names_utf8 name es"
  shows "\<exists>d'. directory_entry disk_env (fat16_root fs) name d
    = Some (Inr (map_option (DirEntry fs None) (find (\<lambda>e. filename e = name) es)), d') \<and> disk_ok (fs_part fs) d'
    \<and> part_content (fs_part fs) d' = part_content (fs_part fs) d"
proof -
  let ?xs = "[first_root_dir_sector (fs_bpb fs)..<first_root_dir_sector (fs_bpb fs) + root_dir_sector_count (fs_bpb fs)]"
  have "directory_sectors (fat16_root fs) = (?xs, chain_state [])"
    by (simp add: directory_sectors_def fat16_root_def Let_def chain_state_def)
  moreover have "\<forall>i \<in> set ?xs. i < part_sectors (fs_part fs)" using assms(2) by (auto simp: fs_ok_def)
  moreover have "dir_fs (fat16_root fs) = fs" "dir_kind (fat16_root fs) = Root" by (simp_all add: fat16_root_def)
  ultimately show ?thesis
    using directory_entry_disk[of "fat16_root fs" d "[]" ?xs ?xs name] assms by (simp add: stream_sectors_def)
qed

text \<open>Search of the root directory.  On a drive, \<open>Directory::entry\<close> of the root directory always finishes
  (entry names and the name being UTF-8) and returns the first entry with the name among the entries
  of all sectors of the root directory, up to the first that starts with 0 and without those that
  start with 0xef, or \<open>None\<close> if there is no such entry.\<close>

lemma root_directory_lookup:
  assumes "disk_ok (fs_part fs) d" "fs_ok fs"
    and "es = directory_entries fs (part_content (fs_part fs) d)
      [first_root_dir_sector (fs_bpb fs)..<first_root_dir_sector (fs_bpb fs) + root_dir_sector_count (fs_bpb fs)]"
    and "names_utf8 name es"
  shows "\<exists>d'. directory_entry disk_env (fat16_root fs) name d
    = Some (Inr (map_option (DirEntry fs None) (find (\<lambda>e. filename e = name) es)), d') \<and> disk_ok (fs_part fs) d'
    \<and> part_content (fs_part fs) d' = part_content (fs_part fs) d"
  using assms by (rule root_lookup)

definition sample_e0 :: raw_dir_entry where "sample_e0 = raw_dir_entry_at sample_root 0"
definition sample_e1 :: raw_dir_entry where "sample_e1 = raw_dir_entry_at sample_root 1"

lemma sample_root_raw:
  "filename sample_e0 = [0x68, 0x69, 0x2e, 0x74, 0x78, 0x74]" "filename sample_e1 = [0x64]" "first_cluster sample_e1 = 4"
  by (simp_all add: sample_e0_def sample_e1_def filename_def raw_dir_entry_at_def sample_root_def DIR_ENTRY_SIZE_def
      to_ascii_lowercase_def trim_spaces_def first_cluster_def le16_def Let_def nth_append)

lemma sample_root_entries: "directory_entries sample_fs (medium sample_volume) [2] = [sample_e0, sample_e1]"
proof -
  have "basename (raw_dir_entry_at sample_root 2) ! 0 = 0" "basename sample_e0 ! 0 = 0x48" "basename sample_e1 ! 0 = 0x44"
    by (simp_all add: raw_dir_entry_at_def DIR_ENTRY_SIZE_def sample_root_def sample_e0_def sample_e1_def)
  moreover have "[0..<16] = 0 # 1 # 2 # [3..<16::nat]" by (simp add: upt_rec)
  then have "sector_entries sample_root = sample_e0 # sample_e1 # raw_dir_entry_at sample_root 2 # map (raw_dir_entry_at sample_root) [3..<16]"
    by (simp add: sector_entries_def sample_e0_def sample_e1_def)
  moreover have "medium sample_volume 2 = sample_root" by (simp add: sample_volume_def)
  ultimately show ?thesis by (simp add: directory_entries_def)
qed

lemma sample_names_utf8: "names_utf8 [0x64] [sample_e0, sample_e1]"
  by (simp add: names_utf8_def sample_root_raw from_utf8_ascii del: from_utf8.simps)

lemma root_directory_lookup_witness:
  "\<exists>d'. directory_entry disk_env (fat16_root sample_fs) [0x64] sample_volume
    = Some (Inr (Some (DirEntry sample_fs None sample_e1)), d')"
proof -
  have "fs_part sample_fs = sample_part" by (simp add: sample_fs_def)
  moreover have "[first_root_dir_sector (fs_bpb sample_fs)..<first_root_dir_sector (fs_bpb sample_fs)
      + root_dir_sector_count (fs_bpb sample_fs)] = [2]" by (simp add: sample_bpb_simps upt_rec)
  ultimately show ?thesis
    using root_directory_lookup[OF _ sample_volume_ok(2) refl, of sample_volume "[0x64]"]
      sample_volume_ok(1) sample_names_utf8 by (auto simp: sample_root_entries sample_root_raw)
qed

text \<open>C23: The last cluster of a subdirectory is never searched.  For a subdirectory whose clusters are the linked
  chain \<open>cs\<close>, \<open>Directory::entry\<close> searches the entries of all clusters but the last: the stream
  \<open>cluster_chain\<close> ends before it yields a cluster that has no successor.\<close>

theorem subdirectory_skips_last_cluster:
  assumes "disk_ok (fs_part fs) d" "fs_ok fs"
    and "linked fs (part_content (fs_part fs) d) cs" "cs \<noteq> []" "hd cs = first_cluster (dirent e)"
    and "es = directory_entries fs (part_content (fs_part fs) d) (concat (map (cluster_range (fs_bpb fs)) (butlast cs)))"
    and "names_utf8 name es"
  shows "\<exists>d'. directory_entry disk_env \<lparr>dir_fs = fs, dir_kind = Sub e\<rparr> name d
    = Some (Inr (map_option (DirEntry fs (Some e)) (find (\<lambda>e. filename e = name) es)), d') \<and> disk_ok (fs_part fs) d'
    \<and> part_content (fs_part fs) d' = part_content (fs_part fs) d"
proof -
  let ?dir = "\<lparr>dir_fs = fs, dir_kind = Sub e\<rparr>" and ?xs = "concat (map (cluster_range (fs_bpb fs)) (butlast cs))"
  have "\<forall>i \<in> set ?xs. i < part_sectors (fs_part fs)"
    using linked_clusters[OF assms(3)] cluster_range_bound in_set_butlastD by fastforce
  moreover have "directory_sectors ?dir = ([], chain_state cs)"
    using assms(4,5) by (cases cs) (simp_all add: directory_sectors_def chain_state_def)
  ultimately show ?thesis
    using directory_entry_disk[of ?dir d cs "[]" ?xs name] assms by (simp add: stream_sectors_def)
qed

theorem subdirectory_skips_last_cluster_witness:
  "\<exists>d'. directory_entry disk_env \<lparr>dir_fs = sample_fs, dir_kind = Sub (DirEntry sample_fs None sample_e1)\<rparr> [0x64] sample_volume
    = Some (Inr None, d')"
proof -
  have "fs_part sample_fs = sample_part" by (simp add: sample_fs_def)
  moreover have "names_utf8 [0x64] []" using sample_names_utf8 by (simp add: names_utf8_def)
  ultimately show ?thesis
    using subdirectory_skips_last_cluster[of sample_fs sample_volume "[4]" "DirEntry sample_fs None sample_e1" "[]" "[0x64]"]
      sample_volume_ok sample_linked(2) by (auto simp: directory_entries_def sample_root_raw)
qed

end
