(* ===== verification/Console.thy ===== *)
theory Console
  imports Utf8_Parts Page_Map
begin

text \<open>
  The console: \<open>kernel/src/console.rs\<close> and the frame buffer of \<open>kernel/src/console/vga.rs\<close>.

  Video memory is a function from offsets to bytes.  An access at or beyond \<open>VRAM_SIZE\<close> leaves the
  array that the pointer was made from, which is undefined behaviour; here it is \<open>None\<close>, as a panic
  is, so that a proof that a function returns shows the absence of both.  The picture that the
  build includes and the font that the BIOS provides are byte lists.
\<close>

section \<open>Video memory\<close>

definition VRAM_SIZE :: nat where "VRAM_SIZE = 8 * 1024 * 1024"
definition RED :: u8 where "RED = 0xed"
definition GREEN :: u8 where "GREEN = 0xbd"
definition BLUE :: u8 where "BLUE = 0xa6"
definition CHAR_HEIGHT :: nat where "CHAR_HEIGHT = 16"
definition CHAR_WIDTH :: nat where "CHAR_WIDTH = 8"
definition STRIDE :: nat where "STRIDE = 3"

record vga_text =
  vram :: "nat \<Rightarrow> u8"
  bios_font :: "u8 list"
  vga_width :: nat
  vga_height :: nat
  vga_pitch :: nat
  vga_col :: nat
  vga_row :: nat

definition vram_write :: "nat \<Rightarrow> u8 \<Rightarrow> vga_text \<Rightarrow> vga_text option" where
  "vram_write p b v = (if p < VRAM_SIZE then Some (v\<lparr>vram := (vram v)(p := b)\<rparr>) else None)"

text \<open>\<open>ptr::copy\<close> within video memory, and from a byte list.\<close>

definition vram_move :: "nat \<Rightarrow> nat \<Rightarrow> nat \<Rightarrow> vga_text \<Rightarrow> vga_text option" where
  "vram_move src dst count v =
     (if src + count \<le> VRAM_SIZE \<and> dst + count \<le> VRAM_SIZE
      then Some (v\<lparr>vram := (\<lambda>i. if dst \<le> i \<and> i < dst + count then vram v (src + (i - dst)) else vram v i)\<rparr>)
      else None)"

definition vram_load :: "u8 list \<Rightarrow> nat \<Rightarrow> nat \<Rightarrow> nat \<Rightarrow> vga_text \<Rightarrow> vga_text option" where
  "vram_load bytes src dst count v =
     (if src + count \<le> length bytes \<and> dst + count \<le> VRAM_SIZE
      then Some (v\<lparr>vram := (\<lambda>i. if dst \<le> i \<and> i < dst + count then bytes ! (src + (i - dst)) else vram v i)\<rparr>)
      else None)"

section \<open>Text on the frame buffer\<close>

text \<open>The loop over the pixels of a line, which both \<open>blank\<close> and \<open>newline\<close> have.\<close>

definition blank_line :: "nat \<Rightarrow> vga_text \<Rightarrow> vga_text option" where
  "blank_line line v = fold_opt (\<lambda>x v. do {
     v \<leftarrow> vram_write (line + (x * 3 + 0)) BLUE v;
     v \<leftarrow> vram_write (line + (x * 3 + 1)) GREEN v;
     vram_write (line + (x * 3 + 2)) RED v }) [0..<vga_width v] v"

definition vga_blank :: "u8 list \<Rightarrow> vga_text \<Rightarrow> vga_text option" where
  "vga_blank crab v = do {
     v \<leftarrow> fold_opt (\<lambda>y v. blank_line (y * vga_pitch v) v) [0..<vga_height v] v;
     let crab_header = 0x36;
     let crab_width = 256;
     let crab_height = 256;
     fold_opt (\<lambda>y v.
       if vga_height v < crab_height \<or> vga_width v < crab_width then None
       else
         let line = (vga_height v - crab_height + y) * vga_pitch v + (vga_width v - crab_width) * STRIDE;
             crab_idx = y * crab_width * STRIDE + crab_header in
         vram_load crab crab_idx line (crab_width * STRIDE) v) [0..<crab_height] v }"

definition vga_rows :: "vga_text \<Rightarrow> nat" where
  "vga_rows v = vga_height v div CHAR_HEIGHT"

definition vga_cols :: "vga_text \<Rightarrow> nat option" where
  "vga_cols v = (if vga_width v < 256 then None else Some ((vga_width v - 256) div CHAR_WIDTH))"

definition vga_newline :: "vga_text \<Rightarrow> vga_text option" where
  "vga_newline v =
     (let v = v\<lparr>vga_row := vga_row v + 1, vga_col := 0\<rparr> in
      if vga_row v = vga_rows v then do {
        let count = vga_pitch v * (vga_rows v - 1) * CHAR_HEIGHT;
        v \<leftarrow> vram_move (vga_pitch v * CHAR_HEIGHT) 0 count v;
        v \<leftarrow> fold_opt (\<lambda>y v. blank_line (count + vga_pitch v * y) v) [0..<CHAR_HEIGHT] v;
        Some (v\<lparr>vga_row := vga_row v - 1\<rparr>) }
      else Some v)"

definition write_glyph_line :: "nat \<Rightarrow> u8 \<Rightarrow> vga_text \<Rightarrow> vga_text option" where
  "write_glyph_line pos glyph v = fold_opt (\<lambda>glyph_x v.
     let pos = pos + glyph_x * STRIDE in
     if glyph AND drop_bit glyph_x 0x80 \<noteq> 0 then do {
       v \<leftarrow> vram_write (pos + 0) 0 v;
       v \<leftarrow> vram_write (pos + 1) 0 v;
       vram_write (pos + 2) 0 v }
     else Some v) [0..<CHAR_WIDTH] v"

definition write_cp437 :: "u8 \<Rightarrow> vga_text \<Rightarrow> vga_text option" where
  "write_cp437 b v = do {
     let pos = vga_row v * CHAR_HEIGHT * vga_pitch v + vga_col v * CHAR_WIDTH * STRIDE;
     v \<leftarrow> fold_opt (\<lambda>glyph_y v.
        if unat b * 16 + glyph_y < length (bios_font v)
        then write_glyph_line (pos + glyph_y * vga_pitch v) (bios_font v ! (unat b * 16 + glyph_y)) v
        else None) [0..<CHAR_HEIGHT] v;
     let v = v\<lparr>vga_col := vga_col v + 1\<rparr>;
     cols \<leftarrow> vga_cols v;
     if vga_col v = cols then vga_newline v else Some v }"

text \<open>\<open>str::chars\<close> of the standard library on the bytes of a string.\<close>

function utf8_chars :: "u8 list \<Rightarrow> u8 list list" where
  "utf8_chars [] = []"
| "utf8_chars (b # rest) =
     take (max 1 (char_width b)) (b # rest) # utf8_chars (drop (max 1 (char_width b)) (b # rest))"
  by pat_completeness auto
termination by (relation "measure length") auto

definition write_char :: "u8 list \<Rightarrow> vga_text \<Rightarrow> vga_text option" where
  "write_char c v =
     (if c = [0x0a] then vga_newline v
      else if length c = 1 then write_cp437 (hd c) v
      else write_cp437 0x3f v)"

definition vga_write_str :: "u8 list \<Rightarrow> vga_text \<Rightarrow> vga_text option" where
  "vga_write_str s v = fold_opt write_char (utf8_chars s) v"

section \<open>The console\<close>

datatype console = ConPortE9 | ConVgaText vga_text

record console_state =
  CONSOLE :: console
  port_e9 :: "u8 list"

definition console_write_str :: "u8 list \<Rightarrow> console_state \<Rightarrow> console_state option" where
  "console_write_str s c =
     (case CONSOLE c of
        ConPortE9 \<Rightarrow> Some (c\<lparr>port_e9 := port_e9 c @ s\<rparr>)
      | ConVgaText v \<Rightarrow> do { v \<leftarrow> vga_write_str s v; Some (c\<lparr>CONSOLE := ConVgaText v\<rparr>) })"

definition console_set :: "console \<Rightarrow> console_state \<Rightarrow> console_state" where
  "console_set con c = c\<lparr>CONSOLE := con\<rparr>"

text \<open>\<open>fmt::write\<close> of the standard library hands the pieces of the formatted text to \<open>write_str\<close>.\<close>

definition console_write_fmt :: "u8 list list \<Rightarrow> console_state \<Rightarrow> console_state option" where
  "console_write_fmt pieces c = fold_opt console_write_str pieces c"

record vbe_mode_info =
  vbe_pitch :: u16
  vbe_x_res :: u16
  vbe_y_res :: u16
  vbe_phys_base :: u32

text \<open>\<open>virt\<close> is the address of the array \<open>VRAM\<close>, which the linker chooses, \<open>vm\<close> what video memory holds.\<close>

definition console_init :: "u64 \<Rightarrow> (nat \<Rightarrow> u8) \<Rightarrow> u8 list \<Rightarrow> vbe_mode_info \<Rightarrow> u8 list \<Rightarrow> kmem \<times> console_state
    \<Rightarrow> (kmem \<times> console_state) option" where
  "console_init virt vm crab info font st = (case st of (k, c) \<Rightarrow> do {
     k \<leftarrow> fold_opt (\<lambda>i k. do {
       let off = of_nat i * PAGE_SIZE;
       (phys, k) \<leftarrow> phys_new (ucast (vbe_phys_base info) + off) k;
       (r, k) \<leftarrow> page_map phys (virt + off) (PRESENT OR WRITE) k;
       (case r of Inl _ \<Rightarrow> None | Inr _ \<Rightarrow> Some k) }) [0..<VRAM_SIZE div 4096] k;
     v \<leftarrow> vga_blank crab \<lparr>vram = vm, bios_font = take 4096 font, vga_width = unat (vbe_x_res info),
       vga_height = unat (vbe_y_res info), vga_pitch = unat (vbe_pitch info), vga_col = 0, vga_row = 0\<rparr>;
     Some (k, console_set (ConVgaText v) c) })"

section \<open>Geometry\<close>

definition vga_ok :: "vga_text \<Rightarrow> bool" where
  "vga_ok v \<longleftrightarrow> 264 \<le> vga_width v \<and> 16 \<le> vga_height v \<and> 3 * vga_width v \<le> vga_pitch v
     \<and> vga_height v * vga_pitch v \<le> VRAM_SIZE \<and> length (bios_font v) = 4096
     \<and> vga_row v < vga_rows v \<and> vga_col v < (vga_width v - 256) div CHAR_WIDTH"

definition background :: "nat \<Rightarrow> u8" where
  "background k = (if k mod 3 = 0 then BLUE else if k mod 3 = 1 then GREEN else RED)"

lemma vram_write_in: "p < VRAM_SIZE \<Longrightarrow> vram_write p b v = Some (v\<lparr>vram := (vram v)(p := b)\<rparr>)"
  by (simp add: vram_write_def)

text \<open>A blanked line.\<close>

definition blanked :: "nat \<Rightarrow> nat \<Rightarrow> (nat \<Rightarrow> u8) \<Rightarrow> nat \<Rightarrow> u8" where
  "blanked line n m = (\<lambda>i. if line \<le> i \<and> i < line + n * 3 then background (i - line) else m i)"

lemma background_3:
  "background (n * 3) = BLUE" "background (Suc (n * 3)) = GREEN" "background (Suc (Suc (n * 3))) = RED"
proof -
  have "(n * 3) mod 3 = 0" "Suc (n * 3) mod 3 = 1" "Suc (Suc (n * 3)) mod 3 = 2" by presburger+
  then show "background (n * 3) = BLUE" "background (Suc (n * 3)) = GREEN" "background (Suc (Suc (n * 3))) = RED"
    by (simp_all add: background_def)
qed

lemma blanked_Suc:
  "(blanked line n m)(line + n * 3 := BLUE, line + (n * 3 + 1) := GREEN, line + (n * 3 + 2) := RED) = blanked line (Suc n) m"
proof
  fix i
  consider "i < line + n * 3" | "i = line + n * 3" | "i = line + n * 3 + 1" | "i = line + n * 3 + 2" | "line + Suc n * 3 \<le> i"
    by fastforce
  then show "((blanked line n m)(line + n * 3 := BLUE, line + (n * 3 + 1) := GREEN, line + (n * 3 + 2) := RED)) i
      = blanked line (Suc n) m i"
    by cases (auto simp: blanked_def background_3)
qed

lemma blank_pixels:
  assumes "line + n * 3 \<le> VRAM_SIZE"
  shows "fold_opt (\<lambda>x v. do {
     v \<leftarrow> vram_write (line + (x * 3 + 0)) BLUE v;
     v \<leftarrow> vram_write (line + (x * 3 + 1)) GREEN v;
     vram_write (line + (x * 3 + 2)) RED v }) [0..<n] v = Some (v\<lparr>vram := blanked line n (vram v)\<rparr>)"
  using assms
proof (induction n)
  case 0
  have "blanked line 0 (vram v) = vram v" by (rule ext) (auto simp: blanked_def)
  then show ?case by simp
next
  case (Suc n)
  then show ?case
    using blanked_Suc[of line n "vram v"] by (simp add: fold_opt_append vram_write_in)
qed

lemma blank_line_eq:
  "line + vga_width v * 3 \<le> VRAM_SIZE \<Longrightarrow>
   blank_line line v = Some (v\<lparr>vram := blanked line (vga_width v) (vram v)\<rparr>)"
  unfolding blank_line_def by (rule blank_pixels)

text \<open>The lines of a text row.\<close>

definition blanked_row :: "nat \<Rightarrow> vga_text \<Rightarrow> nat \<Rightarrow> (nat \<Rightarrow> u8) \<Rightarrow> nat \<Rightarrow> u8" where
  "blanked_row base v n m = fold (\<lambda>y m. blanked (base + vga_pitch v * y) (vga_width v) m) [0..<n] m"

lemma blank_row_eq:
  assumes "3 * vga_width v \<le> vga_pitch v" "base + vga_pitch v * n \<le> VRAM_SIZE"
  shows "fold_opt (\<lambda>y v. blank_line (base + vga_pitch v * y) v) [0..<n] v
    = Some (v\<lparr>vram := blanked_row base v n (vram v)\<rparr>)"
  using assms(2)
proof (induction n)
  case 0
  then show ?case by (simp add: blanked_row_def)
next
  case (Suc n)
  have "base + vga_pitch v * n + vga_width v * 3 \<le> VRAM_SIZE" using assms(1) Suc.prems by simp
  then show ?case using Suc by (simp add: fold_opt_append blank_line_eq blanked_row_def)
qed

lemma blanked_row_below: "i < base \<Longrightarrow> blanked_row base v n m i = m i"
  by (induction n) (simp_all add: blanked_row_def blanked_def)

lemma blanked_row_pixel:
  assumes "3 * vga_width v \<le> vga_pitch v" "y < n" "x < vga_width v * 3"
  shows "blanked_row base v n m (base + vga_pitch v * y + x) = background x"
  using assms(2)
proof (induction n)
  case (Suc n)
  have step: "blanked_row base v (Suc n) m = blanked (base + vga_pitch v * n) (vga_width v) (blanked_row base v n m)"
    by (simp add: blanked_row_def)
  show ?case
  proof (cases "y = n")
    case True
    then show ?thesis using assms(3) unfolding step by (simp add: blanked_def)
  next
    case False
    then have "y < n" using Suc.prems by simp
    moreover have "vga_pitch v * y + x < vga_pitch v * n"
    proof -
      have "vga_pitch v * y + vga_pitch v \<le> vga_pitch v * n"
        using \<open>y < n\<close> mult_le_mono2[of "Suc y" n "vga_pitch v"] by simp
      then show ?thesis using assms(1,3) by linarith
    qed
    ultimately show ?thesis using Suc.IH unfolding step by (simp add: blanked_def)
  qed
qed simp

section \<open>Lines and characters\<close>

lemma vga_rows_pos: "vga_ok v \<Longrightarrow> 0 < vga_rows v"
  by (simp add: vga_ok_def)

lemma rows_in_vram:
  assumes "vga_ok v" "k \<le> vga_rows v"
  shows "vga_pitch v * k * 16 \<le> VRAM_SIZE"
proof -
  have "k * 16 \<le> vga_height v" using assms(2) by (simp add: vga_rows_def CHAR_HEIGHT_def)
  then have "k * 16 * vga_pitch v \<le> vga_height v * vga_pitch v" by (rule mult_le_mono1)
  moreover have "vga_pitch v * k * 16 = k * 16 * vga_pitch v" by simp
  ultimately show ?thesis using assms(1) unfolding vga_ok_def by linarith
qed

text \<open>A new line: the cursor moves down, or everything scrolls up by a row and the last row is blank.\<close>

lemma vga_newline_eq:
  assumes ok: "vga_ok v"
  shows "vga_newline v =
    (if vga_row v + 1 = vga_rows v then
       let count = vga_pitch v * (vga_rows v - 1) * 16 in
       Some (v\<lparr>vga_col := 0, vram := blanked_row count v 16
         (\<lambda>i. if i < count then vram v (vga_pitch v * 16 + i) else vram v i)\<rparr>)
     else Some (v\<lparr>vga_row := vga_row v + 1, vga_col := 0\<rparr>))"
proof (cases "vga_row v + 1 = vga_rows v")
  case True
  define n where "n = vga_rows v - 1"
  have n: "vga_rows v = Suc n" using vga_rows_pos[OF ok] by (simp add: n_def)
  define count where "count = vga_pitch v * n * 16"
  let ?v = "v\<lparr>vga_row := vga_row v + 1, vga_col := 0\<rparr>"
  let ?m = "\<lambda>i. if i < count then vram v (vga_pitch v * 16 + i) else vram v i"
  have le: "count + vga_pitch v * 16 \<le> VRAM_SIZE"
    using rows_in_vram[OF ok, of "vga_rows v"] by (simp add: n count_def algebra_simps)
  have rows: "vga_rows ?v = vga_rows v" by (simp add: vga_rows_def)
  have move: "vram_move (vga_pitch v * 16) 0 count ?v = Some (?v\<lparr>vram := ?m\<rparr>)"
    using le by (simp add: vram_move_def add.commute cong: if_cong)
  have "fold_opt (\<lambda>y v. blank_line (count + vga_pitch v * y) v) [0..<16] (?v\<lparr>vram := ?m\<rparr>)
      = Some (?v\<lparr>vram := blanked_row count v 16 ?m\<rparr>)"
    using blank_row_eq[of "?v\<lparr>vram := ?m\<rparr>" count 16] ok le by (simp add: vga_ok_def blanked_row_def)
  then show ?thesis
    using True move unfolding vga_newline_def Let_def rows
    by (simp add: n CHAR_HEIGHT_def flip: count_def)
next
  case False
  then show ?thesis by (simp add: vga_newline_def vga_rows_def)
qed

text \<open>A character: its pixels stay in video memory.\<close>

lemma write_glyph_line_ok:
  assumes "pos + 24 \<le> VRAM_SIZE"
  shows "\<exists>m. write_glyph_line pos glyph v = Some (v\<lparr>vram := m\<rparr>)"
proof -
  let ?P = "\<lambda>t. \<exists>m. t = v\<lparr>vram := m\<rparr>"
  let ?f = "\<lambda>glyph_x v. let pos = pos + glyph_x * STRIDE in
     if glyph AND drop_bit glyph_x 0x80 \<noteq> 0 then do {
       v \<leftarrow> vram_write (pos + 0) 0 v;
       v \<leftarrow> vram_write (pos + 1) 0 v;
       vram_write (pos + 2) 0 v }
     else Some v"
  have "\<exists>t'. ?f x t = Some t' \<and> ?P t'" if "x \<in> set [0..<CHAR_WIDTH]" "?P t" for x t
  proof -
    have "pos + x * 3 + 2 < VRAM_SIZE" using that(1) assms by (simp add: CHAR_WIDTH_def)
    then show ?thesis using that(2) by (auto simp: vram_write_in STRIDE_def Let_def)
  qed
  moreover have "?P v" by (rule exI[of _ "vram v"]) simp
  ultimately show ?thesis unfolding write_glyph_line_def using fold_opt_total[of ?P v "[0..<CHAR_WIDTH]" ?f] by blast
qed

lemma glyph_in_vram:
  assumes ok: "vga_ok v" and y: "y < 16"
  shows "vga_row v * 16 * vga_pitch v + vga_col v * 8 * 3 + y * vga_pitch v + 24 \<le> VRAM_SIZE"
proof -
  have "vga_col v < (vga_width v - 256) div 8" using ok by (simp add: vga_ok_def CHAR_WIDTH_def)
  then have "Suc (vga_col v) * 8 \<le> vga_width v - 256"
    using less_eq_div_iff_mult_less_eq[of 8 "Suc (vga_col v)" "vga_width v - 256"] by simp
  then have "vga_col v * 8 + 8 \<le> vga_width v" by simp
  moreover have "264 \<le> vga_width v" "3 * vga_width v \<le> vga_pitch v" using ok by (simp_all add: vga_ok_def)
  ultimately have c: "vga_col v * 8 * 3 + 24 \<le> vga_pitch v" by linarith
  have "vga_row v < vga_height v div 16" using ok by (simp add: vga_ok_def vga_rows_def CHAR_HEIGHT_def)
  then have "vga_row v * 16 + Suc y \<le> vga_height v" using y by linarith
  then have "(vga_row v * 16 + Suc y) * vga_pitch v \<le> vga_height v * vga_pitch v" by (rule mult_le_mono1)
  moreover have "vga_height v * vga_pitch v \<le> VRAM_SIZE" using ok by (simp add: vga_ok_def)
  moreover have "(vga_row v * 16 + Suc y) * vga_pitch v = vga_row v * 16 * vga_pitch v + y * vga_pitch v + vga_pitch v"
    by (simp add: algebra_simps)
  ultimately show ?thesis using c by linarith
qed

lemma write_glyph_ok:
  fixes b :: u8
  assumes ok: "vga_ok v"
  shows "\<exists>m. fold_opt (\<lambda>glyph_y v'.
        if unat b * 16 + glyph_y < length (bios_font v')
        then write_glyph_line (vga_row v * CHAR_HEIGHT * vga_pitch v + vga_col v * CHAR_WIDTH * STRIDE
          + glyph_y * vga_pitch v') (bios_font v' ! (unat b * 16 + glyph_y)) v'
        else None) [0..<CHAR_HEIGHT] v = Some (v\<lparr>vram := m\<rparr>)"
proof -
  let ?P = "\<lambda>t. \<exists>m. t = v\<lparr>vram := m\<rparr>"
  let ?f = "\<lambda>glyph_y v'. if unat b * 16 + glyph_y < length (bios_font v')
        then write_glyph_line (vga_row v * CHAR_HEIGHT * vga_pitch v + vga_col v * CHAR_WIDTH * STRIDE
          + glyph_y * vga_pitch v') (bios_font v' ! (unat b * 16 + glyph_y)) v'
        else None"
  have b: "unat b < 256" using unsigned_less[of b, where ?'a = nat] by simp
  have "\<exists>t'. ?f y t = Some t' \<and> ?P t'" if mem: "y \<in> set [0..<CHAR_HEIGHT]" and P: "?P t" for y t
  proof -
    obtain m where t: "t = v\<lparr>vram := m\<rparr>" using P by blast
    have y: "y < 16" using mem by (simp add: CHAR_HEIGHT_def)
    then have "unat b * 16 + y < length (bios_font t)" using b ok by (simp add: t vga_ok_def)
    then show ?thesis
      using write_glyph_line_ok[OF glyph_in_vram[OF ok y], of "bios_font t ! (unat b * 16 + y)" t]
      by (auto simp: t CHAR_HEIGHT_def CHAR_WIDTH_def STRIDE_def)
  qed
  moreover have "?P v" by (rule exI[of _ "vram v"]) simp
  ultimately show ?thesis using fold_opt_total[of ?P v "[0..<CHAR_HEIGHT]" ?f] by blast
qed

text \<open>The cursor that the screen shows: a position, moved by each character.\<close>

definition cursor_newline :: "nat \<Rightarrow> nat \<times> nat \<Rightarrow> nat \<times> nat" where
  "cursor_newline rows p = (min (fst p + 1) (rows - 1), 0)"

definition cursor_char :: "nat \<Rightarrow> nat \<Rightarrow> u8 list \<Rightarrow> nat \<times> nat \<Rightarrow> nat \<times> nat" where
  "cursor_char rows cols c p =
     (if c = [0x0a] \<or> snd p + 1 = cols then cursor_newline rows p else (fst p, snd p + 1))"

abbreviation cursor :: "vga_text \<Rightarrow> nat \<times> nat" where
  "cursor v \<equiv> (vga_row v, vga_col v)"

definition same_screen :: "vga_text \<Rightarrow> vga_text \<Rightarrow> bool" where
  "same_screen v w \<longleftrightarrow> vga_width w = vga_width v \<and> vga_height w = vga_height v \<and> vga_pitch w = vga_pitch v
     \<and> bios_font w = bios_font v"

lemma same_screen_rows: "same_screen v w \<Longrightarrow> vga_rows w = vga_rows v \<and> vga_cols w = vga_cols v"
  by (simp add: same_screen_def vga_rows_def vga_cols_def)

lemma vga_newline_ok:
  assumes ok: "vga_ok v"
  shows "\<exists>w. vga_newline v = Some w \<and> vga_ok w \<and> same_screen v w \<and> cursor w = cursor_newline (vga_rows v) (cursor v)"
proof (cases "vga_row v + 1 = vga_rows v")
  case True
  then show ?thesis using ok
    by (auto simp: vga_newline_eq[OF ok] Let_def vga_ok_def same_screen_def cursor_newline_def vga_rows_def)
next
  case False
  then have "Suc (vga_row v) < vga_rows v" using ok by (simp add: vga_ok_def)
  then show ?thesis using ok False
    by (auto simp: vga_newline_eq[OF ok] vga_ok_def same_screen_def cursor_newline_def vga_rows_def)
qed

lemma write_cp437_ok:
  assumes ok: "vga_ok v"
  shows "\<exists>w. write_cp437 b v = Some w \<and> vga_ok w \<and> same_screen v w
    \<and> cursor w = (if vga_col v + 1 = (vga_width v - 256) div 8 then cursor_newline (vga_rows v) (cursor v)
        else (vga_row v, vga_col v + 1))"
proof -
  obtain m where m: "fold_opt (\<lambda>glyph_y v'.
        if unat b * 16 + glyph_y < length (bios_font v')
        then write_glyph_line (vga_row v * CHAR_HEIGHT * vga_pitch v + vga_col v * CHAR_WIDTH * STRIDE
          + glyph_y * vga_pitch v') (bios_font v' ! (unat b * 16 + glyph_y)) v'
        else None) [0..<CHAR_HEIGHT] v = Some (v\<lparr>vram := m\<rparr>)"
    using write_glyph_ok[OF ok, of b] by blast
  let ?w = "v\<lparr>vram := m, vga_col := vga_col v + 1\<rparr>"
  have c: "vga_cols ?w = Some ((vga_width v - 256) div 8)"
    using ok by (simp add: vga_cols_def vga_ok_def CHAR_WIDTH_def)
  have e: "write_cp437 b v = (if vga_col v + 1 = (vga_width v - 256) div 8 then vga_newline ?w else Some ?w)"
    using m c by (simp add: write_cp437_def)
  have nl: "vga_newline ?w = vga_newline (v\<lparr>vram := m\<rparr>)" by (simp add: vga_newline_def)
  have okm: "vga_ok (v\<lparr>vram := m\<rparr>)" using ok by (simp add: vga_ok_def vga_rows_def)
  show ?thesis
  proof (cases "vga_col v + 1 = (vga_width v - 256) div 8")
    case True
    then show ?thesis
      using vga_newline_ok[OF okm] unfolding e nl by (auto simp: same_screen_def vga_rows_def cursor_newline_def)
  next
    case False
    then have "vga_ok ?w" using ok by (simp add: vga_ok_def vga_rows_def CHAR_WIDTH_def)
    then show ?thesis using False unfolding e by (simp add: same_screen_def)
  qed
qed

lemma write_char_ok:
  assumes ok: "vga_ok v"
  shows "\<exists>w. write_char c v = Some w \<and> vga_ok w \<and> same_screen v w
    \<and> cursor w = cursor_char (vga_rows v) ((vga_width v - 256) div 8) c (cursor v)"
  using vga_newline_ok[OF ok] write_cp437_ok[OF ok]
  by (auto simp: write_char_def cursor_char_def)

lemma write_chars_ok:
  "vga_ok v \<Longrightarrow> \<exists>w. fold_opt write_char cs v = Some w \<and> vga_ok w \<and> same_screen v w
    \<and> cursor w = fold (cursor_char (vga_rows v) ((vga_width v - 256) div 8)) cs (cursor v)"
proof (induction cs arbitrary: v)
  case (Cons c cs)
  obtain u where u: "write_char c v = Some u" "vga_ok u" "same_screen v u"
    "cursor u = cursor_char (vga_rows v) ((vga_width v - 256) div 8) c (cursor v)"
    using write_char_ok[OF Cons.prems] by blast
  obtain w where "fold_opt write_char cs u = Some w" "vga_ok w" "same_screen u w"
    "cursor w = fold (cursor_char (vga_rows u) ((vga_width u - 256) div 8)) cs (cursor u)"
    using Cons.IH[OF u(2)] by blast
  then show ?case using u same_screen_rows[OF u(3)] by (simp add: same_screen_def)
qed (simp add: same_screen_def)

section \<open>Properties\<close>

text \<open>C26: Writing text is memory safe.  On a screen whose lines fit into video memory and whose cursor is within
  the text area, \<open>write_str\<close> of any string returns, without an access outside video memory and
  without a panic, and leaves the cursor in the text area, at the position that the
  characters give: each moves it right or, at the end of a line and for a newline, to the
  beginning of the next line, which is the last one once the screen is full.\<close>

theorem vga_write_str_safe:
  assumes "vga_ok v"
  shows "\<exists>w. vga_write_str s v = Some w \<and> vga_ok w \<and> same_screen v w
    \<and> cursor w = fold (cursor_char (vga_rows v) ((vga_width v - 256) div 8)) (utf8_chars s) (cursor v)"
  unfolding vga_write_str_def using assms by (rule write_chars_ok)

definition sample_screen :: vga_text where
  "sample_screen = \<lparr>vram = (\<lambda>_. 0), bios_font = replicate 4096 0xff, vga_width = 280, vga_height = 32,
     vga_pitch = 840, vga_col = 1, vga_row = 1\<rparr>"

lemma sample_screen_ok: "vga_ok sample_screen"
  by (simp add: vga_ok_def sample_screen_def VRAM_SIZE_def vga_rows_def CHAR_HEIGHT_def CHAR_WIDTH_def)

theorem vga_write_str_safe_witness:
  "\<exists>w. vga_write_str [0x61, 0x62] sample_screen = Some w \<and> vga_ok w \<and> cursor w = (1, 0)"
proof -
  have "fold (cursor_char (vga_rows sample_screen) ((vga_width sample_screen - 256) div 8)) (utf8_chars [0x61, 0x62])
      (cursor sample_screen) = (1, 0)"
    by (simp add: sample_screen_def vga_rows_def CHAR_HEIGHT_def cursor_char_def cursor_newline_def char_width_def)
  then show ?thesis using vga_write_str_safe[OF sample_screen_ok, of "[0x61, 0x62]"] by auto
qed

text \<open>Scrolling.  A newline in the last row of the screen moves every line of pixels up by the height of a
  character and fills the last row with the background; nothing else of the screen changes but the column.\<close>

lemma vga_scroll:
  assumes "vga_ok v" "vga_row v + 1 = vga_rows v"
  shows "\<exists>m. vga_newline v = Some (v\<lparr>vga_col := 0, vram := m\<rparr>)
    \<and> (\<forall>i < vga_pitch v * (vga_rows v - 1) * 16. m i = vram v (vga_pitch v * 16 + i))
    \<and> (\<forall>y < 16. \<forall>x < vga_width v * 3. m (vga_pitch v * (vga_rows v - 1) * 16 + vga_pitch v * y + x) = background x)"
  using assms blanked_row_pixel[of v _ 16] unfolding vga_newline_eq[OF assms(1)] Let_def
  by (auto simp: blanked_row_below vga_ok_def)

lemma vga_scroll_witness:
  "\<exists>m. vga_newline sample_screen = Some (sample_screen\<lparr>vga_col := 0, vram := m\<rparr>)
    \<and> m (840 * 16) = BLUE"
proof -
  have e: "vga_row sample_screen + 1 = vga_rows sample_screen" "vga_pitch sample_screen = 840"
    "vga_rows sample_screen - 1 = 1" "0 < vga_width sample_screen"
    by (simp_all add: sample_screen_def vga_rows_def CHAR_HEIGHT_def)
  then show ?thesis
    using vga_scroll[OF sample_screen_ok e(1)] by (force simp: background_def)
qed

end
