(* ===== verification/Vfs.thy ===== *)
theory Vfs
  imports Fat16_Disk Console
begin

text \<open>
  The files that user programs see: \<open>kernel/src/fs/vfs.rs\<close>, and the keyboard buffer of
  \<open>kernel/src/device/keyboard.rs\<close> that the console file reads.

  \<open>push_back\<close> is the method of the third-party \<open>ArrayDeque\<close> (its argument is the buffer of 32 bytes),
  \<open>isp\<close> is \<open>intersperse\<close> of the third-party crate \<open>itertools\<close>.  A read that waits for a key is \<open>PollPending\<close>.
\<close>

section \<open>Keyboard\<close>

datatype 'a polled = PollPending | PollReady 'a

definition keyboard_init :: "u8 list option" where
  "keyboard_init = Some []"

definition read_scancode :: "u8 list option \<Rightarrow> (u8 polled \<times> u8 list option) option" where
  "read_scancode buff =
     (case buff of
        None \<Rightarrow> None
      | Some [] \<Rightarrow> Some (PollPending, Some [])
      | Some (s # rest) \<Rightarrow> Some (PollReady s, Some rest))"

text \<open>The interrupt handler; \<open>raw_scancode\<close> is what port 0x60 holds.\<close>

definition keyboard_interrupt :: "(u8 list \<Rightarrow> u8 \<Rightarrow> u8 list option) \<Rightarrow> u8 \<Rightarrow> u8 list option \<Rightarrow> u8 list option" where
  "keyboard_interrupt push_back raw_scancode buff =
     (case buff of
        None \<Rightarrow> None
      | Some q \<Rightarrow> (case push_back q raw_scancode of Some q \<Rightarrow> Some q | None \<Rightarrow> Some q))"

section \<open>Opening a path\<close>

record 'd vfs_world =
  vdisk :: 'd
  keys :: "u8 list option"
  vconsole :: console_state

datatype open_error = NotFound | OpenFat fat_error

definition open_error_sys :: "open_error \<Rightarrow> sys_error" where
  "open_error_sys e = (case e of NotFound \<Rightarrow> SysNoFile | OpenFat e \<Rightarrow> fat_error_sys e)"

datatype vfs_file = VConsole | VFat open_result

text \<open>\<open>slice::split\<close> of the standard library.\<close>

fun split_on :: "'a \<Rightarrow> 'a list \<Rightarrow> 'a list list" where
  "split_on x [] = [[]]"
| "split_on x (y # ys) =
     (if y = x then [] # split_on x ys
      else case split_on x ys of [] \<Rightarrow> [[y]] | s # ss \<Rightarrow> (y # s) # ss)"

fun vfs_open_loop :: "'d fat_env \<Rightarrow> directory \<Rightarrow> u8 list list \<Rightarrow> 'd \<Rightarrow> ((open_error + vfs_file) \<times> 'd) option" where
  "vfs_open_loop fe container [] d = Some (Inr (VFat (FatDir container)), d)"
| "vfs_open_loop fe container (segment # segments) d =
     (if segment = [] then vfs_open_loop fe container segments d
      else do {
        (r, d) \<leftarrow> directory_entry fe container segment d;
        (case r of
           Inl e \<Rightarrow> Some (Inl (OpenFat e), d)
         | Inr None \<Rightarrow> Some (Inl NotFound, d)
         | Inr (Some ent) \<Rightarrow>
             (case dir_entry_open fe ent of
                Inr (FatDir dir) \<Rightarrow> vfs_open_loop fe dir segments d
              | Inr (FatFile file) \<Rightarrow>
                  (case segments of
                     [] \<Rightarrow> Some (Inr (VFat (FatFile file)), d)
                   | _ # _ \<Rightarrow> Some (Inl NotFound, d))
              | Inl e \<Rightarrow> Some (Inl (OpenFat e), d))) })"

definition vfs_open :: "'d fat_env \<Rightarrow> filesystem \<Rightarrow> u8 list \<Rightarrow> 'd \<Rightarrow> ((open_error + vfs_file) \<times> 'd) option" where
  "vfs_open fe root path d =
     (case split_on 0x2f path of
        [] \<Rightarrow> Some (Inl NotFound, d)
      | segment # segments \<Rightarrow>
          if segment \<noteq> [] then Some (Inl NotFound, d) else vfs_open_loop fe (fat16_root root) segments d)"

section \<open>Reading and writing\<close>

definition vfs_file_read :: "'d fat_env \<Rightarrow> vfs_file \<Rightarrow> nat \<Rightarrow> 'd vfs_world
    \<Rightarrow> (((nat sys_result \<times> u8 list) polled) \<times> vfs_file \<times> 'd vfs_world) option" where
  "vfs_file_read fe file n w =
     (case file of
        VConsole \<Rightarrow>
          if n = 0 then Some (PollReady (Inr 0, []), file, w)
          else do {
            (r, buff) \<leftarrow> read_scancode (keys w);
            Some (case r of PollPending \<Rightarrow> PollPending | PollReady s \<Rightarrow> PollReady (Inr 1, [s]), file, w\<lparr>keys := buff\<rparr>) }
      | VFat (FatFile f) \<Rightarrow> do {
          (r, bytes, f, d) \<leftarrow> file_read fe f n (vdisk w);
          Some (PollReady (case r of Inl e \<Rightarrow> Inl (fat_error_sys e) | Inr k \<Rightarrow> Inr k, bytes), VFat (FatFile f), w\<lparr>vdisk := d\<rparr>) }
      | VFat (FatDir _) \<Rightarrow> Some (PollReady (Inl SysInvalidOperation, []), file, w))"

text \<open>The parts are pulled until the iterator ends; a call yields at least one byte or the iterator never
  ends, so one call more than there are bytes is enough.\<close>

definition vfs_file_write :: "(u8 list \<Rightarrow> u8 list list \<Rightarrow> u8 list list) \<Rightarrow> vfs_file \<Rightarrow> u8 list \<Rightarrow> 'd vfs_world
    \<Rightarrow> (nat sys_result \<times> 'd vfs_world) option" where
  "vfs_file_write isp file buf w =
     (case file of
        VConsole \<Rightarrow> do {
          parts \<leftarrow> utf8_valid_parts (Suc (length buf)) buf 0;
          con \<leftarrow> fold_opt console_write_str (isp [0x3f] parts) (vconsole w);
          Some (Inr (length buf), w\<lparr>vconsole := con\<rparr>) }
      | VFat _ \<Rightarrow> None)"

section \<open>The keyboard buffer is a bounded queue\<close>

datatype key_event = KeyDown u8 | KeyRead

text \<open>A run of interrupts and reads: the scancodes delivered, those accepted, and the buffer left.\<close>

fun key_run :: "(u8 list \<Rightarrow> u8 \<Rightarrow> u8 list option) \<Rightarrow> key_event list \<Rightarrow> u8 list \<Rightarrow> u8 list \<times> u8 list \<times> u8 list" where
  "key_run push [] q = ([], [], q)"
| "key_run push (KeyDown s # es) q =
     (case keyboard_interrupt push s (Some q) of
        None \<Rightarrow> ([], [], q)
      | Some q' \<Rightarrow> (case key_run push es q' of (out, acc, r) \<Rightarrow> (out, if length q < 32 then s # acc else acc, r)))"
| "key_run push (KeyRead # es) q =
     (case read_scancode (Some q) of
        Some (PollReady s, Some q') \<Rightarrow> (case key_run push es q' of (out, acc, r) \<Rightarrow> (s # out, acc, r))
      | _ \<Rightarrow> key_run push es q)"

lemma keyboard_fifo:
  assumes "\<And>q s. push q s = (if length q < 32 then Some (q @ [s]) else None)"
  shows "key_run push es q = (out, acc, r) \<Longrightarrow> out @ r = q @ acc"
proof (induction es arbitrary: q out acc r)
  case (Cons e es)
  show ?case
  proof (cases e)
    case (KeyDown s)
    then show ?thesis
      using Cons.prems Cons.IH[of "q @ [s]"] Cons.IH[of q] assms[of q s]
      by (auto simp: keyboard_interrupt_def split: prod.splits if_splits)
  next
    case KeyRead
    then show ?thesis
      using Cons.prems Cons.IH by (cases q) (auto simp: read_scancode_def split: prod.splits)
  qed
qed simp

section \<open>Paths\<close>

text \<open>The reference: the names of a path, resolved one after the other.\<close>

fun resolve :: "'d fat_env \<Rightarrow> directory \<Rightarrow> u8 list list \<Rightarrow> 'd \<Rightarrow> ((open_error + vfs_file) \<times> 'd) option" where
  "resolve fe c [] d = Some (Inr (VFat (FatDir c)), d)"
| "resolve fe c (name # names) d = do {
     (r, d) \<leftarrow> directory_entry fe c name d;
     (case r of
        Inl e \<Rightarrow> Some (Inl (OpenFat e), d)
      | Inr None \<Rightarrow> Some (Inl NotFound, d)
      | Inr (Some e) \<Rightarrow>
          if is_dir fe e then resolve fe \<lparr>dir_fs = entry_fs e, dir_kind = Sub e\<rparr> names d
          else if names = [] then Some (Inr (VFat (FatFile \<lparr>file_fs = entry_fs e, file_dirent = e,
            file_seek = \<lparr>seek_cluster = Some (first_cluster (dirent e)), seek_sector = 0, seek_offset = 0\<rparr>\<rparr>)), d)
          else Some (Inl NotFound, d)) }"

lemma vfs_open_loop_resolve:
  "segs = [] \<or> last segs \<noteq> [] \<Longrightarrow> vfs_open_loop fe c segs d = resolve fe c (filter (\<lambda>s. s \<noteq> []) segs) d"
proof (induction segs arbitrary: c d)
  case (Cons s segs)
  have l: "segs = [] \<or> last segs \<noteq> []" using Cons.prems by (cases segs) auto
  have e: "filter (\<lambda>s. s \<noteq> []) segs = [] \<longleftrightarrow> segs = []"
    using l by (cases segs rule: rev_cases) auto
  show ?case
  proof (cases "s = []")
    case True
    then show ?thesis using Cons.IH[OF l] by simp
  next
    case False
    have step: "(case dir_entry_open fe ent of
           Inr (FatDir dir) \<Rightarrow> vfs_open_loop fe dir segs d
         | Inr (FatFile file) \<Rightarrow> (case segs of [] \<Rightarrow> Some (Inr (VFat (FatFile file)), d) | _ # _ \<Rightarrow> Some (Inl NotFound, d))
         | Inl e \<Rightarrow> Some (Inl (OpenFat e), d))
      = (if is_dir fe ent then resolve fe \<lparr>dir_fs = entry_fs ent, dir_kind = Sub ent\<rparr> (filter (\<lambda>s. s \<noteq> []) segs) d
         else if filter (\<lambda>s. s \<noteq> []) segs = [] then Some (Inr (VFat (FatFile \<lparr>file_fs = entry_fs ent, file_dirent = ent,
            file_seek = \<lparr>seek_cluster = Some (first_cluster (dirent ent)), seek_sector = 0, seek_offset = 0\<rparr>\<rparr>)), d)
         else Some (Inl NotFound, d))" for ent d
      unfolding dir_entry_open_def Let_def e list.case_eq_if by (simp add: Cons.IH[OF l])
    show ?thesis using False unfolding vfs_open_loop.simps step by simp
  qed
qed simp

lemma split_on_not_empty [simp]: "split_on x ys \<noteq> []"
  by (cases ys) (auto split: list.splits)

lemma split_on_name: "x \<notin> set ys \<Longrightarrow> split_on x ys = [ys]"
  by (induction ys) auto

lemma last_split_on: "ys \<noteq> [] \<Longrightarrow> last ys \<noteq> x \<Longrightarrow> last (split_on x ys) \<noteq> []"
  by (induction ys) (auto split: list.splits if_splits)

text \<open>Path resolution.  For an absolute path that does not end in a slash, \<open>Filesystem::open\<close> is the
  resolution of its non-empty names from the root directory, one after the other: repeated slashes do not
  matter, every name but the last has to be a directory, and the last may be either.  A path that starts
  otherwise is not found, but the empty path is the root directory.\<close>

lemma vfs_open_resolves:
  assumes "path = [] \<or> last path \<noteq> 0x2f"
  shows "vfs_open fe root path d =
     (if path = [] \<or> hd path = 0x2f
      then resolve fe (fat16_root root) (filter (\<lambda>s. s \<noteq> []) (split_on 0x2f path)) d
      else Some (Inl NotFound, d))"
proof (cases path)
  case (Cons b rest)
  show ?thesis
  proof (cases "b = 0x2f")
    case True
    then have "rest \<noteq> []" "last rest \<noteq> 0x2f" using assms Cons by (auto split: if_splits)
    then have "last (split_on 0x2f rest) \<noteq> []" using last_split_on[of rest "0x2f"] by auto
    then show ?thesis using True Cons by (simp add: vfs_open_def vfs_open_loop_resolve)
  next
    case False
    then show ?thesis using Cons by (auto simp: vfs_open_def split: list.splits)
  qed
qed (simp add: vfs_open_def)

lemma vfs_open_resolves_witness:
  "vfs_open disk_env sample_fs [] sample_volume = Some (Inr (VFat (FatDir (fat16_root sample_fs))), sample_volume)"
  using vfs_open_resolves[of "[]" disk_env sample_fs sample_volume] by simp

section \<open>Files by their path\<close>

lemma file_read_disk:
  assumes "file_holds d f bs"
  shows "\<exists>f' d'. file_read disk_env f n d = Some (Inr (min n (length bs)), take n bs, f', d')"
  using disk.file_read_loop_ok[of "fs_part (file_fs f)" d "file_fs f" _ "file_seek f" n] assms
  by (fastforce simp: file_holds_def file_read_def disk_env_def)

text \<open>Reading a file by its path.  For a name of the root directory whose first visible entry is a file with
  a linked chain of clusters, opening \<open>/name\<close> succeeds and a read of \<open>n\<close> bytes returns the first \<open>n\<close> bytes of the
  clusters of the chain, as they are on the disk.\<close>

lemma open_and_read_root_file:
  assumes "disk_ok (fs_part fs) (vdisk w)" "fs_ok fs"
    and "es = directory_entries fs (part_content (fs_part fs) (vdisk w))
      [first_root_dir_sector (fs_bpb fs)..<first_root_dir_sector (fs_bpb fs) + root_dir_sector_count (fs_bpb fs)]"
    and "names_utf8 name es" "name \<noteq> []" "0x2f \<notin> set name"
    and "find (\<lambda>e. filename e = name) es = Some e" "raw_attributes e AND 0x10 = 0"
    and "linked fs (part_content (fs_part fs) (vdisk w)) cs" "cs \<noteq> []" "hd cs = first_cluster e"
  shows "\<exists>f d' r. vfs_open disk_env fs (0x2f # name) (vdisk w) = Some (Inr (VFat (FatFile f)), d')
    \<and> vfs_file_read disk_env (VFat (FatFile f)) n (w\<lparr>vdisk := d'\<rparr>) = Some r
    \<and> fst r = PollReady (let bs = chain_bytes (fs_bpb fs) (part_content (fs_part fs) (vdisk w)) cs in
        (Inr (min n (length bs)), take n bs))"
proof -
  let ?m = "part_content (fs_part fs) (vdisk w)" and ?e = "DirEntry fs None e"
  obtain d' where l: "directory_entry disk_env (fat16_root fs) name (vdisk w) = Some (Inr (Some ?e), d')"
    and d': "disk_ok (fs_part fs) d'" "part_content (fs_part fs) d' = ?m"
    using root_lookup[OF assms(1-4)] assms(7) by auto
  define f where "f = \<lparr>file_fs = fs, file_dirent = ?e,
    file_seek = \<lparr>seek_cluster = Some (first_cluster e), seek_sector = 0, seek_offset = 0\<rparr>\<rparr>"
  have "(raw_attributes e AND 0x3f) AND 0x10 = raw_attributes e AND 0x10" by (simp add: and.assoc)
  then have "dir_entry_open disk_env ?e = Inr (FatFile f)"
    using assms(8) by (simp add: dir_entry_open_def is_dir_def attributes_def disk_env_def ATTR_ALL_def ATTR_DIRECTORY_def
        Let_def f_def)
  then have o: "vfs_open disk_env fs (0x2f # name) (vdisk w) = Some (Inr (VFat (FatFile f)), d')"
    using l assms(5,6) by (simp add: vfs_open_def split_on_name)
  have "seek_at fs cs (file_seek f)"
    using assms(2,10,11) by (cases cs) (simp_all add: seek_at_def f_def fs_ok_def)
  moreover have "file_fs f = fs" by (simp add: f_def)
  moreover have "remaining fs ?m cs (file_seek f) = chain_bytes (fs_bpb fs) ?m cs"
    by (simp add: remaining_def f_def)
  ultimately have "file_holds d' f (chain_bytes (fs_bpb fs) ?m cs)"
    using assms(2,9) d' by (auto simp: file_holds_def)
  then show ?thesis using file_read_disk[of d' f _ n] o by (fastforce simp: vfs_file_read_def Let_def)
qed

definition sample_world :: "ata_dev vfs_world" where
  "sample_world = \<lparr>vdisk = sample_volume, keys = Some [], vconsole = \<lparr>CONSOLE = ConPortE9, port_e9 = []\<rparr>\<rparr>"

lemma open_and_read_root_file_witness:
  "\<exists>file d' r. vfs_open disk_env sample_fs [0x2f, 0x68, 0x69, 0x2e, 0x74, 0x78, 0x74] sample_volume = Some (Inr file, d')
    \<and> vfs_file_read disk_env file 3 (sample_world\<lparr>vdisk := d'\<rparr>) = Some r \<and> fst r = PollReady (Inr 3, [0x61, 0x61, 0x61])"
proof -
  let ?name = "[0x68, 0x69, 0x2e, 0x74, 0x78, 0x74] :: u8 list"
  have fs: "fs_part sample_fs = sample_part" by (simp add: sample_fs_def)
  have r: "[first_root_dir_sector (fs_bpb sample_fs)..<first_root_dir_sector (fs_bpb sample_fs)
      + root_dir_sector_count (fs_bpb sample_fs)] = [2]" by (simp add: sample_bpb_simps upt_rec)
  have n: "names_utf8 ?name [sample_e0, sample_e1]"
    using sample_names_utf8 by (simp add: names_utf8_def from_utf8_ascii sample_root_raw del: from_utf8.simps)
  have e: "raw_attributes sample_e0 AND 0x10 = 0" "first_cluster sample_e0 = 2"
    by (simp_all add: sample_e0_def raw_dir_entry_at_def sample_root_def DIR_ENTRY_SIZE_def first_cluster_def le16_def
        Let_def nth_append)
  have c: "chain_bytes (fs_bpb sample_fs) (medium sample_volume) [2, 3] = replicate 512 0x61 @ replicate 512 0x62"
    by (simp add: chain_bytes_def cluster_range_def sample_bpb_simps sample_volume_def upt_rec)
  have w: "vdisk sample_world = sample_volume" by (simp add: sample_world_def)
  have "take 3 (replicate 512 0x61 @ replicate 512 0x62) = [0x61, 0x61, 0x61 :: u8]" by (simp add: numeral_3_eq_3)
  then show ?thesis
    using open_and_read_root_file[of sample_fs sample_world "[sample_e0, sample_e1]" ?name sample_e0 "[2, 3]" 3]
      sample_volume_ok sample_linked(1) n e by (fastforce simp: fs r w c sample_root_entries sample_root_raw Let_def)
qed

section \<open>Text on the console\<close>

definition console_ok :: "console_state \<Rightarrow> bool" where
  "console_ok c \<longleftrightarrow> (case CONSOLE c of ConPortE9 \<Rightarrow> True | ConVgaText v \<Rightarrow> vga_ok v)"

lemma console_write_str_ok:
  assumes "console_ok c"
  shows "\<exists>c'. console_write_str s c = Some c' \<and> console_ok c'
    \<and> (CONSOLE c = ConPortE9 \<longrightarrow> c' = c\<lparr>port_e9 := port_e9 c @ s\<rparr>)"
  using assms write_chars_ok[of _ "utf8_chars s"]
  by (cases "CONSOLE c") (fastforce simp: console_ok_def console_write_str_def vga_write_str_def)+

lemma console_write_strs_ok:
  "console_ok c \<Longrightarrow> \<exists>c'. fold_opt console_write_str ss c = Some c' \<and> console_ok c'
    \<and> (CONSOLE c = ConPortE9 \<longrightarrow> c' = c\<lparr>port_e9 := port_e9 c @ concat ss\<rparr>)"
proof (induction ss arbitrary: c)
  case (Cons s ss)
  obtain c1 where "console_write_str s c = Some c1" "console_ok c1"
    "CONSOLE c = ConPortE9 \<longrightarrow> c1 = c\<lparr>port_e9 := port_e9 c @ s\<rparr>"
    using console_write_str_ok[OF Cons.prems] by blast
  then show ?case using Cons.IH[of c1] by (cases "CONSOLE c") auto
qed simp

definition intersperse_ok :: "(u8 list \<Rightarrow> u8 list list \<Rightarrow> u8 list list) \<Rightarrow> bool" where
  "intersperse_ok isp \<longleftrightarrow> (\<forall>sep. isp sep [] = []) \<and> (\<forall>sep x. isp sep [x] = [x])
     \<and> (\<forall>sep x y xs. isp sep (x # y # xs) = x # sep # isp sep (y # xs))"

text \<open>Writing to the console file.  With the documented behaviour of \<open>intersperse\<close>, a write of any buffer whose
  parts the iterator enumerates returns the length of the buffer, on the frame buffer as on the
  debug port, without a panic; the debug port receives the valid parts with a question mark between them, which
  for a buffer of valid UTF-8 is the buffer itself.\<close>

lemma console_file_write:
  assumes "intersperse_ok isp" "console_ok (vconsole w)" "utf8_valid_parts (Suc (length buf)) buf 0 = Some parts"
  shows "\<exists>c. vfs_file_write isp VConsole buf w = Some (Inr (length buf), w\<lparr>vconsole := c\<rparr>) \<and> console_ok c
    \<and> (CONSOLE (vconsole w) = ConPortE9 \<longrightarrow> port_e9 c = port_e9 (vconsole w) @ concat (isp [0x3f] parts))
    \<and> (from_utf8 buf = Inr buf \<longrightarrow> concat (isp [0x3f] parts) = buf)"
proof -
  have "concat (isp [0x3f] parts) = buf" if v: "from_utf8 buf = Inr buf"
  proof (cases buf)
    case Nil
    then show ?thesis using assms(1,3) by (simp add: utf8_valid_parts_next_def intersperse_ok_def)
  next
    case (Cons b rest)
    then have "utf8_valid_parts_next buf 0 = Some (Some buf, length buf)"
      using v by (simp add: utf8_valid_parts_next_def)
    moreover have "utf8_valid_parts_next buf (length buf) = Some (None, length buf)"
      by (simp add: utf8_valid_parts_next_def)
    ultimately have "parts = [buf]" using assms(3) Cons by simp
    then show ?thesis using assms(1) by (simp add: intersperse_ok_def)
  qed
  moreover obtain c where "fold_opt console_write_str (isp [0x3f] parts) (vconsole w) = Some c" "console_ok c"
    "CONSOLE (vconsole w) = ConPortE9 \<longrightarrow> c = (vconsole w)\<lparr>port_e9 := port_e9 (vconsole w) @ concat (isp [0x3f] parts)\<rparr>"
    using console_write_strs_ok[OF assms(2)] by blast
  ultimately show ?thesis using assms(3) by (auto simp: vfs_file_write_def)
qed

fun sample_intersperse :: "'a \<Rightarrow> 'a list \<Rightarrow> 'a list" where
  "sample_intersperse sep (x # y # xs) = x # sep # sample_intersperse sep (y # xs)"
| "sample_intersperse sep xs = xs"

lemma console_file_write_witness:
  "\<exists>c. vfs_file_write sample_intersperse VConsole [0x61, 0xff, 0x62] sample_world
      = Some (Inr 3, sample_world\<lparr>vconsole := c\<rparr>) \<and> port_e9 c = [0x61, 0x3f, 0x62]"
proof -
  have "intersperse_ok sample_intersperse" by (simp add: intersperse_ok_def)
  moreover have "console_ok (vconsole sample_world)" "CONSOLE (vconsole sample_world) = ConPortE9" "port_e9 (vconsole sample_world) = []"
    by (simp_all add: console_ok_def sample_world_def)
  moreover have "utf8_valid_parts (Suc (length [0x61, 0xff, 0x62 :: u8])) [0x61, 0xff, 0x62] 0 = Some [[0x61], [0x62]]"
    by (simp add: utf8_valid_parts_next_def char_width_def)
  ultimately show ?thesis using console_file_write[of sample_intersperse sample_world "[0x61, 0xff, 0x62]" "[[0x61], [0x62]]"]
    by auto
qed

end
