(* ===== verification/Syscall.thy ===== *)
theory Syscall
  imports Task User_Memory Vfs
begin

text \<open>
  System calls: \<open>kernel/src/syscall.rs\<close> and \<open>kernel/src/syscall/args.rs\<close>.

  \<^item> The state is the kernel's (\<open>Task\<close>) with the devices (\<open>Vfs\<close>) and a store of the open files: a file
    is shared by all handles to it and by their clones, so a handle refers to it by its place in
    the store.
  \<^item> \<open>se\<close> holds the parameters: the allocator of the kernel heap, the block device and allocation of the file
    system, the methods of third-party crates, the overflow checks of the build, and \<open>run_loop\<close>,
    the future that the code builds for a new task.
  \<^item> A system call that waits is a polled computation; the bytes that user programs see are the bytes
    of the 64-bit words of physical memory, in little-endian order.
  \<^item> The log output of \<open>println!\<close> is left out, and so are the reference counts of objects (dropping the
    last handle of a page context frees it).
\<close>

section \<open>State and parameters\<close>

record ('d, 'fut, 'a) sys =
  kern :: "(nat, filesystem, 'fut, 'a) kernel"
  world :: "'d vfs_world"
  files :: "vfs_file list"

record ('d, 'fut, 'a) sys_env =
  al :: "('a \<times> kmem) allocator"
  fenv :: "'d fat_env"
  isp :: "u8 list \<Rightarrow> u8 list list \<Rightarrow> u8 list list"
  from_bits :: "u64 \<Rightarrow> u64 \<Rightarrow> u64 option"
  flags_contain :: "u64 \<Rightarrow> u64 \<Rightarrow> bool"
  overflow_checks :: bool
  run_loop :: "task_id \<Rightarrow> u64 \<Rightarrow> u64 \<Rightarrow> 'fut"

type_synonym ('d, 'fut, 'a) call = "('d, 'fut, 'a) sys \<Rightarrow> (u64 sys_result \<times> ('d, 'fut, 'a) sys) option"

abbreviation kmem_of :: "('d, 'fut, 'a) sys \<Rightarrow> kmem" where
  "kmem_of st \<equiv> mem (kern st)"

definition set_mem :: "kmem \<Rightarrow> ('d, 'fut, 'a) sys \<Rightarrow> ('d, 'fut, 'a) sys" where
  "set_mem s st = st\<lparr>kern := (kern st)\<lparr>mem := s\<rparr>\<rparr>"

section \<open>Arguments and flags\<close>

definition handle_from_reg :: "u64 \<Rightarrow> u64 sys_result" where
  "handle_from_reg reg = (case handle_from_u64 reg of None \<Rightarrow> Inl SysBadHandle | Some h \<Rightarrow> Inr h)"

definition u64_from_reg :: "u64 \<Rightarrow> u64 sys_result" where
  "u64_from_reg reg = Inr reg"

definition optional_handle_from_reg :: "u64 \<Rightarrow> u64 option sys_result" where
  "optional_handle_from_reg reg = Inr (handle_from_u64 reg)"

definition UPF_WRITE :: u64 where "UPF_WRITE = 0x02"
definition UPF_ALL :: u64 where "UPF_ALL = 0x02"
definition OPF_ALL :: u64 where "OPF_ALL = 0x01"

definition page_flags_from :: "(u64 \<Rightarrow> u64 \<Rightarrow> bool) \<Rightarrow> u64 \<Rightarrow> u64" where
  "page_flags_from contains user_flags =
     (let flags = PRESENT OR USER in
      if contains user_flags UPF_WRITE then flags OR WRITE else flags)"

section \<open>Pages\<close>

text \<open>The loop of \<open>alloc_page\<close> over the pages of the range.\<close>

definition alloc_page_step :: "u64 \<Rightarrow> u64 \<Rightarrow> kmem \<Rightarrow> ((sys_error + unit) \<times> kmem) option" where
  "alloc_page_step flags addr s = do {
     (r, s) \<leftarrow> phys_alloc s;
     (case r of
        Inl _ \<Rightarrow> Some (Inl SysMemoryExhausted, s)
      | Inr phys \<Rightarrow> do {
          (r, s) \<leftarrow> page_map phys addr flags s;
          (case r of
             Inl AlreadyMapped \<Rightarrow> None
           | Inl CannotAllocatePageTable \<Rightarrow> Some (Inl SysMemoryExhausted, s)
           | Inr _ \<Rightarrow> Some (Inr (), s)) }) }"

definition sys_alloc_page :: "('d, 'fut, 'a) sys_env \<Rightarrow> u64 \<Rightarrow> u64 \<Rightarrow> u64 \<Rightarrow> ('d, 'fut, 'a) call" where
  "sys_alloc_page se virtual_addr count flags st = do {
     r \<leftarrow> page_range_new (overflow_checks se) virtual_addr count;
     (case r of
        Inl e \<Rightarrow> Some (Inl e, st)
      | Inr pr \<Rightarrow> do {
          r \<leftarrow> validate_available pr (kmem_of st);
          (case r of
             Inl e \<Rightarrow> Some (Inl e, st)
           | Inr _ \<Rightarrow>
               (case from_bits se UPF_ALL flags of
                  None \<Rightarrow> Some (Inl SysIllegalValue, st)
                | Some uf \<Rightarrow> do {
                    let fl = page_flags_from (flags_contain se) uf;
                    (r, s) \<leftarrow> fold_res (alloc_page_step fl) (pages pr) (kmem_of st);
                    Some (case r of Inl e \<Rightarrow> Inl e | Inr _ \<Rightarrow> Inr OK_CODE, set_mem s st) })) }) }"

definition sys_release_page :: "('d, 'fut, 'a) sys_env \<Rightarrow> u64 \<Rightarrow> u64 \<Rightarrow> ('d, 'fut, 'a) call" where
  "sys_release_page se virtual_addr count st = do {
     r \<leftarrow> page_range_new (overflow_checks se) virtual_addr count;
     (case r of
        Inl e \<Rightarrow> Some (Inl e, st)
      | Inr pr \<Rightarrow> do {
          r \<leftarrow> validate_map (from_bits se) (flags_contain se) pr 0 (kmem_of st);
          (case r of
             Inl e \<Rightarrow> Some (Inl e, st)
           | Inr _ \<Rightarrow> do {
               s \<leftarrow> fold_opt (\<lambda>addr s. do {
                 (r, s) \<leftarrow> page_unmap addr s;
                 (case r of Inl _ \<Rightarrow> None | Inr _ \<Rightarrow> Some s) }) (pages pr) (kmem_of st);
               Some (Inr OK_CODE, set_mem s st) }) }) }"

definition sys_modify_page :: "('d, 'fut, 'a) sys_env \<Rightarrow> u64 \<Rightarrow> u64 \<Rightarrow> u64 \<Rightarrow> ('d, 'fut, 'a) call" where
  "sys_modify_page se virtual_addr count flags st = do {
     r \<leftarrow> page_range_new (overflow_checks se) virtual_addr count;
     (case r of
        Inl e \<Rightarrow> Some (Inl e, st)
      | Inr pr \<Rightarrow> do {
          r \<leftarrow> validate_map (from_bits se) (flags_contain se) pr 0 (kmem_of st);
          (case r of
             Inl e \<Rightarrow> Some (Inl e, st)
           | Inr _ \<Rightarrow>
               (case from_bits se UPF_ALL flags of
                  None \<Rightarrow> Some (Inl SysIllegalValue, st)
                | Some uf \<Rightarrow> do {
                    let fl = page_flags_from (flags_contain se) uf;
                    s \<leftarrow> fold_opt (\<lambda>addr s. do {
                      (r, s) \<leftarrow> modify addr fl s;
                      (case r of Inl _ \<Rightarrow> None | Inr _ \<Rightarrow> Some s) }) (pages pr) (kmem_of st);
                    Some (Inr OK_CODE, set_mem s st) })) }) }"

text \<open>The physical addresses \<open>(physical_addr..).step_by(PAGE_SIZE)\<close>; the iterator panics at the end of
  the address space.\<close>

definition phys_step :: "u64 \<Rightarrow> nat \<Rightarrow> u64 option" where
  "phys_step physical_addr i =
     (if unat physical_addr + i * 4096 + 1 < 2 ^ 64 then Some (physical_addr + of_nat (i * 4096)) else None)"

definition sys_map_physical_memory :: "('d, 'fut, 'a) sys_env \<Rightarrow> u64 \<Rightarrow> u64 \<Rightarrow> u64 \<Rightarrow> u64 \<Rightarrow> ('d, 'fut, 'a) call" where
  "sys_map_physical_memory se virtual_addr physical_addr count flags st = do {
     r \<leftarrow> page_range_new (overflow_checks se) virtual_addr count;
     (case r of
        Inl e \<Rightarrow> Some (Inl e, st)
      | Inr pr \<Rightarrow> do {
          r \<leftarrow> validate_available pr (kmem_of st);
          (case r of
             Inl e \<Rightarrow> Some (Inl e, st)
           | Inr _ \<Rightarrow>
               (case from_bits se UPF_ALL flags of
                  None \<Rightarrow> Some (Inl SysIllegalValue, st)
                | Some uf \<Rightarrow> do {
                    let fl = page_flags_from (flags_contain se) uf;
                    s \<leftarrow> fold_opt (\<lambda>(i, addr) s. do {
                      raw \<leftarrow> phys_step physical_addr i;
                      (phys, s) \<leftarrow> phys_new raw s;
                      (r, s) \<leftarrow> page_map phys addr fl s;
                      (case r of Inl _ \<Rightarrow> None | Inr _ \<Rightarrow> Some s) }) (enumerate 0 (pages pr)) (kmem_of st);
                    Some (Inr OK_CODE, set_mem s st) })) }) }"

section \<open>Handles, page contexts and tasks\<close>

text \<open>\<open>object::put\<close> for the current task.\<close>

definition put_object :: "('d, 'fut, 'a) sys_env \<Rightarrow> (u64, nat) object_kind \<Rightarrow> ('d, 'fut, 'a) call" where
  "put_object se obj st = do {
     t \<leftarrow> current (kern st);
     (r, th, a) \<leftarrow> object_put (al se) t obj (TASK_HANDLES (kern st)) (heap (kern st), kmem_of st);
     Some (r, st\<lparr>kern := set_heap a ((kern st)\<lparr>TASK_HANDLES := th\<rparr>)\<rparr>) }"

definition sys_clone_handle :: "('d, 'fut, 'a) sys_env \<Rightarrow> u64 \<Rightarrow> ('d, 'fut, 'a) call" where
  "sys_clone_handle se h st = do {
     t \<leftarrow> current (kern st);
     (case object_get t h (TASK_HANDLES (kern st)) of
        None \<Rightarrow> Some (Inl SysBadHandle, st)
      | Some object_ref \<Rightarrow> put_object se object_ref st) }"

definition sys_release_handle :: "u64 \<Rightarrow> ('d, 'fut, 'a) call" where
  "sys_release_handle h st = do {
     t \<leftarrow> current (kern st);
     (r, th) \<leftarrow> object_release t h (TASK_HANDLES (kern st));
     Some (case r of Inl _ \<Rightarrow> Inl SysBadHandle | Inr _ \<Rightarrow> Inr OK_CODE, st\<lparr>kern := (kern st)\<lparr>TASK_HANDLES := th\<rparr>\<rparr>) }"

text \<open>A page context that cannot be handed out is dropped, which drops its page.\<close>

definition sys_create_page_context :: "('d, 'fut, 'a) sys_env \<Rightarrow> ('d, 'fut, 'a) call" where
  "sys_create_page_context se st = do {
     (r, s) \<leftarrow> page_ctx_new (kmem_of st);
     (case r of
        Inl _ \<Rightarrow> Some (Inl SysMemoryExhausted, set_mem s st)
      | Inr pml4 \<Rightarrow>
          (case heap_new (al se) (kern (set_mem s st)) of
             (False, k) \<Rightarrow> do {
               s \<leftarrow> phys_drop pml4 (mem k);
               Some (Inl SysMemoryExhausted, set_mem s (st\<lparr>kern := k\<rparr>)) }
           | (True, k) \<Rightarrow> do {
               (r, st) \<leftarrow> put_object se (ObjPageCtx pml4) (st\<lparr>kern := k\<rparr>);
               (case r of
                  Inr h \<Rightarrow> Some (Inr h, st)
                | Inl e \<Rightarrow> do { s \<leftarrow> phys_drop pml4 (kmem_of st); Some (Inl e, set_mem s st) }) })) }"

definition sys_debug :: "('d, 'fut, 'a) call" where
  "sys_debug st = Some (Inr OK_CODE, st)"

definition sys_set_page_context :: "u64 \<Rightarrow> ('d, 'fut, 'a) call" where
  "sys_set_page_context h st = do {
     t \<leftarrow> current (kern st);
     (case object_get t h (TASK_HANDLES (kern st)) of
        None \<Rightarrow> Some (Inl SysBadHandle, st)
      | Some obj \<Rightarrow>
          (case downcast as_ref_page_ctx obj of
             Inl e \<Rightarrow> Some (Inl e, st)
           | Inr obj \<Rightarrow> do {
               pml4 \<leftarrow> object as_ref_page_ctx obj;
               (pml4, s) \<leftarrow> phys_clone pml4 (kmem_of st);
               s \<leftarrow> set_ctx pml4 s;
               Some (Inr OK_CODE, set_mem s st) })) }"

definition sys_get_page_context :: "('d, 'fut, 'a) sys_env \<Rightarrow> ('d, 'fut, 'a) call" where
  "sys_get_page_context se st = do {
     page_ctx \<leftarrow> get_page_ctx (kern st);
     put_object se page_ctx st }"

definition sys_create_task :: "('d, 'fut, 'a) sys_env \<Rightarrow> u64 \<Rightarrow> u64 \<Rightarrow> u64 \<Rightarrow> ('d, 'fut, 'a) call" where
  "sys_create_task se h ip sp st = do {
     t \<leftarrow> current (kern st);
     (case object_get t h (TASK_HANDLES (kern st)) of
        None \<Rightarrow> Some (Inl SysBadHandle, st)
      | Some obj \<Rightarrow>
          (case downcast as_ref_page_ctx obj of
             Inl e \<Rightarrow> Some (Inl e, st)
           | Inr page_ctx \<Rightarrow> do {
               fs \<leftarrow> get_filesystem (kern st);
               (r, k) \<leftarrow> spawn (al se) page_ctx fs (\<lambda>ident. run_loop se ident ip sp) (kern st);
               Some (case r of Inl _ \<Rightarrow> Inl SysMemoryExhausted | Inr _ \<Rightarrow> Inr OK_CODE, st\<lparr>kern := k\<rparr>) })) }"

definition sys_exit :: "u64 \<Rightarrow> ('d, 'fut, 'a) call" where
  "sys_exit code st = None"

section \<open>Bytes of user memory\<close>

definition read_byte :: "kmem \<Rightarrow> u64 \<Rightarrow> u8 option" where
  "read_byte s v = map_option (\<lambda>p. ucast (drop_bit (8 * unat (v AND 7)) (pmem s p))) (translate s (v AND NOT 7))"

definition write_byte :: "u64 \<Rightarrow> u8 \<Rightarrow> kmem \<Rightarrow> kmem option" where
  "write_byte v b s = (let k = 8 * unat (v AND 7) in
     map_option (\<lambda>p. set_pmem p ((pmem s p AND NOT (push_bit k 0xff)) OR push_bit k (ucast b)) s)
       (translate s (v AND NOT 7)))"

definition read_bytes :: "kmem \<Rightarrow> u64 \<Rightarrow> nat \<Rightarrow> u8 list option" where
  "read_bytes s a n = those (map (\<lambda>i. read_byte s (a + of_nat i)) [0..<n])"

definition write_bytes :: "u64 \<Rightarrow> u8 list \<Rightarrow> kmem \<Rightarrow> kmem option" where
  "write_bytes a bs s = fold_opt (\<lambda>(i, b). write_byte (a + of_nat i) b) (enumerate 0 bs) s"

section \<open>Streams and files\<close>

definition with_file :: "u64 \<Rightarrow> ('d, 'fut, 'a) sys \<Rightarrow> nat sys_result option" where
  "with_file h st = do {
     t \<leftarrow> current (kern st);
     (case object_get t h (TASK_HANDLES (kern st)) of
        None \<Rightarrow> Some (Inl SysBadHandle)
      | Some obj \<Rightarrow>
          (case downcast as_ref_file obj of
             Inl e \<Rightarrow> Some (Inl e)
           | Inr obj \<Rightarrow> map_option Inr (object as_ref_file obj))) }"

text \<open>The read of the file into the borrowed slice, which is also what a later poll resumes.\<close>

definition read_stream_io :: "('d, 'fut, 'a) sys_env \<Rightarrow> nat \<Rightarrow> user_slice \<Rightarrow> ('d, 'fut, 'a) sys
    \<Rightarrow> (u64 sys_result polled \<times> ('d, 'fut, 'a) sys) option" where
  "read_stream_io se fi sl st =
     (if length (files st) \<le> fi then None
      else do {
        (r, f, w) \<leftarrow> vfs_file_read (fenv se) (files st ! fi) (unat (slice_len sl)) (world st);
        let st = st\<lparr>world := w, files := (files st)[fi := f]\<rparr>;
        (case r of
           PollPending \<Rightarrow> Some (PollPending, st)
         | PollReady (r, bytes) \<Rightarrow> do {
             s \<leftarrow> write_bytes (slice_addr sl) bytes (kmem_of st);
             Some (PollReady (map_sum id of_nat r), set_mem s st) }) })"

definition sys_read_stream :: "('d, 'fut, 'a) sys_env \<Rightarrow> u64 \<Rightarrow> u64 \<Rightarrow> u64 \<Rightarrow> ('d, 'fut, 'a) sys
    \<Rightarrow> (u64 sys_result polled \<times> ('d, 'fut, 'a) sys) option" where
  "sys_read_stream se h buf nbyte st = do {
     f \<leftarrow> with_file h st;
     (case f of
        Inl e \<Rightarrow> Some (PollReady (Inl e), st)
      | Inr fi \<Rightarrow> do {
          r \<leftarrow> borrow_slice_mut (from_bits se) (flags_contain se) (overflow_checks se) 1 buf nbyte (kmem_of st);
          (case r of
             Inl e \<Rightarrow> Some (PollReady (Inl e), st)
           | Inr sl \<Rightarrow> read_stream_io se fi sl st) }) }"

definition sys_write_stream :: "('d, 'fut, 'a) sys_env \<Rightarrow> u64 \<Rightarrow> u64 \<Rightarrow> u64 \<Rightarrow> ('d, 'fut, 'a) call" where
  "sys_write_stream se h buf nbyte st = do {
     f \<leftarrow> with_file h st;
     (case f of
        Inl e \<Rightarrow> Some (Inl e, st)
      | Inr fi \<Rightarrow> do {
          r \<leftarrow> borrow_slice (from_bits se) (flags_contain se) (overflow_checks se) 1 buf nbyte (kmem_of st);
          (case r of
             Inl e \<Rightarrow> Some (Inl e, st)
           | Inr sl \<Rightarrow>
               if length (files st) \<le> fi then None
               else do {
                 bytes \<leftarrow> read_bytes (kmem_of st) (slice_addr sl) (unat (slice_len sl));
                 (r, w) \<leftarrow> vfs_file_write (isp se) (files st ! fi) bytes (world st);
                 Some (map_sum id of_nat r, st\<lparr>world := w\<rparr>) }) }) }"

text \<open>The path is a slice of user memory; a file that cannot be handed out is dropped.\<close>

definition sys_open_file :: "('d, 'fut, 'a) sys_env \<Rightarrow> u64 \<Rightarrow> u64 \<Rightarrow> u64 \<Rightarrow> ('d, 'fut, 'a) call" where
  "sys_open_file se path path_len flags st = do {
     r \<leftarrow> borrow_slice (from_bits se) (flags_contain se) (overflow_checks se) 1 path path_len (kmem_of st);
     (case r of
        Inl e \<Rightarrow> Some (Inl e, st)
      | Inr sl \<Rightarrow>
          (case from_bits se OPF_ALL flags of
             None \<Rightarrow> Some (Inl SysIllegalValue, st)
           | Some _ \<Rightarrow> do {
               fs \<leftarrow> get_filesystem (kern st);
               (case fs of
                  None \<Rightarrow> Some (Inl SysNoFile, st)
                | Some fs \<Rightarrow> do {
                    bytes \<leftarrow> read_bytes (kmem_of st) (slice_addr sl) (unat (slice_len sl));
                    (r, d) \<leftarrow> vfs_open (fenv se) fs bytes (vdisk (world st));
                    let st = st\<lparr>world := (world st)\<lparr>vdisk := d\<rparr>\<rparr>;
                    (case r of
                       Inl e \<Rightarrow> Some (Inl (open_error_sys e), st)
                     | Inr file \<Rightarrow>
                         (case heap_new (al se) (kern st) of
                            (False, k) \<Rightarrow> Some (Inl SysMemoryExhausted, st\<lparr>kern := k\<rparr>)
                          | (True, k) \<Rightarrow>
                              put_object se (ObjFile (length (files st))) (st\<lparr>kern := k, files := files st @ [file]\<rparr>))) }) })) }"

section \<open>Dispatch\<close>

definition ready :: "('d, 'fut, 'a) call \<Rightarrow> ('d, 'fut, 'a) sys \<Rightarrow> (u64 sys_result polled \<times> ('d, 'fut, 'a) sys) option" where
  "ready c st = map_option (\<lambda>(r, st). (PollReady r, st)) (c st)"

text \<open>The operator \<open>?\<close> on an argument that is not a handle.\<close>

definition with_handle :: "u64 \<Rightarrow> (u64 \<Rightarrow> ('d, 'fut, 'a) sys \<Rightarrow> (u64 sys_result polled \<times> ('d, 'fut, 'a) sys) option)
    \<Rightarrow> ('d, 'fut, 'a) sys \<Rightarrow> (u64 sys_result polled \<times> ('d, 'fut, 'a) sys) option" where
  "with_handle reg c st = (case handle_from_reg reg of Inl e \<Rightarrow> Some (PollReady (Inl e), st) | Inr h \<Rightarrow> c h st)"

definition dispatch0 :: "('d, 'fut, 'a) sys_env \<Rightarrow> registers \<Rightarrow> ('d, 'fut, 'a) sys
    \<Rightarrow> (u64 sys_result polled \<times> ('d, 'fut, 'a) sys) option" where
  "dispatch0 se rs st =
     (case enum64_try_from syscall_table (rax rs) of
        None \<Rightarrow> Some (PollReady (Inl SysBadSyscall), st)
      | Some c \<Rightarrow>
          (case c of
             AllocPage \<Rightarrow> ready (sys_alloc_page se (rdi rs) (rsi rs) (rdx rs)) st
           | ReleasePage \<Rightarrow> ready (sys_release_page se (rdi rs) (rsi rs)) st
           | ModifyPage \<Rightarrow> ready (sys_modify_page se (rdi rs) (rsi rs) (rdx rs)) st
           | CloneHandle \<Rightarrow> with_handle (rdi rs) (\<lambda>h. ready (sys_clone_handle se h)) st
           | ReleaseHandle \<Rightarrow> with_handle (rdi rs) (\<lambda>h. ready (sys_release_handle h)) st
           | CreatePageContext \<Rightarrow> ready (sys_create_page_context se) st
           | Debug \<Rightarrow> ready sys_debug st
           | SetPageContext \<Rightarrow> with_handle (rdi rs) (\<lambda>h. ready (sys_set_page_context h)) st
           | GetPageContext \<Rightarrow> ready (sys_get_page_context se) st
           | CreateTask \<Rightarrow> with_handle (rdi rs) (\<lambda>h. ready (sys_create_task se h (rsi rs) (rdx rs))) st
           | Exit \<Rightarrow> (case u64_from_reg (rdi rs) of Inl e \<Rightarrow> Some (PollReady (Inl e), st) | Inr u \<Rightarrow> ready (sys_exit u) st)
           | MapPhysicalMemory \<Rightarrow> ready (sys_map_physical_memory se (rdi rs) (rsi rs) (rdx rs) (rcx rs)) st
           | ReadStream \<Rightarrow> with_handle (rdi rs) (\<lambda>h. sys_read_stream se h (rsi rs) (rdx rs)) st
           | WriteStream \<Rightarrow> with_handle (rdi rs) (\<lambda>h. ready (sys_write_stream se h (rsi rs) (rdx rs))) st
           | OpenFile \<Rightarrow> ready (sys_open_file se (rdi rs) (rsi rs) (rdx rs)) st))"

definition dispatch :: "('d, 'fut, 'a) sys_env \<Rightarrow> trap_frame \<Rightarrow> ('d, 'fut, 'a) sys
    \<Rightarrow> (trap_frame polled \<times> ('d, 'fut, 'a) sys) option" where
  "dispatch se f st = do {
     (result, st) \<leftarrow> dispatch0 se (regs f) st;
     Some (case result of
         PollPending \<Rightarrow> PollPending
       | PollReady r \<Rightarrow> PollReady (f\<lparr>regs := (regs f)\<lparr>rax := encode_result r\<rparr>\<rparr>), st) }"

end
