(* ===== verification/Crabapi.thy ===== *)
theory Crabapi
  imports Vfs Trap
begin

text \<open>
  The library of user programs: \<open>userland/crabapi/src\<close>.

  A system call is the instruction \<open>int 0x7f\<close>: the argument \<open>trap\<close> takes the registers and the state of the
  rest of the machine and returns both as the kernel leaves them.  A panic is \<open>None\<close>.
\<close>

section \<open>System call stubs\<close>

type_synonym 's trap = "registers \<Rightarrow> 's \<Rightarrow> (registers \<times> 's) option"

definition vector_code :: "syscall \<Rightarrow> u64" where
  "vector_code c = the (enum64_as_u64 syscall_table c)"

definition syscall0 :: "'s trap \<Rightarrow> syscall \<Rightarrow> registers \<Rightarrow> 's \<Rightarrow> (u64 \<times> registers \<times> 's) option" where
  "syscall0 trap vector rs s = do {
     (rs, s) \<leftarrow> trap (rs\<lparr>rax := vector_code vector\<rparr>) s;
     Some (rax rs, rs, s) }"

definition syscall1 :: "'s trap \<Rightarrow> syscall \<Rightarrow> u64 \<Rightarrow> registers \<Rightarrow> 's \<Rightarrow> (u64 \<times> registers \<times> 's) option" where
  "syscall1 trap vector a rs s = do {
     (rs, s) \<leftarrow> trap (rs\<lparr>rax := vector_code vector, rdi := a\<rparr>) s;
     Some (rax rs, rs, s) }"

definition syscall2 :: "'s trap \<Rightarrow> syscall \<Rightarrow> u64 \<Rightarrow> u64 \<Rightarrow> registers \<Rightarrow> 's \<Rightarrow> (u64 \<times> registers \<times> 's) option" where
  "syscall2 trap vector a b rs s = do {
     (rs, s) \<leftarrow> trap (rs\<lparr>rax := vector_code vector, rdi := a, rsi := b\<rparr>) s;
     Some (rax rs, rs, s) }"

definition syscall3 :: "'s trap \<Rightarrow> syscall \<Rightarrow> u64 \<Rightarrow> u64 \<Rightarrow> u64 \<Rightarrow> registers \<Rightarrow> 's \<Rightarrow> (u64 \<times> registers \<times> 's) option" where
  "syscall3 trap vector a b c rs s = do {
     (rs, s) \<leftarrow> trap (rs\<lparr>rax := vector_code vector, rdi := a, rsi := b, rdx := c\<rparr>) s;
     Some (rax rs, rs, s) }"

definition syscall4 :: "'s trap \<Rightarrow> syscall \<Rightarrow> u64 \<Rightarrow> u64 \<Rightarrow> u64 \<Rightarrow> u64 \<Rightarrow> registers \<Rightarrow> 's \<Rightarrow> (u64 \<times> registers \<times> 's) option" where
  "syscall4 trap vector a b c d rs s = do {
     (rs, s) \<leftarrow> trap (rs\<lparr>rax := vector_code vector, rdi := a, rsi := b, rdx := c, rcx := d\<rparr>) s;
     Some (rax rs, rs, s) }"

definition api_alloc_page :: "'s trap \<Rightarrow> u64 \<Rightarrow> u64 \<Rightarrow> u64 \<Rightarrow> registers \<Rightarrow> 's \<Rightarrow> (u64 \<times> registers \<times> 's) option" where
  "api_alloc_page trap base_addr count flags = syscall3 trap AllocPage base_addr count flags"

definition api_release_page :: "'s trap \<Rightarrow> u64 \<Rightarrow> u64 \<Rightarrow> registers \<Rightarrow> 's \<Rightarrow> (u64 \<times> registers \<times> 's) option" where
  "api_release_page trap base_addr count = syscall2 trap ReleasePage base_addr count"

definition api_modify_page :: "'s trap \<Rightarrow> u64 \<Rightarrow> u64 \<Rightarrow> u64 \<Rightarrow> registers \<Rightarrow> 's \<Rightarrow> (u64 \<times> registers \<times> 's) option" where
  "api_modify_page trap base_addr count flags = syscall3 trap ModifyPage base_addr count flags"

definition api_map_physical_memory :: "'s trap \<Rightarrow> u64 \<Rightarrow> u64 \<Rightarrow> u64 \<Rightarrow> u64 \<Rightarrow> registers \<Rightarrow> 's
    \<Rightarrow> (u64 \<times> registers \<times> 's) option" where
  "api_map_physical_memory trap base_addr physical_addr count flags =
     syscall4 trap MapPhysicalMemory base_addr physical_addr count flags"

definition api_clone_handle :: "'s trap \<Rightarrow> u64 \<Rightarrow> registers \<Rightarrow> 's \<Rightarrow> (u64 \<times> registers \<times> 's) option" where
  "api_clone_handle trap h = syscall1 trap CloneHandle h"

definition api_release_handle :: "'s trap \<Rightarrow> u64 \<Rightarrow> registers \<Rightarrow> 's \<Rightarrow> (u64 \<times> registers \<times> 's) option" where
  "api_release_handle trap h = syscall1 trap ReleaseHandle h"

definition api_create_page_context :: "'s trap \<Rightarrow> registers \<Rightarrow> 's \<Rightarrow> (u64 \<times> registers \<times> 's) option" where
  "api_create_page_context trap = syscall0 trap CreatePageContext"

definition api_debug :: "'s trap \<Rightarrow> registers \<Rightarrow> 's \<Rightarrow> (u64 \<times> registers \<times> 's) option" where
  "api_debug trap = syscall0 trap Debug"

definition api_set_page_context :: "'s trap \<Rightarrow> u64 \<Rightarrow> registers \<Rightarrow> 's \<Rightarrow> (u64 \<times> registers \<times> 's) option" where
  "api_set_page_context trap page_ctx = syscall1 trap SetPageContext page_ctx"

definition api_get_page_context :: "'s trap \<Rightarrow> registers \<Rightarrow> 's \<Rightarrow> (u64 \<times> registers \<times> 's) option" where
  "api_get_page_context trap = syscall0 trap GetPageContext"

definition api_create_task :: "'s trap \<Rightarrow> u64 \<Rightarrow> u64 \<Rightarrow> u64 \<Rightarrow> registers \<Rightarrow> 's \<Rightarrow> (u64 \<times> registers \<times> 's) option" where
  "api_create_task trap page_ctx ip sp = syscall3 trap CreateTask page_ctx ip sp"

definition api_exit :: "'s trap \<Rightarrow> u64 \<Rightarrow> registers \<Rightarrow> 's \<Rightarrow> (u64 \<times> registers \<times> 's) option" where
  "api_exit trap code = syscall1 trap Exit code"

definition api_read_stream :: "'s trap \<Rightarrow> u64 \<Rightarrow> u64 \<Rightarrow> u64 \<Rightarrow> registers \<Rightarrow> 's \<Rightarrow> (u64 \<times> registers \<times> 's) option" where
  "api_read_stream trap file buff buff_len = syscall3 trap ReadStream file buff buff_len"

definition api_write_stream :: "'s trap \<Rightarrow> u64 \<Rightarrow> u64 \<Rightarrow> u64 \<Rightarrow> registers \<Rightarrow> 's \<Rightarrow> (u64 \<times> registers \<times> 's) option" where
  "api_write_stream trap file buff buff_len = syscall3 trap WriteStream file buff buff_len"

definition api_open_file :: "'s trap \<Rightarrow> u64 \<Rightarrow> u64 \<Rightarrow> u64 \<Rightarrow> registers \<Rightarrow> 's \<Rightarrow> (u64 \<times> registers \<times> 's) option" where
  "api_open_file trap path path_len flags = syscall3 trap OpenFile path path_len flags"

section \<open>Handles, files and the console\<close>

text \<open>\<open>Result::from(...)\<close>: a raw result that is no known error code panics.\<close>

definition into_result :: "(u64 \<times> registers \<times> 's) option \<Rightarrow> (u64 sys_result \<times> registers \<times> 's) option" where
  "into_result x = do { (raw, rs, s) \<leftarrow> x; r \<leftarrow> decode_result raw; Some (r, rs, s) }"

definition api_handle_clone :: "'s trap \<Rightarrow> u64 \<Rightarrow> registers \<Rightarrow> 's \<Rightarrow> (u64 \<times> registers \<times> 's) option" where
  "api_handle_clone trap h rs s = do {
     (r, rs, s) \<leftarrow> into_result (api_clone_handle trap h rs s);
     (case r of Inl _ \<Rightarrow> None | Inr h \<Rightarrow> Some (h, rs, s)) }"

definition api_handle_drop :: "'s trap \<Rightarrow> u64 \<Rightarrow> registers \<Rightarrow> 's \<Rightarrow> (registers \<times> 's) option" where
  "api_handle_drop trap h rs s = map_option snd (api_release_handle trap h rs s)"

definition CONSOLE_HANDLE :: u64 where "CONSOLE_HANDLE = 1"

definition api_console_read :: "'s trap \<Rightarrow> u64 \<Rightarrow> u64 \<Rightarrow> registers \<Rightarrow> 's \<Rightarrow> (u64 sys_result \<times> registers \<times> 's) option" where
  "api_console_read trap buf len rs s = into_result (api_read_stream trap CONSOLE_HANDLE buf len rs s)"

definition api_console_write :: "'s trap \<Rightarrow> u64 \<Rightarrow> u64 \<Rightarrow> registers \<Rightarrow> 's \<Rightarrow> (u64 sys_result \<times> registers \<times> 's) option" where
  "api_console_write trap buf len rs s = into_result (api_write_stream trap CONSOLE_HANDLE buf len rs s)"

definition api_file_open :: "'s trap \<Rightarrow> u64 \<Rightarrow> u64 \<Rightarrow> registers \<Rightarrow> 's \<Rightarrow> (u64 sys_result \<times> registers \<times> 's) option" where
  "api_file_open trap path len rs s = into_result (api_open_file trap path len 0 rs s)"

definition api_file_read :: "'s trap \<Rightarrow> u64 \<Rightarrow> u64 \<Rightarrow> u64 \<Rightarrow> registers \<Rightarrow> 's \<Rightarrow> (u64 sys_result \<times> registers \<times> 's) option" where
  "api_file_read trap h buf len rs s = into_result (api_read_stream trap h buf len rs s)"

definition api_file_write :: "'s trap \<Rightarrow> u64 \<Rightarrow> u64 \<Rightarrow> u64 \<Rightarrow> registers \<Rightarrow> 's \<Rightarrow> (u64 sys_result \<times> registers \<times> 's) option" where
  "api_file_write trap h buf len rs s = into_result (api_write_stream trap h buf len rs s)"

text \<open>\<open>Write::write_all\<close> over the \<open>write\<close> of the implementation.  The buffer is a slice: its address and its length.
  A write that claims more than the slice panics in the slicing; a write that takes nothing makes it loop.\<close>

partial_function (option) write_all :: "(u64 \<Rightarrow> u64 \<Rightarrow> registers \<Rightarrow> 's \<Rightarrow> (u64 sys_result \<times> registers \<times> 's) option)
    \<Rightarrow> u64 \<Rightarrow> u64 \<Rightarrow> registers \<Rightarrow> 's \<Rightarrow> (unit sys_result \<times> registers \<times> 's) option" where
  "write_all wr buf len rs s =
     (if len = 0 then Some (Inr (), rs, s)
      else Option.bind (wr buf len rs s) (\<lambda>(r, rs, s).
        case r of
           Inl e \<Rightarrow> Some (Inl e, rs, s)
         | Inr written \<Rightarrow> if len < written then None else write_all wr (buf + written) (len - written) rs s))"

section \<open>Writing everything\<close>

text \<open>What \<open>write_all\<close> needs of a writer.  \<open>slice a n bs s\<close> says that the slice at \<open>a\<close> of length \<open>n\<close> holds the bytes \<open>bs\<close>
  in a form that the writer accepts, and \<open>emits bs s s'\<close> that \<open>s'\<close> is \<open>s\<close> with \<open>bs\<close> output.  A write of such a slice
  takes a non-empty part from its front, outputs it, and leaves a rest of the same kind.\<close>

locale writer =
  fixes wr :: "u64 \<Rightarrow> u64 \<Rightarrow> registers \<Rightarrow> 's \<Rightarrow> (u64 sys_result \<times> registers \<times> 's) option"
    and slice :: "u64 \<Rightarrow> u64 \<Rightarrow> u8 list \<Rightarrow> 's \<Rightarrow> bool" and emits :: "u8 list \<Rightarrow> 's \<Rightarrow> 's \<Rightarrow> bool"
  assumes slice_length: "slice a n bs s \<Longrightarrow> length bs = unat n"
    and emits_nil: "emits [] s s"
    and emits_append: "emits xs s s1 \<Longrightarrow> emits ys s1 s2 \<Longrightarrow> emits (xs @ ys) s s2"
    and write_some: "slice a n bs s \<Longrightarrow> n \<noteq> 0 \<Longrightarrow>
      \<exists>k rs' s'. wr a n rs s = Some (Inr k, rs', s') \<and> 0 < k \<and> k \<le> n \<and> emits (take (unat k) bs) s s'
        \<and> slice (a + k) (n - k) (drop (unat k) bs) s'"
begin

lemma write_all_ok:
  "slice a n bs s \<Longrightarrow> \<exists>rs' s'. write_all wr a n rs s = Some (Inr (), rs', s') \<and> emits bs s s'"
proof (induction "unat n" arbitrary: a n bs rs s rule: less_induct)
  case less
  show ?case
  proof (cases "n = 0")
    case True
    then have "bs = []" using slice_length [OF less.prems] by simp
    then show ?thesis using True emits_nil by (subst write_all.simps) simp
  next
    case False
    then obtain k rs1 s1 where k: "wr a n rs s = Some (Inr k, rs1, s1)" "0 < k" "k \<le> n"
      and out: "emits (take (unat k) bs) s s1" and rest: "slice (a + k) (n - k) (drop (unat k) bs) s1"
      using write_some [OF less.prems False] by blast
    have "unat (n - k) < unat n"
      using k(2,3) by (simp add: unat_sub word_less_nat_alt word_le_nat_alt)
    then obtain rs2 s2 where "write_all wr (a + k) (n - k) rs1 s1 = Some (Inr (), rs2, s2)"
      and out2: "emits (drop (unat k) bs) s1 s2" using less.hyps rest by blast
    then have "write_all wr a n rs s = Some (Inr (), rs2, s2)"
      using False k by (subst write_all.simps) (simp add: not_less)
    then show ?thesis using emits_append [OF out out2] by auto
  qed
qed

end

end
