(* ===== verification/Syscall_Contract.thy ===== *)
theory Syscall_Contract
  imports Syscall Crabapi User_Contract
begin

text \<open>
  Properties of the system calls: what user programs may rely on.
\<close>

section \<open>Allocating pages\<close>

lemma user_same_page:
  assumes "unat (v :: u64) < 2 ^ 47" "unat w < 2 ^ 47" "same 4 v w"
  shows "unat v div 4096 = unat w div 4096"
proof -
  have m: "drop_bit 12 x AND mask 36 = drop_bit 12 x" if "unat (x :: u64) < 2 ^ 47" for x
  proof -
    have "unat (drop_bit 12 x) = unat x div 4096" by (simp add: drop_bit_eq_div unat_div)
    then have "unat (drop_bit 12 x) < 2 ^ 36" using that by (simp add: less_mult_imp_div_less)
    then show ?thesis
      by (simp add: take_bit_eq_mask[symmetric] word_unat_eq_iff unsigned_take_bit_eq take_bit_nat_eq_self)
  qed
  have "drop_bit 12 v = drop_bit 12 w" using assms m by (simp add: same_4)
  then have "unat (drop_bit 12 v) = unat (drop_bit 12 w)" by simp
  then show ?thesis by (simp add: drop_bit_eq_div unat_div)
qed

lemma user_pages_apart:
  assumes "user_range r"
  shows "sorted_wrt (\<lambda>v w. \<not> same 4 v w) (pages r)"
proof -
  have "\<not> same 4 v w" if "v \<in> set (pages r)" "w \<in> set (pages r)" "v \<noteq> w" for v w
  proof
    assume "same 4 v w"
    then have "unat v div 4096 = unat w div 4096"
      using pages_user(2)[OF assms that(1)] pages_user(2)[OF assms that(2)] by (intro user_same_page) simp_all
    then have "unat v = unat w"
      using pages_user(1)[OF assms that(1)] pages_user(1)[OF assms that(2)]
      by (metis div_mult_mod_eq)
    then show False using that(3) by (simp add: word_unat_eq_iff)
  qed
  then show ?thesis
    using pages_distinct[OF assms] by (auto simp: sorted_wrt_iff_nth_less distinct_conv_nth)
qed

text \<open>One round of the loop: a frame is taken from the free list and mapped.\<close>

lemma alloc_page_step_ok:
  assumes inv: "phys_inv s (p # ps)" and v: "ordinary v" "\<not> same 4 v (temp_page s)" "leaf s v = None"
    and enough: "3 \<le> length ps" and fl: "fl AND 1 = 1"
  shows "\<exists>s' k. alloc_page_step fl v s = Some (Inr (), s') \<and> k \<le> 3 \<and> phys_inv s' (drop k ps)
    \<and> temp_page s' = temp_page s
    \<and> (\<forall>w. ordinary w \<longrightarrow> leaf s' w = (if same 4 v w then Some (p OR fl) else leaf s w))"
proof -
  obtain s1 where s1: "phys_alloc s = Some (Inr p, s1)" "phys_inv s1 ps" "alloc_frame s p s1" "tables_agree s s1"
    using alloc_page[OF inv] by blast
  have lf: "leaf s1 w = leaf s w" if "ordinary w" for w using leaf_agree[OF s1(4) that] .
  have t: "temp_page s1 = temp_page s" using s1(3) by (simp add: alloc_frame_def)
  have "(p OR fl) AND 1 = 1" using fl by (simp add: bit.conj_disj_distrib2 bit_eq_iff) (auto simp: bit_simps)
  then have nz: "p OR fl \<noteq> 0" by auto
  obtain s' k where s': "page_map p v fl s1 = Some (Inr (), s')" "k \<le> 3" "phys_inv s' (drop k ps)" "spared ps s1 s'"
    "\<forall>w. ordinary w \<longrightarrow> leaf s' w = (if same 4 v w then Some (p OR fl) else leaf s1 w)"
    using page_map_success[OF s1(2) v(1) _ _ enough nz] v lf t by auto
  then show ?thesis using s1(1) t lf by (auto simp: alloc_page_step_def spared_def)
qed

text \<open>The whole loop: the frames \<open>qs\<close> are mapped at the pages \<open>vs\<close>, in order.\<close>

lemma alloc_pages_ok:
  assumes "phys_inv s ps" "\<forall>v \<in> set vs. ordinary v \<and> \<not> same 4 v (temp_page s) \<and> leaf s v = None"
    "sorted_wrt (\<lambda>v w. \<not> same 4 v w) vs" "4 * length vs \<le> length ps" and fl: "fl AND 1 = 1"
  shows "\<exists>s' qs k. fold_res (alloc_page_step fl) vs s = Some (Inr (), s') \<and> phys_inv s' (drop k ps)
    \<and> length qs = length vs \<and> distinct qs \<and> set qs \<subseteq> set (take k ps)
    \<and> (\<forall>i < length vs. \<forall>w. ordinary w \<and> same 4 (vs ! i) w \<longrightarrow> leaf s' w = Some (qs ! i OR fl))
    \<and> (\<forall>w. ordinary w \<and> (\<forall>v \<in> set vs. \<not> same 4 v w) \<longrightarrow> leaf s' w = leaf s w)"
  using assms(1-4)
proof (induction vs arbitrary: s ps)
  case Nil
  then show ?case by (intro exI[of _ s] exI[of _ "[]"] exI[of _ 0]) simp
next
  case (Cons v vs)
  obtain p ps' where ps: "ps = p # ps'" using Cons.prems(4) by (cases ps) auto
  have dp: "distinct (p # ps')" using Cons.prems(1) ps by (simp add: phys_inv_def)
  have le: "3 \<le> length ps'" using Cons.prems(4) ps by simp
  obtain s1 k1 where s1: "alloc_page_step fl v s = Some (Inr (), s1)" "k1 \<le> 3" "phys_inv s1 (drop k1 ps')"
    "temp_page s1 = temp_page s" "\<forall>w. ordinary w \<longrightarrow> leaf s1 w = (if same 4 v w then Some (p OR fl) else leaf s w)"
    using alloc_page_step_ok[OF Cons.prems(1)[unfolded ps] _ _ _ le fl, of v] Cons.prems(2) by auto
  have "\<forall>u \<in> set vs. ordinary u \<and> \<not> same 4 u (temp_page s1) \<and> leaf s1 u = None"
    using Cons.prems(2,3) s1(4,5) by auto
  moreover have "4 * length vs \<le> length (drop k1 ps')" using Cons.prems(4) ps s1(2) by simp
  ultimately obtain s' qs k where s': "fold_res (alloc_page_step fl) vs s1 = Some (Inr (), s')"
      "phys_inv s' (drop k (drop k1 ps'))" "length qs = length vs" "distinct qs" "set qs \<subseteq> set (take k (drop k1 ps'))"
      "\<forall>i < length vs. \<forall>w. ordinary w \<and> same 4 (vs ! i) w \<longrightarrow> leaf s' w = Some (qs ! i OR fl)"
      "\<forall>w. ordinary w \<and> (\<forall>v \<in> set vs. \<not> same 4 v w) \<longrightarrow> leaf s' w = leaf s1 w"
    using Cons.IH[OF s1(3)] Cons.prems(3) by auto
  have tk: "take (Suc (k1 + k)) ps = p # take k1 ps' @ take k (drop k1 ps')" by (simp add: ps take_add)
  have "p \<notin> set qs" using s'(5) dp in_set_takeD in_set_dropD by fastforce
  moreover have "set (p # qs) \<subseteq> set (take (Suc (k1 + k)) ps)" using s'(5) unfolding tk by auto
  moreover have "leaf s' w = Some ((p # qs) ! i OR fl)" if w: "ordinary w" "i < length (v # vs)" "same 4 ((v # vs) ! i) w" for i w
  proof (cases i)
    case 0
    have "\<not> same 4 u w" if "u \<in> set vs" for u
    proof -
      have "\<not> same 4 v u" using Cons.prems(3) that by simp
      then show ?thesis using w(3) 0 unfolding same_def by (metis nth_Cons_0)
    qed
    then show ?thesis using s'(7) s1(5) w 0 by simp
  next
    case (Suc j)
    then show ?thesis using s'(6) w by simp
  qed
  moreover have "leaf s' w = leaf s w" if "ordinary w" "\<forall>u \<in> set (v # vs). \<not> same 4 u w" for w
    using s'(7) s1(5) that by simp
  moreover have "fold_res (alloc_page_step fl) (v # vs) s = Some (Inr (), s')" using s1(1) s'(1) by simp
  moreover have "phys_inv s' (drop (Suc (k1 + k)) ps)" using s'(2) by (simp add: ps add.commute)
  ultimately show ?case using s'(3,4)
    by (intro exI[of _ s'] exI[of _ "p # qs"] exI[of _ "Suc (k1 + k)"]) simp
qed

lemma page_flags_present: "page_flags_from c uf AND 1 = 1"
  by (simp add: page_flags_from_def PRESENT_def USER_def WRITE_def Let_def)

lemma sys_alloc_page_maps:
  assumes inv: "phys_inv (kmem_of st) ps"
    and fb: "bitflags_from_bits (from_bits se)" and ct: "bitflags_contains (flags_contain se)"
    and new: "page_range_new (overflow_checks se) virt count = Some (Inr pr)"
    and nowrap: "overflow_checks se \<or> unat virt + unat count * 4096 < 2 ^ 64"
    and free: "\<forall>v \<in> set (pages pr). leaf (kmem_of st) v = None \<and> \<not> same 4 v (temp_page (kmem_of st))"
    and fl: "flags = 0 \<or> flags = 2" and enough: "4 * unat count \<le> length ps"
  shows "\<exists>s' qs k. sys_alloc_page se virt count flags st = Some (Inr OK_CODE, set_mem s' st)
    \<and> phys_inv s' (drop k ps) \<and> length qs = unat count \<and> distinct qs \<and> set qs \<subseteq> set (take k ps)
    \<and> (\<forall>i < unat count. \<forall>w. ordinary w \<and> same 4 (pages pr ! i) w \<longrightarrow>
         leaf s' w = Some (qs ! i OR (5 OR flags)))
    \<and> (\<forall>w. ordinary w \<and> (\<forall>v \<in> set (pages pr). \<not> same 4 v w) \<longrightarrow> leaf s' w = leaf (kmem_of st) w)"
proof -
  have pr: "pr = \<lparr>base_page = virt, page_count = count\<rparr>" and ur: "user_range pr"
    using page_range_new_ok[OF new nowrap] by auto
  have wf: "pt_wf (kmem_of st)" using inv by (simp add: phys_inv_def)
  have ord: "\<forall>v \<in> set (pages pr). ordinary v" by (rule user_pages_ordinary[OF ur])
  have len: "length (pages pr) = unat count" by (simp add: pages_def pr)
  have av: "validate_available pr (kmem_of st) = Some (Inr ())"
    using validate_available_pages_iff[OF wf ord] free by (simp add: validate_available_def)
  have uf: "from_bits se UPF_ALL flags = Some flags"
    using fb fl by (auto simp: bitflags_from_bits_def UPF_ALL_def)
  have pf: "page_flags_from (flags_contain se) flags = 5 OR flags"
    using ct fl by (auto simp: bitflags_contains_def page_flags_from_def UPF_WRITE_def PRESENT_def USER_def WRITE_def)
  obtain s' qs k where s': "fold_res (alloc_page_step (5 OR flags)) (pages pr) (kmem_of st) = Some (Inr (), s')"
      "phys_inv s' (drop k ps)" "length qs = length (pages pr)" "distinct qs" "set qs \<subseteq> set (take k ps)"
      "\<forall>i < length (pages pr). \<forall>w. ordinary w \<and> same 4 (pages pr ! i) w \<longrightarrow> leaf s' w = Some (qs ! i OR (5 OR flags))"
      "\<forall>w. ordinary w \<and> (\<forall>v \<in> set (pages pr). \<not> same 4 v w) \<longrightarrow> leaf s' w = leaf (kmem_of st) w"
    using alloc_pages_ok[OF inv _ user_pages_apart[OF ur] _ page_flags_present[of "flags_contain se" flags]]
      ord free len enough unfolding pf by auto
  have "sys_alloc_page se virt count flags st = Some (Inr OK_CODE, set_mem s' st)"
    using new av uf s'(1) by (simp add: sys_alloc_page_def pf)
  then show ?thesis using s' len by metis
qed

text \<open>The trap of a user program as the system call sees it: the registers of the frame \<open>f\<close> are those of the
  program, and the program goes on when the call is ready.  (The way of the frame through the scheduler
  and back is the subject of \<open>Task_Contract\<close>.)\<close>

definition kernel_trap :: "('d, 'fut, 'a) sys_env \<Rightarrow> trap_frame \<Rightarrow> ('d, 'fut, 'a) sys trap" where
  "kernel_trap se f rs st = do {
     (r, st) \<leftarrow> dispatch se (f\<lparr>regs := rs\<rparr>) st;
     (case r of PollPending \<Rightarrow> None | PollReady f' \<Rightarrow> Some (regs f', st)) }"

lemma dispatch0_alloc_page:
  "dispatch0 se (rs\<lparr>rax := vector_code AllocPage, rdi := a, rsi := b, rdx := c\<rparr>) st = ready (sys_alloc_page se a b c) st"
  by (simp add: dispatch0_def vector_code_def syscalls.try_from_as)

lemma api_alloc_page_eq:
  assumes "sys_alloc_page se a b c st = Some (r, st')"
  shows "into_result (api_alloc_page (kernel_trap se f) a b c rs st) =
     map_option (\<lambda>r'. (r', rs\<lparr>rdi := a, rsi := b, rdx := c, rax := encode_result r\<rparr>, st')) (decode_result (encode_result r))"
  using assms
  by (cases "decode_result (encode_result r)")
    (simp_all add: into_result_def api_alloc_page_def syscall3_def kernel_trap_def dispatch_def dispatch0_alloc_page ready_def)

text \<open>C24: Allocating memory from a user program.  For a range of user pages that are all free, with valid flags and
  four free frames per page, \<open>alloc_page\<close> of the user library returns success; afterwards each page of the
  range is mapped, with the flags PRESENT, USER and, if asked for, WRITE, to a frame of its own that was free before
  and no longer is; every other page is mapped as before, and the memory invariant holds for the frames
  that are left.\<close>

theorem user_alloc_page_maps:
  assumes "phys_inv (kmem_of st) ps"
    and "bitflags_from_bits (from_bits se)" "bitflags_contains (flags_contain se)"
    and "page_range_new (overflow_checks se) virt count = Some (Inr pr)"
    and "overflow_checks se \<or> unat virt + unat count * 4096 < 2 ^ 64"
    and "\<forall>v \<in> set (pages pr). leaf (kmem_of st) v = None \<and> \<not> same 4 v (temp_page (kmem_of st))"
    and "flags = 0 \<or> flags = 2" "4 * unat count \<le> length ps"
  shows "\<exists>s' qs k rs'. into_result (api_alloc_page (kernel_trap se f) virt count flags rs st) = Some (Inr OK_CODE, rs', set_mem s' st)
    \<and> phys_inv s' (drop k ps) \<and> length qs = unat count \<and> distinct qs \<and> set qs \<subseteq> set (take k ps)
    \<and> (\<forall>i < unat count. \<forall>w. ordinary w \<and> same 4 (pages pr ! i) w \<longrightarrow>
         leaf s' w = Some (qs ! i OR (5 OR flags)))
    \<and> (\<forall>w. ordinary w \<and> (\<forall>v \<in> set (pages pr). \<not> same 4 v w) \<longrightarrow> leaf s' w = leaf (kmem_of st) w)"
proof -
  have "decode_result (encode_result (Inr OK_CODE)) = Some (Inr OK_CODE)"
    by (rule decode_encode_ok) (simp add: OK_CODE_def)
  moreover obtain s' qs k where s': "sys_alloc_page se virt count flags st = Some (Inr OK_CODE, set_mem s' st)"
    and post: "phys_inv s' (drop k ps) \<and> length qs = unat count \<and> distinct qs \<and> set qs \<subseteq> set (take k ps)
    \<and> (\<forall>i < unat count. \<forall>w. ordinary w \<and> same 4 (pages pr ! i) w \<longrightarrow>
         leaf s' w = Some (qs ! i OR (5 OR flags)))
    \<and> (\<forall>w. ordinary w \<and> (\<forall>v \<in> set (pages pr). \<not> same 4 v w) \<longrightarrow> leaf s' w = leaf (kmem_of st) w)"
    using sys_alloc_page_maps[OF assms] by blast
  ultimately have "into_result (api_alloc_page (kernel_trap se f) virt count flags rs st)
      = Some (Inr OK_CODE, rs\<lparr>rdi := virt, rsi := count, rdx := flags, rax := encode_result (Inr OK_CODE)\<rparr>, set_mem s' st)"
    by (simp add: api_alloc_page_eq[OF s'])
  then show ?thesis using post by blast
qed

definition sample_se :: "(ata_dev, nat, unit) sys_env" where
  "sample_se = \<lparr>al = (\<lambda>a. (True, a)), fenv = disk_env, isp = sample_intersperse, from_bits = sample_from_bits,
     flags_contain = sample_contains, overflow_checks = True, run_loop = (\<lambda>_ _ _. 0)\<rparr>"

definition sample_sys :: "(ata_dev, nat, unit) sys" where
  "sample_sys = \<lparr>kern = \<lparr>mem = sample, TASKS = btree_new, TASK_STATES = btree_new, TASK_FUTURES = btree_new,
     CURRENT_TASK = Some 1, NEXT_TASK_ID = 2, TASK_HANDLES = object_init, heap = ()\<rparr>, world = sample_world, files = []\<rparr>"

lemma sample_sys_facts:
  "kmem_of sample_sys = sample" "overflow_checks sample_se"
  "from_bits sample_se = sample_from_bits" "flags_contain sample_se = sample_contains"
  by (simp_all add: sample_sys_def sample_se_def)

lemma sample_range: "page_range_new True 0x400000 1 = Some (Inr \<lparr>base_page = 0x400000, page_count = 1\<rparr>)"
  "pages \<lparr>base_page = 0x400000, page_count = 1\<rparr> = [0x400000]"
  by (simp_all add: page_range_new_def checked_mul_def PAGE_SIZE_def validate_page_align_def MAX_USER_ADDR_def add_u64_def
      pages_def)

theorem user_alloc_page_maps_witness:
  "\<exists>s' q rs'. into_result (api_alloc_page (kernel_trap sample_se (trap_frame_new 0 0 0)) 0x400000 1 2 default_registers sample_sys)
      = Some (Inr OK_CODE, rs', set_mem s' sample_sys) \<and> leaf s' 0x400000 = Some (q OR (5 OR 2))"
proof -
  have pr: "page_range_new (overflow_checks sample_se) 0x400000 1 = Some (Inr \<lparr>base_page = 0x400000, page_count = 1\<rparr>)"
    using sample_range(1) by (simp add: sample_sys_facts)
  obtain s' qs k rs' where "into_result (api_alloc_page (kernel_trap sample_se (trap_frame_new 0 0 0)) 0x400000 1 2
      default_registers sample_sys) = Some (Inr OK_CODE, rs', set_mem s' sample_sys)"
    "\<forall>i < unat (1 :: u64). \<forall>w. ordinary w \<and> same 4 ([0x400000] ! i) w \<longrightarrow> leaf s' w = Some (qs ! i OR (5 OR 2))"
    using user_alloc_page_maps[OF _ _ _ pr, of sample_sys sample_pages 2 "trap_frame_new 0 0 0" default_registers]
      sample_inv sample_bitflags sample_v sample_leaf sample_len(1)
    unfolding sample_range(2) sample_sys_facts by force
  moreover have "same 4 0x400000 0x400000" by (simp add: same_def)
  ultimately show ?thesis using sample_v(1) by force
qed

text \<open>A refused \<open>alloc_page\<close> changes nothing.  A range that is not aligned, not in the user half or whose
  length overflows is refused with the error of \<open>PageRange::new\<close>; a range with a page that is mapped
  already with \<open>AlreadyMapped\<close>; unknown flag bits with \<open>IllegalValue\<close>.  In all three cases the state is as before.\<close>

lemma sys_alloc_page_refuses:
  assumes wf: "pt_wf (kmem_of st)" and fb: "bitflags_from_bits (from_bits se)"
    and new: "page_range_new (overflow_checks se) virt count = Some r"
    and nowrap: "overflow_checks se \<or> unat virt + unat count * 4096 < 2 ^ 64"
    and bad: "case r of Inl e \<Rightarrow> err = e
      | Inr pr \<Rightarrow> if \<exists>v \<in> set (pages pr). leaf (kmem_of st) v \<noteq> None then err = SysAlreadyMapped
          else flags AND NOT 2 \<noteq> 0 \<and> err = SysIllegalValue"
  shows "sys_alloc_page se virt count flags st = Some (Inl err, st)"
proof (cases r)
  case (Inl e)
  then show ?thesis using new bad by (simp add: sys_alloc_page_def)
next
  case (Inr pr)
  have "user_range pr" using page_range_new_ok[of _ virt count pr] new nowrap Inr by auto
  then have v: "validate_available pr (kmem_of st)
      = Some (if \<forall>p \<in> set (pages pr). leaf (kmem_of st) p = None then Inr () else Inl SysAlreadyMapped)"
    using validate_available_pages_iff[OF wf user_pages_ordinary] by (simp add: validate_available_def)
  show ?thesis
    using new v fb bad Inr by (auto simp: sys_alloc_page_def bitflags_from_bits_def UPF_ALL_def split: if_splits)
qed

lemma sys_alloc_page_refuses_witness:
  "sys_alloc_page sample_se 0x400001 1 0 sample_sys = Some (Inl SysBadPointer, sample_sys)"
proof -
  have "page_range_new (overflow_checks sample_se) 0x400001 1 = Some (Inl SysBadPointer)"
    by (simp add: page_range_new_def checked_mul_def PAGE_SIZE_def validate_page_align_def)
  moreover have "pt_wf (kmem_of sample_sys)" using sample_inv by (simp add: sample_sys_facts phys_inv_def)
  ultimately show ?thesis
    using sys_alloc_page_refuses[of sample_sys sample_se "0x400001" 1 "Inl SysBadPointer" SysBadPointer 0] sample_bitflags
    by (simp add: sample_sys_facts)
qed

section \<open>Handles\<close>

text \<open>Bad handles.  A system call that takes a handle and is given zero or a number that is no handle of the
  calling task fails with \<open>BadHandle\<close> and changes nothing.\<close>

lemma bad_handle_refused:
  assumes "current (kern st) = Some t"
    and "rdi rs = 0 \<or> object_get t (rdi rs) (TASK_HANDLES (kern st)) = None"
    and "rax rs = vector_code c" "c \<in> {CloneHandle, SetPageContext, CreateTask, ReadStream, WriteStream}"
  shows "dispatch0 se rs st = Some (PollReady (Inl SysBadHandle), st)"
proof -
  have v: "enum64_try_from syscall_table (rax rs) = Some c"
    using assms(3) syscalls.try_from_as[of c] by (simp add: vector_code_def)
  show ?thesis
  proof (cases "rdi rs = 0")
    case True
    then have "with_handle (rdi rs) g st = Some (PollReady (Inl SysBadHandle), st)" for g
      by (simp add: with_handle_def handle_from_reg_def handle_from_u64_def)
    then show ?thesis using v assms(4) by (auto simp: dispatch0_def)
  next
    case False
    then have g: "object_get t (rdi rs) (TASK_HANDLES (kern st)) = None" using assms(2) by simp
    have w: "with_handle (rdi rs) g st = g (rdi rs) st" for g
      using False by (simp add: with_handle_def handle_from_reg_def handle_from_u64_def)
    show ?thesis
      using v assms(1,4) g w
      by (auto simp: dispatch0_def ready_def sys_clone_handle_def sys_set_page_context_def sys_create_task_def
          sys_read_stream_def sys_write_stream_def with_file_def)
  qed
qed

lemma bad_handle_refused_witness:
  "dispatch0 sample_se (default_registers\<lparr>rax := vector_code ReadStream, rdi := 7\<rparr>) sample_sys
    = Some (PollReady (Inl SysBadHandle), sample_sys)"
proof -
  have "object_get 1 7 (TASK_HANDLES (kern sample_sys)) = None"
    by (simp add: sample_sys_def object_get_def object_init_def bt.get_new)
  moreover have "current (kern sample_sys) = Some 1" by (simp add: sample_sys_def current_def)
  ultimately show ?thesis
    using bad_handle_refused[of sample_sys 1 "default_registers\<lparr>rax := vector_code ReadStream, rdi := 7\<rparr>" ReadStream] by simp
qed

end
