(* ===== verification/KVirt.thy ===== *)
theory KVirt
  imports Memory_Contract
begin

text \<open>
  The page allocator of the kernel heap, \<open>kernel/src/mem/kvirt.rs\<close>, on top of the page tables
  and the frame allocator.

  \<^item> \<open>page_allocator\<close> is \<open>PageAllocatorInner\<close>.  Its free list runs through the free pages
    themselves: the first word of a free page is the \<open>Option<NonNull<FreePage>>\<close> of
    \<open>FreePage\<close>, whose \<open>None\<close> is the null pointer.
  \<^item> \<open>kheap s ps V\<close> says that the pages \<open>V\<close> of the kernel's address space are mapped to frames
    of their own.  Reads and writes through these pages then behave like an array of words
    (the locale \<open>word_heap\<close>), which is all that the free lists here and in \<open>KAlloc\<close> rely on.
\<close>

section \<open>kvirt.rs\<close>

record page_allocator =
  free_page :: "u64 option"
  page_ptr :: u64

definition page_allocator_new :: "u64 \<Rightarrow> page_allocator" where
  "page_allocator_new ptr = \<lparr>free_page = None, page_ptr = ptr\<rparr>"

definition link_word :: "u64 option \<Rightarrow> u64" where
  "link_word l = (case l of None \<Rightarrow> 0 | Some x \<Rightarrow> x)"

text \<open>\<open>obj.as_mut().next.take()\<close>: read the link in the first word of an object and clear it.\<close>

definition take_next :: "u64 \<Rightarrow> kmem \<Rightarrow> (u64 option \<times> kmem) option" where
  "take_next obj s = do {
     x \<leftarrow> vread s obj;
     s \<leftarrow> vwrite obj 0 s;
     Some (if x = 0 then None else Some x, s) }"

definition kvirt_alloc :: "page_allocator \<Rightarrow> kmem
    \<Rightarrow> ((memory_exhausted + u64) \<times> page_allocator \<times> kmem) option" where
  "kvirt_alloc inner s =
     (case free_page inner of
        Some page \<Rightarrow> do {
          (link, s) \<leftarrow> take_next page s;
          s \<leftarrow> zero page (unat PAGE_SIZE) s;
          Some (Inr page, inner\<lparr>free_page := link\<rparr>, s) }
      | None \<Rightarrow> do {
          (r, s) \<leftarrow> phys_alloc s;
          (case r of
             Inl e \<Rightarrow> Some (Inl e, inner, s)
           | Inr phys \<Rightarrow> do {
               let ptr = page_ptr inner;
               let inner = inner\<lparr>page_ptr := page_ptr inner + PAGE_SIZE\<rparr>;
               (r, s) \<leftarrow> page_map phys ptr (PRESENT OR WRITE) s;
               (case r of
                  Inr _ \<Rightarrow> Some (Inr ptr, inner, s)
                | Inl CannotAllocatePageTable \<Rightarrow> Some (Inl MemoryExhausted, inner, s)
                | Inl AlreadyMapped \<Rightarrow> None) }) })"

definition kvirt_free :: "u64 \<Rightarrow> page_allocator \<Rightarrow> kmem \<Rightarrow> (page_allocator \<times> kmem) option" where
  "kvirt_free page inner s = do {
     s \<leftarrow> vwrite page (link_word (free_page inner)) s;
     Some (inner\<lparr>free_page := Some page\<rparr>, s) }"

text \<open>
  A value in memory is the list of its 64-bit words.  \<open>PageBox::drop\<close> runs the destructor of
  the value, a parameter here, and nothing else.
\<close>

definition write_words :: "u64 \<Rightarrow> u64 list \<Rightarrow> kmem \<Rightarrow> kmem option" where
  "write_words ptr ws s = fold_opt (\<lambda>i. vwrite (word_of ptr i) (ws ! i)) [0..<length ws] s"

definition page_box_new :: "u64 list \<Rightarrow> page_allocator \<Rightarrow> kmem
    \<Rightarrow> ((memory_exhausted + u64) \<times> page_allocator \<times> kmem) option" where
  "page_box_new value inner s = do {
     (r, inner, s) \<leftarrow> kvirt_alloc inner s;
     (case r of
        Inl e \<Rightarrow> Some (Inl e, inner, s)
      | Inr page \<Rightarrow> do { s \<leftarrow> write_words page value s; Some (Inr page, inner, s) }) }"

definition page_box_drop :: "(u64 \<Rightarrow> kmem \<Rightarrow> kmem option) \<Rightarrow> u64 \<Rightarrow> page_allocator \<Rightarrow> kmem
    \<Rightarrow> (page_allocator \<times> kmem) option" where
  "page_box_drop drop_in_place page inner s = do {
     s \<leftarrow> drop_in_place page s;
     Some (inner, s) }"

section \<open>Pages of the kernel heap\<close>

definition kpage :: "kmem \<Rightarrow> u64 list \<Rightarrow> u64 \<Rightarrow> u64 \<Rightarrow> bool" where
  "kpage s ps v q \<longleftrightarrow> v AND 0xfff = 0 \<and> ordinary v \<and>
     (\<exists>e. leaf s v = Some e \<and> present e \<and> frame e = q) \<and> \<not> is_table s q \<and> q \<notin> set ps"

definition kheap :: "u64 list \<Rightarrow> kmem \<Rightarrow> u64 set \<Rightarrow> bool" where
  "kheap ps s V \<longleftrightarrow> phys_inv s ps \<and> (\<forall>p \<in> set ps. idle_page s p) \<and>
     (\<exists>f. inj_on f V \<and> (\<forall>v \<in> V. kpage s ps v (f v)))"

definition words :: "u64 set \<Rightarrow> u64 set" where
  "words V = {a. \<exists>v \<in> V. in_page v a}"

lemma words_mono: "V \<subseteq> W \<Longrightarrow> words V \<subseteq> words W"
  by (auto simp: words_def)

lemma page_of_word:
  assumes "v AND 0xfff = 0" "in_page v a"
  shows "a AND NOT 0xfff = v"
proof -
  from assms(2) obtain i where i: "i < 512" "a = v + 8 * of_nat i" by (auto simp: in_page_def word_of_def)
  have "(a AND NOT 0xfff) + (a AND 0xfff) = (a AND NOT 0xfff) OR (a AND 0xfff)"
    by (rule word_add_or, rule bit_word_eqI) (auto simp: bit_simps)
  also have "\<dots> = a" by (rule bit_word_eqI) (auto simp: bit_simps)
  finally have "(a AND NOT 0xfff) + (a AND 0xfff) = a" .
  then show ?thesis using same_in_page(2) [OF assms(1) i(1)] i(2) by simp
qed

lemma kpage_translate:
  assumes wf: "pt_wf s" and k: "kpage s ps v q" and i: "i < 512"
  shows "translate s (word_of v i) = Some (word_of q i)"
proof -
  from k obtain e where v: "v AND 0xfff = 0" "ordinary v" and e: "leaf s v = Some e" "present e" "frame e = q"
    by (auto simp: kpage_def)
  note sm = same_in_page [OF v(1) i]
  have "leaf s (word_of v i) = Some e" "ordinary (word_of v i)"
    using leaf_same [OF sm(1)] ordinary_same [OF sm(1)] e v by (simp_all add: word_of_def)
  from translate_leaf [OF wf this(2,1) e(2)] show ?thesis
    using sm(2) e(3) by (simp add: word_of_def)
qed

lemma kpage_frame: "kpage s ps v q \<Longrightarrow> frame q = q"
  by (auto simp: kpage_def)

lemma phys_inv_set_word:
  assumes inv: "phys_inv s ps" and q: "\<not> is_table s (frame a)" "frame a \<notin> set ps"
  shows "phys_inv (set_pmem a x s) ps"
proof -
  from inv obtain cs regions allocs where
    h: "pt_wf s" "temp_ok s" "distinct ps" "\<forall>q \<in> set ps. page_ok s q"
      "PHYS_REGIONS s = Some regions" "PHYS_BUMP_ALLOC s = Some allocs"
      "free_chain (pmem s) (NEXT_FREE_PHYS s) cs" "ps = cs @ bump_pages regions allocs"
    unfolding phys_inv_def by metis
  note ag = agree_outside [OF q(1) refl, of x]
  have "free_chain (pmem (set_pmem a x s)) (NEXT_FREE_PHYS s) cs = free_chain (pmem s) (NEXT_FREE_PHYS s) cs"
  proof (rule free_chain_cong)
    fix p assume "p \<in> set cs"
    then have "frame p = p" "p \<in> set ps" using h(4,8) by (auto simp: page_ok_def)
    then have "\<not> in_page p a" using in_page_frame [of p a] q(2) by metis
    then show "pmem (set_pmem a x s) p = pmem s p \<and> pmem (set_pmem a x s) (p + 8) = pmem s (p + 8)"
      using in_page_base [of p] by auto
  qed
  then show ?thesis
    unfolding phys_inv_def using h pt_wf_agree [OF ag] temp_ok_agree [OF ag] page_ok_agree [OF ag]
    by (intro conjI exI [of _ cs] exI [of _ regions] exI [of _ allocs]) auto
qed

lemma kheap_read:
  assumes "kheap ps s V" "a \<in> words V"
  shows "\<exists>x. vread s a = Some x"
proof -
  from assms obtain f v i where "pt_wf s" "kpage s ps v (f v)" "i < 512" "a = word_of v i"
    by (auto simp: kheap_def words_def in_page_def phys_inv_def)
  then show ?thesis using kpage_translate by (simp add: vread_def)
qed

lemma kheap_write:
  assumes h: "kheap ps s V" and a: "a \<in> words V"
  shows "\<exists>s'. vwrite a x s = Some s' \<and> kheap ps s' V \<and>
     (\<forall>b \<in> words V. vread s' b = (if b = a then Some x else vread s b)) \<and>
     (\<forall>w. ordinary w \<longrightarrow> leaf s' w = leaf s w) \<and> temp_page s' = temp_page s"
proof -
  from h obtain f where inv: "phys_inv s ps" "\<forall>p \<in> set ps. idle_page s p" and
    f: "inj_on f V" "\<And>v. v \<in> V \<Longrightarrow> kpage s ps v (f v)" by (auto simp: kheap_def)
  from a obtain v i where v: "v \<in> V" "i < 512" "a = word_of v i" by (auto simp: words_def in_page_def)
  let ?p = "word_of (f v) i" let ?s = "set_pmem (word_of (f v) i) x s"
  have wf: "pt_wf s" using inv(1) by (simp add: phys_inv_def)
  have tr: "translate s (word_of w j) = Some (word_of (f w) j)" if "w \<in> V" "j < 512" for w j
    by (rule kpage_translate [OF wf f(2) [OF that(1)] that(2)])
  have fr: "frame (word_of (f w) j) = f w" if "w \<in> V" "j < 512" for w j
    using frame_word_of [OF that(2), of "f w"] kpage_frame [OF f(2) [OF that(1)]] by simp
  have q: "\<not> is_table s (frame ?p)" "frame ?p \<notin> set ps"
    using f(2) [OF v(1)] fr [OF v(1,2)] by (auto simp: kpage_def)
  note ag = agree_outside [OF q(1) refl, of x]
  have wr: "vwrite a x s = Some ?s" using tr [OF v(1,2)] v(3) by (simp add: vwrite_def)
  have k': "kpage ?s ps w (f w)" if "w \<in> V" for w
    using f(2) [OF that] leaf_agree [OF ag] is_table_agree [OF ag] by (simp add: kpage_def)
  have "idle_page ?s p" if "p \<in> set ps" for p
    using inv(2) that page_ok_agree [OF ag] by (auto simp: idle_page_def)
  then have "kheap ps ?s V"
    using phys_inv_set_word [OF inv(1) q] f(1) k' by (auto simp: kheap_def)
  moreover have "vread ?s b = (if b = a then Some x else vread s b)" if "b \<in> words V" for b
  proof -
    from that obtain w j where w: "w \<in> V" "j < 512" "b = word_of w j" by (auto simp: words_def in_page_def)
    have "pt_wf ?s" by (rule pt_wf_agree [OF ag wf])
    from kpage_translate [OF this k' [OF w(1)] w(2)] tr [OF w(1,2)] w(3)
    have "vread ?s b = Some (if word_of (f w) j = ?p then x else pmem s (word_of (f w) j))"
      and "vread s b = Some (pmem s (word_of (f w) j))" by (simp_all add: vread_def)
    moreover have "word_of (f w) j = ?p \<longleftrightarrow> b = a"
    proof
      assume eq: "word_of (f w) j = ?p"
      then have "f w = f v" using fr [OF w(1,2)] fr [OF v(1,2)] by simp
      then show "b = a" using eq word_of_inj [of "f v" j i] inj_onD [OF f(1)] w v by auto
    next
      assume "b = a"
      then have "w = v" using page_of_word w v f(2) by (metis in_page_def kpage_def)
      then show "word_of (f w) j = ?p" using \<open>b = a\<close> w(3) v(3) by (simp add: word_of_def)
    qed
    ultimately show ?thesis by simp
  qed
  ultimately show ?thesis using wr leaf_agree [OF ag] by auto
qed

section \<open>Free lists in a heap of words\<close>

text \<open>\<open>obj_chain rd l xs\<close>: the objects reached from the link \<open>l\<close> are \<open>xs\<close>.\<close>

fun obj_chain :: "(u64 \<Rightarrow> u64 option) \<Rightarrow> u64 option \<Rightarrow> u64 list \<Rightarrow> bool" where
  "obj_chain rd l [] \<longleftrightarrow> l = None"
| "obj_chain rd l (q # qs) \<longleftrightarrow> l = Some q \<and> q \<noteq> 0 \<and>
     (case rd q of None \<Rightarrow> False | Some x \<Rightarrow> obj_chain rd (if x = 0 then None else Some x) qs)"

lemma obj_chain_cong:
  assumes "\<And>q. q \<in> set qs \<Longrightarrow> rd' q = rd q"
  shows "obj_chain rd' l qs = obj_chain rd l qs"
  using assms by (induction qs arbitrary: l) (auto split: option.splits)

lemma obj_chain_nonzero: "obj_chain rd l qs \<Longrightarrow> 0 \<notin> set qs"
  by (induction qs arbitrary: l) (auto split: option.splits)

text \<open>What the allocators rely on: the words of the heap pages can be read and written, and a
  write changes one word.\<close>

locale word_heap =
  fixes ok :: "'s \<Rightarrow> u64 set \<Rightarrow> bool"
    and rd :: "'s \<Rightarrow> u64 \<Rightarrow> u64 option"
    and wr :: "u64 \<Rightarrow> u64 \<Rightarrow> 's \<Rightarrow> 's option"
  assumes readable: "ok s V \<Longrightarrow> a \<in> words V \<Longrightarrow> \<exists>x. rd s a = Some x"
    and writable: "ok s V \<Longrightarrow> a \<in> words V \<Longrightarrow> \<exists>s'. wr a x s = Some s' \<and> ok s' V \<and>
      (\<forall>b \<in> words V. rd s' b = (if b = a then Some x else rd s b))"
begin

lemma chain_kept:
  assumes "obj_chain (rd s) l qs" "set qs \<subseteq> words V - A" "\<forall>b \<in> words V - A. rd s' b = rd s b"
  shows "obj_chain (rd s') l qs"
proof -
  have "obj_chain (rd s') l qs = obj_chain (rd s) l qs" by (rule obj_chain_cong) (use assms(2,3) in blast)
  then show ?thesis using assms(1) by simp
qed

lemma push_object:
  assumes ok: "ok s V" and p: "p \<in> words V" "p \<noteq> 0"
    and ch: "obj_chain (rd s) l qs" "set qs \<subseteq> words V - {p}"
  shows "\<exists>s'. wr p (link_word l) s = Some s' \<and> ok s' V \<and> obj_chain (rd s') (Some p) (p # qs) \<and>
     (\<forall>b \<in> words V - {p}. rd s' b = rd s b)"
proof -
  from writable [OF ok p(1)] obtain s' where s': "wr p (link_word l) s = Some s'" "ok s' V"
    "\<forall>b \<in> words V. rd s' b = (if b = p then Some (link_word l) else rd s b)" by blast
  have keep: "\<forall>b \<in> words V - {p}. rd s' b = rd s b" using s'(3) by simp
  have "(if link_word l = 0 then None else Some (link_word l)) = l"
    using ch(1) by (cases l; cases qs) (auto simp: link_word_def)
  then have "obj_chain (rd s') (Some p) (p # qs)"
    using s'(3) p chain_kept [OF ch keep] by simp
  then show ?thesis using s'(1,2) keep by blast
qed

lemma pop_object:
  assumes ok: "ok s V" and ch: "obj_chain (rd s) l (p # qs)" "set (p # qs) \<subseteq> words V" "p \<notin> set qs"
  shows "\<exists>x s'. l = Some p \<and> rd s p = Some x \<and> wr p 0 s = Some s' \<and> ok s' V \<and>
     obj_chain (rd s') (if x = 0 then None else Some x) qs \<and> (\<forall>b \<in> words V - {p}. rd s' b = rd s b)"
proof -
  from ch(1) obtain x where x: "l = Some p" "rd s p = Some x"
    "obj_chain (rd s) (if x = 0 then None else Some x) qs" by (auto split: option.splits)
  from writable [OF ok, of p 0] ch(2) obtain s' where s': "wr p 0 s = Some s'" "ok s' V"
    "\<forall>b \<in> words V. rd s' b = (if b = p then Some 0 else rd s b)" by auto
  have keep: "\<forall>b \<in> words V - {p}. rd s' b = rd s b" using s'(3) by simp
  have "obj_chain (rd s') (if x = 0 then None else Some x) qs"
    by (rule chain_kept [OF x(3) _ keep]) (use ch(2,3) in auto)
  then show ?thesis using x s'(1,2) keep by blast
qed

lemma fill_words:
  assumes ok: "ok s V" and n: "n \<le> 512" "\<And>i. i < n \<Longrightarrow> word_of p i \<in> words V"
  shows "\<exists>s'. fold_opt (\<lambda>i. wr (word_of p i) (g i)) [0..<n] s = Some s' \<and> ok s' V \<and>
     (\<forall>i < n. rd s' (word_of p i) = Some (g i)) \<and>
     (\<forall>b \<in> words V - {word_of p i | i. i < n}. rd s' b = rd s b)"
  using n
proof (induction n)
  case 0
  then show ?case using ok by simp
next
  case (Suc n)
  then obtain s' where s': "fold_opt (\<lambda>i. wr (word_of p i) (g i)) [0..<n] s = Some s'" "ok s' V"
    "\<forall>i < n. rd s' (word_of p i) = Some (g i)"
    "\<forall>b \<in> words V - {word_of p i | i. i < n}. rd s' b = rd s b" by auto
  have w: "word_of p n \<in> words V" using Suc.prems by simp
  from writable [OF s'(2) w] obtain t where t: "wr (word_of p n) (g n) s' = Some t" "ok t V"
    "\<forall>b \<in> words V. rd t b = (if b = word_of p n then Some (g n) else rd s' b)" by blast
  have "rd t (word_of p i) = Some (g i)" if "i < Suc n" for i
    using t(3) s'(3) Suc.prems(2) [of i] that word_of_inj [of p i n] Suc.prems(1)
    by (cases "i = n") auto
  moreover have "rd t b = rd s b" if "b \<in> words V - {word_of p i | i. i < Suc n}" for b
  proof -
    have "b \<noteq> word_of p n" "b \<in> words V - {word_of p i | i. i < n}" using that less_SucI by blast+
    then show ?thesis using t(3) s'(4) by simp
  qed
  ultimately show ?case using s'(1) t(1,2) by (simp add: fold_opt_append)
qed

end

section \<open>Room for new pages\<close>

definition page_no :: "u64 \<Rightarrow> u64" where
  "page_no v = drop_bit 12 v AND mask 36"

definition vacant :: "kmem \<Rightarrow> u64 list \<Rightarrow> bool" where
  "vacant s us \<longleftrightarrow> distinct (map page_no us) \<and>
     (\<forall>u \<in> set us. u \<noteq> 0 \<and> u AND 0xfff = 0 \<and> ordinary u \<and> \<not> same 4 u (temp_page s) \<and> leaf s u = None)"

definition kspace :: "u64 list \<Rightarrow> u64 list \<Rightarrow> kmem \<Rightarrow> u64 set \<Rightarrow> bool" where
  "kspace ps us s V \<longleftrightarrow> kheap ps s V \<and> vacant s us"

interpretation kw: word_heap "kspace ps us" vread vwrite for ps us
proof unfold_locales
  fix s V a x
  assume h: "kspace ps us s V" "a \<in> words V"
  then show "\<exists>x. vread s a = Some x" using kheap_read unfolding kspace_def by blast
  from h obtain s' where s': "vwrite a x s = Some s'" "kheap ps s' V"
    "\<forall>b \<in> words V. vread s' b = (if b = a then Some x else vread s b)"
    "\<forall>w. ordinary w \<longrightarrow> leaf s' w = leaf s w" "temp_page s' = temp_page s"
    using kheap_write [of ps s V a x] by (auto simp: kspace_def)
  then have "kspace ps us s' V" using h(1) by (auto simp: kspace_def vacant_def)
  then show "\<exists>s'. vwrite a x s = Some s' \<and> kspace ps us s' V \<and>
      (\<forall>b \<in> words V. vread s' b = (if b = a then Some x else vread s b))" using s' by blast
qed

lemma spared_idle:
  assumes "spared cs s s'" "idle_page s q" "q \<notin> set cs"
  shows "idle_page s' q"
proof -
  from assms(2) obtain rc where "page_ok s q" "ref_count s q = Some (Some rc)" "rc_array s rc = 0"
    "REF_COUNT_ENABLED s" by (auto simp: idle_page_def)
  with assms(1,3) show ?thesis by (auto simp: spared_def idle_page_def)
qed

lemma kheap_spared:
  assumes h: "kheap ps s V" and sp: "spared cs s s'" "set cs \<subseteq> set ps"
    and ps': "phys_inv s' ps'" "set ps' \<subseteq> set ps" "\<forall>p \<in> set ps'. idle_page s' p"
    and lf: "\<forall>v \<in> V. leaf s' v = leaf s v"
  shows "kheap ps' s' V" and "\<forall>b \<in> words V. vread s' b = vread s b"
proof -
  from h obtain f where f: "inj_on f V" "\<And>v. v \<in> V \<Longrightarrow> kpage s ps v (f v)" and wf: "pt_wf s"
    by (auto simp: kheap_def phys_inv_def)
  have k': "kpage s' ps' v (f v)" and mem: "\<And>a. frame a = f v \<Longrightarrow> pmem s' a = pmem s a" if "v \<in> V" for v
    using f(2) [OF that] sp ps'(2) lf that unfolding kpage_def spared_def by auto
  show "kheap ps' s' V" using k' f(1) ps'(1,3) by (auto simp: kheap_def)
  have wf': "pt_wf s'" using ps'(1) by (simp add: phys_inv_def)
  show "\<forall>b \<in> words V. vread s' b = vread s b"
  proof
    fix b assume "b \<in> words V"
    then obtain w j where w: "w \<in> V" "j < 512" "b = word_of w j" by (auto simp: words_def in_page_def)
    have "frame (word_of (f w) j) = f w"
      using frame_word_of [OF w(2)] kpage_frame [OF f(2) [OF w(1)]] by simp
    then show "vread s' b = vread s b"
      using kpage_translate [OF wf f(2) [OF w(1)] w(2)] kpage_translate [OF wf' k' [OF w(1)] w(2)]
        mem [OF w(1)] w(3) by (simp add: vread_def)
  qed
qed

lemma release_space_kept:
  assumes inv: "phys_inv s ps" and p: "sole_page s p" "p \<notin> set ps"
  shows "\<exists>s'. phys_drop p s = Some s' \<and> phys_inv s' (p # ps) \<and> space_kept [p] s s' \<and> idle_page s' p"
proof -
  from p(1) obtain rc where rc: "page_ok s p" "REF_COUNT_ENABLED s" "ref_count s p = Some (Some rc)"
    "rc_array s rc = 1" by (auto simp: sole_page_def)
  obtain s' where s': "phys_drop p s = Some s'" "phys_inv s' (p # ps)" "tables_agree s s'"
    using release_page [OF inv rc(1) p(2) rc(2-)] by blast
  have pf: "frame p = p" "\<not> is_table s p" "pt_wf s" "temp_ok s"
    using rc(1) inv by (auto simp: page_ok_def phys_inv_def)
  have eq: "s' = s\<lparr>rc_array := (rc_array s)(rc := 0), NEXT_FREE_PHYS := Some p,
      pmem := put_link p (NEXT_FREE_PHYS s) (pmem s)\<rparr>"
    using phys_drop_last [OF pf(3,4,1,2) rc(2-)] s'(1) by simp
  have "pmem s' a = pmem s a" if "frame a \<noteq> p" for a
    using that in_page_frame [OF pf(1), of a] put_link_outside by (auto simp: eq)
  moreover have "rc_array s' rc' = rc_array s rc'"
    if "page_ok s q" "q \<noteq> p" "ref_count s q = Some (Some rc')" for q rc'
    using that ref_count_inj [OF rc(3)] rc(1) by (auto simp: eq page_ok_def)
  moreover have "temp_page s' = temp_page s" "cr3 s' = cr3 s" "ref_count s' = ref_count s"
    "REF_COUNT_ENABLED s' = REF_COUNT_ENABLED s" by (simp_all add: eq)
  ultimately have "space_kept [p] s s'"
    using leaf_agree [OF s'(3)] page_ok_agree [OF s'(3)] is_table_agree [OF s'(3)]
    unfolding space_kept_def spared_def by auto
  moreover have "idle_page s' p" using rc page_ok_agree [OF s'(3)] by (auto simp: idle_page_def eq)
  ultimately show ?thesis using s'(1,2) by blast
qed

lemma vacant_tl: "vacant s (u # us) \<Longrightarrow> vacant s us"
  by (auto simp: vacant_def)

lemma not_same_page_no: "page_no u \<noteq> page_no v \<Longrightarrow> \<not> same 4 u v"
  by (simp add: same_4 page_no_def)

lemma vacant_kept:
  assumes "vacant s us" "\<forall>w. ordinary w \<longrightarrow> leaf s' w = leaf s w" "temp_page s' = temp_page s"
  shows "vacant s' us"
  using assms by (auto simp: vacant_def)

lemma or_3: "PRESENT OR WRITE = 3"
  by (simp add: PRESENT_def WRITE_def)

text \<open>Mapping one fresh frame at a vacant address: it becomes a page of the heap, filled with
  zeros, or the frame goes back and nothing has changed.\<close>

lemma map_new_page:
  assumes sp: "kspace (p # qs) (u # us) s V"
  shows "\<exists>s1. phys_alloc s = Some (Inr p, s1) \<and>
     ((\<exists>s' k. page_map p u (PRESENT OR WRITE) s1 = Some (Inr (), s') \<and> k \<le> 3 \<and>
         kspace (drop k qs) us s' (insert u V) \<and> u \<notin> V \<and> (\<forall>i < 512. vread s' (word_of u i) = Some 0) \<and>
         (\<forall>b \<in> words V. vread s' b = vread s b)) \<or>
      (\<exists>s'. page_map p u (PRESENT OR WRITE) s1 = Some (Inl CannotAllocatePageTable, s') \<and> length qs < 3 \<and>
         kspace [p] us s' V \<and> (\<forall>b \<in> words V. vread s' b = vread s b)))"
proof -
  have h: "kheap (p # qs) s V" "vacant s (u # us)" and inv: "phys_inv s (p # qs)"
    and idle: "idle_page s p" "\<forall>q \<in> set qs. idle_page s q"
    using sp by (auto simp: kspace_def kheap_def)
  have u: "u \<noteq> 0" "u AND 0xfff = 0" "ordinary u" "\<not> same 4 u (temp_page s)" "leaf s u = None"
    using h(2) by (auto simp: vacant_def)
  have pok: "page_ok s p" "p \<notin> set qs" using inv by (auto simp: phys_inv_def)
  obtain s1 where s1: "phys_alloc s = Some (Inr p, s1)" "phys_inv s1 qs" "alloc_frame s p s1"
    "tables_agree s s1" using alloc_page [OF inv] by blast
  have k1: "space_kept [p] s s1" by (rule alloc_space_kept [OF s1(3,4) pok(1)])
  have l1: "\<forall>w. ordinary w \<longrightarrow> leaf s1 w = leaf s w" and t1: "temp_page s1 = temp_page s" and sp1: "spared [p] s s1"
    using k1 by (auto simp: space_kept_def spared_def)
  have so: "sole_page s1 p" by (rule pa.alloc_sole [OF inv idle(1) s1(1)])
  have po: "frame (p OR 3) = p" "present (p OR 3)" "p OR 3 \<noteq> 0"
    using pok(1) frame_or_flags [of p 3] present_or [of 3 p] present_nonzero by (auto simp: page_ok_def)
  have nt1: "\<not> is_table s1 p" using pok(1) is_table_agree [OF s1(4)] by (simp add: page_ok_def)
  have mem1: "\<forall>a. frame a = p \<longrightarrow> in_page p a \<longrightarrow> pmem s1 a = 0"
    using s1(3) by (simp add: alloc_frame_def clear_page_def)
  have "\<not> same 4 u (temp_page s1)" "leaf s1 u = None" using u t1 l1 by auto
  from page_map_total [OF s1(2) u(3) this po(3)] show ?thesis
  proof (elim disjE exE conjE)
    fix s' k
    assume m: "page_map p u 3 s1 = Some (Inr (), s')" "k \<le> 3" "phys_inv s' (drop k qs)"
      "spared (take k qs) s1 s'"
      "\<forall>w. ordinary w \<longrightarrow> leaf s' w = (if same 4 u w then Some (p OR 3) else leaf s1 w)"
    have sp2: "spared ([p] @ take k qs) s s'" by (rule spared_trans [OF sp1 m(4)])
    have dq: "distinct qs" using inv by (simp add: phys_inv_def)
    have notin: "set (take k qs) \<inter> set (drop k qs) = {}" by (rule set_take_disj_set_drop_if_distinct [OF dq]) simp
    have other: "\<not> same 4 u v" if "v \<in> V" for v
      using h(1) that u(5) leaf_same [of u v s] by (auto simp: kheap_def kpage_def)
    have ord: "ordinary v" if "v \<in> V" for v using h(1) that by (auto simp: kheap_def kpage_def)
    have lf: "\<forall>v \<in> V. leaf s' v = leaf s v" using m(5) l1 other ord by auto
    have idle': "\<forall>q \<in> set (drop k qs). idle_page s' q"
      using spared_idle [OF sp2] idle(2) notin pok(2) in_set_dropD by fastforce
    have sub: "set ([p] @ take k qs) \<subseteq> set (p # qs)" "set (drop k qs) \<subseteq> set (p # qs)"
      using set_take_subset [of k qs] set_drop_subset [of k qs] by auto
    note hk = kheap_spared [OF h(1) sp2 sub(1) m(3) sub(2) idle' lf]
    from hk(1) obtain f where f: "inj_on f V" "\<And>v. v \<in> V \<Longrightarrow> kpage s' (drop k qs) v (f v)"
      by (auto simp: kheap_def)
    have fp: "f v \<noteq> p" if "v \<in> V" for v using f(2) [OF that] h(1) lf that by (auto simp: kheap_def kpage_def)
    have pn: "p \<notin> set (take k qs)" "p \<notin> set (drop k qs)" using pok(2) in_set_takeD in_set_dropD by metis+
    have p': "\<not> is_table s' p" "\<And>a. frame a = p \<Longrightarrow> pmem s' a = pmem s1 a"
      using m(4) nt1 pn(1) unfolding spared_def by blast+
    have "leaf s' u = Some (p OR 3)" using m(5) u(3) by (simp add: same_def)
    then have ku: "kpage s' (drop k qs) u p" using u po p'(1) pn(2) by (simp add: kpage_def)
    have uV: "u \<notin> V" using other by (auto simp: same_def)
    have "inj_on (f(u := p)) (insert u V)" using f(1) fp uV by (auto simp: inj_on_def)
    moreover have "\<forall>v \<in> insert u V. kpage s' (drop k qs) v ((f(u := p)) v)" using ku f(2) by simp
    ultimately have hk': "kheap (drop k qs) s' (insert u V)" using hk(1) unfolding kheap_def by blast
    have "vacant s' us"
      using h(2) m(4,5) l1 t1 not_same_page_no [of u] by (auto simp: vacant_def spared_def)
    moreover have "vread s' (word_of u i) = Some 0" if "i < 512" for i
    proof -
      have "frame (word_of p i) = p" using frame_word_of [OF that] pok(1) by (simp add: page_ok_def)
      moreover have "in_page p (word_of p i)" using that by (auto simp: in_page_def)
      moreover have "pt_wf s'" using m(3) by (simp add: phys_inv_def)
      ultimately show ?thesis using kpage_translate [OF _ ku that] p'(2) mem1 by (simp add: vread_def)
    qed
    ultimately show ?thesis using s1(1) m(1,2) hk(2) hk' uV unfolding or_3 kspace_def by blast
  next
    fix s2
    assume m: "length qs < 3" "phys_inv s2 []" "space_kept qs s1 s2"
      "page_map p u 3 s1 = map_option (Pair (Inl CannotAllocatePageTable)) (phys_drop p s2)"
    have sp2: "spared qs s1 s2" using m(3) by (simp add: space_kept_def)
    obtain s' where s': "phys_drop p s2 = Some s'" "phys_inv s' [p]" "space_kept [p] s2 s'" "idle_page s' p"
      using release_space_kept [OF m(2) spared_sole [OF sp2 so pok(2)]] by auto
    have sp3: "spared ([p] @ qs @ [p]) s s'"
      using spared_trans [OF sp1 spared_trans [OF sp2]] s'(3) by (simp add: space_kept_def)
    have lf: "\<forall>w. ordinary w \<longrightarrow> leaf s' w = leaf s w" using l1 m(3) s'(3) by (simp add: space_kept_def)
    have "\<forall>v \<in> V. leaf s' v = leaf s v" using lf h(1) by (auto simp: kheap_def kpage_def)
    note hk = kheap_spared [OF h(1) sp3 _ s'(2) _ _ this]
    have "vacant s' us" using vacant_kept [OF vacant_tl [OF h(2)] lf] sp3 by (simp add: spared_def)
    then show ?thesis using s1(1) m(1,4) s'(1,4) hk unfolding or_3 kspace_def by auto
  qed
qed

section \<open>The contract of the page allocator\<close>

primrec pages_from :: "u64 \<Rightarrow> nat \<Rightarrow> u64 list" where
  "pages_from p 0 = []"
| "pages_from p (Suc n) = p # pages_from (p + PAGE_SIZE) n"

definition kvirt_inv :: "u64 list \<Rightarrow> nat \<Rightarrow> u64 list \<Rightarrow> page_allocator \<Rightarrow> kmem \<Rightarrow> u64 set \<Rightarrow> bool" where
  "kvirt_inv ps n F inner s V \<longleftrightarrow> kspace ps (pages_from (page_ptr inner) n) s V \<and>
     obj_chain (vread s) (free_page inner) F \<and> distinct F \<and> set F \<subseteq> V"

lemma kspace_aligned: "kspace ps us s V \<Longrightarrow> v \<in> V \<Longrightarrow> v AND 0xfff = 0"
  by (auto simp: kspace_def kheap_def kpage_def)

lemma base_word: "v \<in> V \<Longrightarrow> v \<in> words V"
  using in_page_base by (auto simp: words_def)

lemma word_of_words: "v \<in> V \<Longrightarrow> i < 512 \<Longrightarrow> word_of v i \<in> words V"
  by (auto simp: words_def in_page_def)

lemma words_Diff:
  assumes "\<And>v. v \<in> V \<Longrightarrow> v AND 0xfff = 0" "p \<in> V" "p \<in> A"
  shows "words (V - A) \<subseteq> words V - {word_of p i | i. i < 512}"
proof
  fix b assume "b \<in> words (V - A)"
  then obtain v where v: "v \<in> V" "v \<notin> A" "in_page v b" by (auto simp: words_def)
  have "\<not> in_page p b" using page_of_word [OF assms(1)] v assms(2,3) by metis
  then show "b \<in> words V - {word_of p i | i. i < 512}" using v by (auto simp: words_def in_page_def)
qed

lemma zero_block:
  assumes "kspace ps us s V" "n \<le> 512" "\<And>i. i < n \<Longrightarrow> word_of p i \<in> words V"
  shows "\<exists>s'. zero p (8 * n) s = Some s' \<and> kspace ps us s' V \<and> (\<forall>i < n. vread s' (word_of p i) = Some 0) \<and>
     (\<forall>b \<in> words V - {word_of p i | i. i < n}. vread s' b = vread s b)"
  using kw.fill_words [OF assms, of "\<lambda>_. 0"] by (simp add: zero_def word_of_def)

lemma zero_page:
  assumes "kspace ps us s V" "p \<in> V"
  shows "\<exists>s'. zero p (unat PAGE_SIZE) s = Some s' \<and> kspace ps us s' V \<and> (\<forall>i < 512. vread s' (word_of p i) = Some 0) \<and>
     (\<forall>b \<in> words V - {word_of p i | i. i < 512}. vread s' b = vread s b)"
proof -
  have "unat PAGE_SIZE = 8 * 512" by (simp add: PAGE_SIZE_def)
  then show ?thesis using zero_block [OF assms(1) order_refl word_of_words [OF assms(2)]] by (simp only:)
qed

lemma kvirt_alloc_reuse:
  assumes inv: "kvirt_inv ps n (p # F) inner s V"
  shows "\<exists>inner' s'. kvirt_alloc inner s = Some (Inr p, inner', s') \<and> kvirt_inv ps n F inner' s' V \<and>
     (\<forall>i < 512. vread s' (word_of p i) = Some 0) \<and>
     (\<forall>b \<in> words V - {word_of p i | i. i < 512}. vread s' b = vread s b)"
proof -
  let ?us = "pages_from (page_ptr inner) n"
  have h: "kspace ps ?us s V" "obj_chain (vread s) (free_page inner) (p # F)" "p \<notin> set F" "distinct F"
    "p \<in> V" "set F \<subseteq> V" using inv by (auto simp: kvirt_inv_def)
  have sub: "set (p # F) \<subseteq> words V" using h(5,6) base_word by auto
  from kw.pop_object [OF h(1,2) sub h(3)] obtain x s1 where
    s1: "free_page inner = Some p" "vread s p = Some x" "vwrite p 0 s = Some s1" "kspace ps ?us s1 V"
      "obj_chain (vread s1) (if x = 0 then None else Some x) F" "\<forall>b \<in> words V - {p}. vread s1 b = vread s b"
    by blast
  from zero_page [OF s1(4) h(5)] obtain s' where
    s': "zero p (unat PAGE_SIZE) s1 = Some s'" "kspace ps ?us s' V" "\<forall>i < 512. vread s' (word_of p i) = Some 0"
      "\<forall>b \<in> words V - {word_of p i | i. i < 512}. vread s' b = vread s1 b" by blast
  have "set F \<subseteq> words V - {word_of p i | i. i < 512}"
  proof -
    have "set F \<subseteq> words (V - {p})" using base_word [of _ "V - {p}"] h(3,6) by blast
    then show ?thesis using words_Diff [OF kspace_aligned [OF h(1)] h(5), of "{p}"] by simp
  qed
  then have "obj_chain (vread s') (if x = 0 then None else Some x) F"
    by (rule kw.chain_kept [OF s1(5) _ s'(4)])
  moreover have "vread s' b = vread s b" if "b \<in> words V - {word_of p i | i. i < 512}" for b
  proof -
    have "b \<noteq> p" using that in_page_base(1) [of p] by (auto simp: in_page_def)
    then show ?thesis using that s'(4) s1(6) by simp
  qed
  ultimately show ?thesis
    using s1(1-3) s'(1-3) h(4,6)
    by (intro exI [of _ "inner\<lparr>free_page := if x = 0 then None else Some x\<rparr>"] exI [of _ s'])
      (simp add: kvirt_alloc_def take_next_def kvirt_inv_def)
qed

lemma kvirt_alloc_new:
  assumes inv: "kvirt_inv (p # ps) (Suc n) [] inner s V"
  shows "(\<exists>inner' s' k. kvirt_alloc inner s = Some (Inr (page_ptr inner), inner', s') \<and> k \<le> 3 \<and>
       kvirt_inv (drop k ps) n [] inner' s' (insert (page_ptr inner) V) \<and> page_ptr inner \<notin> V \<and>
       (\<forall>i < 512. vread s' (word_of (page_ptr inner) i) = Some 0) \<and> (\<forall>b \<in> words V. vread s' b = vread s b)) \<or>
     (\<exists>inner' s'. kvirt_alloc inner s = Some (Inl MemoryExhausted, inner', s') \<and> length ps < 3 \<and>
       kvirt_inv [p] n [] inner' s' V \<and> (\<forall>b \<in> words V. vread s' b = vread s b))"
proof -
  let ?u = "page_ptr inner" let ?us = "pages_from (page_ptr inner + PAGE_SIZE) n"
  let ?inner = "inner\<lparr>page_ptr := page_ptr inner + PAGE_SIZE\<rparr>"
  have h: "kspace (p # ps) (?u # ?us) s V" "free_page inner = None" using inv by (auto simp: kvirt_inv_def)
  from map_new_page [OF h(1)] obtain s1 where s1: "phys_alloc s = Some (Inr p, s1)" and
    r: "(\<exists>s' k. page_map p ?u (PRESENT OR WRITE) s1 = Some (Inr (), s') \<and> k \<le> 3 \<and>
         kspace (drop k ps) ?us s' (insert ?u V) \<and> ?u \<notin> V \<and> (\<forall>i < 512. vread s' (word_of ?u i) = Some 0) \<and>
         (\<forall>b \<in> words V. vread s' b = vread s b)) \<or>
      (\<exists>s'. page_map p ?u (PRESENT OR WRITE) s1 = Some (Inl CannotAllocatePageTable, s') \<and> length ps < 3 \<and>
         kspace [p] ?us s' V \<and> (\<forall>b \<in> words V. vread s' b = vread s b))" by blast
  from r show ?thesis
  proof (elim disjE exE conjE)
    fix s' k
    assume m: "page_map p ?u (PRESENT OR WRITE) s1 = Some (Inr (), s')" "k \<le> 3"
      "kspace (drop k ps) ?us s' (insert ?u V)" "?u \<notin> V" "\<forall>i < 512. vread s' (word_of ?u i) = Some 0"
      "\<forall>b \<in> words V. vread s' b = vread s b"
    then show ?thesis
      using s1 h(2) by (intro disjI1 exI [of _ ?inner] exI [of _ s'] exI [of _ k])
        (simp add: kvirt_alloc_def kvirt_inv_def Let_def)
  next
    fix s'
    assume m: "page_map p ?u (PRESENT OR WRITE) s1 = Some (Inl CannotAllocatePageTable, s')" "length ps < 3"
      "kspace [p] ?us s' V" "\<forall>b \<in> words V. vread s' b = vread s b"
    then show ?thesis
      using s1 h(2) by (intro disjI2 exI [of _ ?inner] exI [of _ s'])
        (simp add: kvirt_alloc_def kvirt_inv_def Let_def)
  qed
qed

lemma kvirt_alloc_empty:
  assumes "kvirt_inv [] n [] inner s V"
  shows "kvirt_alloc inner s = Some (Inl MemoryExhausted, inner, s)"
  using assms alloc_empty [of s]
  by (auto simp: kvirt_alloc_def kvirt_inv_def kspace_def kheap_def)

lemma kvirt_free_page:
  assumes inv: "kvirt_inv ps n F inner s V" and p: "p \<in> V" "p \<notin> set F" "p \<noteq> 0"
  shows "\<exists>inner' s'. kvirt_free p inner s = Some (inner', s') \<and> kvirt_inv ps n (p # F) inner' s' V \<and>
     (\<forall>b \<in> words V - {p}. vread s' b = vread s b)"
proof -
  let ?us = "pages_from (page_ptr inner) n"
  have h: "kspace ps ?us s V" "obj_chain (vread s) (free_page inner) F" "distinct F" "set F \<subseteq> V"
    using inv by (auto simp: kvirt_inv_def)
  have "set F \<subseteq> words V - {p}" using h(4) p(2) base_word by auto
  from kw.push_object [OF h(1) base_word [OF p(1)] p(3) h(2) this] obtain s' where
    s': "vwrite p (link_word (free_page inner)) s = Some s'" "kspace ps ?us s' V"
      "obj_chain (vread s') (Some p) (p # F)" "\<forall>b \<in> words V - {p}. vread s' b = vread s b" by blast
  then show ?thesis
    using h(3,4) p by (intro exI [of _ "inner\<lparr>free_page := Some p\<rparr>"] exI [of _ s'])
      (simp add: kvirt_free_def kvirt_inv_def)
qed

lemma kvirt_inv_new: "kspace ps (pages_from ptr n) s {} \<Longrightarrow> kvirt_inv ps n [] (page_allocator_new ptr) s {}"
  by (simp add: kvirt_inv_def page_allocator_new_def)

lemma kspace_sample: "kspace sample_pages (pages_from 0xffff900000000000 4) sample {}"
proof -
  have "idle_page sample p" if "p \<in> set sample_pages" for p
    using that sample_inv sample_ref_count by (auto simp: idle_page_def phys_inv_def)
  then have "kheap sample_pages sample {}" using sample_inv by (simp add: kheap_def)
  moreover have "vacant sample (pages_from 0xffff900000000000 4)"
  proof -
    have us: "pages_from 0xffff900000000000 4 =
        [0xffff900000000000, 0xffff900000001000, 0xffff900000002000, 0xffff900000003000]"
      by (simp add: numeral_eq_Suc) (simp add: PAGE_SIZE_def)
    have "distinct (map page_no (pages_from 0xffff900000000000 4))"
      unfolding us by (simp add: page_no_def drop_bit_eq_div mask_eq_exp_minus_1)
    moreover have "ordinary u \<and> u \<noteq> 0 \<and> u AND 0xfff = 0 \<and> page_no u \<noteq> page_no (temp_page sample)"
      if "u \<in> set (pages_from 0xffff900000000000 4)" for u
      using that unfolding us by (auto simp: ix_def page_no_def drop_bit_eq_div mask_eq_exp_minus_1)
    ultimately show ?thesis using sample_leaf not_same_page_no unfolding vacant_def by blast
  qed
  ultimately show ?thesis by (simp add: kspace_def)
qed

text \<open>\<open>kvirt::alloc_page\<close> never panics while the kernel has address space left.  It returns a
  page that no client holds, aligned and filled with zeros, and leaves every word of the pages
  that clients hold unchanged; it reports \<open>MemoryExhausted\<close> only when no page is free and
  fewer than four frames are left.\<close>

lemma kvirt_alloc_fresh_page:
  assumes inv: "kvirt_inv ps (Suc n) F inner s V"
  shows "\<exists>r inner' s'. kvirt_alloc inner s = Some (r, inner', s') \<and>
     (\<forall>b \<in> words (V - set F). vread s' b = vread s b) \<and>
     (case r of
        Inl _ \<Rightarrow> F = [] \<and> length ps < 4 \<and> (\<exists>ps' n'. n \<le> n' \<and> kvirt_inv ps' n' [] inner' s' V)
      | Inr page \<Rightarrow> page \<notin> V - set F \<and> page AND 0xfff = 0 \<and>
          (\<forall>i < 512. vread s' (word_of page i) = Some 0) \<and>
          (\<exists>ps' n' F' V'. n \<le> n' \<and> kvirt_inv ps' n' F' inner' s' V' \<and>
             V' - set F' = insert page (V - set F)))"
proof (cases F)
  case (Cons p F')
  then have p: "p \<in> V" "p \<notin> set F'" "p AND 0xfff = 0"
    using inv kspace_aligned by (auto simp: kvirt_inv_def)
  have al: "\<And>v. v \<in> V \<Longrightarrow> v AND 0xfff = 0" using inv kspace_aligned by (auto simp: kvirt_inv_def)
  from kvirt_alloc_reuse inv Cons obtain inner' s' where
    a: "kvirt_alloc inner s = Some (Inr p, inner', s')" "kvirt_inv ps (Suc n) F' inner' s' V"
      "\<forall>i < 512. vread s' (word_of p i) = Some 0"
      "\<forall>b \<in> words V - {word_of p i | i. i < 512}. vread s' b = vread s b" by blast
  have "words (V - set F) \<subseteq> words V - {word_of p i | i. i < 512}"
    by (rule words_Diff [OF al p(1)]) (simp_all add: Cons)
  then have keep: "\<forall>b \<in> words (V - set F). vread s' b = vread s b" using a(4) by blast
  have "V - set F' = insert p (V - set F)" "p \<notin> V - set F" using p Cons by auto
  then have "p \<notin> V - set F \<and> (\<exists>ps' n' F' V'. n \<le> n' \<and> kvirt_inv ps' n' F' inner' s' V' \<and>
      V' - set F' = insert p (V - set F))" using a(2) le_SucI [OF order_refl, of n] by blast
  then show ?thesis using a(1,3) p(3) keep
    by (intro exI [of _ "Inr p"] exI [of _ inner'] exI [of _ s']) simp
next
  case Nil
  show ?thesis
  proof (cases ps)
    case Nil': Nil
    then show ?thesis
      using kvirt_alloc_empty [of "Suc n" inner s V] inv Nil
      by (intro exI [of _ "Inl MemoryExhausted"] exI [of _ inner] exI [of _ s])
        (auto intro!: exI [of _ "[]"] exI [of _ "Suc n"])
  next
    case (Cons p qs)
    from kvirt_alloc_new [OF inv [unfolded Nil Cons]] show ?thesis
    proof (elim disjE exE conjE)
      fix inner' s' k
      let ?u = "page_ptr inner"
      assume a: "kvirt_alloc inner s = Some (Inr ?u, inner', s')" "k \<le> 3"
        "kvirt_inv (drop k qs) n [] inner' s' (insert ?u V)" "?u \<notin> V"
        "\<forall>i < 512. vread s' (word_of ?u i) = Some 0" "\<forall>b \<in> words V. vread s' b = vread s b"
      have "?u AND 0xfff = 0" using a(3) kspace_aligned by (auto simp: kvirt_inv_def)
      moreover have "\<exists>ps' n' F' V'. n \<le> n' \<and> kvirt_inv ps' n' F' inner' s' V' \<and>
          V' - set F' = insert ?u (V - set F)" using a(3) Nil by fastforce
      ultimately show ?thesis using a Nil
        by (intro exI [of _ "Inr ?u"] exI [of _ inner'] exI [of _ s']) simp
    next
      fix inner' s'
      assume a: "kvirt_alloc inner s = Some (Inl MemoryExhausted, inner', s')" "length qs < 3"
        "kvirt_inv [p] n [] inner' s' V" "\<forall>b \<in> words V. vread s' b = vread s b"
      then show ?thesis using Nil Cons
        by (intro exI [of _ "Inl MemoryExhausted"] exI [of _ inner'] exI [of _ s']) auto
    qed
  qed
qed

lemma kvirt_alloc_fresh_page_witness:
  "\<exists>page inner' s'. kvirt_alloc (page_allocator_new 0xffff900000000000) sample = Some (Inr page, inner', s') \<and>
     page AND 0xfff = 0 \<and> vread s' (word_of page 7) = Some 0"
proof -
  have "kvirt_inv sample_pages (Suc 3) [] (page_allocator_new 0xffff900000000000) sample {}"
    using kvirt_inv_new [OF kspace_sample] by simp
  from kvirt_alloc_fresh_page [OF this] show ?thesis
    by (elim exE conjE, split sum.splits) (auto simp: sample_len(1))
qed

text \<open>A page given back to the allocator is the next one handed out, filled with zeros again,
  and the list of free pages is as before.\<close>

lemma kvirt_free_alloc:
  assumes inv: "kvirt_inv ps n F inner s V" and p: "p \<in> V" "p \<notin> set F" "p \<noteq> 0"
  shows "\<exists>inner1 s1 inner2 s2. kvirt_free p inner s = Some (inner1, s1) \<and>
     kvirt_alloc inner1 s1 = Some (Inr p, inner2, s2) \<and> kvirt_inv ps n F inner2 s2 V \<and>
     (\<forall>i < 512. vread s2 (word_of p i) = Some 0) \<and> (\<forall>b \<in> words (V - {p}). vread s2 b = vread s b)"
proof -
  from kvirt_free_page [OF assms] obtain inner1 s1 where
    1: "kvirt_free p inner s = Some (inner1, s1)" "kvirt_inv ps n (p # F) inner1 s1 V"
      "\<forall>b \<in> words V - {p}. vread s1 b = vread s b" by blast
  from kvirt_alloc_reuse [OF 1(2)] obtain inner2 s2 where
    2: "kvirt_alloc inner1 s1 = Some (Inr p, inner2, s2)" "kvirt_inv ps n F inner2 s2 V"
      "\<forall>i < 512. vread s2 (word_of p i) = Some 0"
      "\<forall>b \<in> words V - {word_of p i | i. i < 512}. vread s2 b = vread s1 b" by blast
  have "words (V - {p}) \<subseteq> words V - {word_of p i | i. i < 512}"
    by (rule words_Diff [OF _ p(1)]) (use inv kspace_aligned in \<open>auto simp: kvirt_inv_def\<close>)
  moreover have "p \<in> {word_of p i | i. i < 512}" using in_page_base(1) [of p] by (auto simp: in_page_def)
  ultimately have "vread s2 b = vread s b" if "b \<in> words (V - {p})" for b
    using 1(3) 2(4) that by (metis (no_types, lifting) DiffD1 DiffD2 DiffI insertCI singletonD subsetD)
  then show ?thesis using 1(1) 2(1-3) by blast
qed

end
