(* ===== verification/KAlloc.thy ===== *)
theory KAlloc
  imports KVirt
begin

text \<open>
  The kernel heap: the size classes of \<open>kernel/src/mem/kalloc.rs\<close>, which carve the pages of
  \<open>KVirt\<close> into blocks of a power of two, and their clients \<open>Box\<close>
  (\<open>alloc_collections/src/boxed.rs\<close>) and \<open>Arc\<close> (\<open>kernel/src/sync/arc.rs\<close>).

  \<^item> The statics \<open>ALLOCATOR\<close> of the two allocators and the memory they live in are the record
    \<open>kernel_heap\<close>; the locks around them are those of \<open>Critical_Mutex\<close>.
  \<^item> A free object holds in its first word the link to the next one, so the free lists are
    lists in memory (\<open>obj_chain\<close>).
  \<^item> \<open>kalloc_inv\<close> counts, for every word of the heap, the blocks that contain it, free or live:
    no word has two owners.  The free lists never cross a live block, and a client that writes
    inside its block cannot damage them.
\<close>

section \<open>kalloc.rs\<close>

record layout =
  layout_size :: nat
  layout_align :: nat

record size_class =
  sc_size :: nat
  sc_free :: "u64 option"

record kernel_heap =
  classes :: "size_class list"
  kvirt :: page_allocator
  kmemory :: kmem

text \<open>\<open>FreeObject::take\<close> on a list head: the object taken and the new head.\<close>

definition free_object_take :: "u64 option \<Rightarrow> kmem \<Rightarrow> (u64 option \<times> u64 option \<times> kmem) option" where
  "free_object_take self_next s =
     (case self_next of
        None \<Rightarrow> Some (None, None, s)
      | Some obj \<Rightarrow> do {
          (link, s) \<leftarrow> take_next obj s;
          Some (Some obj, link, s) })"

definition size_class_new :: "nat \<Rightarrow> size_class" where
  "size_class_new sz = \<lparr>sc_size = sz, sc_free = None\<rparr>"

definition add_free :: "u64 \<Rightarrow> size_class \<times> kmem \<Rightarrow> (size_class \<times> kmem) option" where
  "add_free ptr = (\<lambda>(c, s). do {
     s \<leftarrow> vwrite ptr (link_word (sc_free c)) s;
     Some (c\<lparr>sc_free := Some ptr\<rparr>, s) })"

text \<open>\<open>(0..PAGE_SIZE).step_by(size)\<close>\<close>

definition page_offsets :: "nat \<Rightarrow> nat list" where
  "page_offsets sz = map (\<lambda>i. i * sz) [0..<(unat PAGE_SIZE + sz - 1) div sz]"

definition alloc_uninitialized :: "size_class \<Rightarrow> page_allocator \<Rightarrow> kmem
    \<Rightarrow> ((memory_exhausted + u64) \<times> size_class \<times> page_allocator \<times> kmem) option" where
  "alloc_uninitialized c k s = do {
     (r, link, s) \<leftarrow> free_object_take (sc_free c) s;
     let c = c\<lparr>sc_free := link\<rparr>;
     (case r of
        Some ptr \<Rightarrow> Some (Inr ptr, c, k, s)
      | None \<Rightarrow> do {
          (r, k, s) \<leftarrow> kvirt_alloc k s;
          (case r of
             Inl e \<Rightarrow> Some (Inl e, c, k, s)
           | Inr new_page \<Rightarrow>
               if sc_size c = 0 then None   \<comment> \<open>step_by(0) panics\<close>
               else do {
                 (c, s) \<leftarrow> fold_opt (\<lambda>offset. add_free (new_page + of_nat offset))
                   (page_offsets (sc_size c)) (c, s);
                 (r, link, s) \<leftarrow> free_object_take (sc_free c) s;
                 (case r of
                    None \<Rightarrow> None   \<comment> \<open>expect\<close>
                  | Some ptr \<Rightarrow> Some (Inr ptr, c\<lparr>sc_free := link\<rparr>, k, s)) }) }) }"

definition size_class_alloc :: "size_class \<Rightarrow> page_allocator \<Rightarrow> kmem
    \<Rightarrow> ((memory_exhausted + u64) \<times> size_class \<times> page_allocator \<times> kmem) option" where
  "size_class_alloc c k s = do {
     (r, c, k, s) \<leftarrow> alloc_uninitialized c k s;
     (case r of
        Inl e \<Rightarrow> Some (Inl e, c, k, s)
      | Inr ptr \<Rightarrow> do {
          s \<leftarrow> zero ptr (sc_size c) s;
          Some (Inr ptr, c, k, s) }) }"

definition size_class_free :: "u64 \<Rightarrow> size_class \<times> kmem \<Rightarrow> (size_class \<times> kmem) option" where
  "size_class_free ptr cs = add_free ptr cs"

definition fits :: "size_class \<Rightarrow> layout \<Rightarrow> bool" where
  "fits c l \<longleftrightarrow> sc_size c \<ge> layout_size l \<and> sc_size c \<ge> layout_align l"

definition allocator_new :: "size_class list" where
  "allocator_new = map size_class_new [16, 32, 64, 128, 256, 512, 1024, 2048, 4096]"

text \<open>\<open>Allocator::class\<close> returns a reference into the array; here it is the index.\<close>

fun class_index :: "size_class list \<Rightarrow> layout \<Rightarrow> nat option" where
  "class_index [] l = None"
| "class_index (c # cs) l = (if fits c l then Some 0 else map_option Suc (class_index cs l))"

definition alloc_layout :: "layout \<Rightarrow> kernel_heap \<Rightarrow> ((memory_exhausted + u64) \<times> kernel_heap) option" where
  "alloc_layout l h =
     (case class_index (classes h) l of
        None \<Rightarrow> None   \<comment> \<open>panic: no size class for layout\<close>
      | Some i \<Rightarrow> do {
          (r, c, k, s) \<leftarrow> size_class_alloc (classes h ! i) (kvirt h) (kmemory h);
          Some (r, \<lparr>classes = (classes h)[i := c], kvirt = k, kmemory = s\<rparr>) })"

text \<open>The words \<open>value\<close> are those of the object that \<open>ptr::write\<close> stores in the new block.\<close>

definition kalloc_alloc :: "layout \<Rightarrow> u64 list \<Rightarrow> kernel_heap \<Rightarrow> ((memory_exhausted + u64) \<times> kernel_heap) option" where
  "kalloc_alloc l value h = do {
     (r, h) \<leftarrow> alloc_layout l h;
     (case r of
        Inl e \<Rightarrow> Some (Inl e, h)
      | Inr ptr \<Rightarrow> do {
          s \<leftarrow> write_words ptr value (kmemory h);
          Some (Inr ptr, h\<lparr>kmemory := s\<rparr>) }) }"

definition free_layout :: "layout \<Rightarrow> u64 \<Rightarrow> kernel_heap \<Rightarrow> kernel_heap option" where
  "free_layout l ptr h =
     (case class_index (classes h) l of
        None \<Rightarrow> None
      | Some i \<Rightarrow> do {
          (c, s) \<leftarrow> size_class_free ptr (classes h ! i, kmemory h);
          Some (h\<lparr>classes := (classes h)[i := c], kmemory := s\<rparr>) })"

definition global_alloc :: "layout \<Rightarrow> kernel_heap \<Rightarrow> ((alloc_err + u64) \<times> kernel_heap) option" where
  "global_alloc l h = do {
     (r, h) \<leftarrow> alloc_layout l h;
     Some (case r of Inl _ \<Rightarrow> Inl AllocErr | Inr ptr \<Rightarrow> Inr ptr, h) }"

definition global_dealloc :: "u64 \<Rightarrow> layout \<Rightarrow> kernel_heap \<Rightarrow> kernel_heap option" where
  "global_dealloc ptr l h = free_layout l ptr h"

section \<open>Blocks and their owners\<close>

definition blk :: "u64 \<times> nat \<Rightarrow> u64 set" where
  "blk b = {word_of (fst b) i | i. i < snd b div 8}"

definition owners :: "(u64 \<times> nat) list \<Rightarrow> u64 \<Rightarrow> nat" where
  "owners bs w = length (filter (\<lambda>b. w \<in> blk b) bs)"

abbreviation class_size :: "nat \<Rightarrow> nat" where
  "class_size i \<equiv> 2 ^ (i + 4)"

definition free_blocks :: "(nat \<Rightarrow> u64 list) \<Rightarrow> nat \<Rightarrow> (u64 \<times> nat) list" where
  "free_blocks fl i = map (\<lambda>a. (a, class_size i)) (fl i)"

definition all_owners :: "(nat \<Rightarrow> u64 list) \<Rightarrow> (u64 \<times> nat) list \<Rightarrow> u64 \<Rightarrow> nat" where
  "all_owners fl L w = (\<Sum>i<9. owners (free_blocks fl i) w) + owners L w"

definition kalloc_inv :: "u64 list \<Rightarrow> nat \<Rightarrow> (nat \<Rightarrow> u64 list) \<Rightarrow> (u64 \<times> nat) list \<Rightarrow> kernel_heap \<Rightarrow> u64 set \<Rightarrow> bool" where
  "kalloc_inv ps n fl L h V \<longleftrightarrow>
     kvirt_inv ps n [] (kvirt h) (kmemory h) V \<and>
     0 \<notin> V \<and> map sc_size (classes h) = map class_size [0..<9] \<and>
     (\<forall>i < 9. obj_chain (vread (kmemory h)) (sc_free (classes h ! i)) (fl i) \<and>
        (\<forall>a \<in> set (fl i). class_size i dvd unat a)) \<and>
     (\<forall>w. all_owners fl L w \<le> of_bool (w \<in> words V))"

definition upd_class :: "kernel_heap \<Rightarrow> nat \<Rightarrow> size_class \<times> kmem \<Rightarrow> kernel_heap" where
  "upd_class h i cs = h\<lparr>classes := (classes h)[i := fst cs], kmemory := snd cs\<rparr>"

lemma upd_class_simps [simp]:
  "upd_class (upd_class h i cs) i ds = upd_class h i ds"
  "kmemory (upd_class h i cs) = snd cs" "kvirt (upd_class h i cs) = kvirt h"
  "classes (upd_class h i cs) = (classes h)[i := fst cs]"
  by (simp_all add: upd_class_def)

lemma upd_class_self: "i < length (classes h) \<Longrightarrow> upd_class h i (classes h ! i, kmemory h) = h"
  by (simp add: upd_class_def)

lemma owners_simps [simp]:
  "owners [] w = 0" "owners (b # bs) w = of_bool (w \<in> blk b) + owners bs w"
  by (simp_all add: owners_def)

lemma owners_pos: "b \<in> set bs \<Longrightarrow> w \<in> blk b \<Longrightarrow> 1 \<le> owners bs w"
  by (induction bs) auto

lemma free_owners_pos: "a \<in> set (fl i) \<Longrightarrow> w \<in> blk (a, class_size i) \<Longrightarrow> 1 \<le> owners (free_blocks fl i) w"
  by (rule owners_pos [of "(a, class_size i)"]) (auto simp: free_blocks_def)

lemma start_in_blk: "8 \<le> m \<Longrightarrow> a \<in> blk (a, m)"
  by (auto simp: blk_def word_of_def intro!: exI [of _ 0])

lemma class_size_ge: "16 \<le> class_size i"
  using power_increasing [of 4 "i + 4" "2 :: nat"] by simp

lemma start_in_class: "a \<in> blk (a, class_size i)"
  by (rule start_in_blk) (use class_size_ge [of i] in simp)

lemma all_owners_upd:
  assumes "i < 9"
  shows "all_owners (fl(i := xs)) L w + owners (free_blocks fl i) w =
    all_owners fl L w + owners (map (\<lambda>a. (a, class_size i)) xs) w"
proof -
  have "(\<Sum>j<9. owners (free_blocks g j) w) =
      owners (free_blocks g i) w + (\<Sum>j \<in> {..<9} - {i}. owners (free_blocks g j) w)" for g
    using assms by (simp add: sum.remove)
  moreover have "(\<Sum>j \<in> {..<9} - {i}. owners (free_blocks (fl(i := xs)) j) w) =
      (\<Sum>j \<in> {..<9} - {i}. owners (free_blocks fl j) w)"
    by (rule sum.cong) (auto simp: free_blocks_def)
  moreover have "free_blocks (fl(i := xs)) i = map (\<lambda>a. (a, class_size i)) xs" by (simp add: free_blocks_def)
  ultimately show ?thesis by (simp add: all_owners_def)
qed

lemma all_owners_split:
  assumes "i < 9"
  shows "owners (free_blocks fl i) w + owners L w \<le> all_owners fl L w"
    and "j < 9 \<Longrightarrow> j \<noteq> i \<Longrightarrow> owners (free_blocks fl i) w + owners (free_blocks fl j) w \<le> all_owners fl L w"
proof -
  show "owners (free_blocks fl i) w + owners L w \<le> all_owners fl L w"
    using assms member_le_sum [of i "{..<9}" "\<lambda>i. owners (free_blocks fl i) w"] by (simp add: all_owners_def)
  assume "j < 9" "j \<noteq> i"
  then have "(\<Sum>k \<in> {i, j}. owners (free_blocks fl k) w) \<le> (\<Sum>k<9. owners (free_blocks fl k) w)"
    using assms by (intro sum_mono2) auto
  then show "owners (free_blocks fl i) w + owners (free_blocks fl j) w \<le> all_owners fl L w"
    using \<open>j \<noteq> i\<close> by (simp add: all_owners_def)
qed

lemma inv_le_one: "kalloc_inv ps n fl L h V \<Longrightarrow> all_owners fl L w \<le> 1"
  unfolding kalloc_inv_def by (elim conjE allE [of _ w]) (auto split: split_of_bool_asm)

lemma inv_words: "kalloc_inv ps n fl L h V \<Longrightarrow> 1 \<le> all_owners fl L w \<Longrightarrow> w \<in> words V"
  by (auto simp: kalloc_inv_def dest: spec [of _ w] split: split_of_bool_asm)

lemma free_in_words:
  assumes "kalloc_inv ps n fl L h V" "i < 9" "a \<in> set (fl i)" "w \<in> blk (a, class_size i)"
  shows "w \<in> words V"
  using inv_words [OF assms(1)] free_owners_pos [of a fl i w, OF assms(3,4)]
    all_owners_split(1) [OF assms(2), of fl w L] by simp

lemma live_in_words:
  assumes "kalloc_inv ps n fl L h V" "b \<in> set L" "w \<in> blk b"
  shows "w \<in> words V"
  using inv_words [OF assms(1)] owners_pos [OF assms(2,3)] by (simp add: all_owners_def)

lemma free_not_live:
  assumes "kalloc_inv ps n fl L h V" "i < 9" "a \<in> set (fl i)" "w \<in> blk (a, class_size i)" "b \<in> set L"
  shows "w \<notin> blk b"
  using inv_le_one [OF assms(1), of w] free_owners_pos [of a fl i w, OF assms(3,4)] owners_pos [OF assms(5), of w]
    all_owners_split(1) [OF assms(2), of fl w L] by auto

lemma free_disjoint:
  assumes "kalloc_inv ps n fl L h V" "i < 9" "j < 9" "i \<noteq> j" "a \<in> set (fl i)" "b \<in> set (fl j)"
  shows "a \<noteq> b"
proof
  assume "a = b"
  have "1 \<le> owners (free_blocks fl i) a" using free_owners_pos [of a fl i a] assms(5) start_in_class [of a i] by simp
  moreover have "1 \<le> owners (free_blocks fl j) a"
    using free_owners_pos [of b fl j a] assms(6) start_in_class [of b j] \<open>a = b\<close> by simp
  ultimately show False
    using inv_le_one [OF assms(1), of a] all_owners_split(2) [OF assms(2), of j fl a L] assms(3,4) by simp
qed

lemma owners_distinct:
  assumes "\<And>w. owners (map (\<lambda>a. (a, class_size i)) xs) w \<le> 1"
  shows "distinct xs"
  using assms
proof (induction xs)
  case (Cons a xs)
  have "owners (map (\<lambda>a. (a, class_size i)) xs) w \<le> 1" for w using Cons.prems [of w] by simp
  moreover have "a \<notin> set xs"
  proof
    assume "a \<in> set xs"
    then have "1 \<le> owners (map (\<lambda>a. (a, class_size i)) xs) a"
      using owners_pos [of "(a, class_size i)"] start_in_class by auto
    then show False using Cons.prems [of a] start_in_class [of a i] by simp
  qed
  ultimately show ?case using Cons.IH by simp
qed simp

lemma free_distinct:
  assumes "kalloc_inv ps n fl L h V" "i < 9"
  shows "distinct (fl i)"
proof (rule owners_distinct [of i])
  fix w show "owners (map (\<lambda>a. (a, class_size i)) (fl i)) w \<le> 1"
    using inv_le_one [OF assms(1), of w] all_owners_split(1) [OF assms(2), of fl w L]
    by (simp add: free_blocks_def)
qed

lemma no_null_word:
  assumes "kalloc_inv ps n fl L h V" "w \<in> words V"
  shows "w \<noteq> 0"
proof
  assume "w = 0"
  with assms(2) obtain v where v: "v \<in> V" "in_page v 0" by (auto simp: words_def)
  have "v AND 0xfff = 0" using assms(1) v(1) kspace_aligned by (auto simp: kalloc_inv_def kvirt_inv_def)
  then have "v = 0" using page_of_word v(2) by force
  then show False using v(1) assms(1) by (auto simp: kalloc_inv_def)
qed

lemma class_len: "kalloc_inv ps n fl L h V \<Longrightarrow> length (classes h) = 9"
  by (auto simp: kalloc_inv_def dest: arg_cong [of _ _ length])

lemma class_sc_size: "kalloc_inv ps n fl L h V \<Longrightarrow> i < 9 \<Longrightarrow> sc_size (classes h ! i) = class_size i"
proof -
  assume a: "kalloc_inv ps n fl L h V" "i < 9"
  then have "map sc_size (classes h) ! i = map class_size [0..<9] ! i" by (simp add: kalloc_inv_def)
  then show ?thesis using a class_len [OF a(1)] by simp
qed

lemma map_size_upd:
  assumes "map sc_size cs = map class_size [0..<9]" "i < 9" "sc_size c = class_size i"
  shows "map sc_size (cs[i := c]) = map class_size [0..<9]"
proof -
  have "map sc_size (cs[i := c]) = (map class_size [0..<9])[i := class_size i]"
    using assms by (simp add: map_update)
  also have "\<dots> = map class_size [0..<9]"
    using assms(2) list_update_id [of "map class_size [0..<9]" i] by simp
  finally show ?thesis .
qed

lemma inv_weaken:
  assumes "kalloc_inv ps n fl L h V" "\<And>w. owners L' w \<le> owners L w"
  shows "kalloc_inv ps n fl L' h V"
proof -
  have "all_owners fl L' w \<le> all_owners fl L w" for w using assms(2) [of w] by (simp add: all_owners_def)
  then show ?thesis using assms(1) le_trans unfolding kalloc_inv_def by blast
qed

text \<open>Every operation on the heap comes down to this: the memory changes in the words \<open>A\<close> only,
  which belong to no free object of another class, and one class gets a new list.\<close>

lemma inv_update:
  assumes inv: "kalloc_inv ps n fl L h V" and i: "i < 9" and c: "sc_size c = class_size i"
    and v: "kvirt_inv ps n [] (kvirt h) s V" "obj_chain (vread s) (sc_free c) xs"
      "\<forall>b \<in> words V - A. vread s b = vread (kmemory h) b"
    and A: "\<And>j a. j < 9 \<Longrightarrow> j \<noteq> i \<Longrightarrow> a \<in> set (fl j) \<Longrightarrow> a \<notin> A"
    and al: "\<forall>a \<in> set xs. class_size i dvd unat a"
    and own: "\<And>w. all_owners (fl(i := xs)) L' w \<le> all_owners fl L w"
  shows "kalloc_inv ps n (fl(i := xs)) L' (upd_class h i (c, s)) V"
  unfolding kalloc_inv_def
proof (intro conjI allI impI)
  fix j :: nat assume j: "j < 9"
  have len: "length (classes h) = 9" by (rule class_len [OF inv])
  have old: "obj_chain (vread (kmemory h)) (sc_free (classes h ! j)) (fl j)" "\<forall>a \<in> set (fl j). class_size j dvd unat a"
    using inv j by (auto simp: kalloc_inv_def)
  have "obj_chain (vread s) (sc_free (classes h ! j)) (fl j)" if "j \<noteq> i"
  proof (rule kw.chain_kept [OF old(1) _ v(3)])
    show "set (fl j) \<subseteq> words V - A"
      using A [OF j that] free_in_words [OF inv j _ start_in_class] by auto
  qed
  then show "obj_chain (vread (kmemory (upd_class h i (c, s))))
      (sc_free (classes (upd_class h i (c, s)) ! j)) ((fl(i := xs)) j)"
    using v(2) i len by (cases "j = i") simp_all
  show "\<forall>a \<in> set ((fl(i := xs)) j). class_size j dvd unat a" using al old(2) by simp
next
  fix w show "all_owners (fl(i := xs)) L' w \<le> of_bool (w \<in> words V)"
    using own [of w] inv le_trans unfolding kalloc_inv_def by blast
qed (use inv v(1) map_size_upd [OF _ i c] in \<open>auto simp: kalloc_inv_def\<close>)

lemma kvirt_inv_words:
  assumes "kvirt_inv ps n [] k s V" "kspace ps (pages_from (page_ptr k) n) s' V"
  shows "kvirt_inv ps n [] k s' V"
  using assms by (simp add: kvirt_inv_def)

lemma class_pop:
  assumes inv: "kalloc_inv ps n fl L h V" and i: "i < 9" and fl: "fl i = a # xs"
  shows "\<exists>link s'. free_object_take (sc_free (classes h ! i)) (kmemory h) = Some (Some a, link, s') \<and>
     kalloc_inv ps n (fl(i := xs)) ((a, class_size i) # L)
       (upd_class h i ((classes h ! i)\<lparr>sc_free := link\<rparr>, s')) V \<and>
     (\<forall>b \<in> words V - {a}. vread s' b = vread (kmemory h) b)"
proof -
  let ?s = "kmemory h" let ?us = "pages_from (page_ptr (kvirt h)) n"
  have h: "kvirt_inv ps n [] (kvirt h) ?s V" "kspace ps ?us ?s V"
    "obj_chain (vread ?s) (sc_free (classes h ! i)) (a # xs)"
    using inv i fl [symmetric] by (simp_all add: kalloc_inv_def kvirt_inv_def del: obj_chain.simps)
  have sub: "set (a # xs) \<subseteq> words V" using free_in_words [OF inv i _ start_in_class] fl by auto
  have "a \<notin> set xs" using free_distinct [OF inv i] fl by simp
  from kw.pop_object [OF h(2,3) sub this] obtain x s' where
    s': "sc_free (classes h ! i) = Some a" "vread ?s a = Some x" "vwrite a 0 ?s = Some s'" "kspace ps ?us s' V"
      "obj_chain (vread s') (if x = 0 then None else Some x) xs" "\<forall>b \<in> words V - {a}. vread s' b = vread ?s b"
    by blast
  let ?c = "(classes h ! i)\<lparr>sc_free := if x = 0 then None else Some x\<rparr>"
  have own: "all_owners (fl(i := xs)) ((a, class_size i) # L) w \<le> all_owners fl L w" for w
    using all_owners_upd [OF i, of fl xs L w] fl by (simp add: all_owners_def free_blocks_def)
  have "kalloc_inv ps n (fl(i := xs)) ((a, class_size i) # L) (upd_class h i (?c, s')) V"
  proof (rule inv_update [OF inv i _ kvirt_inv_words [OF h(1) s'(4)] _ s'(6) _ _ own])
    show "b \<notin> {a}" if "j < 9" "j \<noteq> i" "b \<in> set (fl j)" for j b
      using free_disjoint [OF inv i that(1)] that fl by auto
    show "\<forall>b \<in> set xs. class_size i dvd unat b" using inv i fl by (auto simp: kalloc_inv_def)
  qed (use s'(5) class_sc_size [OF inv i] in simp_all)
  then show ?thesis using s'(1-3,6) by (auto simp: free_object_take_def take_next_def)
qed

lemma class_push:
  assumes inv: "kalloc_inv ps n fl ((a, m) # L) h V" and i: "i < 9"
    and m: "class_size i \<le> m" and al: "class_size i dvd unat a"
  shows "\<exists>cs. add_free a (classes h ! i, kmemory h) = Some cs \<and>
     kalloc_inv ps n (fl(i := a # fl i)) L (upd_class h i cs) V \<and>
     sc_size (fst cs) = class_size i \<and> (\<forall>b \<in> words V - {a}. vread (snd cs) b = vread (kmemory h) b)"
proof -
  let ?s = "kmemory h" let ?us = "pages_from (page_ptr (kvirt h)) n" let ?c = "classes h ! i"
  have h: "kvirt_inv ps n [] (kvirt h) ?s V" "kspace ps ?us ?s V" "obj_chain (vread ?s) (sc_free ?c) (fl i)"
    using inv i by (auto simp: kalloc_inv_def kvirt_inv_def)
  have m8: "8 \<le> m" using m class_size_ge [of i] by simp
  have aw: "a \<in> words V" using live_in_words [OF inv, of "(a, m)" a] start_in_blk [OF m8] by simp
  have nf: "a \<noteq> b" if "j < 9" "b \<in> set (fl j)" for j b
    using free_not_live [OF inv that start_in_class, of "(a, m)"] start_in_blk [OF m8, of a] by auto
  have "set (fl i) \<subseteq> words V - {a}"
    using nf [OF i] free_in_words [OF inv i _ start_in_class] by auto
  from kw.push_object [OF h(2) aw no_null_word [OF inv aw] h(3) this] obtain s' where
    s': "vwrite a (link_word (sc_free ?c)) ?s = Some s'" "kspace ps ?us s' V"
      "obj_chain (vread s') (Some a) (a # fl i)" "\<forall>b \<in> words V - {a}. vread s' b = vread ?s b" by blast
  have "blk (a, class_size i) \<subseteq> blk (a, m)"
    using div_le_mono [OF m, of 8] by (auto simp: blk_def intro: less_le_trans)
  then have own: "all_owners (fl(i := a # fl i)) L w \<le> all_owners fl ((a, m) # L) w" for w
    using all_owners_upd [OF i, of fl "a # fl i" L w]
    by (auto simp: all_owners_def free_blocks_def split: split_of_bool)
  have "kalloc_inv ps n (fl(i := a # fl i)) L (upd_class h i (?c\<lparr>sc_free := Some a\<rparr>, s')) V"
  proof (rule inv_update [OF inv i _ kvirt_inv_words [OF h(1) s'(2)] _ s'(4) _ _ own])
    show "b \<notin> {a}" if "j < 9" "j \<noteq> i" "b \<in> set (fl j)" for j b using nf that by auto
    show "\<forall>b \<in> set (a # fl i). class_size i dvd unat b" using inv i al by (auto simp: kalloc_inv_def)
  qed (use s'(3) class_sc_size [OF inv i] in simp_all)
  then show ?thesis
    using s'(1,4) class_sc_size [OF inv i] by (intro exI [of _ "(?c\<lparr>sc_free := Some a\<rparr>, s')"]) (simp add: add_free_def)
qed

section \<open>Carving a page\<close>

lemma inv_memory:
  assumes inv: "kalloc_inv ps n fl L h V" and v: "kvirt_inv ps' n' [] k s V'" "V \<subseteq> V'" "0 \<notin> V'"
    and mem: "\<forall>b \<in> words V - A. vread s b = vread (kmemory h) b"
    and A: "\<And>j a. j < 9 \<Longrightarrow> a \<in> set (fl j) \<Longrightarrow> a \<notin> A"
    and own: "\<And>w. all_owners fl L' w \<le> of_bool (w \<in> words V')"
  shows "kalloc_inv ps' n' fl L' (h\<lparr>kvirt := k, kmemory := s\<rparr>) V'"
  unfolding kalloc_inv_def
proof (intro conjI allI impI)
  fix j :: nat assume j: "j < 9"
  have old: "obj_chain (vread (kmemory h)) (sc_free (classes h ! j)) (fl j)" "\<forall>a \<in> set (fl j). class_size j dvd unat a"
    using inv j by (auto simp: kalloc_inv_def)
  have "set (fl j) \<subseteq> words V - A" using A [OF j] free_in_words [OF inv j _ start_in_class] by auto
  from kw.chain_kept [OF old(1) this mem]
  show "obj_chain (vread (kmemory (h\<lparr>kvirt := k, kmemory := s\<rparr>)))
      (sc_free (classes (h\<lparr>kvirt := k, kmemory := s\<rparr>) ! j)) (fl j)" by simp
  show "\<forall>a \<in> set (fl j). class_size j dvd unat a" by (rule old(2))
qed (use inv v own in \<open>auto simp: kalloc_inv_def\<close>)

lemma blk_page: "blk (u, 4096) = {w. in_page u w}"
  by (auto simp: blk_def in_page_def)

lemma new_page:
  assumes inv: "kalloc_inv (p # ps) (Suc n) fl L h V"
  shows "(\<exists>u k s' j. kvirt_alloc (kvirt h) (kmemory h) = Some (Inr u, k, s') \<and>
       kalloc_inv (drop j ps) n fl ((u, 4096) # L) (h\<lparr>kvirt := k, kmemory := s'\<rparr>) (insert u V) \<and>
       u AND 0xfff = 0 \<and> (\<forall>b \<in> words V. vread s' b = vread (kmemory h) b)) \<or>
     (\<exists>k s'. kvirt_alloc (kvirt h) (kmemory h) = Some (Inl MemoryExhausted, k, s') \<and> length ps < 3 \<and>
       kalloc_inv [p] n fl L (h\<lparr>kvirt := k, kmemory := s'\<rparr>) V \<and>
       (\<forall>b \<in> words V. vread s' b = vread (kmemory h) b))"
proof -
  have v: "kvirt_inv (p # ps) (Suc n) [] (kvirt h) (kmemory h) V" and V0: "0 \<notin> V"
    and own: "\<And>w. all_owners fl L w \<le> of_bool (w \<in> words V)" using inv by (auto simp: kalloc_inv_def)
  let ?u = "page_ptr (kvirt h)"
  from kvirt_alloc_new [OF v] show ?thesis
  proof (elim disjE exE conjE)
    fix k s' j
    assume a: "kvirt_alloc (kvirt h) (kmemory h) = Some (Inr ?u, k, s')"
      "kvirt_inv (drop j ps) n [] k s' (insert ?u V)" "?u \<notin> V" "\<forall>b \<in> words V. vread s' b = vread (kmemory h) b"
    have al: "x AND 0xfff = 0" if "x \<in> insert ?u V" for x
      using a(2) that kspace_aligned by (auto simp: kvirt_inv_def)
    have "?u \<noteq> 0" using v by (auto simp: kvirt_inv_def kspace_def vacant_def)
    moreover have "all_owners fl ((?u, 4096) # L) w \<le> of_bool (w \<in> words (insert ?u V))" for w
    proof -
      have "w \<notin> words V" if u: "in_page ?u w"
      proof
        assume "w \<in> words V"
        then obtain x where x: "x \<in> V" "in_page x w" by (auto simp: words_def)
        then have "x = ?u" using page_of_word [of x w] page_of_word [of ?u w] al u by simp
        then show False using x(1) a(3) by simp
      qed
      then show ?thesis using own [of w] by (auto simp: all_owners_def blk_page words_def split: split_of_bool_asm)
    qed
    ultimately have "kalloc_inv (drop j ps) n fl ((?u, 4096) # L) (h\<lparr>kvirt := k, kmemory := s'\<rparr>) (insert ?u V)"
      by (intro inv_memory [OF inv a(2), of "{}"]) (use V0 a(4) in auto)
    moreover have "?u AND 0xfff = 0" using al by simp
    ultimately show ?thesis using a(1,4) by blast
  next
    fix k s'
    assume a: "kvirt_alloc (kvirt h) (kmemory h) = Some (Inl MemoryExhausted, k, s')" "length ps < 3"
      "kvirt_inv [p] n [] k s' V" "\<forall>b \<in> words V. vread s' b = vread (kmemory h) b"
    then have "kalloc_inv [p] n fl L (h\<lparr>kvirt := k, kmemory := s'\<rparr>) V"
      by (intro inv_memory [OF inv a(3), of "{}" L]) (use V0 own in auto)
    then show ?thesis using a by blast
  qed
qed

lemma word_of_shift: "8 dvd sz \<Longrightarrow> word_of (a + of_nat sz) i = word_of a (sz div 8 + i)"
  by (auto simp: word_of_def dvd_def algebra_simps)

lemma owners_split:
  assumes "8 dvd sz" "sz + m \<le> 4096"
  shows "owners ((a, sz) # (a + of_nat sz, m) # L) w \<le> owners ((a, sz + m) # L) w"
proof -
  have sz: "sz div 8 + m div 8 = (sz + m) div 8" using assms(1) by (simp add: div_plus_div_distrib_dvd_left)
  have le: "(sz + m) div 8 \<le> 512" using div_le_mono [OF assms(2), of 8] by simp
  have "w \<notin> blk (a + of_nat sz, m)" if "w \<in> blk (a, sz)"
  proof
    assume "w \<in> blk (a + of_nat sz, m)"
    with that obtain i j where ij: "i < sz div 8" "j < m div 8" "word_of a i = word_of a (sz div 8 + j)"
      by (auto simp: blk_def word_of_shift [OF assms(1)])
    then have "i = sz div 8 + j" by (intro word_of_inj [OF ij(3)]) (use sz le in linarith)+
    then show False using ij(1) by simp
  qed
  moreover have "blk (a + of_nat sz, m) \<subseteq> blk (a, sz + m)"
  proof
    fix x assume "x \<in> blk (a + of_nat sz, m)"
    then obtain j where "j < m div 8" "x = word_of a (sz div 8 + j)"
      by (auto simp: blk_def word_of_shift [OF assms(1)])
    then show "x \<in> blk (a, sz + m)" using sz by (auto simp: blk_def intro!: exI [of _ "sz div 8 + j"])
  qed
  moreover have "blk (a, sz) \<subseteq> blk (a, sz + m)"
    using sz by (auto simp: blk_def intro: trans_less_add1)
  ultimately show ?thesis by (auto split: split_of_bool)
qed

primrec stride :: "u64 \<Rightarrow> nat \<Rightarrow> nat \<Rightarrow> u64 list" where
  "stride a sz 0 = []"
| "stride a sz (Suc k) = a # stride (a + of_nat sz) sz k"

lemma length_stride: "length (stride a sz k) = k"
  by (induction k arbitrary: a) simp_all

lemma stride_map: "map (\<lambda>i. a + of_nat (i * sz)) [0..<k] = stride a sz k"
proof (induction k arbitrary: a)
  case (Suc k)
  have "map (\<lambda>i. a + of_nat (i * sz)) [0..<Suc k] = a # map (\<lambda>i. (a + of_nat sz) + of_nat (i * sz)) [0..<k]"
    by (subst upt_conv_Cons) (simp_all add: map_Suc_upt [symmetric] comp_def algebra_simps del: map_Suc_upt upt_Suc)
  then show ?case using Suc by simp
qed simp

lemma stride_dvd:
  fixes a :: u64
  assumes "sz dvd 2 ^ 64" "sz dvd unat a"
  shows "sz dvd unat (a + of_nat sz)"
proof -
  have "unat (a + of_nat sz) = (unat a + sz mod 2 ^ 64) mod 2 ^ 64"
    by (simp add: unat_word_ariths unat_of_nat)
  then show ?thesis using assms by (simp add: dvd_mod)
qed

lemma class_size_dvd: "i < 9 \<Longrightarrow> class_size i dvd (2 :: nat) ^ 64" "8 dvd class_size i"
proof -
  show "class_size i dvd (2 :: nat) ^ 64" if "i < 9" using that by (intro le_imp_power_dvd) simp
  have "(2 :: nat) ^ 3 dvd 2 ^ (i + 4)" by (rule le_imp_power_dvd) simp
  then show "8 dvd class_size i" by simp
qed

lemma carve:
  assumes inv: "kalloc_inv ps n fl ((a, k * class_size i) # L) h V" and i: "i < 9"
    and al: "class_size i dvd unat a" and k: "k * class_size i \<le> 4096"
  shows "\<exists>cs. fold_opt add_free (stride a (class_size i) k) (classes h ! i, kmemory h) = Some cs \<and>
     kalloc_inv ps n (fl(i := rev (stride a (class_size i) k) @ fl i)) L (upd_class h i cs) V \<and>
     sc_size (fst cs) = class_size i \<and>
     (\<forall>b \<in> words V - blk (a, k * class_size i). vread (snd cs) b = vread (kmemory h) b)"
  using inv al k
proof (induction k arbitrary: a fl h)
  case 0
  have "kalloc_inv ps n fl L h V" by (rule inv_weaken [OF 0(1)]) simp
  moreover have self: "upd_class h i (classes h ! i, kmemory h) = h"
    by (rule upd_class_self) (use class_len [OF 0(1)] i in simp)
  ultimately have "kalloc_inv ps n fl L (upd_class h i (classes h ! i, kmemory h)) V" by (simp only: self)
  then show ?case using class_sc_size [OF 0(1) i] by simp
next
  case (Suc k)
  let ?sz = "class_size i" let ?a = "a + of_nat ?sz"
  have sp: "kalloc_inv ps n fl ((a, ?sz) # (?a, k * ?sz) # L) h V"
    by (rule inv_weaken [OF Suc.prems(1)]) (use owners_split [of ?sz "k * ?sz"] class_size_dvd(2) Suc.prems(3) in simp)
  from class_push [OF sp i order_refl Suc.prems(2)] obtain c where
    c: "add_free a (classes h ! i, kmemory h) = Some c"
      "kalloc_inv ps n (fl(i := a # fl i)) ((?a, k * ?sz) # L) (upd_class h i c) V"
      "sc_size (fst c) = ?sz" "\<forall>b \<in> words V - {a}. vread (snd c) b = vread (kmemory h) b" by blast
  have hi: "(classes (upd_class h i c) ! i, kmemory (upd_class h i c)) = c"
    using class_len [OF Suc.prems(1)] i by simp
  have k': "k * ?sz \<le> 4096" using Suc.prems(3) by simp
  from Suc.IH [OF c(2) stride_dvd [OF class_size_dvd(1) [OF i] Suc.prems(2)] k'] obtain d where
    d: "fold_opt add_free (stride ?a ?sz k) c = Some d"
      "kalloc_inv ps n ((fl(i := a # fl i))(i := rev (stride ?a ?sz k) @ (fl(i := a # fl i)) i)) L
         (upd_class (upd_class h i c) i d) V"
      "sc_size (fst d) = ?sz" "\<forall>b \<in> words V - blk (?a, k * ?sz). vread (snd d) b = vread (kmemory (upd_class h i c)) b"
    unfolding hi by blast
  have sub: "blk (?a, k * ?sz) \<subseteq> blk (a, Suc k * ?sz)" "a \<in> blk (a, Suc k * ?sz)"
    using word_of_shift [OF class_size_dvd(2), of a i] class_size_dvd(2) [of i] start_in_blk [of "Suc k * ?sz" a]
      class_size_ge [of i]
    by (auto simp: blk_def div_plus_div_distrib_dvd_left)
  have "\<forall>b \<in> words V - blk (a, Suc k * ?sz). vread (snd d) b = vread (kmemory h) b"
  proof
    fix b assume b: "b \<in> words V - blk (a, Suc k * ?sz)"
    then have "b \<in> words V - blk (?a, k * ?sz)" "b \<in> words V - {a}" using sub by blast+
    then show "vread (snd d) b = vread (kmemory h) b" using c(4) d(4) by simp
  qed
  moreover have "kalloc_inv ps n (fl(i := rev (stride a ?sz (Suc k)) @ fl i)) L (upd_class h i d) V"
    using d(2) by (simp only: upd_class_simps fun_upd_upd fun_upd_same stride.simps rev.simps append.simps append_assoc)
  ultimately show ?case using c(1) d(1,3) by (intro exI [of _ d]) (simp only: stride.simps fold_opt.simps bind.bind_lunit simp_thms)
qed

section \<open>Allocation from a class\<close>

definition live :: "(u64 \<times> nat) list \<Rightarrow> u64 set" where
  "live L = (\<Union>b \<in> set L. blk b)"

definition put_class :: "kernel_heap \<Rightarrow> nat \<Rightarrow> size_class \<Rightarrow> page_allocator \<Rightarrow> kmem \<Rightarrow> kernel_heap" where
  "put_class h i c k s = \<lparr>classes = (classes h)[i := c], kvirt = k, kmemory = s\<rparr>"

lemma put_class_upd:
  "put_class h i c (kvirt h) s = upd_class h i (c, s)"
  "put_class h i c k s = upd_class (h\<lparr>kvirt := k, kmemory := t\<rparr>) i (c, s)"
  by (cases h, simp add: put_class_def upd_class_def)+

lemma fold_opt_map: "fold_opt f (map g xs) s = fold_opt (\<lambda>x. f (g x)) xs s"
  by (induction xs arbitrary: s) (auto split: Option.bind_split)

lemma class_size_4096: "i < 9 \<Longrightarrow> 2 ^ (8 - i) * class_size i = (4096 :: nat)"
  by (simp add: power_add [symmetric] flip: mult.assoc)

lemma page_offsets_stride:
  assumes "i < 9"
  shows "fold_opt (\<lambda>offset. add_free (p + of_nat offset)) (page_offsets (class_size i)) cs =
    fold_opt add_free (stride p (class_size i) (2 ^ (8 - i))) cs"
proof -
  let ?sz = "class_size i"
  have "(unat PAGE_SIZE + ?sz - 1) div ?sz = (2 ^ (8 - i) * ?sz + (?sz - 1)) div ?sz"
    using class_size_4096 [OF assms] class_size_ge [of i] by (simp add: PAGE_SIZE_def)
  also have "\<dots> = 2 ^ (8 - i)" by (subst div_mult_self3) simp_all
  finally show ?thesis
    by (simp only: page_offsets_def fold_opt_map stride_map [symmetric])
qed

lemma live_words: "kalloc_inv ps n fl L h V \<Longrightarrow> live L \<subseteq> words V"
  using live_in_words by (fastforce simp: live_def)

lemma free_object_take_None: "free_object_take None s = Some (None, None, s)"
  by (simp add: free_object_take_def)

lemma alloc_uninit_reuse:
  assumes inv: "kalloc_inv ps n fl L h V" and i: "i < 9" and fl: "fl i = a # xs"
  shows "\<exists>c s'. alloc_uninitialized (classes h ! i) (kvirt h) (kmemory h) = Some (Inr a, c, kvirt h, s') \<and>
     sc_size c = class_size i \<and> (\<forall>b \<in> live L. vread s' b = vread (kmemory h) b) \<and> class_size i dvd unat a \<and>
     kalloc_inv ps n (fl(i := xs)) ((a, class_size i) # L) (upd_class h i (c, s')) V"
proof -
  from class_pop [OF assms] obtain link s' where
    a: "free_object_take (sc_free (classes h ! i)) (kmemory h) = Some (Some a, link, s')"
      "kalloc_inv ps n (fl(i := xs)) ((a, class_size i) # L) (upd_class h i ((classes h ! i)\<lparr>sc_free := link\<rparr>, s')) V"
      "\<forall>b \<in> words V - {a}. vread s' b = vread (kmemory h) b" by blast
  have "a \<notin> live L" using free_not_live [OF inv i _ start_in_class] fl by (auto simp: live_def)
  then have "\<forall>b \<in> live L. vread s' b = vread (kmemory h) b" using a(3) live_words [OF inv] by auto
  moreover have "class_size i dvd unat a" using inv i fl by (auto simp: kalloc_inv_def)
  ultimately show ?thesis using a(1,2) class_sc_size [OF inv i] by (auto simp: alloc_uninitialized_def)
qed

lemma alloc_uninit_new:
  assumes inv: "kalloc_inv ps (Suc n) fl L h V" and i: "i < 9" and fl: "fl i = []"
    and k: "kvirt_alloc (kvirt h) (kmemory h) = Some (Inr u, k, s1)"
    and inv1: "kalloc_inv qs n fl ((u, 4096) # L) (h\<lparr>kvirt := k, kmemory := s1\<rparr>) W"
    and u: "u AND 0xfff = 0" and keep: "\<forall>b \<in> words V. vread s1 b = vread (kmemory h) b"
  shows "\<exists>a c s' fl'. alloc_uninitialized (classes h ! i) (kvirt h) (kmemory h) = Some (Inr a, c, k, s') \<and>
     sc_size c = class_size i \<and> (\<forall>b \<in> live L. vread s' b = vread (kmemory h) b) \<and> class_size i dvd unat a \<and>
     kalloc_inv qs n fl' ((a, class_size i) # L) (put_class h i c k s') W"
proof -
  let ?sz = "class_size i" let ?h = "h\<lparr>kvirt := k, kmemory := s1\<rparr>" let ?n = "2 ^ (8 - i)"
  have nf: "sc_free (classes h ! i) = None" using inv i fl by (auto simp: kalloc_inv_def dest: spec [of _ i])
  have "4096 dvd unat u"
  proof -
    have "take_bit 12 u = 0" using u by (simp add: take_bit_eq_mask masks)
    then have "take_bit 12 (unat u) = 0" by (metis unsigned_take_bit_eq unsigned_0)
    then show ?thesis by (simp add: take_bit_eq_mod dvd_eq_mod_eq_0)
  qed
  moreover have "?sz dvd 4096" using class_size_4096 [OF i] by (metis dvd_triv_right)
  ultimately have al: "?sz dvd unat u" using dvd_trans by blast
  from carve [of qs n fl u ?n i L ?h W] inv1 i al class_size_4096 [OF i] obtain c where
    c: "fold_opt add_free (stride u ?sz ?n) (classes h ! i, s1) = Some c"
      "kalloc_inv qs n (fl(i := rev (stride u ?sz ?n) @ fl i)) L (upd_class ?h i c) W" "sc_size (fst c) = ?sz"
      "\<forall>b \<in> words W - blk (u, 4096). vread (snd c) b = vread s1 b" by auto
  have "stride u ?sz ?n \<noteq> []" using length_stride [of u ?sz ?n] by fastforce
  then obtain a xs where ax: "rev (stride u ?sz ?n) @ fl i = a # xs" using fl by (cases "rev (stride u ?sz ?n)") auto
  have hi: "classes (upd_class ?h i c) ! i = fst c" using class_len [OF inv] i by simp
  from class_pop [OF c(2) i, of a xs] obtain link s' where
    p: "free_object_take (sc_free (fst c)) (snd c) = Some (Some a, link, s')"
      "kalloc_inv qs n ((fl(i := a # xs))(i := xs)) ((a, ?sz) # L) (upd_class ?h i ((fst c)\<lparr>sc_free := link\<rparr>, s')) W"
      "\<forall>b \<in> words W - {a}. vread s' b = vread (snd c) b"
    unfolding ax hi by auto
  have "vread s' b = vread (kmemory h) b" if b: "b \<in> live L" for b
  proof -
    have "b \<in> words V" "b \<in> words W" using live_words [OF inv] live_words [OF c(2)] b by auto
    moreover have "b \<notin> blk (u, 4096)"
    proof -
      obtain x where x: "x \<in> set L" "b \<in> blk x" using b by (auto simp: live_def)
      then have "1 \<le> owners L b" using owners_pos by blast
      then show ?thesis using inv_le_one [OF inv1, of b] by (auto simp: all_owners_def)
    qed
    moreover have "b \<noteq> a"
      using free_not_live [OF c(2) i _ start_in_class, of a] ax b by (auto simp: live_def)
    ultimately show ?thesis using p(3) c(4) keep by simp
  qed
  moreover have "?sz dvd unat a" using c(2) i ax by (auto simp: kalloc_inv_def)
  moreover have "alloc_uninitialized (classes h ! i) (kvirt h) (kmemory h) = Some (Inr a, (fst c)\<lparr>sc_free := link\<rparr>, k, s')"
  proof -
    have self: "(classes h ! i)\<lparr>sc_free := None\<rparr> = classes h ! i" using nf by simp
    obtain c1 c2 where c12: "c = (c1, c2)" by fastforce
    then show ?thesis
      using nf k c(1) p(1) class_sc_size [OF inv i] page_offsets_stride [OF i, of u] class_size_ge [of i]
      by (simp add: alloc_uninitialized_def free_object_take_None self)
  qed
  moreover have "kalloc_inv qs n (fl(i := xs)) ((a, ?sz) # L) (put_class h i ((fst c)\<lparr>sc_free := link\<rparr>) k s') W"
    using p(2) by (simp only: put_class_upd(2) [of h i _ k s' s1] fun_upd_upd)
  moreover have "sc_size ((fst c)\<lparr>sc_free := link\<rparr>) = ?sz" using c(3) by simp
  ultimately show ?thesis by blast
qed

lemma alloc_uninit:
  assumes inv: "kalloc_inv ps (Suc n) fl L h V" and i: "i < 9"
  shows "\<exists>r c k s'. alloc_uninitialized (classes h ! i) (kvirt h) (kmemory h) = Some (r, c, k, s') \<and>
     sc_size c = class_size i \<and> (\<forall>b \<in> live L. vread s' b = vread (kmemory h) b) \<and>
     (case r of
        Inl _ \<Rightarrow> fl i = [] \<and> length ps < 4 \<and>
          (\<exists>ps' n'. n \<le> n' \<and> kalloc_inv ps' n' fl L (put_class h i c k s') V)
      | Inr a \<Rightarrow> class_size i dvd unat a \<and> (\<exists>ps' n' fl' V'. n \<le> n' \<and>
          kalloc_inv ps' n' fl' ((a, class_size i) # L) (put_class h i c k s') V'))"
proof (cases "fl i")
  case (Cons a xs)
  from alloc_uninit_reuse [OF inv i Cons] obtain c s' where
    a: "alloc_uninitialized (classes h ! i) (kvirt h) (kmemory h) = Some (Inr a, c, kvirt h, s')"
      "sc_size c = class_size i" "\<forall>b \<in> live L. vread s' b = vread (kmemory h) b" "class_size i dvd unat a"
      "kalloc_inv ps (Suc n) (fl(i := xs)) ((a, class_size i) # L) (upd_class h i (c, s')) V" by blast
  have "\<exists>ps' n' fl' V'. n \<le> n' \<and> kalloc_inv ps' n' fl' ((a, class_size i) # L) (put_class h i c (kvirt h) s') V'"
    using a(5) le_SucI [OF order_refl, of n] unfolding put_class_upd(1) by blast
  then show ?thesis
    using a(1-4) by (intro exI [of _ "Inr a"] exI [of _ c] exI [of _ "kvirt h"] exI [of _ s']) simp
next
  case Nil
  have len: "i < length (classes h)" using class_len [OF inv] i by simp
  have nf: "sc_free (classes h ! i) = None" using inv i Nil by (auto simp: kalloc_inv_def dest: spec [of _ i])
  then have self: "(classes h ! i)\<lparr>sc_free := None\<rparr> = classes h ! i" by simp
  have put: "put_class h i (classes h ! i) k s = h\<lparr>kvirt := k, kmemory := s\<rparr>" for k s
    using len by (cases h) (simp add: put_class_def)
  have self_heap: "h\<lparr>kvirt := kvirt h, kmemory := kmemory h\<rparr> = h" by simp
  note err = alloc_uninitialized_def [of "classes h ! i"] nf free_object_take_None self
  show ?thesis
  proof (cases ps)
    case Nil': Nil
    have "kvirt_alloc (kvirt h) (kmemory h) = Some (Inl MemoryExhausted, kvirt h, kmemory h)"
      using kvirt_alloc_empty inv Nil' unfolding kalloc_inv_def by blast
    moreover have "\<exists>ps' n'. n \<le> n' \<and> kalloc_inv ps' n' fl L (put_class h i (classes h ! i) (kvirt h) (kmemory h)) V"
      using inv le_SucI [OF order_refl, of n] unfolding put self_heap by blast
    ultimately show ?thesis
      using Nil Nil' class_sc_size [OF inv i]
      by (intro exI [of _ "Inl MemoryExhausted"] exI [of _ "classes h ! i"] exI [of _ "kvirt h"] exI [of _ "kmemory h"])
        (simp add: err)
  next
    case (Cons p qs)
    from new_page [OF inv [unfolded Cons]] show ?thesis
    proof (elim disjE exE conjE)
      fix u k s1 j
      assume a: "kvirt_alloc (kvirt h) (kmemory h) = Some (Inr u, k, s1)"
        "kalloc_inv (drop j qs) n fl ((u, 4096) # L) (h\<lparr>kvirt := k, kmemory := s1\<rparr>) (insert u V)"
        "u AND 0xfff = 0" "\<forall>b \<in> words V. vread s1 b = vread (kmemory h) b"
      from alloc_uninit_new [OF inv i Nil a] obtain x c s' fl' where
        b: "alloc_uninitialized (classes h ! i) (kvirt h) (kmemory h) = Some (Inr x, c, k, s')"
          "sc_size c = class_size i" "\<forall>b \<in> live L. vread s' b = vread (kmemory h) b" "class_size i dvd unat x"
          "kalloc_inv (drop j qs) n fl' ((x, class_size i) # L) (put_class h i c k s') (insert u V)" by blast
      then have "\<exists>ps' n' fl' V'. n \<le> n' \<and> kalloc_inv ps' n' fl' ((x, class_size i) # L) (put_class h i c k s') V'"
        by blast
      then show ?thesis
        using b(1-4) by (intro exI [of _ "Inr x"] exI [of _ c] exI [of _ k] exI [of _ s']) simp
    next
      fix k s1
      assume a: "kvirt_alloc (kvirt h) (kmemory h) = Some (Inl MemoryExhausted, k, s1)" "length qs < 3"
        "kalloc_inv [p] n fl L (h\<lparr>kvirt := k, kmemory := s1\<rparr>) V"
        "\<forall>b \<in> words V. vread s1 b = vread (kmemory h) b"
      have "\<exists>ps' n'. n \<le> n' \<and> kalloc_inv ps' n' fl L (put_class h i (classes h ! i) k s1) V"
        using a(3) unfolding put by blast
      moreover have "\<forall>b \<in> live L. vread s1 b = vread (kmemory h) b" using a(4) live_words [OF inv] by blast
      ultimately show ?thesis
        using a(1,2) Nil Cons class_sc_size [OF inv i]
        by (intro exI [of _ "Inl MemoryExhausted"] exI [of _ "classes h ! i"] exI [of _ k] exI [of _ s1])
          (simp add: err)
    qed
  qed
qed

text \<open>A client that writes inside its block leaves the heap well formed.\<close>

lemma fill_live:
  assumes inv: "kalloc_inv ps n fl L h V" and b: "(a, m) \<in> set L" "k \<le> m div 8" "k \<le> 512"
  shows "\<exists>s'. fold_opt (\<lambda>i. vwrite (word_of a i) (g i)) [0..<k] (kmemory h) = Some s' \<and>
     kalloc_inv ps n fl L (h\<lparr>kmemory := s'\<rparr>) V \<and> (\<forall>i < k. vread s' (word_of a i) = Some (g i)) \<and>
     (\<forall>b \<in> words V - blk (a, m). vread s' b = vread (kmemory h) b)"
proof -
  let ?us = "pages_from (page_ptr (kvirt h)) n" let ?A = "{word_of a i | i. i < k}"
  have h: "kvirt_inv ps n [] (kvirt h) (kmemory h) V" "kspace ps ?us (kmemory h) V" "0 \<notin> V"
    and own: "\<And>w. all_owners fl L w \<le> of_bool (w \<in> words V)"
    using inv by (auto simp: kalloc_inv_def kvirt_inv_def)
  have sub: "?A \<subseteq> blk (a, m)" using b(2) by (auto simp: blk_def)
  have "word_of a i \<in> words V" if "i < k" for i using live_in_words [OF inv b(1)] sub that by blast
  from kw.fill_words [OF h(2) b(3) this, of g] obtain s' where
    s': "fold_opt (\<lambda>i. vwrite (word_of a i) (g i)) [0..<k] (kmemory h) = Some s'" "kspace ps ?us s' V"
      "\<forall>i < k. vread s' (word_of a i) = Some (g i)" "\<forall>b \<in> words V - ?A. vread s' b = vread (kmemory h) b" by blast
  have "x \<notin> ?A" if "j < 9" "x \<in> set (fl j)" for j x
    using free_not_live [OF inv that start_in_class b(1)] sub by blast
  then have "kalloc_inv ps n fl L (h\<lparr>kvirt := kvirt h, kmemory := s'\<rparr>) V"
    by (intro inv_memory [OF inv kvirt_inv_words [OF h(1) s'(2)] order_refl h(3) s'(4) _ own])
  moreover have "\<forall>b \<in> words V - blk (a, m). vread s' b = vread (kmemory h) b" using s'(4) sub by blast
  ultimately show ?thesis using s'(1,3) by auto
qed

lemma class_size_le: "i < 9 \<Longrightarrow> class_size i \<le> 4096"
  using power_increasing [of "i + 4" 12 "2 :: nat"] by simp

lemma zero_live:
  assumes inv: "kalloc_inv ps n fl ((a, class_size i) # L) h V" and i: "i < 9"
  shows "\<exists>s'. zero a (class_size i) (kmemory h) = Some s' \<and>
     kalloc_inv ps n fl ((a, class_size i) # L) (h\<lparr>kmemory := s'\<rparr>) V \<and>
     (\<forall>w \<in> blk (a, class_size i). vread s' w = Some 0) \<and> (\<forall>b \<in> live L. vread s' b = vread (kmemory h) b)"
proof -
  have le: "class_size i div 8 \<le> 512" using div_le_mono [OF class_size_le [OF i], of 8] by simp
  from fill_live [OF inv _ order_refl le, of a "\<lambda>_. 0"] obtain s' where
    s': "zero a (class_size i) (kmemory h) = Some s'"
      "kalloc_inv ps n fl ((a, class_size i) # L) (h\<lparr>kmemory := s'\<rparr>) V"
      "\<forall>j < class_size i div 8. vread s' (word_of a j) = Some 0"
      "\<forall>b \<in> words V - blk (a, class_size i). vread s' b = vread (kmemory h) b"
    by (auto simp: zero_def word_of_def)
  have "b \<in> words V - blk (a, class_size i)" if b: "b \<in> live L" for b
  proof -
    obtain x where x: "x \<in> set L" "b \<in> blk x" using b by (auto simp: live_def)
    then have "1 \<le> owners L b" using owners_pos by blast
    then have "b \<notin> blk (a, class_size i)" using inv_le_one [OF inv, of b] by (auto simp: all_owners_def)
    moreover have "b \<in> words V" using live_in_words [OF inv, of x b] x by simp
    ultimately show ?thesis by simp
  qed
  then show ?thesis using s' by (auto simp: blk_def)
qed

lemma class_alloc:
  assumes inv: "kalloc_inv ps (Suc n) fl L h V" and i: "i < 9"
  shows "\<exists>r c k s'. size_class_alloc (classes h ! i) (kvirt h) (kmemory h) = Some (r, c, k, s') \<and>
     (\<forall>b \<in> live L. vread s' b = vread (kmemory h) b) \<and>
     (case r of
        Inl _ \<Rightarrow> fl i = [] \<and> length ps < 4 \<and>
          (\<exists>ps' n'. n \<le> n' \<and> kalloc_inv ps' n' fl L (put_class h i c k s') V)
      | Inr a \<Rightarrow> class_size i dvd unat a \<and> (\<forall>w \<in> blk (a, class_size i). vread s' w = Some 0) \<and>
          (\<exists>ps' n' fl' V'. n \<le> n' \<and> kalloc_inv ps' n' fl' ((a, class_size i) # L) (put_class h i c k s') V'))"
proof -
  from alloc_uninit [OF assms] obtain r c k s1 where
    a: "alloc_uninitialized (classes h ! i) (kvirt h) (kmemory h) = Some (r, c, k, s1)" "sc_size c = class_size i"
      "\<forall>b \<in> live L. vread s1 b = vread (kmemory h) b" and
    r: "case r of
        Inl _ \<Rightarrow> fl i = [] \<and> length ps < 4 \<and>
          (\<exists>ps' n'. n \<le> n' \<and> kalloc_inv ps' n' fl L (put_class h i c k s1) V)
      | Inr a \<Rightarrow> class_size i dvd unat a \<and> (\<exists>ps' n' fl' V'. n \<le> n' \<and>
          kalloc_inv ps' n' fl' ((a, class_size i) # L) (put_class h i c k s1) V')" by blast
  show ?thesis
  proof (cases r)
    case (Inl e)
    then show ?thesis using a r by (simp add: size_class_alloc_def)
  next
    case (Inr x)
    with r obtain ps' n' fl' V' where x: "class_size i dvd unat x" "n \<le> n'"
      "kalloc_inv ps' n' fl' ((x, class_size i) # L) (put_class h i c k s1) V'" by auto
    from zero_live [OF x(3) i] obtain s' where
      s': "zero x (class_size i) s1 = Some s'" "kalloc_inv ps' n' fl' ((x, class_size i) # L) (put_class h i c k s') V'"
        "\<forall>w \<in> blk (x, class_size i). vread s' w = Some 0" "\<forall>b \<in> live L. vread s' b = vread s1 b"
      by (auto simp: put_class_def)
    have "\<exists>ps' n' fl' V'. n \<le> n' \<and> kalloc_inv ps' n' fl' ((x, class_size i) # L) (put_class h i c k s') V'"
      using s'(2) x(2) by blast
    then show ?thesis
      using a Inr s'(1,3,4) x(1)
      by (intro exI [of _ "Inr x"] exI [of _ c] exI [of _ k] exI [of _ s']) (simp add: size_class_alloc_def)
  qed
qed

section \<open>The contract of the heap\<close>

lemma class_index_Some:
  "class_index cs l = Some i \<longleftrightarrow> i < length cs \<and> fits (cs ! i) l \<and> (\<forall>j < i. \<not> fits (cs ! j) l)"
proof (induction cs arbitrary: i)
  case (Cons c cs)
  show ?case by (cases i) (auto simp: Cons less_Suc_eq_0_disj)
qed simp

lemma class_index_None: "class_index cs l = None \<longleftrightarrow> (\<forall>c \<in> set cs. \<not> fits c l)"
  by (induction cs) auto

lemma class_of_layout:
  assumes inv: "kalloc_inv ps n fl L h V"
  shows "class_index (classes h) l = Some i \<longleftrightarrow> i < 9 \<and> max (layout_size l) (layout_align l) \<le> class_size i \<and>
     (\<forall>j < i. class_size j < max (layout_size l) (layout_align l))"
proof -
  have "fits (classes h ! j) l \<longleftrightarrow> max (layout_size l) (layout_align l) \<le> class_size j" if "j < 9" for j
    using class_sc_size [OF inv that] by (simp add: fits_def)
  then show ?thesis unfolding class_index_Some class_len [OF inv] by (auto simp: not_le less_max_iff_disj)
qed

lemma class_exists:
  assumes inv: "kalloc_inv ps n fl L h V" and l: "layout_size l \<le> 4096" "layout_align l \<le> 4096"
  obtains i where "i < 9" "class_index (classes h) l = Some i"
proof -
  have "class_index (classes h) l \<noteq> None"
  proof
    assume "class_index (classes h) l = None"
    moreover have "classes h ! 8 \<in> set (classes h)" using class_len [OF inv] by simp
    ultimately show False using class_sc_size [OF inv, of 8] l by (auto simp: class_index_None fits_def)
  qed
  then show ?thesis using that class_of_layout [OF inv] by blast
qed

lemma alloc_layout_class:
  assumes inv: "kalloc_inv ps (Suc n) fl L h V" and c: "class_index (classes h) l = Some i"
  shows "\<exists>r h'. alloc_layout l h = Some (r, h') \<and>
     (\<forall>b \<in> live L. vread (kmemory h') b = vread (kmemory h) b) \<and>
     (case r of
        Inl _ \<Rightarrow> length ps < 4 \<and> (\<exists>ps' n'. n \<le> n' \<and> kalloc_inv ps' n' fl L h' V)
      | Inr a \<Rightarrow> class_size i dvd unat a \<and> blk (a, class_size i) \<inter> live L = {} \<and>
          (\<forall>w \<in> blk (a, class_size i). vread (kmemory h') w = Some 0) \<and>
          (\<exists>ps' n' fl' V'. n \<le> n' \<and> kalloc_inv ps' n' fl' ((a, class_size i) # L) h' V'))"
proof -
  have i: "i < 9" using c class_of_layout [OF inv] by blast
  from class_alloc [OF inv i] obtain r c q s' where
    a: "size_class_alloc (classes h ! i) (kvirt h) (kmemory h) = Some (r, c, q, s')"
      "\<forall>b \<in> live L. vread s' b = vread (kmemory h) b" and
    r: "case r of
        Inl _ \<Rightarrow> fl i = [] \<and> length ps < 4 \<and>
          (\<exists>ps' n'. n \<le> n' \<and> kalloc_inv ps' n' fl L (put_class h i c q s') V)
      | Inr a \<Rightarrow> class_size i dvd unat a \<and> (\<forall>w \<in> blk (a, class_size i). vread s' w = Some 0) \<and>
          (\<exists>ps' n' fl' V'. n \<le> n' \<and> kalloc_inv ps' n' fl' ((a, class_size i) # L) (put_class h i c q s') V')"
    by blast
  have eq: "alloc_layout l h = Some (r, put_class h i c q s')"
    using a(1) c by (simp add: alloc_layout_def put_class_def)
  have mem: "kmemory (put_class h i c q s') = s'" by (simp add: put_class_def)
  have "blk (x, class_size i) \<inter> live L = {}"
    if k: "kalloc_inv ps' n' fl' ((x, class_size i) # L) (put_class h i c q s') V'" for x ps' n' fl' V'
  proof -
    have "w \<notin> live L" if "w \<in> blk (x, class_size i)" for w
      using inv_le_one [OF k, of w] that owners_pos [of _ L w] by (force simp: all_owners_def live_def)
    then show ?thesis by blast
  qed
  then show ?thesis
    using r eq a(2) by (intro exI [of _ r] exI [of _ "put_class h i c q s'"], cases r) (simp add: mem, simp add: mem, blast)
qed

lemma alloc_layout_cases:
  assumes "kalloc_inv ps (Suc n) fl L h V" and "class_index (classes h) l = Some i"
  obtains (exhausted) e h' ps' n' where "alloc_layout l h = Some (Inl e, h')"
      "\<forall>b \<in> live L. vread (kmemory h') b = vread (kmemory h) b" "length ps < 4" "n \<le> n'"
      "kalloc_inv ps' n' fl L h' V"
  | (block) a h' ps' n' fl' V' where "alloc_layout l h = Some (Inr a, h')"
      "\<forall>b \<in> live L. vread (kmemory h') b = vread (kmemory h) b" "class_size i dvd unat a"
      "blk (a, class_size i) \<inter> live L = {}" "\<forall>w \<in> blk (a, class_size i). vread (kmemory h') w = Some 0"
      "n \<le> n'" "kalloc_inv ps' n' fl' ((a, class_size i) # L) h' V'"
proof -
  from alloc_layout_class [OF assms] obtain r h' where
    a: "alloc_layout l h = Some (r, h')" "\<forall>b \<in> live L. vread (kmemory h') b = vread (kmemory h) b" and
    r: "case r of
        Inl _ \<Rightarrow> length ps < 4 \<and> (\<exists>ps' n'. n \<le> n' \<and> kalloc_inv ps' n' fl L h' V)
      | Inr a \<Rightarrow> class_size i dvd unat a \<and> blk (a, class_size i) \<inter> live L = {} \<and>
          (\<forall>w \<in> blk (a, class_size i). vread (kmemory h') w = Some 0) \<and>
          (\<exists>ps' n' fl' V'. n \<le> n' \<and> kalloc_inv ps' n' fl' ((a, class_size i) # L) h' V')" by blast
  show ?thesis
  proof (cases r)
    case (Inl e)
    then show ?thesis using exhausted a r by auto
  next
    case (Inr x)
    show ?thesis using r block [of x] a unfolding Inr sum.case by blast
  qed
qed

text \<open>C27: Allocation from the kernel heap.  For every layout of at most a page, \<open>alloc_layout\<close>
  returns without panicking.  The block it returns is at least as large as the layout asks and
  aligned as it asks, every word of it is zero, it shares no word with a block that is in use, and
  the contents of all blocks in use are unchanged.  \<open>MemoryExhausted\<close> is reported only when fewer
  than four frames are left, and every block stays as it was.\<close>

theorem alloc_layout_block:
  assumes inv: "kalloc_inv ps (Suc n) fl L h V"
    and l: "layout_size l \<le> 4096" "layout_align l = 2 ^ k" "k \<le> 12"
  shows "\<exists>r h'. alloc_layout l h = Some (r, h') \<and>
     (\<forall>b \<in> live L. vread (kmemory h') b = vread (kmemory h) b) \<and>
     (case r of
        Inl _ \<Rightarrow> length ps < 4 \<and> (\<exists>ps' n'. n \<le> n' \<and> kalloc_inv ps' n' fl L h' V)
      | Inr a \<Rightarrow> (\<exists>sz ps' n' fl' V'. layout_size l \<le> sz \<and> layout_align l dvd unat a \<and>
          blk (a, sz) \<inter> live L = {} \<and> (\<forall>w \<in> blk (a, sz). vread (kmemory h') w = Some 0) \<and>
          n \<le> n' \<and> kalloc_inv ps' n' fl' ((a, sz) # L) h' V'))"
proof -
  have al: "layout_align l \<le> 4096" using l(2) power_increasing [OF l(3), of "2 :: nat"] by simp
  obtain i where i: "i < 9" "class_index (classes h) l = Some i" by (rule class_exists [OF inv l(1) al])
  then have sz: "layout_size l \<le> class_size i" "2 ^ k \<le> class_size i"
    using class_of_layout [OF inv] l(2) by auto
  have "k \<le> i + 4" using sz(2) by (rule power_le_imp_le_exp [rotated]) simp
  then have dv: "class_size i dvd unat a \<Longrightarrow> layout_align l dvd unat a" for a :: u64
    unfolding l(2) using dvd_trans [OF le_imp_power_dvd] by blast
  from inv i(2) show ?thesis
  proof (cases rule: alloc_layout_cases)
    case (exhausted e h' ps' n')
    then show ?thesis by (intro exI [of _ "Inl e"] exI [of _ h']) auto
  next
    case (block a h' ps' n' fl' V')
    then have "\<exists>sz ps' n' fl' V'. layout_size l \<le> sz \<and> layout_align l dvd unat a \<and>
        blk (a, sz) \<inter> live L = {} \<and> (\<forall>w \<in> blk (a, sz). vread (kmemory h') w = Some 0) \<and>
        n \<le> n' \<and> kalloc_inv ps' n' fl' ((a, sz) # L) h' V'" using dv sz(1) by blast
    then show ?thesis using block(1,2) by (intro exI [of _ "Inr a"] exI [of _ h']) simp
  qed
qed

lemma kalloc_inv_new:
  assumes "kspace ps (pages_from ptr n) s {}"
  shows "kalloc_inv ps n (\<lambda>_. []) [] \<lparr>classes = allocator_new, kvirt = page_allocator_new ptr, kmemory = s\<rparr> {}"
proof -
  have nine: "[0..<9] = [0, 1, 2, 3, 4, 5, 6, 7, 8 :: nat]" by (simp add: upt_rec)
  have "map sc_size allocator_new = map class_size [0..<9]" by (simp add: allocator_new_def size_class_new_def nine)
  moreover have "\<forall>i < 9. sc_free (allocator_new ! i) = None"
    by (auto simp: allocator_new_def size_class_new_def nth_map numeral_eq_Suc less_Suc_eq)
  ultimately show ?thesis
    using kvirt_inv_new [OF assms] by (simp add: kalloc_inv_def all_owners_def free_blocks_def words_def)
qed

definition sample_heap :: kernel_heap where
  "sample_heap = \<lparr>classes = allocator_new, kvirt = page_allocator_new 0xffff900000000000, kmemory = sample\<rparr>"

lemma sample_heap_inv: "kalloc_inv sample_pages (Suc 3) (\<lambda>_. []) [] sample_heap {}"
  using kalloc_inv_new [OF kspace_sample] by (simp add: sample_heap_def)

theorem alloc_layout_block_witness:
  "\<exists>a h'. alloc_layout \<lparr>layout_size = 100, layout_align = 2 ^ 4\<rparr> sample_heap = Some (Inr a, h') \<and> 16 dvd unat a"
proof -
  let ?l = "\<lparr>layout_size = 100, layout_align = 2 ^ 4\<rparr>"
  have "layout_size ?l \<le> 4096" "layout_align ?l = 2 ^ 4" "(4 :: nat) \<le> 12" by simp_all
  from alloc_layout_block [OF sample_heap_inv this] obtain r h' where
    r: "alloc_layout ?l sample_heap = Some (r, h')"
      "case r of Inl _ \<Rightarrow> length sample_pages < 4 | Inr a \<Rightarrow> 16 dvd unat a"
    by (elim exE conjE, rename_tac r h', case_tac r) auto
  then show ?thesis by (cases r) (auto simp: sample_len(1))
qed

text \<open>Giving a block back and asking for the same layout again returns the same block, zeroed,
  with every other block and every free list as before.\<close>

lemma free_alloc_roundtrip:
  assumes inv: "kalloc_inv ps n fl ((a, class_size i) # L) h V" and c: "class_index (classes h) l = Some i"
    and al: "class_size i dvd unat a"
  shows "\<exists>h1 h2. free_layout l a h = Some h1 \<and> kalloc_inv ps n (fl(i := a # fl i)) L h1 V \<and>
     alloc_layout l h1 = Some (Inr a, h2) \<and> kalloc_inv ps n fl ((a, class_size i) # L) h2 V \<and>
     (\<forall>w \<in> blk (a, class_size i). vread (kmemory h2) w = Some 0) \<and>
     (\<forall>b \<in> live L. vread (kmemory h2) b = vread (kmemory h) b)"
proof -
  have i: "i < 9" using c class_of_layout [OF inv] by blast
  from class_push [OF inv i order_refl al] obtain cs where
    1: "add_free a (classes h ! i, kmemory h) = Some cs"
      "kalloc_inv ps n (fl(i := a # fl i)) L (upd_class h i cs) V"
      "\<forall>b \<in> words V - {a}. vread (snd cs) b = vread (kmemory h) b" by blast
  let ?h1 = "upd_class h i cs"
  have f1: "free_layout l a h = Some ?h1"
    using 1(1) c by (cases cs) (simp add: free_layout_def size_class_free_def upd_class_def)
  have c1: "class_index (classes ?h1) l = Some i"
    using class_of_layout [OF inv] class_of_layout [OF 1(2)] c by blast
  from alloc_uninit_reuse [OF 1(2) i, of a "fl i"] obtain c' s' where
    2: "alloc_uninitialized (classes ?h1 ! i) (kvirt ?h1) (kmemory ?h1) = Some (Inr a, c', kvirt ?h1, s')"
      "sc_size c' = class_size i" "\<forall>b \<in> live L. vread s' b = vread (kmemory ?h1) b"
      "kalloc_inv ps n (fl(i := fl i)) ((a, class_size i) # L) (upd_class ?h1 i (c', s')) V"
    by (auto simp del: upd_class_simps)
  from 2(4) zero_live [OF _ i] obtain s'' where
    3: "zero a (class_size i) s' = Some s''"
      "kalloc_inv ps n fl ((a, class_size i) # L) (upd_class ?h1 i (c', s'')) V"
      "\<forall>w \<in> blk (a, class_size i). vread s'' w = Some 0" "\<forall>b \<in> live L. vread s'' b = vread s' b"
    by (fastforce simp: upd_class_def)
  have "alloc_layout l ?h1 = Some (Inr a, upd_class ?h1 i (c', s''))"
    using c1 2(1,2) 3(1) put_class_upd(1) [of ?h1 i c' s'']
    by (simp add: alloc_layout_def size_class_alloc_def put_class_def del: upd_class_simps)
  moreover have "\<forall>b \<in> live L. vread s'' b = vread (kmemory h) b"
  proof
    fix b assume b: "b \<in> live L"
    have "b \<noteq> a" using free_not_live [OF 1(2) i _ start_in_class, of a] b by (auto simp: live_def)
    then show "vread s'' b = vread (kmemory h) b"
      using b 1(3) 2(3) 3(4) live_words [OF 1(2)] by auto
  qed
  ultimately show ?thesis using f1 1(2) 3(2,3) by (intro exI [of _ ?h1] exI [of _ "upd_class ?h1 i (c', s'')"]) simp
qed

text \<open>The allocator panics exactly on the layouts that no size class fits, those of more than a
  page.\<close>

lemma alloc_layout_panics:
  assumes inv: "kalloc_inv ps n fl L h V" and l: "4096 < layout_size l \<or> 4096 < layout_align l"
  shows "alloc_layout l h = None \<and> free_layout l a h = None"
proof -
  have "class_index (classes h) l \<noteq> Some i" for i
    using class_of_layout [OF inv, of l i] class_size_le [of i] l by auto
  then have "class_index (classes h) l = None" by (cases "class_index (classes h) l") auto
  then show ?thesis by (simp add: alloc_layout_def free_layout_def)
qed

lemma sample_block:
  obtains a h ps n fl V where "kalloc_inv ps (Suc n) fl [(a, class_size 3)] h V" "class_size 3 dvd unat a"
    "class_index (classes h) \<lparr>layout_size = 100, layout_align = 16\<rparr> = Some 3"
proof -
  let ?l = "\<lparr>layout_size = 100, layout_align = 16\<rparr>"
  have ci: "class_index (classes h) ?l = Some 3" if "kalloc_inv ps n fl L h V" for ps n fl L h V
    unfolding class_of_layout [OF that] by (auto simp: less_Suc_eq numeral_eq_Suc)
  from sample_heap_inv ci [OF sample_heap_inv] show ?thesis
  proof (cases rule: alloc_layout_cases)
    case exhausted
    then show ?thesis by (simp add: sample_len(1))
  next
    case (block a h' ps' n' fl' V')
    then obtain m where "n' = Suc m" by (cases n') auto
    then show ?thesis using that block(3,7) ci [OF block(7)] by blast
  qed
qed

lemma free_alloc_roundtrip_witness:
  "\<exists>a h h1 h2. free_layout \<lparr>layout_size = 100, layout_align = 16\<rparr> a h = Some h1 \<and>
     alloc_layout \<lparr>layout_size = 100, layout_align = 16\<rparr> h1 = Some (Inr a, h2)"
proof -
  obtain a h ps n fl V where h: "kalloc_inv ps (Suc n) fl [(a, class_size 3)] h V" "class_size 3 dvd unat a"
    "class_index (classes h) \<lparr>layout_size = 100, layout_align = 16\<rparr> = Some 3" by (rule sample_block)
  from free_alloc_roundtrip [OF h(1,3,2)] show ?thesis by blast
qed

end
