(* ===== verification/Heap_Objects.thy ===== *)
theory Heap_Objects
  imports KAlloc
begin

text \<open>
  The owners of heap objects: \<open>Box\<close> of \<open>alloc_collections/src/boxed.rs\<close>, instantiated with the
  kernel's \<open>GlobalAlloc\<close>, and \<open>Arc\<close> of \<open>kernel/src/sync/arc.rs\<close>.

  \<^item> A value is the list of its 64-bit words; \<open>layout\<close> is the layout of its type.  The
    destructor of the value (\<open>ptr::drop_in_place\<close>) is a parameter.
  \<^item> The words of an \<open>ArcObject\<close> are the reference count followed by those of the object.
  \<^item> Rust drops a parameter that a function still owns when it returns:  \<open>box_into_inner\<close> ends with
    the \<open>Drop\<close> of \<open>b\<close>, because the source neither moves nor forgets it.
\<close>

section \<open>boxed.rs\<close>

definition load_words :: "u64 \<Rightarrow> nat \<Rightarrow> kmem \<Rightarrow> u64 list option" where
  "load_words ptr n s = those (map (\<lambda>i. vread s (word_of ptr i)) [0..<n])"

definition layout_words :: "layout \<Rightarrow> nat" where
  "layout_words l = (layout_size l + 7) div 8"

definition box_alloc :: "layout \<Rightarrow> u64 list \<Rightarrow> kernel_heap \<Rightarrow> ((alloc_err + u64) \<times> kernel_heap) option" where
  "box_alloc l value h = do {
     (r, h) \<leftarrow> global_alloc l h;
     (case r of
        Inl e \<Rightarrow> Some (Inl e, h)
      | Inr ptr \<Rightarrow> do {
          s \<leftarrow> write_words ptr value (kmemory h);
          Some (Inr ptr, h\<lparr>kmemory := s\<rparr>) }) }"

definition box_free :: "layout \<Rightarrow> u64 \<Rightarrow> kernel_heap \<Rightarrow> kernel_heap option" where
  "box_free l ptr h = global_dealloc ptr l h"

definition box_new :: "layout \<Rightarrow> u64 list \<Rightarrow> kernel_heap \<Rightarrow> ((alloc_err + u64) \<times> kernel_heap) option" where
  "box_new l value h = box_alloc l value h"

definition box_drop :: "(u64 \<Rightarrow> kernel_heap \<Rightarrow> kernel_heap option) \<Rightarrow> layout \<Rightarrow> u64 \<Rightarrow> kernel_heap
    \<Rightarrow> kernel_heap option" where
  "box_drop drop_in_place l ptr h = do {
     h \<leftarrow> drop_in_place ptr h;
     box_free l ptr h }"

definition box_into_inner :: "(u64 \<Rightarrow> kernel_heap \<Rightarrow> kernel_heap option) \<Rightarrow> layout \<Rightarrow> u64 \<Rightarrow> kernel_heap
    \<Rightarrow> (u64 list \<times> kernel_heap) option" where
  "box_into_inner drop_in_place l ptr h = do {
     value \<leftarrow> load_words ptr (layout_words l) (kmemory h);
     h \<leftarrow> box_free l ptr h;
     h \<leftarrow> box_drop drop_in_place l ptr h;   \<comment> \<open>the parameter \<open>b\<close> goes out of scope\<close>
     Some (value, h) }"

section \<open>arc.rs\<close>

text \<open>The layout of \<open>NonNull<ArcObject<T>>\<close>, a thin or a fat pointer.\<close>

definition ptr_layout :: "bool \<Rightarrow> layout" where
  "ptr_layout fat = \<lparr>layout_size = (if fat then 16 else 8), layout_align = 8\<rparr>"

definition arc_new :: "layout \<Rightarrow> u64 list \<Rightarrow> kernel_heap \<Rightarrow> ((memory_exhausted + u64) \<times> kernel_heap) option" where
  "arc_new l object h = kalloc_alloc l (1 # object) h"

definition arc_clone :: "u64 \<Rightarrow> kernel_heap \<Rightarrow> (u64 \<times> kernel_heap) option" where
  "arc_clone ptr h = do {
     ref_count \<leftarrow> vread (kmemory h) ptr;
     s \<leftarrow> vwrite ptr (ref_count + 1) (kmemory h);
     Some (ptr, h\<lparr>kmemory := s\<rparr>) }"

definition arc_drop :: "bool \<Rightarrow> (u64 \<Rightarrow> kernel_heap \<Rightarrow> kernel_heap option) \<Rightarrow> u64 \<Rightarrow> kernel_heap
    \<Rightarrow> kernel_heap option" where
  "arc_drop fat drop_in_place ptr h = do {
     ref_count \<leftarrow> vread (kmemory h) ptr;
     s \<leftarrow> vwrite ptr (ref_count - 1) (kmemory h);
     let h = h\<lparr>kmemory := s\<rparr>;
     if ref_count = 0 then None   \<comment> \<open>Arc::drop: ref_count underflow!\<close>
     else if ref_count = 1 then do {
       h \<leftarrow> drop_in_place ptr h;
       free_layout (ptr_layout fat) ptr h }
     else Some h }"

section \<open>Blocks in use\<close>

lemma those_map_Some: "(\<And>i. i < n \<Longrightarrow> f i = Some (g i)) \<Longrightarrow> those (map f [0..<n]) = Some (map g [0..<n])"
proof (induction n)
  case (Suc n)
  have "those (xs @ [Some y]) = map_option (\<lambda>ys. ys @ [y]) (those xs)" for xs and y :: 'a
    by (induction xs) (auto split: option.splits simp: option.map_comp o_def)
  then show ?case using Suc by simp
qed simp

lemma write_words_live:
  assumes inv: "kalloc_inv ps n fl L h V" and b: "(a, m) \<in> set L" "length ws \<le> m div 8" "length ws \<le> 512"
  shows "\<exists>s'. write_words a ws (kmemory h) = Some s' \<and> kalloc_inv ps n fl L (h\<lparr>kmemory := s'\<rparr>) V \<and>
     load_words a (length ws) s' = Some ws \<and> (\<forall>b \<in> words V - blk (a, m). vread s' b = vread (kmemory h) b)"
proof -
  from fill_live [OF assms, of "\<lambda>i. ws ! i"] obtain s' where
    s': "write_words a ws (kmemory h) = Some s'" "kalloc_inv ps n fl L (h\<lparr>kmemory := s'\<rparr>) V"
      "\<forall>i < length ws. vread s' (word_of a i) = Some (ws ! i)"
      "\<forall>b \<in> words V - blk (a, m). vread s' b = vread (kmemory h) b" by (auto simp: write_words_def)
  have "load_words a (length ws) s' = Some ws"
    unfolding load_words_def using s'(3) by (subst those_map_Some [of _ _ "\<lambda>i. ws ! i"]) (simp_all add: map_nth)
  then show ?thesis using s' by blast
qed

text \<open>One word of a block in use: reading and writing.\<close>

lemma live_word:
  assumes inv: "kalloc_inv ps n fl L h V" and b: "(a, m) \<in> set L" "8 \<le> m"
  shows "\<exists>x. vread (kmemory h) a = Some x"
    and "\<exists>s'. vwrite a y (kmemory h) = Some s' \<and> kalloc_inv ps n fl L (h\<lparr>kmemory := s'\<rparr>) V \<and>
      vread s' a = Some y \<and> (\<forall>b \<in> words V - {a}. vread s' b = vread (kmemory h) b)"
proof -
  let ?us = "pages_from (page_ptr (kvirt h)) n"
  have h: "kspace ps ?us (kmemory h) V" using inv by (auto simp: kalloc_inv_def kvirt_inv_def)
  have a: "a \<in> words V" using live_in_words [OF inv b(1)] start_in_blk [OF b(2)] by blast
  show "\<exists>x. vread (kmemory h) a = Some x" by (rule kw.readable [OF h a])
  from kw.writable [OF h a, of y] obtain s' where s': "vwrite a y (kmemory h) = Some s'" "vread s' a = Some y"
    "\<forall>b \<in> words V - {a}. vread s' b = vread (kmemory h) b" using a by auto
  have "word_of a 0 = a" by (simp add: word_of_def)
  moreover have "1 \<le> m div 8" using b(2) div_le_mono [OF b(2), of 8] by simp
  ultimately have "kalloc_inv ps n fl L (h\<lparr>kmemory := s'\<rparr>) V"
    using fill_live [OF inv b(1), of 1 "\<lambda>_. y"] s'(1) by auto
  then show "\<exists>s'. vwrite a y (kmemory h) = Some s' \<and> kalloc_inv ps n fl L (h\<lparr>kmemory := s'\<rparr>) V \<and>
      vread s' a = Some y \<and> (\<forall>b \<in> words V - {a}. vread s' b = vread (kmemory h) b)" using s' by blast
qed

section \<open>Box\<close>

lemma release_block:
  assumes inv: "kalloc_inv ps n fl ((a, m) # L) h V" and c: "class_index (classes h) l = Some i"
    and m: "class_size i \<le> m" "class_size i dvd unat a"
  shows "\<exists>h'. free_layout l a h = Some h' \<and> kalloc_inv ps n (fl(i := a # fl i)) L h' V \<and>
     sc_free (classes h' ! i) = Some a \<and> (\<forall>b \<in> live L. vread (kmemory h') b = vread (kmemory h) b)"
proof -
  have i: "i < 9" using c class_of_layout [OF inv] by blast
  from class_push [OF inv i m] obtain cs where
    1: "add_free a (classes h ! i, kmemory h) = Some cs" "kalloc_inv ps n (fl(i := a # fl i)) L (upd_class h i cs) V"
      "\<forall>b \<in> words V - {a}. vread (snd cs) b = vread (kmemory h) b" by blast
  have "free_layout l a h = Some (upd_class h i cs)"
    using 1(1) c by (cases cs) (simp add: free_layout_def size_class_free_def upd_class_def)
  moreover have "sc_free (classes (upd_class h i cs) ! i) = Some a"
    using 1(1) class_len [OF inv] i by (auto simp: add_free_def option_monad)
  moreover have "\<forall>b \<in> live L. vread (kmemory (upd_class h i cs)) b = vread (kmemory h) b"
  proof
    fix b assume b: "b \<in> live L"
    have "b \<noteq> a" using free_not_live [OF 1(2) i _ start_in_class, of a] b by (auto simp: live_def)
    then show "vread (kmemory (upd_class h i cs)) b = vread (kmemory h) b"
      using 1(3) live_words [OF 1(2)] b by auto
  qed
  ultimately show ?thesis using 1(2) by blast
qed

text \<open>\<open>Box\<close>.  \<open>Box::new\<close> stores the value in a block of its own and changes no other block;
  dropping the box, when the destructor of the value leaves the heap alone, gives exactly that
  block back.  When there is no memory the only effect is the error.\<close>

lemma box_new_then_drop:
  assumes inv: "kalloc_inv ps (Suc n) fl L h V"
    and l: "layout_size l \<le> 4096" "layout_align l = 2 ^ k" "k \<le> 12" and v: "length value = layout_words l"
  shows "\<exists>r h1. box_new l value h = Some (r, h1) \<and>
     (\<forall>b \<in> live L. vread (kmemory h1) b = vread (kmemory h) b) \<and>
     (case r of
        Inl AllocErr \<Rightarrow> length ps < 4
      | Inr a \<Rightarrow> load_words a (layout_words l) (kmemory h1) = Some value \<and>
          (\<forall>drop_in_place. drop_in_place a h1 = Some h1 \<longrightarrow>
             (\<exists>h2 ps' n' fl' V'. box_drop drop_in_place l a h1 = Some h2 \<and> kalloc_inv ps' n' fl' L h2 V' \<and>
                (\<forall>b \<in> live L. vread (kmemory h2) b = vread (kmemory h) b))))"
proof -
  have al: "layout_align l \<le> 4096" using l(2) power_increasing [OF l(3), of "2 :: nat"] by simp
  obtain i where i: "i < 9" "class_index (classes h) l = Some i" by (rule class_exists [OF inv l(1) al])
  have sz: "layout_size l \<le> class_size i" using class_of_layout [OF inv] i by auto
  have "(layout_size l + 7) div 8 \<le> (class_size i + 7) div 8" using sz by (intro div_le_mono) simp
  also have "\<dots> = class_size i div 8" using class_size_dvd(2) [of i] by (auto elim!: dvdE)
  finally have len: "length value \<le> class_size i div 8" by (simp add: v layout_words_def)
  have len5: "length value \<le> 512" using len div_le_mono [OF class_size_le [OF i(1)], of 8] by simp
  from inv i(2) show ?thesis
  proof (cases rule: alloc_layout_cases)
    case (exhausted e h' ps' n')
    then show ?thesis
      by (intro exI [of _ "Inl AllocErr"] exI [of _ h']) (simp add: box_new_def box_alloc_def global_alloc_def)
  next
    case (block a h' ps' n' fl' V')
    from write_words_live [OF block(7) _ len len5] obtain s' where
      s': "write_words a value (kmemory h') = Some s'"
        "kalloc_inv ps' n' fl' ((a, class_size i) # L) (h'\<lparr>kmemory := s'\<rparr>) V'"
        "load_words a (length value) s' = Some value"
        "\<forall>b \<in> words V' - blk (a, class_size i). vread s' b = vread (kmemory h') b" by auto
    let ?h1 = "h'\<lparr>kmemory := s'\<rparr>"
    have eq: "box_new l value h = Some (Inr a, ?h1)"
      using block(1) s'(1) by (simp add: box_new_def box_alloc_def global_alloc_def)
    have "b \<in> words V' - blk (a, class_size i)" if "b \<in> live L" for b
      using that block(4) live_words [OF block(7)] by (auto simp: live_def)
    then have keep: "\<forall>b \<in> live L. vread s' b = vread (kmemory h) b" using s'(4) block(2) by simp
    have ci: "class_index (classes ?h1) l = Some i"
      using i(2) class_of_layout [OF inv] class_of_layout [OF s'(2)] by blast
    from release_block [OF s'(2) ci order_refl block(3)] obtain h2 where
      h2: "free_layout l a ?h1 = Some h2" "kalloc_inv ps' n' (fl'(i := a # fl' i)) L h2 V'"
        "\<forall>b \<in> live L. vread (kmemory h2) b = vread s' b" by auto
    have "\<exists>h2 ps' n' fl' V'. box_drop d l a ?h1 = Some h2 \<and> kalloc_inv ps' n' fl' L h2 V' \<and>
        (\<forall>b \<in> live L. vread (kmemory h2) b = vread (kmemory h) b)" if "d a ?h1 = Some ?h1" for d
    proof -
      have "box_drop d l a ?h1 = Some h2" using that h2(1) by (simp add: box_drop_def box_free_def global_dealloc_def)
      moreover have "\<forall>b \<in> live L. vread (kmemory h2) b = vread (kmemory h) b" using h2(3) keep by simp
      ultimately show ?thesis using h2(2) by blast
    qed
    then show ?thesis
      using eq keep s'(3) v by (intro exI [of _ "Inr a"] exI [of _ ?h1]) simp
  qed
qed

lemma box_new_then_drop_witness:
  "\<exists>a h1. box_new \<lparr>layout_size = 16, layout_align = 2 ^ 3\<rparr> [5, 6] sample_heap = Some (Inr a, h1) \<and>
     load_words a 2 (kmemory h1) = Some [5, 6]"
proof -
  let ?l = "\<lparr>layout_size = 16, layout_align = 2 ^ 3\<rparr>"
  have "layout_size ?l \<le> 4096" "layout_align ?l = 2 ^ 3" "(3 :: nat) \<le> 12" "length [5, 6 :: u64] = layout_words ?l"
    by (simp_all add: layout_words_def)
  from box_new_then_drop [OF sample_heap_inv this] show ?thesis
    by (elim exE conjE, rename_tac r h1, case_tac r)
      (auto simp: sample_len(1) layout_words_def split: alloc_err.splits)
qed

section \<open>Box::into\_inner\<close>

lemma class_index_cong: "map sc_size cs = map sc_size ds \<Longrightarrow> class_index cs l = class_index ds l"
proof (induction cs arbitrary: ds)
  case (Cons c cs)
  then show ?case by (cases ds) (auto simp: fits_def)
qed simp

lemma class_index_upd:
  "i < length cs \<Longrightarrow> sc_size c = sc_size (cs ! i) \<Longrightarrow> class_index (cs[i := c]) l = class_index cs l"
  by (rule class_index_cong) (metis list_update_id map_update)

text \<open>Taking the head of a free list needs no more than that the head can be read and written.\<close>

lemma take_head:
  assumes sp: "kspace ps us s V" and c: "sc_free c = Some a" "sc_size c = class_size i" "i < 9"
    and b: "blk (a, class_size i) \<subseteq> words V" and x: "vread s a = Some x"
  shows "\<exists>s'. size_class_alloc c k s = Some (Inr a, c\<lparr>sc_free := if x = 0 then None else Some x\<rparr>, k, s') \<and>
     kspace ps us s' V \<and> vread s' a = Some 0"
proof -
  have a: "a \<in> words V" using b start_in_class by blast
  from kw.writable [OF sp a, of 0] obtain s1 where s1: "vwrite a 0 s = Some s1" "kspace ps us s1 V" by blast
  let ?n = "class_size i div 8"
  have n: "?n \<le> 512" "0 < ?n" using div_le_mono [OF class_size_le [OF c(3)], of 8] div_le_mono [OF class_size_ge [of i], of 8] by auto
  have "word_of a j \<in> words V" if "j < ?n" for j using b that by (auto simp: blk_def)
  from zero_block [OF s1(2) n(1) this] obtain s' where
    s': "zero a (8 * ?n) s1 = Some s'" "kspace ps us s' V" "\<forall>j < ?n. vread s' (word_of a j) = Some 0" by blast
  have "8 * ?n = class_size i" using class_size_dvd(2) [of i] by simp
  then have "zero a (class_size i) s1 = Some s'" using s'(1) by (simp only:)
  moreover have "vread s' a = Some 0" using s'(3) n(2) by (auto dest: spec [of _ 0] simp: word_of_def)
  ultimately show ?thesis
    using s1(1) s'(2) x c(1,2)
    by (simp add: size_class_alloc_def alloc_uninitialized_def free_object_take_def take_next_def)
qed

lemma load_words_words:
  assumes "kspace ps us s V" "\<And>i. i < n \<Longrightarrow> word_of a i \<in> words V"
  shows "\<exists>value. load_words a n s = Some value"
proof -
  have "vread s (word_of a i) = Some (the (vread s (word_of a i)))" if "i < n" for i
    using kw.readable [OF assms(1) assms(2) [OF that]] by auto
  then have "those (map (\<lambda>i. vread s (word_of a i)) [0..<n]) = Some (map (\<lambda>i. the (vread s (word_of a i))) [0..<n])"
    by (rule those_map_Some)
  then show ?thesis unfolding load_words_def by blast
qed

text \<open>\<open>Box::into_inner\<close> frees its block twice: once itself and once through the \<open>Drop\<close> of
  its parameter, which it neither moves nor forgets.  After it, two allocations of the same layout
  in a row return the same block.\<close>

lemma into_inner_frees_twice:
  assumes inv: "kalloc_inv ps n fl ((a, class_size i) # L) h V" and c: "class_index (classes h) l = Some i"
    and al: "class_size i dvd unat a" and d: "\<And>g. drop_in_place a g = Some g"
  shows "\<exists>value h1 h2 h3. box_into_inner drop_in_place l a h = Some (value, h1) \<and>
     alloc_layout l h1 = Some (Inr a, h2) \<and> alloc_layout l h2 = Some (Inr a, h3)"
proof -
  let ?us = "\<lambda>h. pages_from (page_ptr (kvirt h)) n"
  have i: "i < 9" "layout_size l \<le> class_size i" using c class_of_layout [OF inv] by auto
  have blkV: "blk (a, class_size i) \<subseteq> words V" using live_in_words [OF inv] by auto
  have "(layout_size l + 7) div 8 \<le> (class_size i + 7) div 8" using i(2) by (intro div_le_mono) simp
  also have "\<dots> = class_size i div 8" using class_size_dvd(2) [of i] by (auto elim!: dvdE)
  finally have "\<And>j. j < layout_words l \<Longrightarrow> word_of a j \<in> blk (a, class_size i)"
    by (auto simp: blk_def layout_words_def)
  then have lw: "word_of a j \<in> words V" if "j < layout_words l" for j using blkV that by blast
  have "kspace ps (?us h) (kmemory h) V" using inv by (auto simp: kalloc_inv_def kvirt_inv_def)
  from load_words_words [OF this lw] obtain v0 where v: "load_words a (layout_words l) (kmemory h) = Some v0"
    by blast
  from release_block [OF inv c order_refl al] obtain g where
    g: "free_layout l a h = Some g" "kalloc_inv ps n (fl(i := a # fl i)) L g V" "sc_free (classes g ! i) = Some a"
    by blast
  have sp: "kspace ps (?us g) (kmemory g) V" and len: "i < length (classes g)"
    using g(2) class_len [OF g(2)] i by (auto simp: kalloc_inv_def kvirt_inv_def)
  have cg: "class_index (classes g) l = Some i" using c class_of_layout [OF inv] class_of_layout [OF g(2)] by blast
  have a: "a \<in> words V" using blkV start_in_class by blast
  from kw.writable [OF sp a, of a] a obtain s1 where
    s1: "vwrite a a (kmemory g) = Some s1" "kspace ps (?us g) s1 V" "vread s1 a = Some a" by auto
  let ?c = "(classes g ! i)\<lparr>sc_free := Some a\<rparr>"
  let ?h1 = "g\<lparr>classes := (classes g)[i := ?c], kmemory := s1\<rparr>"
  have f2: "free_layout l a g = Some ?h1"
    using cg s1(1) g(3) by (simp add: free_layout_def size_class_free_def add_free_def link_word_def)
  have b: "box_into_inner drop_in_place l a h = Some (v0, ?h1)"
    using v g(1) f2 d by (simp add: box_into_inner_def box_drop_def box_free_def global_dealloc_def)
  have c1: "sc_size ?c = class_size i" using class_sc_size [OF g(2) i(1)] by simp
  have ix: "class_index ((classes g)[i := x]) l = Some i" if "sc_size x = class_size i" for x
    using class_index_upd [OF len, of x l] class_sc_size [OF g(2) i(1)] cg that by simp
  have nz: "a \<noteq> 0" by (rule no_null_word [OF inv a])
  from take_head [OF s1(2) _ c1 i(1) blkV s1(3), of "kvirt g"] nz obtain s2 where
    s2: "size_class_alloc ?c (kvirt g) s1 = Some (Inr a, ?c, kvirt g, s2)" "kspace ps (?us g) s2 V" "vread s2 a = Some 0"
    by auto
  let ?h2 = "\<lparr>classes = (classes g)[i := ?c], kvirt = kvirt g, kmemory = s2\<rparr>"
  have a1: "alloc_layout l ?h1 = Some (Inr a, ?h2)" using s2(1) ix [OF c1] len by (simp add: alloc_layout_def)
  from take_head [OF s2(2) _ c1 i(1) blkV s2(3), of "kvirt g"] obtain s3 where
    "size_class_alloc ?c (kvirt g) s2 = Some (Inr a, ?c\<lparr>sc_free := None\<rparr>, kvirt g, s3)" by auto
  then have "\<exists>h3. alloc_layout l ?h2 = Some (Inr a, h3)" using ix [OF c1] len by (simp add: alloc_layout_def)
  then show ?thesis using b a1 by blast
qed

lemma into_inner_frees_twice_witness:
  "\<exists>a h value h1 h2 h3. box_into_inner (\<lambda>_. Some) \<lparr>layout_size = 100, layout_align = 16\<rparr> a h = Some (value, h1) \<and>
     alloc_layout \<lparr>layout_size = 100, layout_align = 16\<rparr> h1 = Some (Inr a, h2) \<and>
     alloc_layout \<lparr>layout_size = 100, layout_align = 16\<rparr> h2 = Some (Inr a, h3)"
proof -
  obtain a h ps n fl V where h: "kalloc_inv ps (Suc n) fl [(a, class_size 3)] h V" "class_size 3 dvd unat a"
    "class_index (classes h) \<lparr>layout_size = 100, layout_align = 16\<rparr> = Some 3" by (rule sample_block)
  from into_inner_frees_twice [OF h(1,3,2), of "\<lambda>_. Some"] show ?thesis by blast
qed

section \<open>Arc\<close>

datatype arc_op = ArcClone | ArcDrop

text \<open>The contract: a number of handles; \<open>None\<close> once the last one is dropped.\<close>

fun arc_spec :: "nat \<Rightarrow> arc_op list \<Rightarrow> nat option" where
  "arc_spec k [] = Some k"
| "arc_spec k (ArcClone # ops) = arc_spec (k + 1) ops"
| "arc_spec k (ArcDrop # ops) = (if k \<le> 1 then None else arc_spec (k - 1) ops)"

fun arc_run :: "bool \<Rightarrow> (u64 \<Rightarrow> kernel_heap \<Rightarrow> kernel_heap option) \<Rightarrow> u64 \<Rightarrow> arc_op list \<Rightarrow> kernel_heap
    \<Rightarrow> kernel_heap option" where
  "arc_run fat d ptr [] h = Some h"
| "arc_run fat d ptr (ArcClone # ops) h = do { (_, h) \<leftarrow> arc_clone ptr h; arc_run fat d ptr ops h }"
| "arc_run fat d ptr (ArcDrop # ops) h = do { h \<leftarrow> arc_drop fat d ptr h; arc_run fat d ptr ops h }"

text \<open>C28: \<open>Arc\<close> counts its handles.  Any sequence of clones and drops that leaves at least one
  handle alive keeps the object: the count in memory is the number of handles, no word but the count
  changes, the heap stays well formed and the destructor does not run.\<close>

theorem arc_counts_handles:
  assumes inv: "kalloc_inv ps n fl L h V" and b: "(a, m) \<in> set L" "8 \<le> m"
    and k: "vread (kmemory h) a = Some (of_nat k)" "k + length ops < 2 ^ 64" and sp: "arc_spec k ops = Some k'"
  shows "\<exists>h'. arc_run fat d a ops h = Some h' \<and> kalloc_inv ps n fl L h' V \<and>
     vread (kmemory h') a = Some (of_nat k') \<and> (\<forall>b \<in> words V - {a}. vread (kmemory h') b = vread (kmemory h) b)"
  using inv k sp
proof (induction ops arbitrary: k h)
  case Nil
  then show ?case by simp
next
  case (Cons op ops)
  note w = live_word(2) [OF Cons.prems(1) b]
  show ?case
  proof (cases op)
    case ArcClone
    from w [of "of_nat k + 1"] obtain s where
      s: "vwrite a (of_nat k + 1) (kmemory h) = Some s" "kalloc_inv ps n fl L (h\<lparr>kmemory := s\<rparr>) V"
        "vread s a = Some (of_nat k + 1)" "\<forall>b \<in> words V - {a}. vread s b = vread (kmemory h) b" by blast
    have "vread (kmemory (h\<lparr>kmemory := s\<rparr>)) a = Some (of_nat (k + 1))" using s(3) by (simp add: add.commute)
    from Cons.IH [OF s(2) this] Cons.prems(3,4) ArcClone obtain h' where
      h': "arc_run fat d a ops (h\<lparr>kmemory := s\<rparr>) = Some h'" "kalloc_inv ps n fl L h' V"
        "vread (kmemory h') a = Some (of_nat k')" "\<forall>b \<in> words V - {a}. vread (kmemory h') b = vread s b" by auto
    have "arc_run fat d a (op # ops) h = Some h'"
      using h'(1) s(1) Cons.prems(2) ArcClone by (simp add: arc_clone_def)
    then show ?thesis using h'(2-4) s(4) by (intro exI [of _ h']) simp
  next
    case ArcDrop
    then have k1: "1 < k" "arc_spec (k - 1) ops = Some k'" using Cons.prems(4) by (auto split: if_splits)
    have uk: "unat (of_nat k :: u64) = k"
      using Cons.prems(3) by (simp add: unat_of_nat)
    then have nz: "(of_nat k :: u64) \<noteq> 0" "(of_nat k :: u64) \<noteq> 1"
      using k1(1) by (auto simp: word_unat_eq_iff simp del: unat_of_nat)
    from w [of "of_nat k - 1"] obtain s where
      s: "vwrite a (of_nat k - 1) (kmemory h) = Some s" "kalloc_inv ps n fl L (h\<lparr>kmemory := s\<rparr>) V"
        "vread s a = Some (of_nat k - 1)" "\<forall>b \<in> words V - {a}. vread s b = vread (kmemory h) b" by blast
    have "vread (kmemory (h\<lparr>kmemory := s\<rparr>)) a = Some (of_nat (k - 1))" using s(3) k1(1) by simp
    moreover have "k - 1 + length ops < 2 ^ 64" using Cons.prems(3) by simp
    ultimately obtain h' where
      h': "arc_run fat d a ops (h\<lparr>kmemory := s\<rparr>) = Some h'" "kalloc_inv ps n fl L h' V"
        "vread (kmemory h') a = Some (of_nat k')" "\<forall>b \<in> words V - {a}. vread (kmemory h') b = vread s b"
      using Cons.IH [OF s(2) _ _ k1(2)] by auto
    have "arc_drop fat d a h = Some (h\<lparr>kmemory := s\<rparr>)"
      using s(1) Cons.prems(2) nz by (simp add: arc_drop_def)
    then have "arc_run fat d a (op # ops) h = Some h'" using h'(1) ArcDrop by simp
    then show ?thesis using h'(2-4) s(4) by (intro exI [of _ h']) simp
  qed
qed

text \<open>A heap with one reference counted object, of 100 bytes.\<close>

lemma sample_arc:
  obtains a h ps n fl V where "kalloc_inv ps (Suc n) fl [(a, class_size 3)] h V" "class_size 3 dvd unat a"
    "vread (kmemory h) a = Some (of_nat 1)"
proof -
  obtain a h ps n fl V where h: "kalloc_inv ps (Suc n) fl [(a, class_size 3)] h V" "class_size 3 dvd unat a"
    by (rule sample_block)
  from live_word(2) [OF h(1), of a "class_size 3" 1] obtain s where
    "kalloc_inv ps (Suc n) fl [(a, class_size 3)] (h\<lparr>kmemory := s\<rparr>) V" "vread s a = Some 1" by auto
  then show ?thesis using that [of ps n fl a "h\<lparr>kmemory := s\<rparr>" V] h(2) by simp
qed

theorem arc_counts_handles_witness:
  "\<exists>a h h'. vread (kmemory h) a = Some 1 \<and>
     arc_run False (\<lambda>_ _. None) a [ArcClone, ArcClone, ArcDrop] h = Some h' \<and> vread (kmemory h') a = Some 2"
proof -
  obtain a h ps n fl V where h: "kalloc_inv ps (Suc n) fl [(a, class_size 3)] h V" "class_size 3 dvd unat a"
    "vread (kmemory h) a = Some (of_nat 1)" by (rule sample_arc)
  have "(a, class_size 3) \<in> set [(a, class_size 3)]" "8 \<le> class_size 3"
    "1 + length [ArcClone, ArcClone, ArcDrop] < 2 ^ 64" "arc_spec 1 [ArcClone, ArcClone, ArcDrop] = Some 2"
    by simp_all
  from arc_counts_handles [OF h(1) this(1,2) h(3) this(3,4), of False "\<lambda>_ _. None"] h(3) show ?thesis by fastforce
qed

lemma ptr_layout_class:
  assumes "kalloc_inv ps n fl L h V"
  shows "class_index (classes h) (ptr_layout fat) = Some 0"
    "class_index (classes h) \<lparr>layout_size = 16, layout_align = 8\<rparr> = Some 0"
  unfolding class_of_layout [OF assms] by (simp_all add: ptr_layout_def)

text \<open>Dropping the last handle gives the block back with the layout of the pointer instead of the
  layout of the object: whatever its size, the block enters the list of the 16-byte class, from which
  the next small allocation takes it, and the rest of the block is lost.\<close>

lemma arc_drop_leaks_block:
  assumes inv: "kalloc_inv ps n fl ((a, class_size i) # L) h V" and al: "class_size i dvd unat a"
    and rc: "vread (kmemory h) a = Some 1" and d: "\<And>g. drop_in_place a g = Some g"
  shows "\<exists>h' h''. arc_drop fat drop_in_place a h = Some h' \<and> kalloc_inv ps n (fl(0 := a # fl 0)) L h' V \<and>
     alloc_layout \<lparr>layout_size = 16, layout_align = 8\<rparr> h' = Some (Inr a, h'')"
proof -
  have m: "8 \<le> class_size i" "class_size 0 \<le> class_size i" using class_size_ge [of i] by simp_all
  have "class_size 0 dvd class_size i" by (rule le_imp_power_dvd) simp
  then have al0: "class_size 0 dvd unat a" using al by (rule dvd_trans)
  from live_word(2) [OF inv _ m(1), of a 0] obtain s where
    s: "vwrite a 0 (kmemory h) = Some s" "kalloc_inv ps n fl ((a, class_size i) # L) (h\<lparr>kmemory := s\<rparr>) V" by auto
  from release_block [OF s(2) ptr_layout_class(1) [OF s(2), of fat] m(2) al0] obtain h' where
    h': "free_layout (ptr_layout fat) a (h\<lparr>kmemory := s\<rparr>) = Some h'" "kalloc_inv ps n (fl(0 := a # fl 0)) L h' V"
    by blast
  have dr: "arc_drop fat drop_in_place a h = Some h'" using rc s(1) h'(1) d by (simp add: arc_drop_def)
  from alloc_uninit_reuse [OF h'(2), of 0 a "fl 0"] obtain c t where
    t: "alloc_uninitialized (classes h' ! 0) (kvirt h') (kmemory h') = Some (Inr a, c, kvirt h', t)"
      "sc_size c = class_size 0"
      "kalloc_inv ps n ((fl(0 := a # fl 0))(0 := fl 0)) ((a, class_size 0) # L) (upd_class h' 0 (c, t)) V" by auto
  from zero_live [OF t(3)] obtain t' where "zero a (class_size 0) t = Some t'" by auto
  then have "alloc_layout \<lparr>layout_size = 16, layout_align = 8\<rparr> h' =
      Some (Inr a, \<lparr>classes = (classes h')[0 := c], kvirt = kvirt h', kmemory = t'\<rparr>)"
    using t(1,2) ptr_layout_class(2) [OF h'(2)] by (simp add: alloc_layout_def size_class_alloc_def)
  then show ?thesis using dr h'(2) by blast
qed

lemma arc_drop_leaks_block_witness:
  "\<exists>a h h' h''. arc_drop False (\<lambda>_. Some) a h = Some h' \<and>
     alloc_layout \<lparr>layout_size = 16, layout_align = 8\<rparr> h' = Some (Inr a, h'')"
proof -
  obtain a h ps n fl V where h: "kalloc_inv ps (Suc n) fl [(a, class_size 3)] h V" "class_size 3 dvd unat a"
    "vread (kmemory h) a = Some (of_nat 1)" by (rule sample_arc)
  from arc_drop_leaks_block [OF h(1,2), of "\<lambda>_. Some" False] h(3) show ?thesis by auto
qed

end
