(* ===== verification/Kernel_Entry.thy ===== *)
theory Kernel_Entry
  imports Syscall Critical_Mutex
begin

text \<open>
  The entry points of the kernel: the interrupt handler of \<open>kernel/src/interrupt.rs\<close>, the timer of
  \<open>kernel/src/device/pit.rs\<close>, the page fault handler of \<open>kernel/src/mem/fault.rs\<close>, the panic
  handler of \<open>kernel/src/panic.rs\<close>, the future of a running task (\<open>TaskRun::run_loop\<close> of
  \<open>kernel/src/task.rs\<close>) and the start-up of \<open>kernel/src/main.rs\<close>.

  \<^item> Here the components meet: the futures that the scheduler polls are the states of \<open>run_loop\<close> and of the
    first task, a value of \<open>task_future\<close>, and polling one runs system calls on the devices.  The scheduler of
    \<open>Task\<close> leaves the type of the allocator's state open; the devices and the open files are kept there
    (\<open>sys_of\<close>, \<open>kernel_of\<close>).
  \<^item> \<open>machine\<close> adds what only the handlers touch: the bytes written to I/O ports and the flags register.
  \<^item> The interrupts that arrive while the handler runs are outside the model, except for the flag that
    enables them.
\<close>

section \<open>State\<close>

text \<open>The suspension points of the tasks: not started, waiting for a trap, waiting for a key inside
  \<open>read_stream\<close>, and the first task before it has run.\<close>

datatype task_future =
    RunStart task_run
  | RunWait task_run
  | RunRead task_run nat user_slice
  | BootInit task_id

type_synonym ('d, 'a) mkernel = "(nat, filesystem, task_future, 'a \<times> 'd vfs_world \<times> vfs_file list) kernel"

definition sys_of :: "('d, 'a) mkernel \<Rightarrow> ('d, task_future, 'a) sys" where
  "sys_of k = (case heap k of (a, w, fs) \<Rightarrow>
     \<lparr>kern = \<lparr>mem = mem k, TASKS = TASKS k, TASK_STATES = TASK_STATES k, TASK_FUTURES = TASK_FUTURES k,
        CURRENT_TASK = CURRENT_TASK k, NEXT_TASK_ID = NEXT_TASK_ID k, TASK_HANDLES = TASK_HANDLES k, heap = a\<rparr>,
      world = w, files = fs\<rparr>)"

definition kernel_of :: "('d, task_future, 'a) sys \<Rightarrow> ('d, 'a) mkernel" where
  "kernel_of st = (let k = kern st in
     \<lparr>mem = mem k, TASKS = TASKS k, TASK_STATES = TASK_STATES k, TASK_FUTURES = TASK_FUTURES k,
      CURRENT_TASK = CURRENT_TASK k, NEXT_TASK_ID = NEXT_TASK_ID k, TASK_HANDLES = TASK_HANDLES k,
      heap = (heap k, world st, files st)\<rparr>)"

record ('d, 'a) machine =
  mkern :: "('d, 'a) mkernel"
  mports :: "(u16 \<times> u8) list"
  mflags :: u64

definition port_write :: "u16 \<Rightarrow> u8 \<Rightarrow> ('d, 'a) machine \<Rightarrow> ('d, 'a) machine" where
  "port_write p b m = m\<lparr>mports := mports m @ [(p, b)]\<rparr>"

text \<open>What the handlers need besides the parameters of the system calls: \<open>push_back\<close> of the third-party
  \<open>ArrayDeque\<close>, the bit of \<open>RFlags::INTERRUPT_FLAG\<close>, the driver of the disk and the channel's flags.\<close>

record ('d, 'a) entry_env =
  ssys :: "('d, task_future, 'a) sys_env"
  push_back :: "u8 list \<Rightarrow> u8 \<Rightarrow> u8 list option"
  if_bits :: u64
  ideenv :: "'d ide_env"
  ide_chan :: ide_channel

section \<open>task.rs: the future of a task\<close>

text \<open>The file and the slice that a suspended \<open>read_stream\<close> holds, computed as the call did.\<close>

definition pending_read :: "('d, 'fut, 'a) sys_env \<Rightarrow> registers \<Rightarrow> ('d, 'fut, 'a) sys \<Rightarrow> (nat \<times> user_slice) option" where
  "pending_read se rs st = do {
     f \<leftarrow> with_file (rdi rs) st;
     r \<leftarrow> borrow_slice_mut (from_bits se) (flags_contain se) (overflow_checks se) 1 (rsi rs) (rdx rs) (kmem_of st);
     (case (f, r) of (Inr fi, Inr sl) \<Rightarrow> Some (fi, sl) | _ \<Rightarrow> None) }"

text \<open>The loop of \<open>run_loop\<close> from the await of \<open>run()\<close> on, up to the next suspension.\<close>

partial_function (option) run_loop_poll :: "('d, task_future, 'a) sys_env \<Rightarrow> task_run \<Rightarrow> ('d, task_future, 'a) sys
    \<Rightarrow> (poll \<times> task_future \<times> ('d, task_future, 'a) sys) option" where
  "run_loop_poll se r st = Option.bind (task_resume_poll r (kern st)) (\<lambda>(p, r).
     case p of
       Pending \<Rightarrow> Some (Pending, RunWait r, st)
     | Ready \<Rightarrow> Option.bind (dispatch se (run_frame r) st) (\<lambda>(res, st').
         case res of
           PollPending \<Rightarrow> Option.bind (pending_read se (regs (run_frame r)) st)
             (\<lambda>(fi, sl). Some (Pending, RunRead r fi sl, st'))
         | PollReady f \<Rightarrow> Option.bind (task_run_run (r\<lparr>run_frame := f\<rparr>) (kern st'))
             (\<lambda>k. run_loop_poll se (r\<lparr>run_frame := f\<rparr>) (st'\<lparr>kern := k\<rparr>))))"

definition run_loop_start :: "('d, task_future, 'a) sys_env \<Rightarrow> task_run \<Rightarrow> ('d, task_future, 'a) sys
    \<Rightarrow> (poll \<times> task_future \<times> ('d, task_future, 'a) sys) option" where
  "run_loop_start se r st = do {
     k \<leftarrow> task_run_run r (kern st);
     run_loop_poll se r (st\<lparr>kern := k\<rparr>) }"

definition run_loop_resume :: "('d, task_future, 'a) sys_env \<Rightarrow> task_run \<Rightarrow> nat \<Rightarrow> user_slice \<Rightarrow> ('d, task_future, 'a) sys
    \<Rightarrow> (poll \<times> task_future \<times> ('d, task_future, 'a) sys) option" where
  "run_loop_resume se r fi sl st = do {
     (res, st) \<leftarrow> read_stream_io se fi sl st;
     (case res of
        PollPending \<Rightarrow> Some (Pending, RunRead r fi sl, st)
      | PollReady v \<Rightarrow>
          let f = run_frame r in
          run_loop_start se (r\<lparr>run_frame := f\<lparr>regs := (regs f)\<lparr>rax := encode_result v\<rparr>\<rparr>\<rparr>) st) }"

section \<open>main.rs: the first task\<close>

text \<open>Reading \<open>init.bin\<close> into pages at \<open>addr\<close>, one page at a time.\<close>

partial_function (option) load_init :: "('d, 'fut, 'a) sys_env \<Rightarrow> fat_file \<Rightarrow> u64 \<Rightarrow> ('d, 'fut, 'a) sys
    \<Rightarrow> ('d, 'fut, 'a) sys option" where
  "load_init se file addr st = Option.bind (phys_alloc (kmem_of st)) (\<lambda>(r, s).
     case r of
       Inl _ \<Rightarrow> None
     | Inr phys \<Rightarrow> Option.bind (page_map phys addr (PRESENT OR WRITE OR USER) s) (\<lambda>(r, s).
         case r of
           Inl _ \<Rightarrow> None
         | Inr _ \<Rightarrow> Option.bind (file_read (fenv se) file (unat PAGE_SIZE) (vdisk (world st))) (\<lambda>(r, bytes, file, d).
             case r of
               Inl _ \<Rightarrow> None
             | Inr n \<Rightarrow> Option.bind (write_bytes addr bytes s) (\<lambda>s.
                 let st = set_mem s (st\<lparr>world := (world st)\<lparr>vdisk := d\<rparr>\<rparr>) in
                 if n < unat PAGE_SIZE then Some st else load_init se file (addr + of_nat n) st))))"

definition INIT_NAME :: "u8 list" where
  "INIT_NAME = [0x69, 0x6e, 0x69, 0x74, 0x2e, 0x62, 0x69, 0x6e]"   \<comment> \<open>init.bin\<close>

text \<open>The disk from the drive to the open file: \<open>ide::open\<close>, \<open>detect\<close>, \<open>Mbr::open\<close> (one allocation),
  \<open>partitions\<close>, \<open>Fat16::open\<close> and the directory entry.\<close>

definition find_init :: "('d, 'a) entry_env \<Rightarrow> 'd \<Rightarrow> (filesystem \<times> fat_file \<times> 'd) option" where
  "find_init env d =
     (let fe = fenv (ssys env) in
      case ide_open DriveA (ide_chan env) of
        (Inl _, _) \<Rightarrow> None
      | (Inr drv, _) \<Rightarrow> do {
          (_, d) \<leftarrow> detect (ideenv env) PRIMARY_IO drv d;
          (case alloc fe d of (ok, d) \<Rightarrow>
            if \<not> ok then None else do {
              (r, d) \<leftarrow> mbr_partitions (ideenv env) PRIMARY_IO drv d;
              (case r of
                 Inr (Some part # _) \<Rightarrow> do {
                   (r, d) \<leftarrow> fat16_open fe part d;
                   (case r of
                      Inl _ \<Rightarrow> None
                    | Inr fs \<Rightarrow> do {
                        (r, d) \<leftarrow> directory_entry fe (fat16_root fs) INIT_NAME d;
                        (case r of
                           Inr (Some e) \<Rightarrow>
                             (case dir_entry_open fe e of
                                Inr (FatFile file) \<Rightarrow> Some (fs, file, d)
                              | _ \<Rightarrow> None)
                         | _ \<Rightarrow> None) }) }
               | _ \<Rightarrow> None) }) })"

definition INIT_ADDR :: u64 where "INIT_ADDR = 0x10000000"

definition boot_init :: "('d, 'a) entry_env \<Rightarrow> task_id \<Rightarrow> ('d, task_future, 'a) sys
    \<Rightarrow> (poll \<times> task_future \<times> ('d, task_future, 'a) sys) option" where
  "boot_init env t st = do {
     let se = ssys env;
     (fs, file, d) \<leftarrow> find_init env (vdisk (world st));
     let st = st\<lparr>world := (world st)\<lparr>vdisk := d\<rparr>\<rparr>;
     (case heap_new (al se) (kern st) of   \<comment> \<open>Arc::new(filesystem)\<close>
        (False, _) \<Rightarrow> None
      | (True, k) \<Rightarrow> do {
          k \<leftarrow> set_filesystem (Some fs) k;
          let r = task_setup t (trap_frame_new (if_bits env) INIT_ADDR 0);
          st \<leftarrow> load_init se file INIT_ADDR (st\<lparr>kern := k\<rparr>);
          (case heap_new (al se) (kern st) of   \<comment> \<open>ObjectRef::new(File::Console)\<close>
             (False, _) \<Rightarrow> None
           | (True, k) \<Rightarrow> do {
               (h, st) \<leftarrow> put_object se (ObjFile (length (files st))) (st\<lparr>kern := k, files := files st @ [VConsole]\<rparr>);
               (case h of Inl _ \<Rightarrow> None | Inr _ \<Rightarrow> run_loop_start se r st) }) }) }"

definition poll_future :: "('d, 'a) entry_env \<Rightarrow> (nat, filesystem, task_future, 'a \<times> 'd vfs_world \<times> vfs_file list) poller" where
  "poll_future env fut t k =
     map_option (\<lambda>(p, fut, st). (p, fut, kernel_of st))
       (case fut of
          RunStart r \<Rightarrow> run_loop_start (ssys env) r (sys_of k)
        | RunWait r \<Rightarrow> run_loop_poll (ssys env) r (sys_of k)
        | RunRead r fi sl \<Rightarrow> run_loop_resume (ssys env) r fi sl (sys_of k)
        | BootInit t' \<Rightarrow> boot_init env t' (sys_of k))"

section \<open>interrupt.rs, pit.rs, fault.rs\<close>

text \<open>\<open>Flags::from_bits\<close> of the page fault flags, then the handler, which panics in every case.\<close>

definition FAULT_ALL :: u64 where "FAULT_ALL = 0x007"

definition fault :: "trap_frame \<Rightarrow> u64 \<Rightarrow> u64 \<Rightarrow> 'r option" where
  "fault f flags address = None"

definition keyboard_irq :: "('d, 'a) entry_env \<Rightarrow> u8 \<Rightarrow> ('d, 'a) machine \<Rightarrow> ('d, 'a) machine" where
  "keyboard_irq env scancode m =
     (let k = mkern m in case heap k of (a, w, fs) \<Rightarrow>
      m\<lparr>mkern := k\<lparr>heap := (a, w\<lparr>keys := keyboard_interrupt (push_back env) scancode (keys w)\<rparr>, fs)\<rparr>\<rparr>)"

text \<open>The handler; \<open>scancode\<close> is what port 0x60 would give, \<open>cr2\<close> the faulting address.\<close>

definition interrupt_handler :: "('d, 'a) entry_env \<Rightarrow> u8 \<Rightarrow> u64 \<Rightarrow> trap_frame \<Rightarrow> ('d, 'a) machine
    \<Rightarrow> (trap_frame \<times> ('d, 'a) machine) option" where
  "interrupt_handler env scancode cr2 f m = do {
     let m = m\<lparr>mflags := sti (mflags m)\<rparr>;
     (case frame_interrupt f of
        Irq irq \<Rightarrow> do {
          (f, m) \<leftarrow>
            (if irq = 0 then do {
               orig \<leftarrow> frame_origin f;
               (case orig of
                  FromUser \<Rightarrow> do {
                    (f, k) \<leftarrow> switch (poll_future env) f (mkern m);
                    Some (f, m\<lparr>mkern := k\<rparr>) }
                | FromKernel \<Rightarrow> Some (f, m)) }
             else Some (f, m));
          let m = (if irq = 1 then keyboard_irq env scancode m else m);
          let m = port_write 0x20 0x20 m;
          let m = (if irq \<ge> 0x08 then port_write 0xa0 0x20 m else m);
          Some (f, m) }
      | Named PageFault \<Rightarrow> do {
          flags \<leftarrow> from_bits (ssys env) FAULT_ALL (error_code f);
          fault f flags cr2 }
      | Named SyscallVector \<Rightarrow> do {
          orig \<leftarrow> frame_origin f;
          (case orig of
             FromUser \<Rightarrow> do {
               (f, k) \<leftarrow> dispatch_syscall (poll_future env) f (mkern m);
               Some (f, m\<lparr>mkern := k\<rparr>) }
           | FromKernel \<Rightarrow> None) }
      | Named _ \<Rightarrow> None
      | Other _ \<Rightarrow> None) }"

definition PIT_FREQ :: nat where "PIT_FREQ = 1193182"

text \<open>Both run in critical sections; the section restores the flag.\<close>

definition set_frequency :: "nat \<Rightarrow> ('d, 'a) machine \<Rightarrow> ('d, 'a) machine option" where
  "set_frequency hz m =
     (if hz = 0 then None
      else
        let divisor = min (PIT_FREQ div hz) 65535;
            (crit, fl) = critical_begin (mflags m);
            m = m\<lparr>mflags := fl\<rparr>;
            m = port_write 0x40 (of_nat (divisor mod 0x100)) m;
            m = port_write 0x40 (of_nat (divisor div 0x100 mod 0x100)) m in
        Some (m\<lparr>mflags := critical_drop crit (mflags m)\<rparr>))"

definition pit_init :: "('d, 'a) machine \<Rightarrow> ('d, 'a) machine option" where
  "pit_init m = (case critical_begin (mflags m) of (crit, fl) \<Rightarrow> do {
     m \<leftarrow> set_frequency 20 (port_write 0x43 0x34 (m\<lparr>mflags := fl\<rparr>));
     Some (m\<lparr>mflags := critical_drop crit (mflags m)\<rparr>) })"

section \<open>main.rs: start-up\<close>

text \<open>\<open>object::init\<close> and \<open>keyboard::init\<close> on the kernel state; the section \<open>crit\<close> ends before
  \<open>task::init\<close>.\<close>

definition kernel_main :: "('d, 'a) entry_env \<Rightarrow> ('d, 'a) machine \<Rightarrow> (trap_frame \<times> ('d, 'a) machine) option" where
  "kernel_main env m = (case critical_begin (mflags m) of (crit, fl) \<Rightarrow> do {
     let m = m\<lparr>mflags := fl\<rparr>;
     s \<leftarrow> init_ref_counts (mem (mkern m));
     s \<leftarrow> init_kernel_pml4_entries s;
     let m = m\<lparr>mkern := (mkern m)\<lparr>mem := s, TASK_HANDLES := object_init\<rparr>\<rparr>;
     m \<leftarrow> pit_init m;
     let k = mkern m;
     let m = m\<lparr>mkern := k\<lparr>heap := (case heap k of (a, w, fs) \<Rightarrow> (a, w\<lparr>keys := keyboard_init\<rparr>, fs))\<rparr>\<rparr>;
     let m = m\<lparr>mflags := critical_drop crit (mflags m)\<rparr>;
     let st = sys_of (task_init (mkern m));
     (page_ctx, s) \<leftarrow> current_ctx (kmem_of st);
     (case heap_new (al (ssys env)) (kern (set_mem s st)) of   \<comment> \<open>ObjectRef::new\<close>
        (False, _) \<Rightarrow> None
      | (True, k) \<Rightarrow> do {
          (r, k) \<leftarrow> spawn (al (ssys env)) (ObjPageCtx page_ctx) None BootInit k;
          (case r of
             Inl _ \<Rightarrow> None   \<comment> \<open>expect: task::spawn init\<close>
           | Inr _ \<Rightarrow> do {
               (f, k) \<leftarrow> start (if_bits env) (poll_future env) (kernel_of (st\<lparr>kern := k\<rparr>));
               Some (f, m\<lparr>mkern := k\<rparr>) }) }) })"

section \<open>panic.rs\<close>

text \<open>\<open>console::failsafe\<close> writes to port 0xe9 whatever the console is.  The message and the place are the
  pieces that \<open>fmt::write\<close> produces; the processor halts afterwards.\<close>

definition failsafe_write :: "u8 list \<Rightarrow> console_state \<Rightarrow> console_state" where
  "failsafe_write s c = c\<lparr>port_e9 := port_e9 c @ s\<rparr>"

definition ascii :: "string \<Rightarrow> u8 list" where
  "ascii = map (\<lambda>c. of_nat (of_char c))"

definition panic_write :: "u8 list list option \<Rightarrow> (u8 list \<times> u8 list) option \<Rightarrow> console_state \<Rightarrow> console_state" where
  "panic_write message location c =
     (let c = failsafe_write [0x0a] c;
          c = (case message of
                 Some args \<Rightarrow> failsafe_write [0x0a] (fold failsafe_write args (failsafe_write (ascii ''*** PANIC: '') c))
               | None \<Rightarrow> failsafe_write (ascii ''*** PANIC'' @ [0x0a]) c);
          c = (case location of
                 Some (file, line) \<Rightarrow>
                   fold failsafe_write [ascii ''    at '', file, ascii '':'', line, [0x0a]] c
               | None \<Rightarrow> c) in
      failsafe_write [0x0a] c)"

definition kernel_panic :: "u8 list list option \<Rightarrow> (u8 list \<times> u8 list) option \<Rightarrow> bool \<times> console_state \<times> u64
    \<Rightarrow> bool \<times> console_state \<times> u64" where
  "kernel_panic message location = (\<lambda>(PANICKING, c, fl).
     let (crit, fl) = critical_begin fl;
         c = (if PANICKING
              then failsafe_write ([0x0a, 0x0a] @ ascii ''*** PANIC while panicking, halt'' @ [0x0a, 0x0a]) c
              else panic_write message location c) in
     (True, c, cli fl))"

end
