(* ===== verification/Entry_Contract.thy ===== *)
theory Entry_Contract
  imports Kernel_Entry Task_Contract Syscall_Contract
begin

text \<open>
  Properties of the entry points: what the interrupt handler acknowledges, what it refuses, and the
  path of a system call through the handler, the scheduler, the future of the task and the dispatch
  and back to the program.
\<close>

section \<open>Two views of the state\<close>

lemma sys_kernel [simp]: "sys_of (kernel_of st) = st" "kernel_of (sys_of k) = k"
  by (simp_all add: sys_of_def kernel_of_def Let_def split: prod.split)

lemma kern_sys_of [simp]:
  "TASKS (kern (sys_of k)) = TASKS k" "TASK_STATES (kern (sys_of k)) = TASK_STATES k"
  "TASK_FUTURES (kern (sys_of k)) = TASK_FUTURES k" "CURRENT_TASK (kern (sys_of k)) = CURRENT_TASK k"
  "mem (kern (sys_of k)) = mem k"
  by (simp_all add: sys_of_def split: prod.split)

lemma kernel_of_fields [simp]:
  "TASKS (kernel_of st) = TASKS (kern st)" "TASK_STATES (kernel_of st) = TASK_STATES (kern st)"
  "TASK_FUTURES (kernel_of st) = TASK_FUTURES (kern st)" "CURRENT_TASK (kernel_of st) = CURRENT_TASK (kern st)"
  "mem (kernel_of st) = mem (kern st)"
  by (simp_all add: kernel_of_def Let_def)

lemma kernel_of_set_state [simp]:
  "kernel_of (st\<lparr>kern := set_state t s (kern st)\<rparr>) = set_state t s (kernel_of st)"
  by (simp add: kernel_of_def set_state_def Let_def)

section \<open>What system calls leave alone\<close>

text \<open>The tasks of the kernel: only \<open>CreateTask\<close> changes them.\<close>

definition same_tasks :: "('file, 'fs, 'fut, 'a) kernel \<Rightarrow> ('file, 'fs, 'fut, 'a) kernel \<Rightarrow> bool" where
  "same_tasks k k' \<longleftrightarrow> TASKS k' = TASKS k \<and> TASK_STATES k' = TASK_STATES k \<and> TASK_FUTURES k' = TASK_FUTURES k \<and>
     CURRENT_TASK k' = CURRENT_TASK k"

lemma same_tasks_simps [simp]:
  "same_tasks k k" "same_tasks k (set_heap a k') = same_tasks k k'" "same_tasks k (k'\<lparr>TASK_HANDLES := th\<rparr>) = same_tasks k k'"
  by (simp_all add: same_tasks_def set_heap_def)

lemma same_tasks_set_mem [simp]:
  "same_tasks k (kern (set_mem s st)) = same_tasks k (kern st)" "same_tasks (kern (set_mem s st)) k = same_tasks (kern st) k"
  by (simp_all add: same_tasks_def set_mem_def)

text \<open>The branches of a computation that returns.\<close>

lemma sum_caseE:
  assumes "(case x of Inl a \<Rightarrow> f a | Inr b \<Rightarrow> g b) = Some z"
  obtains a where "x = Inl a" "f a = Some z" | b where "x = Inr b" "g b = Some z"
  using assms by (cases x) auto

lemma option_caseE:
  assumes "(case x of None \<Rightarrow> f | Some b \<Rightarrow> g b) = Some z"
  obtains "x = None" "f = Some z" | b where "x = Some b" "g b = Some z"
  using assms by (cases x) auto

lemma heap_caseE:
  assumes "(case heap_new alc k of (False, k) \<Rightarrow> f k | (True, k) \<Rightarrow> g k) = Some z"
  obtains k' where "heap_new alc k = (False, k')" "f k' = Some z" | k' where "heap_new alc k = (True, k')" "g k' = Some z"
  using assms by (auto split: prod.splits bool.splits)

lemma polled_caseE:
  assumes "(case x of PollPending \<Rightarrow> f | PollReady b \<Rightarrow> g b) = Some z"
  obtains "x = PollPending" "f = Some z" | b where "x = PollReady b" "g b = Some z"
  using assms by (cases x) auto

lemmas call_cases = sum_caseE option_caseE heap_caseE polled_caseE

lemma heap_new_tasks: "heap_new alc k = (ok, k') \<Longrightarrow> same_tasks k k'"
  by (auto simp: heap_new_def split: prod.splits)

lemma put_object_tasks: "put_object se obj st = Some (r, st') \<Longrightarrow> same_tasks (kern st) (kern st')"
  by (auto simp: put_object_def option_monad)

lemma same_tasks_trans: "same_tasks k k1 \<Longrightarrow> same_tasks k1 k2 \<Longrightarrow> same_tasks k k2"
  by (simp add: same_tasks_def)

lemma pages_tasks:
  "sys_alloc_page se a b c st = Some (r, st') \<Longrightarrow> same_tasks (kern st) (kern st')"
  "sys_release_page se a b st = Some (r, st') \<Longrightarrow> same_tasks (kern st) (kern st')"
  "sys_modify_page se a b c st = Some (r, st') \<Longrightarrow> same_tasks (kern st) (kern st')"
  "sys_map_physical_memory se a b c d st = Some (r, st') \<Longrightarrow> same_tasks (kern st) (kern st')"
  by (auto simp: sys_alloc_page_def sys_release_page_def sys_modify_page_def sys_map_physical_memory_def option_monad Let_def
      elim!: call_cases)

lemma handles_tasks:
  "sys_clone_handle se h st = Some (r, st') \<Longrightarrow> same_tasks (kern st) (kern st')"
  "sys_release_handle h st = Some (r, st') \<Longrightarrow> same_tasks (kern st) (kern st')"
  "sys_set_page_context h st = Some (r, st') \<Longrightarrow> same_tasks (kern st) (kern st')"
  "sys_get_page_context se st = Some (r, st') \<Longrightarrow> same_tasks (kern st) (kern st')"
  by (auto simp: sys_clone_handle_def sys_release_handle_def sys_set_page_context_def sys_get_page_context_def option_monad
      elim!: call_cases dest: put_object_tasks)

lemma create_ctx_tasks:
  "sys_create_page_context se st = Some (r, st') \<Longrightarrow> same_tasks (kern st) (kern st')"
  by (auto simp: sys_create_page_context_def option_monad elim!: call_cases dest!: heap_new_tasks put_object_tasks)
    (metis same_tasks_trans)+

lemma open_file_tasks:
  "sys_open_file se a b c st = Some (r, st') \<Longrightarrow> same_tasks (kern st) (kern st')"
  by (auto simp: sys_open_file_def option_monad Let_def elim!: call_cases dest!: heap_new_tasks put_object_tasks)
    (metis same_tasks_trans)+

lemma streams_tasks:
  "sys_read_stream se h a b st = Some (r, st') \<Longrightarrow> same_tasks (kern st) (kern st')"
  "sys_write_stream se h a b st = Some (q, st') \<Longrightarrow> same_tasks (kern st) (kern st')"
  by (auto simp: sys_read_stream_def read_stream_io_def sys_write_stream_def option_monad Let_def
      elim!: call_cases split: if_splits)

lemma ready_tasks:
  assumes "ready c st = Some (r, st')" "\<And>q. c st = Some (q, st') \<Longrightarrow> same_tasks (kern st) (kern st')"
  shows "same_tasks (kern st) (kern st')"
  using assms by (auto simp: ready_def)

lemma with_handle_tasks:
  assumes "with_handle h c st = Some (r, st')" "\<And>h. c h st = Some (r, st') \<Longrightarrow> same_tasks (kern st) (kern st')"
  shows "same_tasks (kern st) (kern st')"
  using assms by (auto simp: with_handle_def split: sum.splits)

lemma dispatch0_tasks:
  assumes d: "dispatch0 se rs st = Some (r, st')" and c: "rax rs \<noteq> vector_code CreateTask"
  shows "same_tasks (kern st) (kern st')"
proof (cases "enum64_try_from syscall_table (rax rs)")
  case None
  then show ?thesis using d by (simp add: dispatch0_def)
next
  case (Some call)
  have "call \<noteq> CreateTask"
  proof
    assume "call = CreateTask"
    then have "enum64_as_u64 syscall_table CreateTask = Some (rax rs)" using Some enum64_inverse [OF syscalls.table_ok] by simp
    then show False using c by (simp add: vector_code_def)
  qed
  then show ?thesis
    using d Some unfolding dispatch0_def
    by (cases call) (auto simp: sys_debug_def sys_exit_def u64_from_reg_def
      elim!: ready_tasks with_handle_tasks dest: pages_tasks handles_tasks create_ctx_tasks open_file_tasks streams_tasks)
qed

section \<open>The path of a system call\<close>

definition set_future :: "task_id \<Rightarrow> 'fut \<Rightarrow> ('file, 'fs, 'fut, 'a) kernel \<Rightarrow> ('file, 'fs, 'fut, 'a) kernel" where
  "set_future t fut k = k\<lparr>TASK_FUTURES := btree_update (TASK_FUTURES k) t (\<lambda>_. fut)\<rparr>"

lemma set_future_fields [simp]:
  "TASKS (set_future t fut k) = TASKS k" "TASK_STATES (set_future t fut k) = TASK_STATES k"
  "CURRENT_TASK (set_future t fut k) = CURRENT_TASK k" "mem (set_future t fut k) = mem k"
  "heap (set_future t fut k) = heap k" "TASK_HANDLES (set_future t fut k) = TASK_HANDLES k"
  by (simp_all add: set_future_def)

lemma set_future_inv:
  assumes inv: "sched_inv k" and t: "t \<in> dom (btree_get (TASKS k))"
  shows "sched_inv (set_future t fut k)" "btree_get (TASK_FUTURES (set_future t fut k)) = (btree_get (TASK_FUTURES k))(t \<mapsto> fut)"
proof -
  have m: "map_inv (TASK_FUTURES k)" using inv by (simp add: sched_inv_def)
  obtain old where old: "btree_get (TASK_FUTURES k) t = Some old" using sched_inv_state(2) [OF inv t] by blast
  note u = bt.update_law [OF m, of t "\<lambda>_. fut"]
  then show g: "btree_get (TASK_FUTURES (set_future t fut k)) = (btree_get (TASK_FUTURES k))(t \<mapsto> fut)"
    using old by (simp add: set_future_def)
  have "dom (btree_get (TASK_FUTURES (set_future t fut k))) = dom (btree_get (TASK_FUTURES k))" "map_inv (TASK_FUTURES (set_future t fut k))"
    using g old u by (auto simp: set_future_def)
  then show "sched_inv (set_future t fut k)" using inv by (simp add: sched_inv_def)
qed

lemma enter_task_tasks:
  "enter_task t k = Some k1 \<Longrightarrow> TASKS k1 = TASKS k \<and> TASK_STATES k1 = TASK_STATES k \<and> TASK_FUTURES k1 = TASK_FUTURES k \<and> CURRENT_TASK k1 = Some t"
  by (auto simp: enter_task_def option_monad)

text \<open>One poll of a task that waits in its loop and has a system call to serve.\<close>

lemma run_loop_call:
  assumes s: "btree_get (TASK_STATES (kern st)) t = Some (SyscallEntry f)" and r: "run_task r = t"
    and m: "map_inv (TASK_STATES (kern st))"
    and call: "dispatch0 se (regs f) st = Some (PollReady v, st')" and no: "rax (regs f) \<noteq> vector_code CreateTask"
  shows "run_loop_poll se r st = (let f' = f\<lparr>regs := (regs f)\<lparr>rax := encode_result v\<rparr>\<rparr> in
     Some (Pending, RunWait (r\<lparr>run_frame := f'\<rparr>), st'\<lparr>kern := set_state t (StUser f') (kern st')\<rparr>))"
proof -
  let ?f = "f\<lparr>regs := (regs f)\<lparr>rax := encode_result v\<rparr>\<rparr>" let ?r = "r\<lparr>run_frame := ?f\<rparr>"
  let ?st = "st'\<lparr>kern := set_state t (StUser ?f) (kern st')\<rparr>"
  have same: "TASK_STATES (kern st') = TASK_STATES (kern st)" using dispatch0_tasks [OF call no] by (simp add: same_tasks_def)
  have "dispatch se f st = Some (PollReady ?f, st')" using call by (simp add: dispatch_def)
  moreover have "task_resume_poll r (kern st) = Some (Ready, r\<lparr>run_frame := f\<rparr>)"
    using s r by (simp add: task_resume_poll_def)
  moreover have "task_run_run ?r (kern st') = Some (set_state t (StUser ?f) (kern st'))"
    using s r same by (simp add: task_run_run_def)
  moreover have "btree_get (TASK_STATES (set_state t (StUser ?f) (kern st'))) t = Some (StUser ?f)"
    using set_state_get(1) [of "kern st'" t] s m same by simp
  then have "run_loop_poll se ?r ?st = Some (Pending, RunWait ?r, ?st)"
    using r by (subst run_loop_poll.simps) (simp add: task_resume_poll_def)
  ultimately show ?thesis by (subst run_loop_poll.simps) (simp add: Let_def)
qed

text \<open>When the scheduler comes to the task.\<close>

lemma served:
  assumes inv: "sched_inv k" and nx: "filter (awake k) (cyc p (task_ids k)) = t # ts"
    and s: "btree_get (TASK_STATES k) t = Some (SyscallEntry f)"
    and fut: "btree_get (TASK_FUTURES k) t = Some (RunWait r)" "run_task r = t" and en: "enter_task t k = Some k1"
    and call: "dispatch0 (ssys env) (regs f) (sys_of k1) = Some (PollReady v, st')" and no: "rax (regs f) \<noteq> vector_code CreateTask"
  defines "f' \<equiv> f\<lparr>regs := (regs f)\<lparr>rax := encode_result v\<rparr>\<rparr>"
  defines "k' \<equiv> set_future t (RunWait (r\<lparr>run_frame := f'\<rparr>)) (set_state t (StUser f') (kernel_of st'))"
  shows "switch_loop (poll_future env) (Some p) k = switch_loop (poll_future env) (Some t) k'"
    "sched_inv k'" "TASKS k' = TASKS k" "btree_get (TASK_STATES k') = (btree_get (TASK_STATES k))(t \<mapsto> StUser f')"
    "btree_get (TASK_FUTURES k') = (btree_get (TASK_FUTURES k))(t \<mapsto> RunWait (r\<lparr>run_frame := f'\<rparr>))" "CURRENT_TASK k' = Some t"
proof -
  note e = enter_task_tasks [OF en]
  have st': "TASKS (kernel_of st') = TASKS k" "TASK_STATES (kernel_of st') = TASK_STATES k"
    "TASK_FUTURES (kernel_of st') = TASK_FUTURES k" "CURRENT_TASK (kernel_of st') = Some t"
    using dispatch0_tasks [OF call no] e by (simp_all add: same_tasks_def)
  have m: "map_inv (TASK_STATES k)" using inv by (simp add: sched_inv_def)
  have t: "t \<in> dom (btree_get (TASKS k))" using inv s by (auto simp: sched_inv_def)
  have i1: "sched_inv (kernel_of st')" using inv t st' by (simp add: sched_inv_def)
  have i2: "sched_inv (set_state t (StUser f') (kernel_of st'))" by (rule set_state_inv [OF i1])
  have t2: "t \<in> dom (btree_get (TASKS (set_state t (StUser f') (kernel_of st'))))" using t st' by simp
  note fu = set_future_inv [OF i2 t2, of "RunWait (r\<lparr>run_frame := f'\<rparr>)"]
  show "sched_inv k'" "TASKS k' = TASKS k" "CURRENT_TASK k' = Some t"
    "btree_get (TASK_FUTURES k') = (btree_get (TASK_FUTURES k))(t \<mapsto> RunWait (r\<lparr>run_frame := f'\<rparr>))"
    using fu st' by (simp_all add: k'_def)
  show "btree_get (TASK_STATES k') = (btree_get (TASK_STATES k))(t \<mapsto> StUser f')"
    using set_state_get(1) [of "kernel_of st'" t "StUser f'"] st' m s by (simp add: k'_def)
  have "run_loop_poll (ssys env) r (sys_of k1) =
      Some (Pending, RunWait (r\<lparr>run_frame := f'\<rparr>), st'\<lparr>kern := set_state t (StUser f') (kern st')\<rparr>)"
    using run_loop_call [OF _ fut(2) _ call no] s m e by (simp add: f'_def Let_def)
  then have p: "poll_future env (RunWait r) t k1 =
      Some (Pending, RunWait (r\<lparr>run_frame := f'\<rparr>), set_state t (StUser f') (kernel_of st'))"
    by (simp add: poll_future_def)
  have fn: "find_next_work_item (Some p) k = Some (t, work_of k t)" using find_next_ok [OF inv, of "Some p"] nx by simp
  have w: "work_of k t = KernelWork (RunWait r)" using s fut(1) by (simp add: work_of_def)
  show "switch_loop (poll_future env) (Some p) k = switch_loop (poll_future env) (Some t) k'"
    using fn w en p by (subst switch_loop.simps) (simp add: k'_def set_future_def)
qed

text \<open>A task in user mode that is alone awake goes on when its page context can be loaded.\<close>

lemma cyc_alone: "filter P (cyc p xs) = [t] \<Longrightarrow> filter P (cyc (t :: 'k :: linorder) xs) = [t]"
proof -
  assume a: "filter P (cyc p xs) = [t]"
  have "length (cyc p (filter P xs)) = length (filter P xs)" "set (cyc p (filter P xs)) = set (filter P xs)"
    using sum_length_filter_compl [of "\<lambda>x. p < x" "filter P xs"] by (auto simp: cyc_def not_less)
  then have "filter P xs = [t]" using a unfolding filter_cyc by (cases "filter P xs") auto
  then show ?thesis unfolding filter_cyc by (simp add: cyc_def)
qed

lemma alone_returns:
  assumes "sched_inv k" "filter (awake k) (cyc t (task_ids k)) = [t]" "btree_get (TASK_STATES k) t = Some (StUser f)"
  shows "switch_loop poll (Some t) k = map_option (Pair f) (enter_task t k)"
proof -
  have "find_next_work_item (Some t) k = Some (t, UserWork f)"
    using find_next_ok [OF assms(1), of "Some t"] assms(2,3) by (simp add: work_of_def)
  then show ?thesis by (subst switch_loop.simps) (cases "enter_task t k"; simp)
qed

text \<open>C29: The life of a system call, with any number of tasks.  The trap of a user program puts the frame into the state of
  its task and enters the loop of the scheduler.  Whenever that loop, now or at a later switch, comes to the task, and the task waits in
  its \<open>run_loop\<close>, the call is dispatched on the state as it is then.  If the call is ready at once and is not
  \<open>CreateTask\<close> (which adds a task), the loop goes on after the task with these changes: the effects of the call on memory, heap,
  devices, files and handles; the task is in user mode again, with the frame of the trap in which
  only \<open>rax\<close> is changed, to the result; its future waits for the next trap; no other task has changed; and the
  invariant of the scheduler holds.  When no other task is awake, the loop returns this frame to the program, provided the
  page context of the task can be loaded again.\<close>

theorem system_call_returns:
  assumes trap: "frame_interrupt f = Named SyscallVector" "frame_origin f = Some FromUser" "sched_inv (mkern m)"
      "CURRENT_TASK (mkern m) = Some t" "btree_get (TASK_STATES (mkern m)) t = Some (StUser g)"
    and later: "sched_inv k" "filter (awake k) (cyc p (task_ids k)) = t # ts"
      "btree_get (TASK_STATES k) t = Some (SyscallEntry f)"
      "btree_get (TASK_FUTURES k) t = Some (RunWait r)" "run_task r = t" "enter_task t k = Some k1"
    and call: "dispatch0 (ssys env) (regs f) (sys_of k1) = Some (PollReady v, st')" "rax (regs f) \<noteq> vector_code CreateTask"
  shows "interrupt_handler env sc cr2 f m =
      map_option (\<lambda>(f', k'). (f', m\<lparr>mflags := sti (mflags m), mkern := k'\<rparr>))
        (switch_loop (poll_future env) (Some t) (set_state t (SyscallEntry f) (mkern m))) \<and>
    (\<exists>k' f'. f' = f\<lparr>regs := (regs f)\<lparr>rax := encode_result v\<rparr>\<rparr> \<and>
      switch_loop (poll_future env) (Some p) k = switch_loop (poll_future env) (Some t) k' \<and>
      (ts = [] \<longrightarrow> switch_loop (poll_future env) (Some p) k = map_option (Pair f') (enter_task t k')) \<and>
      sched_inv k' \<and> CURRENT_TASK k' = Some t \<and> TASKS k' = TASKS k \<and>
      btree_get (TASK_STATES k') = (btree_get (TASK_STATES k))(t \<mapsto> StUser f') \<and>
      btree_get (TASK_FUTURES k') = (btree_get (TASK_FUTURES k))(t \<mapsto> RunWait (r\<lparr>run_frame := f'\<rparr>)) \<and>
      mem k' = kmem_of st' \<and> heap k' = (heap (kern st'), world st', files st') \<and> TASK_HANDLES k' = TASK_HANDLES (kern st'))"
proof
  let ?k = "set_state t (SyscallEntry f) (mkern m)"
  have "switch (poll_future env) f ?k = switch_loop (poll_future env) (Some t) ?k"
  proof -
    have "btree_get (TASK_STATES ?k) t = Some (SyscallEntry f)"
      using set_state_get(1) [of "mkern m" t] trap(3,5) by (simp add: sched_inv_def)
    then show ?thesis using trap(4) by (simp add: switch_def save_current_task_def)
  qed
  then show "interrupt_handler env sc cr2 f m =
      map_option (\<lambda>(f', k'). (f', m\<lparr>mflags := sti (mflags m), mkern := k'\<rparr>)) (switch_loop (poll_future env) (Some t) ?k)"
    using trap by (cases "switch_loop (poll_future env) (Some t) ?k") (auto simp: interrupt_handler_def dispatch_syscall_def)
next
  let ?f = "f\<lparr>regs := (regs f)\<lparr>rax := encode_result v\<rparr>\<rparr>"
  let ?k = "set_future t (RunWait (r\<lparr>run_frame := ?f\<rparr>)) (set_state t (StUser ?f) (kernel_of st'))"
  note k' = served [OF later call]
  have "awake ?k = awake k" using k'(4) later(3) by (auto simp: awake_def fun_eq_iff)
  then have "ts = [] \<Longrightarrow> filter (awake ?k) (cyc t (task_ids ?k)) = [t]"
    using cyc_alone [of "awake k" p "task_ids k" t] later(2) k'(3) by (simp add: task_ids_def)
  then have "ts = [] \<Longrightarrow> switch_loop (poll_future env) (Some p) k = map_option (Pair ?f) (enter_task t ?k)"
    using alone_returns [OF k'(2)] k'(1,4) by simp
  moreover have "mem ?k = kmem_of st'" "heap ?k = (heap (kern st'), world st', files st')" "TASK_HANDLES ?k = TASK_HANDLES (kern st')"
    by (simp_all add: set_state_def kernel_of_def Let_def)
  ultimately show "\<exists>k' f'. f' = ?f \<and>
      switch_loop (poll_future env) (Some p) k = switch_loop (poll_future env) (Some t) k' \<and>
      (ts = [] \<longrightarrow> switch_loop (poll_future env) (Some p) k = map_option (Pair f') (enter_task t k')) \<and>
      sched_inv k' \<and> CURRENT_TASK k' = Some t \<and> TASKS k' = TASKS k \<and>
      btree_get (TASK_STATES k') = (btree_get (TASK_STATES k))(t \<mapsto> StUser f') \<and>
      btree_get (TASK_FUTURES k') = (btree_get (TASK_FUTURES k))(t \<mapsto> RunWait (r\<lparr>run_frame := f'\<rparr>)) \<and>
      mem k' = kmem_of st' \<and> heap k' = (heap (kern st'), world st', files st') \<and> TASK_HANDLES k' = TASK_HANDLES (kern st')"
    using k' by (intro exI [of _ ?k] exI [of _ ?f] conjI impI) simp_all
qed

section \<open>A sample machine\<close>

text \<open>One task, in user mode, on the sample memory; the parameters as the third-party crates document
  them.\<close>

definition sample_env :: "(ata_dev, unit) entry_env" where
  "sample_env = \<lparr>ssys = \<lparr>al = (\<lambda>a. (True, a)), fenv = disk_env, isp = sample_intersperse, from_bits = sample_from_bits,
       flags_contain = sample_contains, overflow_checks = True,
       run_loop = (\<lambda>t ip sp. RunStart (task_setup t (trap_frame_new 0x200 ip sp)))\<rparr>,
     push_back = (\<lambda>q b. if length q < 32 then Some (q @ [b]) else None), if_bits = 0x200,
     ideenv = ata_env, ide_chan = ide_channel_new\<rparr>"

definition sample_mkernel :: "(ata_dev, unit) mkernel" where
  "sample_mkernel = \<lparr>mem = sample,
     TASKS = leaf_map [(1, \<lparr>task_ident = 1, task_page_ctx = ObjPageCtx 0x1000, task_filesystem = None\<rparr>)],
     TASK_STATES = leaf_map [(1, StUser (user_frame 0x1000))],
     TASK_FUTURES = leaf_map [(1, RunWait (task_setup 1 (user_frame 0x1000)))],
     CURRENT_TASK = Some 1, NEXT_TASK_ID = 2, TASK_HANDLES = object_init, heap = ((), sample_world, [])\<rparr>"

definition sample_machine :: "(ata_dev, unit) machine" where
  "sample_machine = \<lparr>mkern = sample_mkernel, mports = [], mflags = 0\<rparr>"

definition trap_with :: "u64 \<Rightarrow> u64 \<Rightarrow> trap_frame" where
  "trap_with vector a = (user_frame 0x1000)\<lparr>interrupt_vector := vector, regs := default_registers\<lparr>rax := a\<rparr>\<rparr>"

lemma single_map:
  "map_inv (leaf_map [(1, x)])" "btree_get (leaf_map [(1, x)]) = [1 \<mapsto> x]" "entries (leaf_map [(1, x)]) = [(1, x)]"
  using leaf_map_get [of "[(1, x)]"] by (simp_all add: sorted_keys_def)

lemma sample_mkernel_inv: "sched_inv sample_mkernel"
  by (auto simp: sched_inv_def sample_mkernel_def single_map task_ok_def split: if_splits)

lemma sample_ids: "task_ids sample_mkernel = [1]"
  by (simp add: task_ids_def sample_mkernel_def single_map)

lemma trap_with_origin: "frame_origin (trap_with v a) = Some FromUser"
  by (simp add: trap_with_def user_frame_def frame_origin_def trap_frame_new_def SEG_UCODE_def)

lemma trap_with_vector:
  "frame_interrupt (trap_with 0x7f a) = Named SyscallVector" "frame_interrupt (trap_with 0x23 a) = Irq 3"
  by (simp_all add: trap_with_def frame_interrupt_def interrupt_from_def interrupt_table_def IRQ_BASE_def)

text \<open>What an allocator keeps, the operations that use it keep.\<close>

lemma insert_up_heap:
  assumes P: "\<And>a. P a \<Longrightarrow> P (snd (alc a))"
  shows "P a \<Longrightarrow> P (snd (snd (snd (insert_up alc p l kv r h a))))"
proof (induction p arbitrary: l kv r a)
  case Nil
  then show ?case using P [of a] by (auto split: prod.splits bool.splits)
next
  case (Cons x p)
  obtain ks es i where x: "x = (ks, es, i)" by (cases x)
  obtain q a1 where q: "internal_insert alc (Node ks (es[i := l])) i kv r a = (q, a1)" by (metis prod.collapse)
  have "P a1"
    using q P [OF Cons.prems] Cons.prems by (auto simp: internal_insert_def internal_split_def split: prod.splits bool.splits sum.splits if_splits)
  then show ?case using Cons.IH q x by (auto simp: Let_def split: sum.splits insert_result.splits)
qed

lemma vacant_insert_heap:
  assumes P: "\<And>a. P a \<Longrightarrow> P (snd (alc a))" and a: "P a"
  shows "P (snd (snd (snd (vacant_insert alc y kv h a))))"
proof -
  obtain n i p where y: "y = (n, i, p)" by (cases y)
  obtain q a1 where q: "leaf_insert alc n i kv a = (q, a1)" by (metis prod.collapse)
  have "P a1"
    using q P [OF a] a by (auto simp: leaf_insert_def leaf_split_def split: prod.splits bool.splits sum.splits if_splits)
  then show ?thesis
    using insert_up_heap [of P alc a1, OF P] q y by (auto simp: vacant_insert_def split: sum.splits insert_result.splits)
qed

lemma btree_insert_heap:
  assumes P: "\<And>a. P a \<Longrightarrow> P (snd (alc a))" and a: "P a"
  shows "P (snd (snd (btree_insert alc m k v a)))"
proof -
  obtain q m1 a1 where q: "ensure_root_is_owned alc m a = (q, m1, a1)" by (metis prod.collapse)
  have a1: "P a1" using q P [OF a] a by (auto simp: ensure_root_is_owned_def split: prod.splits bool.splits if_splits)
  show ?thesis
  proof (cases "search_tree (height m1) (root m1) [] k")
    case (GoDown y)
    then show ?thesis
      using q a1 vacant_insert_heap [of P alc a1 y "(k, v)" "height m1", OF P a1]
      by (auto simp: btree_insert_def Let_def split: prod.splits sum.splits)
  qed (use q a1 in \<open>auto simp: btree_insert_def split: prod.splits sum.splits\<close>)
qed

lemma triple_caseE:
  assumes "(case y of (Inl e, m, b) \<Rightarrow> f e m b | (Inr x, m, b) \<Rightarrow> g x m b) = Some z"
  obtains e m b where "y = (Inl e, m, b)" "f e m b = Some z" | x m b where "y = (Inr x, m, b)" "g x m b = Some z"
  using assms by (auto split: prod.splits sum.splits)

lemma object_put_heap:
  assumes P: "\<And>a. P a \<Longrightarrow> P (snd (alc a))" and o: "object_put alc t obj th a = Some (x, th', a')" and a: "P a"
  shows "P a'"
proof -
  let ?go = "\<lambda>th a. do { handles \<leftarrow> btree_get th t; prev \<leftarrow> btree_last_key handles; new_id \<leftarrow> next_handle prev;
       (case btree_insert alc handles new_id obj a of
          (Inl _, handles, a) \<Rightarrow> Some (Inl SysMemoryExhausted, btree_update th t (\<lambda>_. handles), a)
        | (Inr _, handles, a) \<Rightarrow> Some (Inr new_id, btree_update th t (\<lambda>_. handles), a)) }"
  have go: "P a'" if g: "?go th1 a1 = Some (x, th', a')" and a1: "P a1" for th1 a1
  proof -
    have ins: "P b" if "btree_insert alc hs n obj a1 = (z, hs', b)" for hs n z hs' b
      using btree_insert_heap [of P alc a1 hs n obj, OF P a1] that by simp
    then show ?thesis using g by (auto simp: option_monad elim!: triple_caseE dest: ins)
  qed
  show ?thesis
  proof (cases "btree_get th t")
    case None
    obtain y th1 a1 where i: "btree_insert alc th t btree_new a = (y, th1, a1)" by (metis prod.collapse)
    have "P a1" using btree_insert_heap [of P alc a th t btree_new, OF P a] i by simp
    then show ?thesis using o None i go [of th1 a1] by (cases y) (auto simp: object_put_def)
  qed (use o a go [of th a] in \<open>simp add: object_put_def\<close>)
qed

text \<open>The program asks for its page context and gets a handle for it.\<close>

theorem system_call_returns_witness:
  "\<exists>h m'. interrupt_handler sample_env 0 0 (trap_with 0x7f (vector_code GetPageContext)) sample_machine =
     Some (trap_with 0x7f (encode_result (Inr h)), m') \<and> h \<noteq> 0 \<and>
     object_get 1 h (TASK_HANDLES (mkern m')) = Some (ObjPageCtx 0x1000)"
proof -
  let ?f = "trap_with 0x7f (vector_code GetPageContext)" and ?m = sample_machine
  let ?k = "set_state 1 (SyscallEntry ?f) sample_mkernel" and ?r = "task_setup 1 (user_frame 0x1000)"
  have m: "mkern ?m = sample_mkernel" by (simp add: sample_machine_def)
  have s0: "CURRENT_TASK sample_mkernel = Some 1" "btree_get (TASK_STATES sample_mkernel) 1 = Some (StUser (user_frame 0x1000))"
    "btree_get (TASK_FUTURES ?k) 1 = Some (RunWait ?r)" "run_task ?r = 1"
    by (simp_all add: sample_mkernel_def single_map task_setup_def)
  have inv: "sched_inv ?k" by (rule set_state_inv [OF sample_mkernel_inv])
  have st: "btree_get (TASK_STATES ?k) 1 = Some (SyscallEntry ?f)"
    using set_state_get(1) [of sample_mkernel 1] s0(2) sample_mkernel_inv by (simp add: sched_inv_def)
  have nx: "filter (awake ?k) (cyc 1 (task_ids ?k)) = [1]"
    using sample_ids st by (simp add: task_ids_def cyc_def awake_def)
  have cr: "mem x = sample \<Longrightarrow> TASKS x = TASKS sample_mkernel \<Longrightarrow> CURRENT_TASK x = Some 1 \<Longrightarrow> enter_task 1 x = Some x" for x :: "(ata_dev, unit) mkernel"
  proof -
    assume x: "mem x = sample" "TASKS x = TASKS sample_mkernel" "CURRENT_TASK x = Some 1"
    have c: "sample\<lparr>cr3 := 0x1000\<rparr> = sample" "cr3 sample = 0x1000" by (simp_all add: sample_def)
    have d: "phys_drop 0x1000 sample = Some sample" by (rule phys_drop_untracked) (simp add: sample_untracked)
    have "x\<lparr>CURRENT_TASK := Some 1, mem := sample\<rparr> = x" using x by (cases x) simp
    then show ?thesis
      using x by (simp add: enter_task_def sample_mkernel_def single_map object_def as_ref_page_ctx_def
        phys_clone_def phys_new_def inc_ref_def sample_untracked set_ctx_def c d)
  qed
  have en: "enter_task 1 ?k = Some ?k" by (rule cr) (simp_all add: sample_mkernel_def)
  let ?st = "sys_of ?k"
  have tab: "TASK_HANDLES (kern ?st) = object_init" "heap (kern ?st) = ()" "kmem_of ?st = sample" "current (kern ?st) = Some 1"
    "get_page_ctx (kern ?st) = Some (ObjPageCtx 0x1000)"
    by (simp_all add: sys_of_def sample_mkernel_def set_state_def current_def get_page_ctx_def single_map)
  have al: "al (ssys sample_env) = (\<lambda>a. (True, a))" by (simp add: sample_env_def)
  obtain h th a where put: "object_put (\<lambda>a. (True, a)) 1 (ObjPageCtx 0x1000 :: (u64, nat) object_kind) object_init ((), sample) = Some (Inr h, th, a)"
    using object_put_total [OF object_init_inv(1) _ object_init_inv(2), of "\<lambda>a. (True, a)" 1 "ObjPageCtx 0x1000" "((), sample)"] by auto
  have h: "h \<noteq> 0" "object_get 1 h th = Some (ObjPageCtx 0x1000)"
    using ht.put_law [OF object_init_inv(1) put] by auto
  have a: "snd a = sample" using object_put_heap [of "\<lambda>a. snd a = sample", OF _ put] by simp
  let ?st' = "?st\<lparr>kern := set_heap a ((kern ?st)\<lparr>TASK_HANDLES := th\<rparr>)\<rparr>"
  have rax: "rax (regs ?f) = vector_code GetPageContext" by (simp add: trap_with_def)
  have vec: "enum64_try_from syscall_table (rax (regs ?f)) = Some GetPageContext"
    using syscalls.try_from_as [of GetPageContext] rax by (simp add: vector_code_def)
  have "put_object (ssys sample_env) (ObjPageCtx 0x1000) ?st = Some (Inr h, ?st')"
    unfolding put_object_def tab al using put by simp
  then have "dispatch0 (ssys sample_env) (regs ?f) ?st = Some (PollReady (Inr h), ?st')"
    unfolding dispatch0_def vec by (simp add: ready_def sys_get_page_context_def tab)
  moreover have "rax (regs ?f) \<noteq> vector_code CreateTask"
    unfolding rax by (simp add: vector_code_def syscall_table_def)
  ultimately obtain k' f' where k': "f' = ?f\<lparr>regs := (regs ?f)\<lparr>rax := encode_result (Inr h)\<rparr>\<rparr>"
    "interrupt_handler sample_env 0 0 ?f ?m = map_option (\<lambda>(f', k'). (f', ?m\<lparr>mflags := sti (mflags ?m), mkern := k'\<rparr>))
        (switch_loop (poll_future sample_env) (Some 1) ?k)"
    "switch_loop (poll_future sample_env) (Some 1) ?k = map_option (Pair f') (enter_task 1 k')"
    "CURRENT_TASK k' = Some 1" "TASKS k' = TASKS ?k" "mem k' = kmem_of ?st'" "TASK_HANDLES k' = TASK_HANDLES (kern ?st')"
    using system_call_returns [OF trap_with_vector(1) trap_with_origin _ _ _ inv nx st s0(3,4) en, of ?m "user_frame 0x1000"
        sample_env "Inr h" ?st' 0 0] m s0 sample_mkernel_inv by auto
  have "enter_task 1 k' = Some k'" by (rule cr) (use k' a in \<open>simp_all add: set_heap_def\<close>)
  moreover have "f' = trap_with 0x7f (encode_result (Inr h))" using k'(1) by (simp add: trap_with_def)
  ultimately show ?thesis using k'(2,3,7) h by auto
qed

section \<open>Interrupts and exceptions\<close>

lemma origin_dest: "orig \<noteq> FromKernel \<Longrightarrow> orig = FromUser"
  by (cases orig) auto

text \<open>C30: The handler returns from interrupt lines and from system calls of user programs only; every
  CPU exception, every unknown vector and every system call from the kernel stops the machine.  When it
  returns from line \<open>n\<close>, it has acknowledged the line at the first interrupt controller and, for \<open>n\<close> from
  8 on, at the second, and nothing else; and unless the line is the timer and it interrupted a
  user program, the interrupted frame and the tasks are as they were.\<close>

theorem interrupts_acknowledged:
  assumes h: "interrupt_handler env sc cr2 f m = Some (f', m')"
  shows "(case frame_interrupt f of
      Irq n \<Rightarrow> mports m' = mports m @ (0x20, 0x20) # (if n \<ge> 8 then [(0xa0, 0x20)] else []) \<and>
        (n \<noteq> 0 \<or> frame_origin f = Some FromKernel \<longrightarrow>
           f' = f \<and> TASK_STATES (mkern m') = TASK_STATES (mkern m) \<and> TASKS (mkern m') = TASKS (mkern m) \<and>
           TASK_FUTURES (mkern m') = TASK_FUTURES (mkern m) \<and> mem (mkern m') = mem (mkern m))
    | Named e \<Rightarrow> e = SyscallVector \<and> frame_origin f = Some FromUser \<and> mports m' = mports m
    | Other _ \<Rightarrow> False)"
proof (cases "frame_interrupt f")
  case (Named e)
  show ?thesis
    using h Named by (cases e) (auto simp: interrupt_handler_def fault_def option_monad dest!: origin_dest split: trap_origin.splits)
next
  case (Other v)
  then show ?thesis using h by (simp add: interrupt_handler_def)
next
  case (Irq n)
  have kb: "mports (keyboard_irq env sc x) = mports x" "TASK_STATES (mkern (keyboard_irq env sc x)) = TASK_STATES (mkern x)"
    "TASKS (mkern (keyboard_irq env sc x)) = TASKS (mkern x)"
    "TASK_FUTURES (mkern (keyboard_irq env sc x)) = TASK_FUTURES (mkern x)"
    "mem (mkern (keyboard_irq env sc x)) = mem (mkern x)" for x
    by (simp_all add: keyboard_irq_def Let_def split: prod.split)
  show ?thesis
    using h Irq by (auto simp: interrupt_handler_def option_monad port_write_def Let_def kb
        dest!: origin_dest split: trap_origin.splits if_splits)
qed

theorem interrupts_acknowledged_witness:
  "\<exists>m'. interrupt_handler sample_env 0 0 (trap_with 0x23 0) sample_machine = Some (trap_with 0x23 0, m') \<and>
     mports m' = [(0x20, 0x20)]"
proof -
  obtain m' where h: "interrupt_handler sample_env 0 0 (trap_with 0x23 0) sample_machine = Some (trap_with 0x23 0, m')"
    by (simp add: interrupt_handler_def trap_with_vector(2))
  from interrupts_acknowledged [OF h] h show ?thesis
    by (auto simp: trap_with_vector(2) sample_machine_def)
qed

text \<open>The timer: the two bytes written to channel 0 are the low and the high byte of the divisor, which
  for the 20 Hz of the kernel is 59659, and the interrupt flag is as before.\<close>

lemma set_frequency_ports:
  assumes "set_frequency hz m = Some m'"
  shows "\<exists>lo hi. mports m' = mports m @ [(0x40, lo), (0x40, hi)] \<and>
     unat lo + 256 * unat hi = min (PIT_FREQ div hz) 65535 \<and> mflags m' = mflags m"
proof -
  let ?d = "min (PIT_FREQ div hz) 65535"
  have fl: "critical_drop (fst (critical_begin (mflags m))) (snd (critical_begin (mflags m))) = mflags m"
    using begin_drop [of "mflags m"] by (simp add: critical_begin_def)
  have "mports m' = mports m @ [(0x40, of_nat (?d mod 0x100)), (0x40, of_nat (?d div 0x100 mod 0x100))]" "mflags m' = mflags m"
    using assms fl by (auto simp: set_frequency_def port_write_def Let_def split: if_splits prod.splits)
  moreover have "unat (of_nat (?d mod 0x100) :: u8) + 256 * unat (of_nat (?d div 0x100 mod 0x100) :: u8) = ?d"
  proof -
    have "?d div 256 < 256" by (simp add: less_mult_imp_div_less min_def)
    then show ?thesis by (simp add: unat_of_nat)
  qed
  ultimately show ?thesis by blast
qed

lemma pit_init_ports:
  "pit_init m = Some m' \<Longrightarrow> mports m' = mports m @ [(0x43, 0x34), (0x40, 0x0b), (0x40, 0xe9)]"
  by (auto simp: pit_init_def set_frequency_def PIT_FREQ_def port_write_def Let_def option_monad split: prod.splits)

text \<open>A second panic never runs the formatting of the first again: it writes one fixed line and halts with
  interrupts off.\<close>

lemma nested_panic:
  "kernel_panic msg loc (True, c, fl) =
     (True, failsafe_write ([0x0a, 0x0a] @ ascii ''*** PANIC while panicking, halt'' @ [0x0a, 0x0a]) c, cli (cli fl))"
  by (simp add: kernel_panic_def critical_begin_def)

end
