(* ===== verification/Stream_Contract.thy ===== *)
theory Stream_Contract
  imports Syscall_Contract Task_Contract
begin

text \<open>
  Text from a user program to the console: \<open>write_all\<close> of \<open>userland/crabapi/src/io.rs\<close>, the system call \<open>write_stream\<close> with
  the validation of the slice and the encoding of its result, the handle of the task, and the console file of the kernel.
\<close>

section \<open>Text in pieces\<close>

lemma utf8_char_append:
  "utf8_char b rest = Inr w \<Longrightarrow> utf8_char b (rest @ ys) = Inr w \<and> w = char_width b"
  by (auto simp: Let_def char_width_def split: if_splits list.splits)

lemma utf8_pieces:
  "from_utf8 xs = Inr s \<Longrightarrow> utf8_chars (xs @ ys) = utf8_chars xs @ utf8_chars ys
     \<and> (from_utf8 ys = Inr ys \<longrightarrow> from_utf8 (xs @ ys) = Inr (xs @ ys))"
proof (induction xs arbitrary: s rule: from_utf8.induct)
  case (2 b rest)
  from 2(2) obtain w s' where w: "utf8_char b rest = Inr w" and r: "from_utf8 (drop w (b # rest)) = Inr s'"
    by (auto split: sum.splits)
  have l: "1 \<le> w" "w \<le> length (b # rest)" using utf8_char_width [OF w] by auto
  have a: "utf8_char b (rest @ ys) = Inr w" "max 1 (char_width b) = w" using utf8_char_append [OF w] l(1) by auto
  have d: "drop w (b # rest @ ys) = drop w (b # rest) @ ys" "take w (b # rest @ ys) = take w (b # rest)"
    using l(2) by (simp_all flip: append_Cons)
  have IH: "utf8_chars (drop w (b # rest) @ ys) = utf8_chars (drop w (b # rest)) @ utf8_chars ys"
    "from_utf8 ys = Inr ys \<Longrightarrow> from_utf8 (drop w (b # rest) @ ys) = Inr (drop w (b # rest) @ ys)"
    using 2(1) [OF w r] by auto
  show ?case using IH a d by (auto simp del: drop.simps take.simps utf8_char.simps)
qed simp

lemma console_write_str_nil: "console_write_str [] c = Some c"
  by (cases "CONSOLE c") (simp_all add: console_write_str_def vga_write_str_def)

lemma console_write_str_append:
  assumes "from_utf8 xs = Inr xs" "console_write_str xs c = Some c1" "console_write_str ys c1 = Some c2"
  shows "console_write_str (xs @ ys) c = Some c2"
proof (cases "CONSOLE c")
  case ConPortE9
  then show ?thesis using assms(2,3) by (auto simp: console_write_str_def)
next
  case (ConVgaText v)
  then obtain v1 where "vga_write_str xs v = Some v1" "c1 = c\<lparr>CONSOLE := ConVgaText v1\<rparr>"
    using assms(2) by (auto simp: console_write_str_def bind_eq_Some_conv)
  then show ?thesis
    using ConVgaText assms(3) utf8_pieces [OF assms(1)]
    by (auto simp: console_write_str_def vga_write_str_def fold_opt_append bind_eq_Some_conv)
qed

section \<open>Slices that a user program may read\<close>

text \<open>Every byte lies in the user half, in a page that is mapped with flags that the kernel knows.\<close>

definition user_readable :: "kmem \<Rightarrow> u64 \<Rightarrow> nat \<Rightarrow> bool" where
  "user_readable s a n \<longleftrightarrow> unat a + n \<le> 2 ^ 47 \<and>
     (\<forall>i < n. \<exists>e. leaf s (a + of_nat i) = Some e \<and> (e AND 0xfff) AND NOT PAGE_FLAGS_ALL = 0)"

lemma containing_complete:
  assumes "unat a + unat n \<le> 2 ^ 47"
  shows "\<exists>r. page_range_containing chk a n = Some (Inr r)"
proof -
  let ?off = "a mod PAGE_SIZE" let ?b = "n + ?off"
  let ?pad = "if ?b mod PAGE_SIZE = 0 then 0 else PAGE_SIZE - ?b mod PAGE_SIZE"
  have off: "unat ?off < 4096" "unat ?off \<le> unat a" "unat ?off = unat a mod 4096" by (simp_all add: unat_mod_page)
  have b: "checked_add n ?off = Some ?b" using assms off by (simp add: checked_add_def)
  have ub: "unat ?b = unat n + unat a mod 4096" using checked_add_Some [OF b] off(3) by simp
  have up: "unat ?pad = (if unat ?b mod 4096 = 0 then 0 else 4096 - unat ?b mod 4096)" by (rule padding_unat)
  have "unat ?pad \<le> 4096" unfolding up by simp
  moreover have "unat ?b + x < 2 ^ 64" if "x \<le> 4096" for x using assms off that unfolding ub by simp
  ultimately have "unat ?b + unat ?pad < 2 ^ 64" by blast
  then have c: "checked_add ?b ?pad = Some (?b + ?pad)" unfolding checked_add_def by presburger
  have uc: "unat (?b + ?pad) = (unat ?b + 4095) div 4096 * 4096"
    using checked_add_Some [OF c] unfolding up round_up_padding by blast
  have "?off \<le> a" using off by (simp add: word_le_nat_alt)
  then have base: "unat (a - ?off) = unat a - unat a mod 4096" using off(3) by (simp add: unat_sub)
  have base': "unat (a - ?off) = unat a div 4096 * 4096" unfolding base by (simp add: minus_mod_eq_div_mult)
  have "unat (a - ?off) + (unat ?b + 4095) div 4096 * 4096 \<le> 2 ^ 47"
  proof -
    have "unat a div 4096 + (unat ?b + 4095) div 4096 = (unat a div 4096 * 4096 + unat ?b + 4095) div 4096" by simp
    also have "unat a div 4096 * 4096 + unat ?b = unat a + unat n"
      unfolding ub using div_mult_mod_eq [of "unat a" 4096] by linarith
    also have "(unat a + unat n + 4095) div 4096 \<le> (2 ^ 47 + 4095) div 4096"
      using assms by (intro div_le_mono) simp
    also have "(2 ^ 47 + 4095) div 4096 = (2 ^ 35 :: nat)" by simp
    finally show ?thesis unfolding base' by simp
  qed
  moreover have "unat ((?b + ?pad) div PAGE_SIZE) * 4096 = (unat ?b + 4095) div 4096 * 4096"
    unfolding unat_div_page uc by simp
  ultimately have "page_range_new chk (a - ?off) ((?b + ?pad) div PAGE_SIZE)
      = Some (Inr \<lparr>base_page = a - ?off, page_count = (?b + ?pad) div PAGE_SIZE\<rparr>)"
    using base' by (intro page_range_new_complete) simp_all
  then show ?thesis using b c by (simp add: page_range_containing_def Let_def)
qed

text \<open>Every page that is checked has a byte of the slice.\<close>

lemma containing_touches:
  assumes r: "page_range_containing chk a n = Some (Inr r)" and le: "unat a + unat n \<le> 2 ^ 47" and n: "n \<noteq> 0"
    and p: "p \<in> set (pages r)"
  shows "\<exists>i < unat n. same 4 p (a + of_nat i)"
proof -
  have nw: "chk \<or> unat a + unat n + 4095 < 2 ^ 64" using le by simp
  note ok = containing_ok [OF r nw]
  obtain k where k: "k < unat (page_count r)" "p = base_page r + of_nat k * PAGE_SIZE" using p by (auto simp: pages_def)
  have up: "unat p = unat a - unat a mod 4096 + k * 4096" using pages_unat [OF ok(1) k(1)] ok(2) k(2) by simp
  have "Suc k * 4096 \<le> range_bytes r" using k(1) unfolding range_bytes_def by (intro mult_le_mono1) simp
  also have "range_bytes r \<le> unat n + unat a mod 4096 + 4095" unfolding ok(3) by (rule div_times_less_eq_dividend)
  finally have lt: "k * 4096 < unat n + unat a mod 4096" by simp
  define i where "i = (if k = 0 then 0 else k * 4096 - unat a mod 4096)"
  have m: "unat a mod 4096 < 4096" "unat a mod 4096 \<le> unat a" by simp_all
  have i: "i < unat n" "unat p \<le> unat a + i" "unat a + i < unat p + 4096"
  proof -
    show "i < unat n" using n lt m by (auto simp: i_def unat_gt_0)
    show "unat p \<le> unat a + i" unfolding up i_def using m by (cases k) simp_all
    show "unat a + i < unat p + 4096" unfolding up i_def using m by (cases k) simp_all
  qed
  have "unat (a + of_nat i) = unat a + i" using i(1) le by (intro unat_plus_of_nat) simp
  then have "same 4 p (a + of_nat i)" using i pages_user(1) [OF ok(1) p] by (intro same_page) simp_all
  then show ?thesis using i(1) by blast
qed

lemma borrow_slice_readable:
  assumes wf: "pt_wf s" and fb: "bitflags_from_bits fb" and ct: "bitflags_contains cn"
    and u: "user_readable s a (unat n)" and n: "n \<noteq> 0"
  shows "borrow_slice fb cn chk 1 a n s = Some (Inr \<lparr>slice_addr = a, slice_len = n\<rparr>)"
proof -
  have le: "unat a + unat n \<le> 2 ^ 47" using u by (simp add: user_readable_def)
  obtain r where r: "page_range_containing chk a n = Some (Inr r)" using containing_complete [OF le] by blast
  have ur: "user_range r" using containing_ok(1) [OF r] le by simp
  have "\<exists>e. leaf s p = Some e \<and> (e AND 0xfff) AND 0 = 0 \<and> (e AND 0xfff) AND NOT PAGE_FLAGS_ALL = 0"
    if "p \<in> set (pages r)" for p
  proof -
    obtain i where "i < unat n" "same 4 p (a + of_nat i)" using containing_touches [OF r le n \<open>p \<in> set (pages r)\<close>] by blast
    then show ?thesis using u leaf_same [of p "a + of_nat i" s] unfolding user_readable_def by auto
  qed
  then have "validate_map_pages fb cn 0 s (pages r) = Some (Inr ())"
    by (intro validate_map_pages_complete [OF wf user_pages_ordinary [OF ur] fb ct]) blast
  moreover have "checked_mul n 1 = Some n" using le by (simp add: checked_mul_def)
  ultimately show ?thesis using r by (simp add: borrow_slice_def validate_read_def validate_map_def)
qed

section \<open>The console of a user program\<close>

definition set_console :: "console_state \<Rightarrow> ('d, 'fut, 'a) sys \<Rightarrow> ('d, 'fut, 'a) sys" where
  "set_console c st = st\<lparr>world := (world st)\<lparr>vconsole := c\<rparr>\<rparr>"

text \<open>Handle 1 of the current task is the console file.\<close>

definition console_open :: "('d, 'fut, 'a) sys \<Rightarrow> bool" where
  "console_open st \<longleftrightarrow> (\<exists>fi. with_file CONSOLE_HANDLE st = Some (Inr fi) \<and> fi < length (files st) \<and> files st ! fi = VConsole)"

text \<open>Documented behaviour of the crates that the call uses.\<close>

definition stream_crates :: "('d, 'fut, 'a) sys_env \<Rightarrow> bool" where
  "stream_crates se \<longleftrightarrow> bitflags_from_bits (from_bits se) \<and> bitflags_contains (flags_contain se) \<and> intersperse_ok (isp se)"

definition text_slice :: "('d, 'fut, 'a) sys_env \<Rightarrow> u64 \<Rightarrow> u64 \<Rightarrow> u8 list \<Rightarrow> ('d, 'fut, 'a) sys \<Rightarrow> bool" where
  "text_slice se a n bs st \<longleftrightarrow> length bs = unat n \<and> from_utf8 bs = Inr bs \<and> pt_wf (kmem_of st)
     \<and> user_readable (kmem_of st) a (unat n) \<and> read_bytes (kmem_of st) a (unat n) = Some bs
     \<and> console_open st \<and> console_ok (vconsole (world st)) \<and> stream_crates se"

definition text_out :: "u8 list \<Rightarrow> ('d, 'fut, 'a) sys \<Rightarrow> ('d, 'fut, 'a) sys \<Rightarrow> bool" where
  "text_out bs st st' \<longleftrightarrow> from_utf8 bs = Inr bs
     \<and> (\<exists>c. console_write_str bs (vconsole (world st)) = Some c \<and> st' = set_console c st)"

lemma set_console_fields [simp]:
  "kern (set_console c st) = kern st" "files (set_console c st) = files st" "vconsole (world (set_console c st)) = c"
  "set_console c' (set_console c st) = set_console c' st" "set_console (vconsole (world st)) st = st"
  "with_file h (set_console c st) = with_file h st" "console_open (set_console c st) = console_open st"
  by (simp_all add: set_console_def with_file_def console_open_def)

lemma text_write:
  assumes "intersperse_ok ip" "console_ok (vconsole w)" "from_utf8 bs = Inr bs"
  shows "\<exists>c. vfs_file_write ip VConsole bs w = Some (Inr (length bs), w\<lparr>vconsole := c\<rparr>) \<and>
     console_write_str bs (vconsole w) = Some c \<and> console_ok c"
proof -
  obtain c where c: "console_write_str bs (vconsole w) = Some c" "console_ok c" using console_write_str_ok [OF assms(2)] by blast
  have "utf8_valid_parts (Suc (length bs)) bs 0 = Some (if bs = [] then [] else [bs])"
    using assms(3) by (cases bs) (simp_all add: utf8_valid_parts_next_def)
  then show ?thesis
    using c assms(1) console_write_str_nil [of "vconsole w"] by (auto simp: vfs_file_write_def intersperse_ok_def)
qed

lemma user_length_unflagged:
  assumes "unat n \<le> 2 ^ 47"
  shows "n AND ERR_FLAG = 0"
proof -
  have "drop_bit 63 n = 0" using assms by (simp add: word_unat_eq_iff drop_bit_eq_div unat_div)
  then have "\<not> bit n 63" using bit_drop_bit_eq [of 63 n] by (metis add.right_neutral bit_0_eq bot_apply bot_bool_def comp_apply)
  moreover have f: "ERR_FLAG = push_bit 63 1" by (simp add: ERR_FLAG_def push_bit_eq_mult)
  have "bit ERR_FLAG i \<longleftrightarrow> i = 63" for i unfolding f by (simp only: bit_push_bit_iff bit_1_iff) auto
  ultimately show ?thesis by (intro bit_word_eqI) (auto simp: bit_and_iff)
qed

lemma dispatch0_write_stream:
  "h \<noteq> 0 \<Longrightarrow> dispatch0 se (rs\<lparr>rax := vector_code WriteStream, rdi := h, rsi := a, rdx := n\<rparr>) st = ready (sys_write_stream se h a n) st"
  by (simp add: dispatch0_def vector_code_def syscalls.try_from_as with_handle_def handle_from_reg_def handle_from_u64_def)

text \<open>One write of text takes all of it.\<close>

lemma console_write_takes_all:
  assumes t: "text_slice se a n bs st" and n: "n \<noteq> 0"
  shows "\<exists>rs' c. api_console_write (kernel_trap se f) a n rs st = Some (Inr n, rs', set_console c st) \<and>
     console_write_str bs (vconsole (world st)) = Some c \<and> console_ok c"
proof -
  obtain fi where fi: "with_file CONSOLE_HANDLE st = Some (Inr fi)" "fi < length (files st)" "files st ! fi = VConsole"
    using t by (auto simp: text_slice_def console_open_def)
  obtain c where c: "vfs_file_write (isp se) VConsole bs (world st) = Some (Inr (length bs), (world st)\<lparr>vconsole := c\<rparr>)"
    "console_write_str bs (vconsole (world st)) = Some c" "console_ok c"
    using text_write [of "isp se" "world st" bs] t unfolding text_slice_def stream_crates_def by blast
  have b: "borrow_slice (from_bits se) (flags_contain se) (overflow_checks se) 1 a n (kmem_of st)
      = Some (Inr \<lparr>slice_addr = a, slice_len = n\<rparr>)"
    using borrow_slice_readable n t by (auto simp: text_slice_def stream_crates_def)
  have w: "sys_write_stream se CONSOLE_HANDLE a n st = Some (Inr n, set_console c st)"
    using fi b c(1) t by (simp add: sys_write_stream_def text_slice_def set_console_def not_le)
  have "unat n \<le> 2 ^ 47" using t by (simp add: text_slice_def user_readable_def)
  then have "decode_result (encode_result (Inr n)) = Some (Inr n)" by (intro decode_encode_ok user_length_unflagged)
  moreover have "CONSOLE_HANDLE \<noteq> 0" by (simp add: CONSOLE_HANDLE_def)
  ultimately show ?thesis
    using w c(2,3) by (simp add: api_console_write_def into_result_def api_write_stream_def syscall3_def kernel_trap_def dispatch_def
        dispatch0_write_stream ready_def)
qed

interpretation console_writer: writer "api_console_write (kernel_trap se f)" "text_slice se" text_out for se f
proof
  fix a n :: u64 and bs xs ys and st s1 s2 :: "('a, 'b, 'c) sys" and rs
  show "length bs = unat n" if "text_slice se a n bs st" using that by (simp add: text_slice_def)
  show "text_out [] st st"
    unfolding text_out_def by (intro conjI exI [of _ "vconsole (world st)"]) (simp_all add: console_write_str_nil)
  show "text_out (xs @ ys) st s2" if "text_out xs st s1" "text_out ys s1 s2"
    using that utf8_pieces [of xs xs ys] console_write_str_append by (fastforce simp: text_out_def)
  show "\<exists>k rs' s'. api_console_write (kernel_trap se f) a n rs st = Some (Inr k, rs', s') \<and> 0 < k \<and> k \<le> n \<and>
      text_out (take (unat k) bs) st s' \<and> text_slice se (a + k) (n - k) (drop (unat k) bs) s'"
    if t: "text_slice se a n bs st" and n: "n \<noteq> 0"
  proof -
    obtain rs' c where w: "api_console_write (kernel_trap se f) a n rs st = Some (Inr n, rs', set_console c st)"
      "console_write_str bs (vconsole (world st)) = Some c" "console_ok c" using console_write_takes_all [OF t n] by blast
    have l: "length bs = unat n" "from_utf8 bs = Inr bs" "unat a + unat n \<le> 2 ^ 47" using t by (auto simp: text_slice_def user_readable_def)
    have "unat (a + n) = unat a + unat n" using unat_plus_of_nat [of a "unat n"] l(3) by simp
    then have "text_slice se (a + n) 0 [] (set_console c st)"
      using t l w(3) by (simp add: text_slice_def user_readable_def read_bytes_def)
    moreover have "text_out bs st (set_console c st)" using w(2) l by (auto simp: text_out_def)
    ultimately show ?thesis
      using w(1) n l(1) by (intro exI [of _ n] exI [of _ rs'] exI [of _ "set_console c st"]) (simp add: word_neq_0_conv)
  qed
qed

section \<open>Everything is written\<close>

text \<open>What the two consoles show of a text.\<close>

lemma console_shows:
  assumes "console_ok c" "console_write_str bs c = Some c'"
  shows "case CONSOLE c of ConPortE9 \<Rightarrow> c' = c\<lparr>port_e9 := port_e9 c @ bs\<rparr>
    | ConVgaText v \<Rightarrow> \<exists>v'. vga_write_str bs v = Some v' \<and> c' = c\<lparr>CONSOLE := ConVgaText v'\<rparr> \<and> vga_ok v' \<and>
        cursor v' = fold (cursor_char (vga_rows v) ((vga_width v - 256) div 8)) (utf8_chars bs) (cursor v)"
proof (cases "CONSOLE c")
  case ConPortE9
  then show ?thesis using assms(2) by (simp add: console_write_str_def)
next
  case (ConVgaText v)
  then have "vga_ok v" using assms(1) by (simp add: console_ok_def)
  then show ?thesis
    using ConVgaText assms(2) write_chars_ok [of v "utf8_chars bs"] by (auto simp: console_write_str_def vga_write_str_def)
qed

text \<open>C25: \<open>write_all\<close> of a user program on the console writes everything, through the system call \<open>write_stream\<close>.  Hypotheses: the page
  tables are well-formed; the slice lies in the user half of the address space, in mapped pages whose flags are all known to the
  kernel, and holds a text in UTF-8; handle 1 of the current task is the console file; the console is the debug port or, as
  \<open>console_init\<close> selects it, a frame buffer whose lines fit into video memory, with a complete font and the cursor in the text area; and \<open>bitflags\<close> and \<open>intersperse\<close> behave as documented.
  Then \<open>write_all\<close> returns success and nothing but the console has changed: the debug port has received exactly the bytes of the text,
  and the frame buffer the characters of the text, without a panic, with the cursor where they move it.  The trap is as seen by the
  system call: its way through the scheduler is left to \<open>Entry_Contract\<close>.\<close>

theorem console_write_all:
  assumes "pt_wf (kmem_of st)" "user_readable (kmem_of st) a (length bs)" "read_bytes (kmem_of st) a (length bs) = Some bs"
    and "from_utf8 bs = Inr bs" "console_open st" "console_ok (vconsole (world st))" "stream_crates se"
  shows "\<exists>rs' c. write_all (api_console_write (kernel_trap se f)) a (of_nat (length bs)) rs st = Some (Inr (), rs', set_console c st)
    \<and> (case CONSOLE (vconsole (world st)) of
         ConPortE9 \<Rightarrow> c = (vconsole (world st))\<lparr>port_e9 := port_e9 (vconsole (world st)) @ bs\<rparr>
       | ConVgaText v \<Rightarrow> \<exists>v'. vga_write_str bs v = Some v' \<and> c = (vconsole (world st))\<lparr>CONSOLE := ConVgaText v'\<rparr> \<and> vga_ok v' \<and>
           cursor v' = fold (cursor_char (vga_rows v) ((vga_width v - 256) div 8)) (utf8_chars bs) (cursor v))"
proof -
  have l: "unat (of_nat (length bs) :: u64) = length bs"
    using assms(2) unat_plus_of_nat [of 0 "length bs"] by (simp add: user_readable_def)
  have "text_slice se a (of_nat (length bs)) bs st" unfolding text_slice_def l using assms by blast
  from console_writer.write_all_ok [OF this, of f rs] obtain rs' c where
    w: "write_all (api_console_write (kernel_trap se f)) a (of_nat (length bs)) rs st = Some (Inr (), rs', set_console c st)"
    "console_write_str bs (vconsole (world st)) = Some c" by (auto simp: text_out_def)
  then show ?thesis using console_shows [OF assms(6) w(2)] by blast
qed

text \<open>A page of a user program that starts with the text \<open>hi\<close>, and a task with the console, which is a frame buffer.\<close>

lemma greeting_memory:
  "\<exists>s. pt_wf s \<and> leaf s 0x400000 = Some 0x100007 \<and> pmem s 0x100000 = 0x6968"
proof -
  obtain s ps where s: "phys_inv s ps" "leaf s 0x400000 = Some 0x100007" "sole_page s 0x100000" using sample_mapped by blast
  have "\<not> is_table s 0x100000" using s(3) by (auto simp: sole_page_def page_ok_def)
  then have ag: "tables_agree s (set_pmem 0x100000 0x6968 s)" by (intro agree_outside) (simp_all add: frame_def)
  have "pt_wf (set_pmem 0x100000 0x6968 s)" using pt_wf_agree [OF ag] s(1) by (simp add: phys_inv_def)
  moreover have "leaf (set_pmem 0x100000 0x6968 s) 0x400000 = Some 0x100007" using leaf_agree [OF ag sample_v(1)] s(2) by simp
  ultimately show ?thesis by (intro exI [of _ "set_pmem 0x100000 0x6968 s"]) simp
qed

lemma greeting_slice:
  assumes "pt_wf s" "leaf s 0x400000 = Some 0x100007" "pmem s 0x100000 = 0x6968"
  shows "user_readable s 0x400000 2" "read_bytes s 0x400000 2 = Some [0x68, 0x69]"
proof -
  have "same 4 0x400000 (0x400000 + of_nat i)" if "i < 2" for i
  proof -
    have "of_nat i < (0x1000 :: u64)" using that by (auto simp: less_2_cases_iff)
    then show ?thesis using same_offset(1) [OF sample_v(3)] by blast
  qed
  then have "leaf s (0x400000 + of_nat i) = Some 0x100007" if "i < 2" for i
    using leaf_same [of "0x400000" "0x400000 + of_nat i" s] assms(2) that by simp
  then show "user_readable s 0x400000 2" by (simp add: user_readable_def PAGE_FLAGS_ALL_def)
  have "translate s 0x400000 = Some 0x100000"
    using translate_leaf [OF assms(1) sample_v(1) assms(2)] by (simp add: present_def frame_def)
  then have "read_byte s 0x400000 = Some 0x68" "read_byte s 0x400001 = Some 0x69"
    using assms(3) by (simp_all add: read_byte_def)
  moreover have "[0..<2] = [0, 1 :: nat]" by (simp add: upt_rec)
  ultimately show "read_bytes s 0x400000 2 = Some [0x68, 0x69]" by (simp add: read_bytes_def)
qed

definition greeting_sys :: "kmem \<Rightarrow> (ata_dev, nat, unit) sys" where
  "greeting_sys s = sample_sys\<lparr>kern := (kern sample_sys)\<lparr>mem := s, TASK_HANDLES := leaf_map [(1, leaf_map [(1, ObjFile 0)])]\<rparr>,
     world := sample_world\<lparr>vconsole := \<lparr>CONSOLE = ConVgaText sample_screen, port_e9 = []\<rparr>\<rparr>, files := [VConsole]\<rparr>"

lemma leaf_map_one: "btree_get (leaf_map [(1, x)]) 1 = Some x"
  using leaf_map_get(2) [of "[(1, x)]"] by (simp add: sorted_keys_def)

lemma greeting_sys_console: "console_open (greeting_sys s)"
proof -
  have "object_get 1 1 (leaf_map [(1, leaf_map [(1, ObjFile 0)])]) = Some (ObjFile 0 :: (u64, nat) object_kind)"
    by (simp add: object_get_def leaf_map_one)
  then show ?thesis
    by (auto simp: console_open_def with_file_def greeting_sys_def sample_sys_def current_def CONSOLE_HANDLE_def downcast_def object_def as_ref_file_def)
qed

theorem console_write_all_witness:
  "\<exists>s rs' v. vga_ok v \<and> cursor v = (1, 0) \<and>
     write_all (api_console_write (kernel_trap sample_se (trap_frame_new 0 0 0))) 0x400000 2 default_registers (greeting_sys s)
       = Some (Inr (), rs', set_console \<lparr>CONSOLE = ConVgaText v, port_e9 = []\<rparr> (greeting_sys s))"
proof -
  obtain s where s: "pt_wf s" "leaf s 0x400000 = Some 0x100007" "pmem s 0x100000 = 0x6968" using greeting_memory by blast
  have m: "kmem_of (greeting_sys s) = s" "vconsole (world (greeting_sys s)) = \<lparr>CONSOLE = ConVgaText sample_screen, port_e9 = []\<rparr>"
    by (simp_all add: greeting_sys_def)
  have u: "from_utf8 [0x68, 0x69] = Inr [0x68, 0x69]" by (rule from_utf8_ascii) simp
  have ok: "console_ok (vconsole (world (greeting_sys s)))" using sample_screen_ok by (simp add: m console_ok_def)
  have cr: "stream_crates sample_se" using sample_bitflags by (simp add: stream_crates_def sample_se_def intersperse_ok_def)
  have cur: "fold (cursor_char (vga_rows sample_screen) ((vga_width sample_screen - 256) div 8)) (utf8_chars [0x68, 0x69])
      (cursor sample_screen) = (1, 0)"
    by (simp add: sample_screen_def vga_rows_def CHAR_HEIGHT_def cursor_char_def cursor_newline_def char_width_def)
  have sl: "user_readable (kmem_of (greeting_sys s)) 0x400000 (length [0x68, 0x69 :: u8])"
    "read_bytes (kmem_of (greeting_sys s)) 0x400000 (length [0x68, 0x69 :: u8]) = Some [0x68, 0x69]" "pt_wf (kmem_of (greeting_sys s))"
    unfolding m using greeting_slice [OF s] s(1) by (simp_all add: numeral_2_eq_2)
  have len: "of_nat (length [0x68, 0x69 :: u8]) = (2 :: u64)" by simp
  obtain rs' v where "write_all (api_console_write (kernel_trap sample_se (trap_frame_new 0 0 0))) 0x400000 2 default_registers (greeting_sys s)
      = Some (Inr (), rs', set_console \<lparr>CONSOLE = ConVgaText v, port_e9 = []\<rparr> (greeting_sys s))" "vga_ok v" "cursor v = (1, 0)"
    using console_write_all [OF sl(3) sl(1,2) u greeting_sys_console ok cr, of "trap_frame_new 0 0 0" default_registers]
    unfolding m len by (auto simp: cur simp del: utf8_chars.simps)
  then show ?thesis by blast
qed

end
