(* ===== verification/BTree_Into.thy ===== *)
theory BTree_Into
  imports BTree_Contract
begin

text \<open>
  The owning iterator of the B-tree map, \<open>IntoIter\<close> of \<open>alloc_collections/src/btree/map.rs\<close>, and the
  destructor of the map, which drops such an iterator.

  The iterator frees a node when it leaves it for the last time.  A node is identified by the edge
  indices that lead to it, innermost first (\<open>path_indices\<close>).  The state has the list of the nodes
  freed so far with the layouts they were freed with: the theorem at the end says that the destructor frees every node
  once, with the layout it was allocated with.
\<close>

section \<open>Definitions\<close>

datatype node_layout = LeafLayout | InternalLayout

definition layout_of :: "nat \<Rightarrow> node_layout" where
  "layout_of h = (if h = 0 then LeafLayout else InternalLayout)"

type_synonym frees = "(node_layout \<times> nat list) list"

record ('k, 'v) into_iter =
  into_front :: "('k, 'v) handle"
  into_back :: "('k, 'v) handle"
  into_length :: nat
  into_shared :: bool        \<comment> \<open>the root is the static \<open>EMPTY_ROOT_NODE\<close>\<close>
  freed :: frees

definition btree_into_iter :: "('k, 'v) btree_map \<Rightarrow> ('k, 'v) into_iter" where
  "btree_into_iter m = \<lparr>into_front = first_leaf_edge (height m) (root m) [],
     into_back = last_leaf_edge (height m) (root m) [], into_length = map_length m,
     into_shared = shared_root m, freed = []\<rparr>"

text \<open>\<open>deallocate_and_ascend\<close> of a leaf and of an internal node; \<open>h\<close> is the height of the node.\<close>

definition deallocate_and_ascend :: "nat \<Rightarrow> ('k, 'v) node \<Rightarrow> ('k, 'v) path \<Rightarrow> frees
    \<Rightarrow> ('k, 'v) handle option \<times> frees" where
  "deallocate_and_ascend h n p fr = (ascend n p, fr @ [(layout_of h, path_indices p)])"

lemma ascend_path: "ascend n p = Some (parent, i, q) \<Longrightarrow> length p = Suc (length q)"
  by (cases p) auto

text \<open>The way up from a node that has no entry left at this end.\<close>

function into_up :: "nat \<Rightarrow> ('k, 'v) node \<Rightarrow> ('k, 'v) path \<Rightarrow> frees
    \<Rightarrow> ((('k \<times> 'v) \<times> ('k, 'v) handle) \<times> frees) option" where
  "into_up h n p fr =
     (case deallocate_and_ascend h n p fr of
        (None, _) \<Rightarrow> None
      | (Some (parent, i, q), fr) \<Rightarrow>
          (case right_kv (parent, i, q) of
             Some k \<Rightarrow> (case descend (parent, k + 1, q) of (c, q') \<Rightarrow>
                          Some ((kvs parent ! k, first_leaf_edge h c q'), fr))
           | None \<Rightarrow> into_up (Suc h) parent q fr))"
  by pat_completeness auto
termination
  by (relation "measure (\<lambda>(h, n, p, fr). length p)")
     (auto simp: deallocate_and_ascend_def dest!: ascend_path dest: sym)

function into_back_up :: "nat \<Rightarrow> ('k, 'v) node \<Rightarrow> ('k, 'v) path \<Rightarrow> frees
    \<Rightarrow> ((('k \<times> 'v) \<times> ('k, 'v) handle) \<times> frees) option" where
  "into_back_up h n p fr =
     (case deallocate_and_ascend h n p fr of
        (None, _) \<Rightarrow> None
      | (Some (parent, i, q), fr) \<Rightarrow>
          (case left_kv (parent, i, q) of
             Some k \<Rightarrow> (case descend (parent, k, q) of (c, q') \<Rightarrow>
                          Some ((kvs parent ! k, last_leaf_edge h c q'), fr))
           | None \<Rightarrow> into_back_up (Suc h) parent q fr))"
  by pat_completeness auto
termination
  by (relation "measure (\<lambda>(h, n, p, fr). length p)")
     (auto simp: deallocate_and_ascend_def dest!: ascend_path dest: sym)

declare into_up.simps [simp del] into_back_up.simps [simp del]

definition into_next :: "('k, 'v) into_iter \<Rightarrow> (('k \<times> 'v) option \<times> ('k, 'v) into_iter) option" where
  "into_next it =
     (if into_length it = 0 then Some (None, it)
      else
        let it = it\<lparr>into_length := into_length it - 1\<rparr> in
        (case into_front it of (n, i, p) \<Rightarrow>
           (case right_kv (n, i, p) of
              Some k \<Rightarrow> Some (Some (kvs n ! k), it\<lparr>into_front := (n, k + 1, p)\<rparr>)
            | None \<Rightarrow> map_option (\<lambda>((kv, x), fr). (Some kv, it\<lparr>into_front := x, freed := fr\<rparr>))
                        (into_up 0 n p (freed it)))))"

definition into_next_back :: "('k, 'v) into_iter \<Rightarrow> (('k \<times> 'v) option \<times> ('k, 'v) into_iter) option" where
  "into_next_back it =
     (if into_length it = 0 then Some (None, it)
      else
        let it = it\<lparr>into_length := into_length it - 1\<rparr> in
        (case into_back it of (n, i, p) \<Rightarrow>
           (case left_kv (n, i, p) of
              Some k \<Rightarrow> Some (Some (kvs n ! k), it\<lparr>into_back := (n, k, p)\<rparr>)
            | None \<Rightarrow> map_option (\<lambda>((kv, x), fr). (Some kv, it\<lparr>into_back := x, freed := fr\<rparr>))
                        (into_back_up 0 n p (freed it)))))"

text \<open>Calling \<open>next\<close> until it returns \<open>None\<close>: the items and the iterator afterwards.  Each call but the last
  takes one from the length.\<close>

function into_drain :: "('k, 'v) into_iter \<Rightarrow> (('k \<times> 'v) list \<times> ('k, 'v) into_iter) option" where
  "into_drain it =
     (case into_next it of
        None \<Rightarrow> None
      | Some (None, it) \<Rightarrow> Some ([], it)
      | Some (Some kv, it) \<Rightarrow> map_option (\<lambda>(xs, it). (kv # xs, it)) (into_drain it))"
  by pat_completeness auto
termination
  by (relation "measure into_length")
     (auto simp: into_next_def Let_def split: if_splits prod.splits option.splits)

declare into_drain.simps [simp del]

text \<open>The two loops of \<open>Drop\<close>: the items that are left, then the nodes above the front.\<close>

function dealloc_spine :: "nat \<Rightarrow> ('k, 'v) node \<Rightarrow> ('k, 'v) path \<Rightarrow> frees \<Rightarrow> frees" where
  "dealloc_spine h n p fr =
     (case deallocate_and_ascend h n p fr of
        (None, fr) \<Rightarrow> fr
      | (Some (parent, i, q), fr) \<Rightarrow> dealloc_spine (Suc h) parent q fr)"
  by pat_completeness auto
termination
  by (relation "measure (\<lambda>(h, n, p, fr). length p)")
     (auto simp: deallocate_and_ascend_def dest!: ascend_path dest: sym)

declare dealloc_spine.simps [simp del]

definition into_drop :: "('k, 'v) into_iter \<Rightarrow> (('k \<times> 'v) list \<times> frees) option" where
  "into_drop it = do {
     (dropped, it) \<leftarrow> into_drain it;
     (case into_front it of (leaf_node, _, p) \<Rightarrow>
        if into_shared it then Some (dropped, freed it)
        else Some (dropped, dealloc_spine 0 leaf_node p (freed it))) }"

definition btree_drop :: "('k, 'v) btree_map \<Rightarrow> (('k \<times> 'v) list \<times> frees) option" where
  "btree_drop m = into_drop (btree_into_iter m)"

section \<open>The nodes of a tree\<close>

text \<open>\<open>is_node\<close> follows a list of edge indices from the root; \<open>post\<close> is the order in which a forward
  iteration leaves the nodes.\<close>

fun is_node :: "nat \<Rightarrow> ('k, 'v) node \<Rightarrow> nat list \<Rightarrow> bool" where
  "is_node h n [] \<longleftrightarrow> True"
| "is_node 0 n (j # js) \<longleftrightarrow> False"
| "is_node (Suc h) n (j # js) \<longleftrightarrow> j \<le> node_len n \<and> is_node h (edges n ! j) js"

fun post :: "nat \<Rightarrow> ('k, 'v) node \<Rightarrow> nat list \<Rightarrow> frees" where
  "post 0 n pos = [(layout_of 0, pos)]"
| "post (Suc h) n pos =
     concat (map (\<lambda>j. post h (edges n ! j) (j # pos)) [0..<Suc (node_len n)]) @ [(layout_of (Suc h), pos)]"

definition layout_at :: "nat \<Rightarrow> nat list \<Rightarrow> node_layout" where
  "layout_at h js = layout_of (h - length js)"

lemma set_post:
  "set (post h n pos) = {(layout_at h js, rev js @ pos) | js. is_node h n js}"
proof (induction h arbitrary: n pos)
  case 0
  have "is_node 0 n js \<longleftrightarrow> js = []" for js by (cases js) auto
  then show ?case by (simp add: layout_at_def)
next
  case (Suc h)
  have up: "(layout_at (Suc h) (j # js), rev (j # js) @ pos) = (layout_at h js, rev js @ j # pos)" for j js
    by (simp add: layout_at_def)
  have "set (post (Suc h) n pos) = (\<Union>j \<in> {0..node_len n}. set (post h (edges n ! j) (j # pos))) \<union> {(layout_of (Suc h), pos)}"
    by (simp del: upt_Suc add: atLeast0LessThan lessThan_Suc_atMost atLeast0AtMost)
  also have "\<dots> = {(layout_at (Suc h) js, rev js @ pos) | js. is_node (Suc h) n js}" (is "?A = ?B")
  proof (intro equalityI subsetI)
    fix x assume "x \<in> ?A"
    then consider "x = (layout_of (Suc h), pos)"
      | j js where "j \<le> node_len n" "is_node h (edges n ! j) js" "x = (layout_at h js, rev js @ j # pos)"
      unfolding Suc.IH by auto
    then show "x \<in> ?B"
    proof cases
      case 1
      then show ?thesis by (auto intro!: exI [of _ "[]"] simp: layout_at_def)
    next
      case 2
      then show ?thesis using up [of j js, symmetric] by (auto intro!: exI [of _ "j # js"])
    qed
  next
    fix x assume "x \<in> ?B"
    then obtain js where js: "is_node (Suc h) n js" "x = (layout_at (Suc h) js, rev js @ pos)" by blast
    then show "x \<in> ?A" unfolding Suc.IH by (cases js) (auto simp: layout_at_def)
  qed
  finally show ?case .
qed

lemma distinct_post: "distinct (map snd (post h n pos))"
proof (induction h arbitrary: n pos)
  case (Suc h)
  have snd: "x \<in> snd ` set (post h c (j # pos)) \<longleftrightarrow> (\<exists>js. is_node h c js \<and> x = rev js @ j # pos)" for x c j
    unfolding set_post by (auto simp: image_iff)
  have "distinct (concat (map (\<lambda>j. map snd (post h (edges n ! j) (j # pos))) [0..<Suc (node_len n)]))"
    unfolding distinct_concat_iff
  proof (intro conjI ballI allI impI)
    have "inj_on (\<lambda>j. map snd (post h (edges n ! j) (j # pos))) {0..<Suc (node_len n)}"
    proof (rule inj_onI)
      fix i j assume e: "map snd (post h (edges n ! i) (i # pos)) = map snd (post h (edges n ! j) (j # pos))"
      have "i # pos \<in> snd ` set (post h (edges n ! i) (i # pos))" unfolding snd by (intro exI [of _ "[]"]) simp
      then have "i # pos \<in> snd ` set (post h (edges n ! j) (j # pos))" using e by (metis list.set_map)
      then show "i = j" unfolding snd by (auto simp: append_eq_Cons_conv)
    qed
    then show "distinct (removeAll [] (map (\<lambda>j. map snd (post h (edges n ! j) (j # pos))) [0..<Suc (node_len n)]))"
      by (intro distinct_removeAll) (simp add: distinct_map del: upt_Suc)
  next
    fix xs assume "xs \<in> set (map (\<lambda>j. map snd (post h (edges n ! j) (j # pos))) [0..<Suc (node_len n)])"
    then show "distinct xs" using Suc.IH by auto
  next
    fix xs ys assume xy: "xs \<in> set (map (\<lambda>j. map snd (post h (edges n ! j) (j # pos))) [0..<Suc (node_len n)]) \<and>
      ys \<in> set (map (\<lambda>j. map snd (post h (edges n ! j) (j # pos))) [0..<Suc (node_len n)]) \<and> xs \<noteq> ys"
    then obtain i j where ij: "xs = map snd (post h (edges n ! i) (i # pos))" "ys = map snd (post h (edges n ! j) (j # pos))" "i \<noteq> j"
      by auto
    have "i = j" if "x \<in> set xs" "x \<in> set ys" for x
    proof -
      from that ij(1,2) obtain js ks where "x = rev js @ i # pos" "x = rev ks @ j # pos" by (auto simp: snd)
      then have "drop (length x - length (i # pos)) x = i # pos" "drop (length x - length (j # pos)) x = j # pos" by simp_all
      then show ?thesis by simp
    qed
    then show "set xs \<inter> set ys = {}" using ij(3) by auto
  qed
  moreover have "pos \<notin> snd ` set (post h c (j # pos))" for c j unfolding snd by auto
  ultimately show ?case by (auto simp: map_concat comp_def)
qed simp

section \<open>What is still to be freed\<close>

fun up_frees :: "nat \<Rightarrow> ('k, 'v) path \<Rightarrow> frees" where
  "up_frees h [] = []"
| "up_frees h ((ks, es, i) # p) =
     concat (map (\<lambda>j. post h (es ! j) (j # path_indices p)) [Suc i..<Suc (length ks)]) @
     (layout_of (Suc h), path_indices p) # up_frees (Suc h) p"

definition to_free :: "nat \<Rightarrow> ('k, 'v) path \<Rightarrow> frees" where
  "to_free h p = (layout_of h, path_indices p) # up_frees h p"

lemma path_indices_Cons [simp]: "path_indices ((ks, es, i) # p) = i # path_indices p" "path_indices [] = []"
  by (simp_all add: path_indices_def)

lemma to_free_first:
  "shape h c \<Longrightarrow> first_leaf_edge h c p = (leaf, i, q) \<Longrightarrow> to_free 0 q = post h c (path_indices p) @ up_frees h p"
proof (induction h arbitrary: c p)
  case 0
  then show ?case by (simp add: to_free_def)
next
  case (Suc h)
  have "shape h (edges c ! 0)" using Suc.prems(1) by auto
  from Suc.IH [OF this] Suc.prems(2)
  have "to_free 0 q = post h (edges c ! 0) (0 # path_indices p) @ up_frees h ((kvs c, edges c, 0) # p)"
    by (simp add: descend_def)
  moreover have "[0..<Suc (node_len c)] = 0 # [Suc 0..<Suc (node_len c)]" by (rule upt_conv_Cons) simp
  ultimately show ?case by (simp del: upt_Suc)
qed

lemma up_frees_cong: "(\<And>j. i < j \<Longrightarrow> es ! j = es' ! j) \<Longrightarrow> up_frees h ((ks, es, i) # p) = up_frees h ((ks, es', i) # p)"
  by (auto intro!: arg_cong [where f = concat])

lemma into_up_ok:
  assumes "cursor h n p" "next_up h n p = Some (kv, leaf, i, q)"
  shows "\<exists>fr'. into_up h n p fr = Some ((kv, leaf, i, q), fr') \<and> fr' @ to_free 0 q = fr @ to_free h p"
  using assms
proof (induction p arbitrary: h n fr)
  case (Cons f p)
  obtain ks es j where f: "f = (ks, es, j)" by (cases f)
  let ?pa = "Node ks (es[j := n])" let ?fr = "fr @ [(layout_of h, path_indices (f # p))]"
  have cu: "cursor (Suc h) ?pa p" using cursor_parent Cons.prems(1) f by blast
  have len: "length es = Suc (length ks)" "j \<le> length ks" using Cons.prems(1) f unfolding cursor_def by auto
  show ?case
  proof (cases "j < length ks")
    case True
    let ?q = "(ks, es[j := n], Suc j) # p"
    have fl: "first_leaf_edge h (es ! Suc j) ?q = (leaf, i, q)" "kv = ks ! j"
      using Cons.prems(2) f True by (auto simp: right_kv_def descend_def Let_def)
    have "es ! Suc j \<in> set (es[j := n])" using True len nth_mem [of "Suc j" "es[j := n]"] by simp
    then have "shape h (es ! Suc j)" using cu by (simp add: cursor_def)
    then have "to_free 0 q = post h (es ! Suc j) (Suc j # path_indices p) @ up_frees h ?q"
      using to_free_first [OF _ fl(1)] by simp
    moreover have "up_frees h ?q = up_frees h ((ks, es, Suc j) # p)" by (rule up_frees_cong) simp
    moreover have "[Suc j..<Suc (length ks)] = Suc j # [Suc (Suc j)..<Suc (length ks)]" using True by (intro upt_conv_Cons) simp
    ultimately have "to_free 0 q = up_frees h (f # p)" using f by (simp del: upt_Suc)
    then show ?thesis
      using f True fl
      by (subst into_up.simps) (simp add: deallocate_and_ascend_def right_kv_def descend_def to_free_def)
  next
    case False
    then have "next_up (Suc h) ?pa p = Some (kv, leaf, i, q)" using Cons.prems(2) f by (simp add: right_kv_def)
    from Cons.IH [OF cu this, of ?fr] obtain fr' where
      fr': "into_up (Suc h) ?pa p ?fr = Some ((kv, leaf, i, q), fr')" "fr' @ to_free 0 q = ?fr @ to_free (Suc h) p" by blast
    have "up_frees h (f # p) = to_free (Suc h) p" using f False len by (simp add: to_free_def)
    then show ?thesis
      using f False fr' by (subst into_up.simps) (simp add: deallocate_and_ascend_def right_kv_def to_free_def)
  qed
qed simp

lemma into_next_ok:
  assumes it: "into_front it = (n, i, p)" "cursor 0 n p" "i \<le> node_len n" "drop i (kvs n) @ rights p = x # xs"
    "into_length it = Suc (length xs)"
  shows "\<exists>it' n' i' p'. into_next it = Some (Some x, it') \<and> into_front it' = (n', i', p') \<and> cursor 0 n' p' \<and> i' \<le> node_len n' \<and>
     drop i' (kvs n') @ rights p' = xs \<and> into_length it' = length xs \<and> into_shared it' = into_shared it \<and>
     freed it' @ to_free 0 p' = freed it @ to_free 0 p"
proof (cases "i < node_len n")
  case True
  have "into_next it = Some (Some x, it\<lparr>into_length := length xs, into_front := (n, Suc i, p)\<rparr>)"
    "drop (Suc i) (kvs n) @ rights p = xs"
    using True it by (auto simp: into_next_def right_kv_def Let_def Cons_nth_drop_Suc [symmetric])
  then show ?thesis using it True by auto
next
  case False
  then have "rights p = x # xs" using it by simp
  from next_up_ok [OF it(2) this] obtain leaf q where
    q: "next_up 0 n p = Some (x, leaf, 0, q)" "cursor 0 leaf q" "kvs leaf @ rights q = xs" by blast
  from into_up_ok [OF it(2) q(1), of "freed it"] obtain fr where
    fr: "into_up 0 n p (freed it) = Some ((x, leaf, 0, q), fr)" "fr @ to_free 0 q = freed it @ to_free 0 p" by blast
  have "into_next it = Some (Some x, it\<lparr>into_length := length xs, into_front := (leaf, 0, q), freed := fr\<rparr>)"
    using False it fr(1) by (simp add: into_next_def right_kv_def Let_def)
  then show ?thesis using q fr(2) by auto
qed

lemma into_drain_ok:
  assumes "into_front it = (n, i, p)" "cursor 0 n p" "i \<le> node_len n" "drop i (kvs n) @ rights p = xs"
    "into_length it = length xs"
  shows "\<exists>it' n' i' p'. into_drain it = Some (xs, it') \<and> into_front it' = (n', i', p') \<and> cursor 0 n' p' \<and> rights p' = [] \<and>
     into_shared it' = into_shared it \<and> freed it' @ to_free 0 p' = freed it @ to_free 0 p"
  using assms
proof (induction xs arbitrary: it n i p)
  case Nil
  then show ?case by (subst into_drain.simps) (simp add: into_next_def)
next
  case (Cons x xs)
  have "into_length it = Suc (length xs)" using Cons.prems(5) by simp
  from into_next_ok [OF Cons.prems(1-4) this] obtain it' n' i' p' where
    1: "into_next it = Some (Some x, it')" and 2: "into_front it' = (n', i', p')" "cursor 0 n' p'" "i' \<le> node_len n'"
      "drop i' (kvs n') @ rights p' = xs" "into_length it' = length xs"
    and 3: "into_shared it' = into_shared it" "freed it' @ to_free 0 p' = freed it @ to_free 0 p" by blast
  show ?case using Cons.IH [OF 2] 1 3 by (subst into_drain.simps) auto
qed

lemma dealloc_spine_ok: "path_shape h p \<Longrightarrow> rights p = [] \<Longrightarrow> dealloc_spine h n p fr = fr @ to_free h p"
proof (induction p arbitrary: h n fr)
  case Nil
  then show ?case by (subst dealloc_spine.simps) (simp add: deallocate_and_ascend_def to_free_def)
next
  case (Cons f p)
  obtain ks es i where f: "f = (ks, es, i)" by (cases f)
  have ps: "length es = Suc (length ks)" "i \<le> length ks" "path_shape (Suc h) p" using Cons.prems(1) f by simp_all
  have "i = length ks"
  proof (rule ccontr)
    assume "i \<noteq> length ks"
    then show False using after_split [of "map to_list es" ks i] ps Cons.prems(2) f by simp
  qed
  then show ?case
    using Cons.IH [OF ps(3), of "Node ks (es[i := n])" "fr @ [(layout_of h, path_indices (f # p))]"] Cons.prems(2) f
    by (subst dealloc_spine.simps) (simp add: deallocate_and_ascend_def to_free_def)
qed

lemma into_iter_start:
  assumes inv: "map_inv m"
  obtains leaf q where "into_front (btree_into_iter m) = (leaf, 0, q)" "cursor 0 leaf q" "kvs leaf @ rights q = entries m"
    "to_free 0 q = post (height m) (root m) []"
proof -
  have c: "cursor (height m) (root m) []" using inv by (simp add: map_inv_def cursor_root)
  then have sh: "shape (height m) (root m)" by (simp add: cursor_def)
  obtain leaf q where q: "first_leaf_edge (height m) (root m) [] = (leaf, 0, q)" "cursor 0 leaf q" "kvs leaf @ rights q = entries m"
    using first_leaf_cursor [OF c] by (metis append_Nil2 entries_def rights.simps(1))
  then show thesis using that to_free_first [OF sh q(1)] by (simp add: btree_into_iter_def)
qed

lemma into_drain_entries:
  assumes "map_inv m"
  shows "\<exists>it. into_drain (btree_into_iter m) = Some (entries m, it)"
proof -
  obtain leaf q where q: "into_front (btree_into_iter m) = (leaf, 0, q)" "cursor 0 leaf q" "kvs leaf @ rights q = entries m"
    using into_iter_start [OF assms] by blast
  have l: "into_length (btree_into_iter m) = length (entries m)" using assms by (simp add: btree_into_iter_def map_inv_def)
  show ?thesis using into_drain_ok [OF q(1,2) _ _ l] q(3) by auto
qed

text \<open>Dropping a map drops every entry once, in key order, and frees every node of the tree exactly once, with
  the layout of its kind; the static empty root is never freed.\<close>

lemma btree_drop_frees_all:
  assumes inv: "map_inv m"
  shows "\<exists>fr. btree_drop m = Some (entries m, fr) \<and> distinct (map snd fr) \<and>
     set fr = (if shared_root m then {}
               else {(layout_at (height m) js, rev js) | js. is_node (height m) (root m) js})"
proof -
  obtain leaf q where q: "into_front (btree_into_iter m) = (leaf, 0, q)" "cursor 0 leaf q" "kvs leaf @ rights q = entries m"
    "to_free 0 q = post (height m) (root m) []" using into_iter_start [OF inv] by blast
  have l: "into_length (btree_into_iter m) = length (entries m)" using inv by (simp add: btree_into_iter_def map_inv_def)
  obtain it n' i' p' where it: "into_drain (btree_into_iter m) = Some (entries m, it)" "into_front it = (n', i', p')" "cursor 0 n' p'"
    "rights p' = []" "into_shared it = shared_root m" "freed it @ to_free 0 p' = post (height m) (root m) []"
    using into_drain_ok [OF q(1,2) _ _ l] q(3,4) by (auto simp: btree_into_iter_def)
  show ?thesis
  proof (cases "shared_root m")
    case True
    then have "height m = 0" using inv by (simp add: map_inv_def)
    then have "length (freed it @ to_free 0 p') = 1" unfolding it(6) by simp
    then have "freed it = []" by (simp add: to_free_def)
    then show ?thesis using True it by (simp add: btree_drop_def into_drop_def)
  next
    case False
    have "path_shape 0 p'" using it(3) by (simp add: cursor_def)
    then have "dealloc_spine 0 n' p' (freed it) = post (height m) (root m) []" using dealloc_spine_ok it(4,6) by metis
    then show ?thesis
      using False it distinct_post [of "height m" "root m" "[]"] by (simp add: btree_drop_def into_drop_def set_post)
  qed
qed

lemma btree_drop_frees_all_witness:
  "\<exists>fr. btree_drop two_levels = Some (entries two_levels, fr) \<and> distinct (map snd fr) \<and>
     (InternalLayout, []) \<in> set fr \<and> (LeafLayout, [0]) \<in> set fr"
proof -
  have "\<not> shared_root two_levels"
    by (simp add: two_levels_def btree_insert_def ensure_root_is_owned_def full_leaf_def search_node_def
        search_linear_def upto.simps vacant_insert_def leaf_insert_def leaf_split_def always_def)
  moreover have "(InternalLayout, []) = (layout_at 1 [], rev [])" "(LeafLayout, [0 :: nat]) = (layout_at 1 [0], rev [0])"
    by (simp_all add: layout_at_def layout_of_def)
  moreover have "is_node 1 (root two_levels) []" "is_node 1 (root two_levels) [0]" by simp_all
  ultimately show ?thesis
    using btree_drop_frees_all [of two_levels] btree_height_bound_witness by auto
qed

end
