(* ===== verification/BTree_Bulk.thy ===== *)
theory BTree_Bulk
  imports BTree_Into
begin

text \<open>
  The bulk operations of the B-tree map in \<open>alloc_collections/src/btree/map.rs\<close>: \<open>append\<close>, which
  merges two maps into a sorted sequence and builds a tree from it, \<open>split_off\<close>, which cuts a tree in
  two, and \<open>clone\<close>; with the node operations of \<open>node.rs\<close> they need.

  \<^item> The loops that walk down a border of a tree and change it in place are recursions on the
    height that put the changed child back.
  \<^item> \<open>None\<close> is a failed \<open>debug_assert!\<close> or an \<open>unreachable!()\<close>; the theorems show that neither
    happens on well-formed maps.
\<close>

section \<open>node.rs: moving many entries\<close>

definition push_level :: "'a allocator \<Rightarrow> ('k, 'v) node \<Rightarrow> 'a \<Rightarrow> (alloc_err + ('k, 'v) node) \<times> 'a" where
  "push_level al n a =
     (case al a of
        (False, a) \<Rightarrow> (Inl AllocErr, a)
      | (True, a) \<Rightarrow> (Inr (Node [] [n]), a))"

text \<open>The new root and the height; the old root is deallocated.\<close>

definition pop_level :: "('k, 'v) node \<times> nat \<Rightarrow> (('k, 'v) node \<times> nat) option" where
  "pop_level = (\<lambda>(n, h). if h = 0 then None else Some (edges n ! 0, h - 1))"

text \<open>\<open>h\<close> is the height of the two children.\<close>

definition bulk_steal_left :: "nat \<Rightarrow> nat \<Rightarrow> ('k, 'v) node \<Rightarrow> nat \<Rightarrow> ('k, 'v) node option" where
  "bulk_steal_left h count n idx =
     (let left = edges n ! idx; left_len = node_len left;
          right = edges n ! (idx + 1); right_len = node_len right;
          new_left_len = left_len - count
      in
        if right_len + count > CAPACITY \<or> left_len < count \<or> count = 0 then None
        else
          let right_kvs = take (count - 1) (drop (new_left_len + 1) (kvs left)) @ kvs n ! idx # kvs right;
              right_edges = (if h = 0 then edges right
                             else take count (drop (new_left_len + 1) (edges left)) @ edges right);
              left' = Node (take new_left_len (kvs left))
                        (if h = 0 then edges left else take (new_left_len + 1) (edges left))
          in Some (Node ((kvs n)[idx := kvs left ! new_left_len])
                     ((edges n)[idx := left', idx + 1 := Node right_kvs right_edges])))"

definition bulk_steal_right :: "nat \<Rightarrow> nat \<Rightarrow> ('k, 'v) node \<Rightarrow> nat \<Rightarrow> ('k, 'v) node option" where
  "bulk_steal_right h count n idx =
     (let left = edges n ! idx; left_len = node_len left;
          right = edges n ! (idx + 1); right_len = node_len right
      in
        if left_len + count > CAPACITY \<or> right_len < count \<or> count = 0 then None
        else
          let left_kvs = kvs left @ kvs n ! idx # take (count - 1) (kvs right);
              left_edges = (if h = 0 then edges left else edges left @ take count (edges right));
              right' = Node (drop count (kvs right)) (if h = 0 then edges right else drop count (edges right))
          in Some (Node ((kvs n)[idx := kvs right ! (count - 1)])
                     ((edges n)[idx := Node left_kvs left_edges, idx + 1 := right'])))"

definition move_suffix :: "nat \<Rightarrow> ('k, 'v) node \<Rightarrow> nat \<Rightarrow> ('k, 'v) node
    \<Rightarrow> (('k, 'v) node \<times> ('k, 'v) node) option" where
  "move_suffix h n idx right =
     (if node_len right \<noteq> 0 then None
      else Some (Node (take idx (kvs n)) (if h = 0 then edges n else take (idx + 1) (edges n)),
                 Node (drop idx (kvs n))
                   (if h = 0 then edges right else take 1 (edges right) @ drop (idx + 1) (edges n))))"

section \<open>map.rs: append\<close>

text \<open>An iterator is given by the items it will still yield.\<close>

definition merge_iter_next :: "('k :: linorder \<times> 'v) list \<times> ('k \<times> 'v) list
    \<Rightarrow> ('k \<times> 'v) option \<times> ('k \<times> 'v) list \<times> ('k \<times> 'v) list" where
  "merge_iter_next = (\<lambda>(left, right).
     case (left, right) of
       ([], []) \<Rightarrow> (None, left, right)
     | (l # ls, []) \<Rightarrow> (Some l, ls, right)
     | ([], r # rs) \<Rightarrow> (Some r, left, rs)
     | (l # ls, r # rs) \<Rightarrow>
         (if fst l < fst r then (Some l, ls, right)
          else if fst r < fst l then (Some r, left, rs)
          else (Some r, ls, rs)))"

text \<open>The loop that looks for an open node above a full one; at the top a new root is made.  The
  result is the open node, its height and its path; with an error, the root and its height.\<close>

fun find_open :: "'a allocator \<Rightarrow> nat \<Rightarrow> ('k, 'v) node \<Rightarrow> ('k, 'v) path \<Rightarrow> 'a
    \<Rightarrow> (alloc_err + unit) \<times> ('k, 'v) node \<times> nat \<times> ('k, 'v) path \<times> 'a" where
  "find_open al h test_node [] a =
     (case push_level al test_node a of
        (Inl e, a) \<Rightarrow> (Inl e, test_node, h, [], a)
      | (Inr rt, a) \<Rightarrow> (Inr (), rt, Suc h, [], a))"
| "find_open al h test_node ((ks, es, i) # p) a =
     (let parent = Node ks (es[i := test_node]) in
      if node_len parent < CAPACITY then (Inr (), parent, Suc h, p, a)
      else find_open al (Suc h) parent p a)"

text \<open>\<open>Root::new_leaf\<close> followed by \<open>push_level\<close> for every level.\<close>

fun push_levels :: "'a allocator \<Rightarrow> nat \<Rightarrow> ('k, 'v) node \<Rightarrow> 'a \<Rightarrow> (alloc_err + ('k, 'v) node) \<times> 'a" where
  "push_levels al 0 n a = (Inr n, a)"
| "push_levels al (Suc k) n a =
     (case push_level al n a of
        (Inl e, a) \<Rightarrow> (Inl e, a)
      | (Inr n, a) \<Rightarrow> push_levels al k n a)"

definition empty_tree :: "'a allocator \<Rightarrow> nat \<Rightarrow> 'a \<Rightarrow> (alloc_err + ('k, 'v) node) \<times> 'a" where
  "empty_tree al h a =
     (case al a of
        (False, a) \<Rightarrow> (Inl AllocErr, a)
      | (True, a) \<Rightarrow> push_levels al h (Node [] []) a)"

text \<open>One turn of the loop of \<open>from_sorted_iter\<close>: the current leaf with its path, or, with an error, the
  root and the height of the tree.\<close>

definition sorted_push :: "'a allocator \<Rightarrow> 'k \<times> 'v \<Rightarrow> ('k, 'v) node \<Rightarrow> ('k, 'v) path \<Rightarrow> 'a
    \<Rightarrow> (('k, 'v) node \<times> nat + ('k, 'v) node \<times> ('k, 'v) path) \<times> 'a" where
  "sorted_push al kv cur_node p a =
     (if node_len cur_node < CAPACITY then (Inr (leaf_push cur_node kv, p), a)
      else
        (case find_open al 0 cur_node p a of
           (Inl e, rt, h, _, a) \<Rightarrow> (Inl (rt, h), a)
         | (Inr _, open_node, h, q, a) \<Rightarrow>
             let tree_height = h - 1 in
             (case empty_tree al tree_height a of
                (Inl e, a) \<Rightarrow> (Inl (plug q open_node, h + length q), a)
              | (Inr right_tree, a) \<Rightarrow>
                  (case last_leaf_edge h (internal_push open_node kv right_tree) q of
                     (n, _, p) \<Rightarrow> (Inr (n, p), a)))))"

fun sorted_loop :: "'a allocator \<Rightarrow> ('k, 'v) node \<Rightarrow> ('k, 'v) path \<Rightarrow> nat \<Rightarrow> ('k \<times> 'v) list \<Rightarrow> 'a
    \<Rightarrow> (alloc_err + unit) \<times> ('k, 'v) node \<times> nat \<times> nat \<times> 'a" where
  "sorted_loop al cur_node p len [] a = (Inr (), plug p cur_node, length p, len, a)"
| "sorted_loop al cur_node p len (kv # iter) a =
     (case sorted_push al kv cur_node p a of
        (Inl (rt, h), a) \<Rightarrow> (Inl AllocErr, rt, h, len, a)
      | (Inr (cur_node, p), a) \<Rightarrow> sorted_loop al cur_node p (len + 1) iter a)"

definition from_sorted_iter :: "'a allocator \<Rightarrow> ('k, 'v) btree_map \<Rightarrow> ('k \<times> 'v) list \<Rightarrow> 'a
    \<Rightarrow> (alloc_err + unit) \<times> ('k, 'v) btree_map \<times> 'a" where
  "from_sorted_iter al m iter a =
     (case ensure_root_is_owned al m a of
        (Inl e, m, a) \<Rightarrow> (Inl e, m, a)
      | (Inr _, m, a) \<Rightarrow>
          (case last_leaf_edge (height m) (root m) [] of
             (cur_node, _, p) \<Rightarrow>
               (case sorted_loop al cur_node p (map_length m) iter a of
                  (r, n, h, len, a) \<Rightarrow> (r, m\<lparr>root := n, height := h, map_length := len\<rparr>, a))))"

fun fix_right_edge :: "nat \<Rightarrow> ('k, 'v) node \<Rightarrow> ('k, 'v) node option" where
  "fix_right_edge 0 n = Some n"
| "fix_right_edge (Suc h) n =
     (let last_edge = node_len n; right_child_len = node_len (edges n ! last_edge) in
      do {
        n \<leftarrow> (if right_child_len < MIN_LEN
             then Option.bind (left_kv (n, last_edge, [])) (bulk_steal_left h (MIN_LEN - right_child_len) n)
             else Some n);
        c \<leftarrow> fix_right_edge h (edges n ! last_edge);
        Some (Node (kvs n) ((edges n)[last_edge := c])) })"

text \<open>The items that the merging iterator yields, run to its end; there is at least one item less
  after each call.\<close>

function merge_iter_items :: "('k :: linorder \<times> 'v) list \<times> ('k \<times> 'v) list \<Rightarrow> ('k \<times> 'v) list" where
  "merge_iter_items it =
     (case merge_iter_next it of
        (None, _) \<Rightarrow> []
      | (Some kv, it') \<Rightarrow> kv # merge_iter_items it')"
  by pat_completeness auto
termination
  by (relation "measure (\<lambda>(ls, rs). length ls + length rs)")
     (auto simp: merge_iter_next_def split: prod.splits list.splits if_splits)

declare merge_iter_items.simps [simp del]

text \<open>The merging iterator runs the owning iterators of the two maps.  The third component of the result is
  \<open>other\<close> afterwards.\<close>

definition btree_append :: "'a allocator \<Rightarrow> ('k :: linorder, 'v) btree_map \<Rightarrow> ('k, 'v) btree_map \<Rightarrow> 'a
    \<Rightarrow> ((alloc_err + unit) \<times> ('k, 'v) btree_map \<times> ('k, 'v) btree_map \<times> 'a) option" where
  "btree_append al m other a =
     (if map_length other = 0 then Some (Inr (), m, other, a)
      else if map_length m = 0 then Some (Inr (), other, m, a)
      else do {
        (self_iter, _) \<leftarrow> into_drain (btree_into_iter m);
        (other_iter, _) \<leftarrow> into_drain (btree_into_iter other);
        (case from_sorted_iter al btree_new (merge_iter_items (self_iter, other_iter)) a of
           (Inl e, m, a) \<Rightarrow> Some (Inl e, m, btree_new, a)
         | (Inr _, m, a) \<Rightarrow> do {
             n \<leftarrow> fix_right_edge (height m) (root m);
             Some (Inr (), m\<lparr>root := n\<rparr>, btree_new, a) }) })"

section \<open>map.rs: split\_off\<close>

fun dfs :: "nat \<Rightarrow> ('k, 'v) node \<Rightarrow> nat" where
  "dfs 0 n = node_len n"
| "dfs (Suc h) n = node_len n + sum_list (map (\<lambda>i. dfs h (edges n ! i)) [0..<node_len n + 1])"

definition recalc_length :: "('k, 'v) btree_map \<Rightarrow> ('k, 'v) btree_map" where
  "recalc_length m = m\<lparr>map_length := dfs (height m) (root m)\<rparr>"

fun fix_top :: "nat \<Rightarrow> ('k, 'v) node \<Rightarrow> ('k, 'v) node \<times> nat" where
  "fix_top 0 n = (n, 0)"
| "fix_top (Suc h) n = (if node_len n > 0 then (n, Suc h) else fix_top h (edges n ! 0))"

text \<open>\<open>first_kv\<close> and \<open>last_kv\<close> need an entry.\<close>

fun right_border_loop :: "nat \<Rightarrow> ('k, 'v) node \<Rightarrow> ('k, 'v) node option" where
  "right_border_loop 0 n = Some n"
| "right_border_loop (Suc h) n =
     (if node_len n = 0 then None
      else
        let last_kv = node_len n - 1 in
        if can_merge n last_kv then
          let n = merge (Suc h) n last_kv in
          do { c \<leftarrow> right_border_loop h (edges n ! last_kv);
               Some (Node (kvs n) ((edges n)[last_kv := c])) }
        else
          let right_len = node_len (edges n ! (last_kv + 1)) in
          do { n \<leftarrow> (if right_len < MIN_LEN + 1 then bulk_steal_left h (MIN_LEN + 1 - right_len) n last_kv
                    else Some n);
               c \<leftarrow> right_border_loop h (edges n ! (last_kv + 1));
               Some (Node (kvs n) ((edges n)[last_kv + 1 := c])) })"

fun left_border_loop :: "nat \<Rightarrow> ('k, 'v) node \<Rightarrow> ('k, 'v) node option" where
  "left_border_loop 0 n = Some n"
| "left_border_loop (Suc h) n =
     (if node_len n = 0 then None
      else if can_merge n 0 then
        let n = merge (Suc h) n 0 in
        do { c \<leftarrow> left_border_loop h (edges n ! 0); Some (Node (kvs n) ((edges n)[0 := c])) }
      else
        let left_len = node_len (edges n ! 0) in
        do { n \<leftarrow> (if left_len < MIN_LEN + 1 then bulk_steal_right h (MIN_LEN + 1 - left_len) n 0 else Some n);
             c \<leftarrow> left_border_loop h (edges n ! 0);
             Some (Node (kvs n) ((edges n)[0 := c])) })"

definition fix_right_border :: "('k, 'v) btree_map \<Rightarrow> ('k, 'v) btree_map option" where
  "fix_right_border m = do {
     let (n, h) = fix_top (height m) (root m);
     n \<leftarrow> right_border_loop h n;
     let (n, h) = fix_top h n;
     Some (m\<lparr>root := n, height := h\<rparr>) }"

definition fix_left_border :: "('k, 'v) btree_map \<Rightarrow> ('k, 'v) btree_map option" where
  "fix_left_border m = do {
     let (n, h) = fix_top (height m) (root m);
     n \<leftarrow> left_border_loop h n;
     let (n, h) = fix_top h n;
     Some (m\<lparr>root := n, height := h\<rparr>) }"

text \<open>The loop that moves what is not below \<open>key\<close> from the left tree to the empty right one.\<close>

fun split_loop :: "nat \<Rightarrow> 'k :: linorder \<Rightarrow> ('k, 'v) node \<Rightarrow> ('k, 'v) node
    \<Rightarrow> (('k, 'v) node \<times> ('k, 'v) node) option" where
  "split_loop h key left_node right_node =
     (let split_edge = (case search_node h left_node [] key of Found _ (n, i, p) \<Rightarrow> i | GoDown (n, i, p) \<Rightarrow> i) in
      do {
        (l, r) \<leftarrow> move_suffix h left_node split_edge right_node;
        (case h of
           0 \<Rightarrow> Some (l, r)
         | Suc h \<Rightarrow> do {
             (c, d) \<leftarrow> split_loop h key (edges l ! split_edge) (edges r ! 0);
             Some (Node (kvs l) ((edges l)[split_edge := c]), Node (kvs r) ((edges r)[0 := d])) }) })"

declare split_loop.simps [simp del]

definition btree_split_off :: "'a allocator \<Rightarrow> ('k :: linorder, 'v) btree_map \<Rightarrow> 'k \<Rightarrow> 'a
    \<Rightarrow> ((alloc_err + ('k, 'v) btree_map) \<times> ('k, 'v) btree_map \<times> 'a) option" where
  "btree_split_off al m key a =
     (if map_length m = 0 then Some (Inr btree_new, m, a)
      else
        let total_num = map_length m in
        (case empty_tree al (height m) a of
           (Inl e, a) \<Rightarrow> Some (Inl e, m, a)
         | (Inr rt, a) \<Rightarrow> do {
             (l, r) \<leftarrow> split_loop (height m) key (root m) rt;
             m' \<leftarrow> fix_right_border (m\<lparr>root := l\<rparr>);
             right \<leftarrow> fix_left_border \<lparr>root = r, height = height m, shared_root = False, map_length = 0\<rparr>;
             (if height m' < height right then
                let m' = recalc_length m' in
                Some (Inr (right\<lparr>map_length := total_num - map_length m'\<rparr>), m', a)
              else
                let right = recalc_length right in
                Some (Inr right, m'\<lparr>map_length := total_num - map_length right\<rparr>, a)) }))"

section \<open>map.rs: clone\<close>

text \<open>\<open>ck\<close> and \<open>cv\<close> are the \<open>Clone\<close> implementations of keys and values.  The second loop goes over the
  entries of an internal node and the subtrees right of them.\<close>

fun clone_entries :: "(('k, 'v) node \<Rightarrow> 'a \<Rightarrow> (alloc_err + ('k, 'v) node \<times> nat) \<times> 'a) \<Rightarrow> ('k \<Rightarrow> 'k) \<Rightarrow> ('v \<Rightarrow> 'v)
    \<Rightarrow> (('k \<times> 'v) \<times> ('k, 'v) node) list \<Rightarrow> ('k, 'v) node \<Rightarrow> nat \<Rightarrow> 'a
    \<Rightarrow> (alloc_err + ('k, 'v) node \<times> nat) \<times> 'a" where
  "clone_entries clone ck cv [] out_node len a = (Inr (out_node, len), a)"
| "clone_entries clone ck cv (((k, v), e) # es) out_node len a =
     (case clone e a of
        (Inl e, a) \<Rightarrow> (Inl e, a)
      | (Inr (subroot, sublength), a) \<Rightarrow>
          clone_entries clone ck cv es (internal_push out_node (ck k, cv v) subroot) (len + 1 + sublength) a)"

fun clone_subtree :: "'a allocator \<Rightarrow> ('k \<Rightarrow> 'k) \<Rightarrow> ('v \<Rightarrow> 'v) \<Rightarrow> nat \<Rightarrow> ('k, 'v) node \<Rightarrow> 'a
    \<Rightarrow> (alloc_err + ('k, 'v) node \<times> nat) \<times> 'a" where
  "clone_subtree al ck cv 0 n a =
     (case al a of
        (False, a) \<Rightarrow> (Inl AllocErr, a)
      | (True, a) \<Rightarrow>
          (Inr (foldl (\<lambda>out (k, v). leaf_push out (ck k, cv v)) (Node [] []) (kvs n), node_len n), a))"
| "clone_subtree al ck cv (Suc h) n a =
     (case clone_subtree al ck cv h (edges n ! 0) a of
        (Inl e, a) \<Rightarrow> (Inl e, a)
      | (Inr (out, len), a) \<Rightarrow>
          (case push_level al out a of
             (Inl e, a) \<Rightarrow> (Inl e, a)
           | (Inr out_node, a) \<Rightarrow>
               clone_entries (clone_subtree al ck cv h) ck cv
                 (map (\<lambda>i. (kvs n ! i, edges n ! (i + 1))) [0..<node_len n]) out_node len a))"

definition btree_clone :: "'a allocator \<Rightarrow> ('k \<Rightarrow> 'k) \<Rightarrow> ('v \<Rightarrow> 'v) \<Rightarrow> ('k, 'v) btree_map \<Rightarrow> 'a
    \<Rightarrow> (alloc_err + ('k, 'v) btree_map) \<times> 'a" where
  "btree_clone al ck cv m a =
     (if map_length m = 0 then (Inr btree_new, a)
      else
        (case clone_subtree al ck cv (height m) (root m) a of
           (Inl e, a) \<Rightarrow> (Inl e, a)
         | (Inr (n, len), a) \<Rightarrow>
             (Inr \<lparr>root = n, height = height m, shared_root = False, map_length = len\<rparr>, a)))"

end
