(* ===== verification/BTree_Bulk_Contract.thy ===== *)
theory BTree_Bulk_Contract
  imports BTree_Bulk
begin

text \<open>
  The properties of the bulk operations.  While a tree is built from a sequence or cut in two, the nodes
  on one border may be too short; \<open>rborder\<close> and \<open>lborder\<close> describe such trees, and the repair loops turn
  them back into well-formed ones without touching the entries.
\<close>

section \<open>Trees with a short border\<close>

definition arity :: "nat \<Rightarrow> ('k, 'v) node \<Rightarrow> bool" where
  "arity h n \<longleftrightarrow> (if h = 0 then edges n = [] else length (edges n) = Suc (node_len n))"

definition sturdy :: "nat \<Rightarrow> ('k, 'v) node \<Rightarrow> bool" where
  "sturdy h n \<longleftrightarrow> 4 \<le> node_len n \<and> shape h n"

text \<open>Every node below and including this one is full.\<close>

fun packed :: "nat \<Rightarrow> ('k, 'v) node \<Rightarrow> bool" where
  "packed 0 n \<longleftrightarrow> edges n = [] \<and> node_len n = CAPACITY"
| "packed (Suc h) n \<longleftrightarrow> node_len n = CAPACITY \<and> length (edges n) = Suc (node_len n) \<and> (\<forall>e \<in> set (edges n). packed h e)"

fun rborder :: "(nat \<Rightarrow> ('k, 'v) node \<Rightarrow> bool) \<Rightarrow> nat \<Rightarrow> ('k, 'v) node \<Rightarrow> bool" where
  "rborder P 0 n \<longleftrightarrow> edges n = [] \<and> node_len n \<le> CAPACITY"
| "rborder P (Suc h) n \<longleftrightarrow> length (edges n) = Suc (node_len n) \<and> node_len n \<le> CAPACITY \<and>
     (\<forall>i < node_len n. P h (edges n ! i)) \<and> rborder P h (edges n ! node_len n)"

fun lborder :: "(nat \<Rightarrow> ('k, 'v) node \<Rightarrow> bool) \<Rightarrow> nat \<Rightarrow> ('k, 'v) node \<Rightarrow> bool" where
  "lborder P 0 n \<longleftrightarrow> edges n = [] \<and> node_len n \<le> CAPACITY"
| "lborder P (Suc h) n \<longleftrightarrow> length (edges n) = Suc (node_len n) \<and> node_len n \<le> CAPACITY \<and>
     (\<forall>i < node_len n. P h (edges n ! Suc i)) \<and> lborder P h (edges n ! 0)"

lemma min_len [simp]: "MIN_LEN = 5"
  by (simp add: MIN_LEN_def)

lemma packed_sturdy: "packed h n \<Longrightarrow> sturdy h n"
  by (induction h arbitrary: n) (auto simp: sturdy_def)

lemma rborder_arity: "rborder P h n \<Longrightarrow> arity h n"
  by (cases h) (auto simp: arity_def)

lemma lborder_arity: "lborder P h n \<Longrightarrow> arity h n"
  by (cases h) (auto simp: arity_def)

lemma shape_arity: "shape h n \<Longrightarrow> arity h n"
  by (cases h) (auto simp: arity_def)

lemma sturdy_arity: "sturdy h n \<Longrightarrow> arity h n"
  by (simp add: sturdy_def shape_arity)

lemma sturdy_len: "sturdy h n \<Longrightarrow> 4 \<le> node_len n \<and> node_len n \<le> CAPACITY"
  by (cases h) (auto simp: sturdy_def)

lemma sturdy_edge: "sturdy (Suc h) n \<Longrightarrow> i \<le> node_len n \<Longrightarrow> sturdy h (edges n ! i)"
  by (auto simp: sturdy_def)

lemma shape_edges:
  "shape (Suc h) n \<longleftrightarrow> length (edges n) = Suc (node_len n) \<and> node_len n \<le> CAPACITY \<and> (\<forall>i \<le> node_len n. sturdy h (edges n ! i))"
  by (auto simp: sturdy_def all_set_conv_all_nth less_Suc_eq_le)

text \<open>Entries and subtrees in front of a right border, or behind a left border.\<close>

lemma rborder_extend:
  assumes "rborder P (Suc h) r" "length ds = Suc (length xs)" "\<forall>d \<in> set ds. P h d"
    "length xs + node_len r < CAPACITY"
  shows "rborder P (Suc h) (Node (xs @ kv # kvs r) (ds @ edges r))"
proof -
  have "P h ((ds @ edges r) ! i)" if "i < Suc (length xs + node_len r)" for i
  proof (cases "i < length ds")
    case False
    then show ?thesis using assms that by (simp add: nth_append)
  qed (use assms(3) in \<open>simp add: nth_append\<close>)
  then show ?thesis using assms by (simp add: nth_append)
qed

lemma lborder_extend:
  assumes "lborder P (Suc h) l" "length ds = Suc (length ys)" "\<forall>d \<in> set ds. P h d"
    "length ys + node_len l < CAPACITY"
  shows "lborder P (Suc h) (Node (kvs l @ kv # ys) (edges l @ ds))"
proof -
  have "P h ((edges l @ ds) ! Suc i)" if "i < Suc (node_len l + length ys)" for i
  proof (cases "Suc i < length (edges l)")
    case False
    then show ?thesis using assms that by (simp add: nth_append)
  qed (use assms(1) in \<open>simp add: nth_append\<close>)
  then show ?thesis using assms by (simp add: nth_append)
qed

section \<open>Two neighbours\<close>

lemma pair_entries:
  assumes "length (edges n) = Suc (node_len n)" "k < node_len n"
    "to_list a @ c # to_list b = to_list (edges n ! k) @ kvs n ! k # to_list (edges n ! Suc k)"
  shows "to_list (Node ((kvs n)[k := c]) ((edges n)[k := a, Suc k := b])) = to_list n"
proof -
  let ?ls = "map to_list (edges n)"
  have "interleave (?ls[k := to_list a, Suc k := to_list b]) ((kvs n)[k := c]) =
      before ?ls (kvs n) k @ (to_list a @ c # to_list b) @ after ?ls (kvs n) (Suc k)"
    using interleave_pair [of ?ls "kvs n" k "to_list a" "to_list b" c] assms(1,2) by simp
  also have "\<dots> = interleave ?ls (kvs n)"
    unfolding assms(3) using interleave_split [of ?ls "kvs n" k] after_split [of ?ls "kvs n" k] assms(1,2) by simp
  finally show ?thesis by (cases n) (simp add: map_update)
qed

lemma child_same:
  assumes "length (edges n) = Suc (node_len n)" "i \<le> node_len n" "to_list c = to_list (edges n ! i)"
  shows "to_list (Node (kvs n) ((edges n)[i := c])) = to_list n"
proof -
  have "(map to_list (edges n))[i := to_list c] = map to_list (edges n)"
    unfolding assms(3) using assms(1,2) by (simp add: list_update_same_conv)
  then show ?thesis by (cases n) (simp add: map_update)
qed

definition joined :: "nat \<Rightarrow> ('k, 'v) node \<Rightarrow> 'k \<times> 'v \<Rightarrow> ('k, 'v) node \<Rightarrow> ('k, 'v) node" where
  "joined h l kv r = Node (kvs l @ kv # kvs r) (if h = 0 then edges l else edges l @ edges r)"

lemma leaf_entries: "edges n = [] \<Longrightarrow> to_list n = kvs n"
  by (cases n) simp

lemma node_entries: "to_list n = interleave (map to_list (edges n)) (kvs n)"
  by (cases n) simp

lemma joined_entries:
  assumes "arity h l" "arity h r"
  shows "to_list (joined h l kv r) = to_list l @ kv # to_list r"
proof (cases "h = 0")
  case True
  then show ?thesis using assms by (simp add: joined_def arity_def leaf_entries)
next
  case False
  then have "length (edges l) = Suc (node_len l)" "edges r \<noteq> []" using assms by (auto simp: arity_def)
  then show ?thesis
    using False interleave_append [of "map to_list (edges l)" "kvs l" "map to_list (edges r)" "kvs r" kv]
    by (simp add: joined_def node_entries [of l] node_entries [of r])
qed

lemma merge_joined:
  "merge (Suc h) n k = Node (take k (kvs n) @ drop (Suc k) (kvs n))
     ((take (Suc k) (edges n) @ drop (Suc (Suc k)) (edges n))[k := joined h (edges n ! k) (kvs n ! k) (edges n ! Suc k)])"
  by (simp add: merge_def slice_remove_def Let_def joined_def)

lemma merge_entries:
  assumes "length (edges n) = Suc (node_len n)" "k < node_len n" "arity h (edges n ! k)" "arity h (edges n ! Suc k)"
  shows "to_list (merge (Suc h) n k) = to_list n"
proof -
  let ?ls = "map to_list (edges n)" and ?m = "joined h (edges n ! k) (kvs n ! k) (edges n ! Suc k)"
  have "to_list (merge (Suc h) n k) = before ?ls (kvs n) k @ to_list ?m @ after ?ls (kvs n) (Suc k)"
    unfolding merge_joined using interleave_remove [of ?ls "kvs n" k "to_list ?m"] assms(1,2)
    by (simp add: map_update take_map drop_map)
  also have "\<dots> = to_list n"
    unfolding joined_entries [OF assms(3,4)]
    using interleave_split [of ?ls "kvs n" k] after_split [of ?ls "kvs n" k] assms(1,2)
    by (cases n) simp
  finally show ?thesis .
qed

text \<open>What \<open>bulk_steal_left\<close> and \<open>bulk_steal_right\<close> make of the two children.\<close>

lemma bulk_steal_left_eq:
  assumes "arity h l" "arity h r" "0 < c" "c \<le> node_len l" "node_len r + c \<le> CAPACITY"
    and lr: "l = edges n ! k" "r = edges n ! Suc k"
  defines "m \<equiv> node_len l - c"
  defines "l' \<equiv> Node (take m (kvs l)) (take (Suc m) (edges l))"
  defines "r' \<equiv> Node (drop (Suc m) (kvs l) @ kvs n ! k # kvs r) (drop (Suc m) (edges l) @ edges r)"
  shows "bulk_steal_left h c n k = Some (Node ((kvs n)[k := kvs l ! m]) ((edges n)[k := l', Suc k := r']))"
    and "to_list l' @ kvs l ! m # to_list r' = to_list l @ kvs n ! k # to_list r"
proof -
  have m: "m < node_len l" using assms(3,4) by (simp add: m_def)
  have t: "take (c - Suc 0) (drop (Suc m) (kvs l)) = drop (Suc m) (kvs l)" using assms(4) by (intro take_all) (simp add: m_def)
  have e: "take c (drop (Suc m) (edges l)) = drop (Suc m) (edges l)" if "h \<noteq> 0"
    using assms(1,4) that by (intro take_all) (simp add: m_def arity_def)
  have leaf: "edges l = []" if "h = 0" using assms(1) that by (simp add: arity_def)
  show "bulk_steal_left h c n k = Some (Node ((kvs n)[k := kvs l ! m]) ((edges n)[k := l', Suc k := r']))"
    using assms(3-5) t e leaf
    by (cases "h = 0") (simp_all add: bulk_steal_left_def Let_def lr [symmetric] m_def [symmetric] l'_def r'_def)
  show "to_list l' @ kvs l ! m # to_list r' = to_list l @ kvs n ! k # to_list r"
  proof (cases "h = 0")
    case True
    then show ?thesis using assms(1,2) id_take_nth_drop [OF m]
      by (simp add: l'_def r'_def arity_def leaf_entries)
  next
    case False
    then have len: "length (map to_list (edges l)) = Suc (node_len l)" "edges r \<noteq> []" using assms(1,2) by (auto simp: arity_def)
    have "to_list r' = interleave (drop (Suc m) (map to_list (edges l))) (drop (Suc m) (kvs l)) @ kvs n ! k # to_list r"
      using interleave_append [of "drop (Suc m) (map to_list (edges l))" "drop (Suc m) (kvs l)" "map to_list (edges r)" "kvs r" "kvs n ! k"]
        len m by (simp add: r'_def drop_map node_entries [of r])
    then show ?thesis
      using interleave_cut [OF len(1) m] by (simp add: l'_def take_map node_entries [of l])
  qed
qed

lemma bulk_steal_right_eq:
  assumes "arity h l" "arity h r" "0 < c" "c \<le> node_len r" "node_len l + c \<le> CAPACITY"
    and lr: "l = edges n ! k" "r = edges n ! Suc k"
  defines "l' \<equiv> Node (kvs l @ kvs n ! k # take (c - 1) (kvs r)) (edges l @ take c (edges r))"
  defines "r' \<equiv> Node (drop c (kvs r)) (drop c (edges r))"
  shows "bulk_steal_right h c n k = Some (Node ((kvs n)[k := kvs r ! (c - 1)]) ((edges n)[k := l', Suc k := r']))"
    and "to_list l' @ kvs r ! (c - 1) # to_list r' = to_list l @ kvs n ! k # to_list r"
proof -
  have leaf: "edges r = []" if "h = 0" using assms(2) that by (simp add: arity_def)
  show "bulk_steal_right h c n k = Some (Node ((kvs n)[k := kvs r ! (c - 1)]) ((edges n)[k := l', Suc k := r']))"
    using assms(3-5) leaf
    by (cases "h = 0") (simp_all add: bulk_steal_right_def Let_def lr [symmetric] l'_def r'_def)
  obtain d where d: "c = Suc d" "d < node_len r" using assms(3,4) by (cases c) auto
  show "to_list l' @ kvs r ! (c - 1) # to_list r' = to_list l @ kvs n ! k # to_list r"
  proof (cases "h = 0")
    case True
    then show ?thesis using assms(1,2) id_take_nth_drop [OF d(2)] d(1)
      by (simp add: l'_def r'_def arity_def leaf_entries)
  next
    case False
    then have len: "length (map to_list (edges l)) = Suc (node_len l)" "length (map to_list (edges r)) = Suc (node_len r)"
      using assms(1,2) by (auto simp: arity_def)
    have "take c (map to_list (edges r)) \<noteq> []" using d len(2) by auto
    then have "to_list l' = to_list l @ kvs n ! k # interleave (take c (map to_list (edges r))) (take d (kvs r))"
      using interleave_append [OF len(1), of "take c (map to_list (edges r))" "take d (kvs r)" "kvs n ! k"] d
      by (simp add: l'_def take_map node_entries [of l])
    then show ?thesis
      using interleave_cut [OF len(2) d(2)] d(1) by (simp add: r'_def drop_map node_entries [of r])
  qed
qed

lemma sturdy_take:
  assumes "sturdy h l" "4 \<le> m" "m \<le> node_len l"
  shows "sturdy h (Node (take m (kvs l)) (take (Suc m) (edges l)))"
  using assms sturdy_len [OF assms(1)] by (cases h) (auto simp: sturdy_def dest: in_set_takeD)

lemma sturdy_drop:
  assumes "sturdy h r" "4 + c \<le> node_len r"
  shows "sturdy h (Node (drop c (kvs r)) (drop c (edges r)))"
  using assms sturdy_len [OF assms(1)] by (cases h) (auto simp: sturdy_def dest: in_set_dropD)

text \<open>The right child after a merge or after stealing is a right border again.\<close>

lemma rborder_front:
  assumes "rborder P h r" "arity h l" "m < node_len l" "node_len l - m + node_len r \<le> CAPACITY"
    and "\<And>h'. h = Suc h' \<Longrightarrow> \<forall>d \<in> set (edges l). P h' d"
  shows "rborder P h (Node (drop (Suc m) (kvs l) @ kv # kvs r) (drop (Suc m) (edges l) @ edges r))"
proof (cases h)
  case 0
  then show ?thesis using assms by (simp add: arity_def)
next
  case (Suc h')
  have "\<forall>d \<in> set (drop (Suc m) (edges l)). P h' d" using assms(5) [OF Suc] by (auto dest: in_set_dropD)
  then show ?thesis
    using assms Suc by (intro rborder_extend [of P h' r, folded Suc]) (auto simp: arity_def)
qed

lemma rborder_joined:
  assumes "rborder P h r" "arity h l" "node_len l + node_len r < CAPACITY"
    and "\<And>h'. h = Suc h' \<Longrightarrow> \<forall>d \<in> set (edges l). P h' d"
  shows "rborder P h (joined h l kv r)"
proof (cases h)
  case 0
  then show ?thesis using assms by (simp add: arity_def joined_def)
next
  case (Suc h')
  then show ?thesis
    using assms rborder_extend [of P h' r "edges l" "kvs l" kv] by (simp add: arity_def joined_def)
qed

lemma lborder_back:
  assumes "lborder P h l" "arity h r" "0 < c" "c \<le> node_len r" "node_len l + c \<le> CAPACITY"
    and "\<And>h'. h = Suc h' \<Longrightarrow> \<forall>d \<in> set (edges r). P h' d"
  shows "lborder P h (Node (kvs l @ kv # take (c - 1) (kvs r)) (edges l @ take c (edges r)))"
proof (cases h)
  case 0
  then show ?thesis using assms by (simp add: arity_def)
next
  case (Suc h')
  have "\<forall>d \<in> set (take c (edges r)). P h' d" using assms(6) [OF Suc] by (auto dest: in_set_takeD)
  then show ?thesis
    using assms Suc by (intro lborder_extend [of P h' l, folded Suc]) (auto simp: arity_def)
qed

lemma lborder_joined:
  assumes "lborder P h l" "arity h r" "node_len l + node_len r < CAPACITY"
    and "\<And>h'. h = Suc h' \<Longrightarrow> \<forall>d \<in> set (edges r). P h' d"
  shows "lborder P h (joined h l kv r)"
proof (cases h)
  case 0
  then show ?thesis using assms by (simp add: arity_def joined_def)
next
  case (Suc h')
  then show ?thesis
    using assms lborder_extend [of P h' l "edges r" "kvs r" kv] by (simp add: arity_def joined_def)
qed

lemma sturdy_edges: "sturdy h l \<Longrightarrow> h = Suc h' \<Longrightarrow> \<forall>d \<in> set (edges l). sturdy h' d"
  by (auto simp: sturdy_def)

section \<open>Repairing the right border\<close>

lemma right_border_step_merge:
  assumes n: "rborder sturdy (Suc h) n" "0 < node_len n" and k: "k = node_len n - 1"
    and c: "sturdy h c" "to_list c = to_list (joined h (edges n ! k) (kvs n ! k) (edges n ! Suc k))"
  defines "n1 \<equiv> merge (Suc h) n k"
  defines "n' \<equiv> Node (kvs n1) ((edges n1)[k := c])"
  shows "edges n1 ! k = joined h (edges n ! k) (kvs n ! k) (edges n ! Suc k)"
    "to_list n' = to_list n" "shape (Suc h) n'" "node_len n' = k"
proof -
  let ?j = "joined h (edges n ! k) (kvs n ! k) (edges n ! Suc k)"
  have len: "length (edges n) = Suc (node_len n)" "node_len n \<le> CAPACITY" "node_len n = Suc k" using n k by simp_all
  have n1: "n1 = Node (take k (kvs n)) ((take (Suc k) (edges n))[k := ?j])"
    using len by (simp add: n1_def merge_joined)
  show j: "edges n1 ! k = ?j" using len by (simp add: n1)
  have "to_list n1 = to_list n"
    unfolding n1_def
  proof (rule merge_entries)
    show "arity h (edges n ! k)" using n(1) len by (simp add: sturdy_arity)
    show "arity h (edges n ! Suc k)" using n(1) len rborder_arity by auto
  qed (use len in simp_all)
  moreover have ln: "length (edges n1) = Suc (node_len n1)" "node_len n1 = k" using len by (simp_all add: n1)
  ultimately show "to_list n' = to_list n"
    unfolding n'_def using child_same [of n1 k c] j c(2) by simp
  show "node_len n' = k" using ln by (simp add: n'_def)
  have "sturdy h (edges n' ! i)" if "i \<le> k" for i
    using that n(1) len c(1) by (cases "i = k") (auto simp: n'_def n1 nth_list_update)
  then show "shape (Suc h) n'" unfolding shape_edges using ln len by (simp add: n'_def n1)
qed

lemma right_border_step_last:
  assumes n: "length (edges n) = Suc (node_len n)" "node_len n \<le> CAPACITY" "\<forall>i < node_len n. sturdy h (edges n ! i)"
    and c: "sturdy h c" "to_list c = to_list (edges n ! node_len n)"
  defines "n' \<equiv> Node (kvs n) ((edges n)[node_len n := c])"
  shows "to_list n' = to_list n" "shape (Suc h) n'" "node_len n' = node_len n"
proof -
  show "to_list n' = to_list n" unfolding n'_def using child_same [of n "node_len n" c] n(1) c(2) by simp
  show "node_len n' = node_len n" by (simp add: n'_def)
  have "sturdy h (edges n' ! i)" if "i \<le> node_len n" for i
    using that n c(1) by (cases "i = node_len n") (auto simp: n'_def)
  then show "shape (Suc h) n'" unfolding shape_edges using n by (simp add: n'_def)
qed

text \<open>After stealing, the last child has \<open>c\<close> entries more and is still a right border; the others are sturdy.\<close>

lemma steal_left_border:
  assumes n: "rborder P (Suc h) n" "node_len n = Suc k" and l: "P h (edges n ! k)" "sturdy h (edges n ! k)"
    and c: "0 < c" "4 + c \<le> node_len (edges n ! k)" "node_len (edges n ! Suc k) + c \<le> CAPACITY"
    and P: "\<And>h' i. h = Suc h' \<Longrightarrow> \<forall>d \<in> set (edges (edges n ! k)). P h' d"
  shows "\<exists>n1. bulk_steal_left h c n k = Some n1 \<and> to_list n1 = to_list n \<and> node_len n1 = node_len n \<and>
     length (edges n1) = Suc (node_len n1) \<and> (\<forall>i < k. edges n1 ! i = edges n ! i) \<and> sturdy h (edges n1 ! k) \<and>
     rborder P h (edges n1 ! Suc k) \<and> node_len (edges n1 ! Suc k) = node_len (edges n ! Suc k) + c"
proof -
  let ?l = "edges n ! k" and ?r = "edges n ! Suc k" let ?m = "node_len ?l - c"
  let ?l' = "Node (take ?m (kvs ?l)) (take (Suc ?m) (edges ?l))"
  let ?r' = "Node (drop (Suc ?m) (kvs ?l) @ kvs n ! k # kvs ?r) (drop (Suc ?m) (edges ?l) @ edges ?r)"
  let ?n = "Node ((kvs n)[k := kvs ?l ! ?m]) ((edges n)[k := ?l', Suc k := ?r'])"
  have len: "length (edges n) = Suc (node_len n)" and r: "rborder P h ?r" using n by simp_all
  have cl: "c \<le> node_len ?l" using c(2) by simp
  note st = bulk_steal_left_eq [OF sturdy_arity [OF l(2)] rborder_arity [OF r] c(1) cl c(3) refl refl]
  have "to_list ?n = to_list n" using pair_entries [OF len _ st(2)] n(2) by simp
  moreover have "sturdy h ?l'" using sturdy_take [OF l(2), of ?m] c(2) by simp
  moreover have "rborder P h ?r'"
    using c cl by (intro rborder_front [OF r sturdy_arity [OF l(2)]] P) auto
  moreover have "node_len ?r' = node_len ?r + c" using c(1) cl by simp
  ultimately show ?thesis using st(1) len n(2) by (intro exI [of _ ?n]) simp
qed

lemma right_border_ok:
  assumes "rborder sturdy h n" "0 < h \<longrightarrow> 0 < node_len n"
  shows "\<exists>n'. right_border_loop h n = Some n' \<and> to_list n' = to_list n \<and> shape h n' \<and>
     node_len n \<le> Suc (node_len n') \<and> node_len n' \<le> node_len n"
  using assms
proof (induction h arbitrary: n)
  case 0
  then show ?case by simp
next
  case (Suc h)
  define k where "k = node_len n - 1"
  have k: "node_len n = Suc k" "length (edges n) = Suc (Suc k)" "node_len n \<le> CAPACITY" using Suc.prems by (simp_all add: k_def)
  let ?l = "edges n ! k" and ?r = "edges n ! Suc k"
  have l: "sturdy h ?l" "rborder sturdy h ?r" using Suc.prems(1) k by simp_all
  have ll: "4 \<le> node_len ?l" using sturdy_len [OF l(1)] by simp
  show ?case
  proof (cases "can_merge n k")
    case True
    let ?c = "joined h ?l (kvs n ! k) ?r"
    have cl: "node_len ?l + node_len ?r < CAPACITY" using True by (simp add: can_merge_def)
    have "rborder sturdy h ?c" by (rule rborder_joined [OF l(2) sturdy_arity [OF l(1)] cl sturdy_edges [OF l(1)]])
    moreover have "5 \<le> node_len ?c" using ll by (simp add: joined_def)
    ultimately obtain c where c: "right_border_loop h ?c = Some c" "to_list c = to_list ?c" "shape h c" "4 \<le> node_len c"
      using Suc.IH [of ?c] by fastforce
    then have s: "sturdy h c" by (simp add: sturdy_def)
    have "0 < node_len n" using k(1) by simp
    note m = right_border_step_merge [OF Suc.prems(1) this k_def s c(2)]
    have "right_border_loop (Suc h) n = Some (Node (kvs (merge (Suc h) n k)) ((edges (merge (Suc h) n k))[k := c]))"
      using True k(1) c(1) m(1) by (simp add: Let_def)
    then show ?thesis using m(2-4) k(1) by simp
  next
    case False
    then have nm: "11 \<le> node_len ?l + node_len ?r" by (simp add: can_merge_def)
    obtain n1 where n1: "(if node_len ?r < MIN_LEN + 1 then bulk_steal_left h (MIN_LEN + 1 - node_len ?r) n k else Some n) = Some n1"
      "to_list n1 = to_list n" "node_len n1 = Suc k" "length (edges n1) = Suc (Suc k)" "\<forall>i < Suc k. sturdy h (edges n1 ! i)"
      "rborder sturdy h (edges n1 ! Suc k)" "6 \<le> node_len (edges n1 ! Suc k)"
    proof (cases "node_len ?r < 6")
      case True
      have "\<exists>n1. bulk_steal_left h (6 - node_len ?r) n k = Some n1 \<and> to_list n1 = to_list n \<and> node_len n1 = node_len n \<and>
        length (edges n1) = Suc (node_len n1) \<and> (\<forall>i < k. edges n1 ! i = edges n ! i) \<and> sturdy h (edges n1 ! k) \<and>
        rborder sturdy h (edges n1 ! Suc k) \<and> node_len (edges n1 ! Suc k) = node_len ?r + (6 - node_len ?r)"
        using True nm by (intro steal_left_border [OF Suc.prems(1) k(1) l(1,1)] sturdy_edges [OF l(1)]) auto
      then obtain n1 where n1: "bulk_steal_left h (6 - node_len ?r) n k = Some n1" "to_list n1 = to_list n"
        "node_len n1 = node_len n" "length (edges n1) = Suc (node_len n1)" "\<forall>i < k. edges n1 ! i = edges n ! i"
        "sturdy h (edges n1 ! k)" "rborder sturdy h (edges n1 ! Suc k)" "node_len (edges n1 ! Suc k) = node_len ?r + (6 - node_len ?r)"
        by blast
      have "\<forall>i < Suc k. sturdy h (edges n1 ! i)" using n1(5,6) Suc.prems(1) k by (auto simp: less_Suc_eq)
      then show ?thesis using that [of n1] n1 True k by simp
    next
      case False
      then show ?thesis using that [of n] Suc.prems(1) k by simp
    qed
    obtain c where c: "right_border_loop h (edges n1 ! Suc k) = Some c" "to_list c = to_list (edges n1 ! Suc k)" "shape h c" "4 \<le> node_len c"
      using Suc.IH [OF n1(6)] n1(7) by fastforce
    then have s: "sturdy h c" by (simp add: sturdy_def)
    have "right_border_loop (Suc h) n = Some (Node (kvs n1) ((edges n1)[Suc k := c]))"
      using False k c(1) n1(1) by (simp add: Let_def)
    moreover have "to_list (Node (kvs n1) ((edges n1)[Suc k := c])) = to_list n \<and> shape (Suc h) (Node (kvs n1) ((edges n1)[Suc k := c]))"
      using right_border_step_last [of n1 h c] n1 s c(2) k(1,3) by simp
    ultimately show ?thesis using n1(3) k(1) by simp
  qed
qed

section \<open>Repairing the left border\<close>

lemma left_border_step_merge:
  assumes n: "lborder sturdy (Suc h) n" "0 < node_len n"
    and c: "sturdy h c" "to_list c = to_list (joined h (edges n ! 0) (kvs n ! 0) (edges n ! Suc 0))"
  defines "n1 \<equiv> merge (Suc h) n 0"
  defines "n' \<equiv> Node (kvs n1) ((edges n1)[0 := c])"
  shows "edges n1 ! 0 = joined h (edges n ! 0) (kvs n ! 0) (edges n ! Suc 0)"
    "to_list n' = to_list n" "shape (Suc h) n'" "node_len n' = node_len n - 1"
proof -
  let ?j = "joined h (edges n ! 0) (kvs n ! 0) (edges n ! Suc 0)"
  have len: "length (edges n) = Suc (node_len n)" "node_len n \<le> CAPACITY" using n by simp_all
  have n1: "n1 = Node (drop 1 (kvs n)) ((take 1 (edges n) @ drop 2 (edges n))[0 := ?j])"
    by (simp add: n1_def merge_joined numeral_2_eq_2)
  show j: "edges n1 ! 0 = ?j" using len by (simp add: n1)
  have "to_list n1 = to_list n"
    unfolding n1_def
  proof (rule merge_entries)
    show "arity h (edges n ! 0)" using n(1) lborder_arity by auto
    show "arity h (edges n ! Suc 0)" using n by (simp add: sturdy_arity)
  qed (use len n(2) in simp_all)
  moreover have ln: "length (edges n1) = Suc (node_len n1)" "node_len n1 = node_len n - 1" using len n(2) by (simp_all add: n1)
  ultimately show "to_list n' = to_list n"
    unfolding n'_def using child_same [of n1 0 c] j c(2) by simp
  show "node_len n' = node_len n - 1" using ln by (simp add: n'_def)
  have "sturdy h (edges n' ! i)" if i: "i \<le> node_len n - 1" for i
  proof (cases i)
    case 0
    then show ?thesis using c(1) len by (simp add: n'_def n1)
  next
    case (Suc j)
    then have "edges n' ! i = edges n ! Suc (Suc j)" using i len by (simp add: n'_def n1 nth_append)
    then show ?thesis using n i Suc by simp
  qed
  then show "shape (Suc h) n'" unfolding shape_edges using ln len n(2) by (simp add: n'_def)
qed

lemma left_border_step_first:
  assumes n: "length (edges n) = Suc (node_len n)" "node_len n \<le> CAPACITY" "\<forall>i < node_len n. sturdy h (edges n ! Suc i)"
    and c: "sturdy h c" "to_list c = to_list (edges n ! 0)"
  defines "n' \<equiv> Node (kvs n) ((edges n)[0 := c])"
  shows "to_list n' = to_list n" "shape (Suc h) n'" "node_len n' = node_len n"
proof -
  show "to_list n' = to_list n" unfolding n'_def using child_same [of n 0 c] n(1) c(2) by simp
  show "node_len n' = node_len n" by (simp add: n'_def)
  have "sturdy h (edges n' ! i)" if "i \<le> node_len n" for i
    using that n c(1) by (cases i) (auto simp: n'_def)
  then show "shape (Suc h) n'" unfolding shape_edges using n by (simp add: n'_def)
qed

lemma steal_right_border:
  assumes n: "lborder P (Suc h) n" "0 < node_len n" and r: "sturdy h (edges n ! Suc 0)"
    and c: "0 < c" "4 + c \<le> node_len (edges n ! Suc 0)" "node_len (edges n ! 0) + c \<le> CAPACITY"
    and P: "\<And>h'. h = Suc h' \<Longrightarrow> \<forall>d \<in> set (edges (edges n ! Suc 0)). P h' d"
  shows "\<exists>n1. bulk_steal_right h c n 0 = Some n1 \<and> to_list n1 = to_list n \<and> node_len n1 = node_len n \<and>
     length (edges n1) = Suc (node_len n1) \<and> (\<forall>i. edges n1 ! Suc (Suc i) = edges n ! Suc (Suc i)) \<and> sturdy h (edges n1 ! Suc 0) \<and>
     lborder P h (edges n1 ! 0) \<and> node_len (edges n1 ! 0) = node_len (edges n ! 0) + c"
proof -
  let ?l = "edges n ! 0" and ?r = "edges n ! Suc 0"
  let ?l' = "Node (kvs ?l @ kvs n ! 0 # take (c - 1) (kvs ?r)) (edges ?l @ take c (edges ?r))"
  let ?r' = "Node (drop c (kvs ?r)) (drop c (edges ?r))"
  let ?n = "Node ((kvs n)[0 := kvs ?r ! (c - 1)]) ((edges n)[0 := ?l', Suc 0 := ?r'])"
  have len: "length (edges n) = Suc (node_len n)" and l: "lborder P h ?l" using n by simp_all
  have cl: "c \<le> node_len ?r" using c(2) by simp
  note st = bulk_steal_right_eq [OF lborder_arity [OF l] sturdy_arity [OF r] c(1) cl c(3) refl refl]
  have "to_list ?n = to_list n" using pair_entries [OF len _ st(2)] n(2) by simp
  moreover have "sturdy h ?r'" using sturdy_drop [OF r, of c] c(2) by simp
  moreover have "lborder P h ?l'"
    using c cl by (intro lborder_back [OF l sturdy_arity [OF r]] P) auto
  moreover have "node_len ?l' = node_len ?l + c" using c(1) cl by simp
  ultimately show ?thesis using st(1) len n(2) by (intro exI [of _ ?n]) simp
qed

lemma left_border_ok:
  assumes "lborder sturdy h n" "0 < h \<longrightarrow> 0 < node_len n"
  shows "\<exists>n'. left_border_loop h n = Some n' \<and> to_list n' = to_list n \<and> shape h n' \<and>
     node_len n \<le> Suc (node_len n') \<and> node_len n' \<le> node_len n"
  using assms
proof (induction h arbitrary: n)
  case 0
  then show ?case by simp
next
  case (Suc h)
  have k: "0 < node_len n" "length (edges n) = Suc (node_len n)" "node_len n \<le> CAPACITY" using Suc.prems by simp_all
  let ?l = "edges n ! 0" and ?r = "edges n ! Suc 0"
  have r: "sturdy h ?r" "lborder sturdy h ?l" using Suc.prems(1) k by simp_all
  have rl: "4 \<le> node_len ?r" using sturdy_len [OF r(1)] by simp
  show ?case
  proof (cases "can_merge n 0")
    case True
    let ?c = "joined h ?l (kvs n ! 0) ?r"
    have cl: "node_len ?l + node_len ?r < CAPACITY" using True by (simp add: can_merge_def)
    have "lborder sturdy h ?c" by (rule lborder_joined [OF r(2) sturdy_arity [OF r(1)] cl sturdy_edges [OF r(1)]])
    moreover have "5 \<le> node_len ?c" using rl by (simp add: joined_def)
    ultimately obtain c where c: "left_border_loop h ?c = Some c" "to_list c = to_list ?c" "shape h c" "4 \<le> node_len c"
      using Suc.IH [of ?c] by fastforce
    then have s: "sturdy h c" by (simp add: sturdy_def)
    note m = left_border_step_merge [OF Suc.prems(1) k(1) s c(2)]
    have "left_border_loop (Suc h) n = Some (Node (kvs (merge (Suc h) n 0)) ((edges (merge (Suc h) n 0))[0 := c]))"
      using True k(1) c(1) m(1) by (simp add: Let_def)
    then show ?thesis using m(2-4) k(1) by simp
  next
    case False
    then have nm: "11 \<le> node_len ?l + node_len ?r" by (simp add: can_merge_def)
    obtain n1 where n1: "(if node_len ?l < MIN_LEN + 1 then bulk_steal_right h (MIN_LEN + 1 - node_len ?l) n 0 else Some n) = Some n1"
      "to_list n1 = to_list n" "node_len n1 = node_len n" "length (edges n1) = Suc (node_len n)" "\<forall>i < node_len n. sturdy h (edges n1 ! Suc i)"
      "lborder sturdy h (edges n1 ! 0)" "6 \<le> node_len (edges n1 ! 0)"
    proof (cases "node_len ?l < 6")
      case True
      have "\<exists>n1. bulk_steal_right h (6 - node_len ?l) n 0 = Some n1 \<and> to_list n1 = to_list n \<and> node_len n1 = node_len n \<and>
        length (edges n1) = Suc (node_len n1) \<and> (\<forall>i. edges n1 ! Suc (Suc i) = edges n ! Suc (Suc i)) \<and> sturdy h (edges n1 ! Suc 0) \<and>
        lborder sturdy h (edges n1 ! 0) \<and> node_len (edges n1 ! 0) = node_len ?l + (6 - node_len ?l)"
        using True nm by (intro steal_right_border [OF Suc.prems(1) k(1) r(1)] sturdy_edges [OF r(1)]) auto
      then obtain n1 where n1: "bulk_steal_right h (6 - node_len ?l) n 0 = Some n1" "to_list n1 = to_list n"
        "node_len n1 = node_len n" "length (edges n1) = Suc (node_len n1)" "\<forall>i. edges n1 ! Suc (Suc i) = edges n ! Suc (Suc i)"
        "sturdy h (edges n1 ! Suc 0)" "lborder sturdy h (edges n1 ! 0)" "node_len (edges n1 ! 0) = node_len ?l + (6 - node_len ?l)"
        by blast
      have "sturdy h (edges n1 ! Suc i)" if "i < node_len n" for i
        using n1(5,6) Suc.prems(1) that by (cases i) auto
      then show ?thesis using that [of n1] n1 True k by simp
    next
      case False
      then show ?thesis using that [of n] Suc.prems(1) k by simp
    qed
    obtain c where c: "left_border_loop h (edges n1 ! 0) = Some c" "to_list c = to_list (edges n1 ! 0)" "shape h c" "4 \<le> node_len c"
      using Suc.IH [OF n1(6)] n1(7) by fastforce
    then have s: "sturdy h c" by (simp add: sturdy_def)
    have "left_border_loop (Suc h) n = Some (Node (kvs n1) ((edges n1)[0 := c]))"
      using False k(1) c(1) n1(1) by (simp add: Let_def)
    moreover have "to_list (Node (kvs n1) ((edges n1)[0 := c])) = to_list n \<and> shape (Suc h) (Node (kvs n1) ((edges n1)[0 := c]))"
      using left_border_step_first [of n1 h c] n1 s c(2) k(3) by simp
    ultimately show ?thesis using n1(3) by simp
  qed
qed

section \<open>Cutting a tree\<close>

lemma fix_top_border:
  assumes "rborder sturdy h n \<or> lborder sturdy h n \<or> shape h n"
  shows "\<exists>n' h'. fix_top h n = (n', h') \<and> to_list n' = to_list n \<and> (0 < h' \<longrightarrow> 0 < node_len n') \<and>
     (rborder sturdy h n \<longrightarrow> rborder sturdy h' n') \<and> (lborder sturdy h n \<longrightarrow> lborder sturdy h' n') \<and>
     (shape h n \<longrightarrow> shape h' n')"
  using assms
proof (induction h arbitrary: n)
  case 0
  then show ?case by simp
next
  case (Suc h)
  show ?case
  proof (cases "0 < node_len n")
    case True
    then show ?thesis by simp
  next
    case False
    then have k: "kvs n = []" by simp
    have "length (edges n) = Suc 0" using Suc.prems k by auto
    then obtain c where c: "edges n = [c]" by (metis length_0_conv length_Suc_conv)
    have "rborder sturdy (Suc h) n \<longrightarrow> rborder sturdy h c" "lborder sturdy (Suc h) n \<longrightarrow> lborder sturdy h c"
      "shape (Suc h) n \<longrightarrow> shape h c" "to_list n = to_list c"
      using k c by (auto simp: node_entries [of n])
    then show ?thesis using Suc.IH [of c] Suc.prems k c by fastforce
  qed
qed

lemma dfs_entries: "shape h n \<Longrightarrow> dfs h n = length (to_list n)"
proof (induction h arbitrary: n)
  case 0
  then show ?case using shape_leaf [of n] by simp
next
  case (Suc h)
  have len: "length (edges n) = Suc (node_len n)" using Suc.prems by simp
  have "map (\<lambda>i. dfs h (edges n ! i)) [0..<node_len n + 1] = map (\<lambda>e. length (to_list e)) (edges n)"
    using Suc len by (intro nth_equalityI) (auto simp: nth_append less_Suc_eq_le)
  then show ?case
    using interleave_length [of "map to_list (edges n)" "kvs n"] len by (simp add: node_entries [of n] comp_def)
qed

fun chain :: "nat \<Rightarrow> ('k, 'v) node" where
  "chain 0 = Node [] []"
| "chain (Suc h) = Node [] [chain h]"

lemma chain_props [simp]: "node_len (chain h) = 0" "to_list (chain h) = []" "rborder P h (chain h)"
  by (induction h) auto

lemma push_levels_chain: "push_levels al k (chain j) a = (Inr t, a') \<Longrightarrow> t = chain (j + k)"
proof (induction k arbitrary: j a)
  case (Suc k)
  then obtain b where "push_levels al k (chain (Suc j)) b = (Inr t, a')"
    by (auto simp: push_level_def split: prod.splits bool.splits sum.splits)
  from Suc.IH [OF this] show ?case by simp
qed simp

lemma empty_tree_chain: "empty_tree al h a = (Inr t, a') \<Longrightarrow> t = chain h"
  using push_levels_chain [of al h 0] by (auto simp: empty_tree_def split: prod.splits bool.splits)

lemma push_levels_succeeds: "\<forall>a. fst (al a) \<Longrightarrow> \<exists>t a'. push_levels al k n a = (Inr t, a')"
proof (induction k arbitrary: n a)
  case (Suc k)
  obtain b where "al a = (True, b)" using Suc.prems by (metis prod.collapse)
  then show ?case using Suc.IH [OF Suc.prems, of "Node [] [n]" b] by (simp add: push_level_def)
qed simp

lemma empty_tree_succeeds: "\<forall>a. fst (al a) \<Longrightarrow> \<exists>t a'. empty_tree al h a = (Inr t, a')"
proof -
  assume al: "\<forall>a. fst (al a)"
  then obtain b where "al a = (True, b)" by (metis prod.collapse)
  then show ?thesis using push_levels_succeeds [OF al, of h "Node [] []" b] by (simp add: empty_tree_def)
qed

lemma filter_cut:
  fixes xs :: "('k :: linorder \<times> 'v) list"
  assumes "sorted_keys xs"
  shows "filter (\<lambda>x. fst x < key) xs = take (cut_at (\<lambda>x. x < key) xs) xs \<and>
    filter (\<lambda>x. key \<le> fst x) xs = drop (cut_at (\<lambda>x. x < key) xs) xs"
  using assms
proof (induction xs)
  case (Cons x xs)
  have "cut_at (\<lambda>x. x < key) (x # xs) = (if fst x < key then Suc (cut_at (\<lambda>x. x < key) xs) else 0)"
    by (simp add: cut_at_def)
  moreover have "\<forall>y \<in> set xs. key \<le> fst y" if "\<not> fst x < key"
    using that Cons.prems by (auto simp: sorted_keys_Cons)
  moreover have "filter (\<lambda>x. fst x < key) xs = []" if "\<forall>y \<in> set xs. key \<le> fst y"
    using that by (auto simp: filter_empty_conv)
  ultimately show ?case using Cons by (auto simp: sorted_keys_Cons)
qed (simp add: cut_at_def)

lemma split_edge_cut:
  assumes "sorted_keys (kvs n)"
  shows "(case search_node h n [] key of Found _ (n, i, p) \<Rightarrow> i | GoDown (n, i, p) \<Rightarrow> i) = cut_at (\<lambda>x. x < key) (kvs n)"
  using search_cut(1) [OF assms] by (cases "search_linear n key") (auto simp: search_node_def split: bool.splits)

lemma split_loop_ok:
  fixes n :: "('k :: linorder, 'v) node"
  assumes "shape h n" "sorted_keys (to_list n)"
  shows "\<exists>l r. split_loop h key n (chain h) = Some (l, r) \<and> rborder sturdy h l \<and> lborder sturdy h r \<and>
     to_list l = filter (\<lambda>x. fst x < key) (to_list n) \<and> to_list r = filter (\<lambda>x. key \<le> fst x) (to_list n)"
  using assms
proof (induction h arbitrary: n)
  case 0
  note ks = kvs_sorted [OF 0(1,2)]
  have n: "edges n = []" "node_len n \<le> CAPACITY" "to_list n = kvs n" using 0(1) shape_leaf by auto
  have "cut_at (\<lambda>x. x < key) (kvs n) \<le> node_len n" by simp
  then have "cut_at (\<lambda>x. x < key) (kvs n) \<le> CAPACITY" "node_len n - cut_at (\<lambda>x. x < key) (kvs n) \<le> CAPACITY"
    using n(2) by linarith+
  then show ?case
    using n filter_cut [OF ks, of key]
    by (subst split_loop.simps) (simp add: split_edge_cut [OF ks] move_suffix_def Let_def)
next
  case (Suc h)
  let ?ls = "map to_list (edges n)"
  define i where "i = cut_at (\<lambda>x. x < key) (kvs n)"
  note ks = kvs_sorted [OF Suc.prems(1,2)]
  have i: "i \<le> node_len n" by (simp add: i_def)
  have len: "length (edges n) = Suc (node_len n)" "node_len n \<le> CAPACITY" "\<forall>j \<le> node_len n. sturdy h (edges n ! j)"
    using Suc.prems(1) unfolding shape_edges by blast+
  have ch: "shape h (edges n ! i)" "sorted_keys (to_list (edges n ! i))"
    using child_entries(1,3) [OF Suc.prems(1,2) i] by auto
  obtain c d where cd: "split_loop h key (edges n ! i) (chain h) = Some (c, d)" "rborder sturdy h c" "lborder sturdy h d"
    "to_list c = filter (\<lambda>x. fst x < key) (to_list (edges n ! i))" "to_list d = filter (\<lambda>x. key \<le> fst x) (to_list (edges n ! i))"
    using Suc.IH [OF ch] by blast
  let ?l = "Node (take i (kvs n)) ((take (Suc i) (edges n))[i := c])"
  let ?r = "Node (drop i (kvs n)) (d # drop (Suc i) (edges n))"
  have s: "split_loop (Suc h) key n (chain (Suc h)) = Some (?l, ?r)"
    using cd(1) i by (subst split_loop.simps) (simp add: split_edge_cut [OF ks] move_suffix_def i_def [symmetric] Let_def)
  have e: "to_list n = before ?ls (kvs n) i @ to_list (edges n ! i) @ after ?ls (kvs n) i"
    by (rule to_list_edge [OF Suc.prems(1) i])
  have tl: "to_list ?l = before ?ls (kvs n) i @ to_list c"
    using interleave_update [of "take (Suc i) ?ls" "take i (kvs n)" i "to_list c"] i len(1)
    by (simp add: map_update take_map before_def after_def min_def)
  have tr: "to_list ?r = to_list d @ after ?ls (kvs n) i"
    using interleave_first [of "to_list d # drop (Suc i) ?ls" "drop i (kvs n)"] len(1)
    by (simp add: after_def drop_map)
  have bl: "fst x < key" if "x \<in> set (before ?ls (kvs n) i)" for x
  proof -
    have "\<forall>x \<in> set (take i (kvs n)). fst x < key" using cut_at_take by (auto simp: i_def)
    moreover have "sorted_keys (interleave ?ls (kvs n))" using Suc.prems(2) by (simp add: node_entries [of n])
    ultimately show ?thesis using before_less [of ?ls "kvs n" i key] len(1) i that by simp
  qed
  have af: "key \<le> fst x" if x: "x \<in> set (after ?ls (kvs n) i)" for x
  proof (cases "i < node_len n")
    case True
    then obtain zs where zs: "after ?ls (kvs n) i = kvs n ! i # zs" using after_split [of ?ls "kvs n" i] len(1) by auto
    then have "sorted_keys (kvs n ! i # zs)" using Suc.prems(2) unfolding e by (simp add: sorted_keys_append)
    moreover have "key \<le> fst (kvs n ! i)" using cut_at_nth [of "\<lambda>x. x < key" "kvs n"] True by (simp add: i_def not_less)
    ultimately show ?thesis using x zs by (auto simp: sorted_keys_Cons)
  next
    case False
    then show ?thesis using x i by (simp add: after_def)
  qed
  have "filter (\<lambda>x. fst x < key) (before ?ls (kvs n) i) = before ?ls (kvs n) i" "filter (\<lambda>x. key \<le> fst x) (after ?ls (kvs n) i) = after ?ls (kvs n) i"
    "filter (\<lambda>x. key \<le> fst x) (before ?ls (kvs n) i) = []" "filter (\<lambda>x. fst x < key) (after ?ls (kvs n) i) = []"
    using bl af by (auto simp: filter_id_conv filter_empty_conv leD) (use bl leD in blast)+
  then have "to_list ?l = filter (\<lambda>x. fst x < key) (to_list n)" "to_list ?r = filter (\<lambda>x. key \<le> fst x) (to_list n)"
    unfolding tl tr e using cd(4,5) by simp_all
  moreover have "rborder sturdy (Suc h) ?l" using len i cd(2) by simp
  moreover have "lborder sturdy (Suc h) ?r" using len i cd(3) by simp
  ultimately show ?case using s by blast
qed

lemma repaired_top:
  assumes "shape h n" "fix_top h n = (n', h')"
  shows "root_ok h' n'" "to_list n' = to_list n"
  using fix_top_border [of h n] assms by (auto simp: root_ok_def)

lemma fix_right_border_ok:
  assumes "rborder sturdy (height m) (root m)"
  shows "\<exists>n h. fix_right_border m = Some (m\<lparr>root := n, height := h\<rparr>) \<and> root_ok h n \<and> to_list n = entries m"
proof -
  obtain n0 h0 where 0: "fix_top (height m) (root m) = (n0, h0)" "rborder sturdy h0 n0" "0 < h0 \<longrightarrow> 0 < node_len n0"
    "to_list n0 = entries m" using fix_top_border assms unfolding entries_def by metis
  obtain n1 where 1: "right_border_loop h0 n0 = Some n1" "to_list n1 = entries m" "shape h0 n1"
    using right_border_ok [OF 0(2,3)] 0(4) by metis
  obtain n h where 2: "fix_top h0 n1 = (n, h)" by (cases "fix_top h0 n1")
  show ?thesis using 0(1) 1 2 repaired_top [OF 1(3) 2] by (intro exI [of _ n] exI [of _ h]) (simp add: fix_right_border_def)
qed

lemma fix_left_border_ok:
  assumes "lborder sturdy (height m) (root m)"
  shows "\<exists>n h. fix_left_border m = Some (m\<lparr>root := n, height := h\<rparr>) \<and> root_ok h n \<and> to_list n = entries m"
proof -
  obtain n0 h0 where 0: "fix_top (height m) (root m) = (n0, h0)" "lborder sturdy h0 n0" "0 < h0 \<longrightarrow> 0 < node_len n0"
    "to_list n0 = entries m" using fix_top_border assms unfolding entries_def by metis
  obtain n1 where 1: "left_border_loop h0 n0 = Some n1" "to_list n1 = entries m" "shape h0 n1"
    using left_border_ok [OF 0(2,3)] 0(4) by metis
  obtain n h where 2: "fix_top h0 n1 = (n, h)" by (cases "fix_top h0 n1")
  show ?thesis using 0(1) 1 2 repaired_top [OF 1(3) 2] by (intro exI [of _ n] exI [of _ h]) (simp add: fix_left_border_def)
qed

lemma sorted_keys_filter: "sorted_keys xs \<Longrightarrow> sorted_keys (filter (\<lambda>x. P (fst x)) xs)"
  by (induction xs) (auto simp: sorted_keys_Cons)

lemma map_of_filter_key: "map_of (filter (\<lambda>x. P (fst x)) xs) k = (if P k then map_of xs k else None)"
  by (induction xs) auto

lemma split_off_ok:
  fixes m :: "('k :: linorder, 'v) btree_map"
  assumes inv: "map_inv m"
  shows "\<exists>r m' a'. btree_split_off al m key a = Some (r, m', a') \<and>
     (case r of
        Inl e \<Rightarrow> m' = m \<and> \<not> (\<forall>a. fst (al a))
      | Inr right \<Rightarrow> map_inv m' \<and> map_inv right \<and> map_length m = map_length m' + map_length right \<and>
          btree_get m' = btree_get m |` {..<key} \<and> btree_get right = btree_get m |` {key..})"
proof (cases "map_length m = 0")
  case True
  then have "entries m = []" using inv by (simp add: map_inv_def)
  then have g: "btree_get m = Map.empty" using btree_get_entries [OF inv] by auto
  have "btree_get (btree_new :: ('k, 'v) btree_map) = Map.empty" using bt.get_new by auto
  then show ?thesis using True inv g btree_new_ok by (simp add: btree_split_off_def btree_new_def)
next
  case False
  obtain q :: "alloc_err + ('k, 'v) node" and b where et: "empty_tree al (height m) a = (q, b)" by fastforce
  show ?thesis
  proof (cases q)
    case (Inl e)
    then have "\<nexists>t a'. empty_tree al (height m) a = (Inr (t :: ('k, 'v) node), a')" using et by simp
    then have "\<not> (\<forall>a. fst (al a))" by (rule contrapos_nn) (rule empty_tree_succeeds)
    then show ?thesis using False et Inl by (simp add: btree_split_off_def)
  next
    case (Inr rt)
    have inv': "shape (height m) (root m)" "sorted_keys (entries m)" "map_length m = length (entries m)" "\<not> shared_root m"
      using inv False by (auto simp: map_inv_def root_ok_def entries_def)
    define L R where "L = filter (\<lambda>x. fst x < key) (entries m)" and "R = filter (\<lambda>x. key \<le> fst x) (entries m)"
    obtain l r where lr: "split_loop (height m) key (root m) rt = Some (l, r)" "rborder sturdy (height m) l"
      "lborder sturdy (height m) r" "to_list l = L" "to_list r = R"
      using split_loop_ok [OF inv'(1), of key] inv'(2) empty_tree_chain [of al "height m" a rt b] et Inr
      by (auto simp: L_def R_def entries_def)
    let ?ml = "m\<lparr>root := l\<rparr>" and ?mr = "\<lparr>root = r, height = height m, shared_root = False, map_length = 0\<rparr>"
    obtain n h where n: "fix_right_border ?ml = Some (?ml\<lparr>root := n, height := h\<rparr>)" "root_ok h n" "to_list n = L"
      using fix_right_border_ok [of ?ml] lr(2,4) by (auto simp: entries_def)
    obtain n2 h2 where n2: "fix_left_border ?mr = Some (?mr\<lparr>root := n2, height := h2\<rparr>)" "root_ok h2 n2" "to_list n2 = R"
      using fix_left_border_ok [of ?mr] lr(3,5) by (auto simp: entries_def)
    let ?m' = "m\<lparr>root := n, height := h, map_length := length L\<rparr>"
    let ?r' = "\<lparr>root = n2, height = h2, shared_root = False, map_length = length R\<rparr>"
    have tot: "length (entries m) = length L + length R"
      using sum_length_filter_compl [of "\<lambda>x. fst x < key" "entries m"] by (simp add: L_def R_def not_less)
    have d: "dfs h n = length L" "dfs h2 n2 = length R"
      using dfs_entries [of h n] dfs_entries [of h2 n2] n(2,3) n2(2,3) by (auto simp: root_ok_def)
    have so: "btree_split_off al m key a = Some (Inr ?r', ?m', b)"
      using False et Inr lr(1) n(1) n2(1) d tot inv'(3) by (auto simp add: btree_split_off_def recalc_length_def Let_def)
    have i': "map_inv ?m'" "map_inv ?r'"
      using n(2,3) n2(2,3) inv'(4) sorted_keys_filter [OF inv'(2), of "\<lambda>k. k < key"] sorted_keys_filter [OF inv'(2), of "\<lambda>k. key \<le> k"]
      by (simp_all add: map_inv_def entries_def L_def R_def)
    have "btree_get ?m' k = (btree_get m |` {..<key}) k" "btree_get ?r' k = (btree_get m |` {key..}) k" for k
      using btree_get_entries [OF i'(1)] btree_get_entries [OF i'(2)] btree_get_entries [OF inv] n(3) n2(3)
        map_of_filter_key [of "\<lambda>k. k < key" "entries m" k] map_of_filter_key [of "\<lambda>k. key \<le> k" "entries m" k]
      by (auto simp: entries_def L_def R_def restrict_map_def)
    then have "btree_get ?m' = btree_get m |` {..<key}" "btree_get ?r' = btree_get m |` {key..}" by blast+
    then show ?thesis using so i' tot inv'(3) by auto
  qed
qed

text \<open>C34: \<open>split_off\<close> cuts a map in two.  On a well-formed map it never panics; unless an allocation
  fails, in which case the map is unchanged, the map keeps the keys below \<open>key\<close>, the returned map has the others, every key
  keeps its value, and both are well-formed, with the right lengths.\<close>

theorem btree_split_off_partitions:
  fixes m :: "('k :: linorder, 'v) btree_map"
  assumes inv: "map_inv m"
  shows "\<exists>r m' a'. btree_split_off al m key a = Some (r, m', a') \<and>
     (case r of
        Inl e \<Rightarrow> m' = m \<and> \<not> (\<forall>a. fst (al a))
      | Inr right \<Rightarrow> map_inv m' \<and> map_inv right \<and> map_length m = map_length m' + map_length right \<and>
          btree_get m' = btree_get m |` {..<key} \<and> btree_get right = btree_get m |` {key..})"
  using assms by (rule split_off_ok)

theorem btree_split_off_partitions_witness:
  "\<exists>right m'. btree_split_off always full_leaf 5 () = Some (Inr right, m', ()) \<and> map_inv m' \<and> map_inv right \<and>
     btree_get m' 4 = Some 40 \<and> btree_get m' 5 = None \<and> btree_get right 5 = Some 50"
proof -
  have g: "btree_get full_leaf 4 = Some 40" "btree_get full_leaf 5 = Some 50"
    by (simp_all add: btree_get_entries [OF full_leaf_inv] full_leaf_entries upto.simps)
  have "\<forall>a. fst (always a)" by (simp add: always_def)
  then obtain right m' where "btree_split_off always full_leaf 5 () = Some (Inr right, m', ())" "map_inv m'" "map_inv right"
    "btree_get m' = btree_get full_leaf |` {..<5}" "btree_get right = btree_get full_leaf |` {5..}"
    using btree_split_off_partitions [OF full_leaf_inv, of always 5 "()"] by (fastforce split: sum.splits)
  then show ?thesis using g by auto
qed

section \<open>Building a tree from a sequence\<close>

lemma merge_iter_items_simps [simp]:
  "merge_iter_items ([], []) = []"
  "merge_iter_items (l # ls, []) = l # merge_iter_items (ls, [])"
  "merge_iter_items ([], r # rs) = r # merge_iter_items ([], rs)"
  "merge_iter_items (l # ls, r # rs) =
     (if fst l < fst r then l # merge_iter_items (ls, r # rs)
      else if fst r < fst l then r # merge_iter_items (l # ls, rs)
      else r # merge_iter_items (ls, rs))"
  by (subst merge_iter_items.simps; simp add: merge_iter_next_def)+

lemma merge_iter_one [simp]: "merge_iter_items (ls, []) = ls" "merge_iter_items ([], rs) = rs"
  subgoal by (induction ls) simp_all
  subgoal by (induction rs) simp_all
  done

lemma map_of_smaller: "\<forall>x \<in> set xs. (k :: 'k :: linorder) < fst x \<Longrightarrow> map_of xs k = None"
  by (auto simp: map_of_eq_None_iff)

lemma merge_iter_ok:
  fixes ls rs :: "('k :: linorder \<times> 'v) list"
  assumes "sorted_keys ls" "sorted_keys rs"
  shows "sorted_keys (merge_iter_items (ls, rs)) \<and> map_of (merge_iter_items (ls, rs)) = map_of ls ++ map_of rs \<and>
    set (merge_iter_items (ls, rs)) \<subseteq> set ls \<union> set rs"
  using assms
proof (induction "length ls + length rs" arbitrary: ls rs rule: less_induct)
  case less
  show ?case
  proof (cases "ls = [] \<or> rs = []")
    case True
    then show ?thesis using less.prems by auto
  next
    case False
    then obtain l ls' r rs' where lr: "ls = l # ls'" "rs = r # rs'" by (meson neq_Nil_conv)
    have s: "sorted_keys ls'" "sorted_keys rs'" "\<forall>x \<in> set ls'. fst l < fst x" "\<forall>x \<in> set rs'. fst r < fst x"
      using less.prems lr by (simp_all add: sorted_keys_Cons)
    consider (lt) "fst l < fst r" | (gt) "fst r < fst l" | (eq) "fst l = fst r" by fastforce
    then show ?thesis
    proof cases
      case lt
      then have lower: "\<forall>x \<in> set rs. fst l < fst x" using s(4) lr by auto
      note IH = less.hyps [of ls' rs]
      have "map_of ls ++ map_of rs = (map_of ls' ++ map_of rs)(fst l \<mapsto> snd l)"
        using map_of_smaller [OF lower] lr by (cases l) (auto simp: map_add_def fun_eq_iff split: option.splits)
      then show ?thesis using IH lt lower lr s less.prems by (cases l) (auto simp: sorted_keys_Cons)
    next
      case gt
      then have "\<forall>x \<in> set ls. fst r < fst x" using s(3) lr by auto
      then show ?thesis using less.hyps [of ls rs'] gt lr s less.prems by (cases r) (auto simp: sorted_keys_Cons)
    next
      case eq
      have "map_of ls ++ map_of rs = (map_of ls' ++ map_of rs')(fst r \<mapsto> snd r)"
        using eq lr by (cases l; cases r) (auto simp: map_add_def fun_eq_iff split: option.splits)
      then show ?thesis using less.hyps [of ls' rs'] eq lr s less.prems by (cases r) (auto simp: sorted_keys_Cons)
    qed
  qed
qed

text \<open>The path from the leaf that is being filled to the root: everything left of it is full.\<close>

fun rpath :: "nat \<Rightarrow> ('k, 'v) path \<Rightarrow> bool" where
  "rpath h [] \<longleftrightarrow> True"
| "rpath h ((ks, es, i) # p) \<longleftrightarrow> i = length ks \<and> length es = Suc (length ks) \<and> length ks \<le> CAPACITY \<and>
     (p = [] \<longrightarrow> 0 < length ks) \<and> (\<forall>j < length ks. packed h (es ! j)) \<and> rpath (Suc h) p"

lemma rpath_plug:
  "rpath h p \<Longrightarrow> rborder packed h n \<Longrightarrow> rborder packed (h + length p) (plug p n) \<and>
     to_list (plug p n) = lefts p @ to_list n \<and> (p \<noteq> [] \<longrightarrow> 0 < node_len (plug p n))"
proof (induction p arbitrary: h n)
  case (Cons f p)
  obtain ks es i where f: "f = (ks, es, i)" by (cases f)
  let ?n = "Node ks (es[i := n])"
  have pr: "i = length ks" "length es = Suc (length ks)" "length ks \<le> CAPACITY" "p = [] \<longrightarrow> 0 < length ks"
    "\<forall>j < length ks. packed h (es ! j)" "rpath (Suc h) p" using Cons.prems(1) f by simp_all
  have "rborder packed (Suc h) ?n" using pr Cons.prems(2) by simp
  moreover have "to_list ?n = before (map to_list es) ks i @ to_list n"
    using interleave_update [of "map to_list es" ks i "to_list n"] pr by (simp add: map_update after_def)
  ultimately show ?case using Cons.IH [OF pr(6), of ?n] f pr(4) by (cases p) auto
qed simp

lemma rborder_last_leaf:
  assumes "rborder packed h n" "rpath h p" "p = [] \<and> 0 < h \<longrightarrow> 0 < node_len n"
  shows "\<exists>leaf q. last_leaf_edge h n p = (leaf, node_len leaf, q) \<and> rborder packed 0 leaf \<and> rpath 0 q \<and>
     lefts q @ to_list leaf = lefts p @ to_list n"
  using assms
proof (induction h arbitrary: n p)
  case (Suc h)
  let ?p = "(kvs n, edges n, node_len n) # p"
  have len: "length (edges n) = Suc (node_len n)" using Suc.prems(1) by simp
  have rp: "rpath h ?p" using Suc.prems by simp
  obtain leaf q where "last_leaf_edge h (edges n ! node_len n) ?p = (leaf, node_len leaf, q)" "rborder packed 0 leaf" "rpath 0 q"
    "lefts q @ to_list leaf = lefts ?p @ to_list (edges n ! node_len n)"
    using Suc.IH [of "edges n ! node_len n" ?p, OF _ rp] Suc.prems(1) by auto
  moreover have "to_list n = before (map to_list (edges n)) (kvs n) (node_len n) @ to_list (edges n ! node_len n)"
    using interleave_split [of "map to_list (edges n)" "kvs n" "node_len n"] len by (simp add: node_entries [of n] after_def)
  ultimately show ?case by (simp add: descend_def)
qed simp

lemma find_open_ok:
  assumes "packed h n" "rpath h p" "find_open al h n p a = (Inr u, ond, h', q, a')"
  shows "\<exists>h''. h' = Suc h'' \<and> rpath h' q \<and> length (edges ond) = Suc (node_len ond) \<and> node_len ond < CAPACITY \<and>
     (\<forall>e \<in> set (edges ond). packed h'' e) \<and> lefts q @ to_list ond = lefts p @ to_list n"
  using assms
proof (induction p arbitrary: h n)
  case Nil
  then show ?case by (auto simp: push_level_def split: prod.splits bool.splits sum.splits)
next
  case (Cons f p)
  obtain ks es i where f: "f = (ks, es, i)" by (cases f)
  let ?n = "Node ks (es[i := n])"
  have pr: "i = length ks" "length es = Suc (length ks)" "length ks \<le> CAPACITY"
    "\<forall>j < length ks. packed h (es ! j)" "rpath (Suc h) p" using Cons.prems(2) f by simp_all
  have pk: "\<forall>e \<in> set (es[i := n]). packed h e"
    using pr Cons.prems(1) by (auto simp: all_set_conv_all_nth nth_list_update less_Suc_eq)
  have tl: "to_list ?n = before (map to_list es) ks i @ to_list n"
    using interleave_update [of "map to_list es" ks i "to_list n"] pr by (simp add: map_update after_def)
  show ?case
  proof (cases "length ks < CAPACITY")
    case True
    then show ?thesis using Cons.prems(3) f pk pr tl by auto
  next
    case False
    then have "packed (Suc h) ?n" using pr pk by simp
    from Cons.IH [OF this pr(5)] Cons.prems(3) False f tl show ?thesis by simp
  qed
qed

lemma sorted_push_ok:
  assumes n: "rborder packed 0 n" "rpath 0 p" and ps: "sorted_push al kv n p a = (Inr (n', p'), a')"
  shows "rborder packed 0 n' \<and> rpath 0 p' \<and> lefts p' @ to_list n' = lefts p @ to_list n @ [kv]"
proof (cases "node_len n < CAPACITY")
  case True
  then show ?thesis using n ps by (auto simp: sorted_push_def leaf_push_def leaf_entries)
next
  case False
  then have pk: "packed 0 n" using n(1) by simp
  from ps False obtain ond h q b t c i where fo: "find_open al 0 n p a = (Inr (), ond, h, q, b)"
    "empty_tree al (h - 1) b = (Inr t, c)" "last_leaf_edge h (internal_push ond kv t) q = (n', i, p')"
    by (auto simp: sorted_push_def Let_def split: prod.splits sum.splits)
  from find_open_ok [OF pk n(2) fo(1)] obtain h' where h': "h = Suc h'" "rpath h q" "length (edges ond) = Suc (node_len ond)"
    "node_len ond < CAPACITY" "\<forall>e \<in> set (edges ond). packed h' e" "lefts q @ to_list ond = lefts p @ to_list n" by blast
  have t: "t = chain h'" using empty_tree_chain fo(2) h'(1) by simp
  let ?o = "internal_push ond kv t"
  have "rborder packed h ?o" using h' t by (simp add: internal_push_def nth_append less_Suc_eq_le)
  moreover have "to_list ?o = to_list ond @ [kv]"
    using interleave_append [of "map to_list (edges ond)" "kvs ond" "[to_list t]" "[]" kv] h'(3) t
    by (simp add: internal_push_def node_entries [of ond])
  ultimately show ?thesis
    using rborder_last_leaf [of h ?o q] fo(3) h'(2,6) by auto
qed

lemma sorted_loop_ok:
  assumes "rborder packed 0 n" "rpath 0 p" "sorted_loop al n p len xs a = (Inr u, rt, h, len', a')"
  shows "rborder packed h rt \<and> (0 < h \<longrightarrow> 0 < node_len rt) \<and> to_list rt = lefts p @ to_list n @ xs \<and> len' = len + length xs"
  using assms
proof (induction xs arbitrary: n p len a)
  case Nil
  then show ?case using rpath_plug [OF Nil(2,1)] by auto
next
  case (Cons x xs)
  from Cons.prems(3) obtain n' p' b where s: "sorted_push al x n p a = (Inr (n', p'), b)"
    "sorted_loop al n' p' (len + 1) xs b = (Inr u, rt, h, len', a')"
    by (auto split: prod.splits sum.splits)
  have i: "rborder packed 0 n'" "rpath 0 p'" and e: "lefts p' @ to_list n' = lefts p @ to_list n @ [x]"
    using sorted_push_ok [OF Cons.prems(1,2) s(1)] by blast+
  from Cons.IH [OF i s(2)] have "rborder packed h rt" "0 < h \<longrightarrow> 0 < node_len rt"
    "to_list rt = (lefts p' @ to_list n') @ xs" "len' = len + 1 + length xs" by simp_all
  then show ?case unfolding e by simp
qed

lemma fix_right_edge_ok:
  assumes "rborder packed h n" "0 < h \<longrightarrow> 0 < node_len n"
  shows "\<exists>n'. fix_right_edge h n = Some n' \<and> to_list n' = to_list n \<and> shape h n' \<and> node_len n' = node_len n"
  using assms
proof (induction h arbitrary: n)
  case (Suc h)
  define k where "k = node_len n - 1"
  have k: "node_len n = Suc k" "length (edges n) = Suc (Suc k)" "node_len n \<le> CAPACITY" using Suc.prems by (simp_all add: k_def)
  let ?l = "edges n ! k" and ?r = "edges n ! Suc k"
  have l: "packed h ?l" "rborder packed h ?r" using Suc.prems(1) k by simp_all
  have s: "sturdy h ?l" "node_len ?l = 11" using packed_sturdy [OF l(1)] l(1) by (cases h; simp)+
  obtain n1 where n1: "(if node_len ?r < MIN_LEN then bulk_steal_left h (MIN_LEN - node_len ?r) n k else Some n) = Some n1"
    "to_list n1 = to_list n" "node_len n1 = Suc k" "length (edges n1) = Suc (Suc k)" "\<forall>i < Suc k. sturdy h (edges n1 ! i)"
    "rborder packed h (edges n1 ! Suc k)" "5 \<le> node_len (edges n1 ! Suc k)"
  proof (cases "node_len ?r < 5")
    case True
    have pe: "\<forall>d \<in> set (edges ?l). packed h' d" if "h = Suc h'" for h' using l(1) that by simp
    have "\<exists>n1. bulk_steal_left h (5 - node_len ?r) n k = Some n1 \<and> to_list n1 = to_list n \<and> node_len n1 = node_len n \<and>
      length (edges n1) = Suc (node_len n1) \<and> (\<forall>i < k. edges n1 ! i = edges n ! i) \<and> sturdy h (edges n1 ! k) \<and>
      rborder packed h (edges n1 ! Suc k) \<and> node_len (edges n1 ! Suc k) = node_len ?r + (5 - node_len ?r)"
      using True s(2) by (intro steal_left_border [OF Suc.prems(1) k(1) l(1) s(1)] pe) auto
    then obtain n1 where n1: "bulk_steal_left h (5 - node_len ?r) n k = Some n1" "to_list n1 = to_list n"
      "node_len n1 = node_len n" "length (edges n1) = Suc (node_len n1)" "\<forall>i < k. edges n1 ! i = edges n ! i"
      "sturdy h (edges n1 ! k)" "rborder packed h (edges n1 ! Suc k)" "node_len (edges n1 ! Suc k) = node_len ?r + (5 - node_len ?r)"
      by blast
    have "\<forall>i < Suc k. sturdy h (edges n1 ! i)" using n1(5,6) Suc.prems(1) k packed_sturdy by (auto simp: less_Suc_eq)
    then show ?thesis using that [of n1] n1 True k by simp
  next
    case False
    then show ?thesis using that [of n] Suc.prems(1) k packed_sturdy by auto
  qed
  obtain c where c: "fix_right_edge h (edges n1 ! Suc k) = Some c" "to_list c = to_list (edges n1 ! Suc k)" "shape h c"
    "node_len c = node_len (edges n1 ! Suc k)"
    using Suc.IH [OF n1(6)] n1(7) by fastforce
  then have sc: "sturdy h c" using n1(7) by (simp add: sturdy_def)
  have "fix_right_edge (Suc h) n = Some (Node (kvs n1) ((edges n1)[Suc k := c]))"
    using k(1) c(1) n1(1) by (cases "node_len ?r < 5") (simp_all add: Let_def left_kv_def)
  moreover have "to_list (Node (kvs n1) ((edges n1)[Suc k := c])) = to_list n \<and> shape (Suc h) (Node (kvs n1) ((edges n1)[Suc k := c]))"
    using right_border_step_last [of n1 h c] n1 sc c(2) k(1,3) by simp
  ultimately show ?case using n1(3) k(1) by simp
qed simp

lemma find_open_succeeds:
  assumes "\<forall>a. fst (al a)"
  shows "\<exists>ond h' q a'. find_open al h n p a = (Inr (), ond, h', q, a')"
proof (induction p arbitrary: h n)
  case Nil
  obtain b where "al a = (True, b)" using assms by (metis prod.collapse)
  then show ?case by (simp add: push_level_def)
next
  case (Cons f p)
  then show ?case by (cases f) (simp add: Let_def)
qed

lemma sorted_loop_succeeds:
  fixes n :: "('x, 'y) node"
  assumes al: "\<forall>a. fst (al a)"
  shows "\<exists>rt h len' a'. sorted_loop al n p len xs a = (Inr (), rt, h, len', a')"
proof (induction xs arbitrary: n p len a)
  case (Cons x xs)
  have "\<exists>n' p' b. sorted_push al x n p a = (Inr (n', p'), b)"
  proof (cases "node_len n < CAPACITY")
    case False
    obtain ond h q b where fo: "find_open al 0 n p a = (Inr (), ond, h, q, b)" using find_open_succeeds [OF al] by blast
    have "\<exists>t c. empty_tree al (h - 1) b = (Inr (t :: ('x, 'y) node), c)" by (rule empty_tree_succeeds [OF al])
    then obtain t :: "('x, 'y) node" and c where "empty_tree al (h - 1) b = (Inr t, c)" by blast
    then show ?thesis
      using False fo by (cases "last_leaf_edge h (internal_push ond x t) q") (simp add: sorted_push_def Let_def)
  qed (simp add: sorted_push_def)
  then show ?case using Cons by fastforce
qed simp

lemma from_sorted_ok:
  fixes xs :: "('k :: linorder \<times> 'v) list"
  assumes "sorted_keys xs" "from_sorted_iter al btree_new xs a = (Inr u, m, a')"
  shows "\<exists>n. fix_right_edge (height m) (root m) = Some n \<and> map_inv (m\<lparr>root := n\<rparr>) \<and> entries (m\<lparr>root := n\<rparr>) = xs"
proof -
  from assms(2) obtain b rt h len where
    l: "sorted_loop al (Node [] []) [] 0 xs b = (Inr u, rt, h, len, a')"
    "m = \<lparr>root = rt, height = h, shared_root = False, map_length = len\<rparr>"
    by (auto simp: from_sorted_iter_def ensure_root_is_owned_def btree_new_def split: prod.splits bool.splits)
  from sorted_loop_ok [OF _ _ l(1)] have rt: "rborder packed h rt" "0 < h \<longrightarrow> 0 < node_len rt" "to_list rt = xs" "len = length xs"
    by auto
  from fix_right_edge_ok [OF rt(1,2)] obtain n where
    n: "fix_right_edge h rt = Some n" "to_list n = xs" "shape h n" "0 < h \<longrightarrow> 0 < node_len n"
    unfolding length_greater_0_conv using rt(2,3) by (metis length_0_conv length_greater_0_conv)
  then show ?thesis using l(2) rt(4) assms(1) by (simp add: map_inv_def root_ok_def entries_def)
qed

lemma from_sorted_succeeds:
  assumes al: "\<forall>a. fst (al a)"
  shows "\<exists>m a'. from_sorted_iter al btree_new xs a = (Inr (), m, a')"
proof -
  obtain b where "al a = (True, b)" using al by (metis prod.collapse)
  then show ?thesis using sorted_loop_succeeds [OF al, of "Node [] []" "[]" 0 xs b]
    by (auto simp: from_sorted_iter_def ensure_root_is_owned_def btree_new_def)
qed

lemma append_ok:
  fixes m other :: "('k :: linorder, 'v) btree_map"
  assumes inv: "map_inv m" "map_inv other"
  shows "\<exists>r m' o' a'. btree_append al m other a = Some (r, m', o', a') \<and>
     (r = Inr () \<longrightarrow> map_inv m' \<and> map_inv o' \<and> btree_get m' = btree_get m ++ btree_get other \<and>
        btree_get o' = Map.empty) \<and>
     ((\<forall>a. fst (al a)) \<longrightarrow> r = Inr ())"
proof -
  have len: "map_length m = length (entries m)" "map_length other = length (entries other)" using inv by (auto simp: map_inv_def)
  have get: "btree_get x = map_of (entries x)" if "map_inv x" for x :: "('k, 'v) btree_map"
    using btree_get_entries [OF that] by auto
  consider (other) "map_length other = 0" | (self) "map_length other \<noteq> 0" "map_length m = 0"
    | (both) "map_length other \<noteq> 0" "map_length m \<noteq> 0" by blast
  then show ?thesis
  proof cases
    case other
    then show ?thesis using inv len get by (simp add: btree_append_def)
  next
    case self
    then show ?thesis using inv len get by (simp add: btree_append_def)
  next
    case both
    let ?xs = "merge_iter_items (entries m, entries other)"
    have xs: "sorted_keys ?xs" "map_of ?xs = map_of (entries m) ++ map_of (entries other)"
      using merge_iter_ok [of "entries m" "entries other"] inv by (auto simp: map_inv_def)
    obtain it1 it2 where dr: "into_drain (btree_into_iter m) = Some (entries m, it1)"
      "into_drain (btree_into_iter other) = Some (entries other, it2)"
      using into_drain_entries [OF inv(1)] into_drain_entries [OF inv(2)] by blast
    obtain r m1 b where fs: "from_sorted_iter al btree_new ?xs a = (r, m1, b)" by (cases "from_sorted_iter al btree_new ?xs a")
    show ?thesis
    proof (cases r)
      case (Inl e)
      then have "\<nexists>m a'. from_sorted_iter al btree_new ?xs a = (Inr (), m, a')" using fs by simp
      then have "\<not> (\<forall>a. fst (al a))" by (rule contrapos_nn) (rule from_sorted_succeeds)
      moreover have "btree_append al m other a = Some (Inl e, m1, btree_new, b)"
        using both dr fs Inl by (simp add: btree_append_def)
      ultimately show ?thesis by blast
    next
      case (Inr u)
      from from_sorted_ok [OF xs(1) fs [unfolded Inr]] obtain n where
        n: "fix_right_edge (height m1) (root m1) = Some n" "map_inv (m1\<lparr>root := n\<rparr>)" "entries (m1\<lparr>root := n\<rparr>) = ?xs" by blast
      have "btree_append al m other a = Some (Inr (), m1\<lparr>root := n\<rparr>, btree_new, b)"
        using both dr fs Inr n(1) by (simp add: btree_append_def)
      moreover have "btree_get (m1\<lparr>root := n\<rparr>) = btree_get m ++ btree_get other"
        using get [OF n(2)] get [OF inv(1)] get [OF inv(2)] n(3) xs(2) by simp
      moreover have "btree_get (btree_new :: ('k, 'v) btree_map) = Map.empty" using bt.get_new by auto
      ultimately show ?thesis using n(2) btree_new_ok(1) by blast
    qed
  qed
qed

definition other_leaf :: "(int, int) btree_map" where
  "other_leaf = \<lparr>root = Node [(5, 0), (20, 1)] [], height = 0, shared_root = False, map_length = 2\<rparr>"

text \<open>C35: \<open>append\<close> is the union of two maps in which the second one wins.  On well-formed maps it never
  panics; when it succeeds, which it does whenever the allocator does, the map is well-formed and has the keys
  of both, with the values of \<open>other\<close> where both have one, and \<open>other\<close> is empty.\<close>

theorem btree_append_union:
  fixes m other :: "('k :: linorder, 'v) btree_map"
  assumes inv: "map_inv m" "map_inv other"
  shows "\<exists>r m' o' a'. btree_append al m other a = Some (r, m', o', a') \<and>
     (r = Inr () \<longrightarrow> map_inv m' \<and> map_inv o' \<and> btree_get m' = btree_get m ++ btree_get other \<and>
        btree_get o' = Map.empty) \<and>
     ((\<forall>a. fst (al a)) \<longrightarrow> r = Inr ())"
  using assms by (rule append_ok)

theorem btree_append_union_witness:
  "\<exists>m' o'. btree_append always full_leaf other_leaf () = Some (Inr (), m', o', ()) \<and> map_inv m' \<and>
     btree_get m' 4 = Some 40 \<and> btree_get m' 5 = Some 0 \<and> btree_get m' 20 = Some 1 \<and> btree_get o' 5 = None"
proof -
  have oi: "map_inv other_leaf" by (simp add: map_inv_def root_ok_def entries_def other_leaf_def sorted_keys_def)
  have g: "btree_get full_leaf 4 = Some 40" "btree_get other_leaf 4 = None" "btree_get other_leaf 5 = Some 0" "btree_get other_leaf 20 = Some 1"
    unfolding btree_get_entries [OF full_leaf_inv] btree_get_entries [OF oi] full_leaf_entries
    by (simp_all add: upto.simps entries_def other_leaf_def)
  have "\<forall>a. fst (always a)" by (simp add: always_def)
  then obtain m' o' where "btree_append always full_leaf other_leaf () = Some (Inr (), m', o', ())" "map_inv m'"
    "btree_get m' = btree_get full_leaf ++ btree_get other_leaf" "btree_get o' = Map.empty"
    using btree_append_union [OF full_leaf_inv oi, of always "()"] by (metis unit.exhaust)
  then show ?thesis using g by (simp add: map_add_def)
qed

section \<open>Clone\<close>

lemma foldl_leaf_push:
  "foldl (\<lambda>out (k, v). leaf_push out (ck k, cv v)) (Node ks es) xs = Node (ks @ map (map_prod ck cv) xs) es"
  by (induction xs arbitrary: ks) (auto simp: leaf_push_def)

lemma clone_entries_ok:
  assumes "\<And>e a r len a'. e \<in> snd ` set es \<Longrightarrow> clone e a = (Inr (r, len), a') \<Longrightarrow> r = map_node ck cv e \<and> len = length (to_list e)"
    and "clone_entries clone ck cv es (Node ks ds) len a = (Inr (r, len'), a')"
  shows "r = Node (ks @ map (map_prod ck cv \<circ> fst) es) (ds @ map (map_node ck cv \<circ> snd) es) \<and>
     len' = len + sum_list (map (\<lambda>e. Suc (length (to_list (snd e)))) es)"
  using assms
proof (induction es arbitrary: ks ds len a)
  case (Cons f es)
  obtain k v e where f: "f = ((k, v), e)" by (metis prod.collapse)
  from Cons.prems(2) f obtain sr sl b where c: "clone e a = (Inr (sr, sl), b)"
    "clone_entries clone ck cv es (Node (ks @ [(ck k, cv v)]) (ds @ [sr])) (len + 1 + sl) b = (Inr (r, len'), a')"
    by (auto simp: internal_push_def split: prod.splits sum.splits)
  have "sr = map_node ck cv e" "sl = length (to_list e)" using Cons.prems(1) [OF _ c(1)] f by auto
  then show ?case using Cons.IH [OF Cons.prems(1) c(2)] f by auto
qed simp

lemma clone_subtree_ok:
  assumes "shape h n" "clone_subtree al ck cv h n a = (Inr (r, len), a')"
  shows "r = map_node ck cv n \<and> len = length (to_list n)"
  using assms
proof (induction h arbitrary: n a r len a')
  case 0
  then show ?case
    using shape_leaf [of n] by (cases n) (auto simp: foldl_leaf_push split: prod.splits bool.splits)
next
  case (Suc h)
  have len: "length (edges n) = Suc (node_len n)" and sh: "\<forall>e \<in> set (edges n). shape h e" using Suc.prems(1) by simp_all
  let ?es = "map (\<lambda>i. (kvs n ! i, edges n ! (i + 1))) [0..<node_len n]"
  from Suc.prems(2) obtain out l b c where c: "clone_subtree al ck cv h (edges n ! 0) a = (Inr (out, l), b)"
    "clone_entries (clone_subtree al ck cv h) ck cv ?es (Node [] [out]) l c = (Inr (r, len), a')"
    by (auto simp: push_level_def split: prod.splits sum.splits bool.splits)
  have o: "out = map_node ck cv (edges n ! 0)" "l = length (to_list (edges n ! 0))"
    using Suc.IH [OF _ c(1)] sh len by auto
  have e1: "x = map_node ck cv e \<and> y = length (to_list e)" if "e \<in> snd ` set ?es" "clone_subtree al ck cv h e a = (Inr (x, y), a')" for e a x y a'
  proof -
    have "e \<in> set (edges n)" using that(1) len by auto
    then show ?thesis using Suc.IH [OF _ that(2)] sh by blast
  qed
  have es: "map fst ?es = kvs n" "edges n ! 0 # map snd ?es = edges n"
    using len by (auto intro!: nth_equalityI simp: nth_Cons split: nat.split)
  from clone_entries_ok [OF e1 c(2)] have r: "r = Node (map (map_prod ck cv \<circ> fst) ?es) (out # map (map_node ck cv \<circ> snd) ?es)"
    "len = l + sum_list (map (\<lambda>e. Suc (length (to_list (snd e)))) ?es)" by simp_all
  have "map (map_prod ck cv \<circ> fst) ?es = map (map_prod ck cv) (kvs n)" "out # map (map_node ck cv \<circ> snd) ?es = map (map_node ck cv) (edges n)"
    unfolding map_map [symmetric] es(1) o(1) using arg_cong [OF es(2), of "map (map_node ck cv)"] by simp_all
  then have 1: "r = map_node ck cv n" using r(1) by (cases n) simp
  have "sum_list (map (\<lambda>e. Suc (length (to_list (snd e)))) xs) = length xs + sum_list (map (length \<circ> to_list) (map snd xs))" for xs :: "('x \<times> ('k, 'v) node) list"
    by (induction xs) auto
  from this [of ?es] have "len = node_len n + sum_list (map (length \<circ> to_list) (edges n ! 0 # map snd ?es))"
    unfolding r(2) o(2) by (simp only: length_map length_upt list.map sum_list.Cons o_apply)
  then have "len = length (to_list n)"
    unfolding es(2) using interleave_length [of "map to_list (edges n)" "kvs n"] len by (simp add: node_entries [of n] comp_def)
  then show ?case using 1 by simp
qed

lemma map_node_fields [simp]:
  "kvs (map_node f g n) = map (map_prod f g) (kvs n)" "edges (map_node f g n) = map (map_node f g) (edges n)"
  by (cases n; simp)+

lemma shape_map_node: "shape h n \<Longrightarrow> shape h (map_node f g n)"
  by (induction h arbitrary: n) auto

lemma interleave_map: "interleave (map (map f) ls) (map f ks) = map f (interleave ls ks)"
  by (induction ls ks rule: interleave.induct) (auto simp: map_concat)

lemma to_list_map_node: "to_list (map_node f g n) = map (map_prod f g) (to_list n)"
proof (induction n)
  case (Node ks es)
  then have "map (to_list \<circ> map_node f g) es = map (map (map_prod f g) \<circ> to_list) es" by simp
  then show ?case unfolding node.map to_list.simps map_map interleave_map [symmetric] by (rule arg_cong)
qed

lemma clone_entries_succeeds:
  assumes "\<And>e a. e \<in> snd ` set es \<Longrightarrow> \<exists>r len a'. clone e a = (Inr (r, len), a')"
  shows "\<exists>r len' a'. clone_entries clone ck cv es out len a = (Inr (r, len'), a')"
  using assms
proof (induction es arbitrary: out len a)
  case (Cons f es)
  obtain k v e where f: "f = ((k, v), e)" by (metis prod.collapse)
  obtain r l b where "clone e a = (Inr (r, l), b)" using Cons.prems [of e a] f by auto
  then show ?case using Cons.IH [OF Cons.prems] f by simp
qed simp

lemma clone_subtree_succeeds:
  assumes al: "\<forall>a. fst (al a)"
  shows "\<exists>r len a'. clone_subtree al ck cv h n a = (Inr (r, len), a')"
proof (induction h arbitrary: n a)
  case 0
  obtain b where "al a = (True, b)" using al by (metis prod.collapse)
  then show ?case by simp
next
  case (Suc h)
  obtain out l b where c: "clone_subtree al ck cv h (edges n ! 0) a = (Inr (out, l), b)" using Suc.IH by blast
  obtain d where "al b = (True, d)" using al by (metis prod.collapse)
  moreover obtain r len a' where "clone_entries (clone_subtree al ck cv h) ck cv
      (map (\<lambda>i. (kvs n ! i, edges n ! (i + 1))) [0..<node_len n]) (Node [] [out]) l d = (Inr (r, len), a')"
    using clone_entries_succeeds [of "map (\<lambda>i. (kvs n ! i, edges n ! (i + 1))) [0..<node_len n]" "clone_subtree al ck cv h"] Suc.IH
    by blast
  ultimately show ?case using c by (simp add: push_level_def)
qed

text \<open>A clone has the same keys and the clones of their values, in a well-formed tree of its own; it fails only
  when an allocation fails.  The clone of a key is equal to the key, as \<open>Clone\<close> documents for ordered keys.\<close>

lemma btree_clone_copies:
  assumes inv: "map_inv m" and ck: "\<And>k. ck k = k"
  shows "(btree_clone al ck cv m a = (Inr c, a') \<longrightarrow>
       map_inv c \<and> map_length c = map_length m \<and> btree_get c = map_option cv \<circ> btree_get m) \<and>
     ((\<forall>a. fst (al a)) \<longrightarrow> (\<exists>c a'. btree_clone al ck cv m a = (Inr c, a')))"
proof (intro conjI impI)
  assume al: "\<forall>a. fst (al a)"
  obtain r len b where "clone_subtree al ck cv (height m) (root m) a = (Inr (r, len), b)"
    using clone_subtree_succeeds [OF al] by blast
  then show "\<exists>c a'. btree_clone al ck cv m a = (Inr c, a')" by (simp add: btree_clone_def)
next
  assume c: "btree_clone al ck cv m a = (Inr c, a')"
  have len: "map_length m = length (entries m)" using inv by (simp add: map_inv_def)
  show "map_inv c" "map_length c = map_length m" "btree_get c = map_option cv \<circ> btree_get m"
  proof (atomize (full), cases "map_length m = 0")
    case True
    then have "btree_get m = Map.empty" using len btree_get_entries [OF inv] by auto
    then show "map_inv c \<and> map_length c = map_length m \<and> btree_get c = map_option cv \<circ> btree_get m"
      using True c btree_new_ok(1) bt.get_new by (auto simp: btree_clone_def btree_new_def fun_eq_iff)
  next
    case False
    have sh: "shape (height m) (root m)" using inv by (simp add: map_inv_def root_ok_def)
    obtain n l where n: "clone_subtree al ck cv (height m) (root m) a = (Inr (n, l), a')"
      "c = \<lparr>root = n, height = height m, shared_root = False, map_length = l\<rparr>"
      using c False by (auto simp: btree_clone_def split: prod.splits sum.splits)
    have nl: "n = map_node ck cv (root m)" "l = length (entries m)"
      using clone_subtree_ok [OF sh n(1)] by (simp_all add: entries_def)
    have ck': "ck = id" using ck by auto
    have e: "entries c = map (map_prod id cv) (entries m)"
      using n(2) nl ck' by (simp add: entries_def to_list_map_node)
    have "sorted_keys (entries c)" using inv e by (simp add: map_inv_def sorted_keys_def comp_def)
    then have ci: "map_inv c"
      using inv n(2) nl e shape_map_node [OF sh, of ck cv] by (auto simp: map_inv_def root_ok_def)
    have "map_of (map (map_prod id cv) xs) k = map_option cv (map_of xs k)" for xs and k
      by (induction xs) auto
    then have "btree_get c = map_option cv \<circ> btree_get m"
      using btree_get_entries [OF ci] btree_get_entries [OF inv] e by (intro ext) simp
    then show "map_inv c \<and> map_length c = map_length m \<and> btree_get c = map_option cv \<circ> btree_get m"
      using ci n(2) nl(2) len by simp
  qed
qed

lemma btree_clone_copies_witness:
  "\<exists>c. btree_clone always id (\<lambda>v. v) full_leaf () = (Inr c, ()) \<and> map_inv c \<and> btree_get c 7 = Some 70"
proof -
  have "\<forall>a. fst (always a)" by (simp add: always_def)
  then obtain c where "btree_clone always id (\<lambda>v. v) full_leaf () = (Inr c, ())"
    using btree_clone_copies [OF full_leaf_inv, of id always "\<lambda>v. v" "()"] by (metis id_apply unit.exhaust)
  moreover have "btree_get full_leaf 7 = Some 70"
    by (simp add: btree_get_entries [OF full_leaf_inv] full_leaf_entries upto.simps)
  ultimately show ?thesis
    using btree_clone_copies [OF full_leaf_inv, of id always "\<lambda>v. v" "()" c "()"] by simp
qed

end
