(* ===== verification/BTree_Back.thy ===== *)
theory BTree_Back
  imports BTree_Into "HOL-Library.Multiset"
begin

text \<open>
  Double-ended iteration over the B-tree map: the steps from the back of \<open>Range\<close> and \<open>Iter\<close> of
  \<open>alloc_collections/src/btree/map.rs\<close>, and any interleaving of steps from both ends.

  A cut of the tree into the entries left and right of an edge moves by one entry with each step of either
  handle; an iterator is then a double-ended queue of the entries between its handles.
\<close>

section \<open>A step from the back\<close>

lemma last_leaf_tree:
  "last_leaf_edge h n p = (n', i, q) \<Longrightarrow> plug q n' = plug p n \<and> length q = h + length p"
  by (induction h arbitrary: n p) (auto simp: descend_def)

lemma next_back_up_tree:
  "next_back_up h n p = Some (x, n', i', q) \<Longrightarrow> plug q n' = plug p n \<and> length q = h + length p"
proof (induction h n p rule: next_back_up.induct)
  case (2 h n ks es i p)
  let ?pa = "Node ks (es[i := n])"
  show ?case
  proof (cases "0 < i")
    case True
    then have "last_leaf_edge h (edges ?pa ! (i - 1)) ((ks, es[i := n], i - 1) # p) = (n', i', q)"
      using 2(2) by (auto simp: left_kv_def descend_def)
    moreover have "es[i := n, i - 1 := es ! (i - 1)] = es[i := n]"
      using True by (metis diff_less less_irrefl less_one list_update_id list_update_swap)
    ultimately show ?thesis using last_leaf_tree True by fastforce
  next
    case False
    then show ?thesis using 2 by (auto simp: left_kv_def)
  qed
qed simp

lemma next_back_tree:
  assumes "next_back_unchecked (n, i, p) = Some (x, n', i', q)"
  shows "plug q n' = plug p n" "length q = length p"
  using assms next_back_up_tree [of 0 n p x n' i' q]
  by (auto simp: next_back_unchecked_def split: option.splits)

lemma next_back_up_ok:
  assumes "cursor h n p" "lefts p = xs @ [x]"
  shows "\<exists>leaf q. next_back_up h n p = Some (x, leaf, node_len leaf, q) \<and> cursor 0 leaf q \<and> lefts q @ kvs leaf = xs"
  using assms
proof (induction p arbitrary: h n)
  case Nil
  then show ?case by simp
next
  case (Cons f p)
  obtain ks es i where f: "f = (ks, es, i)" by (cases f)
  let ?pa = "Node ks (es[i := n])"
  have cu: "cursor (Suc h) ?pa p" using cursor_parent Cons.prems(1) f by blast
  have len: "length es = Suc (length ks)" "i \<le> length ks"
    using Cons.prems(1) f unfolding cursor_def by auto
  show ?case
  proof (cases i)
    case (Suc j)
    let ?q = "(ks, es[i := n], j) # p"
    have cd: "cursor h (es ! j) ?q" using cursor_descend(1) [OF cu, of j] Suc len by simp
    obtain leaf q where ll: "last_leaf_edge h (es ! j) ?q = (leaf, node_len leaf, q)" "cursor 0 leaf q"
      "lefts q @ kvs leaf = lefts ?q @ to_list (es ! j)" using last_leaf_cursor [OF cd] by blast
    have "xs @ [x] = lefts p @ before (map to_list es) ks j @ to_list (es ! j) @ [ks ! j]"
      using Cons.prems(2) f before_split [of "map to_list es" ks j] len Suc by simp
    moreover have "before (map to_list (es[i := n])) ks j = before (map to_list es) ks j"
      by (rule before_cong) (simp_all add: map_update Suc)
    ultimately show ?thesis
      using f Suc ll by (auto simp: left_kv_def descend_def Let_def)
  next
    case 0
    then have "lefts p = xs @ [x]" using Cons.prems(2) f len by (simp add: before_def)
    from Cons.IH [OF cu this] show ?thesis using f 0 by (simp add: left_kv_def)
  qed
qed

lemma next_back_unchecked_ok:
  assumes "cursor 0 n p" "i \<le> node_len n" "lefts p @ take i (kvs n) = xs @ [x]"
  shows "\<exists>n' i' p'. next_back_unchecked (n, i, p) = Some (x, n', i', p') \<and> cursor 0 n' p' \<and>
     i' \<le> node_len n' \<and> lefts p' @ take i' (kvs n') = xs"
proof (cases i)
  case (Suc j)
  then show ?thesis
    using assms by (auto simp: next_back_unchecked_def left_kv_def take_Suc_conv_app_nth)
next
  case 0
  then have "lefts p = xs @ [x]" using assms by simp
  from next_back_up_ok [OF assms(1) this] 0 show ?thesis
    by (force simp: next_back_unchecked_def left_kv_def)
qed

lemma edge_cut_prev:
  assumes c: "edge_cut rt hh (xs @ [x]) ys e"
  shows "\<exists>e'. next_back_unchecked e = Some (x, e') \<and> edge_cut rt hh xs (x # ys) e'"
proof -
  obtain n i p where e: "e = (n, i, p)" by (cases e)
  have c': "cursor 0 n p" "plug p n = rt" "length p = hh" "i \<le> node_len n"
    "lefts p @ take i (kvs n) = xs @ [x]"
    using c by (simp_all add: edge_cut_def e)
  obtain n' i' p' where s: "next_back_unchecked (n, i, p) = Some (x, n', i', p')" "cursor 0 n' p'"
    "i' \<le> node_len n'" "lefts p' @ take i' (kvs n') = xs"
    using next_back_unchecked_ok [OF c'(1,4,5)] by blast
  have t: "plug p' n' = rt" "length p' = hh" using next_back_tree [OF s(1)] c'(2,3) by simp_all
  define zs where "zs = drop i' (kvs n') @ rights p'"
  have ec: "edge_cut rt hh xs zs (n', i', p')" using s t by (simp add: edge_cut_def zs_def)
  then have "xs @ zs = (xs @ [x]) @ ys"
    using edge_cut_entries [OF c] edge_cut_entries by metis
  then have "zs = x # ys" by simp
  then show ?thesis using ec s(1) e by blast
qed

section \<open>Steps from both ends\<close>

datatype side = Front | Back

fun deque_step :: "side \<Rightarrow> 'a list \<Rightarrow> 'a option \<times> 'a list" where
  "deque_step s [] = (None, [])"
| "deque_step Front (x # xs) = (Some x, xs)"
| "deque_step Back (x # xs) = (Some (last (x # xs)), butlast (x # xs))"

text \<open>What a sequence of calls returns and what it leaves.\<close>

fun deque_run :: "side list \<Rightarrow> 'a list \<Rightarrow> 'a option list" where
  "deque_run [] xs = []"
| "deque_run (s # ss) xs = fst (deque_step s xs) # deque_run ss (snd (deque_step s xs))"

fun deque_rest :: "side list \<Rightarrow> 'a list \<Rightarrow> 'a list" where
  "deque_rest [] xs = xs"
| "deque_rest (s # ss) xs = deque_rest ss (snd (deque_step s xs))"

fun steps :: "(side \<Rightarrow> 'i \<Rightarrow> ('a option \<times> 'i) option) \<Rightarrow> side list \<Rightarrow> 'i \<Rightarrow> ('a option list \<times> 'i) option" where
  "steps step [] it = Some ([], it)"
| "steps step (s # ss) it = do {
     (r, it) \<leftarrow> step s it;
     (rs, it) \<leftarrow> steps step ss it;
     Some (r # rs, it) }"

lemma deque_step_map:
  "deque_step s (map g xs) = (map_option g (fst (deque_step s xs)), map g (snd (deque_step s xs)))"
  by (cases "(s, xs)" rule: deque_step.cases) (simp_all add: last_map map_butlast)

lemma deque_run_front: "deque_run (replicate (Suc (length xs)) Front) xs = map Some xs @ [None]"
  by (induction xs) simp_all

lemma deque_run_back: "deque_run (replicate (Suc (length xs)) Back) xs = map Some (rev xs) @ [None]"
proof (induction xs rule: rev_induct)
  case (snoc x xs)
  have "deque_step Back (xs @ [x]) = (Some x, xs)" by (cases xs) simp_all
  then show ?case using snoc by simp
qed simp

text \<open>A double-ended iterator that holds a list of items.\<close>

locale double_ended =
  fixes step :: "side \<Rightarrow> 'i \<Rightarrow> ('a option \<times> 'i) option"
    and holds :: "'a list \<Rightarrow> 'i \<Rightarrow> bool"
  assumes front_law: "holds (x # xs) it \<Longrightarrow> \<exists>it'. step Front it = Some (Some x, it') \<and> holds xs it'"
    and back_law: "holds (xs @ [x]) it \<Longrightarrow> \<exists>it'. step Back it = Some (Some x, it') \<and> holds xs it'"
    and end_law: "holds [] it \<Longrightarrow> step s it = Some (None, it)"
begin

lemma step_deque:
  assumes "holds xs it"
  shows "\<exists>it'. step s it = Some (fst (deque_step s xs), it') \<and> holds (snd (deque_step s xs)) it'"
proof (cases "(s, xs)" rule: deque_step.cases)
  case (3 y ys)
  then have "xs \<noteq> []" by simp
  then have "holds (butlast xs @ [last xs]) it" using assms append_butlast_last_id [of xs] by metis
  from back_law [OF this] show ?thesis using 3 by simp
qed (use assms front_law end_law in auto)

lemma steps_deque:
  assumes "holds xs it"
  shows "\<exists>it'. steps step ss it = Some (deque_run ss xs, it') \<and> holds (deque_rest ss xs) it'"
  using assms
proof (induction ss arbitrary: xs it)
  case (Cons s ss)
  obtain it' where it': "step s it = Some (fst (deque_step s xs), it')" "holds (snd (deque_step s xs)) it'"
    using step_deque [OF Cons.prems] by blast
  from Cons.IH [OF it'(2)] it'(1) show ?case by auto
qed simp

end

text \<open>Iterators that return a part of each item, such as \<open>Keys\<close> and \<open>Values\<close>.\<close>

locale double_ended_part = double_ended step holds
  for step :: "side \<Rightarrow> 'i \<Rightarrow> ('a option \<times> 'i) option" and holds :: "'a list \<Rightarrow> 'i \<Rightarrow> bool" +
  fixes part :: "'a \<Rightarrow> 'c"
begin

sublocale parts: double_ended
  "\<lambda>s it. map_option (\<lambda>(r, it). (map_option part r, it)) (step s it)"
  "\<lambda>ys it. \<exists>xs. ys = map part xs \<and> holds xs it"
proof
  fix y ys it assume "\<exists>xs. y # ys = map part xs \<and> holds xs it"
  then obtain x xs where x: "y = part x" "ys = map part xs" "holds (x # xs) it" by (metis map_eq_Cons_conv)
  from front_law [OF x(3)] obtain it' where "step Front it = Some (Some x, it')" "holds xs it'" by blast
  then show "\<exists>it'. map_option (\<lambda>(r, it). (map_option part r, it)) (step Front it) = Some (Some y, it') \<and>
      (\<exists>xs. ys = map part xs \<and> holds xs it')" using x by auto
next
  fix y ys it assume "\<exists>xs. ys @ [y] = map part xs \<and> holds xs it"
  then obtain zs where zs: "ys @ [y] = map part zs" "holds zs it" by blast
  then have ne: "zs \<noteq> []" by auto
  then have x: "y = part (last zs)" "ys = map part (butlast zs)" "holds (butlast zs @ [last zs]) it"
    using zs by (metis last_map last_snoc, metis butlast_snoc map_butlast, metis append_butlast_last_id)
  from back_law [OF x(3)] obtain it' where "step Back it = Some (Some (last zs), it')" "holds (butlast zs) it'" by blast
  then show "\<exists>it'. map_option (\<lambda>(r, it). (map_option part r, it)) (step Back it) = Some (Some y, it') \<and>
      (\<exists>xs. ys = map part xs \<and> holds xs it')" using x by auto
qed (auto simp: end_law)

end

section \<open>Ranges and borrowed iterators\<close>

fun range_step :: "side \<Rightarrow> ('k, 'v) btree_range \<Rightarrow> (('k \<times> 'v) option \<times> ('k, 'v) btree_range) option" where
  "range_step Front r = range_next r"
| "range_step Back r = range_next_back r"

fun iter_step :: "side \<Rightarrow> ('k, 'v) btree_iter \<Rightarrow> (('k \<times> 'v) option \<times> ('k, 'v) btree_iter) option" where
  "iter_step Front it = iter_next it"
| "iter_step Back it = iter_next_back it"

text \<open>Two edges of one tree with a list of entries between them.\<close>

definition between :: "('k, 'v) node \<Rightarrow> nat \<Rightarrow> ('k \<times> 'v) list \<Rightarrow> ('k, 'v) handle \<Rightarrow> ('k, 'v) handle \<Rightarrow> bool" where
  "between rt hh ys f b \<longleftrightarrow> (\<exists>xs zs. edge_cut rt hh xs (ys @ zs) f \<and> edge_cut rt hh (xs @ ys) zs b)"

lemma between_eq: "between rt hh ys f b \<Longrightarrow> handle_eq f b \<longleftrightarrow> ys = []"
  by (auto simp: between_def edge_cut_eq)

lemma between_front:
  assumes "between rt hh (y # ys) f b"
  shows "\<exists>f'. next_unchecked f = Some (y, f') \<and> between rt hh ys f' b"
proof -
  obtain xs zs where c: "edge_cut rt hh xs (y # ys @ zs) f" "edge_cut rt hh (xs @ y # ys) zs b"
    using assms by (auto simp: between_def)
  obtain f' where "next_unchecked f = Some (y, f')" "edge_cut rt hh (xs @ [y]) (ys @ zs) f'"
    using edge_cut_next [OF c(1)] by blast
  moreover have "edge_cut rt hh ((xs @ [y]) @ ys) zs b" using c(2) by simp
  ultimately show ?thesis unfolding between_def by blast
qed

lemma between_back:
  assumes "between rt hh (ys @ [y]) f b"
  shows "\<exists>b'. next_back_unchecked b = Some (y, b') \<and> between rt hh ys f b'"
proof -
  obtain xs zs where c: "edge_cut rt hh xs (ys @ y # zs) f" "edge_cut rt hh ((xs @ ys) @ [y]) zs b"
    using assms by (auto simp: between_def)
  obtain b' where "next_back_unchecked b = Some (y, b')" "edge_cut rt hh (xs @ ys) (y # zs) b'"
    using edge_cut_prev [OF c(2)] by blast
  then show ?thesis using c(1) unfolding between_def by blast
qed

definition range_holds :: "('k \<times> 'v) list \<Rightarrow> ('k, 'v) btree_range \<Rightarrow> bool" where
  "range_holds ys r \<longleftrightarrow> (\<exists>rt hh. between rt hh ys (range_front r) (range_back r))"

interpretation range_ends: double_ended range_step range_holds
proof
  fix y ys and r :: "('k, 'v) btree_range" assume "range_holds (y # ys) r"
  then obtain rt hh where b: "between rt hh (y # ys) (range_front r) (range_back r)" by (auto simp: range_holds_def)
  from between_front [OF b] obtain f where f: "next_unchecked (range_front r) = Some (y, f)" "between rt hh ys f (range_back r)" by blast
  then have "range_step Front r = Some (Some y, r\<lparr>range_front := f\<rparr>)" "range_holds ys (r\<lparr>range_front := f\<rparr>)"
    using between_eq [OF b] by (auto simp: range_next_def range_holds_def)
  then show "\<exists>r'. range_step Front r = Some (Some y, r') \<and> range_holds ys r'" by blast
next
  fix y ys and r :: "('k, 'v) btree_range" assume "range_holds (ys @ [y]) r"
  then obtain rt hh where b: "between rt hh (ys @ [y]) (range_front r) (range_back r)" by (auto simp: range_holds_def)
  from between_back [OF b] obtain f where f: "next_back_unchecked (range_back r) = Some (y, f)" "between rt hh ys (range_front r) f" by blast
  then have "range_step Back r = Some (Some y, r\<lparr>range_back := f\<rparr>)" "range_holds ys (r\<lparr>range_back := f\<rparr>)"
    using between_eq [OF b] by (auto simp: range_next_back_def range_holds_def)
  then show "\<exists>r'. range_step Back r = Some (Some y, r') \<and> range_holds ys r'" by blast
next
  fix r :: "('k, 'v) btree_range" and s assume "range_holds [] r"
  then show "range_step s r = Some (None, r)"
    by (cases s) (auto simp: range_holds_def range_next_def range_next_back_def dest: between_eq)
qed

definition iter_holds :: "('k \<times> 'v) list \<Rightarrow> ('k, 'v) btree_iter \<Rightarrow> bool" where
  "iter_holds ys it \<longleftrightarrow> iter_length it = length ys \<and> (\<exists>rt hh. between rt hh ys (front_edge it) (back_edge it))"

interpretation iter_ends: double_ended iter_step iter_holds
proof
  fix y ys and it :: "('k, 'v) btree_iter" assume h: "iter_holds (y # ys) it"
  then obtain rt hh where b: "between rt hh (y # ys) (front_edge it) (back_edge it)" by (auto simp: iter_holds_def)
  from between_front [OF b] obtain f where f: "next_unchecked (front_edge it) = Some (y, f)" "between rt hh ys f (back_edge it)" by blast
  let ?it = "it\<lparr>front_edge := f, iter_length := length ys\<rparr>"
  have "iter_step Front it = Some (Some y, ?it)" "iter_holds ys ?it"
    using f h by (auto simp: iter_next_def iter_holds_def)
  then show "\<exists>it'. iter_step Front it = Some (Some y, it') \<and> iter_holds ys it'" by blast
next
  fix y ys and it :: "('k, 'v) btree_iter" assume h: "iter_holds (ys @ [y]) it"
  then obtain rt hh where b: "between rt hh (ys @ [y]) (front_edge it) (back_edge it)" by (auto simp: iter_holds_def)
  from between_back [OF b] obtain f where f: "next_back_unchecked (back_edge it) = Some (y, f)" "between rt hh ys (front_edge it) f" by blast
  let ?it = "it\<lparr>back_edge := f, iter_length := length ys\<rparr>"
  have "iter_step Back it = Some (Some y, ?it)" "iter_holds ys ?it"
    using f h by (auto simp: iter_next_back_def iter_holds_def)
  then show "\<exists>it'. iter_step Back it = Some (Some y, it') \<and> iter_holds ys it'" by blast
next
  fix it :: "('k, 'v) btree_iter" and s assume "iter_holds [] it"
  then show "iter_step s it = Some (None, it)"
    by (cases s) (auto simp: iter_holds_def iter_next_def iter_next_back_def)
qed

lemma iter_start_holds:
  assumes inv: "map_inv m"
  shows "between (root m) (height m) (entries m) (first_leaf_edge (height m) (root m) []) (last_leaf_edge (height m) (root m) [])"
proof -
  have c: "cursor (height m) (root m) []" using inv by (simp add: map_inv_def cursor_root)
  obtain l p where p: "first_leaf_edge (height m) (root m) [] = (l, 0, p)" "cursor 0 l p" "kvs l @ rights p = entries m"
    using first_leaf_cursor [OF c] by (metis append_Nil2 entries_def rights.simps(1))
  obtain k q where q: "last_leaf_edge (height m) (root m) [] = (k, node_len k, q)" "cursor 0 k q" "lefts q @ kvs k = entries m"
    using last_leaf_cursor [OF c] by (auto simp: entries_def)
  have t: "plug p l = root m" "length p = height m" "plug q k = root m" "length q = height m"
    using first_leaf_tree [OF p(1)] last_leaf_tree [OF q(1)] by simp_all
  have "edge_cut (root m) (height m) (lefts p) (entries m) (l, 0, p)"
    "edge_cut (root m) (height m) (entries m) (rights q) (k, node_len k, q)"
    using p q t by (simp_all add: edge_cut_def)
  moreover from this have "lefts p = []" "rights q = []" by (auto dest!: edge_cut_entries simp: entries_def)
  ultimately show ?thesis using p(1) q(1) unfolding between_def by (intro exI [of _ "[]"]) simp
qed

text \<open>C31: Any sequence of calls of \<open>next\<close> and \<open>next_back\<close> on the iterator of a well-formed map returns what a
  double-ended queue of its entries in key order returns.\<close>

theorem btree_iter_deque:
  assumes "map_inv m"
  shows "\<exists>it. steps iter_step ss (btree_iter_new m) = Some (deque_run ss (entries m), it)"
proof -
  have "iter_holds (entries m) (btree_iter_new m)"
    using iter_start_holds [OF assms] assms by (auto simp: iter_holds_def btree_iter_new_def map_inv_def)
  from iter_ends.steps_deque [OF this] show ?thesis by blast
qed

theorem btree_iter_deque_witness:
  "\<exists>it. steps iter_step [Front, Back, Front] (btree_iter_new full_leaf) = Some ([Some (1, 10), Some (11, 110), Some (2, 20)], it)"
  using btree_iter_deque [OF full_leaf_inv, of "[Front, Back, Front]"]
  by (simp add: full_leaf_entries upto.simps)

text \<open>C32: \<open>range\<close> panics exactly on a start above the end or on equal excluded bounds; otherwise any sequence of
  calls of \<open>next\<close> and \<open>next_back\<close> on it returns what a double-ended queue of the entries between the bounds returns.\<close>

theorem btree_range_deque:
  assumes inv: "map_inv m"
  shows "(btree_range m lo hi = None \<longleftrightarrow> bad_range lo hi) \<and>
     (\<forall>r. btree_range m lo hi = Some r \<longrightarrow>
       (\<exists>r'. steps range_step ss r = Some (deque_run ss (filter (\<lambda>x. in_range lo hi (fst x)) (entries m)), r')))"
proof (cases "bad_range lo hi")
  case True
  then show ?thesis by (simp add: btree_range_def range_search_def)
next
  case False
  let ?xs = "filter (\<lambda>x. in_range lo hi (fst x)) (entries m)"
  obtain f b where fb: "range_search (height m) (root m) lo hi = Some (f, b)" "between (root m) (height m) ?xs f b"
    using range_search_cuts [OF inv False] unfolding between_def by metis
  then have "range_holds ?xs \<lparr>range_front = f, range_back = b\<rparr>" by (auto simp: range_holds_def)
  from range_ends.steps_deque [OF this, of ss] False fb(1) show ?thesis by (auto simp: btree_range_def)
qed

theorem btree_range_deque_witness:
  "\<exists>r r'. btree_range full_leaf (Included 3) (Excluded 6) = Some r \<and>
     steps range_step [Back, Front, Back, Front] r = Some ([Some (5, 50), Some (3, 30), Some (4, 40), None], r')"
proof -
  obtain r where r: "btree_range full_leaf (Included 3) (Excluded 6) = Some r"
    using btree_range_deque [OF full_leaf_inv, of "Included 3" "Excluded 6" "[]"] by fastforce
  then show ?thesis
    using btree_range_deque [OF full_leaf_inv, of "Included 3" "Excluded 6" "[Back, Front, Back, Front]"]
    by (simp add: full_leaf_entries upto.simps in_range_def)
qed

section \<open>The owning iterator\<close>

fun into_step :: "side \<Rightarrow> ('k, 'v) into_iter \<Rightarrow> (('k \<times> 'v) option \<times> ('k, 'v) into_iter) option" where
  "into_step Front it = into_next it"
| "into_step Back it = into_next_back it"

text \<open>The nodes on a path, and those to its left and to its right.\<close>

fun spine :: "nat \<Rightarrow> ('k, 'v) path \<Rightarrow> frees" where
  "spine h [] = [(layout_of h, [])]"
| "spine h ((ks, es, i) # p) = (layout_of h, i # path_indices p) # spine (Suc h) p"

fun left_nodes :: "nat \<Rightarrow> ('k, 'v) path \<Rightarrow> frees" where
  "left_nodes h [] = []"
| "left_nodes h ((ks, es, i) # p) =
     concat (map (\<lambda>j. post h (es ! j) (j # path_indices p)) [0..<i]) @ left_nodes (Suc h) p"

fun right_nodes :: "nat \<Rightarrow> ('k, 'v) path \<Rightarrow> frees" where
  "right_nodes h [] = []"
| "right_nodes h ((ks, es, i) # p) =
     concat (map (\<lambda>j. post h (es ! j) (j # path_indices p)) [Suc i..<Suc (length ks)]) @ right_nodes (Suc h) p"

lemma to_free_nodes: "mset (to_free h p) = mset (spine h p) + mset (right_nodes h p)"
proof (induction h p rule: spine.induct)
  case (2 h ks es i p)
  then show ?case by (auto simp: to_free_def simp del: upt_Suc)
qed (simp add: to_free_def)

text \<open>Every node is on the path, left of it or right of it.\<close>

lemma all_nodes_at:
  "path_shape h p \<Longrightarrow>
   add_mset (layout_of h, path_indices p) (mset (post (h + length p) (plug p n) [])) =
     mset (left_nodes h p) + mset (spine h p) + mset (right_nodes h p) + mset (post h n (path_indices p))"
proof (induction p arbitrary: h n)
  case (Cons f p)
  obtain ks es i where f: "f = (ks, es, i)" by (cases f)
  have ps: "length es = Suc (length ks)" "i \<le> length ks" "path_shape (Suc h) p" using Cons.prems f by simp_all
  let ?pos = "path_indices p" let ?es = "es[i := n]"
  have "[0..<Suc (length ks)] = [0..<i] @ [i..<Suc (length ks)]"
    using upt_add_eq_append [of 0 i "Suc (length ks) - i"] ps(2) by simp
  then have u: "[0..<Suc (length ks)] = [0..<i] @ i # [Suc i..<Suc (length ks)]" using ps(2) by (simp add: upt_conv_Cons)
  have c: "map (\<lambda>j. post h (?es ! j) (j # ?pos)) [0..<i] = map (\<lambda>j. post h (es ! j) (j # ?pos)) [0..<i]"
    "map (\<lambda>j. post h (?es ! j) (j # ?pos)) [Suc i..<Suc (length ks)] = map (\<lambda>j. post h (es ! j) (j # ?pos)) [Suc i..<Suc (length ks)]"
    by (auto simp del: upt_Suc)
  have "mset (post (Suc h) (Node ks ?es) ?pos) =
      mset (concat (map (\<lambda>j. post h (es ! j) (j # ?pos)) [0..<i])) + mset (post h n (i # ?pos)) +
      mset (concat (map (\<lambda>j. post h (es ! j) (j # ?pos)) [Suc i..<Suc (length ks)])) + {#(layout_of (Suc h), ?pos)#}"
    using ps(1,2) by (simp del: upt_Suc mset_concat add: u c)
  then have "add_mset (layout_of (Suc h), ?pos) (mset (post (Suc h + length p) (plug p (Node ks ?es)) [])) +
      {#(layout_of h, i # ?pos)#} =
      add_mset (layout_of (Suc h), ?pos) (mset (left_nodes h (f # p)) + mset (spine h (f # p)) + mset (right_nodes h (f # p)) +
        mset (post h n (i # ?pos)))"
    unfolding Cons.IH [OF ps(3), of "Node ks ?es"] f by (simp del: upt_Suc post.simps mset_concat)
  then show ?case using f by simp
qed simp

lemma all_nodes:
  assumes "edge_cut rt hh xs ys (n, i, p)"
  shows "mset (post hh rt []) = mset (left_nodes 0 p) + mset (spine 0 p) + mset (right_nodes 0 p)"
  using all_nodes_at [of 0 p n] assms by (auto simp: edge_cut_def cursor_def)

text \<open>The two ways to write one place of a tree have the same nodes around them.\<close>

lemma same_path_nodes:
  assumes "path_indices p = path_indices q" "plug p n = plug q m" "path_shape h p" "path_shape h q"
  shows "n = m \<and> left_nodes h p = left_nodes h q \<and> right_nodes h p = right_nodes h q"
  using assms
proof (induction p arbitrary: h n q m)
  case Nil
  then show ?case by (cases q) auto
next
  case (Cons f p)
  obtain ks es i where f: "f = (ks, es, i)" by (cases f)
  then obtain ks' es' q' where q: "q = (ks', es', i) # q'" "path_indices p = path_indices q'"
    using Cons.prems(1) by (cases q) auto
  have ps: "path_shape (Suc h) p" "path_shape (Suc h) q'" "length es = Suc (length ks)" "length es' = Suc (length ks')" "i \<le> length ks"
    using Cons.prems(3,4) f q by simp_all
  have IH: "Node ks (es[i := n]) = Node ks' (es'[i := m])" "left_nodes (Suc h) p = left_nodes (Suc h) q'"
    "right_nodes (Suc h) p = right_nodes (Suc h) q'"
    using Cons.IH [OF q(2) _ ps(1,2), of "Node ks (es[i := n])" "Node ks' (es'[i := m])"] Cons.prems(2) f q by simp_all
  then have e: "es[i := n] = es'[i := m]" "ks = ks'" by simp_all
  have "n = m" using arg_cong [OF e(1), of "\<lambda>e. e ! i"] ps e(2) by simp
  moreover have "es ! j = es' ! j" if "j \<noteq> i" for j using arg_cong [OF e(1), of "\<lambda>e. e ! j"] that by simp
  ultimately show ?case
    using f q IH(2,3) e(2) by (auto simp del: upt_Suc intro!: arg_cong [where f = concat])
qed

section \<open>Nodes freed from the back\<close>

definition to_free_back :: "nat \<Rightarrow> ('k, 'v) path \<Rightarrow> (node_layout \<times> nat list) multiset" where
  "to_free_back h p = mset (spine h p) + mset (left_nodes h p)"

lemma spine_top: "mset (spine h (f # p)) = add_mset (layout_of h, path_indices (f # p)) (mset (spine (Suc h) p))"
  by (cases f) simp

lemma to_free_back_last:
  "shape h c \<Longrightarrow> last_leaf_edge h c p = (leaf, i, q) \<Longrightarrow>
   add_mset (layout_of h, path_indices p) (to_free_back 0 q) = mset (post h c (path_indices p)) + to_free_back h p"
proof (induction h arbitrary: c p)
  case 0
  then show ?case by simp
next
  case (Suc h)
  let ?l = "node_len c" let ?pos = "path_indices p"
  have "shape h (edges c ! ?l)" using Suc.prems(1) by auto
  from Suc.IH [OF this, of "(kvs c, edges c, ?l) # p"] Suc.prems(2)
  have "add_mset (layout_of h, ?l # ?pos) (to_free_back 0 q) =
      mset (post h (edges c ! ?l) (?l # ?pos)) + to_free_back h ((kvs c, edges c, ?l) # p)"
    by (simp add: descend_def)
  then have "add_mset (layout_of h, ?l # ?pos) (to_free_back 0 q) = add_mset (layout_of h, ?l # ?pos)
      (mset (concat (map (\<lambda>j. post h (edges c ! j) (j # ?pos)) [0..<Suc ?l])) + to_free_back (Suc h) p)"
    by (simp add: to_free_back_def del: mset_concat)
  then show ?case by simp
qed

lemma left_nodes_cong:
  "(\<And>j. j < i \<Longrightarrow> es ! j = es' ! j) \<Longrightarrow> left_nodes h ((ks, es, i) # p) = left_nodes h ((ks, es', i) # p)"
  by (auto intro!: arg_cong [where f = concat])

lemma into_back_up_ok:
  assumes "cursor h n p" "next_back_up h n p = Some (kv, leaf, i, q)"
  shows "\<exists>fr'. into_back_up h n p fr = Some ((kv, leaf, i, q), fr') \<and>
     mset fr' + to_free_back 0 q = mset fr + to_free_back h p"
  using assms
proof (induction p arbitrary: h n fr)
  case (Cons f p)
  obtain ks es j where f: "f = (ks, es, j)" by (cases f)
  let ?pa = "Node ks (es[j := n])" let ?fr = "fr @ [(layout_of h, path_indices (f # p))]"
  have cu: "cursor (Suc h) ?pa p" using cursor_parent Cons.prems(1) f by blast
  have len: "length es = Suc (length ks)" "j \<le> length ks" using Cons.prems(1) f unfolding cursor_def by auto
  show ?case
  proof (cases j)
    case (Suc k)
    let ?q = "(ks, es[j := n], k) # p"
    have ll: "last_leaf_edge h (es ! k) ?q = (leaf, i, q)" "kv = ks ! k"
      using Cons.prems(2) f Suc by (auto simp: left_kv_def descend_def Let_def)
    have "es ! k \<in> set (es[j := n])" using Suc len nth_mem [of k "es[j := n]"] by simp
    then have "shape h (es ! k)" using cu by (simp add: cursor_def)
    then have "add_mset (layout_of h, k # path_indices p) (to_free_back 0 q) =
        mset (post h (es ! k) (k # path_indices p)) + to_free_back h ?q"
      using to_free_back_last [OF _ ll(1)] by simp
    moreover have "left_nodes h ?q = left_nodes h ((ks, es, k) # p)" by (rule left_nodes_cong) (simp add: Suc)
    ultimately have "add_mset (layout_of h, path_indices (f # p)) (to_free_back 0 q) = to_free_back h (f # p)"
      using f Suc by (simp add: to_free_back_def)
    then show ?thesis
      using f Suc ll
      by (subst into_back_up.simps) (simp add: deallocate_and_ascend_def left_kv_def descend_def)
  next
    case 0
    then have "next_back_up (Suc h) ?pa p = Some (kv, leaf, i, q)" using Cons.prems(2) f by (simp add: left_kv_def)
    from Cons.IH [OF cu this, of ?fr] obtain fr' where
      fr': "into_back_up (Suc h) ?pa p ?fr = Some ((kv, leaf, i, q), fr')"
        "mset fr' + to_free_back 0 q = mset ?fr + to_free_back (Suc h) p" by blast
    have "to_free_back h (f # p) = add_mset (layout_of h, path_indices (f # p)) (to_free_back (Suc h) p)"
      using f 0 by (simp add: to_free_back_def)
    then show ?thesis
      using f 0 fr' by (subst into_back_up.simps) (simp add: deallocate_and_ascend_def left_kv_def)
  qed
qed simp

section \<open>An owning iterator and its destructor\<close>

text \<open>The entries between the handles; freed are the nodes left of the front and right of the back.\<close>

definition into_at :: "('k, 'v) node \<Rightarrow> nat \<Rightarrow> ('k \<times> 'v) list \<Rightarrow> ('k, 'v) into_iter \<Rightarrow> bool" where
  "into_at rt hh ys it \<longleftrightarrow> into_length it = length ys \<and> between rt hh ys (into_front it) (into_back it) \<and>
     mset (freed it) = mset (left_nodes 0 (snd (snd (into_front it)))) + mset (right_nodes 0 (snd (snd (into_back it))))"

lemma mset_sides:
  fixes S :: "'a multiset"
  assumes "F' + S' = F + S" "A = L' + S'" "A = L + S"
  shows "F' + L = F + L'"
proof -
  have "(F' + L) + S' = (F + S) + L" using assms(1) by (simp add: ac_simps)
  also have "\<dots> = F + (L' + S')" using assms(2,3) by (simp add: ac_simps)
  finally show ?thesis by (simp add: ac_simps)
qed

lemma into_front_step:
  assumes "into_at rt hh (y # ys) it"
  shows "\<exists>it'. into_next it = Some (Some y, it') \<and> into_at rt hh ys it' \<and> into_shared it' = into_shared it"
proof -
  obtain n i p where f: "into_front it = (n, i, p)" by (cases "into_front it")
  have at: "into_length it = Suc (length ys)" "between rt hh (y # ys) (n, i, p) (into_back it)"
    "mset (freed it) = mset (left_nodes 0 p) + mset (right_nodes 0 (snd (snd (into_back it))))"
    using assms f by (simp_all add: into_at_def)
  obtain xs zs where c: "edge_cut rt hh xs (y # ys @ zs) (n, i, p)" using at(2) by (auto simp: between_def)
  obtain e where e: "next_unchecked (n, i, p) = Some (y, e)" "between rt hh ys e (into_back it)"
    using between_front [OF at(2)] by blast
  show ?thesis
  proof (cases "i < node_len n")
    case True
    then have "e = (n, Suc i, p)" "kvs n ! i = y" using e(1) by (auto simp: next_unchecked_def right_kv_def)
    then show ?thesis using True at e(2) f by (simp add: into_next_def right_kv_def Let_def into_at_def)
  next
    case False
    obtain n' i' q where q: "e = (n', i', q)" by (cases e)
    have up: "next_up 0 n p = Some (y, n', i', q)" using e(1) False q by (simp add: next_unchecked_def right_kv_def)
    have cu: "cursor 0 n p" using c by (simp add: edge_cut_def)
    obtain fr where fr: "into_up 0 n p (freed it) = Some ((y, n', i', q), fr)" "fr @ to_free 0 q = freed it @ to_free 0 p"
      using into_up_ok [OF cu up, of "freed it"] by blast
    obtain xs' zs' where c': "edge_cut rt hh xs' zs' (n', i', q)" using e(2) q by (auto simp: between_def)
    have "mset fr + (mset (spine 0 q) + mset (right_nodes 0 q)) = mset (freed it) + (mset (spine 0 p) + mset (right_nodes 0 p))"
      using arg_cong [OF fr(2), of mset] by (simp add: to_free_nodes)
    then have "mset fr + mset (left_nodes 0 p) = mset (freed it) + mset (left_nodes 0 q)"
      by (rule mset_sides) (use all_nodes [OF c] all_nodes [OF c'] in \<open>simp_all only: add.assoc\<close>)
    then have "mset fr = mset (left_nodes 0 q) + mset (right_nodes 0 (snd (snd (into_back it))))"
      unfolding at(3) by simp
    then show ?thesis using False at e(2) f fr(1) q by (simp add: into_next_def right_kv_def Let_def into_at_def)
  qed
qed

lemma into_back_step:
  assumes "into_at rt hh (ys @ [y]) it"
  shows "\<exists>it'. into_next_back it = Some (Some y, it') \<and> into_at rt hh ys it' \<and> into_shared it' = into_shared it"
proof -
  obtain n i p where f: "into_back it = (n, i, p)" by (cases "into_back it")
  have at: "into_length it = Suc (length ys)" "between rt hh (ys @ [y]) (into_front it) (n, i, p)"
    "mset (freed it) = mset (left_nodes 0 (snd (snd (into_front it)))) + mset (right_nodes 0 p)"
    using assms f by (simp_all add: into_at_def)
  obtain xs zs where c: "edge_cut rt hh xs zs (n, i, p)" using at(2) by (auto simp: between_def)
  obtain e where e: "next_back_unchecked (n, i, p) = Some (y, e)" "between rt hh ys (into_front it) e"
    using between_back [OF at(2)] by blast
  show ?thesis
  proof (cases i)
    case (Suc j)
    then have "e = (n, j, p)" "kvs n ! j = y" using e(1) by (auto simp: next_back_unchecked_def left_kv_def)
    then show ?thesis using Suc at e(2) f by (simp add: into_next_back_def left_kv_def Let_def into_at_def)
  next
    case 0
    obtain n' i' q where q: "e = (n', i', q)" by (cases e)
    have up: "next_back_up 0 n p = Some (y, n', i', q)" using e(1) 0 q by (simp add: next_back_unchecked_def left_kv_def)
    have cu: "cursor 0 n p" using c by (simp add: edge_cut_def)
    obtain fr where fr: "into_back_up 0 n p (freed it) = Some ((y, n', i', q), fr)"
      "mset fr + to_free_back 0 q = mset (freed it) + to_free_back 0 p"
      using into_back_up_ok [OF cu up, of "freed it"] by blast
    obtain xs' zs' where c': "edge_cut rt hh xs' zs' (n', i', q)" using e(2) q by (auto simp: between_def)
    have "mset fr + mset (right_nodes 0 p) = mset (freed it) + mset (right_nodes 0 q)"
      by (rule mset_sides [OF fr(2)])
        (use all_nodes [OF c] all_nodes [OF c'] in \<open>simp_all add: to_free_back_def ac_simps\<close>)
    then have "mset fr = mset (left_nodes 0 (snd (snd (into_front it)))) + mset (right_nodes 0 q)"
      unfolding at(3) by simp
    then show ?thesis using 0 at e(2) f fr(1) q by (simp add: into_next_back_def left_kv_def Let_def into_at_def)
  qed
qed

interpretation into_ends: double_ended into_step "\<lambda>ys it. into_at rt hh ys it \<and> into_shared it = sh"
  for rt :: "('k, 'v) node" and hh sh
proof
  fix s and it :: "('k, 'v) into_iter" assume "into_at rt hh [] it \<and> into_shared it = sh"
  then show "into_step s it = Some (None, it)" by (cases s) (simp_all add: into_at_def into_next_def into_next_back_def)
next
  fix y ys and it :: "('k, 'v) into_iter" assume "into_at rt hh (y # ys) it \<and> into_shared it = sh"
  then show "\<exists>it'. into_step Front it = Some (Some y, it') \<and> into_at rt hh ys it' \<and> into_shared it' = sh"
    using into_front_step [of rt hh y ys it] by simp
next
  fix y ys and it :: "('k, 'v) into_iter" assume "into_at rt hh (ys @ [y]) it \<and> into_shared it = sh"
  then show "\<exists>it'. into_step Back it = Some (Some y, it') \<and> into_at rt hh ys it' \<and> into_shared it' = sh"
    using into_back_step [of rt hh ys y it] by simp
qed

lemma into_drain_at:
  assumes "into_at rt hh ys it"
  shows "\<exists>it'. into_drain it = Some (ys, it') \<and> into_at rt hh [] it' \<and> into_shared it' = into_shared it"
  using assms
proof (induction ys arbitrary: it)
  case Nil
  then show ?case by (subst into_drain.simps) (simp add: into_next_def into_at_def)
next
  case (Cons y ys)
  obtain it' where it': "into_next it = Some (Some y, it')" "into_at rt hh ys it'" "into_shared it' = into_shared it"
    using into_front_step [OF Cons.prems] by blast
  from Cons.IH [OF it'(2)] it' show ?case by (subst into_drain.simps) auto
qed

lemma dealloc_spine_path: "dealloc_spine h n p fr = fr @ spine h p"
proof (induction p arbitrary: h n fr)
  case Nil
  then show ?case by (subst dealloc_spine.simps) (simp add: deallocate_and_ascend_def)
next
  case (Cons f p)
  obtain ks es i where f: "f = (ks, es, i)" by (cases f)
  show ?case
    using Cons.IH [of "Suc h" "Node ks (es[i := n])" "fr @ [(layout_of h, path_indices (f # p))]"] f
    by (subst dealloc_spine.simps) (simp add: deallocate_and_ascend_def)
qed

text \<open>At the start nothing is freed; at the end the path of the front is all that is left to free.\<close>

lemma into_start_at:
  assumes inv: "map_inv m"
  shows "into_at (root m) (height m) (entries m) (btree_into_iter m) \<and> into_shared (btree_into_iter m) = shared_root m"
proof -
  let ?rt = "root m" and ?hh = "height m"
  have sh: "shape ?hh ?rt" using inv by (simp add: map_inv_def root_ok_def)
  obtain l i p k j q where h: "first_leaf_edge ?hh ?rt [] = (l, i, p)" "last_leaf_edge ?hh ?rt [] = (k, j, q)" by (metis prod.exhaust)
  have bt: "between ?rt ?hh (entries m) (l, i, p) (k, j, q)" using iter_start_holds [OF inv] h by simp
  obtain xs ys xs' ys' where c: "edge_cut ?rt ?hh xs ys (l, i, p)" "edge_cut ?rt ?hh xs' ys' (k, j, q)"
    using bt by (auto simp: between_def)
  have "mset (left_nodes 0 p) + mset (to_free 0 p) = mset (to_free 0 p)"
    using arg_cong [OF to_free_first [OF sh h(1)], of mset] all_nodes [OF c(1)] by (simp add: to_free_nodes)
  moreover have "mset (right_nodes 0 q) + to_free_back 0 q = to_free_back 0 q"
    using to_free_back_last [OF sh h(2)] all_nodes [OF c(2)] by (simp add: to_free_back_def)
  ultimately show ?thesis using bt h inv by (simp add: into_at_def btree_into_iter_def map_inv_def)
qed

lemma into_end_nodes:
  assumes "into_at rt hh [] it" "into_front it = (n, a, f)"
  shows "mset (freed it @ spine 0 f) = mset (post hh rt [])"
proof -
  obtain n' a' b where fb: "into_back it = (n', a', b)" by (metis prod.exhaust)
  have e: "between rt hh [] (n, a, f) (n', a', b)" "mset (freed it) = mset (left_nodes 0 f) + mset (right_nodes 0 b)"
    using assms fb by (simp_all add: into_at_def)
  obtain us vs where ec: "edge_cut rt hh us vs (n, a, f)" "edge_cut rt hh us vs (n', a', b)" using e(1) by (auto simp: between_def)
  have "path_indices f = path_indices b" using between_eq [OF e(1)] by (simp add: handle_eq_def)
  then have "right_nodes 0 f = right_nodes 0 b" using same_path_nodes [of f b n n' 0] ec by (simp add: edge_cut_def cursor_def)
  then show ?thesis using e(2) all_nodes [OF ec(1)] by (simp add: ac_simps)
qed

text \<open>C33: An owning iterator over a well-formed map returns the items of a double-ended queue of the entries, and
  dropping it after any sequence of calls of \<open>next\<close> and \<open>next_back\<close> drops the entries that are left and completes
  the frees: over its life every node of the tree is freed exactly once, with the layout of its kind, and
  the static empty root never.\<close>

theorem into_iter_frees_once:
  assumes inv: "map_inv m"
  shows "\<exists>it fr. steps into_step ss (btree_into_iter m) = Some (deque_run ss (entries m), it) \<and>
     into_drop it = Some (deque_rest ss (entries m), fr) \<and> distinct (map snd fr) \<and>
     set fr = (if shared_root m then {}
               else {(layout_at (height m) js, rev js) | js. is_node (height m) (root m) js})"
proof -
  let ?rt = "root m" and ?hh = "height m" and ?rest = "deque_rest ss (entries m)"
  obtain it where it: "steps into_step ss (btree_into_iter m) = Some (deque_run ss (entries m), it)"
    "into_at ?rt ?hh ?rest it" "into_shared it = shared_root m"
    using into_ends.steps_deque [OF into_start_at [OF inv], of ss] by blast
  obtain it' where it': "into_drain it = Some (?rest, it')" "into_at ?rt ?hh [] it'" "into_shared it' = shared_root m"
    using into_drain_at [OF it(2)] it(3) by auto
  obtain n a f where fb: "into_front it' = (n, a, f)" by (metis prod.exhaust)
  note all = into_end_nodes [OF it'(2) fb]
  show ?thesis
  proof (cases "shared_root m")
    case True
    then have "?hh = 0" using inv by (simp add: map_inv_def)
    then have "size (mset (freed it' @ spine 0 f)) = 1" unfolding all by simp
    moreover have "spine 0 f \<noteq> []" by (cases f) auto
    ultimately have "freed it' = []" by (cases "spine 0 f") (auto simp del: mset_append)
    then show ?thesis using True it it' fb by (simp add: into_drop_def)
  next
    case False
    have "into_drop it = Some (?rest, freed it' @ spine 0 f)" using False it' fb by (simp add: into_drop_def dealloc_spine_path)
    moreover have "mset (map snd (freed it' @ spine 0 f)) = mset (map snd (post ?hh ?rt []))" using all by (simp only: mset_map)
    then have "distinct (map snd (freed it' @ spine 0 f))" using distinct_post mset_eq_imp_distinct_iff by blast
    moreover have "set (freed it' @ spine 0 f) = set (post ?hh ?rt [])" using all mset_eq_setD by blast
    ultimately show ?thesis using False it(1) by (simp add: set_post)
  qed
qed

theorem into_iter_frees_once_witness:
  "\<exists>it fr. steps into_step [Back, Front] (btree_into_iter full_leaf) = Some ([Some (11, 110), Some (1, 10)], it) \<and>
     into_drop it = Some (map (\<lambda>k. (k, 10 * k)) [2..10], fr) \<and> distinct (map snd fr) \<and> set fr = {(LeafLayout, [])}"
proof -
  have "{(layout_at 0 js, rev js) | js. is_node 0 (root full_leaf) js} = {(LeafLayout, [])}"
  proof -
    have "is_node 0 (root full_leaf) js \<longleftrightarrow> js = []" for js by (cases js) auto
    then show ?thesis by (simp add: layout_at_def layout_of_def)
  qed
  moreover have "height full_leaf = 0" "\<not> shared_root full_leaf" by (simp_all add: full_leaf_def)
  ultimately show ?thesis
    using into_iter_frees_once [OF full_leaf_inv, of "[Back, Front]"] by (simp add: full_leaf_entries upto.simps)
qed

end
