(* ===== verification/BTree_Entry.thy ===== *)
theory BTree_Entry
  imports BTree_Bulk_Contract BTree_Back
begin

text \<open>
  The entry interface of the B-tree map in \<open>alloc_collections/src/btree/map.rs\<close>, the operations that sets
  need (\<open>Recover\<close>) and the comparisons of whole maps.

  \<^item> An entry borrows the map: it holds the handle that the search found and the map itself.
  \<^item> A method that returns a reference to a value returns the value it refers to; a write through the
    reference is the method with the suffix \<open>_with\<close>, or \<open>and_modify\<close>.
\<close>

section \<open>Entries\<close>

record ('k, 'v) occupied_entry =
  occ_height :: nat
  occ_handle :: "('k, 'v) handle"
  occ_map :: "('k, 'v) btree_map"

record ('k, 'v) vacant_entry =
  vac_key :: 'k
  vac_handle :: "('k, 'v) handle"
  vac_map :: "('k, 'v) btree_map"

datatype ('k, 'v) btree_entry =
    Occupied "('k, 'v) occupied_entry"
  | Vacant "('k, 'v) vacant_entry"

definition map_entry :: "'a allocator \<Rightarrow> ('k :: linorder, 'v) btree_map \<Rightarrow> 'k \<Rightarrow> 'a
    \<Rightarrow> (alloc_err + ('k, 'v) btree_entry) \<times> 'a" where
  "map_entry al m key a =
     (case ensure_root_is_owned al m a of
        (Inl e, m, a) \<Rightarrow> (Inl e, a)
      | (Inr _, m, a) \<Rightarrow>
          (case search_tree (height m) (root m) [] key of
             Found h x \<Rightarrow> (Inr (Occupied \<lparr>occ_height = h, occ_handle = x, occ_map = m\<rparr>), a)
           | GoDown x \<Rightarrow> (Inr (Vacant \<lparr>vac_key = key, vac_handle = x, vac_map = m\<rparr>), a)))"

definition occupied_key :: "('k, 'v) occupied_entry \<Rightarrow> 'k" where
  "occupied_key e = (case occ_handle e of (n, idx, p) \<Rightarrow> fst (kvs n ! idx))"

definition occupied_get :: "('k, 'v) occupied_entry \<Rightarrow> 'v" where
  "occupied_get e = (case occ_handle e of (n, idx, p) \<Rightarrow> snd (kvs n ! idx))"

text \<open>\<open>get_mut\<close> and a write of \<open>f\<close> of the old value: the handle and the map see the new value.\<close>

definition occupied_get_mut_with :: "('v \<Rightarrow> 'v) \<Rightarrow> ('k, 'v) occupied_entry \<Rightarrow> ('k, 'v) occupied_entry" where
  "occupied_get_mut_with f e = (case occ_handle e of (n, idx, p) \<Rightarrow>
     let n' = Node ((kvs n)[idx := (fst (kvs n ! idx), f (snd (kvs n ! idx)))]) (edges n) in
     e\<lparr>occ_handle := (n', idx, p), occ_map := (occ_map e)\<lparr>root := plug p n'\<rparr>\<rparr>)"

definition occupied_into_mut :: "('k, 'v) occupied_entry \<Rightarrow> 'v \<times> ('k, 'v) btree_map" where
  "occupied_into_mut e = (occupied_get e, occ_map e)"

definition occupied_insert :: "'v \<Rightarrow> ('k, 'v) occupied_entry \<Rightarrow> 'v \<times> ('k, 'v) occupied_entry" where
  "occupied_insert v e = (occupied_get e, occupied_get_mut_with (\<lambda>_. v) e)"

definition occupied_remove_entry :: "('k, 'v) occupied_entry \<Rightarrow> (('k \<times> 'v) \<times> ('k, 'v) btree_map) option" where
  "occupied_remove_entry e =
     map_option (\<lambda>(kv, n, h). (kv, (occ_map e)\<lparr>root := n, height := h, map_length := map_length (occ_map e) - 1\<rparr>))
       (remove_kv (occ_height e) (occ_handle e))"

definition occupied_remove :: "('k, 'v) occupied_entry \<Rightarrow> ('v \<times> ('k, 'v) btree_map) option" where
  "occupied_remove e = map_option (\<lambda>((k, v), m). (v, m)) (occupied_remove_entry e)"

definition vacant_entry_insert :: "'a allocator \<Rightarrow> 'v \<Rightarrow> ('k, 'v) vacant_entry \<Rightarrow> 'a
    \<Rightarrow> (alloc_err + 'v) \<times> ('k, 'v) btree_map \<times> 'a" where
  "vacant_entry_insert al v e a =
     (let m = (vac_map e)\<lparr>map_length := map_length (vac_map e) + 1\<rparr> in
      case vacant_insert al (vac_handle e) (vac_key e, v) (height m) a of
        (Inl err, n, h, a) \<Rightarrow> (Inl err, m\<lparr>root := n, height := h\<rparr>, a)
      | (Inr _, n, h, a) \<Rightarrow> (Inr v, m\<lparr>root := n, height := h\<rparr>, a))"

definition entry_key :: "('k, 'v) btree_entry \<Rightarrow> 'k" where
  "entry_key e = (case e of Occupied e \<Rightarrow> occupied_key e | Vacant e \<Rightarrow> vac_key e)"

definition and_modify :: "('v \<Rightarrow> 'v) \<Rightarrow> ('k, 'v) btree_entry \<Rightarrow> ('k, 'v) btree_entry" where
  "and_modify f e = (case e of Occupied e \<Rightarrow> Occupied (occupied_get_mut_with f e) | Vacant e \<Rightarrow> Vacant e)"

definition or_insert_with :: "'a allocator \<Rightarrow> (unit \<Rightarrow> 'v) \<Rightarrow> ('k, 'v) btree_entry \<Rightarrow> 'a
    \<Rightarrow> (alloc_err + 'v) \<times> ('k, 'v) btree_map \<times> 'a" where
  "or_insert_with al dflt e a =
     (case e of
        Occupied e \<Rightarrow> (case occupied_into_mut e of (v, m) \<Rightarrow> (Inr v, m, a))
      | Vacant e \<Rightarrow> vacant_entry_insert al (dflt ()) e a)"

definition or_insert :: "'a allocator \<Rightarrow> 'v \<Rightarrow> ('k, 'v) btree_entry \<Rightarrow> 'a
    \<Rightarrow> (alloc_err + 'v) \<times> ('k, 'v) btree_map \<times> 'a" where
  "or_insert al dflt e a =
     (case e of
        Occupied e \<Rightarrow> (case occupied_into_mut e of (v, m) \<Rightarrow> (Inr v, m, a))
      | Vacant e \<Rightarrow> vacant_entry_insert al dflt e a)"

section \<open>Recover: maps from keys to the unit value, as sets use them\<close>

definition recover_get :: "('k :: linorder, unit) btree_map \<Rightarrow> 'k \<Rightarrow> 'k option" where
  "recover_get m key =
     (case search_tree (height m) (root m) [] key of
        Found h (n, idx, p) \<Rightarrow> Some (fst (kvs n ! idx))
      | GoDown _ \<Rightarrow> None)"

definition recover_take :: "('k :: linorder, unit) btree_map \<Rightarrow> 'k \<Rightarrow> ('k option \<times> ('k, unit) btree_map) option" where
  "recover_take m key =
     (case search_tree (height m) (root m) [] key of
        Found h x \<Rightarrow> map_option (\<lambda>((k, _), m). (Some k, m))
          (occupied_remove_entry \<lparr>occ_height = h, occ_handle = x, occ_map = m\<rparr>)
      | GoDown _ \<Rightarrow> Some (None, m))"

definition recover_replace :: "'a allocator \<Rightarrow> ('k :: linorder, unit) btree_map \<Rightarrow> 'k \<Rightarrow> 'a
    \<Rightarrow> (alloc_err + 'k option) \<times> ('k, unit) btree_map \<times> 'a" where
  "recover_replace al m key a =
     (case ensure_root_is_owned al m a of
        (Inl e, m, a) \<Rightarrow> (Inl e, m, a)
      | (Inr _, m, a) \<Rightarrow>
          (case search_tree (height m) (root m) [] key of
             Found h (n, idx, p) \<Rightarrow>
               (Inr (Some (fst (kvs n ! idx))),
                m\<lparr>root := plug p (Node ((kvs n)[idx := (key, snd (kvs n ! idx))]) (edges n))\<rparr>, a)
           | GoDown x \<Rightarrow>
               (case vacant_entry_insert al () \<lparr>vac_key = key, vac_handle = x, vac_map = m\<rparr> a of
                  (Inl e, m, a) \<Rightarrow> (Inl e, m, a)
                | (Inr _, m, a) \<Rightarrow> (Inr None, m, a))))"

section \<open>Whole maps\<close>

text \<open>\<open>clear\<close> assigns a new map, which drops the old one: the map and the nodes freed.\<close>

definition btree_clear :: "('k, 'v) btree_map \<Rightarrow> (('k, 'v) btree_map \<times> frees) option" where
  "btree_clear m = map_option (\<lambda>(dropped, fr). (btree_new, fr)) (btree_drop m)"

definition btree_get_key_value :: "('k :: linorder, 'v) btree_map \<Rightarrow> 'k \<Rightarrow> ('k \<times> 'v) option" where
  "btree_get_key_value m key =
     (case search_tree (height m) (root m) [] key of
        Found h (n, idx, p) \<Rightarrow> Some (kvs n ! idx)
      | GoDown _ \<Rightarrow> None)"

text \<open>Indexing; \<open>None\<close> is the panic of \<open>expect\<close>.\<close>

definition btree_index :: "('k :: linorder, 'v) btree_map \<Rightarrow> 'k \<Rightarrow> 'v option" where
  "btree_index m key = btree_get m key"

definition btree_is_empty :: "('k, 'v) btree_map \<Rightarrow> bool" where
  "btree_is_empty m \<longleftrightarrow> map_length m = 0"

definition keys_next :: "('k, 'v) btree_iter \<Rightarrow> ('k option \<times> ('k, 'v) btree_iter) option" where
  "keys_next it = map_option (\<lambda>(r, it). (map_option fst r, it)) (iter_next it)"

definition values_next :: "('k, 'v) btree_iter \<Rightarrow> ('v option \<times> ('k, 'v) btree_iter) option" where
  "values_next it = map_option (\<lambda>(r, it). (map_option snd r, it)) (iter_next it)"

definition values_next_back :: "('k, 'v) btree_iter \<Rightarrow> ('v option \<times> ('k, 'v) btree_iter) option" where
  "values_next_back it = map_option (\<lambda>(r, it). (map_option snd r, it)) (iter_next_back it)"

text \<open>The keys and the values of a map from both ends, by the contract of the iterator over its entries.\<close>

fun keys_step :: "side \<Rightarrow> ('k, 'v) btree_iter \<Rightarrow> ('k option \<times> ('k, 'v) btree_iter) option" where
  "keys_step Front it = keys_next it"
| "keys_step Back it = keys_next_back it"

fun values_step :: "side \<Rightarrow> ('k, 'v) btree_iter \<Rightarrow> ('v option \<times> ('k, 'v) btree_iter) option" where
  "values_step Front it = values_next it"
| "values_step Back it = values_next_back it"

interpretation iter_keys: double_ended_part iter_step iter_holds fst
  by unfold_locales

interpretation iter_values: double_ended_part iter_step iter_holds snd
  by unfold_locales

lemma keys_values_step:
  "keys_step s it = map_option (\<lambda>(r, it). (map_option fst r, it)) (iter_step s it)"
  "values_step s it = map_option (\<lambda>(r, it). (map_option snd r, it)) (iter_step s it)"
  by (cases s; simp add: keys_next_def keys_next_back_def values_next_def values_next_back_def)+

lemma btree_keys_values:
  assumes inv: "map_inv m"
  shows "\<exists>it. steps keys_step ss (btree_iter_new m) = Some (deque_run ss (map fst (entries m)), it)"
    "\<exists>it. steps values_step ss (btree_iter_new m) = Some (deque_run ss (map snd (entries m)), it)"
proof -
  have h: "iter_holds (entries m) (btree_iter_new m)"
    using iter_start_holds [OF inv] inv by (auto simp: iter_holds_def btree_iter_new_def map_inv_def)
  have k: "keys_step = (\<lambda>s it. map_option (\<lambda>(r, it). (map_option fst r, it)) (iter_step s it))"
    and v: "values_step = (\<lambda>s it. map_option (\<lambda>(r, it). (map_option snd r, it)) (iter_step s it))"
    by (intro ext keys_values_step)+
  have "\<exists>xs. map fst (entries m) = map fst xs \<and> iter_holds xs (btree_iter_new m)" using h by blast
  from iter_keys.parts.steps_deque [OF this, of ss]
  show "\<exists>it. steps keys_step ss (btree_iter_new m) = Some (deque_run ss (map fst (entries m)), it)"
    unfolding k by blast
  have "\<exists>xs. map snd (entries m) = map snd xs \<and> iter_holds xs (btree_iter_new m)" using h by blast
  from iter_values.parts.steps_deque [OF this, of ss]
  show "\<exists>it. steps values_step ss (btree_iter_new m) = Some (deque_run ss (map snd (entries m)), it)"
    unfolding v by blast
qed

text \<open>\<open>zip\<close> and \<open>all\<close> on the two iterators; the loop ends when one of them does.\<close>

function zip_all :: "('k, 'v) btree_iter \<Rightarrow> ('k, 'v) btree_iter \<Rightarrow> bool option" where
  "zip_all i j =
     (case iter_next i of
        None \<Rightarrow> None
      | Some (None, _) \<Rightarrow> Some True
      | Some (Some x, i) \<Rightarrow>
          (case iter_next j of
             None \<Rightarrow> None
           | Some (None, _) \<Rightarrow> Some True
           | Some (Some y, j) \<Rightarrow> if x = y then zip_all i j else Some False))"
  by pat_completeness auto
termination
  by (relation "measure (\<lambda>(i, j). iter_length i)") (auto simp: iter_next_def split: if_splits)

declare zip_all.simps [simp del]

definition btree_eq :: "('k, 'v) btree_map \<Rightarrow> ('k, 'v) btree_map \<Rightarrow> bool option" where
  "btree_eq m other =
     (if map_length m = map_length other then zip_all (btree_iter_new m) (btree_iter_new other) else Some False)"

datatype ordering = Less | Equal | Greater

definition pair_cmp :: "'k :: linorder \<times> 'v :: linorder \<Rightarrow> 'k \<times> 'v \<Rightarrow> ordering" where
  "pair_cmp x y =
     (if fst x < fst y then Less else if fst y < fst x then Greater
      else if snd x < snd y then Less else if snd y < snd x then Greater else Equal)"

text \<open>\<open>Iterator::cmp\<close>.\<close>

function iter_cmp :: "('k :: linorder, 'v :: linorder) btree_iter \<Rightarrow> ('k, 'v) btree_iter \<Rightarrow> ordering option" where
  "iter_cmp i j =
     (case iter_next i of
        None \<Rightarrow> None
      | Some (None, _) \<Rightarrow>
          (case iter_next j of None \<Rightarrow> None | Some (None, _) \<Rightarrow> Some Equal | Some (Some _, _) \<Rightarrow> Some Less)
      | Some (Some x, i) \<Rightarrow>
          (case iter_next j of
             None \<Rightarrow> None
           | Some (None, _) \<Rightarrow> Some Greater
           | Some (Some y, j) \<Rightarrow> (case pair_cmp x y of Equal \<Rightarrow> iter_cmp i j | c \<Rightarrow> Some c)))"
  by pat_completeness auto
termination
  by (relation "measure (\<lambda>(i, j). iter_length i)") (auto simp: iter_next_def split: if_splits)

declare iter_cmp.simps [simp del]

definition btree_cmp :: "('k :: linorder, 'v :: linorder) btree_map \<Rightarrow> ('k, 'v) btree_map \<Rightarrow> ordering option" where
  "btree_cmp m other = iter_cmp (btree_iter_new m) (btree_iter_new other)"

section \<open>Entries refine the finite map\<close>

lemma map_entry_cases:
  assumes inv: "map_inv m" and e: "map_entry al m key a = (Inr e, b)"
  obtains (occupied) h n i p m1 where "e = Occupied \<lparr>occ_height = h, occ_handle = (n, i, p), occ_map = m1\<rparr>"
      "map_inv m1" "entries m1 = entries m" "search_tree (height m1) (root m1) [] key = Found h (n, i, p)"
      "fst (kvs n ! i) = key" "i < node_len n" "btree_get m key = Some (snd (kvs n ! i))"
  | (vacant) x m1 where "e = Vacant \<lparr>vac_key = key, vac_handle = x, vac_map = m1\<rparr>" "map_inv m1" "entries m1 = entries m"
      "ensure_root_is_owned al m a = (Inr (), m1, b)" "search_tree (height m1) (root m1) [] key = GoDown x"
      "btree_get m key = None"
proof -
  obtain u m1 where o: "ensure_root_is_owned al m a = (Inr u, m1, b)"
    using e by (auto simp: map_entry_def split: prod.splits sum.splits search_result.splits)
  have m1: "map_inv m1" "entries m1 = entries m" using ensure_root_is_owned_ok [OF inv o] by auto
  have get: "btree_get m key = btree_get m1 key" using btree_get_entries [OF inv] btree_get_entries [OF m1(1)] m1(2) by simp
  show thesis
  proof (cases "search_tree (height m1) (root m1) [] key")
    case (Found h x)
    obtain n i p where x: "x = (n, i, p)" by (cases x)
    have "fst (kvs n ! i) = key" "i < node_len n" using search_found [OF m1(1) Found [unfolded x]] by metis+
    then show thesis using occupied [of h n i p m1] e o m1 Found x get by (simp add: map_entry_def btree_get_def)
  next
    case (GoDown x)
    then show thesis using vacant [of x m1] e o m1 get by (simp add: map_entry_def btree_get_def)
  qed
qed

text \<open>\<open>insert\<close> is \<open>entry\<close> followed by the insertion into the entry: replacing the value of an occupied one
  and returning the old value, or inserting into a vacant one.\<close>

lemma btree_insert_via_entry:
  "btree_insert al m key v a =
     (case map_entry al m key a of
        (Inl e, b) \<Rightarrow> (Inl e, m, b)
      | (Inr (Occupied e), b) \<Rightarrow> (case occupied_insert v e of (old, e) \<Rightarrow> (Inr (Some old), occ_map e, b))
      | (Inr (Vacant e), b) \<Rightarrow>
          (case vacant_entry_insert al v e b of
             (Inl err, m', c) \<Rightarrow> (Inl err, m', c)
           | (Inr _, m', c) \<Rightarrow> (Inr None, m', c)))"
  by (auto simp: btree_insert_def map_entry_def ensure_root_is_owned_def occupied_insert_def occupied_get_def
      occupied_get_mut_with_def vacant_entry_insert_def Let_def
      split: prod.splits sum.splits bool.splits search_result.splits)

lemma vacant_insert_get:
  assumes inv: "map_inv m" and e: "map_entry al m key a = (Inr (Vacant e), b)"
    and i: "vacant_entry_insert al v e b = (Inr w, m', c)"
  shows "w = v \<and> map_inv m' \<and> btree_get m' = (btree_get m)(key \<mapsto> v)"
proof -
  have "w = v" using i by (auto simp: vacant_entry_insert_def Let_def split: prod.splits sum.splits)
  moreover have "btree_insert al m key v a = (Inr None, m', c)" using e i by (simp add: btree_insert_via_entry)
  ultimately show ?thesis using bt.ins_law [OF inv, of al key v a None m' c] by simp
qed

lemma entry_upsert_ok:
  assumes inv: "map_inv m" and e: "map_entry al m key a = (Inr e, b)" and r: "or_insert al d (and_modify f e) b = (r, m', c)"
  shows "entry_key e = key \<and>
     (case btree_get m key of
        Some x \<Rightarrow> r = Inr (f x) \<and> c = b \<and> map_inv m' \<and> btree_get m' = (btree_get m)(key \<mapsto> f x)
      | None \<Rightarrow> \<forall>w. r = Inr w \<longrightarrow> w = d \<and> map_inv m' \<and> btree_get m' = (btree_get m)(key \<mapsto> d))"
  using inv e
proof (cases rule: map_entry_cases)
  case (occupied h n i p m1)
  have g1: "btree_get m1 = btree_get m"
    using btree_get_entries [OF inv] btree_get_entries [OF occupied(2)] occupied(3) by (intro ext) simp
  have "r = Inr (f (snd (kvs n ! i)))" "c = b" "m' = btree_update m1 key f"
    using r occupied(1,4,6)
    by (auto simp: or_insert_def and_modify_def occupied_into_mut_def occupied_get_def occupied_get_mut_with_def btree_update_def Let_def)
  moreover have "entry_key e = key" using occupied(1,5) by (simp add: entry_key_def occupied_key_def)
  ultimately show ?thesis using bt.update_law [OF occupied(2), of key f] g1 occupied(7) by auto
next
  case (vacant x m1)
  have "entry_key e = key" using vacant(1) by (simp add: entry_key_def)
  moreover have "w = d \<and> map_inv m' \<and> btree_get m' = (btree_get m)(key \<mapsto> d)" if "r = Inr w" for w
    using vacant_insert_get [OF inv e [unfolded vacant(1)], of d w m' c] r vacant(1) that
    by (simp add: or_insert_def and_modify_def)
  ultimately show ?thesis using vacant(6) by simp
qed

text \<open>The update pattern of the entry interface, \<open>entry(key)\<close>, \<open>and_modify(f)\<close>, \<open>or_insert(d)\<close>: a present value
  \<open>x\<close> becomes \<open>f x\<close> and nothing is allocated; an absent one becomes \<open>d\<close>; the returned reference has the new value, every
  other key keeps its value and the tree stays well-formed.\<close>

lemma btree_entry_upsert:
  assumes inv: "map_inv m" and e: "map_entry al m key a = (Inr e, b)" and r: "or_insert al d (and_modify f e) b = (r, m', c)"
  shows "entry_key e = key \<and>
     (case btree_get m key of
        Some x \<Rightarrow> r = Inr (f x) \<and> c = b \<and> map_inv m' \<and> btree_get m' = (btree_get m)(key \<mapsto> f x)
      | None \<Rightarrow> \<forall>w. r = Inr w \<longrightarrow> w = d \<and> map_inv m' \<and> btree_get m' = (btree_get m)(key \<mapsto> d))"
  using assms by (rule entry_upsert_ok)

lemma btree_entry_upsert_witness:
  "\<exists>e m'. map_entry always full_leaf 3 () = (Inr e, ()) \<and>
     or_insert always 0 (and_modify (\<lambda>v. v + 1) e) () = (Inr 31, m', ()) \<and> btree_get m' 3 = Some 31 \<and> btree_get m' 4 = Some 40"
proof -
  have g: "btree_get full_leaf 3 = Some 30" "btree_get full_leaf 4 = Some 40"
    by (simp_all add: btree_get_entries [OF full_leaf_inv] full_leaf_entries upto.simps)
  have "\<exists>e. map_entry always full_leaf 3 () = (Inr e, ())"
    by (simp add: map_entry_def ensure_root_is_owned_def full_leaf_def split: search_result.splits)
  then obtain e where e: "map_entry always full_leaf 3 () = (Inr e, ())" by blast
  obtain r m' c where r: "or_insert always 0 (and_modify (\<lambda>v. v + 1) e) () = (r, m', c)"
    by (cases "or_insert always 0 (and_modify (\<lambda>v. v + 1) e) ()")
  from btree_entry_upsert [OF full_leaf_inv e r] g show ?thesis using e r by auto
qed

text \<open>Removing through an occupied entry gives the entry back, with its key.\<close>

lemma remove_kv_old: "remove_kv h (n, i, p) = Some (old, r) \<Longrightarrow> old = kvs n ! i"
  by (auto simp: remove_kv_def leaf_remove_def slice_remove_def Let_def split: if_splits prod.splits option.splits)

lemma occupied_remove_ok:
  assumes inv: "map_inv m" and e: "map_entry al m key a = (Inr (Occupied e), b)"
  shows "\<exists>v m'. occupied_remove_entry e = Some ((key, v), m') \<and> btree_get m key = Some v \<and> map_inv m' \<and>
     btree_get m' = (btree_get m)(key := None)"
  using inv e
proof (cases rule: map_entry_cases)
  case (occupied h n i p m1)
  have g1: "btree_get m1 = btree_get m"
    using btree_get_entries [OF inv] btree_get_entries [OF occupied(2)] occupied(3) by (intro ext) simp
  obtain m' where m': "btree_remove m1 key = Some (btree_get m1 key, m')" "map_inv m'" "btree_get m' = (btree_get m1)(key := None)"
    using bt.remove_law [OF occupied(2)] by blast
  obtain old n' h' where rk: "remove_kv h (n, i, p) = Some (old, n', h')" "m' = m1\<lparr>root := n', height := h', map_length := map_length m1 - 1\<rparr>"
    using m'(1) occupied(4) by (auto simp: btree_remove_def split: option.splits)
  have "old = (key, snd (kvs n ! i))" using remove_kv_old [OF rk(1)] occupied(5) by (metis prod.collapse)
  then show ?thesis using occupied(1,7) rk m'(2,3) g1 by (simp add: occupied_remove_entry_def)
next
  case (vacant x m1)
  then show ?thesis by simp
qed

section \<open>Recover\<close>

lemma recover_get_ok:
  assumes "map_inv m"
  shows "recover_get m key = (if btree_get m key = None then None else Some key)"
proof (cases "search_tree (height m) (root m) [] key")
  case (Found h x)
  obtain n i p where x: "x = (n, i, p)" by (cases x)
  have "fst (kvs n ! i) = key" using search_found [OF assms Found [unfolded x]] by metis
  then show ?thesis using Found x by (simp add: recover_get_def btree_get_def)
qed (simp add: recover_get_def btree_get_def)

lemma recover_take_ok:
  assumes inv: "map_inv m"
  shows "\<exists>m'. recover_take m key = Some (if btree_get m key = None then None else Some key, m') \<and> map_inv m' \<and>
     btree_get m' = (btree_get m)(key := None)"
proof -
  obtain m' where m': "btree_remove m key = Some (btree_get m key, m')" "map_inv m'" "btree_get m' = (btree_get m)(key := None)"
    using bt.remove_law [OF inv] by blast
  have "recover_take m key = Some (if btree_get m key = None then None else Some key, m')"
  proof (cases "search_tree (height m) (root m) [] key")
    case (Found h x)
    obtain n i p where x: "x = (n, i, p)" by (cases x)
    have k: "fst (kvs n ! i) = key" using search_found [OF inv Found [unfolded x]] by metis
    obtain old n' h' where rk: "remove_kv h (n, i, p) = Some (old, n', h')" "m' = m\<lparr>root := n', height := h', map_length := map_length m - 1\<rparr>"
      using m'(1) Found x by (auto simp: btree_remove_def split: option.splits)
    have "old = (key, ())" using remove_kv_old [OF rk(1)] k by (metis prod.collapse unit.exhaust)
    then show ?thesis using Found x rk by (simp add: recover_take_def occupied_remove_entry_def btree_get_def)
  next
    case (GoDown x)
    then show ?thesis using m'(1) by (simp add: recover_take_def btree_remove_def btree_get_def)
  qed
  then show ?thesis using m'(2,3) by blast
qed

text \<open>On ordered keys \<open>replace\<close> is \<open>insert\<close> of the unit value that returns the key.\<close>

lemma recover_replace_insert:
  assumes inv: "map_inv m"
  shows "recover_replace al m key a =
     (case btree_insert al m key () a of
        (Inl e, m', b) \<Rightarrow> (Inl e, m', b)
      | (Inr old, m', b) \<Rightarrow> (Inr (map_option (\<lambda>_. key) old), m', b))"
proof -
  obtain r m1 b where o: "ensure_root_is_owned al m a = (r, m1, b)" by (cases "ensure_root_is_owned al m a")
  show ?thesis
  proof (cases r)
    case (Inl e)
    then show ?thesis using o by (simp add: recover_replace_def btree_insert_def)
  next
    case (Inr u)
    have m1: "map_inv m1" using ensure_root_is_owned_ok [OF inv o [unfolded Inr]] by blast
    show ?thesis
    proof (cases "search_tree (height m1) (root m1) [] key")
      case (Found h x)
      obtain n i p where x: "x = (n, i, p)" by (cases x)
      have "fst (kvs n ! i) = key" using search_found [OF m1 Found [unfolded x]] by metis
      then show ?thesis using o Inr Found x by (simp add: recover_replace_def btree_insert_def)
    next
      case (GoDown x)
      then show ?thesis using o Inr
        by (auto simp: recover_replace_def btree_insert_def vacant_entry_insert_def Let_def split: prod.splits sum.splits)
    qed
  qed
qed

section \<open>Comparison\<close>

definition iter_at :: "('k, 'v) btree_iter \<Rightarrow> ('k \<times> 'v) list \<Rightarrow> bool" where
  "iter_at it xs \<longleftrightarrow> (\<exists>n i p. front_edge it = (n, i, p) \<and> cursor 0 n p \<and> i \<le> node_len n \<and>
     drop i (kvs n) @ rights p = xs \<and> iter_length it = length xs)"

lemma iter_at_Nil: "iter_at it [] \<Longrightarrow> iter_next it = Some (None, it)"
  by (auto simp: iter_at_def iter_next_def)

lemma iter_at_Cons: "iter_at it (x # xs) \<Longrightarrow> \<exists>it'. iter_next it = Some (Some x, it') \<and> iter_at it' xs"
proof -
  assume "iter_at it (x # xs)"
  then obtain n i p where it: "front_edge it = (n, i, p)" "cursor 0 n p" "i \<le> node_len n" "drop i (kvs n) @ rights p = x # xs"
    "iter_length it = Suc (length xs)" by (auto simp: iter_at_def)
  from next_unchecked_ok [OF it(2-4)] obtain n' i' p' where
    "next_unchecked (n, i, p) = Some (x, n', i', p')" "cursor 0 n' p'" "i' \<le> node_len n'" "drop i' (kvs n') @ rights p' = xs" by blast
  then show ?thesis using it by (auto simp: iter_at_def iter_next_def)
qed

lemma iter_at_start:
  assumes "map_inv m"
  shows "iter_at (btree_iter_new m) (entries m)"
proof -
  have "cursor (height m) (root m) []" using assms by (simp add: map_inv_def cursor_root)
  from first_leaf_cursor [OF this] obtain leaf q where
    "first_leaf_edge (height m) (root m) [] = (leaf, 0, q)" "cursor 0 leaf q"
    "kvs leaf @ rights q = entries m" by (metis append_Nil2 entries_def rights.simps(1))
  then show ?thesis using assms by (auto simp: iter_at_def btree_iter_new_def map_inv_def)
qed

lemma zip_all_ok: "iter_at i xs \<Longrightarrow> iter_at j ys \<Longrightarrow> length xs = length ys \<Longrightarrow> zip_all i j = Some (xs = ys)"
proof (induction xs arbitrary: i j ys)
  case Nil
  then show ?case by (subst zip_all.simps) (simp add: iter_at_Nil)
next
  case (Cons x xs)
  then obtain y ys' where ys: "ys = y # ys'" by (cases ys) auto
  obtain i' j' where "iter_next i = Some (Some x, i')" "iter_at i' xs" "iter_next j = Some (Some y, j')" "iter_at j' ys'"
    using iter_at_Cons [OF Cons.prems(1)] iter_at_Cons Cons.prems(2) ys by blast
  then show ?case using Cons.IH [of i' j' ys'] Cons.prems(3) ys by (subst zip_all.simps) simp
qed

lemma sorted_map_of_eq:
  assumes "sorted_keys xs" "sorted_keys ys"
  shows "map_of xs = map_of ys \<longleftrightarrow> xs = ys"
proof
  assume eq: "map_of xs = map_of ys"
  have d: "distinct (map fst xs)" "distinct (map fst ys)" using assms sorted_distinct by auto
  have "set (map fst xs) = set (map fst ys)" using eq dom_map_of_conv_image_fst by (metis list.set_map)
  then have k: "map fst xs = map fst ys" using assms by (auto simp: sorted_keys_def intro: strict_sorted_equal)
  have "zs = map (\<lambda>k. (k, the (map_of zs k))) (map fst zs)" if "distinct (map fst zs)" for zs :: "('a \<times> 'b) list"
    using that by (auto intro!: map_idI [symmetric] simp: comp_def)
  from this [OF d(1)] this [OF d(2)] k eq show "xs = ys" by metis
qed simp

lemma iter_cmp_equal: "iter_at i xs \<Longrightarrow> iter_at j ys \<Longrightarrow> \<exists>c. iter_cmp i j = Some c \<and> (c = Equal \<longleftrightarrow> xs = ys)"
proof (induction xs arbitrary: i j ys)
  case Nil
  then show ?case
    using iter_at_Cons [of j] by (cases ys; subst iter_cmp.simps) (auto simp: iter_at_Nil dest!: iter_at_Cons)
next
  case (Cons x xs)
  obtain i' where i: "iter_next i = Some (Some x, i')" "iter_at i' xs" using iter_at_Cons [OF Cons.prems(1)] by blast
  show ?case
  proof (cases ys)
    case Nil
    then show ?thesis using i Cons.prems(2) by (subst iter_cmp.simps) (simp add: iter_at_Nil)
  next
    case (Cons y ys')
    then obtain j' where j: "iter_next j = Some (Some y, j')" "iter_at j' ys'" using iter_at_Cons Cons.prems(2) by blast
    have "pair_cmp x y = Equal \<longleftrightarrow> x = y" by (cases x; cases y) (auto simp: pair_cmp_def)
    then show ?thesis
      using i j Cons.IH [OF i(2) j(2)] Cons by (subst iter_cmp.simps) (auto split: ordering.splits)
  qed
qed

text \<open>Two well-formed maps compare equal exactly when they have the same values at the same keys, whatever their
  trees look like; and the ordering of maps agrees with this equality.\<close>

lemma btree_eq_extensional:
  fixes m other :: "('k :: linorder, 'v :: linorder) btree_map"
  assumes "map_inv m" "map_inv other"
  shows "btree_eq m other = Some (btree_get m = btree_get other) \<and>
     (\<exists>c. btree_cmp m other = Some c \<and> (c = Equal \<longleftrightarrow> btree_get m = btree_get other))"
proof -
  have s: "sorted_keys (entries m)" "sorted_keys (entries other)" and len: "map_length m = length (entries m)" "map_length other = length (entries other)"
    using assms by (simp_all add: map_inv_def)
  have g: "btree_get m = btree_get other \<longleftrightarrow> entries m = entries other"
    using sorted_map_of_eq [OF s] btree_get_entries [OF assms(1)] btree_get_entries [OF assms(2)] by (simp add: fun_eq_iff)
  have "btree_eq m other = Some (entries m = entries other)"
    using zip_all_ok [OF iter_at_start [OF assms(1)] iter_at_start [OF assms(2)]] len by (auto simp: btree_eq_def)
  then show ?thesis
    using iter_cmp_equal [OF iter_at_start [OF assms(1)] iter_at_start [OF assms(2)]] g by (simp add: btree_cmp_def)
qed

lemma btree_eq_extensional_witness:
  "\<exists>m'. btree_insert always full_leaf 12 120 () = (Inr None, m', ()) \<and> btree_eq full_leaf m' = Some False"
proof -
  have "\<forall>a. fst (always a)" by (simp add: always_def)
  then obtain old m' where i: "btree_insert always full_leaf 12 120 () = (Inr old, m', ())"
    using bt.ins_total [of always full_leaf 12 120 "()"] by (metis unit.exhaust)
  have g: "btree_get full_leaf 12 = None" by (simp add: btree_get_entries [OF full_leaf_inv] full_leaf_entries upto.simps)
  have m': "map_inv m'" "old = None" "btree_get m' 12 = Some 120" using bt.ins_law [OF full_leaf_inv i] g by auto
  then show ?thesis using btree_eq_extensional [OF full_leaf_inv m'(1)] i g by auto
qed

end
