(* ===== verification/BTree_Mut.thy ===== *)
theory BTree_Mut
  imports BTree_Bulk_Contract BTree_Back
begin

text \<open>
  The mutable iterators of the B-tree map: \<open>RangeMut\<close>, \<open>IterMut\<close> and \<open>ValuesMut\<close> of
  \<open>alloc_collections/src/btree/map.rs\<close>, in loops that write through every reference they get.

  The handles of an iterator are pointers into the tree.  Here they hold the nodes, so a step of one handle
  that writes a value returns the handle in the changed tree.  The other handle keeps its old nodes: the iterator
  compares only the places of the two handles, which no write changes.  A loop runs from the front, or from the
  back (\<open>rev\<close>).
\<close>

section \<open>Definitions\<close>

text \<open>A write of \<open>f\<close> of the old value through the reference to entry \<open>k\<close> of a node.\<close>

definition write_value :: "('v \<Rightarrow> 'v) \<Rightarrow> ('k, 'v) node \<Rightarrow> nat \<Rightarrow> ('k, 'v) node" where
  "write_value f n k = Node ((kvs n)[k := (fst (kvs n ! k), f (snd (kvs n ! k)))]) (edges n)"

text \<open>\<open>RangeMut::next_unchecked\<close> and the write of the loop body: the entry before the write and the new front.\<close>

fun next_mut_up :: "('v \<Rightarrow> 'v) \<Rightarrow> nat \<Rightarrow> ('k, 'v) node \<Rightarrow> ('k, 'v) path \<Rightarrow> (('k \<times> 'v) \<times> ('k, 'v) handle) option" where
  "next_mut_up f h n [] = None"
| "next_mut_up f h n ((ks, es, i) # p) =
     (let parent = Node ks (es[i := n]) in
      case right_kv (parent, i, p) of
        Some k \<Rightarrow> (case descend (write_value f parent k, k + 1, p) of (c, p') \<Rightarrow>
                     Some (ks ! k, first_leaf_edge h c p'))
      | None \<Rightarrow> next_mut_up f (Suc h) parent p)"

definition next_mut_unchecked :: "('v \<Rightarrow> 'v) \<Rightarrow> ('k, 'v) handle \<Rightarrow> (('k \<times> 'v) \<times> ('k, 'v) handle) option" where
  "next_mut_unchecked f = (\<lambda>(n, i, p).
     case right_kv (n, i, p) of
       Some k \<Rightarrow> Some (kvs n ! k, (write_value f n k, k + 1, p))
     | None \<Rightarrow> next_mut_up f 0 n p)"

text \<open>\<open>RangeMut::next_back_unchecked\<close>, with the write.\<close>

fun next_mut_back_up :: "('v \<Rightarrow> 'v) \<Rightarrow> nat \<Rightarrow> ('k, 'v) node \<Rightarrow> ('k, 'v) path \<Rightarrow> (('k \<times> 'v) \<times> ('k, 'v) handle) option" where
  "next_mut_back_up f h n [] = None"
| "next_mut_back_up f h n ((ks, es, i) # p) =
     (let parent = Node ks (es[i := n]) in
      case left_kv (parent, i, p) of
        Some k \<Rightarrow> (case descend (write_value f parent k, k, p) of (c, p') \<Rightarrow>
                     Some (ks ! k, last_leaf_edge h c p'))
      | None \<Rightarrow> next_mut_back_up f (Suc h) parent p)"

definition next_mut_back_unchecked :: "('v \<Rightarrow> 'v) \<Rightarrow> ('k, 'v) handle \<Rightarrow> (('k \<times> 'v) \<times> ('k, 'v) handle) option" where
  "next_mut_back_unchecked f = (\<lambda>(n, i, p).
     case left_kv (n, i, p) of
       Some k \<Rightarrow> Some (kvs n ! k, (write_value f n k, k, p))
     | None \<Rightarrow> next_mut_back_up f 0 n p)"

definition range_mut_next :: "('v \<Rightarrow> 'v) \<Rightarrow> ('k, 'v) btree_range \<Rightarrow> (('k \<times> 'v) option \<times> ('k, 'v) btree_range) option" where
  "range_mut_next f r =
     (if handle_eq (range_front r) (range_back r) then Some (None, r)
      else map_option (\<lambda>(kv, x). (Some kv, r\<lparr>range_front := x\<rparr>)) (next_mut_unchecked f (range_front r)))"

definition range_mut_next_back :: "('v \<Rightarrow> 'v) \<Rightarrow> ('k, 'v) btree_range \<Rightarrow> (('k \<times> 'v) option \<times> ('k, 'v) btree_range) option" where
  "range_mut_next_back f r =
     (if handle_eq (range_front r) (range_back r) then Some (None, r)
      else map_option (\<lambda>(kv, x). (Some kv, r\<lparr>range_back := x\<rparr>)) (next_mut_back_unchecked f (range_back r)))"

fun range_mut_step :: "side \<Rightarrow> ('v \<Rightarrow> 'v) \<Rightarrow> ('k, 'v) btree_range \<Rightarrow> (('k \<times> 'v) option \<times> ('k, 'v) btree_range) option" where
  "range_mut_step Front f r = range_mut_next f r"
| "range_mut_step Back f r = range_mut_next_back f r"

partial_function (option) range_mut_loop :: "side \<Rightarrow> ('v \<Rightarrow> 'v) \<Rightarrow> ('k, 'v) btree_range \<Rightarrow> ('k, 'v) btree_range option" where
  "range_mut_loop s f r =
     Option.bind (range_mut_step s f r) (\<lambda>(x, r).
       case x of None \<Rightarrow> Some r | Some _ \<Rightarrow> range_mut_loop s f r)"

text \<open>The tree a handle points into.\<close>

definition tree_at :: "('k, 'v) handle \<Rightarrow> ('k, 'v) node" where
  "tree_at = (\<lambda>(n, i, p). plug p n)"

fun moved :: "side \<Rightarrow> ('k, 'v) btree_range \<Rightarrow> ('k, 'v) handle" where
  "moved Front r = range_front r"
| "moved Back r = range_back r"

text \<open>\<open>for (_, v) in m.range_mut(lo..hi) { *v = f(*v) }\<close>, or over \<open>m.range_mut(lo..hi).rev()\<close>.\<close>

definition btree_range_mut :: "side \<Rightarrow> ('v \<Rightarrow> 'v) \<Rightarrow> ('k :: linorder, 'v) btree_map \<Rightarrow> 'k bound \<Rightarrow> 'k bound
    \<Rightarrow> ('k, 'v) btree_map option" where
  "btree_range_mut s f m lo hi = do {
     (front, back) \<leftarrow> range_search (height m) (root m) lo hi;
     r \<leftarrow> range_mut_loop s f \<lparr>range_front = front, range_back = back\<rparr>;
     Some (m\<lparr>root := tree_at (moved s r)\<rparr>) }"

definition iter_mut_next :: "('v \<Rightarrow> 'v) \<Rightarrow> ('k, 'v) btree_iter \<Rightarrow> (('k \<times> 'v) option \<times> ('k, 'v) btree_iter) option" where
  "iter_mut_next f it =
     (if iter_length it = 0 then Some (None, it)
      else map_option (\<lambda>(kv, x). (Some kv, it\<lparr>front_edge := x, iter_length := iter_length it - 1\<rparr>))
             (next_mut_unchecked f (front_edge it)))"

definition iter_mut_next_back :: "('v \<Rightarrow> 'v) \<Rightarrow> ('k, 'v) btree_iter \<Rightarrow> (('k \<times> 'v) option \<times> ('k, 'v) btree_iter) option" where
  "iter_mut_next_back f it =
     (if iter_length it = 0 then Some (None, it)
      else map_option (\<lambda>(kv, x). (Some kv, it\<lparr>back_edge := x, iter_length := iter_length it - 1\<rparr>))
             (next_mut_back_unchecked f (back_edge it)))"

fun iter_mut_step :: "side \<Rightarrow> ('v \<Rightarrow> 'v) \<Rightarrow> ('k, 'v) btree_iter \<Rightarrow> (('k \<times> 'v) option \<times> ('k, 'v) btree_iter) option" where
  "iter_mut_step Front f it = iter_mut_next f it"
| "iter_mut_step Back f it = iter_mut_next_back f it"

function iter_mut_loop :: "side \<Rightarrow> ('v \<Rightarrow> 'v) \<Rightarrow> ('k, 'v) btree_iter \<Rightarrow> ('k, 'v) btree_iter option" where
  "iter_mut_loop s f it =
     (case iter_mut_step s f it of
        None \<Rightarrow> None
      | Some (None, it) \<Rightarrow> Some it
      | Some (Some _, it) \<Rightarrow> iter_mut_loop s f it)"
  by pat_completeness auto
termination
proof (relation "measure (\<lambda>(s, f, it). iter_length it)")
  fix s f and it it' :: "('k, 'v) btree_iter" and x y z assume "iter_mut_step s f it = Some x" "(y, it') = x" "y = Some z"
  then show "((s, f, it'), s, f, it) \<in> measure (\<lambda>(s, f, it). iter_length it)"
    by (cases s) (auto simp: iter_mut_next_def iter_mut_next_back_def split: if_splits)
qed simp

declare iter_mut_loop.simps [simp del]

text \<open>\<open>for v in m.values_mut() { *v = f(*v) }\<close>, forwards or reversed.\<close>

definition btree_values_mut :: "side \<Rightarrow> ('v \<Rightarrow> 'v) \<Rightarrow> ('k, 'v) btree_map \<Rightarrow> ('k, 'v) btree_map option" where
  "btree_values_mut s f m = do {
     it \<leftarrow> iter_mut_loop s f (btree_iter_new m);
     Some (m\<lparr>root := tree_at (case s of Front \<Rightarrow> front_edge it | Back \<Rightarrow> back_edge it)\<rparr>) }"

section \<open>Writes do not move places\<close>

abbreviation skel :: "('k, 'v) node \<Rightarrow> ('k, unit) node" where
  "skel \<equiv> map_node id (\<lambda>_. ())"

abbreviation keys_of :: "('k \<times> 'v) list \<Rightarrow> ('k \<times> unit) list" where
  "keys_of \<equiv> map (map_prod id (\<lambda>_. ()))"

definition skel_path :: "('k, 'v) path \<Rightarrow> ('k, unit) path" where
  "skel_path = map (\<lambda>(ks, es, i). (keys_of ks, map skel es, i))"

lemma skel_path_simps [simp]:
  "skel_path [] = []" "skel_path ((ks, es, i) # p) = (keys_of ks, map skel es, i) # skel_path p"
  "length (skel_path p) = length p" "skel_path p = [] \<longleftrightarrow> p = []"
  by (simp_all add: skel_path_def)

lemma skel_plug: "skel (plug p n) = plug (skel_path p) (skel n)"
  by (induction p arbitrary: n rule: lefts.induct) (auto simp: map_update)

lemma before_map: "before (map (map g) ls) (map g ks) i = map g (before ls ks i)"
  by (simp add: before_def take_map zip_map_map map_concat comp_def case_prod_beta)

lemma after_map: "after (map (map g) ls) (map g ks) i = map g (after ls ks i)"
  by (simp add: after_def drop_map zip_map_map map_concat comp_def case_prod_beta)

lemma to_list_skel: "map to_list (map skel es) = map keys_of (map to_list es)"
  by (simp add: to_list_map_node)

lemma skel_lefts: "lefts (skel_path p) = keys_of (lefts p)" "rights (skel_path p) = keys_of (rights p)"
  by (induction p rule: lefts.induct) (simp_all add: to_list_skel before_map after_map del: map_map)

lemma skel_path_shape: "path_shape h p \<Longrightarrow> path_shape h (skel_path p)"
  by (induction p arbitrary: h rule: lefts.induct) (auto simp: shape_map_node)

lemma skel_cursor: "cursor h n p \<Longrightarrow> cursor h (skel n) (skel_path p)"
  using skel_path_shape shape_map_node by (auto simp: cursor_def)

lemma skel_edge_cut:
  "edge_cut rt hh xs ys (n, i, p) \<Longrightarrow> edge_cut (skel rt) hh (keys_of xs) (keys_of ys) (skel n, i, skel_path p)"
  by (auto simp: edge_cut_def skel_cursor skel_plug skel_lefts take_map drop_map)

lemma path_indices_skel [simp]: "path_indices (skel_path p) = path_indices p"
  by (simp add: path_indices_def skel_path_def case_prod_beta)

lemma edge_cut_same_place:
  assumes "edge_cut rt hh xs ys e" "edge_cut rt' hh xs' ys' e'" "skel rt = skel rt'"
  shows "handle_eq e e' \<longleftrightarrow> length xs = length xs'"
proof -
  obtain n i p n' i' p' where e: "e = (n, i, p)" "e' = (n', i', p')" by (cases e; cases e')
  have "handle_eq (skel n, i, skel_path p) (skel n', i', skel_path p') \<longleftrightarrow> length (keys_of xs) = length (keys_of xs')"
    using edge_cut_eq [OF skel_edge_cut [OF assms(1) [unfolded e]] skel_edge_cut [OF assms(2) [unfolded e], folded assms(3)]] .
  then show ?thesis by (simp add: handle_eq_def e)
qed

section \<open>A step of the front\<close>

definition wr :: "('v \<Rightarrow> 'v) \<Rightarrow> 'k \<times> 'v \<Rightarrow> 'k \<times> 'v" where
  "wr f y = (fst y, f (snd y))"

lemma skel_wr [simp]: "map_prod id (\<lambda>_. ()) (wr f y) = map_prod id (\<lambda>_. ()) y"
  by (cases y) (simp add: wr_def)

lemma write_value_wr: "write_value f n k = Node ((kvs n)[k := wr f (kvs n ! k)]) (edges n)"
  by (simp add: write_value_def wr_def)

lemma skel_write: "skel (write_value f n k) = skel n"
proof -
  have "(keys_of (kvs n))[k := map_prod id (\<lambda>_. ()) (kvs n ! k)] = keys_of (kvs n)"
    by (cases "k < node_len n") (simp_all add: list_update_same_conv list_update_beyond)
  then show ?thesis by (cases n) (simp add: write_value_wr map_update)
qed

text \<open>The path in which the next entry above is written.\<close>

fun bump :: "('v \<Rightarrow> 'v) \<Rightarrow> ('k, 'v) path \<Rightarrow> ('k, 'v) path" where
  "bump f [] = []"
| "bump f ((ks, es, i) # p) =
     (if i < length ks then (ks[i := wr f (ks ! i)], es, i) # p else (ks, es, i) # bump f p)"

lemma bump_simps [simp]: "length (bump f p) = length p" "bump f p = [] \<longleftrightarrow> p = []"
  by (induction p rule: lefts.induct) auto

lemma bump_shape: "path_shape h p \<Longrightarrow> path_shape h (bump f p)"
  by (induction p arbitrary: h rule: lefts.induct) auto

lemma bump_skel: "skel_path (bump f p) = skel_path p"
  by (induction p rule: lefts.induct) (auto simp: map_update list_update_same_conv)

lemma bump_lefts: "path_shape h p \<Longrightarrow> lefts (bump f p) = lefts p"
proof (induction p arbitrary: h rule: lefts.induct)
  case (2 ks es i p)
  have "before (map to_list es) (ks[i := x]) i = before (map to_list es) ks i" for x by (rule before_cong) simp_all
  then show ?case using 2 by (cases "i < length ks") auto
qed simp

lemma bump_rights:
  "path_shape h p \<Longrightarrow> rights p = y # ys \<Longrightarrow> rights (bump f p) = wr f y # ys"
proof (induction p arbitrary: h rule: lefts.induct)
  case (2 ks es i p)
  have len: "length (map to_list es) = Suc (length ks)" "i \<le> length ks" "path_shape (Suc h) p" using 2(2) by simp_all
  show ?case
  proof (cases "i < length ks")
    case True
    have "after (map to_list es) (ks[i := wr f (ks ! i)]) i = wr f (ks ! i) # to_list (es ! Suc i) @ after (map to_list es) (ks[i := wr f (ks ! i)]) (Suc i)"
      using after_split [of "map to_list es" "ks[i := wr f (ks ! i)]" i] len True by simp
    moreover have "after (map to_list es) (ks[i := wr f (ks ! i)]) (Suc i) = after (map to_list es) ks (Suc i)"
      by (rule after_cong) simp_all
    ultimately show ?thesis using 2(3) True after_split [OF len(1) True] len by auto
  next
    case False
    then show ?thesis using 2 len by (auto simp: after_def)
  qed
qed simp

lemma next_mut_up_bump:
  "next_up h n (bump f p) = Some (x, e) \<Longrightarrow> next_up h n p = Some (y, e0) \<Longrightarrow> next_mut_up f h n p = Some (y, e)"
proof (induction h n p rule: next_up.induct)
  case (2 h n ks es i p)
  then show ?case
    by (cases "i < length ks") (auto simp: right_kv_def descend_def write_value_wr Let_def split: prod.splits)
qed simp

lemma edge_cut_next_mut:
  assumes c: "edge_cut rt hh xs (y # ys) e"
  shows "\<exists>e' rt'. next_mut_unchecked f e = Some (y, e') \<and> edge_cut rt' hh (xs @ [wr f y]) ys e' \<and> skel rt' = skel rt"
proof -
  obtain n i p where e: "e = (n, i, p)" by (cases e)
  have c': "cursor 0 n p" "plug p n = rt" "length p = hh" "i \<le> node_len n"
    "lefts p @ take i (kvs n) = xs" "drop i (kvs n) @ rights p = y # ys"
    using c by (simp_all add: edge_cut_def e)
  have ps: "path_shape 0 p" "shape 0 n" "if p = [] then True else 4 \<le> node_len n" using c'(1) by (auto simp: cursor_def)
  show ?thesis
  proof (cases "i < node_len n")
    case True
    let ?n = "write_value f n i"
    have y: "kvs n ! i = y" "drop (Suc i) (kvs n) @ rights p = ys"
      using c'(6) True by (simp_all add: Cons_nth_drop_Suc [symmetric])
    have "edge_cut (plug p ?n) hh (xs @ [wr f y]) ys (?n, Suc i, p)"
      using c' True y by (auto simp: edge_cut_def cursor_def write_value_def wr_def take_Suc_conv_app_nth)
    moreover have "skel (plug p ?n) = skel rt"
      using c'(2) by (auto simp: skel_plug skel_write)
    moreover have "next_mut_unchecked f e = Some (y, ?n, Suc i, p)" using True y(1) by (simp add: next_mut_unchecked_def right_kv_def e)
    ultimately show ?thesis by blast
  next
    case False
    have r: "rights p = y # ys" using c'(6) False by simp
    let ?p = "bump f p"
    have "edge_cut (plug ?p n) hh xs (wr f y # ys) (n, i, ?p)"
      using c' False bump_lefts [OF ps(1)] bump_rights [OF ps(1) r] bump_shape [OF ps(1)]
      by (auto simp: edge_cut_def cursor_def)
    from edge_cut_next [OF this] obtain e' where
      e': "next_unchecked (n, i, ?p) = Some (wr f y, e')" "edge_cut (plug ?p n) hh (xs @ [wr f y]) ys e'" by blast
    have "next_up 0 n ?p = Some (wr f y, e')" using e'(1) False by (simp add: next_unchecked_def right_kv_def)
    moreover obtain e0 where "next_up 0 n p = Some (y, e0)"
      using edge_cut_next [OF c] False e by (auto simp: next_unchecked_def right_kv_def)
    ultimately have "next_mut_up f 0 n p = Some (y, e')" by (rule next_mut_up_bump)
    moreover have "skel (plug ?p n) = skel rt" using c'(2) by (auto simp: skel_plug bump_skel)
    ultimately show ?thesis using e'(2) False e by (auto simp: next_mut_unchecked_def right_kv_def)
  qed
qed

section \<open>A step of the back\<close>

text \<open>The path in which the last entry before it is written.\<close>

fun bump_back :: "('v \<Rightarrow> 'v) \<Rightarrow> ('k, 'v) path \<Rightarrow> ('k, 'v) path" where
  "bump_back f [] = []"
| "bump_back f ((ks, es, i) # p) =
     (if 0 < i then (ks[i - 1 := wr f (ks ! (i - 1))], es, i) # p else (ks, es, i) # bump_back f p)"

lemma bump_back_simps [simp]: "length (bump_back f p) = length p" "bump_back f p = [] \<longleftrightarrow> p = []"
  by (induction p rule: lefts.induct) auto

lemma bump_back_shape: "path_shape h p \<Longrightarrow> path_shape h (bump_back f p)"
  by (induction p arbitrary: h rule: lefts.induct) auto

lemma bump_back_skel: "path_shape h p \<Longrightarrow> skel_path (bump_back f p) = skel_path p"
  by (induction p arbitrary: h rule: lefts.induct) (auto simp: map_update list_update_same_conv)

lemma bump_back_rights: "path_shape h p \<Longrightarrow> rights (bump_back f p) = rights p"
proof (induction p arbitrary: h rule: lefts.induct)
  case (2 ks es i p)
  have "after (map to_list es) (ks[i - 1 := x]) i = after (map to_list es) ks i" if "0 < i" for x
    by (rule after_cong) (simp_all add: that)
  then show ?case using 2 by (cases "0 < i") auto
qed simp

lemma bump_back_lefts:
  "path_shape h p \<Longrightarrow> lefts p = xs @ [x] \<Longrightarrow> lefts (bump_back f p) = xs @ [wr f x]"
proof (induction p arbitrary: h rule: lefts.induct)
  case (2 ks es i p)
  have len: "length (map to_list es) = Suc (length ks)" "i \<le> length ks" "path_shape (Suc h) p" using 2(2) by simp_all
  show ?case
  proof (cases i)
    case (Suc j)
    have b: "before (map to_list es) ks i = before (map to_list es) ks j @ to_list (es ! j) @ [ks ! j]"
      using before_split [of "map to_list es" ks j] len Suc by simp
    have "before (map to_list es) (ks[j := wr f (ks ! j)]) i =
        before (map to_list es) (ks[j := wr f (ks ! j)]) j @ to_list (es ! j) @ [wr f (ks ! j)]"
      using before_split [of "map to_list es" "ks[j := wr f (ks ! j)]" j] len Suc by simp
    moreover have "before (map to_list es) (ks[j := wr f (ks ! j)]) j = before (map to_list es) ks j"
      by (rule before_cong) simp_all
    ultimately show ?thesis using 2(3) Suc b by auto
  next
    case 0
    then show ?thesis using 2 len by (auto simp: before_def)
  qed
qed simp

lemma next_mut_back_up_bump:
  "next_back_up h n (bump_back f p) = Some (x, e) \<Longrightarrow> next_back_up h n p = Some (y, e0) \<Longrightarrow>
   next_mut_back_up f h n p = Some (y, e)"
proof (induction h n p rule: next_back_up.induct)
  case (2 h n ks es i p)
  then show ?case
    by (cases "0 < i") (auto simp: left_kv_def descend_def write_value_wr Let_def split: prod.splits)
qed simp

lemma edge_cut_prev_mut:
  assumes c: "edge_cut rt hh (xs @ [x]) ys e"
  shows "\<exists>e' rt'. next_mut_back_unchecked f e = Some (x, e') \<and> edge_cut rt' hh xs (wr f x # ys) e' \<and> skel rt' = skel rt"
proof -
  obtain n i p where e: "e = (n, i, p)" by (cases e)
  have c': "cursor 0 n p" "plug p n = rt" "length p = hh" "i \<le> node_len n"
    "lefts p @ take i (kvs n) = xs @ [x]" "drop i (kvs n) @ rights p = ys"
    using c by (simp_all add: edge_cut_def e)
  have ps: "path_shape 0 p" using c'(1) by (simp add: cursor_def)
  show ?thesis
  proof (cases i)
    case (Suc j)
    let ?n = "write_value f n j"
    have x: "kvs n ! j = x" "lefts p @ take j (kvs n) = xs"
      using c'(4,5) Suc by (simp_all add: take_Suc_conv_app_nth)
    have "drop j (kvs ?n) = wr f x # drop (Suc j) (kvs n)"
      using c'(4) Suc x(1) by (simp add: write_value_wr Cons_nth_drop_Suc [symmetric])
    then have "edge_cut (plug p ?n) hh xs (wr f x # ys) (?n, j, p)"
      using c' Suc x(2) by (auto simp: edge_cut_def cursor_def write_value_wr)
    moreover have "skel (plug p ?n) = skel rt" using c'(2) by (auto simp: skel_plug skel_write)
    moreover have "next_mut_back_unchecked f e = Some (x, ?n, j, p)"
      using Suc x(1) by (simp add: next_mut_back_unchecked_def left_kv_def e)
    ultimately show ?thesis by blast
  next
    case 0
    have l: "lefts p = xs @ [x]" using c'(5) 0 by simp
    let ?p = "bump_back f p"
    have "edge_cut (plug ?p n) hh (xs @ [wr f x]) ys (n, i, ?p)"
      using c' 0 bump_back_rights [OF ps] bump_back_lefts [OF ps l] bump_back_shape [OF ps]
      by (auto simp: edge_cut_def cursor_def)
    from edge_cut_prev [OF this] obtain e' where
      e': "next_back_unchecked (n, i, ?p) = Some (wr f x, e')" "edge_cut (plug ?p n) hh xs (wr f x # ys) e'" by blast
    have "next_back_up 0 n ?p = Some (wr f x, e')" using e'(1) 0 by (simp add: next_back_unchecked_def left_kv_def)
    moreover obtain e0 where "next_back_up 0 n p = Some (x, e0)"
      using edge_cut_prev [OF c] 0 e by (auto simp: next_back_unchecked_def left_kv_def)
    ultimately have "next_mut_back_up f 0 n p = Some (x, e')" by (rule next_mut_back_up_bump)
    moreover have "skel (plug ?p n) = skel rt" using c'(2) bump_back_skel [OF ps] by (auto simp: skel_plug)
    ultimately show ?thesis using e'(2) 0 e by (auto simp: next_mut_back_unchecked_def left_kv_def)
  qed
qed

section \<open>Loops\<close>

lemma range_mut_front_loop:
  assumes "edge_cut rt hh xs (ys @ zs) (range_front r)" "edge_cut rt0 hh bs cs (range_back r)" "length bs = length xs + length ys"
    "skel rt = skel rt0"
  shows "\<exists>r' rt'. range_mut_loop Front f r = Some r' \<and> edge_cut rt' hh (xs @ map (wr f) ys) zs (range_front r')"
  using assms
proof (induction ys arbitrary: xs r rt)
  case Nil
  have "range_mut_next f r = Some (None, r)"
    using edge_cut_same_place [OF Nil(1,2,4)] Nil(3) by (simp add: range_mut_next_def)
  then show ?case using Nil(1) by (subst range_mut_loop.simps) auto
next
  case (Cons y ys)
  obtain e rt' where e: "next_mut_unchecked f (range_front r) = Some (y, e)" "edge_cut rt' hh (xs @ [wr f y]) (ys @ zs) e"
    "skel rt' = skel rt"
    using edge_cut_next_mut [of rt hh xs y "ys @ zs" "range_front r" f] Cons.prems(1) by auto
  have "\<not> handle_eq (range_front r) (range_back r)"
    using edge_cut_same_place [OF Cons.prems(1,2,4)] Cons.prems(3) by simp
  then have n: "range_mut_next f r = Some (Some y, r\<lparr>range_front := e\<rparr>)" using e(1) by (simp add: range_mut_next_def)
  have "\<exists>r' rt''. range_mut_loop Front f (r\<lparr>range_front := e\<rparr>) = Some r' \<and> edge_cut rt'' hh ((xs @ [wr f y]) @ map (wr f) ys) zs (range_front r')"
  proof (rule Cons.IH [of rt'])
    show "skel rt' = skel rt0" using e(3) Cons.prems(4) by (rule trans)
  qed (use e(2) Cons.prems(2,3) in simp_all)
  then show ?case using n by (subst range_mut_loop.simps) auto
qed

lemma range_mut_back_loop:
  assumes "edge_cut rt0 hh bs cs (range_front r)" "edge_cut rt hh (xs @ ys) zs (range_back r)" "length bs = length xs"
    "skel rt0 = skel rt"
  shows "\<exists>r' rt'. range_mut_loop Back f r = Some r' \<and> edge_cut rt' hh xs (map (wr f) ys @ zs) (range_back r')"
  using assms
proof (induction ys arbitrary: zs r rt rule: rev_induct)
  case Nil
  have "range_mut_next_back f r = Some (None, r)"
    using edge_cut_same_place [OF Nil(1,2,4)] Nil(3) by (simp add: range_mut_next_back_def)
  then show ?case using Nil(2) by (subst range_mut_loop.simps) auto
next
  case (snoc y ys)
  obtain e rt' where e: "next_mut_back_unchecked f (range_back r) = Some (y, e)" "edge_cut rt' hh (xs @ ys) (wr f y # zs) e"
    "skel rt' = skel rt"
    using edge_cut_prev_mut [of rt hh "xs @ ys" y zs "range_back r" f] snoc.prems(2) by auto
  have "\<not> handle_eq (range_front r) (range_back r)"
    using edge_cut_same_place [OF snoc.prems(1,2,4)] snoc.prems(3) by simp
  then have n: "range_mut_next_back f r = Some (Some y, r\<lparr>range_back := e\<rparr>)" using e(1) by (simp add: range_mut_next_back_def)
  have "\<exists>r' rt''. range_mut_loop Back f (r\<lparr>range_back := e\<rparr>) = Some r' \<and> edge_cut rt'' hh xs (map (wr f) ys @ wr f y # zs) (range_back r')"
  proof (rule snoc.IH [of _ rt'])
    show "skel rt0 = skel rt'" by (rule trans [OF snoc.prems(4) e(3) [symmetric]])
  qed (use e(2) snoc.prems(1,3) in simp_all)
  then show ?case using n by (subst range_mut_loop.simps) auto
qed

lemma edge_cut_map_inv:
  assumes inv: "map_inv m" and c: "edge_cut rt (height m) xs ys e" and k: "map fst (xs @ ys) = map fst (entries m)"
  shows "map_inv (m\<lparr>root := rt\<rparr>) \<and> entries (m\<lparr>root := rt\<rparr>) = xs @ ys"
proof -
  obtain n i p where e: "e = (n, i, p)" by (cases e)
  have rt: "to_list rt = xs @ ys" by (rule edge_cut_entries [OF c])
  have "cursor 0 n p" "plug p n = rt" "length p = height m" using c by (simp_all add: edge_cut_def e)
  then have r: "root_ok (height m) rt" using cursor_plug [of 0 n p] by simp
  have "rt = Node [] []" if "shared_root m"
  proof -
    have "height m = 0" "entries m = []" using inv that by (auto simp: map_inv_def entries_def)
    then show ?thesis using r rt k shape_leaf [of rt] by (cases rt) (auto simp: root_ok_def)
  qed
  moreover have "length (xs @ ys) = length (entries m)" using arg_cong [OF k, of length] by simp
  moreover have "sorted_keys (xs @ ys)" using inv k unfolding map_inv_def sorted_keys_def by metis
  ultimately show ?thesis using inv r rt by (simp add: map_inv_def entries_def)
qed

lemma map_of_wr: "map_of (map (wr f) xs) k = map_option f (map_of xs k)"
  by (induction xs) (auto simp: wr_def)

text \<open>The map after writes to the entries of a range.\<close>

lemma written_range:
  assumes inv: "map_inv m" and ok: "\<not> bad_range lo hi" and c: "edge_cut rt (height m) us vs e"
    and uv: "us @ vs = xs @ map (wr f) ys @ zs" and all: "entries m = xs @ ys @ zs"
    and xs: "xs = filter (\<lambda>x. below_start lo (fst x)) (entries m)"
    and ys: "ys = filter (\<lambda>x. in_range lo hi (fst x)) (entries m)"
    and zs: "zs = filter (\<lambda>x. \<not> upto_end hi (fst x)) (entries m)"
  shows "map_inv (m\<lparr>root := rt\<rparr>)"
    "btree_get (m\<lparr>root := rt\<rparr>) = (\<lambda>k. if in_range lo hi k then map_option f (btree_get m k) else btree_get m k)"
proof -
  let ?m = "m\<lparr>root := rt\<rparr>"
  have "map fst (us @ vs) = map fst (xs @ ys @ zs)" unfolding uv by (simp add: wr_def comp_def)
  then have m': "map_inv ?m" "entries ?m = us @ vs"
    using edge_cut_map_inv [OF inv c] all by simp_all
  have pq: "below_start lo k \<Longrightarrow> upto_end hi k" for k by (rule below_upto [OF ok])
  have "btree_get ?m k = (if in_range lo hi k then map_option f (btree_get m k) else btree_get m k)" for k
  proof -
    have o: "map_of xs k = (if below_start lo k then map_of (entries m) k else None)"
      "map_of ys k = (if in_range lo hi k then map_of (entries m) k else None)"
      "map_of zs k = (if upto_end hi k then None else map_of (entries m) k)"
      using map_of_filter_key [of "below_start lo" "entries m" k] map_of_filter_key [of "in_range lo hi" "entries m" k]
        map_of_filter_key [of "\<lambda>k. \<not> upto_end hi k" "entries m" k] unfolding xs ys zs by auto
    show ?thesis
      unfolding btree_get_entries [OF m'(1)] btree_get_entries [OF inv] m'(2) uv map_of_append map_add_def map_of_wr o
      using pq [of k] by (auto simp: in_range_def split: option.splits)
  qed
  then show "map_inv ?m" "btree_get ?m = (\<lambda>k. if in_range lo hi k then map_option f (btree_get m k) else btree_get m k)"
    using m'(1) by blast+
qed

lemma range_mut_ok:
  assumes inv: "map_inv m"
  shows "(btree_range_mut s f m lo hi = None \<longleftrightarrow> bad_range lo hi) \<and>
     (\<forall>m'. btree_range_mut s f m lo hi = Some m' \<longrightarrow> map_inv m' \<and>
        btree_get m' = (\<lambda>k. if in_range lo hi k then map_option f (btree_get m k) else btree_get m k))"
proof (cases "bad_range lo hi")
  case True
  then show ?thesis by (simp add: btree_range_mut_def range_search_def)
next
  case False
  let ?xs = "filter (\<lambda>x. below_start lo (fst x)) (entries m)" and ?ys = "filter (\<lambda>x. in_range lo hi (fst x)) (entries m)"
    and ?zs = "filter (\<lambda>x. \<not> upto_end hi (fst x)) (entries m)"
  obtain fr b where c: "range_search (height m) (root m) lo hi = Some (fr, b)"
    "edge_cut (root m) (height m) ?xs (?ys @ ?zs) fr" "edge_cut (root m) (height m) (?xs @ ?ys) ?zs b"
    using range_search_cuts [OF inv False] .
  have all: "entries m = ?xs @ ?ys @ ?zs" using edge_cut_entries [OF c(2)] unfolding entries_def .
  let ?r = "\<lparr>range_front = fr, range_back = b\<rparr>"
  obtain r rt us vs where r: "range_mut_loop s f ?r = Some r" "edge_cut rt (height m) us vs (moved s r)"
    "us @ vs = ?xs @ map (wr f) ?ys @ ?zs"
  proof (cases s)
    case Front
    then show thesis
      using range_mut_front_loop [of "root m" "height m" ?xs ?ys ?zs ?r "root m" "?xs @ ?ys" ?zs f] c(2,3) that by fastforce
  next
    case Back
    then show thesis
      using range_mut_back_loop [of "root m" "height m" ?xs "?ys @ ?zs" ?r "root m" ?xs ?ys ?zs f] c(2,3) that by fastforce
  qed
  have "tree_at (moved s r) = rt" using r(2) by (auto simp: tree_at_def edge_cut_def split: prod.splits)
  then have "btree_range_mut s f m lo hi = Some (m\<lparr>root := rt\<rparr>)" using c(1) r(1) by (simp add: btree_range_mut_def)
  then show ?thesis using written_range [OF inv False r(2,3) all refl refl refl] False by simp
qed

text \<open>C36: A loop over \<open>range_mut\<close>, forwards or reversed, that writes through every reference changes the values of
  the keys in the range and no others.  It panics exactly on the documented bounds, ends, and the map stays well-formed.\<close>

theorem btree_range_mut_updates:
  assumes inv: "map_inv m"
  shows "(btree_range_mut s f m lo hi = None \<longleftrightarrow> bad_range lo hi) \<and>
     (\<forall>m'. btree_range_mut s f m lo hi = Some m' \<longrightarrow> map_inv m' \<and>
        btree_get m' = (\<lambda>k. if in_range lo hi k then map_option f (btree_get m k) else btree_get m k))"
  using assms by (rule range_mut_ok)

theorem btree_range_mut_updates_witness:
  "\<exists>m'. btree_range_mut Back (\<lambda>v. v + 1) full_leaf (Included 3) (Excluded 5) = Some m' \<and> map_inv m' \<and>
     btree_get m' 4 = Some 41 \<and> btree_get m' 5 = Some 50"
proof -
  have g: "btree_get full_leaf 4 = Some 40" "btree_get full_leaf 5 = Some 50"
    by (simp_all add: btree_get_entries [OF full_leaf_inv] full_leaf_entries upto.simps)
  have "\<not> bad_range (Included (3 :: int)) (Excluded 5)" by simp
  then obtain m' where m': "btree_range_mut Back (\<lambda>v. v + 1) full_leaf (Included 3) (Excluded 5) = Some m'"
    using btree_range_mut_updates [OF full_leaf_inv, of Back "\<lambda>v. v + 1" "Included 3" "Excluded 5"] by blast
  then have "map_inv m'" "btree_get m' = (\<lambda>k. if in_range (Included 3) (Excluded 5) k then map_option (\<lambda>v. v + 1) (btree_get full_leaf k) else btree_get full_leaf k)"
    using btree_range_mut_updates [OF full_leaf_inv, of Back "\<lambda>v. v + 1" "Included 3" "Excluded 5"] by blast+
  then show ?thesis using m' g by (simp add: in_range_def)
qed

lemma iter_mut_front_loop:
  assumes "edge_cut rt hh xs ys (front_edge it)" "iter_length it = length ys"
  shows "\<exists>it' rt'. iter_mut_loop Front f it = Some it' \<and> edge_cut rt' hh (xs @ map (wr f) ys) [] (front_edge it')"
  using assms
proof (induction ys arbitrary: xs it rt)
  case Nil
  then show ?case by (subst iter_mut_loop.simps) (auto simp: iter_mut_next_def)
next
  case (Cons y ys)
  obtain e rt' where e: "next_mut_unchecked f (front_edge it) = Some (y, e)" "edge_cut rt' hh (xs @ [wr f y]) ys e"
    using edge_cut_next_mut [OF Cons.prems(1), of f] by auto
  have "\<exists>it' rt''. iter_mut_loop Front f (it\<lparr>front_edge := e, iter_length := length ys\<rparr>) = Some it' \<and>
      edge_cut rt'' hh ((xs @ [wr f y]) @ map (wr f) ys) [] (front_edge it')"
    using e by (intro Cons.IH [of rt']) simp_all
  then show ?case using e(1) Cons.prems(2) by (subst iter_mut_loop.simps) (auto simp: iter_mut_next_def)
qed

lemma iter_mut_back_loop:
  assumes "edge_cut rt hh ys zs (back_edge it)" "iter_length it = length ys"
  shows "\<exists>it' rt'. iter_mut_loop Back f it = Some it' \<and> edge_cut rt' hh [] (map (wr f) ys @ zs) (back_edge it')"
  using assms
proof (induction ys arbitrary: zs it rt rule: rev_induct)
  case Nil
  then show ?case by (subst iter_mut_loop.simps) (auto simp: iter_mut_next_back_def)
next
  case (snoc y ys)
  obtain e rt' where e: "next_mut_back_unchecked f (back_edge it) = Some (y, e)" "edge_cut rt' hh ys (wr f y # zs) e"
    using edge_cut_prev_mut [OF snoc.prems(1), of f] by auto
  have "\<exists>it' rt''. iter_mut_loop Back f (it\<lparr>back_edge := e, iter_length := length ys\<rparr>) = Some it' \<and>
      edge_cut rt'' hh [] (map (wr f) ys @ wr f y # zs) (back_edge it')"
    using e by (intro snoc.IH [of rt']) simp_all
  then show ?case using e(1) snoc.prems(2) by (subst iter_mut_loop.simps) (auto simp: iter_mut_next_back_def)
qed

lemma btree_values_mut_updates:
  assumes inv: "map_inv m"
  shows "\<exists>m'. btree_values_mut s f m = Some m' \<and> map_inv m' \<and> btree_get m' = map_option f \<circ> btree_get m"
proof -
  let ?it = "btree_iter_new m"
  have "between (root m) (height m) (entries m) (front_edge ?it) (back_edge ?it)"
    using iter_start_holds [OF inv] by (simp add: btree_iter_new_def)
  then obtain xs zs where b: "edge_cut (root m) (height m) xs (entries m @ zs) (front_edge ?it)"
    "edge_cut (root m) (height m) (xs @ entries m) zs (back_edge ?it)" by (auto simp: between_def)
  moreover have "xs = []" "zs = []" using arg_cong [OF edge_cut_entries [OF b(1)], of length] by (simp_all add: entries_def)
  ultimately have c: "edge_cut (root m) (height m) [] (entries m) (front_edge ?it)"
    "edge_cut (root m) (height m) (entries m) [] (back_edge ?it)" by simp_all
  have len: "iter_length ?it = length (entries m)" using inv by (simp add: btree_iter_new_def map_inv_def)
  obtain it rt us vs e where it: "iter_mut_loop s f ?it = Some it" "edge_cut rt (height m) us vs e" "us @ vs = map (wr f) (entries m)"
    "e = (case s of Front \<Rightarrow> front_edge it | Back \<Rightarrow> back_edge it)"
  proof (cases s)
    case Front
    obtain it rt where "iter_mut_loop Front f ?it = Some it" "edge_cut rt (height m) (map (wr f) (entries m)) [] (front_edge it)"
      using iter_mut_front_loop [OF c(1) len, of f] by auto
    then show thesis using that [of it rt _ "[]"] Front by simp
  next
    case Back
    obtain it rt where "iter_mut_loop Back f ?it = Some it" "edge_cut rt (height m) [] (map (wr f) (entries m)) (back_edge it)"
      using iter_mut_back_loop [OF c(2) len, of f] by auto
    then show thesis using that [of it rt "[]"] Back by simp
  qed
  have "tree_at e = rt" using it(2) by (auto simp: tree_at_def edge_cut_def split: prod.splits)
  then have res: "btree_values_mut s f m = Some (m\<lparr>root := rt\<rparr>)" using it(1,4) by (simp add: btree_values_mut_def)
  have m': "map_inv (m\<lparr>root := rt\<rparr>)" "entries (m\<lparr>root := rt\<rparr>) = map (wr f) (entries m)"
    using edge_cut_map_inv [OF inv it(2)] it(3) by (simp_all add: wr_def comp_def)
  have "btree_get (m\<lparr>root := rt\<rparr>) = map_option f \<circ> btree_get m"
    using btree_get_entries [OF m'(1)] btree_get_entries [OF inv] m'(2) map_of_wr by (intro ext) simp
  then show ?thesis using m'(1) res by blast
qed

end
