(* ===== verification/BTree_Api.thy ===== *)
theory BTree_Api
  imports BTree_Entry BTree_Mut
begin

text \<open>
  The whole interface of the B-tree map: the maps that programs can build with it, with any allocator, as long as
  the calls succeed, and the type invariant of these maps.
\<close>

section \<open>Maps the interface builds\<close>

inductive built :: "'a allocator \<Rightarrow> ('k :: linorder, 'v) btree_map \<Rightarrow> bool" for al :: "'a allocator" where
  new: "built al btree_new"
| insert: "built al m \<Longrightarrow> btree_insert al m k v a = (Inr old, m', b) \<Longrightarrow> built al m'"
| get_mut: "built al m \<Longrightarrow> built al (btree_update m k f)"
| remove: "built al m \<Longrightarrow> btree_remove m k = Some (old, m') \<Longrightarrow> built al m'"
| append_self: "built al m \<Longrightarrow> built al other \<Longrightarrow> btree_append al m other a = Some (Inr u, m', other', b) \<Longrightarrow> built al m'"
| append_other: "built al m \<Longrightarrow> built al other \<Longrightarrow> btree_append al m other a = Some (Inr u, m', other', b) \<Longrightarrow> built al other'"
| split_self: "built al m \<Longrightarrow> btree_split_off al m k a = Some (Inr right, m', b) \<Longrightarrow> built al m'"
| split_right: "built al m \<Longrightarrow> btree_split_off al m k a = Some (Inr right, m', b) \<Longrightarrow> built al right"
| clone: "built al m \<Longrightarrow> (\<And>k. ck k = k) \<Longrightarrow> btree_clone al ck cv m a = (Inr c, b) \<Longrightarrow> built al c"
| upsert: "built al m \<Longrightarrow> map_entry al m k a = (Inr e, b) \<Longrightarrow> or_insert al d (and_modify f e) b = (Inr v, m', c) \<Longrightarrow> built al m'"
| remove_entry: "built al m \<Longrightarrow> map_entry al m k a = (Inr (Occupied e), b) \<Longrightarrow>
    occupied_remove_entry e = Some (kv, m') \<Longrightarrow> built al m'"
| range_mut: "built al m \<Longrightarrow> btree_range_mut s f m lo hi = Some m' \<Longrightarrow> built al m'"
| values_mut: "built al m \<Longrightarrow> btree_values_mut s f m = Some m' \<Longrightarrow> built al m'"
| clear: "built al m \<Longrightarrow> btree_clear m = Some (m', fr) \<Longrightarrow> built al m'"

lemma bulk_keeps_inv:
  "btree_split_off al m k a = Some (Inr right, m', b) \<Longrightarrow> map_inv m \<Longrightarrow> map_inv m' \<and> map_inv right"
  "btree_append al m other a = Some (Inr u, m', other', b) \<Longrightarrow> map_inv m \<Longrightarrow> map_inv other \<Longrightarrow> map_inv m' \<and> map_inv other'"
  "btree_range_mut s f m lo hi = Some m' \<Longrightarrow> map_inv m \<Longrightarrow> map_inv m'"
  "btree_remove m k = Some (old, m') \<Longrightarrow> map_inv m \<Longrightarrow> map_inv m'"
  using split_off_ok [of m al k a] append_ok [of m other al a] range_mut_ok [of m s f lo hi] bt.remove_law [of m k] by auto

text \<open>C37: Every map that a program can build with the calls in \<open>built\<close>, in any order of calls that succeed, is well-formed: the
  nodes hold at most 11 entries and, below the root, at least 4, all leaves are at the height of the tree, the
  keys are in order and the length is the number of entries.\<close>

theorem built_well_formed:
  assumes "built al m"
  shows "map_inv m"
  using assms
proof induction
  case (insert m k v a old m' b)
  show ?case using bt.ins_law [OF insert.IH insert.hyps(2)] by blast
next
  case (get_mut m k f)
  show ?case using bt.update_law [OF get_mut.IH] by blast
next
  case (clone m ck cv a c b)
  then show ?case using btree_clone_copies [of m ck al cv a c b] by blast
next
  case (upsert m k a e b d f v m' c)
  then show ?case using entry_upsert_ok [OF upsert.IH upsert.hyps(2,3)] by (auto split: option.splits)
next
  case (remove_entry m k a e b kv m')
  then show ?case using occupied_remove_ok [OF remove_entry.IH remove_entry.hyps(2)] by auto
next
  case (values_mut m s f m')
  then show ?case using btree_values_mut_updates [of m s f] by auto
qed (auto simp: btree_clear_def bt.inv_new dest: bulk_keeps_inv)

theorem built_well_formed_witness:
  "\<exists>m m'. btree_insert always (btree_new :: (int, int) btree_map) 1 10 () = (Inr None, m, ()) \<and>
     btree_remove m 1 = Some (Some 10, m') \<and> built always m' \<and> map_inv m'"
proof -
  let ?n = "btree_new :: (int, int) btree_map"
  obtain old m where i: "btree_insert always ?n 1 10 () = (Inr old, m, ())"
    using bt.ins_total [of always ?n 1 10 "()"] by (metis always_def fst_conv unit.exhaust)
  have l: "old = None" "map_inv m" "btree_get m 1 = Some 10"
    using bt.ins_law [OF bt.inv_new i] bt.get_new by auto
  obtain m' where r: "btree_remove m 1 = Some (Some 10, m')" using bt.remove_law [OF l(2), of 1] l(3) by auto
  have "built always m'" using built.remove [OF built.insert [OF built.new i] r] .
  then show ?thesis using built_well_formed [of always m'] i l(1) r by blast
qed

end
