(* ===== verification/BTree_Set.thy ===== *)
theory BTree_Set
  imports BTree_Entry
begin

text \<open>
  The B-tree set of \<open>alloc_collections/src/btree/set.rs\<close>: a map from the elements to the unit value, with the iterators of the
  set algebra.

  The module is not compiled: \<open>insert\<close>, \<open>replace\<close>, \<open>append\<close>, \<open>split_off\<close> and the operators that collect
  into a set still have the signatures from before allocations could fail, and do not fit the map any more.  The
  operations here are those that fit the map as it is: lookups, removals, comparisons and iterators.

  \<^item> \<open>None\<close> of an iterator step stands for the failed \<open>unwrap_unchecked\<close> of the map's iterator.
  \<^item> \<open>Peekable\<close> is the adapter of the standard library, over any iterator.
\<close>

section \<open>Iterators and Peekable\<close>

record ('i, 'a) peekable =
  peek_iter :: 'i
  peeked :: "'a option option"

definition peekable_new :: "'i \<Rightarrow> ('i, 'a) peekable" where
  "peekable_new it = \<lparr>peek_iter = it, peeked = None\<rparr>"

definition peek :: "('i \<Rightarrow> ('a option \<times> 'i) option) \<Rightarrow> ('i, 'a) peekable \<Rightarrow> ('a option \<times> ('i, 'a) peekable) option" where
  "peek nxt p =
     (case peeked p of
        Some x \<Rightarrow> Some (x, p)
      | None \<Rightarrow> map_option (\<lambda>(x, it). (x, p\<lparr>peek_iter := it, peeked := Some x\<rparr>)) (nxt (peek_iter p)))"

definition peek_next :: "('i \<Rightarrow> ('a option \<times> 'i) option) \<Rightarrow> ('i, 'a) peekable \<Rightarrow> ('a option \<times> ('i, 'a) peekable) option" where
  "peek_next nxt p =
     (case peeked p of
        Some x \<Rightarrow> Some (x, p\<lparr>peeked := None\<rparr>)
      | None \<Rightarrow> map_option (\<lambda>(x, it). (x, p\<lparr>peek_iter := it\<rparr>)) (nxt (peek_iter p)))"

text \<open>Calling \<open>next\<close> until it returns \<open>None\<close>.\<close>

partial_function (option) collect :: "('i \<Rightarrow> ('a option \<times> 'i) option) \<Rightarrow> 'i \<Rightarrow> 'a list option" where
  "collect nxt it =
     Option.bind (nxt it) (\<lambda>(x, it).
       case x of None \<Rightarrow> Some [] | Some x \<Rightarrow> Option.bind (collect nxt it) (\<lambda>xs. Some (x # xs)))"

text \<open>The iterator after \<open>n\<close> calls of \<open>next\<close>.\<close>

fun advance :: "('i \<Rightarrow> ('a option \<times> 'i) option) \<Rightarrow> nat \<Rightarrow> 'i \<Rightarrow> 'i option" where
  "advance nxt 0 it = Some it"
| "advance nxt (Suc n) it = Option.bind (nxt it) (\<lambda>(_, it). advance nxt n it)"

fun head_opt :: "'a list \<Rightarrow> 'a option" where
  "head_opt [] = None"
| "head_opt (x # xs) = Some x"

text \<open>An iterator that holds a list of items.\<close>

locale item_iterator =
  fixes nxt :: "'i \<Rightarrow> ('a option \<times> 'i) option"
    and holds :: "'a list \<Rightarrow> 'i \<Rightarrow> bool"
  assumes next_law: "holds xs it \<Longrightarrow> \<exists>it'. nxt it = Some (head_opt xs, it') \<and> holds (tl xs) it'"
begin

lemma next_item: "holds (x # xs) it \<Longrightarrow> \<exists>it'. nxt it = Some (Some x, it') \<and> holds xs it'"
  using next_law by fastforce

lemma next_end: "holds [] it \<Longrightarrow> \<exists>it'. nxt it = Some (None, it') \<and> holds [] it'"
  using next_law by fastforce

lemma collect_holds: "holds xs it \<Longrightarrow> collect nxt it = Some xs"
proof (induction xs arbitrary: it)
  case Nil
  then show ?case using next_end [OF Nil] by (subst collect.simps) auto
next
  case (Cons x xs)
  obtain it' where "nxt it = Some (Some x, it')" "holds xs it'" using next_item [OF Cons.prems] by blast
  then show ?case using Cons.IH by (subst collect.simps) simp
qed

lemma advance_holds: "holds xs it \<Longrightarrow> \<exists>it'. advance nxt n it = Some it' \<and> holds (drop n xs) it'"
proof (induction n arbitrary: xs it)
  case (Suc n)
  obtain it' where it': "nxt it = Some (head_opt xs, it')" "holds (tl xs) it'" using next_law [OF Suc.prems] by blast
  from Suc.IH [OF it'(2)] it'(1) show ?case by (simp add: drop_Suc)
qed simp

end

fun peek_holds :: "('a list \<Rightarrow> 'i \<Rightarrow> bool) \<Rightarrow> 'a list \<Rightarrow> ('i, 'a) peekable \<Rightarrow> bool" where
  "peek_holds holds xs p \<longleftrightarrow>
     (case peeked p of
        None \<Rightarrow> holds xs (peek_iter p)
      | Some None \<Rightarrow> xs = [] \<and> holds [] (peek_iter p)
      | Some (Some x) \<Rightarrow> xs \<noteq> [] \<and> x = hd xs \<and> holds (tl xs) (peek_iter p))"

declare peek_holds.simps [simp del]

locale peekable_iterator = item_iterator
begin

sublocale peeking: item_iterator "peek_next nxt" "peek_holds holds"
proof
  fix xs p assume h: "peek_holds holds xs p"
  show "\<exists>p'. peek_next nxt p = Some (head_opt xs, p') \<and> peek_holds holds (tl xs) p'"
  proof (cases "peeked p")
    case None
    then have "holds xs (peek_iter p)" using h by (simp add: peek_holds.simps)
    from next_law [OF this] None show ?thesis by (auto simp: peek_next_def peek_holds.simps)
  next
    case (Some v)
    then have "v = head_opt xs" "holds (tl xs) (peek_iter p)" using h by (cases xs; cases v; simp add: peek_holds.simps)+
    then show ?thesis using Some by (auto simp: peek_next_def peek_holds.simps)
  qed
qed

lemma peek_law:
  assumes h: "peek_holds holds xs p"
  shows "\<exists>p'. peek nxt p = Some (head_opt xs, p') \<and> peek_holds holds xs p'"
proof (cases "peeked p")
  case None
  then have "holds xs (peek_iter p)" using h by (simp add: peek_holds.simps)
  from next_law [OF this] None show ?thesis by (cases xs) (auto simp: peek_def peek_holds.simps)
next
  case (Some v)
  then have "v = head_opt xs" using h by (cases xs; cases v; simp add: peek_holds.simps)
  then show ?thesis using Some h by (auto simp: peek_def)
qed

lemma peekable_new_holds: "holds xs it \<Longrightarrow> peek_holds holds xs (peekable_new it)"
  by (simp add: peek_holds.simps peekable_new_def)

end

section \<open>The set\<close>

record 'k btree_set =
  set_map :: "('k, unit) btree_map"

type_synonym 'k set_iter = "('k, unit) btree_iter"

type_synonym 'k set_peek = "('k set_iter, 'k) peekable"

definition set_new :: "'k btree_set" where
  "set_new = \<lparr>set_map = btree_new\<rparr>"

definition set_len :: "'k btree_set \<Rightarrow> nat" where
  "set_len s = map_length (set_map s)"

definition set_is_empty :: "'k btree_set \<Rightarrow> bool" where
  "set_is_empty s \<longleftrightarrow> set_len s = 0"

definition set_contains :: "'k :: linorder btree_set \<Rightarrow> 'k \<Rightarrow> bool" where
  "set_contains s v \<longleftrightarrow> btree_contains_key (set_map s) v"

definition set_get :: "'k :: linorder btree_set \<Rightarrow> 'k \<Rightarrow> 'k option" where
  "set_get s v = recover_get (set_map s) v"

definition set_remove :: "'k :: linorder btree_set \<Rightarrow> 'k \<Rightarrow> (bool \<times> 'k btree_set) option" where
  "set_remove s v = map_option (\<lambda>(old, m). (old \<noteq> None, s\<lparr>set_map := m\<rparr>)) (btree_remove (set_map s) v)"

definition set_take :: "'k :: linorder btree_set \<Rightarrow> 'k \<Rightarrow> ('k option \<times> 'k btree_set) option" where
  "set_take s v = map_option (\<lambda>(old, m). (old, s\<lparr>set_map := m\<rparr>)) (recover_take (set_map s) v)"

definition set_clear :: "'k btree_set \<Rightarrow> ('k btree_set \<times> frees) option" where
  "set_clear s = map_option (\<lambda>(m, fr). (s\<lparr>set_map := m\<rparr>, fr)) (btree_clear (set_map s))"

definition set_iter_new :: "'k btree_set \<Rightarrow> 'k set_iter" where
  "set_iter_new s = btree_iter_new (set_map s)"

definition set_next :: "'k set_iter \<Rightarrow> ('k option \<times> 'k set_iter) option" where
  "set_next it = keys_next it"

definition set_next_back :: "'k set_iter \<Rightarrow> ('k option \<times> 'k set_iter) option" where
  "set_next_back it = keys_next_back it"

definition set_range :: "'k :: linorder btree_set \<Rightarrow> 'k bound \<Rightarrow> 'k bound \<Rightarrow> ('k, unit) btree_range option" where
  "set_range s lo hi = btree_range (set_map s) lo hi"

definition set_range_next :: "('k, unit) btree_range \<Rightarrow> ('k option \<times> ('k, unit) btree_range) option" where
  "set_range_next r = map_option (\<lambda>(x, r). (map_option fst x, r)) (range_next r)"

definition set_range_next_back :: "('k, unit) btree_range \<Rightarrow> ('k option \<times> ('k, unit) btree_range) option" where
  "set_range_next_back r = map_option (\<lambda>(x, r). (map_option fst x, r)) (range_next_back r)"

definition set_into_iter :: "'k btree_set \<Rightarrow> ('k, unit) into_iter" where
  "set_into_iter s = btree_into_iter (set_map s)"

definition set_into_next :: "('k, unit) into_iter \<Rightarrow> ('k option \<times> ('k, unit) into_iter) option" where
  "set_into_next it = map_option (\<lambda>(x, it). (map_option fst x, it)) (into_next it)"

definition set_into_next_back :: "('k, unit) into_iter \<Rightarrow> ('k option \<times> ('k, unit) into_iter) option" where
  "set_into_next_back it = map_option (\<lambda>(x, it). (map_option fst x, it)) (into_next_back it)"

section \<open>Set algebra\<close>

definition ITER_PERFORMANCE_TIPPING_SIZE_DIFF :: nat where
  "ITER_PERFORMANCE_TIPPING_SIZE_DIFF = 16"

definition ord_cmp :: "'k :: linorder \<Rightarrow> 'k \<Rightarrow> ordering" where
  "ord_cmp x y = (if x < y then Less else if x = y then Equal else Greater)"

definition cmp_opt :: "'k :: linorder option \<Rightarrow> 'k option \<Rightarrow> ordering \<Rightarrow> ordering \<Rightarrow> ordering" where
  "cmp_opt x y short long =
     (case (x, y) of
        (None, _) \<Rightarrow> short
      | (_, None) \<Rightarrow> long
      | (Some x1, Some y1) \<Rightarrow> ord_cmp x1 y1)"

subsection \<open>Difference\<close>

datatype 'k difference =
    DStitch "'k set_iter" "'k set_peek"
  | DSearch "'k set_iter" "'k btree_set"

definition set_difference :: "'k btree_set \<Rightarrow> 'k btree_set \<Rightarrow> 'k difference" where
  "set_difference s other =
     (if set_len s > set_len other div ITER_PERFORMANCE_TIPPING_SIZE_DIFF
      then DStitch (set_iter_new s) (peekable_new (set_iter_new other))
      else DSearch (set_iter_new s) other)"

partial_function (option) difference_stitch :: "'k :: linorder \<Rightarrow> 'k set_iter \<Rightarrow> 'k set_peek
    \<Rightarrow> ('k option \<times> 'k set_iter \<times> 'k set_peek) option" where
  "difference_stitch self_next self_iter other_iter =
     Option.bind (peek set_next other_iter) (\<lambda>(other_next, other_iter).
       case (case other_next of None \<Rightarrow> Less | Some other_next \<Rightarrow> ord_cmp self_next other_next) of
         Less \<Rightarrow> Some (Some self_next, self_iter, other_iter)
       | Equal \<Rightarrow>
           Option.bind (set_next self_iter) (\<lambda>(x, self_iter).
             case x of
               None \<Rightarrow> Some (None, self_iter, other_iter)
             | Some self_next \<Rightarrow>
                 Option.bind (peek_next set_next other_iter) (\<lambda>(_, other_iter).
                   difference_stitch self_next self_iter other_iter))
       | Greater \<Rightarrow>
           Option.bind (peek_next set_next other_iter) (\<lambda>(_, other_iter).
             difference_stitch self_next self_iter other_iter))"

partial_function (option) search_loop :: "bool \<Rightarrow> 'k :: linorder btree_set \<Rightarrow> 'k set_iter \<Rightarrow> ('k option \<times> 'k set_iter) option" where
  "search_loop want other it =
     Option.bind (set_next it) (\<lambda>(x, it).
       case x of
         None \<Rightarrow> Some (None, it)
       | Some v \<Rightarrow> if set_contains other v = want then Some (Some v, it) else search_loop want other it)"

definition difference_next :: "'k :: linorder difference \<Rightarrow> ('k option \<times> 'k difference) option" where
  "difference_next d =
     (case d of
        DStitch self_iter other_iter \<Rightarrow> do {
          (x, self_iter) \<leftarrow> set_next self_iter;
          (case x of
             None \<Rightarrow> Some (None, DStitch self_iter other_iter)
           | Some self_next \<Rightarrow>
               map_option (\<lambda>(r, self_iter, other_iter). (r, DStitch self_iter other_iter))
                 (difference_stitch self_next self_iter other_iter)) }
      | DSearch self_iter other_set \<Rightarrow>
          map_option (\<lambda>(r, self_iter). (r, DSearch self_iter other_set)) (search_loop False other_set self_iter))"

subsection \<open>Symmetric difference and union\<close>

record 'k merge_pair =
  merge_a :: "'k set_peek"
  merge_b :: "'k set_peek"

definition set_symmetric_difference :: "'k btree_set \<Rightarrow> 'k btree_set \<Rightarrow> 'k merge_pair" where
  "set_symmetric_difference s other =
     \<lparr>merge_a = peekable_new (set_iter_new s), merge_b = peekable_new (set_iter_new other)\<rparr>"

definition set_union :: "'k btree_set \<Rightarrow> 'k btree_set \<Rightarrow> 'k merge_pair" where
  "set_union s other =
     \<lparr>merge_a = peekable_new (set_iter_new s), merge_b = peekable_new (set_iter_new other)\<rparr>"

partial_function (option) symmetric_difference_next :: "'k :: linorder merge_pair \<Rightarrow> ('k option \<times> 'k merge_pair) option" where
  "symmetric_difference_next d =
     Option.bind (peek set_next (merge_a d)) (\<lambda>(x, a).
     Option.bind (peek set_next (merge_b d)) (\<lambda>(y, b).
       case cmp_opt x y Greater Less of
         Less \<Rightarrow> Option.bind (peek_next set_next a) (\<lambda>(r, a). Some (r, \<lparr>merge_a = a, merge_b = b\<rparr>))
       | Equal \<Rightarrow>
           Option.bind (peek_next set_next a) (\<lambda>(_, a).
           Option.bind (peek_next set_next b) (\<lambda>(_, b). symmetric_difference_next \<lparr>merge_a = a, merge_b = b\<rparr>))
       | Greater \<Rightarrow> Option.bind (peek_next set_next b) (\<lambda>(r, b). Some (r, \<lparr>merge_a = a, merge_b = b\<rparr>))))"

definition union_next :: "'k :: linorder merge_pair \<Rightarrow> ('k option \<times> 'k merge_pair) option" where
  "union_next u = do {
     (x, a) \<leftarrow> peek set_next (merge_a u);
     (y, b) \<leftarrow> peek set_next (merge_b u);
     (case cmp_opt x y Greater Less of
        Less \<Rightarrow> do { (r, a) \<leftarrow> peek_next set_next a; Some (r, \<lparr>merge_a = a, merge_b = b\<rparr>) }
      | Equal \<Rightarrow> do {
          (_, b) \<leftarrow> peek_next set_next b;
          (r, a) \<leftarrow> peek_next set_next a;
          Some (r, \<lparr>merge_a = a, merge_b = b\<rparr>) }
      | Greater \<Rightarrow> do { (r, b) \<leftarrow> peek_next set_next b; Some (r, \<lparr>merge_a = a, merge_b = b\<rparr>) }) }"

subsection \<open>Intersection\<close>

datatype 'k intersection =
    IStitch "'k set_iter" "'k set_iter"
  | ISearch "'k set_iter" "'k btree_set"

definition set_intersection :: "'k btree_set \<Rightarrow> 'k btree_set \<Rightarrow> 'k intersection" where
  "set_intersection s other =
     (let (small, other) = (if set_len s \<le> set_len other then (s, other) else (other, s)) in
      if set_len small > set_len other div ITER_PERFORMANCE_TIPPING_SIZE_DIFF
      then IStitch (set_iter_new small) (set_iter_new other)
      else ISearch (set_iter_new small) other)"

partial_function (option) intersection_stitch :: "'k :: linorder \<Rightarrow> 'k \<Rightarrow> 'k set_iter \<Rightarrow> 'k set_iter
    \<Rightarrow> ('k option \<times> 'k set_iter \<times> 'k set_iter) option" where
  "intersection_stitch small_next other_next small_iter other_iter =
     (case ord_cmp small_next other_next of
        Less \<Rightarrow>
          Option.bind (set_next small_iter) (\<lambda>(x, small_iter).
            case x of
              None \<Rightarrow> Some (None, small_iter, other_iter)
            | Some small_next \<Rightarrow> intersection_stitch small_next other_next small_iter other_iter)
      | Greater \<Rightarrow>
          Option.bind (set_next other_iter) (\<lambda>(x, other_iter).
            case x of
              None \<Rightarrow> Some (None, small_iter, other_iter)
            | Some other_next \<Rightarrow> intersection_stitch small_next other_next small_iter other_iter)
      | Equal \<Rightarrow> Some (Some small_next, small_iter, other_iter))"

definition intersection_next :: "'k :: linorder intersection \<Rightarrow> ('k option \<times> 'k intersection) option" where
  "intersection_next d =
     (case d of
        IStitch small_iter other_iter \<Rightarrow> do {
          (x, small_iter) \<leftarrow> set_next small_iter;
          (case x of
             None \<Rightarrow> Some (None, IStitch small_iter other_iter)
           | Some small_next \<Rightarrow> do {
               (y, other_iter) \<leftarrow> set_next other_iter;
               (case y of
                  None \<Rightarrow> Some (None, IStitch small_iter other_iter)
                | Some other_next \<Rightarrow>
                    map_option (\<lambda>(r, small_iter, other_iter). (r, IStitch small_iter other_iter))
                      (intersection_stitch small_next other_next small_iter other_iter)) }) }
      | ISearch small_iter large_set \<Rightarrow>
          map_option (\<lambda>(r, small_iter). (r, ISearch small_iter large_set)) (search_loop True large_set small_iter))"

subsection \<open>Comparisons of sets\<close>

definition is_disjoint :: "'k :: linorder btree_set \<Rightarrow> 'k btree_set \<Rightarrow> bool option" where
  "is_disjoint s other = map_option (\<lambda>(x, _). x = None) (intersection_next (set_intersection s other))"

partial_function (option) subset_loop :: "'k :: linorder set_iter \<Rightarrow> 'k set_iter \<Rightarrow> 'k option \<Rightarrow> 'k option \<Rightarrow> bool option" where
  "subset_loop x y a b =
     (case a of
        None \<Rightarrow> Some True
      | Some a1 \<Rightarrow>
          (case b of
             None \<Rightarrow> Some False
           | Some b1 \<Rightarrow>
               (case ord_cmp b1 a1 of
                  Less \<Rightarrow> Option.bind (set_next y) (\<lambda>(b, y). subset_loop x y a b)
                | Greater \<Rightarrow> Some False
                | Equal \<Rightarrow>
                    Option.bind (set_next x) (\<lambda>(a, x).
                    Option.bind (set_next y) (\<lambda>(b, y). subset_loop x y a b)))))"

partial_function (option) subset_search :: "'k :: linorder set_iter \<Rightarrow> 'k btree_set \<Rightarrow> bool option" where
  "subset_search x other =
     Option.bind (set_next x) (\<lambda>(v, x).
       case v of
         None \<Rightarrow> Some True
       | Some v \<Rightarrow> if \<not> set_contains other v then Some False else subset_search x other)"

definition is_subset :: "'k :: linorder btree_set \<Rightarrow> 'k btree_set \<Rightarrow> bool option" where
  "is_subset s other =
     (if set_len s > set_len other then Some False
      else if set_len s > set_len other div ITER_PERFORMANCE_TIPPING_SIZE_DIFF then do {
        (a, x) \<leftarrow> set_next (set_iter_new s);
        (b, y) \<leftarrow> set_next (set_iter_new other);
        subset_loop x y a b }
      else subset_search (set_iter_new s) other)"

definition is_superset :: "'k :: linorder btree_set \<Rightarrow> 'k btree_set \<Rightarrow> bool option" where
  "is_superset s other = is_subset other s"

section \<open>Size hints\<close>

text \<open>
  The lengths count elements in memory, so that the sums of two of them fit a \<open>usize\<close>; they are natural numbers here.
  The lower and the upper bound of each \<open>size_hint\<close>:
\<close>

definition set_iter_len :: "'k set_iter \<Rightarrow> nat" where
  "set_iter_len it = iter_length it"

definition peek_len :: "'k set_peek \<Rightarrow> nat" where
  "peek_len p =
     (case peeked p of
        Some None \<Rightarrow> 0
      | Some (Some _) \<Rightarrow> set_iter_len (peek_iter p) + 1
      | None \<Rightarrow> set_iter_len (peek_iter p))"

definition difference_size_hint :: "'k difference \<Rightarrow> nat \<times> nat" where
  "difference_size_hint d =
     (let (self_len, other_len) =
        (case d of
           DStitch self_iter other_iter \<Rightarrow> (set_iter_len self_iter, peek_len other_iter)
         | DSearch self_iter other_set \<Rightarrow> (set_iter_len self_iter, set_len other_set))
      in (self_len - other_len, self_len))"

definition symmetric_difference_size_hint :: "'k merge_pair \<Rightarrow> nat \<times> nat" where
  "symmetric_difference_size_hint d = (0, peek_len (merge_a d) + peek_len (merge_b d))"

definition intersection_size_hint :: "'k intersection \<Rightarrow> nat \<times> nat" where
  "intersection_size_hint d =
     (let min_len = (case d of IStitch small_iter _ \<Rightarrow> set_iter_len small_iter | ISearch small_iter _ \<Rightarrow> set_iter_len small_iter)
      in (0, min_len))"

definition union_size_hint :: "'k merge_pair \<Rightarrow> nat \<times> nat" where
  "union_size_hint u =
     (let a_len = peek_len (merge_a u); b_len = peek_len (merge_b u) in (max a_len b_len, a_len + b_len))"

end
