(* ===== verification/BTree_Set_Contract.thy ===== *)
theory BTree_Set_Contract
  imports BTree_Set
begin

text \<open>
  The set algebra of \<open>BTreeSet\<close> refines the algebra of sets.

  Each of the iterators is an \<open>item_iterator\<close> over the sorted list of the elements it still has to return, whatever
  strategy it has chosen (walking both sets together or searching in the larger one); the interpretations give what a
  loop over it collects.
\<close>

section \<open>Elements and their iterator\<close>

definition elems :: "'k :: linorder btree_set \<Rightarrow> 'k set" where
  "elems s = dom (btree_get (set_map s))"

definition set_inv :: "'k :: linorder btree_set \<Rightarrow> bool" where
  "set_inv s \<longleftrightarrow> map_inv (set_map s)"

definition elem_list :: "'k :: linorder btree_set \<Rightarrow> 'k list" where
  "elem_list s = map fst (entries (set_map s))"

definition set_holds :: "'k list \<Rightarrow> 'k set_iter \<Rightarrow> bool" where
  "set_holds xs it \<longleftrightarrow> (\<exists>es. xs = map fst es \<and> iter_holds es it)"

interpretation set_it: peekable_iterator set_next set_holds
proof
  fix xs :: "'k list" and it :: "'k set_iter" assume "set_holds xs it"
  then obtain es where es: "xs = map fst es" "iter_holds es it" by (auto simp: set_holds_def)
  show "\<exists>it'. set_next it = Some (head_opt xs, it') \<and> set_holds (tl xs) it'"
  proof (cases es)
    case Nil
    then show ?thesis using es iter_ends.end_law [of it Front] by (auto simp: set_next_def keys_next_def set_holds_def)
  next
    case (Cons e es')
    obtain it' where it': "iter_next it = Some (Some e, it')" "iter_holds es' it'"
      using iter_ends.front_law [of e es' it] es(2) Cons by auto
    then have "set_holds (map fst es') it'" by (auto simp: set_holds_def)
    moreover have "set_next it = Some (head_opt xs, it')" using it'(1) es(1) Cons by (simp add: set_next_def keys_next_def)
    ultimately show ?thesis using es(1) Cons by auto
  qed
qed

lemma elem_list_props:
  assumes "set_inv s"
  shows "sorted_wrt (<) (elem_list s)" "set (elem_list s) = elems s" "length (elem_list s) = set_len s" "finite (elems s)"
    "set_holds (elem_list s) (set_iter_new s)" "set_contains s v \<longleftrightarrow> v \<in> elems s"
proof -
  have inv: "map_inv (set_map s)" using assms by (simp add: set_inv_def)
  show "sorted_wrt (<) (elem_list s)" "length (elem_list s) = set_len s"
    using inv by (simp_all add: elem_list_def map_inv_def sorted_keys_def set_len_def)
  have "btree_get (set_map s) = map_of (entries (set_map s))" using btree_get_entries [OF inv] by auto
  then show e: "set (elem_list s) = elems s" by (simp add: elems_def elem_list_def dom_map_of_conv_image_fst)
  show "finite (elems s)" unfolding e [symmetric] by simp
  show "set_holds (elem_list s) (set_iter_new s)"
    using iter_start_holds [OF inv] inv
    by (auto simp: set_holds_def elem_list_def set_iter_new_def iter_holds_def btree_iter_new_def map_inv_def)
  show "set_contains s v \<longleftrightarrow> v \<in> elems s" by (auto simp: set_contains_def btree_contains_key_def elems_def)
qed

lemma sorted_list_of_elems:
  assumes "sorted_wrt (<) xs" "set xs = A"
  shows "xs = sorted_list_of_set A"
  using assms sorted_list_of_set.idem_if_sorted_distinct [of xs] strict_sorted_iff [of xs] by auto

section \<open>Searching iterators\<close>

lemma search_loop_ok:
  assumes inv: "set_inv other" and h: "set_holds xs it"
  shows "\<exists>it' ys. search_loop want other it = Some (head_opt (filter (\<lambda>x. (x \<in> elems other) = want) xs), it') \<and>
     set_holds ys it' \<and> tl (filter (\<lambda>x. (x \<in> elems other) = want) xs) = filter (\<lambda>x. (x \<in> elems other) = want) ys \<and>
     (sorted_wrt (<) xs \<longrightarrow> sorted_wrt (<) ys)"
  using h
proof (induction xs arbitrary: it)
  case Nil
  then show ?case using set_it.next_end [OF Nil] by (subst search_loop.simps) fastforce
next
  case (Cons x xs)
  obtain it' where it': "set_next it = Some (Some x, it')" "set_holds xs it'" using set_it.next_item [OF Cons.prems] by blast
  show ?case
  proof (cases "(x \<in> elems other) = want")
    case True
    then show ?thesis using it' elem_list_props(6) [OF inv] by (subst search_loop.simps) auto
  next
    case False
    then show ?thesis using Cons.IH [OF it'(2)] it'(1) elem_list_props(6) [OF inv] by (subst search_loop.simps) auto
  qed
qed

section \<open>Difference\<close>

fun difference_holds :: "'k :: linorder list \<Rightarrow> 'k difference \<Rightarrow> bool" where
  "difference_holds zs (DStitch s p) \<longleftrightarrow>
     (\<exists>xs ys. set_holds xs s \<and> peek_holds set_holds ys p \<and> sorted_wrt (<) xs \<and> sorted_wrt (<) ys \<and>
        zs = filter (\<lambda>x. x \<notin> set ys) xs)"
| "difference_holds zs (DSearch s other) \<longleftrightarrow>
     (\<exists>xs. set_holds xs s \<and> sorted_wrt (<) xs \<and> set_inv other \<and> zs = filter (\<lambda>x. x \<notin> elems other) xs)"

lemma ord_cmp_simps [simp]:
  "x < y \<Longrightarrow> ord_cmp x y = Less" "y < x \<Longrightarrow> ord_cmp x y = Greater" "ord_cmp x x = Equal"
  by (auto simp: ord_cmp_def)

lemma filter_below:
  assumes "y \<notin> set zs"
  shows "filter (\<lambda>z. z \<notin> set (y # ys)) zs = filter (\<lambda>z. z \<notin> set ys) zs"
  by (rule filter_cong) (use assms in auto)

lemma sorted_below: "sorted_wrt (<) (x # xs) \<Longrightarrow> y < x \<Longrightarrow> y \<notin> set (x # xs)" for x y :: "'k :: linorder"
  by auto

lemma difference_stitch_ok:
  assumes "set_holds xs s" "peek_holds set_holds ys p" "sorted_wrt (<) (x # xs)" "sorted_wrt (<) ys"
  shows "\<exists>s' p'. difference_stitch x s p = Some (head_opt (filter (\<lambda>z. z \<notin> set ys) (x # xs)), s', p') \<and>
     difference_holds (tl (filter (\<lambda>z. z \<notin> set ys) (x # xs))) (DStitch s' p')"
  using assms
proof (induction ys arbitrary: x xs s p)
  case Nil
  obtain p' where p': "peek set_next p = Some (None, p')" "peek_holds set_holds [] p'"
    using set_it.peek_law [OF Nil(2)] by auto
  then have "difference_stitch x s p = Some (Some x, s, p')" by (subst difference_stitch.simps) simp
  moreover have "difference_holds xs (DStitch s p')" using Nil p'(2) by fastforce
  ultimately show ?case by simp
next
  case (Cons y ys)
  obtain p' where p': "peek set_next p = Some (Some y, p')" "peek_holds set_holds (y # ys) p'"
    using set_it.peek_law [OF Cons.prems(2)] by auto
  obtain q where q: "peek_next set_next p' = Some (Some y, q)" "peek_holds set_holds ys q"
    using set_it.peeking.next_item [OF p'(2)] by blast
  have ys: "sorted_wrt (<) ys" using Cons.prems(4) by simp
  consider (less) "x < y" | (equal) "x = y" | (greater) "y < x" by fastforce
  then show ?case
  proof cases
    case less
    then have "x \<notin> set (y # ys)" using Cons.prems(4) by auto
    then have f: "filter (\<lambda>z. z \<notin> set (y # ys)) (x # xs) = x # filter (\<lambda>z. z \<notin> set (y # ys)) xs" by simp
    have "difference_stitch x s p = Some (Some x, s, p')" using p'(1) less by (subst difference_stitch.simps) simp
    moreover have "difference_holds (filter (\<lambda>z. z \<notin> set (y # ys)) xs) (DStitch s p')"
      unfolding difference_holds.simps using Cons.prems p'(2) by (intro exI [of _ xs] exI [of _ "y # ys"]) simp
    ultimately show ?thesis unfolding f by simp
  next
    case greater
    have "filter (\<lambda>z. z \<notin> set (y # ys)) (x # xs) = filter (\<lambda>z. z \<notin> set ys) (x # xs)"
      by (rule filter_below [OF sorted_below [OF Cons.prems(3) greater]])
    moreover have "difference_stitch x s p = difference_stitch x s q"
      using p'(1) q(1) greater by (subst difference_stitch.simps) simp
    ultimately show ?thesis using Cons.IH [OF Cons.prems(1) q(2) Cons.prems(3) ys] by simp
  next
    case equal
    show ?thesis
    proof (cases xs)
      case Nil
      obtain s' where s': "set_next s = Some (None, s')" "set_holds [] s'" using set_it.next_end Cons.prems(1) Nil by blast
      then have "difference_stitch x s p = Some (None, s', p')"
        using p'(1) equal by (subst difference_stitch.simps) simp
      moreover have "difference_holds [] (DStitch s' p')"
        unfolding difference_holds.simps using s'(2) p'(2) Cons.prems(4) by (intro exI [of _ "[]"] exI [of _ "y # ys"]) simp
      ultimately show ?thesis using Nil equal by simp
    next
      case (Cons x' xs')
      obtain s' where s': "set_next s = Some (Some x', s')" "set_holds xs' s'"
        using set_it.next_item [of x' xs' s] Cons.prems(1) Cons by auto
      have so: "sorted_wrt (<) (x' # xs')" "x < x'" using Cons.prems(3) Cons by auto
      have "difference_stitch x s p = difference_stitch x' s' q"
        using p'(1) q(1) s'(1) equal by (subst difference_stitch.simps) simp
      moreover have "filter (\<lambda>z. z \<notin> set (y # ys)) (x # xs) = filter (\<lambda>z. z \<notin> set ys) (x' # xs')"
        using filter_below [OF sorted_below [OF so], of ys] equal Cons by simp
      ultimately show ?thesis using Cons.IH [OF s'(2) q(2) so(1) ys] by simp
    qed
  qed
qed

interpretation difference: item_iterator difference_next difference_holds
proof
  fix zs :: "'k :: linorder list" and d assume h: "difference_holds zs d"
  show "\<exists>d'. difference_next d = Some (head_opt zs, d') \<and> difference_holds (tl zs) d'"
  proof (cases d)
    case (DStitch s p)
    then obtain xs ys where x: "set_holds xs s" "peek_holds set_holds ys p" "sorted_wrt (<) xs" "sorted_wrt (<) ys"
      "zs = filter (\<lambda>x. x \<notin> set ys) xs" using h by auto
    show ?thesis
    proof (cases xs)
      case Nil
      obtain s' where s': "set_next s = Some (None, s')" "set_holds [] s'" using set_it.next_end [of s] x(1) Nil by blast
      have "difference_holds [] (DStitch s' p)"
        unfolding difference_holds.simps using s'(2) x(2,4) by (intro exI [of _ "[]"] exI [of _ ys]) simp
      then show ?thesis using s'(1) x(5) Nil DStitch by (simp add: difference_next_def)
    next
      case (Cons x xs')
      obtain s' where s': "set_next s = Some (Some x, s')" "set_holds xs' s'" using set_it.next_item [of x xs' s] x(1) Cons by blast
      show ?thesis
        using difference_stitch_ok [OF s'(2) x(2) x(3) [unfolded Cons] x(4)] s'(1) x(5) Cons DStitch
        by (auto simp: difference_next_def simp del: difference_holds.simps)
    qed
  next
    case (DSearch s other)
    then obtain xs where "set_holds xs s" "sorted_wrt (<) xs" "set_inv other" "zs = filter (\<lambda>x. x \<notin> elems other) xs"
      using h by auto
    then show ?thesis using search_loop_ok [of other xs s False] DSearch by (auto simp: difference_next_def)
  qed
qed

section \<open>Intersection\<close>

fun intersection_holds :: "'k :: linorder list \<Rightarrow> 'k intersection \<Rightarrow> bool" where
  "intersection_holds zs (IStitch s o') \<longleftrightarrow>
     (\<exists>xs ys. set_holds xs s \<and> set_holds ys o' \<and> sorted_wrt (<) xs \<and> sorted_wrt (<) ys \<and>
        zs = filter (\<lambda>x. x \<in> set ys) xs)"
| "intersection_holds zs (ISearch s other) \<longleftrightarrow>
     (\<exists>xs. set_holds xs s \<and> set_inv other \<and> zs = filter (\<lambda>x. x \<in> elems other) xs)"

lemma common_below:
  fixes x y :: "'k :: linorder"
  assumes "sorted_wrt (<) (x # xs)" "sorted_wrt (<) (y # ys)"
  shows "x < y \<Longrightarrow> filter (\<lambda>z. z \<in> set (y # ys)) (x # xs) = filter (\<lambda>z. z \<in> set (y # ys)) xs"
    "y < x \<Longrightarrow> filter (\<lambda>z. z \<in> set (y # ys)) (x # xs) = filter (\<lambda>z. z \<in> set ys) (x # xs)"
    "filter (\<lambda>z. z \<in> set (x # ys)) xs = filter (\<lambda>z. z \<in> set ys) xs"
proof -
  show "x < y \<Longrightarrow> filter (\<lambda>z. z \<in> set (y # ys)) (x # xs) = filter (\<lambda>z. z \<in> set (y # ys)) xs"
    using sorted_below [OF assms(2)] by simp
  show "filter (\<lambda>z. z \<in> set (y # ys)) (x # xs) = filter (\<lambda>z. z \<in> set ys) (x # xs)" if "y < x"
    by (rule filter_cong) (use sorted_below [OF assms(1) that] in auto)
  show "filter (\<lambda>z. z \<in> set (x # ys)) xs = filter (\<lambda>z. z \<in> set ys) xs"
    by (rule filter_cong) (use assms(1) in auto)
qed

lemma intersection_end:
  "set_holds [] s \<Longrightarrow> set_holds ys p \<Longrightarrow> sorted_wrt (<) ys \<Longrightarrow> intersection_holds [] (IStitch s p)"
  "set_holds xs s \<Longrightarrow> set_holds [] p \<Longrightarrow> sorted_wrt (<) xs \<Longrightarrow> intersection_holds [] (IStitch s p)"
  by (fastforce intro: exI [of _ "[]"])+

lemma intersection_stitch_ok:
  fixes x y :: "'k :: linorder"
  assumes "set_holds xs s" "set_holds ys p" "sorted_wrt (<) (x # xs)" "sorted_wrt (<) (y # ys)"
  shows "\<exists>s' p'. intersection_stitch x y s p = Some (head_opt (filter (\<lambda>z. z \<in> set (y # ys)) (x # xs)), s', p') \<and>
     intersection_holds (tl (filter (\<lambda>z. z \<in> set (y # ys)) (x # xs))) (IStitch s' p')"
  using assms
proof (induction "length xs + length ys" arbitrary: x xs y ys s p rule: less_induct)
  case less
  note so = less.prems(3,4) and cb = common_below [OF less.prems(3,4)]
  have tails: "sorted_wrt (<) xs" "sorted_wrt (<) ys" using so by simp_all
  consider (lt) "x < y" | (eq) "x = y" | (gt) "y < x" by fastforce
  then show ?case
  proof cases
    case eq
    have "intersection_stitch x y s p = Some (Some x, s, p)" using eq by (subst intersection_stitch.simps) simp
    moreover have "intersection_holds (filter (\<lambda>z. z \<in> set ys) xs) (IStitch s p)" using less.prems(1,2) tails by auto
    ultimately show ?thesis using eq cb(3) by simp
  next
    case lt
    show ?thesis
    proof (cases xs)
      case Nil
      obtain s' where s': "set_next s = Some (None, s')" "set_holds [] s'" using set_it.next_end [of s] less.prems(1) Nil by blast
      have "intersection_stitch x y s p = Some (None, s', p)" using lt s'(1) by (subst intersection_stitch.simps) simp
      then show ?thesis using intersection_end(1) [OF s'(2) less.prems(2) tails(2)] cb(1) [OF lt] Nil by simp
    next
      case (Cons x' xs')
      obtain s' where s': "set_next s = Some (Some x', s')" "set_holds xs' s'"
        using set_it.next_item [of x' xs' s] less.prems(1) Cons by blast
      have "intersection_stitch x y s p = intersection_stitch x' y s' p" using lt s'(1) by (subst intersection_stitch.simps) simp
      then show ?thesis
        using less.hyps [of xs' ys s' p x' y, OF _ s'(2) less.prems(2) _ so(2)] tails(1) cb(1) [OF lt] Cons by simp
    qed
  next
    case gt
    show ?thesis
    proof (cases ys)
      case Nil
      obtain p' where p': "set_next p = Some (None, p')" "set_holds [] p'" using set_it.next_end [of p] less.prems(2) Nil by blast
      have "intersection_stitch x y s p = Some (None, s, p')" using gt p'(1) by (subst intersection_stitch.simps) simp
      then show ?thesis using intersection_end(2) [OF less.prems(1) p'(2) tails(1)] cb(2) [OF gt] Nil by simp
    next
      case (Cons y' ys')
      obtain p' where p': "set_next p = Some (Some y', p')" "set_holds ys' p'"
        using set_it.next_item [of y' ys' p] less.prems(2) Cons by blast
      have "intersection_stitch x y s p = intersection_stitch x y' s p'" using gt p'(1) by (subst intersection_stitch.simps) simp
      then show ?thesis
        using less.hyps [of xs ys' s p' x y', OF _ less.prems(1) p'(2) so(1)] tails(2) cb(2) [OF gt] Cons by simp
    qed
  qed
qed

interpretation intersection: item_iterator intersection_next intersection_holds
proof
  fix zs :: "'k :: linorder list" and d assume h: "intersection_holds zs d"
  show "\<exists>d'. intersection_next d = Some (head_opt zs, d') \<and> intersection_holds (tl zs) d'"
  proof (cases d)
    case (IStitch s p)
    then obtain xs ys where x: "set_holds xs s" "set_holds ys p" "sorted_wrt (<) xs" "sorted_wrt (<) ys"
      "zs = filter (\<lambda>x. x \<in> set ys) xs" using h by auto
    obtain s' p' where n: "set_next s = Some (head_opt xs, s')" "set_holds (tl xs) s'"
      "set_next p = Some (head_opt ys, p')" "set_holds (tl ys) p'"
      using set_it.next_law [OF x(1)] set_it.next_law [OF x(2)] by blast
    show ?thesis
    proof (cases "xs = [] \<or> ys = []")
      case True
      have "intersection_holds [] (IStitch s' p)" if "xs = []"
        using intersection_end(1) n(2) x(2,4) that by simp
      moreover have "intersection_holds [] (IStitch s' p')" if "ys = []"
        using intersection_end(2) [OF n(2)] n(4) x(3) that by (cases xs) simp_all
      ultimately show ?thesis
        using True n(1,3) x(5) IStitch by (cases xs; cases ys) (simp_all add: intersection_next_def del: intersection_holds.simps)
    next
      case False
      then obtain x xs' y ys' where xy: "xs = x # xs'" "ys = y # ys'" by (auto simp: neq_Nil_conv)
      obtain a b where "intersection_stitch x y s' p' = Some (head_opt zs, a, b)" "intersection_holds (tl zs) (IStitch a b)"
        using intersection_stitch_ok [of xs' s' ys' p' x y] n(2,4) x(3-5) xy by (auto simp del: intersection_holds.simps)
      then show ?thesis using n(1,3) xy IStitch by (simp add: intersection_next_def)
    qed
  next
    case (ISearch s other)
    then obtain xs where "set_holds xs s" "set_inv other" "zs = filter (\<lambda>x. x \<in> elems other) xs" using h by auto
    then show ?thesis using search_loop_ok [of other xs s True] ISearch by (auto simp: intersection_next_def)
  qed
qed

section \<open>Union and symmetric difference\<close>

text \<open>What merging two sorted lists returns.\<close>

fun union_list :: "'k :: linorder list \<Rightarrow> 'k list \<Rightarrow> 'k list" where
  "union_list [] ys = ys"
| "union_list (x # xs) [] = x # xs"
| "union_list (x # xs) (y # ys) =
     (if x < y then x # union_list xs (y # ys)
      else if y < x then y # union_list (x # xs) ys
      else x # union_list xs ys)"

fun sym_list :: "'k :: linorder list \<Rightarrow> 'k list \<Rightarrow> 'k list" where
  "sym_list [] ys = ys"
| "sym_list (x # xs) [] = x # xs"
| "sym_list (x # xs) (y # ys) =
     (if x < y then x # sym_list xs (y # ys)
      else if y < x then y # sym_list (x # xs) ys
      else sym_list xs ys)"

lemma union_list_simps [simp]: "union_list xs [] = xs" "sym_list xs [] = xs"
  by (cases xs; simp)+

lemma union_list_set: "set (union_list xs ys) = set xs \<union> set ys"
  by (induction xs ys rule: union_list.induct) auto

lemma union_list_sorted:
  "sorted_wrt (<) xs \<Longrightarrow> sorted_wrt (<) ys \<Longrightarrow> sorted_wrt (<) (union_list xs ys)"
  by (induction xs ys rule: union_list.induct) (auto simp: union_list_set not_less_iff_gr_or_eq)

lemma sym_list_set:
  "sorted_wrt (<) xs \<Longrightarrow> sorted_wrt (<) ys \<Longrightarrow> set (sym_list xs ys) = (set xs - set ys) \<union> (set ys - set xs)"
proof (induction xs ys rule: sym_list.induct)
  case (3 x xs y ys)
  have n: "y < x \<Longrightarrow> y \<notin> set (x # xs)" "x < y \<Longrightarrow> x \<notin> set (y # ys)" using sorted_below 3(4,5) by blast+
  have "x \<notin> set xs" "y \<notin> set ys" "sorted_wrt (<) xs" "sorted_wrt (<) ys" using 3(4,5) by auto
  then show ?case using 3 n by (cases "x < y"; cases "y < x") auto
qed auto

lemma sym_list_sorted:
  "sorted_wrt (<) xs \<Longrightarrow> sorted_wrt (<) ys \<Longrightarrow> sorted_wrt (<) (sym_list xs ys)"
proof (induction xs ys rule: sym_list.induct)
  case (3 x xs y ys)
  have s: "sorted_wrt (<) xs" "sorted_wrt (<) ys" using 3(4,5) by auto
  consider "x < y" | "y < x" | "x = y" by fastforce
  then show ?case
    using 3 s by cases (auto simp: sym_list_set [OF s(1) 3(5)] sym_list_set [OF 3(4) s(2)])
qed auto

fun pair_holds :: "('k :: linorder list \<Rightarrow> 'k list \<Rightarrow> 'k list) \<Rightarrow> 'k list \<Rightarrow> 'k merge_pair \<Rightarrow> bool" where
  "pair_holds f zs d \<longleftrightarrow> (\<exists>xs ys. peek_holds set_holds xs (merge_a d) \<and> peek_holds set_holds ys (merge_b d) \<and> zs = f xs ys)"

declare pair_holds.simps [simp del]

lemma pair_holdsI: "peek_holds set_holds xs a \<Longrightarrow> peek_holds set_holds ys b \<Longrightarrow> pair_holds f (f xs ys) \<lparr>merge_a = a, merge_b = b\<rparr>"
  by (auto simp: pair_holds.simps)

lemma cmp_opt_heads:
  fixes xs ys :: "'k :: linorder list"
  obtains (less) x xs' where "xs = x # xs'" "cmp_opt (head_opt xs) (head_opt ys) Greater Less = Less" "ys = [] \<or> x < hd ys"
  | (equal) x xs' ys' where "xs = x # xs'" "ys = x # ys'" "cmp_opt (head_opt xs) (head_opt ys) Greater Less = Equal"
  | (greater) y ys' where "ys = y # ys'" "cmp_opt (head_opt xs) (head_opt ys) Greater Less = Greater" "xs = [] \<or> y < hd xs"
  | (none) "xs = []" "ys = []" "cmp_opt (head_opt xs) (head_opt ys) Greater Less = Greater"
proof (cases xs; cases ys)
  fix x xs' y ys' assume c: "xs = x # xs'" "ys = y # ys'"
  consider "x < y" | "y < x" | "x = y" by fastforce
  then show thesis using c less equal greater by cases (simp_all add: cmp_opt_def)
qed (use less greater none in \<open>simp_all add: cmp_opt_def\<close>)

interpretation union: item_iterator union_next "pair_holds union_list"
proof
  fix zs :: "'k :: linorder list" and d assume "pair_holds union_list zs d"
  then obtain xs ys where h: "peek_holds set_holds xs (merge_a d)" "peek_holds set_holds ys (merge_b d)" "zs = union_list xs ys"
    by (auto simp: pair_holds.simps)
  obtain a b where pk: "peek set_next (merge_a d) = Some (head_opt xs, a)" "peek_holds set_holds xs a"
    "peek set_next (merge_b d) = Some (head_opt ys, b)" "peek_holds set_holds ys b"
    using set_it.peek_law [OF h(1)] set_it.peek_law [OF h(2)] by blast
  obtain a' b' where nx: "peek_next set_next a = Some (head_opt xs, a')" "peek_holds set_holds (tl xs) a'"
    "peek_next set_next b = Some (head_opt ys, b')" "peek_holds set_holds (tl ys) b'"
    using set_it.peeking.next_law [OF pk(2)] set_it.peeking.next_law [OF pk(4)] by blast
  note st = pair_holdsI [OF nx(2) pk(4), of union_list] pair_holdsI [OF pk(2) nx(4), of union_list]
    pair_holdsI [OF nx(2,4), of union_list]
  show "\<exists>d'. union_next d = Some (head_opt zs, d') \<and> pair_holds union_list (tl zs) d'"
  proof (cases rule: cmp_opt_heads [of xs ys])
    case (less x xs')
    then show ?thesis using pk nx st(1) h(3) by (cases ys) (auto simp: union_next_def)
  next
    case (equal x xs' ys')
    then show ?thesis using pk nx st(3) h(3) by (auto simp: union_next_def)
  next
    case (greater y ys')
    then show ?thesis using pk nx st(2) h(3) by (cases xs) (auto simp: union_next_def not_less_iff_gr_or_eq)
  next
    case none
    then show ?thesis using pk nx st(2) h(3) by (auto simp: union_next_def)
  qed
qed

lemma symmetric_difference_next_ok:
  fixes xs ys :: "'k :: linorder list"
  assumes "peek_holds set_holds xs (merge_a d)" "peek_holds set_holds ys (merge_b d)"
  shows "\<exists>d'. symmetric_difference_next d = Some (head_opt (sym_list xs ys), d') \<and> pair_holds sym_list (tl (sym_list xs ys)) d'"
  using assms
proof (induction xs arbitrary: ys d rule: measure_induct_rule [of length])
  case (less xs)
  obtain a b where pk: "peek set_next (merge_a d) = Some (head_opt xs, a)" "peek_holds set_holds xs a"
    "peek set_next (merge_b d) = Some (head_opt ys, b)" "peek_holds set_holds ys b"
    using set_it.peek_law [OF less.prems(1)] set_it.peek_law [OF less.prems(2)] by blast
  obtain a' b' where nx: "peek_next set_next a = Some (head_opt xs, a')" "peek_holds set_holds (tl xs) a'"
    "peek_next set_next b = Some (head_opt ys, b')" "peek_holds set_holds (tl ys) b'"
    using set_it.peeking.next_law [OF pk(2)] set_it.peeking.next_law [OF pk(4)] by blast
  note st = pair_holdsI [OF nx(2) pk(4), of sym_list] pair_holdsI [OF pk(2) nx(4), of sym_list]
  show ?case
  proof (cases rule: cmp_opt_heads [of xs ys])
    case (less x xs')
    then show ?thesis using pk nx st(1) by (subst symmetric_difference_next.simps, cases ys) auto
  next
    case (equal x xs' ys')
    have "symmetric_difference_next d = symmetric_difference_next \<lparr>merge_a = a', merge_b = b'\<rparr>"
      using equal pk nx by (subst symmetric_difference_next.simps) simp
    then show ?thesis using less.IH [of xs' "\<lparr>merge_a = a', merge_b = b'\<rparr>" ys'] nx(2,4) equal by simp
  next
    case (greater y ys')
    then show ?thesis using pk nx st(2)
      by (subst symmetric_difference_next.simps, cases xs) (auto simp: not_less_iff_gr_or_eq)
  next
    case none
    then show ?thesis using pk nx st(2) by (subst symmetric_difference_next.simps) auto
  qed
qed

interpretation symmetric_difference: item_iterator symmetric_difference_next "pair_holds sym_list"
  by unfold_locales (metis pair_holds.simps symmetric_difference_next_ok)

section \<open>The operations\<close>

lemma intersection_start:
  assumes "set_inv s" "set_inv other"
  shows "intersection_holds (filter (\<lambda>x. x \<in> elems other) (elem_list s)) (IStitch (set_iter_new s) (set_iter_new other))"
    "intersection_holds (filter (\<lambda>x. x \<in> elems other) (elem_list s)) (ISearch (set_iter_new s) other)"
proof -
  note s = elem_list_props [OF assms(1)] and o = elem_list_props [OF assms(2)]
  show "intersection_holds (filter (\<lambda>x. x \<in> elems other) (elem_list s)) (IStitch (set_iter_new s) (set_iter_new other))"
    unfolding intersection_holds.simps using s o by (intro exI [of _ "elem_list s"] exI [of _ "elem_list other"]) simp
  show "intersection_holds (filter (\<lambda>x. x \<in> elems other) (elem_list s)) (ISearch (set_iter_new s) other)"
    unfolding intersection_holds.simps using s assms(2) by (intro exI [of _ "elem_list s"]) simp
qed

lemma set_operations_hold:
  assumes inv: "set_inv a" "set_inv b"
  shows "difference_holds (sorted_list_of_set (elems a - elems b)) (set_difference a b)"
    "intersection_holds (sorted_list_of_set (elems a \<inter> elems b)) (set_intersection a b)"
    "pair_holds union_list (sorted_list_of_set (elems a \<union> elems b)) (set_union a b)"
    "pair_holds sym_list (sorted_list_of_set ((elems a - elems b) \<union> (elems b - elems a))) (set_symmetric_difference a b)"
proof -
  note a = elem_list_props [OF inv(1)] and b = elem_list_props [OF inv(2)]
  have flt: "filter P (elem_list s) = sorted_list_of_set {x \<in> elems s. P x}" if "set_inv s" for P and s :: "'a btree_set"
    using elem_list_props [OF that] by (intro sorted_list_of_elems) (auto intro: sorted_wrt_filter)
  have pk: "peek_holds set_holds (elem_list s) (peekable_new (set_iter_new s))" if "set_inv s" for s :: "'a btree_set"
    using set_it.peekable_new_holds elem_list_props(5) [OF that] by blast
  have "elems a - elems b = {x \<in> elems a. x \<notin> elems b}" by auto
  then have d: "sorted_list_of_set (elems a - elems b) = filter (\<lambda>x. x \<notin> elems b) (elem_list a)"
    using flt [OF inv(1), of "\<lambda>x. x \<notin> elems b"] by simp
  have "difference_holds (filter (\<lambda>x. x \<notin> elems b) (elem_list a)) (DStitch (set_iter_new a) (peekable_new (set_iter_new b)))"
    unfolding difference_holds.simps
    using a b pk [OF inv(2)] by (intro exI [of _ "elem_list a"] exI [of _ "elem_list b"]) simp
  then show "difference_holds (sorted_list_of_set (elems a - elems b)) (set_difference a b)"
    unfolding d using a(1,5) inv(2) by (auto simp: set_difference_def simp del: difference_holds.simps(1))
  have i: "sorted_list_of_set (elems a \<inter> elems b) = filter (\<lambda>x. x \<in> elems b) (elem_list a)"
    "sorted_list_of_set (elems a \<inter> elems b) = filter (\<lambda>x. x \<in> elems a) (elem_list b)"
    using flt [OF inv(1), of "\<lambda>x. x \<in> elems b"] flt [OF inv(2), of "\<lambda>x. x \<in> elems a"]
    by (simp_all add: Int_def conj_commute)
  show "intersection_holds (sorted_list_of_set (elems a \<inter> elems b)) (set_intersection a b)"
    using i intersection_start [OF inv] intersection_start [OF inv(2,1)]
    by (cases "set_len a \<le> set_len b") (simp_all add: set_intersection_def del: intersection_holds.simps)
  have "union_list (elem_list a) (elem_list b) = sorted_list_of_set (elems a \<union> elems b)"
    using a(1,2) b(1,2) by (intro sorted_list_of_elems) (simp_all add: union_list_sorted union_list_set)
  then show "pair_holds union_list (sorted_list_of_set (elems a \<union> elems b)) (set_union a b)"
    using pair_holdsI [OF pk [OF inv(1)] pk [OF inv(2)], of union_list] by (simp add: set_union_def)
  have "sym_list (elem_list a) (elem_list b) = sorted_list_of_set ((elems a - elems b) \<union> (elems b - elems a))"
    using a(1,2) b(1,2) by (intro sorted_list_of_elems) (simp_all add: sym_list_sorted sym_list_set)
  then show "pair_holds sym_list (sorted_list_of_set ((elems a - elems b) \<union> (elems b - elems a))) (set_symmetric_difference a b)"
    using pair_holdsI [OF pk [OF inv(1)] pk [OF inv(2)], of sym_list] by (simp add: set_symmetric_difference_def)
qed

text \<open>Two small sets.\<close>

definition int_set :: "int list \<Rightarrow> int btree_set" where
  "int_set xs = \<lparr>set_map = \<lparr>root = Node (map (\<lambda>k. (k, ())) xs) [], height = 0, shared_root = False, map_length = length xs\<rparr>\<rparr>"

lemma int_set_ok:
  assumes "sorted_wrt (<) xs" "length xs \<le> 11"
  shows "set_inv (int_set xs)" "elems (int_set xs) = set xs"
proof -
  have e: "elem_list (int_set xs) = xs" by (simp add: elem_list_def int_set_def entries_def comp_def)
  show i: "set_inv (int_set xs)"
    using assms by (simp add: set_inv_def int_set_def map_inv_def root_ok_def sorted_keys_def entries_def comp_def CAPACITY_def B_def)
  show "elems (int_set xs) = set xs" using elem_list_props(2) [OF i] e by simp
qed

lemma sample_sets:
  "set_inv (int_set [1, 3, 5])" "set_inv (int_set [3, 4])" "elems (int_set [1, 3, 5]) = {1, 3, 5}" "elems (int_set [3, 4]) = {3, 4}"
  by (simp_all add: int_set_ok)

text \<open>C38: A loop over \<open>union\<close>, \<open>intersection\<close>, \<open>difference\<close> or \<open>symmetric_difference\<close> of two well-formed sets ends and
  returns the elements of the set it is named after, each once and in order, whichever strategy the sizes of
  the sets make it choose.\<close>

theorem btree_set_algebra:
  assumes "set_inv a" "set_inv b"
  shows "collect union_next (set_union a b) = Some (sorted_list_of_set (elems a \<union> elems b)) \<and>
     collect intersection_next (set_intersection a b) = Some (sorted_list_of_set (elems a \<inter> elems b)) \<and>
     collect difference_next (set_difference a b) = Some (sorted_list_of_set (elems a - elems b)) \<and>
     collect symmetric_difference_next (set_symmetric_difference a b) =
       Some (sorted_list_of_set ((elems a - elems b) \<union> (elems b - elems a)))"
  using set_operations_hold [OF assms] union.collect_holds intersection.collect_holds difference.collect_holds
    symmetric_difference.collect_holds by blast

theorem btree_set_algebra_witness:
  "collect union_next (set_union (int_set [1, 3, 5]) (int_set [3, 4])) = Some [1, 3, 4, 5] \<and>
   collect difference_next (set_difference (int_set [1, 3, 5]) (int_set [3, 4])) = Some [1, 5]"
  using btree_set_algebra [OF sample_sets(1,2)] sample_sets(3,4) by (simp add: insert_Diff_if)

section \<open>Comparisons\<close>

lemma subset_loop_ok:
  fixes xs ys :: "'k :: linorder list"
  assumes "set_holds (tl xs) x" "set_holds (tl ys) y" "sorted_wrt (<) xs" "sorted_wrt (<) ys"
  shows "subset_loop x y (head_opt xs) (head_opt ys) = Some (set xs \<subseteq> set ys)"
  using assms
proof (induction ys arbitrary: xs x y)
  case Nil
  then show ?case by (subst subset_loop.simps) (cases xs; simp)
next
  case (Cons b ys)
  obtain y' where y': "set_next y = Some (head_opt ys, y')" "set_holds (tl ys) y'"
    using set_it.next_law Cons.prems(2) by fastforce
  have sy: "sorted_wrt (<) ys" using Cons.prems(4) by simp
  show ?case
  proof (cases xs)
    case Nil
    then show ?thesis by (subst subset_loop.simps) simp
  next
    case xs: (Cons a xs')
    have sx: "sorted_wrt (<) (a # xs')" using Cons.prems(3) xs by simp
    consider (less) "b < a" | (greater) "a < b" | (equal) "b = a" by fastforce
    then show ?thesis
    proof cases
      case less
      have "subset_loop x y (head_opt xs) (head_opt (b # ys)) = subset_loop x y' (head_opt xs) (head_opt ys)"
        using less y'(1) xs by (subst subset_loop.simps) simp
      moreover have "set xs \<subseteq> set (b # ys) \<longleftrightarrow> set xs \<subseteq> set ys" using sorted_below [OF sx less] xs by auto
      ultimately show ?thesis using Cons.IH [OF Cons.prems(1) y'(2) Cons.prems(3) sy] by simp
    next
      case greater
      have "subset_loop x y (head_opt xs) (head_opt (b # ys)) = Some False" using greater xs by (subst subset_loop.simps) simp
      then show ?thesis using sorted_below [OF Cons.prems(4) greater] xs by auto
    next
      case equal
      obtain x' where x': "set_next x = Some (head_opt xs', x')" "set_holds (tl xs') x'"
        using set_it.next_law Cons.prems(1) xs by fastforce
      have "subset_loop x y (head_opt xs) (head_opt (b # ys)) = subset_loop x' y' (head_opt xs') (head_opt ys)"
        using equal y'(1) x'(1) xs by (subst subset_loop.simps) simp
      moreover have "set xs \<subseteq> set (b # ys) \<longleftrightarrow> set xs' \<subseteq> set ys" using sx equal xs by auto
      ultimately show ?thesis using Cons.IH [OF x'(2) y'(2) _ sy] sx by simp
    qed
  qed
qed

lemma subset_search_ok:
  assumes inv: "set_inv other" and "set_holds xs x"
  shows "subset_search x other = Some (set xs \<subseteq> elems other)"
  using assms(2)
proof (induction xs arbitrary: x)
  case Nil
  then show ?case using set_it.next_end [OF Nil] by (subst subset_search.simps) auto
next
  case (Cons v xs)
  obtain x' where "set_next x = Some (Some v, x')" "set_holds xs x'" using set_it.next_item [OF Cons.prems] by blast
  then show ?case using Cons.IH elem_list_props(6) [OF inv] by (subst subset_search.simps) simp
qed

lemma is_subset_ok:
  assumes "set_inv a" "set_inv b"
  shows "is_subset a b = Some (elems a \<subseteq> elems b)"
proof -
  note a = elem_list_props [OF assms(1)] and b = elem_list_props [OF assms(2)]
  have card: "set_len a = card (elems a)" "set_len b = card (elems b)"
    using a(1-3) b(1-3) by (metis distinct_card strict_sorted_iff)+
  have "\<not> elems a \<subseteq> elems b" if "set_len b < set_len a" using card_mono [OF b(4), of "elems a"] that card by auto
  moreover have "Option.bind (set_next (set_iter_new a)) (\<lambda>(v, x). Option.bind (set_next (set_iter_new b)) (\<lambda>(w, y). subset_loop x y v w)) =
      Some (elems a \<subseteq> elems b)"
  proof -
    obtain x y where "set_next (set_iter_new a) = Some (head_opt (elem_list a), x)" "set_holds (tl (elem_list a)) x"
      "set_next (set_iter_new b) = Some (head_opt (elem_list b), y)" "set_holds (tl (elem_list b)) y"
      using set_it.next_law [OF a(5)] set_it.next_law [OF b(5)] by blast
    then show ?thesis using subset_loop_ok [of "elem_list a" x "elem_list b" y] a(1,2) b(1,2) by simp
  qed
  ultimately show ?thesis using subset_search_ok [OF assms(2) a(5)] a(2) by (simp add: is_subset_def)
qed

text \<open>C39: \<open>is_subset\<close>, \<open>is_superset\<close> and \<open>is_disjoint\<close> of two well-formed sets decide what they are named after, on each
  of the paths that the sizes choose.\<close>

theorem btree_set_comparisons:
  assumes inv: "set_inv a" "set_inv b"
  shows "is_subset a b = Some (elems a \<subseteq> elems b) \<and> is_superset a b = Some (elems b \<subseteq> elems a) \<and>
     is_disjoint a b = Some (elems a \<inter> elems b = {})"
proof -
  let ?zs = "sorted_list_of_set (elems a \<inter> elems b)"
  have "finite (elems a \<inter> elems b)" using elem_list_props(4) [OF inv(1)] by simp
  then have "?zs = [] \<longleftrightarrow> elems a \<inter> elems b = {}" by simp
  moreover have "head_opt ?zs = None \<longleftrightarrow> ?zs = []" by (cases ?zs) simp_all
  ultimately have "is_disjoint a b = Some (elems a \<inter> elems b = {})"
    using intersection.next_law [OF set_operations_hold(2) [OF inv]] by (auto simp: is_disjoint_def)
  then show ?thesis using is_subset_ok [OF inv] is_subset_ok [OF inv(2,1)] by (simp add: is_superset_def)
qed

theorem btree_set_comparisons_witness:
  "is_subset (int_set [3, 4]) (int_set [1, 3, 5]) = Some False \<and> is_disjoint (int_set [3, 4]) (int_set [1, 3, 5]) = Some False"
  using btree_set_comparisons [OF sample_sets(2,1)] sample_sets(3,4) by simp

section \<open>Size hints\<close>

lemma set_holds_len: "set_holds xs it \<Longrightarrow> set_iter_len it = length xs"
  by (auto simp: set_holds_def iter_holds_def set_iter_len_def)

lemma peek_holds_len: "peek_holds set_holds xs p \<Longrightarrow> peek_len p = length xs"
  by (auto simp: peek_holds.simps peek_len_def set_holds_len split: option.splits)

lemma filter_len_lower:
  assumes "distinct xs"
  shows "length xs - length ys \<le> length (filter (\<lambda>x. x \<notin> set ys) xs)"
proof -
  have "card (set xs) - card (set ys) \<le> card (set xs - set ys)" by (rule diff_card_le_card_Diff) simp
  moreover have "card (set ys) \<le> length ys" by (rule card_length)
  moreover have "card (set xs - set ys) = length (filter (\<lambda>x. x \<notin> set ys) xs)"
    using distinct_card [of "filter (\<lambda>x. x \<notin> set ys) xs"] assms by (simp add: set_diff_eq)
  ultimately show ?thesis using distinct_card [OF assms] by simp
qed

lemma union_list_len: "max (length xs) (length ys) \<le> length (union_list xs ys)" "length (union_list xs ys) \<le> length xs + length ys"
  by (induction xs ys rule: union_list.induct) auto

lemma sym_list_len: "length (sym_list xs ys) \<le> length xs + length ys"
  by (induction xs ys rule: sym_list.induct) auto

definition within :: "nat \<times> nat \<Rightarrow> nat \<Rightarrow> bool" where
  "within h n \<longleftrightarrow> fst h \<le> n \<and> n \<le> snd h"

lemma difference_hint:
  assumes h: "difference_holds zs d"
  shows "within (difference_size_hint d) (length zs)"
proof (cases d)
  case (DStitch s p)
  then obtain xs ys where x: "set_holds xs s" "peek_holds set_holds ys p" "sorted_wrt (<) xs" "zs = filter (\<lambda>x. x \<notin> set ys) xs"
    using h by auto
  have "distinct xs" using x(3) by (simp add: strict_sorted_iff)
  from filter_len_lower [OF this, of ys] show ?thesis
    using x set_holds_len [OF x(1)] peek_holds_len [OF x(2)] DStitch by (simp add: within_def difference_size_hint_def)
next
  case (DSearch s other)
  then obtain xs where x: "set_holds xs s" "sorted_wrt (<) xs" "set_inv other" "zs = filter (\<lambda>x. x \<notin> elems other) xs"
    using h by auto
  have "distinct xs" using x(2) by (simp add: strict_sorted_iff)
  from filter_len_lower [OF this, of "elem_list other"] show ?thesis
    using x set_holds_len [OF x(1)] elem_list_props(2,3) [OF x(3)] DSearch by (simp add: within_def difference_size_hint_def)
qed

lemma intersection_hint: "intersection_holds zs d \<Longrightarrow> within (intersection_size_hint d) (length zs)"
  by (cases d) (auto simp: within_def intersection_size_hint_def set_holds_len)

lemma union_hint: "pair_holds union_list zs d \<Longrightarrow> within (union_size_hint d) (length zs)"
  by (auto simp: within_def union_size_hint_def Let_def pair_holds.simps peek_holds_len union_list_len [simplified])

lemma symmetric_difference_hint: "pair_holds sym_list zs d \<Longrightarrow> within (symmetric_difference_size_hint d) (length zs)"
  by (auto simp: within_def symmetric_difference_size_hint_def pair_holds.simps peek_holds_len sym_list_len)

text \<open>C40: After any number of calls of \<open>next\<close>, the \<open>size_hint\<close> of each of the four iterators is a lower and an upper bound for
  the number of elements it has yet to return.\<close>

theorem btree_set_size_hints:
  assumes "set_inv a" "set_inv b"
  shows "(\<exists>d. advance union_next n (set_union a b) = Some d \<and> within (union_size_hint d) (card (elems a \<union> elems b) - n)) \<and>
     (\<exists>d. advance intersection_next n (set_intersection a b) = Some d \<and>
        within (intersection_size_hint d) (card (elems a \<inter> elems b) - n)) \<and>
     (\<exists>d. advance difference_next n (set_difference a b) = Some d \<and>
        within (difference_size_hint d) (card (elems a - elems b) - n)) \<and>
     (\<exists>d. advance symmetric_difference_next n (set_symmetric_difference a b) = Some d \<and>
        within (symmetric_difference_size_hint d) (card ((elems a - elems b) \<union> (elems b - elems a)) - n))"
proof (intro conjI)
  note h = set_operations_hold [OF assms]
  have len: "length (drop n (sorted_list_of_set A)) = card A - n" for A :: "'a set" by simp
  show "\<exists>d. advance union_next n (set_union a b) = Some d \<and> within (union_size_hint d) (card (elems a \<union> elems b) - n)"
    using union.advance_holds [OF h(3), of n] union_hint len by metis
  show "\<exists>d. advance intersection_next n (set_intersection a b) = Some d \<and>
      within (intersection_size_hint d) (card (elems a \<inter> elems b) - n)"
    using intersection.advance_holds [OF h(2), of n] intersection_hint len by metis
  show "\<exists>d. advance difference_next n (set_difference a b) = Some d \<and>
      within (difference_size_hint d) (card (elems a - elems b) - n)"
    using difference.advance_holds [OF h(1), of n] difference_hint len by metis
  show "\<exists>d. advance symmetric_difference_next n (set_symmetric_difference a b) = Some d \<and>
      within (symmetric_difference_size_hint d) (card ((elems a - elems b) \<union> (elems b - elems a)) - n)"
    using symmetric_difference.advance_holds [OF h(4), of n] symmetric_difference_hint len by metis
qed

theorem btree_set_size_hints_witness:
  "\<exists>d. advance difference_next 1 (set_difference (int_set [1, 3, 5]) (int_set [3, 4])) = Some d \<and> within (difference_size_hint d) 1"
proof -
  have "card (elems (int_set [1, 3, 5]) - elems (int_set [3, 4])) - 1 = 1" unfolding sample_sets by (simp add: insert_Diff_if)
  then show ?thesis using btree_set_size_hints [OF sample_sets(1,2), of 1] by auto
qed

section \<open>Removal\<close>

text \<open>Removing, taking and clearing keep the tree well-formed and report what was there.\<close>

lemma btree_set_removal:
  assumes inv: "set_inv s"
  shows "\<exists>s'. set_remove s v = Some (v \<in> elems s, s') \<and> set_inv s' \<and> elems s' = elems s - {v}"
    "\<exists>s'. set_take s v = Some (if v \<in> elems s then Some v else None, s') \<and> set_inv s' \<and> elems s' = elems s - {v}"
    "\<exists>s' fr. set_clear s = Some (s', fr) \<and> set_inv s' \<and> elems s' = {} \<and> distinct (map snd fr)"
    "set_get s v = (if v \<in> elems s then Some v else None)"
proof -
  have m: "map_inv (set_map s)" using inv by (simp add: set_inv_def)
  obtain m' where r: "btree_remove (set_map s) v = Some (btree_get (set_map s) v, m')" "map_inv m'"
    "btree_get m' = (btree_get (set_map s))(v := None)" using bt.remove_law [OF m] by blast
  then show "\<exists>s'. set_remove s v = Some (v \<in> elems s, s') \<and> set_inv s' \<and> elems s' = elems s - {v}"
    by (auto simp: set_remove_def set_inv_def elems_def)
  obtain m'' where "recover_take (set_map s) v = Some (if btree_get (set_map s) v = None then None else Some v, m'')" "map_inv m''"
    "btree_get m'' = (btree_get (set_map s))(v := None)" using recover_take_ok [OF m] by blast
  then show "\<exists>s'. set_take s v = Some (if v \<in> elems s then Some v else None, s') \<and> set_inv s' \<and> elems s' = elems s - {v}"
    by (auto simp: set_take_def set_inv_def elems_def)
  obtain fr where fr: "btree_drop (set_map s) = Some (entries (set_map s), fr)" "distinct (map snd fr)"
    using btree_drop_frees_all [OF m] by blast
  have "elems \<lparr>set_map = btree_new\<rparr> = ({} :: 'a set)" using bt.get_new by (auto simp: elems_def)
  moreover have "set_clear s = Some (\<lparr>set_map = btree_new\<rparr>, fr)" using fr(1) by (simp add: set_clear_def btree_clear_def)
  moreover have "set_inv \<lparr>set_map = (btree_new :: ('a, unit) btree_map)\<rparr>" using bt.inv_new by (simp add: set_inv_def)
  ultimately show "\<exists>s' fr. set_clear s = Some (s', fr) \<and> set_inv s' \<and> elems s' = {} \<and> distinct (map snd fr)" using fr(2) by blast
  show "set_get s v = (if v \<in> elems s then Some v else None)"
    using recover_get_ok [OF m, of v] by (auto simp: set_get_def elems_def)
qed

end
