(* ===== verification/User_Init.thy ===== *)
theory User_Init
  imports Crabapi
begin

text \<open>
  User programs over the library: the first program \<open>userland/init/src/main.rs\<close>, and \<open>task.rs\<close> and \<open>panic.rs\<close> of
  \<open>userland/crabapi\<close>.

  The program runs on the system call stubs of \<open>Crabapi\<close>: slices are addresses and lengths in its own memory, and \<open>sto\<close> is how
  the program stores bytes there.  Where the compiler and the linker put the literals and the buffers is in a layout record.  A program
  ends in the panic handler, with the message; \<open>None\<close> is a call that does not return, such as the exit of a task.
\<close>

section \<open>Definitions\<close>

type_synonym 's store = "u64 \<Rightarrow> u8 list \<Rightarrow> 's \<Rightarrow> 's option"

text \<open>A panic of the user program: its message, with the registers and the state at that point.\<close>

type_synonym 's user_end = "u8 list \<times> registers \<times> 's"

text \<open>ASCII text as the bytes of a byte string.\<close>

definition ascii :: "string \<Rightarrow> u8 list" where
  "ascii t = map (\<lambda>c. of_nat (of_char c)) t"

text \<open>\<open>task::exit\<close>: the code after the system call is \<open>unreachable!()\<close>.\<close>

definition task_exit :: "'s trap \<Rightarrow> u64 \<Rightarrow> registers \<Rightarrow> 's \<Rightarrow> 's user_end option" where
  "task_exit trap code rs s = do {
     (_, rs, s) \<leftarrow> api_exit trap code rs s;
     Some (ascii ''internal error: entered unreachable code'', rs, s) }"

definition expect_then :: "('a sys_result \<times> registers \<times> 's) option \<Rightarrow> string \<Rightarrow> ('a \<Rightarrow> registers \<Rightarrow> 's \<Rightarrow> 's user_end option)
    \<Rightarrow> 's user_end option" where
  "expect_then x msg k = do {
     (r, rs, s) \<leftarrow> x;
     (case r of Inl _ \<Rightarrow> Some (ascii msg, rs, s) | Inr v \<Rightarrow> k v rs s) }"

record init_layout =
  buf32 :: u64
  welcome_lit :: u64
  path_lit :: u64
  buf128 :: u64

definition greeting :: "u8 list" where
  "greeting = [0x0a, 0x0a] @ ascii ''Welcome.'' @ [0x0a, 0x0a]"

definition init_path :: "u8 list" where
  "init_path = ascii ''/init.bin''"

definition init_main :: "'s trap \<Rightarrow> 's store \<Rightarrow> init_layout \<Rightarrow> registers \<Rightarrow> 's \<Rightarrow> 's user_end option" where
  "init_main trap sto la rs s = do {
     s \<leftarrow> sto (buf32 la) (replicate 32 0) s;
     expect_then (api_console_read trap (buf32 la) 32 rs s) ''Console::read'' (\<lambda>_ rs s.
     expect_then (write_all (api_console_write trap) (welcome_lit la) (of_nat (length greeting)) rs s) ''Console::write_all'' (\<lambda>_ rs s.
     expect_then (api_file_open trap (path_lit la) (of_nat (length init_path)) rs s) ''File::open'' (\<lambda>file rs s. do {
       s \<leftarrow> sto (buf128 la) (replicate 128 0) s;
       expect_then (api_file_read trap file (buf128 la) 128 rs s) ''File::read'' (\<lambda>_ rs s.
       expect_then (write_all (api_console_write trap) (buf128 la) 128 rs s) ''Console::write_all'' (\<lambda>_ rs s.
       task_exit trap 0 rs s)) }))) }"

text \<open>
  The panic handler.  The message is the list of pieces that formatting writes; \<open>astr cap pieces\<close> is what an \<open>ArrayString\<close> of the
  capacity holds afterwards.  The results of the system calls are ignored; after a call to \<open>exit\<close> that returned, the handler
  loops for ever.
\<close>

record panic_layout =
  panic_colon_lit :: u64
  panic_lit :: u64
  newline_lit :: u64
  at_lit :: u64
  colon_lit :: u64
  message_buff :: u64
  line_buff :: u64

definition user_write_bytes :: "'s trap \<Rightarrow> u64 \<Rightarrow> u64 \<Rightarrow> registers \<times> 's \<Rightarrow> (registers \<times> 's) option" where
  "user_write_bytes trap buf len rss = map_option snd (api_write_stream trap CONSOLE_HANDLE buf len (fst rss) (snd rss))"

definition user_write_stored :: "'s trap \<Rightarrow> 's store \<Rightarrow> u64 \<Rightarrow> u8 list \<Rightarrow> registers \<times> 's \<Rightarrow> (registers \<times> 's) option" where
  "user_write_stored trap sto buf bs rss = do {
     s \<leftarrow> sto buf bs (snd rss);
     user_write_bytes trap buf (of_nat (length bs)) (fst rss, s) }"

definition user_panic_report :: "(nat \<Rightarrow> u8 list list \<Rightarrow> u8 list) \<Rightarrow> 's trap \<Rightarrow> 's store \<Rightarrow> panic_layout \<Rightarrow> u8 list list option
    \<Rightarrow> (u64 \<times> u64 \<times> u8 list list) option \<Rightarrow> registers \<times> 's \<Rightarrow> (registers \<times> 's) option" where
  "user_panic_report astr trap sto la message location rss = do {
     rss \<leftarrow> (case message of
            Some args \<Rightarrow> do {
              rss \<leftarrow> user_write_bytes trap (panic_colon_lit la) 7 rss;
              rss \<leftarrow> user_write_stored trap sto (message_buff la) (astr 1024 args) rss;
              user_write_bytes trap (newline_lit la) 1 rss }
          | None \<Rightarrow> user_write_bytes trap (panic_lit la) 6 rss);
     (case location of
        Some (file_ptr, file_len, line) \<Rightarrow> do {
          rss \<leftarrow> user_write_bytes trap (at_lit la) 4 rss;
          rss \<leftarrow> user_write_bytes trap file_ptr file_len rss;
          rss \<leftarrow> user_write_bytes trap (colon_lit la) 1 rss;
          rss \<leftarrow> user_write_stored trap sto (line_buff la) (astr 16 line) rss;
          user_write_bytes trap (newline_lit la) 1 rss }
      | None \<Rightarrow> Some rss) }"

definition user_panic :: "(nat \<Rightarrow> u8 list list \<Rightarrow> u8 list) \<Rightarrow> 's trap \<Rightarrow> 's store \<Rightarrow> panic_layout \<Rightarrow> u8 list list option
    \<Rightarrow> (u64 \<times> u64 \<times> u8 list list) option \<Rightarrow> registers \<times> 's \<Rightarrow> 's user_end option" where
  "user_panic astr trap sto la message location rss = do {
     (rs, s) \<leftarrow> user_panic_report astr trap sto la message location rss;
     _ \<leftarrow> api_exit trap (- 1) rs s;
     None }"

section \<open>The first program\<close>

lemma greeting_length: "length greeting = 12" "length init_path = 9"
  by (simp_all add: greeting_def init_path_def ascii_def)

lemma expect_then_simps [simp]:
  "expect_then None msg k = None" "expect_then (Some (Inl e, rs, s)) msg k = Some (ascii msg, rs, s)"
  "expect_then (Some (Inr v, rs, s)) msg k = k v rs s"
  by (simp_all add: expect_then_def)

text \<open>A program whose console works but whose file cannot be opened greets and panics, without reading or writing anything else.\<close>

lemma init_without_file:
  assumes "sto (buf32 la) (replicate 32 0) s = Some s1"
    and "api_console_read trap (buf32 la) 32 rs s1 = Some (Inr k, rs2, s2)"
    and "write_all (api_console_write trap) (welcome_lit la) 12 rs2 s2 = Some (Inr (), rs3, s3)"
    and "api_file_open trap (path_lit la) 9 rs3 s3 = Some (Inl e, rs4, s4)"
  shows "init_main trap sto la rs s = Some (ascii ''File::open'', rs4, s4)"
  using assms by (simp add: init_main_def greeting_length)

text \<open>The panic handler never returns.\<close>

lemma user_panic_diverges: "user_panic astr trap sto la message location rss = None"
  by (cases "user_panic_report astr trap sto la message location rss")
    (auto simp: user_panic_def split: option.splits bind_splits)

end
