(* ===== verification/Spec2Isabelle.thy ===== *)
theory Spec2Isabelle
  imports User_Contract Critical_Mutex Atomic_List Async_Mutex Task_Contract Syscall_Contract Heap_Objects
    Entry_Contract Stream_Contract BTree_Api BTree_Set_Contract User_Init
begin

text \<open>
  A verification development for CrabOS, a small x86-64 kernel in Rust with a library for user
  programs.  The sources are under \<open>src/\<close>; every definition that models code names its lines in
  the manifest.

  \<^bold>\<open>The program and the theories.\<close>  From the hardware upwards:

  \<^item> \<^bold>\<open>Memory.\<close>  \<open>Paging\<close> models the page tables of \<open>kernel/src/mem/page.rs\<close>: physical memory as a
    function from addresses to 64-bit words, the processor's walk (\<open>translate\<close>), and the recursive window
    through which the kernel reaches its own tables.  \<open>Phys\<close> is the allocator of physical pages
    (\<open>mem/phys.rs\<close>): a free list threaded through the free pages, a bump allocator behind it, and reference
    counts.  \<open>Page_Map\<close> adds \<open>map\<close>, \<open>unmap\<close>, page contexts and the start-up scans.  \<open>User_Memory\<close>
    is the validation of user pointers (\<open>mem/user.rs\<close>).  \<open>KVirt\<close> (\<open>mem/kvirt.rs\<close>) hands out pages of the kernel's address
    space, \<open>KAlloc\<close> (\<open>mem/kalloc.rs\<close>) carves them into blocks of the size classes, and \<open>Heap_Objects\<close>
    (\<open>boxed.rs\<close> and the kernel's \<open>sync/arc.rs\<close>) holds boxes and reference-counted objects in these blocks.
    \<open>Sample_Memory\<close> is a concrete machine for the witnesses.
  \<^item> \<^bold>\<open>Collections.\<close>  \<open>BTree_Node\<close>, \<open>BTree_Map\<close> and \<open>BTree_Range\<close> model the B-tree map of the crate
    \<open>alloc_collections\<close>, in which every allocation may fail: nodes with their slices, search, insertion with
    splits, removal with merges and steals, iteration and ranges.  \<open>BTree_Back\<close> adds iteration from both ends,
    \<open>BTree_Into\<close> the owning iterator and the destructor, with the nodes they free, \<open>BTree_Bulk\<close> the bulk
    operations \<open>append\<close>, \<open>split_off\<close> and \<open>clone\<close>, \<open>BTree_Entry\<close> entries, comparisons and \<open>Recover\<close>, \<open>BTree_Mut\<close>
    the mutable iterators, and \<open>BTree_Api\<close> the maps that all these operations build.  \<open>BTree_Set\<close> is the set over the map.
  \<^item> \<^bold>\<open>Synchronisation.\<close>  \<open>Critical_Mutex\<close> (\<open>critical.rs\<close>, \<open>sync/mutex.rs\<close>, \<open>util/early_init.rs\<close>),
    \<open>Atomic_List\<close> (\<open>util/atomic_list.rs\<close>) and \<open>Async_Mutex\<close> (\<open>sync/async_mutex.rs\<close>): the last two are step
    relations over the atomic instructions of the code, so that every interleaving is covered.  The items of the list are in blocks of
    the heap, and the iterator frees each block twice, as \<open>Box::into_inner\<close> does.  Which blocks an allocation may return is a parameter of the
    steps: the list is shown correct when it is never a block in use, which the double release does not guarantee, and a
    property shows what happens without it.
  \<^item> \<^bold>\<open>Objects and tasks.\<close>  \<open>Object_Table\<close> (\<open>object.rs\<close>), \<open>Trap\<close> (\<open>interrupt.rs\<close>: vectors and frames) and
    \<open>Task\<close> (\<open>task.rs\<close>: creation, the scheduler, wakers, the future of a running task; the allocator of the kernel heap is a
    parameter that may change the memory of the kernel, page tables included).  \<open>Kernel_Entry\<close> joins them: the
    interrupt handler with the interrupt controllers and the timer, the loop of a task's future, start-up up to the first user program
    (\<open>main.rs\<close>) and the panic handler.
  \<^item> \<^bold>\<open>Devices and files.\<close>  \<open>Ide\<close> (\<open>device/ide.rs\<close>), \<open>Mbr\<close> (\<open>device/mbr.rs\<close>), \<open>Fat16\<close> (\<open>fs/fat16.rs\<close>), \<open>Vfs\<close>
    (\<open>fs/vfs.rs\<close> and \<open>device/keyboard.rs\<close>), \<open>Console\<close> (\<open>console.rs\<close>, \<open>console/vga.rs\<close>) and \<open>Utf8_Parts\<close> (\<open>util/mod.rs\<close>).
  \<^item> \<^bold>\<open>System calls.\<close>  \<open>Interface\<close> (the crate shared with user programs), \<open>Syscall\<close> (\<open>syscall.rs\<close>) over the state of all the
    components above, and \<open>Crabapi\<close> (\<open>userland/crabapi\<close>), the stubs and types of user programs.  \<open>Stream_Contract\<close> follows a text from
    a user program to the console.  \<open>User_Init\<close> has the first user program and the panic handler of user programs, over the stubs.

  A theory that ends in \<open>_Contract\<close> (and \<open>Fat16_Disk\<close>, \<open>BTree_Api\<close>) holds the properties that span several theories.

  \<^bold>\<open>How code becomes definitions.\<close>  \<open>Crab_Prelude\<close> fixes the conventions: a machine integer is a word where its
  width matters, a panic (also a failed \<open>expect\<close>, an index out of bounds, an access to unmapped memory) is \<open>None\<close>, a
  \<open>Result\<close> is a sum, a loop that may panic is \<open>fold_opt\<close>, one that may also return early is \<open>fold_res\<close>.  The statics
  of the kernel are fields of records (\<open>kmem\<close>, \<open>kernel\<close>, \<open>sys\<close>) that are passed along.  Debug builds check
  overflow and release builds do not; where this matters it is a parameter.  Loops that may run for ever
  (\<open>wait_loop\<close> of the disk, the streams of the file system, \<open>switch_loop\<close>, \<open>write_all\<close>, loops over iterators) are
  \<open>partial_function (option)\<close>, so not returning is \<open>None\<close> too, and the theorems about them say that they return.
  The only fuel is in \<open>range_drain\<close> and \<open>utf8_valid_parts\<close>, which run an iterator a given number of times:
  one call more than there are entries (bytes) reaches the end, as \<open>btree_range_drain\<close> and \<open>utf8_parts_terminate\<close> show.

  \<^bold>\<open>Code outside the repository\<close> is an argument of the definitions that use it: the methods of \<open>bitflags\<close>,
  \<open>arrayvec\<close>, \<open>arraydeque\<close>, \<open>itertools\<close> and the port instructions of \<open>x86_64\<close>, the allocator behind the collections, the polling of
  futures.  What the theorems use of them is a named hypothesis (\<open>bitflags_from_bits\<close>,
  \<open>intersperse_ok\<close>, ...) that states its documented behaviour, and a witness shows that it can hold.

  \<^bold>\<open>Interfaces\<close> are locales: the page allocator (a stack of free pages), ordered maps (interpreted on the B-tree and used
  by the object table and the scheduler), numbered enums, handle tables, block devices (interpreted on the IDE
  driver with a partition, used by the file system), writers (interpreted on the system call of user programs to the
  console), machines with events that refine a specification (interpreted on the lock-free list and the stack), blocks of words in the heap, and
  iterators: \<open>double_ended\<close> (interpreted on the borrowing, the range and the owning iterator of the map; keys and values by a
  sublocale) and \<open>item_iterator\<close> (interpreted on the elements of a set, \<open>Peekable\<close> over them, and the four iterators of the set algebra).

  \<^bold>\<open>What is proved\<close>, by group: the recursive window is the processor's walk, and mapping and unmapping change exactly one
  page; the page allocator is a stack of distinct zeroed pages; the heap allocator returns aligned blocks that overlap no
  live one, and reference counts count the handles; the B-tree refines a finite map, every sequence of calls keeps its
  invariant, its iterators are double-ended queues of the entries, \<open>append\<close> and \<open>split_off\<close> are union and partition, writes
  through a mutable range change exactly that range, and an owning iterator frees every node once, wherever
  it is stopped; the iterators of the set algebra return the named sets, within their size hints; mutual exclusion in every interleaving; the lock-free list is a stack and
  no wake-up is lost in every interleaving on a heap that keeps its contract;
  validated user ranges stay in the user half; handles are fresh and private; new tasks have new ids; the scheduler is fair and a switch
  restores what it saved; the disk driver returns the sectors of the disk, partitions confine reads, a file read
  returns the consecutive bytes of its cluster chain, paths resolve name by name; text output never leaves video memory; and
  end to end, a user program's \<open>alloc_page\<close> maps fresh frames and nothing else, a system call goes through the handler, the
  loop of the scheduler and the dispatcher and changes no other task, interrupts are acknowledged, and \<open>write_all\<close> brings all of
  a text to the console and changes nothing else.  Where the code does not do what
  it means to do, a theorem states what it does: a failed insertion that loses entries, a page count that
  overflows, a wake-up that loses a frame, the last cluster of a directory that is never searched, a console
  write that never ends, a box that is freed twice, which breaks the lock-free list, a reference-counted block that is freed with the wrong size.

  \<^bold>\<open>Not modelled\<close>: the operations of the set that allocate (the module is commented out in the crate and these operations
  do not fit the map, whose insertions can fail), formatting, \<open>Debug\<close>, \<open>Hash\<close> and log output, \<open>c_panic\<close>, assembly
  (boot code, interrupt stubs, the jump to user mode), caches of the processor (TLB) and large pages.
\<close>

end
